(* ===== verification/Xv6_Prelude.thy ===== *)
theory Xv6_Prelude
  imports Main "HOL-Library.Word"
begin

text \<open>
  The prelude of the development: the outcome type every operation of the kernel model
  returns, the sequential state monad the operations are written in, total-correctness
  triples for it, the byte-addressed physical memory with its 64-bit accesses, and the
  generic facts on words, lists and locks the component theories share.

  \<^item> An operation is a function from a state to an \<open>outcome\<close>: it returns (\<open>Ok\<close>), calls
    \<open>panic\<close> (\<open>Panic\<close>, with the message), gives up the processor in \<open>sched\<close> (\<open>Sleep\<close>, with the state
    in which the other threads go on), does not end (\<open>Block\<close>: a spin on a lock that another hart holds,
    a loop that runs out of fuel), or leaves what C defines (\<open>UB\<close>, an access outside an array).
  \<^item> The collection \<open>kmon\<close> holds the rewrite rules that run an operation on a state, the
    collection \<open>wp\<close> the rules that push a postcondition through one.
\<close>

unbundle bit_operations_syntax

named_theorems kmon
named_theorems wp
named_theorems addr_arith

section \<open>Outcomes and the kernel monad\<close>

datatype ('s, 'a) outcome = Ok 'a | Panic string | Block | Sleep 's | UB string

type_synonym ('s, 'a) kmon = "'s \<Rightarrow> ('s, 'a \<times> 's) outcome"

definition kret :: "'a \<Rightarrow> ('s, 'a) kmon" where
  "kret x = (\<lambda>s. Ok (x, s))"

definition kbind :: "('s, 'a) kmon \<Rightarrow> ('a \<Rightarrow> ('s, 'b) kmon) \<Rightarrow> ('s, 'b) kmon" where
  "kbind m f = (\<lambda>s. case m s of Ok (x, t) \<Rightarrow> f x t | Panic e \<Rightarrow> Panic e | Block \<Rightarrow> Block | Sleep t \<Rightarrow> Sleep t
     | UB e \<Rightarrow> UB e)"

definition kgets :: "('s \<Rightarrow> 'a) \<Rightarrow> ('s, 'a) kmon" where
  "kgets f = (\<lambda>s. Ok (f s, s))"

definition kmodify :: "('s \<Rightarrow> 's) \<Rightarrow> ('s, unit) kmon" where
  "kmodify f = (\<lambda>s. Ok ((), f s))"

definition kpanic :: "string \<Rightarrow> ('s, 'a) kmon" where
  "kpanic e = (\<lambda>s. Panic e)"

definition kub :: "string \<Rightarrow> ('s, 'a) kmon" where
  "kub e = (\<lambda>s. UB e)"

definition kblock :: "('s, 'a) kmon" where
  "kblock = (\<lambda>s. Block)"

definition ksleep :: "('s, 'a) kmon" where
  "ksleep = (\<lambda>s. Sleep s)"

text \<open>A \<open>for\<close> loop whose body has no early exit.\<close>

primrec kfor :: "('a \<Rightarrow> ('s, unit) kmon) \<Rightarrow> 'a list \<Rightarrow> ('s, unit) kmon" where
  "kfor f [] = kret ()"
| "kfor f (x # xs) = kbind (f x) (\<lambda>_. kfor f xs)"

text \<open>A component's operation run on the part of a larger state that belongs to it.\<close>

definition klift :: "('t \<Rightarrow> 's) \<Rightarrow> ('s \<Rightarrow> 't \<Rightarrow> 't) \<Rightarrow> ('s, 'a) kmon \<Rightarrow> ('t, 'a) kmon" where
  "klift get put m = (\<lambda>t. case m (get t) of Ok (x, s) \<Rightarrow> Ok (x, put s t)
     | Panic e \<Rightarrow> Panic e | Block \<Rightarrow> Block | Sleep s \<Rightarrow> Sleep (put s t) | UB e \<Rightarrow> UB e)"

lemma kret_apply [simp, kmon]: "kret x s = Ok (x, s)"
  by (simp add: kret_def)

lemma kgets_apply [simp, kmon]: "kgets f s = Ok (f s, s)"
  by (simp add: kgets_def)

lemma kmodify_apply [simp, kmon]: "kmodify f s = Ok ((), f s)"
  by (simp add: kmodify_def)

lemma kpanic_apply [simp, kmon]: "kpanic e s = Panic e"
  by (simp add: kpanic_def)

lemma kub_apply [simp, kmon]: "kub e s = UB e"
  by (simp add: kub_def)

lemma kblock_apply [simp, kmon]: "kblock s = Block"
  by (simp add: kblock_def)

lemma ksleep_apply [simp, kmon]: "ksleep s = Sleep s"
  by (simp add: ksleep_def)

lemma kbind_apply [kmon]:
  "kbind m f s = (case m s of Ok (x, t) \<Rightarrow> f x t | Panic e \<Rightarrow> Panic e | Block \<Rightarrow> Block | Sleep t \<Rightarrow> Sleep t
     | UB e \<Rightarrow> UB e)"
  by (simp add: kbind_def)

lemma kbind_Ok [simp]: "m s = Ok (x, t) \<Longrightarrow> kbind m f s = f x t"
  by (simp add: kbind_def)

lemma kbind_Panic [simp]: "m s = Panic e \<Longrightarrow> kbind m f s = Panic e"
  by (simp add: kbind_def)

lemma kbind_UB [simp]: "m s = UB e \<Longrightarrow> kbind m f s = UB e"
  by (simp add: kbind_def)

lemma kbind_Block [simp]: "m s = Block \<Longrightarrow> kbind m f s = Block"
  by (simp add: kbind_def)

lemma kbind_Sleep [simp]: "m s = Sleep t \<Longrightarrow> kbind m f s = Sleep t"
  by (simp add: kbind_def)

lemma kbind_basic [simp]:
  "kbind (kret x) f s = f x s" "kbind (kgets g) f s = f (g s) s" "kbind (kmodify h) f s = f () (h s)"
  by (simp_all add: kbind_def)

lemma kbind_True [simp]: "m s = Ok (True, t) \<Longrightarrow> kbind m f s = f True t"
  by (simp add: kbind_def)

lemma kbind_False [simp]: "m s = Ok (False, t) \<Longrightarrow> kbind m f s = f False t"
  by (simp add: kbind_def)

lemma kbind_Ok_iff: "kbind m f s = Ok r \<longleftrightarrow> (\<exists>x t. m s = Ok (x, t) \<and> f x t = Ok r)"
  by (auto simp: kbind_def split: outcome.splits)

lemma kbind_OkE [elim]:
  assumes "kbind m f s = Ok r"
  obtains x t where "m s = Ok (x, t)" and "f x t = Ok r"
  using assms by (auto simp: kbind_Ok_iff)

lemma klift_Ok [simp]: "m (get t) = Ok (x, s) \<Longrightarrow> klift get put m t = Ok (x, put s t)"
  by (simp add: klift_def)

lemma klift_Panic [simp]: "m (get t) = Panic e \<Longrightarrow> klift get put m t = Panic e"
  by (simp add: klift_def)

lemma klift_Block [simp]: "m (get t) = Block \<Longrightarrow> klift get put m t = Block"
  by (simp add: klift_def)

lemma klift_Sleep [simp]: "m (get t) = Sleep s \<Longrightarrow> klift get put m t = Sleep (put s t)"
  by (simp add: klift_def)

lemma klift_UB [simp]: "m (get t) = UB e \<Longrightarrow> klift get put m t = UB e"
  by (simp add: klift_def)

lemma klift_Ok_iff:
  "klift get put m t = Ok (x, t') \<longleftrightarrow> (\<exists>s. m (get t) = Ok (x, s) \<and> t' = put s t)"
  by (auto simp: klift_def split: outcome.splits)

section \<open>Total-correctness triples\<close>

text \<open>
  \<open>khoare P m Q\<close>: from every state with \<open>P\<close>, the operation returns (no panic, no undefined
  access, no sleep) and result and final state satisfy \<open>Q\<close>.
\<close>

definition khoare :: "('s \<Rightarrow> bool) \<Rightarrow> ('s, 'a) kmon \<Rightarrow> ('a \<Rightarrow> 's \<Rightarrow> bool) \<Rightarrow> bool" where
  "khoare P m Q \<longleftrightarrow> (\<forall>s. P s \<longrightarrow> (\<exists>x t. m s = Ok (x, t) \<and> Q x t))"

lemma khoareI: "(\<And>s. P s \<Longrightarrow> \<exists>x t. m s = Ok (x, t) \<and> Q x t) \<Longrightarrow> khoare P m Q"
  by (simp add: khoare_def)

lemma khoareD: "khoare P m Q \<Longrightarrow> P s \<Longrightarrow> \<exists>x t. m s = Ok (x, t) \<and> Q x t"
  by (simp add: khoare_def)

lemma khoare_bind:
  assumes "khoare P m R" and "\<And>x. khoare (R x) (f x) Q"
  shows "khoare P (kbind m f) Q"
  using assms unfolding khoare_def by (metis kbind_Ok)

lemma khoare_conseq:
  assumes "khoare P' m Q'" and "\<And>s. P s \<Longrightarrow> P' s" and "\<And>x t. Q' x t \<Longrightarrow> Q x t"
  shows "khoare P m Q"
  using assms unfolding khoare_def by meson

section \<open>Machine words\<close>

type_synonym byte = "8 word"
type_synonym uint = "32 word"
type_synonym uint64 = "64 word"
type_synonym addr = "64 word"

lemma unat_lt_2p64 [simp]: "unat (a :: 64 word) < 18446744073709551616"
  using unsigned_less [of a] by simp

lemma unat_add_no_wrap:
  fixes a b :: "64 word"
  assumes "unat a + unat b < 18446744073709551616"
  shows "unat (a + b) = unat a + unat b"
  using assms by (simp add: unat_word_ariths)

lemma unat_add_of_nat:
  fixes a :: "64 word"
  assumes "unat a + i < 18446744073709551616"
  shows "unat (a + of_nat i) = unat a + i"
  using assms by (simp add: unat_word_ariths unat_of_nat)

lemma unat_sub_le:
  fixes a b :: "64 word"
  assumes "b \<le> a"
  shows "unat (a - b) = unat a - unat b"
  using assms by (simp add: unat_sub)

lemma word_eq_unatI: "unat a = unat b \<Longrightarrow> a = b"
  by (simp add: word_unat_eq_iff)

section \<open>Physical memory\<close>

text \<open>
  RAM and the kernel's own objects are bytes at 64-bit addresses. A 64-bit load or store (a page
  table entry, the \<open>next\<close> pointer of a free page) is little-endian, as RISC-V is.
\<close>

type_synonym memory = "addr \<Rightarrow> byte"

definition byte_of :: "uint64 \<Rightarrow> nat \<Rightarrow> byte" where
  "byte_of w i = ucast (drop_bit (8 * i) w)"

definition load64 :: "memory \<Rightarrow> addr \<Rightarrow> uint64" where
  "load64 m a = fold (\<lambda>i w. w OR push_bit (8 * i) (ucast (m (a + of_nat i)))) [0..<8] 0"

definition store64 :: "memory \<Rightarrow> addr \<Rightarrow> uint64 \<Rightarrow> memory" where
  "store64 m a w = fold (\<lambda>i m. m(a + of_nat i := byte_of w i)) [0..<8] m"

text \<open>
  Writing \<open>k\<close> consecutive bytes, in closed form. The condition \<open>unat (x - a) < k\<close> says that
  \<open>x\<close> is one of the \<open>k\<close> addresses from \<open>a\<close> on (modulo \<open>2 ^ 64\<close>).
\<close>

lemma fold_write_bytes:
  fixes a x :: addr
  assumes "k \<le> 18446744073709551616"
  shows "fold (\<lambda>i m. m(a + of_nat i := g i)) [0..<k] m x
    = (if unat (x - a) < k then g (unat (x - a)) else m x)"
  using assms
proof (induction k)
  case 0
  then show ?case by simp
next
  case (Suc k)
  have eq: "x = a + of_nat k \<longleftrightarrow> unat (x - a) = k"
  proof
    assume "x = a + of_nat k"
    then show "unat (x - a) = k" using Suc.prems by (simp add: unat_of_nat)
  next
    assume "unat (x - a) = k"
    then have "x - a = of_nat k" using word_of_nat_eq_iff by force
    then show "x = a + of_nat k" by (simp add: algebra_simps)
  qed
  show ?case
    using Suc eq by (auto simp: less_Suc_eq)
qed

lemma bit_fold_or:
  "bit (fold (\<lambda>i w. w OR f i) xs (v :: 64 word)) n \<longleftrightarrow> bit v n \<or> (\<exists>i\<in>set xs. bit (f i) n)"
  by (induction xs arbitrary: v) (auto simp: bit_or_iff)

lemma not_bit_byte: "8 \<le> n \<Longrightarrow> \<not> bit (x :: byte) n"
  by (auto dest: bit_imp_le_length)

lemma load64_bit:
  assumes "q < 8" and "r < 8"
  shows "bit (load64 m a) (8 * q + r) \<longleftrightarrow> bit (m (a + of_nat q)) r"
proof -
  have one: "bit (push_bit (8 * i) (ucast (m (a + of_nat i))) :: 64 word) (8 * q + r)
      \<longleftrightarrow> i = q \<and> bit (m (a + of_nat q)) r" (is "?l = ?r") for i
  proof -
    consider "i < q" | "i = q" | "q < i" by arith
    then show ?thesis
    proof cases
      case 1
      then have "8 \<le> 8 * q + r - 8 * i" by simp
      then show ?thesis using 1 by (simp add: bit_push_bit_iff bit_ucast_iff not_bit_byte)
    next
      case 2
      then show ?thesis using assms by (simp add: bit_push_bit_iff bit_ucast_iff)
    next
      case 3
      then have "\<not> 8 * i \<le> 8 * q + r" using assms by simp
      then show ?thesis using 3 by (simp add: bit_push_bit_iff)
    qed
  qed
  show ?thesis
    using assms(1) by (simp only: load64_def bit_fold_or one) auto
qed

lemma store64_apply:
  "store64 m a w x = (if unat (x - a) < 8 then byte_of w (unat (x - a)) else m x)"
  unfolding store64_def by (rule fold_write_bytes) simp

lemma store64_byte:
  assumes "q < 8"
  shows "store64 m a w (a + of_nat q) = byte_of w q"
  using assms by (simp add: store64_apply unat_of_nat)

lemma word64_eq_bytesI:
  fixes v w :: "64 word"
  assumes "\<And>q r. q < 8 \<Longrightarrow> r < 8 \<Longrightarrow> bit v (8 * q + r) = bit w (8 * q + r)"
  shows "v = w"
proof (rule bit_word_eqI)
  fix n assume "n < LENGTH(64)"
  then have "n div 8 < 8" and "n mod 8 < 8" by auto
  then have "bit v (8 * (n div 8) + n mod 8) = bit w (8 * (n div 8) + n mod 8)" by (rule assms)
  then show "bit v n = bit w n" by simp
qed

lemma load64_store64_same [simp]: "load64 (store64 m a w) a = w"
proof (rule word64_eq_bytesI)
  fix q r :: nat assume "q < 8" and "r < 8"
  then show "bit (load64 (store64 m a w) a) (8 * q + r) = bit w (8 * q + r)"
    by (simp only: load64_bit store64_byte byte_of_def bit_ucast_iff bit_drop_bit_eq) simp
qed

lemma store64_other: "\<not> unat (b - a) < 8 \<Longrightarrow> store64 m a w b = m b"
  by (simp add: store64_apply)

lemma load64_cong:
  assumes "\<And>i. i < 8 \<Longrightarrow> m (a + of_nat i) = m' (a + of_nat i)"
  shows "load64 m a = load64 m' a"
proof (rule word64_eq_bytesI)
  fix q r :: nat assume "q < 8" and "r < 8"
  then show "bit (load64 m a) (8 * q + r) = bit (load64 m' a) (8 * q + r)"
    by (simp only: load64_bit assms)
qed

text \<open>Two naturally aligned 64-bit cells are equal or do not overlap.\<close>

definition aligned8 :: "addr \<Rightarrow> bool" where
  "aligned8 a \<longleftrightarrow> 8 dvd unat a"

lemma aligned8_add:
  assumes "aligned8 a" and "i < 8"
  shows "unat (a + of_nat i) = unat a + i"
proof (rule unat_add_of_nat)
  from assms(1) obtain k where k: "unat a = 8 * k"
    unfolding aligned8_def by auto
  then have "8 * k < 18446744073709551616"
    using unat_lt_2p64 [of a] by simp
  then show "unat a + i < 18446744073709551616"
    using k assms(2) by simp
qed

lemma aligned8_disjoint:
  assumes "aligned8 a" and "aligned8 b" and "a \<noteq> b" and "i < 8" and "j < 8"
  shows "a + of_nat i \<noteq> b + of_nat j"
proof
  assume "a + of_nat i = b + of_nat j"
  then have "unat a + i = unat b + j"
    using aligned8_add [of a i] aligned8_add [of b j] assms by simp
  moreover from assms(1) obtain k where "unat a = 8 * k" unfolding aligned8_def by (elim dvdE)
  moreover from assms(2) obtain l where "unat b = 8 * l" unfolding aligned8_def by (elim dvdE)
  ultimately have "unat a = unat b"
    using assms(4,5) by simp
  then show False using assms(3) by (simp add: word_unat_eq_iff)
qed

lemma load64_store64_other [simp]:
  assumes "aligned8 a" and "aligned8 b" and "a \<noteq> b"
  shows "load64 (store64 m b w) a = load64 m a"
proof (rule load64_cong, rule store64_other)
  fix i :: nat assume i: "i < 8"
  show "\<not> unat (a + of_nat i - b) < 8"
  proof
    assume j: "unat (a + of_nat i - b) < 8"
    have "a + of_nat i = b + of_nat (unat (a + of_nat i - b))" by simp
    then show False using aligned8_disjoint [OF assms i j] by blast
  qed
qed

end
