(* ===== verification/Xv6_Params.thy ===== *)
theory Xv6_Params
  imports Xv6_Prelude
begin

text \<open>
  The constants and address macros of the kernel's headers (\<open>param.h\<close>, \<open>memlayout.h\<close>,
  \<open>riscv.h\<close>) at their C widths, and the facts about page rounding, page indices and page table
  entries that the memory components use.
\<close>

unbundle bit_operations_syntax

section \<open>Constants\<close>

abbreviation (input) PGSIZE :: uint64 where "PGSIZE \<equiv> 4096"
abbreviation (input) KERNBASE :: uint64 where "KERNBASE \<equiv> 0x80000000"
abbreviation (input) PHYSTOP :: uint64 where "PHYSTOP \<equiv> 0x88000000"
abbreviation (input) MAXVA :: uint64 where "MAXVA \<equiv> 0x4000000000"
abbreviation (input) TRAMPOLINE :: uint64 where "TRAMPOLINE \<equiv> 0x3FFFFFF000"
abbreviation (input) TRAPFRAME :: uint64 where "TRAPFRAME \<equiv> 0x3FFFFFE000"

text \<open>\<open>PHYSTOP / PGSIZE\<close>, the length of the array \<open>ref.refcount\<close>.\<close>

abbreviation (input) NREF :: nat where "NREF \<equiv> 557056"

definition KSTACK :: "nat \<Rightarrow> uint64" where
  "KSTACK p = TRAMPOLINE - (of_nat p + 1) * 2 * PGSIZE"

section \<open>Page rounding\<close>

definition PGROUNDUP :: "uint64 \<Rightarrow> uint64" where
  "PGROUNDUP sz = (sz + PGSIZE - 1) AND NOT (PGSIZE - 1)"

definition PGROUNDDOWN :: "uint64 \<Rightarrow> uint64" where
  "PGROUNDDOWN a = a AND NOT (PGSIZE - 1)"

definition page_aligned :: "uint64 \<Rightarrow> bool" where
  "page_aligned a \<longleftrightarrow> a mod PGSIZE = 0"

section \<open>Page table entries\<close>

abbreviation (input) PTE_V :: uint64 where "PTE_V \<equiv> 1"
abbreviation (input) PTE_R :: uint64 where "PTE_R \<equiv> 2"
abbreviation (input) PTE_W :: uint64 where "PTE_W \<equiv> 4"
abbreviation (input) PTE_X :: uint64 where "PTE_X \<equiv> 8"
abbreviation (input) PTE_U :: uint64 where "PTE_U \<equiv> 16"

definition PA2PTE :: "uint64 \<Rightarrow> uint64" where
  "PA2PTE pa = push_bit 10 (drop_bit 12 pa)"

definition PTE2PA :: "uint64 \<Rightarrow> uint64" where
  "PTE2PA pte = push_bit 12 (drop_bit 10 pte)"

definition PTE_FLAGS :: "uint64 \<Rightarrow> uint64" where
  "PTE_FLAGS pte = pte AND 0x3FF"

definition PX :: "nat \<Rightarrow> uint64 \<Rightarrow> uint64" where
  "PX level va = drop_bit (12 + 9 * level) va AND 0x1FF"

definition MAKE_SATP :: "uint64 \<Rightarrow> uint64" where
  "MAKE_SATP pagetable = push_bit 60 8 OR drop_bit 12 pagetable"

section \<open>Facts on page arithmetic\<close>

lemma mask12: "(4095 :: 64 word) = mask 12"
  by (simp add: mask_eq_exp_minus_1)

lemma PGROUNDDOWN_eq: "PGROUNDDOWN a = push_bit 12 (drop_bit 12 a)"
proof (rule bit_word_eqI)
  fix n assume "n < LENGTH(64)"
  then show "bit (PGROUNDDOWN a) n = bit (push_bit 12 (drop_bit 12 a)) n"
    by (cases "n < 12") (simp_all add: PGROUNDDOWN_def mask12 bit_and_iff bit_not_iff bit_mask_iff
      bit_push_bit_iff bit_drop_bit_eq)
qed

lemma unat_drop12: "unat (drop_bit 12 (a :: 64 word)) = unat a div 4096"
  by (simp add: drop_bit_eq_div unat_div)

lemma unat_PGROUNDDOWN: "unat (PGROUNDDOWN a) = unat a div 4096 * 4096"
proof -
  have "unat (push_bit 12 (drop_bit 12 a)) = unat (drop_bit 12 a) * 4096 mod 2 ^ 64"
    by (simp add: push_bit_eq_mult unat_word_ariths)
  moreover have "unat a div 4096 * 4096 < 18446744073709551616"
    using unat_lt_2p64 [of a] by (meson div_times_less_eq_dividend le_less_trans)
  ultimately show ?thesis by (simp add: PGROUNDDOWN_eq unat_drop12)
qed

lemma page_aligned_iff: "page_aligned a \<longleftrightarrow> 4096 dvd unat a"
  by (simp add: page_aligned_def word_unat_eq_iff unat_mod dvd_eq_mod_eq_0)

lemma page_aligned_PGROUNDDOWN [simp]: "page_aligned (PGROUNDDOWN a)"
  by (simp add: page_aligned_iff unat_PGROUNDDOWN)

lemma PGROUNDDOWN_aligned [simp]: "page_aligned a \<Longrightarrow> PGROUNDDOWN a = a"
  by (rule word_eq_unatI) (simp add: page_aligned_iff unat_PGROUNDDOWN)

lemma PGROUNDDOWN_le: "PGROUNDDOWN a \<le> a"
  by (simp add: word_le_nat_alt unat_PGROUNDDOWN)

lemma PGROUNDUP_eq: "PGROUNDUP a = PGROUNDDOWN (a + 4095)"
  by (simp add: PGROUNDUP_def PGROUNDDOWN_def add.commute)

lemma page_aligned_PGROUNDUP [simp]: "page_aligned (PGROUNDUP a)"
  by (simp add: PGROUNDUP_eq)

lemma unat_PGROUNDUP:
  assumes "unat a + 4095 < 18446744073709551616"
  shows "unat (PGROUNDUP a) = (unat a + 4095) div 4096 * 4096"
  using assms unat_add_no_wrap [of a 4095] by (simp add: PGROUNDUP_eq unat_PGROUNDDOWN)

section \<open>Facts on page table entries\<close>

lemma and_bit_iff: "(w :: 64 word) AND 2 ^ n = 0 \<longleftrightarrow> \<not> bit w n" if "n < 64"
proof -
  have "w AND 2 ^ n = (if bit w n then 2 ^ n else 0)"
    by (rule bit_word_eqI) (auto simp: bit_and_iff bit_exp_iff)
  moreover have "(2 :: 64 word) ^ n \<noteq> 0"
    using that by (simp add: exp_eq_zero_iff)
  ultimately show ?thesis by simp
qed

lemma PTE_bit_iff:
  "pte AND PTE_V = 0 \<longleftrightarrow> \<not> bit pte 0" "pte AND PTE_R = 0 \<longleftrightarrow> \<not> bit pte 1"
  "pte AND PTE_W = 0 \<longleftrightarrow> \<not> bit pte 2" "pte AND PTE_X = 0 \<longleftrightarrow> \<not> bit pte 3"
  "pte AND PTE_U = 0 \<longleftrightarrow> \<not> bit pte 4"
  using and_bit_iff [of 0 pte] and_bit_iff [of 1 pte] and_bit_iff [of 2 pte]
    and_bit_iff [of 3 pte] and_bit_iff [of 4 pte] by simp_all

lemma bit_lt_exp: "(w :: 64 word) < 2 ^ n \<Longrightarrow> n < 64 \<Longrightarrow> bit w i \<Longrightarrow> i < n"
proof -
  assume w: "w < 2 ^ n" and n: "n < 64" and b: "bit w i"
  have "unat ((2 :: 64 word) ^ n) = 2 ^ n"
    using n unat_of_nat [of "2 ^ n", where 'a = 64] power_strict_increasing [of n 64 "2 :: nat"]
    by simp
  with w have "unat w < 2 ^ n" by (simp add: word_less_nat_alt)
  then have "take_bit n (unat w) = unat w" by (simp add: take_bit_nat_eq_self_iff)
  moreover have "bit (unat w) i" using b by (simp add: bit_unsigned_iff)
  ultimately show "i < n" by (metis bit_take_bit_iff)
qed

lemma page_aligned_bit: "page_aligned a \<Longrightarrow> i < 12 \<Longrightarrow> \<not> bit a i"
  using PGROUNDDOWN_aligned [of a] by (metis PGROUNDDOWN_eq bit_push_bit_iff not_le)

lemma PTE2PA_PA2PTE:
  assumes "page_aligned pa" and "pa < 0x100000000000000" and "flags < 1024"
  shows "PTE2PA (PA2PTE pa OR flags) = pa"
proof (rule bit_word_eqI)
  fix n assume "n < LENGTH(64)"
  have f: "\<not> bit flags i" if "10 \<le> i" for i
    using bit_lt_exp [of flags 10 i] assms(3) that by auto
  have p: "\<not> bit pa i" if "56 \<le> i" for i
    using bit_lt_exp [of pa 56 i] assms(2) that by auto
  show "bit (PTE2PA (PA2PTE pa OR flags)) n = bit pa n"
  proof (cases "n < 12")
    case True
    then show ?thesis using page_aligned_bit [OF assms(1)]
      by (simp add: PTE2PA_def bit_push_bit_iff bit_or_iff)
  next
    case False
    then have "12 \<le> n" by simp
    then show ?thesis using f [of "n - 2"] p [of n] \<open>n < LENGTH(64)\<close>
      by (auto simp: PTE2PA_def PA2PTE_def bit_push_bit_iff bit_drop_bit_eq bit_or_iff)
  qed
qed

lemma PTE_FLAGS_PA2PTE:
  assumes "flags < 1024"
  shows "PTE_FLAGS (PA2PTE pa OR flags) = flags"
proof (rule bit_word_eqI)
  fix n assume "n < LENGTH(64)"
  have m: "(1023 :: 64 word) = mask 10" by (simp add: mask_eq_exp_minus_1)
  have "\<not> bit flags i" if "10 \<le> i" for i
    using bit_lt_exp [of flags 10 i] assms that by auto
  then show "bit (PTE_FLAGS (PA2PTE pa OR flags)) n = bit flags n"
    using \<open>n < LENGTH(64)\<close> by (cases "n < 10")
      (simp_all add: PTE_FLAGS_def PA2PTE_def m bit_and_iff bit_or_iff bit_mask_iff bit_push_bit_iff)
qed

lemma page_aligned_PTE2PA [simp]: "page_aligned (PTE2PA pte)"
proof -
  have "PTE2PA pte = PGROUNDDOWN (PTE2PA pte)"
    by (rule bit_word_eqI)
      (auto simp: PTE2PA_def PGROUNDDOWN_eq bit_push_bit_iff bit_drop_bit_eq)
  then show ?thesis by (metis page_aligned_PGROUNDDOWN)
qed

lemma PX_less: "unat (PX level va) < 512"
proof -
  have "PX level va \<le> 511" unfolding PX_def by (rule word_and_le1)
  then show ?thesis by (simp add: word_le_nat_alt)
qed

section \<open>Pages are disjoint\<close>

lemma page_aligned_aligned8: "page_aligned a \<Longrightarrow> aligned8 a"
  unfolding page_aligned_iff aligned8_def using dvd_trans [of 8 4096 "unat a"] by simp

lemma page_aligned_add:
  assumes "page_aligned a" and "i < 4096"
  shows "unat (a + of_nat i) = unat a + i"
proof (rule unat_add_of_nat)
  from assms(1) obtain k where k: "unat a = 4096 * k"
    unfolding page_aligned_iff by (elim dvdE)
  then have "4096 * k < 18446744073709551616"
    using unat_lt_2p64 [of a] by simp
  then show "unat a + i < 18446744073709551616"
    using k assms(2) by simp
qed

lemma page_offset_unique:
  assumes "page_aligned a" and "page_aligned b" and "i < 4096" and "j < 4096"
    and "a + of_nat i = b + of_nat j"
  shows "a = b \<and> i = j"
proof -
  have e: "unat a + i = unat b + j"
    using page_aligned_add [OF assms(1,3)] page_aligned_add [OF assms(2,4)] assms(5) by simp
  from assms(1) obtain k where k: "unat a = 4096 * k" unfolding page_aligned_iff by (elim dvdE)
  from assms(2) obtain l where l: "unat b = 4096 * l" unfolding page_aligned_iff by (elim dvdE)
  have "k = l" using e k l assms(3,4) by simp
  then show ?thesis using e k l by (simp add: word_unat_eq_iff)
qed

lemma page_disjoint:
  assumes "page_aligned p" and "page_aligned x" and "x \<noteq> p" and "i < 4096"
  shows "\<not> unat (x + of_nat i - p) < 4096"
proof
  assume j: "unat (x + of_nat i - p) < 4096"
  have "x + of_nat i = p + of_nat (unat (x + of_nat i - p))" by simp
  then show False using page_offset_unique [OF assms(2,1,4) j] assms(3) by blast
qed

end
