(* ===== verification/KString.thy ===== *)
theory KString
  imports Xv6_Params
begin

text \<open>
  \<open>kernel/string.c\<close>: the byte and string routines, on the byte-addressed memory. A count
  (\<open>uint n\<close>) is the number of iterations still to run, a pointer is an address, and each loop
  of the source is one recursive function over the count. \<open>strlen\<close> runs until it meets a NUL, so
  it is a partial function: \<open>None\<close> is a string that never ends.

  The lemmas give each routine in closed form: what \<open>memmove\<close> leaves in memory for every overlap
  of source and destination, when \<open>strncmp\<close> and \<open>memcmp\<close> return 0, what \<open>strncpy\<close> pads, that
  \<open>safestrcpy\<close> always terminates its result.
\<close>

section \<open>Routines\<close>

definition memset :: "memory \<Rightarrow> addr \<Rightarrow> byte \<Rightarrow> nat \<Rightarrow> memory" where
  "memset m dst c n = fold (\<lambda>i m. m(dst + of_nat i := c)) [0..<n] m"

fun memcmp :: "memory \<Rightarrow> addr \<Rightarrow> addr \<Rightarrow> nat \<Rightarrow> int" where
  "memcmp m s1 s2 0 = 0"
| "memcmp m s1 s2 (Suc n) =
     (if m s1 \<noteq> m s2 then uint (m s1) - uint (m s2) else memcmp m (s1 + 1) (s2 + 1) n)"

fun copy_forward :: "memory \<Rightarrow> addr \<Rightarrow> addr \<Rightarrow> nat \<Rightarrow> memory" where
  "copy_forward m d s 0 = m"
| "copy_forward m d s (Suc n) = copy_forward (m(d := m s)) (d + 1) (s + 1) n"

fun copy_backward :: "memory \<Rightarrow> addr \<Rightarrow> addr \<Rightarrow> nat \<Rightarrow> memory" where
  "copy_backward m d s 0 = m"
| "copy_backward m d s (Suc n) = copy_backward (m(d - 1 := m (s - 1))) (d - 1) (s - 1) n"

definition memmove :: "memory \<Rightarrow> addr \<Rightarrow> addr \<Rightarrow> nat \<Rightarrow> memory" where
  "memmove m dst src n =
     (if n = 0 then m
      else if src < dst \<and> src + of_nat n > dst
      then copy_backward m (dst + of_nat n) (src + of_nat n) n
      else copy_forward m dst src n)"

definition memcpy :: "memory \<Rightarrow> addr \<Rightarrow> addr \<Rightarrow> nat \<Rightarrow> memory" where
  "memcpy m dst src n = memmove m dst src n"

fun strncmp :: "memory \<Rightarrow> addr \<Rightarrow> addr \<Rightarrow> nat \<Rightarrow> int" where
  "strncmp m p q 0 = 0"
| "strncmp m p q (Suc n) =
     (if m p \<noteq> 0 \<and> m p = m q then strncmp m (p + 1) (q + 1) n else uint (m p) - uint (m q))"

fun strncpy_pad :: "memory \<Rightarrow> addr \<Rightarrow> nat \<Rightarrow> memory" where
  "strncpy_pad m s 0 = m"
| "strncpy_pad m s (Suc n) = strncpy_pad (m(s := 0)) (s + 1) n"

fun strncpy :: "memory \<Rightarrow> addr \<Rightarrow> addr \<Rightarrow> nat \<Rightarrow> memory" where
  "strncpy m s t 0 = m"
| "strncpy m s t (Suc n) =
     (if m t \<noteq> 0 then strncpy (m(s := m t)) (s + 1) (t + 1) n
      else strncpy_pad (m(s := m t)) (s + 1) n)"

text \<open>The argument is \<open>n\<close> before the test \<open>--n > 0\<close>; \<open>n <= 0\<close> returns at once.\<close>

fun safestrcpy :: "memory \<Rightarrow> addr \<Rightarrow> addr \<Rightarrow> nat \<Rightarrow> memory" where
  "safestrcpy m s t 0 = m"
| "safestrcpy m s t (Suc 0) = m(s := 0)"
| "safestrcpy m s t (Suc (Suc n)) =
     (if m t \<noteq> 0 then safestrcpy (m(s := m t)) (s + 1) (t + 1) (Suc n)
      else (m(s := m t))(s + 1 := 0))"

partial_function (option) strlen_from :: "memory \<Rightarrow> addr \<Rightarrow> nat \<Rightarrow> nat option" where
  "strlen_from m s n = (if m (s + of_nat n) = 0 then Some n else strlen_from m s (Suc n))"

definition strlen :: "memory \<Rightarrow> addr \<Rightarrow> nat option" where
  "strlen m s = strlen_from m s 0"

section \<open>Reading memory as lists\<close>

definition bytes_at :: "memory \<Rightarrow> addr \<Rightarrow> nat \<Rightarrow> byte list" where
  "bytes_at m a n = map (\<lambda>i. m (a + of_nat i)) [0..<n]"

text \<open>The C string at \<open>a\<close>, cut at \<open>n\<close> bytes.\<close>

definition cstr_at :: "memory \<Rightarrow> addr \<Rightarrow> nat \<Rightarrow> byte list" where
  "cstr_at m a n = takeWhile (\<lambda>b. b \<noteq> 0) (bytes_at m a n)"

lemma bytes_at_0 [simp]: "bytes_at m a 0 = []"
  by (simp add: bytes_at_def)

lemma bytes_at_Suc: "bytes_at m a (Suc n) = m a # bytes_at m (a + 1) n"
  by (simp add: bytes_at_def map_upt_Suc add.assoc del: upt_Suc)

lemma length_bytes_at [simp]: "length (bytes_at m a n) = n"
  by (simp add: bytes_at_def)

lemma nth_bytes_at [simp]: "i < n \<Longrightarrow> bytes_at m a n ! i = m (a + of_nat i)"
  by (simp add: bytes_at_def)

lemma bytes_at_cong: "(\<And>i. i < n \<Longrightarrow> m (a + of_nat i) = m' (a + of_nat i)) \<Longrightarrow> bytes_at m a n = bytes_at m' a n"
  by (simp add: bytes_at_def)

lemma cstr_at_0 [simp]: "cstr_at m a 0 = []"
  by (simp add: cstr_at_def)

lemma cstr_at_Suc: "cstr_at m a (Suc n) = (if m a = 0 then [] else m a # cstr_at m (a + 1) n)"
  by (simp add: cstr_at_def bytes_at_Suc)

section \<open>Closed forms\<close>

lemma memset_apply:
  "n \<le> 18446744073709551616 \<Longrightarrow>
    memset m dst c n x = (if unat (x - dst) < n then c else m x)"
  unfolding memset_def by (subst fold_write_bytes) auto

lemma memcmp_zero_iff: "memcmp m p q n = 0 \<longleftrightarrow> bytes_at m p n = bytes_at m q n"
  by (induction m p q n rule: memcmp.induct) (auto simp: bytes_at_Suc word_uint_eq_iff)

lemma strncmp_zero_iff: "strncmp m p q n = 0 \<longleftrightarrow> cstr_at m p n = cstr_at m q n"
  by (induction m p q n rule: strncmp.induct) (auto simp: cstr_at_Suc word_uint_eq_iff)

lemma strncmp_nonzero:
  "strncmp m p q n \<noteq> 0 \<Longrightarrow> \<exists>i<n. bytes_at m p i = bytes_at m q i \<and> m (p + of_nat i) \<noteq> m (q + of_nat i)
     \<and> strncmp m p q n = uint (m (p + of_nat i)) - uint (m (q + of_nat i))"
proof (induction m p q n rule: strncmp.induct)
  case (1 m p q)
  then show ?case by simp
next
  case (2 m p q n)
  show ?case
  proof (cases "m p \<noteq> 0 \<and> m p = m q")
    case True
    then obtain i where "i < n" "bytes_at m (p + 1) i = bytes_at m (q + 1) i"
        "m (p + 1 + of_nat i) \<noteq> m (q + 1 + of_nat i)"
        "strncmp m (p + 1) (q + 1) n = uint (m (p + 1 + of_nat i)) - uint (m (q + 1 + of_nat i))"
      using 2 by auto
    then show ?thesis using True by (intro exI [of _ "Suc i"]) (auto simp: bytes_at_Suc add.assoc)
  next
    case False
    then have "m p \<noteq> m q" using 2 by auto
    then show ?thesis using False by (intro exI [of _ 0]) auto
  qed
qed

lemma unat_diff_Suc:
  fixes x d :: addr
  assumes "x \<noteq> d"
  shows "unat (x - d) = Suc (unat (x - (d + 1)))"
proof -
  have "x - d \<noteq> 0" using assms by simp
  then have "unat (x - d - 1) = unat (x - d) - 1" by (simp add: unat_minus_one)
  moreover have "unat (x - d) \<noteq> 0" using \<open>x - d \<noteq> 0\<close> by (simp add: unat_eq_zero)
  ultimately show ?thesis by (simp add: algebra_simps)
qed

lemma offset_unique:
  fixes x d :: addr
  assumes "n < 18446744073709551616"
  shows "x = d + of_nat n \<longleftrightarrow> unat (x - d) = n"
proof
  assume "x = d + of_nat n"
  then show "unat (x - d) = n" using assms by (simp add: unat_of_nat)
next
  assume "unat (x - d) = n"
  then have "x - d = of_nat n" using word_of_nat_eq_iff by force
  then show "x = d + of_nat n" by (simp add: algebra_simps)
qed

lemma unat_add_offset:
  fixes s y :: addr
  assumes "unat s + n < 18446744073709551616" and "unat y \<le> n"
  shows "unat (s + y) = unat s + unat y"
  using assms by (intro unat_add_no_wrap) simp

lemma copy_forward_apply:
  assumes "unat s + n < 18446744073709551616" and "unat d + n < 18446744073709551616"
    and "unat d \<le> unat s \<or> unat s + n \<le> unat d"
  shows "copy_forward m d s n x = (if unat (x - d) < n then m (s + (x - d)) else m x)"
  using assms
proof (induction n arbitrary: m d s)
  case 0
  then show ?case by simp
next
  case (Suc n)
  have s1: "unat (s + 1) = unat s + 1" and d1: "unat (d + 1) = unat d + 1"
    using Suc.prems by (simp_all add: unat_add_no_wrap)
  have IH: "copy_forward (m(d := m s)) (d + 1) (s + 1) n x =
      (if unat (x - (d + 1)) < n then (m(d := m s)) (s + 1 + (x - (d + 1))) else (m(d := m s)) x)"
    by (rule Suc.IH) (use Suc.prems s1 d1 in auto)
  have shift: "s + 1 + (x - (d + 1)) = s + (x - d)" by (simp add: algebra_simps)
  show ?case
  proof (cases "x = d")
    case True
    have "x - (d + 1) = - 1" using True by (simp add: algebra_simps)
    then have "unat (x - (d + 1)) = 18446744073709551615"
      by (simp add: unsigned_minus_1_eq_mask mask_eq_exp_minus_1)
    then show ?thesis using True IH Suc.prems by simp
  next
    case False
    note sx = unat_diff_Suc [OF False]
    have "s + (x - d) \<noteq> d" if "unat (x - d) < Suc n"
    proof
      assume e: "s + (x - d) = d"
      have "unat (s + (x - d)) = unat s + unat (x - d)"
        using that Suc.prems by (intro unat_add_offset [of _ "Suc n"]) auto
      then have "unat d = unat s + unat (x - d)" unfolding e .
      then show False using that sx Suc.prems(3) by simp
    qed
    then show ?thesis using IH sx False by (simp add: shift)
  qed
qed

lemma copy_backward_apply:
  assumes "unat d + n < 18446744073709551616" and "unat s < unat d"
  shows "copy_backward m (d + of_nat n) (s + of_nat n) n x
    = (if unat (x - d) < n then m (s + (x - d)) else m x)"
  using assms
proof (induction n arbitrary: m)
  case 0
  then show ?case by simp
next
  case (Suc n)
  let ?m1 = "m(d + of_nat n := m (s + of_nat n))"
  have IH: "copy_backward ?m1 (d + of_nat n) (s + of_nat n) n x =
      (if unat (x - d) < n then ?m1 (s + (x - d)) else ?m1 x)"
    by (rule Suc.IH) (use Suc.prems in auto)
  have eq: "x = d + of_nat n \<longleftrightarrow> unat (x - d) = n"
    by (rule offset_unique) (use Suc.prems in simp)
  have ne: "s + (x - d) \<noteq> d + of_nat n" if "unat (x - d) < n"
  proof
    assume e: "s + (x - d) = d + of_nat n"
    have "unat (s + (x - d)) = unat s + unat (x - d)"
      using that Suc.prems by (intro unat_add_offset [of _ "Suc n"]) auto
    moreover have "unat (d + of_nat n) = unat d + n"
      using Suc.prems by (intro unat_add_of_nat) simp
    ultimately have "unat d + n = unat s + unat (x - d)" unfolding e by simp
    then show False using that Suc.prems by simp
  qed
  have "copy_backward m (d + of_nat (Suc n)) (s + of_nat (Suc n)) (Suc n) x
      = copy_backward ?m1 (d + of_nat n) (s + of_nat n) n x"
    by (simp add: algebra_simps)
  then show ?case using IH eq ne by auto
qed

text \<open>What \<open>memmove\<close> leaves in memory, whether or not the two ranges overlap.\<close>

lemma memmove_apply:
  assumes "unat src + n < 18446744073709551616" and "unat dst + n < 18446744073709551616"
  shows "memmove m dst src n x = (if unat (x - dst) < n then m (src + (x - dst)) else m x)"
proof -
  have cmp: "src < dst \<and> src + of_nat n > dst \<longleftrightarrow> unat src < unat dst \<and> unat dst < unat src + n"
    using assms by (simp add: word_less_nat_alt unat_add_of_nat)
  show ?thesis
  proof (cases "unat src < unat dst \<and> unat dst < unat src + n")
    case True
    then show ?thesis
      using copy_backward_apply [of dst n src] assms cmp by (simp add: memmove_def)
  next
    case False
    then show ?thesis
      using copy_forward_apply [of src n dst] assms cmp by (auto simp: memmove_def)
  qed
qed

section \<open>String copies\<close>

definition disjoint_ranges :: "addr \<Rightarrow> addr \<Rightarrow> nat \<Rightarrow> bool" where
  "disjoint_ranges s t n \<longleftrightarrow> (\<forall>i<n. \<forall>j<n. s + of_nat i \<noteq> t + of_nat j)"

lemma disjoint_ranges_Suc:
  assumes "disjoint_ranges s t (Suc n)"
  shows "disjoint_ranges (s + 1) (t + 1) n"
  unfolding disjoint_ranges_def
proof (intro allI impI)
  fix i j assume "i < n" and "j < n"
  with assms have "s + of_nat (Suc i) \<noteq> t + of_nat (Suc j)"
    unfolding disjoint_ranges_def by blast
  then show "s + 1 + of_nat i \<noteq> t + 1 + of_nat j" by (simp add: algebra_simps)
qed

lemma disjoint_rangesI:
  assumes "unat t + n \<le> unat s" and "unat s + n \<le> 18446744073709551616"
  shows "disjoint_ranges s t n"
  unfolding disjoint_ranges_def
proof (intro allI impI notI)
  fix i j assume ij: "i < n" "j < n" and e: "s + of_nat i = t + of_nat j"
  have "unat (s + of_nat i) = unat s + i" "unat (t + of_nat j) = unat t + j"
    using assms ij by (simp_all add: unat_add_of_nat)
  then show False using e assms ij by simp
qed

lemma disjoint_ranges_hd:
  assumes "disjoint_ranges s t (Suc n)" and "j < Suc n"
  shows "t + of_nat j \<noteq> s"
proof -
  have "s + of_nat 0 \<noteq> t + of_nat j"
    using assms unfolding disjoint_ranges_def by blast
  then show ?thesis by simp
qed

lemma cstr_at_upd_other: "(\<And>i. i < n \<Longrightarrow> a + of_nat i \<noteq> x) \<Longrightarrow> cstr_at (m(x := v)) a n = cstr_at m a n"
  unfolding cstr_at_def by (subst bytes_at_cong) auto

lemma offset_succ_nonzero:
  fixes s :: addr
  assumes "n < 18446744073709551616" and "i < n"
  shows "s + 1 + of_nat i \<noteq> s"
proof
  assume "s + 1 + of_nat i = s"
  then have "(of_nat (Suc i) :: 64 word) = 0" by (simp add: algebra_simps)
  then have "unat (of_nat (Suc i) :: 64 word) = 0" by (simp only: unat_0)
  then show False using assms by (simp add: unat_of_nat del: of_nat_Suc)
qed

lemma safestrcpy_other:
  "(\<And>i. i < n \<Longrightarrow> x \<noteq> s + of_nat i) \<Longrightarrow> safestrcpy m s t n x = m x"
proof (induction m s t n rule: safestrcpy.induct)
  case (1 m s t)
  then show ?case by simp
next
  case (2 m s t)
  then show ?case using "2.prems" [of 0] by simp
next
  case (3 m s t n)
  have hd: "x \<noteq> s" and sec: "x \<noteq> s + 1" using "3.prems" [of 0] "3.prems" [of 1] by auto
  have "x \<noteq> s + 1 + of_nat i" if "i < Suc n" for i
    using "3.prems" [of "Suc i"] that by (simp add: add.assoc)
  then show ?case using "3.IH" hd sec by (auto simp: fun_upd_def)
qed

lemma safestrcpy_cstr:
  assumes "n < 18446744073709551616" and "disjoint_ranges s t (Suc n)"
  shows "cstr_at (safestrcpy m s t (Suc n)) s (Suc n) = cstr_at m t n"
  using assms
proof (induction n arbitrary: m s t)
  case 0
  then show ?case by (simp add: cstr_at_Suc)
next
  case (Suc n)
  show ?case
  proof (cases "m t = 0")
    case True
    have "s \<noteq> s + 1" by simp
    then show ?thesis using True by (simp add: cstr_at_Suc)
  next
    case False
    let ?m1 = "m(s := m t)"
    have "cstr_at (safestrcpy ?m1 (s + 1) (t + 1) (Suc n)) (s + 1) (Suc n) = cstr_at ?m1 (t + 1) n"
      by (rule Suc.IH) (use Suc.prems disjoint_ranges_Suc in auto)
    also have "\<dots> = cstr_at m (t + 1) n"
    proof (rule cstr_at_upd_other)
      fix i assume "i < n"
      then show "t + 1 + of_nat i \<noteq> s"
        using disjoint_ranges_hd [OF Suc.prems(2), of "Suc i"] by (simp add: add.assoc)
    qed
    finally have tl: "cstr_at (safestrcpy ?m1 (s + 1) (t + 1) (Suc n)) (s + 1) (Suc n)
      = cstr_at m (t + 1) n" .
    have "safestrcpy ?m1 (s + 1) (t + 1) (Suc n) s = ?m1 s"
    proof (rule safestrcpy_other)
      fix i assume "i < Suc n"
      then show "s \<noteq> s + 1 + of_nat i"
        using offset_succ_nonzero [of "Suc n" i s] Suc.prems(1) by auto
    qed
    then show ?thesis using tl False by (simp add: cstr_at_Suc)
  qed
qed

lemma strncpy_pad_apply:
  "n \<le> 18446744073709551616 \<Longrightarrow> strncpy_pad m s n x = (if unat (x - s) < n then 0 else m x)"
proof (induction n arbitrary: m s)
  case 0
  then show ?case by simp
next
  case (Suc n)
  show ?case
  proof (cases "x = s")
    case True
    then show ?thesis using Suc by simp
  next
    case False
    then show ?thesis using Suc unat_diff_Suc [OF False] by auto
  qed
qed

lemma strlen_from_eq:
  assumes "\<And>i. n \<le> i \<Longrightarrow> i < k \<Longrightarrow> m (s + of_nat i) \<noteq> 0" and "m (s + of_nat k) = 0" and "n \<le> k"
  shows "strlen_from m s n = Some k"
  using assms
proof (induction "k - n" arbitrary: n)
  case 0
  then show ?case by (subst strlen_from.simps) simp
next
  case (Suc d)
  then have "n < k" by simp
  then have "strlen_from m s (Suc n) = Some k" using Suc by (intro Suc.hyps) auto
  then show ?case using Suc.prems \<open>n < k\<close> by (subst strlen_from.simps) simp
qed

lemma strlen_eq:
  "(\<And>i. i < k \<Longrightarrow> m (s + of_nat i) \<noteq> 0) \<Longrightarrow> m (s + of_nat k) = 0 \<Longrightarrow> strlen m s = Some k"
  unfolding strlen_def by (rule strlen_from_eq) auto

section \<open>Properties\<close>

text \<open>
  C35: \<open>memmove\<close> copies the \<open>n\<close> bytes that were at \<open>src\<close> to \<open>dst\<close> for every overlap of the two
  ranges (both inside the address space) and changes no byte outside the destination.
\<close>

theorem memmove_correct:
  assumes "unat src + n < 18446744073709551616" and "unat dst + n < 18446744073709551616"
  shows "bytes_at (memmove m dst src n) dst n = bytes_at m src n
    \<and> (\<forall>x. \<not> unat (x - dst) < n \<longrightarrow> memmove m dst src n x = m x)"
proof
  show "bytes_at (memmove m dst src n) dst n = bytes_at m src n"
    using assms by (intro nth_equalityI) (simp_all add: memmove_apply unat_of_nat)
  show "\<forall>x. \<not> unat (x - dst) < n \<longrightarrow> memmove m dst src n x = m x"
    using assms by (simp add: memmove_apply)
qed

theorem memmove_correct_witness:
  "bytes_at (memmove ucast 102 100 4) 102 4 = [100, 101, 102, 103]"
proof -
  have "bytes_at (memmove ucast 102 100 4) 102 4 = bytes_at ucast 100 4"
    using memmove_correct [of 100 4 102 ucast] by simp
  also have "\<dots> = [100, 101, 102, 103]" by (simp add: bytes_at_def upt_rec)
  finally show ?thesis .
qed

text \<open>
  \<open>strncmp\<close> returns 0 exactly when the two strings agree up to the first NUL or up to \<open>n\<close>
  bytes, whichever comes first; otherwise it returns the difference of the first bytes that differ.
\<close>

theorem strncmp_correct:
  "(strncmp m p q n = 0 \<longleftrightarrow> cstr_at m p n = cstr_at m q n)
   \<and> (strncmp m p q n \<noteq> 0 \<longrightarrow> (\<exists>i<n. bytes_at m p i = bytes_at m q i \<and> m (p + of_nat i) \<noteq> m (q + of_nat i)
       \<and> strncmp m p q n = uint (m (p + of_nat i)) - uint (m (q + of_nat i))))"
proof (intro conjI impI)
  show "strncmp m p q n = 0 \<longleftrightarrow> cstr_at m p n = cstr_at m q n" by (rule strncmp_zero_iff)
  show "strncmp m p q n \<noteq> 0 \<Longrightarrow> \<exists>i<n. bytes_at m p i = bytes_at m q i \<and> m (p + of_nat i) \<noteq> m (q + of_nat i)
       \<and> strncmp m p q n = uint (m (p + of_nat i)) - uint (m (q + of_nat i))"
    by (rule strncmp_nonzero)
qed

theorem strncmp_correct_witness:
  "strncmp ((\<lambda>_. 0)(100 := 46, 200 := 46, 201 := 46)) 100 200 14 \<noteq> 0"
proof -
  let ?m = "(\<lambda>_. 0)(100 := 46, 200 := 46, 201 := 46) :: memory"
  have "cstr_at ?m 100 14 = [46]" "cstr_at ?m 200 14 = [46, 46]"
    using cstr_at_Suc [of ?m 100 13] cstr_at_Suc [of ?m 101 12] cstr_at_Suc [of ?m 200 13]
      cstr_at_Suc [of ?m 201 12] cstr_at_Suc [of ?m 202 11] by simp_all
  then show ?thesis using strncmp_correct [of ?m 100 200 14] by simp
qed

text \<open>
  \<open>safestrcpy\<close> with \<open>n > 0\<close> leaves at \<open>s\<close> the string at \<open>t\<close>, cut at \<open>n - 1\<close> bytes, always
  NUL-terminated within the \<open>n\<close> bytes of the destination, and writes no other byte.
\<close>

theorem safestrcpy_correct:
  assumes "n < 18446744073709551616" and "disjoint_ranges s t (Suc n)"
  shows "cstr_at (safestrcpy m s t (Suc n)) s (Suc n) = cstr_at m t n
    \<and> length (cstr_at (safestrcpy m s t (Suc n)) s (Suc n)) \<le> n
    \<and> (\<forall>x. (\<forall>i<Suc n. x \<noteq> s + of_nat i) \<longrightarrow> safestrcpy m s t (Suc n) x = m x)"
proof -
  have "length (cstr_at m t n) \<le> n"
    using length_takeWhile_le [of "\<lambda>b. b \<noteq> 0" "bytes_at m t n"] by (simp add: cstr_at_def)
  then show ?thesis using safestrcpy_cstr [OF assms] safestrcpy_other by auto
qed

theorem safestrcpy_correct_witness:
  "cstr_at (safestrcpy ((\<lambda>_. 0)(100 := 115, 101 := 104)) 200 100 16) 200 16 = [115, 104]"
proof -
  let ?m = "(\<lambda>_. 0)(100 := 115, 101 := 104) :: memory"
  have "disjoint_ranges 200 100 (Suc 15)"
    by (rule disjoint_rangesI) simp_all
  then have "cstr_at (safestrcpy ?m 200 100 (Suc 15)) 200 (Suc 15) = cstr_at ?m 100 15"
    using safestrcpy_correct [of 15 200 100 ?m] by simp
  also have "\<dots> = [115, 104]"
    using cstr_at_Suc [of ?m 100 14] cstr_at_Suc [of ?m 101 13] cstr_at_Suc [of ?m 102 12] by simp
  finally show ?thesis by simp
qed

end
