(* ===== verification/Kalloc.thy ===== *)
theory Kalloc
  imports KString
begin

text \<open>
  \<open>kernel/kalloc.c\<close>: the physical page allocator with its reference counts. Free pages form a
  linked list through their own first eight bytes (\<open>struct run\<close>), so the list lives in the same
  memory that \<open>memset\<close> fills with junk; the model keeps it there. The two spin locks are flags of
  the state; \<open>end\<close>, the first address after the kernel that the linker sets, is the constant field
  \<open>kend\<close>. A reference count is a C \<open>int\<close>, kept as an integer: it counts mappings of a page, and
  an increment past \<open>2 ^ 31\<close> would need more page table entries than memory holds.

  The invariant \<open>kalloc_inv\<close> says that the list is well formed, has no duplicate, and holds
  exactly the pages of \<open>[end, PHYSTOP)\<close> whose count is 0. The locale \<open>page_allocator\<close> is the
  contract the rest of the kernel relies on; it is interpreted on these functions.
\<close>

unbundle bit_operations_syntax

section \<open>State\<close>

record phys =
  pmem :: memory
  kmem_lock :: bool
  freelist :: addr
  ref_lock :: bool
  refcount :: "nat \<Rightarrow> int"
  kend :: addr

definition lock_acquire :: "('s \<Rightarrow> bool) \<Rightarrow> ((bool \<Rightarrow> bool) \<Rightarrow> 's \<Rightarrow> 's) \<Rightarrow> ('s, unit) kmon" where
  "lock_acquire held upd = (\<lambda>s. if held s then Panic ''acquire'' else Ok ((), upd (\<lambda>_. True) s))"

definition lock_release :: "('s \<Rightarrow> bool) \<Rightarrow> ((bool \<Rightarrow> bool) \<Rightarrow> 's \<Rightarrow> 's) \<Rightarrow> ('s, unit) kmon" where
  "lock_release held upd = (\<lambda>s. if held s then Ok ((), upd (\<lambda>_. False) s) else Panic ''release'')"

section \<open>Operations\<close>

text \<open>\<open>ref.refcount[idx]\<close>, read and written; the array has \<open>PHYSTOP / PGSIZE\<close> elements.\<close>

definition refcount_read :: "nat \<Rightarrow> (phys, int) kmon" where
  "refcount_read idx = (if idx < NREF then kgets (\<lambda>s. refcount s idx) else kub ''refcount'')"

definition refcount_write :: "nat \<Rightarrow> int \<Rightarrow> (phys, unit) kmon" where
  "refcount_write idx v =
     (if idx < NREF then kmodify (\<lambda>s. s\<lparr>refcount := (refcount s)(idx := v)\<rparr>) else kub ''refcount'')"

definition pageidx :: "addr \<Rightarrow> nat" where
  "pageidx pa = unat (pa div PGSIZE)"

text \<open>The junk fill and the push on the free list, the same code in \<open>kfree\<close> and \<open>ref_dec\<close>.\<close>

definition push_free :: "addr \<Rightarrow> (phys, unit) kmon" where
  "push_free pa =
     kbind (kmodify (\<lambda>s. s\<lparr>pmem := memset (pmem s) pa 1 4096\<rparr>)) (\<lambda>_.
     kbind (lock_acquire kmem_lock kmem_lock_update) (\<lambda>_.
     kbind (kmodify (\<lambda>s. s\<lparr>pmem := store64 (pmem s) pa (freelist s)\<rparr>)) (\<lambda>_.
     kbind (kmodify (\<lambda>s. s\<lparr>freelist := pa\<rparr>)) (\<lambda>_.
     lock_release kmem_lock kmem_lock_update))))"

definition kfree :: "addr \<Rightarrow> (phys, unit) kmon" where
  "kfree pa =
     kbind (kgets kend) (\<lambda>e.
     if pa mod PGSIZE \<noteq> 0 \<or> pa < e \<or> pa \<ge> PHYSTOP then kpanic ''kfree'' else
     kbind (lock_acquire ref_lock ref_lock_update) (\<lambda>_.
     kbind (refcount_read (pageidx pa)) (\<lambda>r.
     if r \<le> 0 then kpanic ''kfree: freeing page with non-positive refcount'' else
     kbind (refcount_write (pageidx pa) (r - 1)) (\<lambda>_.
     kbind (refcount_read (pageidx pa)) (\<lambda>now.
     kbind (lock_release ref_lock ref_lock_update) (\<lambda>_.
     if now > 0 then kret () else push_free pa))))))"

definition kalloc :: "(phys, addr) kmon" where
  "kalloc =
     kbind (lock_acquire kmem_lock kmem_lock_update) (\<lambda>_.
     kbind (kgets freelist) (\<lambda>r.
     kbind (if r \<noteq> 0 then kmodify (\<lambda>s. s\<lparr>freelist := load64 (pmem s) r\<rparr>) else kret ()) (\<lambda>_.
     kbind (lock_release kmem_lock kmem_lock_update) (\<lambda>_.
     if r = 0 then kret 0 else
     kbind (kmodify (\<lambda>s. s\<lparr>pmem := memset (pmem s) r 5 4096\<rparr>)) (\<lambda>_.
     kbind (lock_acquire ref_lock ref_lock_update) (\<lambda>_.
     kbind (refcount_write (pageidx r) 1) (\<lambda>_.
     kbind (lock_release ref_lock ref_lock_update) (\<lambda>_. kret r))))))))"

definition ref_inc :: "addr \<Rightarrow> (phys, unit) kmon" where
  "ref_inc pa =
     (if pa mod PGSIZE \<noteq> 0 then kpanic ''ref_inc: pa not page aligned'' else
      kbind (lock_acquire ref_lock ref_lock_update) (\<lambda>_.
      kbind (refcount_read (pageidx pa)) (\<lambda>r.
      if r < 0 then kpanic ''ref_inc: negative refcount'' else
      kbind (refcount_write (pageidx pa) (r + 1)) (\<lambda>_.
      lock_release ref_lock ref_lock_update))))"

definition ref_dec :: "addr \<Rightarrow> (phys, unit) kmon" where
  "ref_dec pa =
     (if pa mod PGSIZE \<noteq> 0 then kpanic ''ref_dec: pa not page aligned'' else
      kbind (lock_acquire ref_lock ref_lock_update) (\<lambda>_.
      kbind (refcount_read (pageidx pa)) (\<lambda>r.
      if r \<le> 0 then kpanic ''ref_dec: decrementing non-positive refcount'' else
      kbind (refcount_write (pageidx pa) (r - 1)) (\<lambda>_.
      kbind (refcount_read (pageidx pa)) (\<lambda>now.
      kbind (lock_release ref_lock ref_lock_update) (\<lambda>_.
      if now > 0 then kret () else push_free pa))))))"

definition ref_get :: "addr \<Rightarrow> (phys, int) kmon" where
  "ref_get pa =
     (if pa mod PGSIZE \<noteq> 0 then kpanic ''ref_get: pa not page aligned'' else
      kbind (lock_acquire ref_lock ref_lock_update) (\<lambda>_.
      kbind (refcount_read (pageidx pa)) (\<lambda>v.
      kbind (lock_release ref_lock ref_lock_update) (\<lambda>_. kret v))))"

definition free_pages_available :: "(phys, bool) kmon" where
  "free_pages_available = kgets (\<lambda>s. freelist s \<noteq> 0)"

text \<open>
  The loop of \<open>freerange\<close> on fuel; running out (\<open>Block\<close>) stands for a loop that does not end.
\<close>

fun freerange_loop :: "nat \<Rightarrow> addr \<Rightarrow> addr \<Rightarrow> (phys, unit) kmon" where
  "freerange_loop 0 p pa_end = kblock"
| "freerange_loop (Suc fuel) p pa_end =
     (if p + PGSIZE \<le> pa_end then
        kbind (lock_acquire ref_lock ref_lock_update) (\<lambda>_.
        kbind (refcount_write (pageidx p) 1) (\<lambda>_.
        kbind (lock_release ref_lock ref_lock_update) (\<lambda>_.
        kbind (kfree p) (\<lambda>_.
        freerange_loop fuel (p + PGSIZE) pa_end))))
      else kret ())"

definition freerange :: "addr \<Rightarrow> addr \<Rightarrow> (phys, unit) kmon" where
  "freerange pa_start pa_end = freerange_loop (NREF + 1) (PGROUNDUP pa_start) pa_end"

definition kinit :: "(phys, unit) kmon" where
  "kinit =
     kbind (kmodify (\<lambda>s. s\<lparr>kmem_lock := False, ref_lock := False\<rparr>)) (\<lambda>_.
     kbind (kmodify (\<lambda>s. s\<lparr>refcount := (\<lambda>i. if i < NREF then 0 else refcount s i)\<rparr>)) (\<lambda>_.
     kbind (kgets kend) (\<lambda>e. freerange e PHYSTOP)))"

section \<open>The operations on a state with free locks\<close>

lemma pageidx_eq: "pageidx pa = unat pa div 4096"
  by (simp add: pageidx_def unat_div)

lemma pageidx_lt: "pa < PHYSTOP \<Longrightarrow> pageidx pa < NREF"
  by (simp add: pageidx_eq word_less_nat_alt less_mult_imp_div_less)

lemma pageidx_inj:
  assumes "page_aligned p" and "page_aligned q" and "pageidx p = pageidx q"
  shows "p = q"
proof -
  from assms(1) obtain k where "unat p = 4096 * k" unfolding page_aligned_iff by (elim dvdE)
  moreover from assms(2) obtain l where "unat q = 4096 * l" unfolding page_aligned_iff by (elim dvdE)
  ultimately show ?thesis using assms(3) by (simp add: pageidx_eq word_unat_eq_iff)
qed

definition unlocked :: "phys \<Rightarrow> bool" where
  "unlocked s \<longleftrightarrow> \<not> kmem_lock s \<and> \<not> ref_lock s"

lemmas kalloc_defs = lock_acquire_def lock_release_def refcount_read_def refcount_write_def
  kbind_def unlocked_def

definition pushed :: "addr \<Rightarrow> phys \<Rightarrow> phys" where
  "pushed pa s = s\<lparr>pmem := store64 (memset (pmem s) pa 1 4096) pa (freelist s), freelist := pa\<rparr>"

definition set_ref :: "addr \<Rightarrow> int \<Rightarrow> phys \<Rightarrow> phys" where
  "set_ref pa v s = s\<lparr>refcount := (refcount s)(pageidx pa := v)\<rparr>"

lemma push_free_eq: "unlocked s \<Longrightarrow> push_free pa s = Ok ((), pushed pa s)"
  by (cases s) (simp add: push_free_def pushed_def kalloc_defs)

lemma kalloc_none: "unlocked s \<Longrightarrow> freelist s = 0 \<Longrightarrow> kalloc s = Ok (0, s)"
  by (cases s) (simp add: kalloc_def kalloc_defs)

lemma kalloc_some:
  assumes "unlocked s" and "freelist s \<noteq> 0" and "pageidx (freelist s) < NREF"
  shows "kalloc s = Ok (freelist s, set_ref (freelist s) 1
    (s\<lparr>pmem := memset (pmem s) (freelist s) 5 4096, freelist := load64 (pmem s) (freelist s)\<rparr>))"
  using assms by (cases s) (simp add: kalloc_def kalloc_defs set_ref_def)

lemma ref_inc_eq:
  assumes "unlocked s" and "page_aligned pa" and "pageidx pa < NREF" and "0 \<le> refcount s (pageidx pa)"
  shows "ref_inc pa s = Ok ((), set_ref pa (refcount s (pageidx pa) + 1) s)"
  using assms by (cases s) (simp add: ref_inc_def kalloc_defs page_aligned_def set_ref_def)

lemma ref_get_eq:
  assumes "unlocked s" and "page_aligned pa" and "pageidx pa < NREF"
  shows "ref_get pa s = Ok (refcount s (pageidx pa), s)"
  using assms by (cases s) (simp add: ref_get_def kalloc_defs page_aligned_def)

lemma ref_dec_eq:
  assumes "unlocked s" and "page_aligned pa" and "pageidx pa < NREF" and "0 < refcount s (pageidx pa)"
  shows "ref_dec pa s = Ok ((), if refcount s (pageidx pa) = 1
      then pushed pa (set_ref pa 0 s) else set_ref pa (refcount s (pageidx pa) - 1) s)"
proof -
  have "unlocked (set_ref pa v s)" for v
    using assms(1) by (simp add: unlocked_def set_ref_def)
  then have "push_free pa (set_ref pa 0 s) = Ok ((), pushed pa (set_ref pa 0 s))"
    by (rule push_free_eq)
  then show ?thesis
    using assms by (cases s; cases "refcount s (pageidx pa) = 1")
      (simp_all add: ref_dec_def kalloc_defs page_aligned_def set_ref_def)
qed

definition page_ok :: "phys \<Rightarrow> addr \<Rightarrow> bool" where
  "page_ok s p \<longleftrightarrow> page_aligned p \<and> kend s \<le> p \<and> p < PHYSTOP"

lemma kfree_eq:
  assumes "unlocked s" and "page_ok s pa" and "0 < refcount s (pageidx pa)"
  shows "kfree pa s = Ok ((), if refcount s (pageidx pa) = 1
      then pushed pa (set_ref pa 0 s) else set_ref pa (refcount s (pageidx pa) - 1) s)"
proof -
  have "unlocked (set_ref pa v s)" for v
    using assms(1) by (simp add: unlocked_def set_ref_def)
  then have "push_free pa (set_ref pa 0 s) = Ok ((), pushed pa (set_ref pa 0 s))"
    by (rule push_free_eq)
  then show ?thesis
    using assms pageidx_lt [of pa]
    by (cases s; cases "refcount s (pageidx pa) = 1")
      (simp_all add: kfree_def kalloc_defs page_aligned_def page_ok_def set_ref_def not_less not_le)
qed

lemma kfree_bad_page: "\<not> page_ok s pa \<Longrightarrow> kfree pa s = Panic ''kfree''"
  by (auto simp: kfree_def kalloc_defs page_ok_def page_aligned_def)

lemma kfree_not_referenced:
  assumes "unlocked s" and "page_ok s pa" and "refcount s (pageidx pa) \<le> 0"
  shows "kfree pa s = Panic ''kfree: freeing page with non-positive refcount''"
  using assms pageidx_lt [of pa]
  by (simp add: kfree_def kalloc_defs page_ok_def page_aligned_def not_less not_le)

section \<open>The invariant\<close>

text \<open>\<open>xs\<close> is the list of pages reached from \<open>p\<close> through the \<open>next\<close> pointers, up to NULL.\<close>

fun free_chain :: "memory \<Rightarrow> addr \<Rightarrow> addr list \<Rightarrow> bool" where
  "free_chain m p [] \<longleftrightarrow> p = 0"
| "free_chain m p (x # xs) \<longleftrightarrow> p = x \<and> x \<noteq> 0 \<and> free_chain m (load64 m x) xs"

definition free_set :: "phys \<Rightarrow> addr set" where
  "free_set s = {p. page_ok s p \<and> refcount s (pageidx p) = 0}"

definition kalloc_inv :: "phys \<Rightarrow> bool" where
  "kalloc_inv s \<longleftrightarrow> unlocked s \<and> 0 < kend s \<and> (\<forall>i<NREF. 0 \<le> refcount s i)
     \<and> (\<exists>xs. free_chain (pmem s) (freelist s) xs \<and> distinct xs \<and> set xs = free_set s)"

lemma free_chain_cong:
  "(\<And>x. x \<in> set xs \<Longrightarrow> load64 m' x = load64 m x) \<Longrightarrow> free_chain m' p xs = free_chain m p xs"
  by (induction xs arbitrary: p) auto

lemma free_chain_unique: "free_chain m p xs \<Longrightarrow> free_chain m p ys \<Longrightarrow> xs = ys"
proof (induction xs arbitrary: p ys)
  case Nil
  then show ?case by (cases ys) auto
next
  case (Cons x xs)
  then show ?case by (cases ys) auto
qed

lemma load64_memset_page:
  assumes "page_aligned p" and "page_aligned x" and "x \<noteq> p"
  shows "load64 (memset m p c 4096) x = load64 m x"
proof (rule load64_cong)
  fix i :: nat assume "i < 8"
  then show "memset m p c 4096 (x + of_nat i) = m (x + of_nat i)"
    using page_disjoint [OF assms, of i] by (simp add: memset_apply)
qed

lemma page_ok_simps [simp]:
  "page_ok (set_ref pa v s) p = page_ok s p" "page_ok (pushed pa s) p = page_ok s p"
  by (simp_all add: page_ok_def set_ref_def pushed_def)

lemma page_okD: "page_ok s p \<Longrightarrow> page_aligned p" "page_ok s p \<Longrightarrow> pageidx p < NREF"
  by (simp_all add: page_ok_def pageidx_lt)

lemma pageidx_eq_iff: "page_ok s p \<Longrightarrow> page_ok s q \<Longrightarrow> pageidx p = pageidx q \<longleftrightarrow> p = q"
  using pageidx_inj page_okD(1) by blast

lemma kalloc_inv_set_ref_pos:
  assumes "kalloc_inv s" and "page_ok s pa" and "pa \<notin> free_set s" and "0 < v"
  shows "kalloc_inv (set_ref pa v s)"
proof -
  have "free_set (set_ref pa v s) = free_set s"
    using assms pageidx_eq_iff [of s pa] by (auto simp: free_set_def set_ref_def page_ok_def)
  then show ?thesis
    using assms by (simp add: kalloc_inv_def unlocked_def) (simp add: set_ref_def)
qed

lemma free_set_set_ref:
  assumes "page_ok s pa"
  shows "free_set (set_ref pa v s) = (if v = 0 then insert pa (free_set s) else free_set s - {pa})"
proof -
  have "pageidx q = pageidx pa \<longleftrightarrow> q = pa" if "page_ok s q" for q
    using pageidx_eq_iff [OF that assms] .
  then have "refcount (set_ref pa v s) (pageidx q) = (if q = pa then v else refcount s (pageidx q))"
    if "page_ok s q" for q
    using that by (simp add: set_ref_def)
  then have "q \<in> free_set (set_ref pa v s)
      \<longleftrightarrow> page_ok s q \<and> (if q = pa then v else refcount s (pageidx q)) = 0" for q
    by (auto simp: free_set_def)
  then show ?thesis using assms by (simp add: set_eq_iff) (auto simp: free_set_def)
qed

lemma free_set_pushed [simp]: "free_set (pushed pa s) = free_set s"
  by (simp add: free_set_def) (simp add: pushed_def)

lemma kalloc_inv_pushed:
  assumes "kalloc_inv s" and "page_ok s pa" and "pa \<notin> free_set s"
  shows "kalloc_inv (pushed pa (set_ref pa 0 s))"
    and "free_set (pushed pa (set_ref pa 0 s)) = insert pa (free_set s)"
proof -
  let ?t = "pushed pa (set_ref pa 0 s)"
  show fs: "free_set ?t = insert pa (free_set s)"
    by (simp add: free_set_set_ref [OF assms(2)])
  obtain xs where xs: "free_chain (pmem s) (freelist s) xs" "distinct xs" "set xs = free_set s"
    using assms(1) unfolding kalloc_inv_def by blast
  have pa: "page_aligned pa" and pos: "0 < kend s" "kend s \<le> pa"
    using assms(1,2) by (auto simp: kalloc_inv_def page_ok_def)
  have mem: "pmem ?t = store64 (memset (pmem s) pa 1 4096) pa (freelist s)"
    and fl: "freelist ?t = pa"
    by (simp_all add: pushed_def set_ref_def)
  have other: "load64 (pmem ?t) x = load64 (pmem s) x" if "x \<in> set xs" for x
  proof -
    have "page_aligned x" "x \<noteq> pa" using that xs(3) assms(3) by (auto simp: free_set_def page_ok_def)
    then show ?thesis
      using pa by (simp add: mem load64_store64_other page_aligned_aligned8 load64_memset_page)
  qed
  have "free_chain (pmem ?t) (freelist s) xs"
    using xs(1) other free_chain_cong by blast
  moreover have "pa \<noteq> 0" using pos by auto
  ultimately have "free_chain (pmem ?t) (freelist ?t) (pa # xs)"
    by (simp add: fl) (simp add: mem)
  moreover have "distinct (pa # xs)" "set (pa # xs) = free_set ?t"
    using xs fs assms(3) by simp_all
  moreover have "unlocked ?t" "0 < kend ?t" "\<forall>i<NREF. 0 \<le> refcount ?t i"
    using assms(1) by (auto simp: kalloc_inv_def unlocked_def pushed_def set_ref_def)
  ultimately show "kalloc_inv ?t" unfolding kalloc_inv_def by blast
qed

definition popped :: "phys \<Rightarrow> phys" where
  "popped s = set_ref (freelist s) 1 (s\<lparr>pmem := memset (pmem s) (freelist s) 5 4096,
     freelist := load64 (pmem s) (freelist s)\<rparr>)"

lemma kalloc_inv_empty_iff:
  assumes "kalloc_inv s"
  shows "freelist s = 0 \<longleftrightarrow> free_set s = {}" and "freelist s \<noteq> 0 \<Longrightarrow> freelist s \<in> free_set s"
proof -
  obtain xs where xs: "free_chain (pmem s) (freelist s) xs" "set xs = free_set s"
    using assms unfolding kalloc_inv_def by blast
  show "freelist s = 0 \<longleftrightarrow> free_set s = {}" "freelist s \<noteq> 0 \<Longrightarrow> freelist s \<in> free_set s"
    using xs by (cases xs; auto)+
qed

lemma kalloc_inv_popped:
  assumes "kalloc_inv s" and "freelist s \<noteq> 0"
  shows "kalloc_inv (popped s)" and "free_set (popped s) = free_set s - {freelist s}"
proof -
  let ?r = "freelist s"
  let ?u = "s\<lparr>pmem := memset (pmem s) ?r 5 4096, freelist := load64 (pmem s) ?r\<rparr>"
  obtain xs where xs: "free_chain (pmem s) ?r xs" "distinct xs" "set xs = free_set s"
    using assms(1) unfolding kalloc_inv_def by blast
  then obtain ys where ys: "xs = ?r # ys" using assms(2) by (cases xs) auto
  have ok: "page_ok s ?r" using kalloc_inv_empty_iff(2) [OF assms] by (simp add: free_set_def)
  have "page_ok ?u p = page_ok s p" for p by (simp add: page_ok_def)
  moreover have "free_set ?u = free_set s" by (simp add: free_set_def page_ok_def)
  ultimately show fs: "free_set (popped s) = free_set s - {?r}"
    using ok by (simp add: popped_def free_set_set_ref)
  have "load64 (memset (pmem s) ?r 5 4096) x = load64 (pmem s) x" if "x \<in> set ys" for x
  proof (rule load64_memset_page)
    show "page_aligned ?r" using ok by (rule page_okD)
    show "page_aligned x" "x \<noteq> ?r" using that xs ys by (auto simp: free_set_def page_ok_def)
  qed
  then have "free_chain (memset (pmem s) ?r 5 4096) (load64 (pmem s) ?r) ys
      = free_chain (pmem s) (load64 (pmem s) ?r) ys"
    by (rule free_chain_cong)
  then have "free_chain (memset (pmem s) ?r 5 4096) (load64 (pmem s) ?r) ys"
    using xs(1) unfolding ys by simp
  then have "free_chain (pmem (popped s)) (freelist (popped s)) ys"
    by (simp add: popped_def set_ref_def)
  moreover have "distinct ys" "set ys = free_set (popped s)"
    using xs ys fs by auto
  moreover have "unlocked (popped s)" "0 < kend (popped s)" "\<forall>i<NREF. 0 \<le> refcount (popped s) i"
    using assms(1) by (auto simp: kalloc_inv_def unlocked_def popped_def set_ref_def)
  ultimately show "kalloc_inv (popped s)" unfolding kalloc_inv_def by blast
qed

section \<open>The contract of the allocator\<close>

definition page_refs :: "phys \<Rightarrow> addr \<Rightarrow> int" where
  "page_refs s p = refcount s (pageidx p)"

text \<open>
  What the rest of the kernel relies on: \<open>alloc\<close> takes some available page and gives it one
  reference, or returns 0 when none is left; \<open>free\<close> and \<open>decr\<close> drop a reference, and the page
  becomes available exactly when the last one goes; \<open>incr\<close> adds one.
\<close>

locale page_allocator =
  fixes alloc :: "('s, addr) kmon"
    and free :: "addr \<Rightarrow> ('s, unit) kmon"
    and incr :: "addr \<Rightarrow> ('s, unit) kmon"
    and decr :: "addr \<Rightarrow> ('s, unit) kmon"
    and inv :: "'s \<Rightarrow> bool"
    and page :: "'s \<Rightarrow> addr \<Rightarrow> bool"
    and avail :: "'s \<Rightarrow> addr set"
    and refs :: "'s \<Rightarrow> addr \<Rightarrow> int"
  assumes avail_iff: "inv s \<Longrightarrow> p \<in> avail s \<longleftrightarrow> page s p \<and> refs s p = 0"
    and refs_nonneg: "inv s \<Longrightarrow> page s p \<Longrightarrow> 0 \<le> refs s p"
    and not_null: "inv s \<Longrightarrow> page s p \<Longrightarrow> p \<noteq> 0"
    and alloc_some: "inv s \<Longrightarrow> avail s \<noteq> {} \<Longrightarrow>
      \<exists>p t. alloc s = Ok (p, t) \<and> p \<in> avail s \<and> inv t \<and> page t = page s
        \<and> (\<forall>q. page s q \<longrightarrow> refs t q = (if q = p then 1 else refs s q))"
    and alloc_none: "inv s \<Longrightarrow> avail s = {} \<Longrightarrow> alloc s = Ok (0, s)"
    and free_ok: "inv s \<Longrightarrow> page s p \<Longrightarrow> 0 < refs s p \<Longrightarrow>
      \<exists>t. free p s = Ok ((), t) \<and> inv t \<and> page t = page s
        \<and> (\<forall>q. page s q \<longrightarrow> refs t q = (if q = p then refs s p - 1 else refs s q))"
    and decr_ok: "inv s \<Longrightarrow> page s p \<Longrightarrow> 0 < refs s p \<Longrightarrow>
      \<exists>t. decr p s = Ok ((), t) \<and> inv t \<and> page t = page s
        \<and> (\<forall>q. page s q \<longrightarrow> refs t q = (if q = p then refs s p - 1 else refs s q))"
    and incr_ok: "inv s \<Longrightarrow> page s p \<Longrightarrow> 0 < refs s p \<Longrightarrow>
      \<exists>t. incr p s = Ok ((), t) \<and> inv t \<and> page t = page s
        \<and> (\<forall>q. page s q \<longrightarrow> refs t q = (if q = p then refs s p + 1 else refs s q))"
begin

lemma alloc_total: "inv s \<Longrightarrow> \<exists>p t. alloc s = Ok (p, t) \<and> inv t \<and> page t = page s"
  using alloc_some [of s] alloc_none [of s] by (cases "avail s = {}") auto

lemma avail_alloc:
  assumes "inv s" and "alloc s = Ok (p, t)" and "p \<noteq> 0"
  shows "p \<in> avail s" and "avail t = avail s - {p}" and "refs t p = 1" and "inv t" and "page t = page s"
proof -
  have "avail s \<noteq> {}" using alloc_none [OF assms(1)] assms(2,3) by auto
  then have a: "p \<in> avail s" "inv t" "page t = page s"
      "\<forall>q. page s q \<longrightarrow> refs t q = (if q = p then 1 else refs s q)"
    using alloc_some [OF assms(1)] assms(2) by auto
  then show "p \<in> avail s" "inv t" "page t = page s" by auto
  show "refs t p = 1" using a avail_iff [OF assms(1)] by auto
  show "avail t = avail s - {p}"
    using a avail_iff [OF assms(1)] avail_iff [OF a(2)] by (auto split: if_splits)
qed

text \<open>\<open>n\<close> allocations in a row return distinct pages, all of them available before.\<close>

primrec alloc_n :: "nat \<Rightarrow> ('s, addr list) kmon" where
  "alloc_n 0 = kret []"
| "alloc_n (Suc n) = kbind alloc (\<lambda>p. kbind (alloc_n n) (\<lambda>ps. kret (p # ps)))"

lemma alloc_n_distinct:
  assumes "inv s" and "alloc_n n s = Ok (ps, t)" and "0 \<notin> set ps"
  shows "distinct ps \<and> set ps \<subseteq> avail s \<and> avail t = avail s - set ps \<and> inv t"
  using assms
proof (induction n arbitrary: s ps)
  case 0
  then show ?case by simp
next
  case (Suc n)
  then obtain p u qs where p: "alloc s = Ok (p, u)" and qs: "alloc_n n u = Ok (qs, t)" and ps: "ps = p # qs"
    by (auto simp: kbind_Ok_iff)
  have "p \<noteq> 0" using Suc.prems ps by auto
  note a = avail_alloc [OF Suc.prems(1) p this]
  have "distinct qs \<and> set qs \<subseteq> avail u \<and> avail t = avail u - set qs \<and> inv t"
    using Suc.IH [OF a(4) qs] Suc.prems(3) ps by simp
  then show ?case using a ps by auto
qed

lemma alloc_n_total:
  assumes "inv s" and "n \<le> card (avail s)"
  shows "\<exists>ps t. alloc_n n s = Ok (ps, t) \<and> 0 \<notin> set ps \<and> length ps = n"
  using assms
proof (induction n arbitrary: s)
  case 0
  then show ?case by simp
next
  case (Suc n)
  then have ne: "avail s \<noteq> {}" and fin: "finite (avail s)" using card.infinite by force+
  obtain p u where p: "alloc s = Ok (p, u)" "p \<in> avail s" using alloc_some [OF Suc.prems(1) ne] by blast
  then have "p \<noteq> 0" using avail_iff not_null Suc.prems(1) by blast
  note a = avail_alloc [OF Suc.prems(1) p(1) this]
  have "n \<le> card (avail u)" using Suc.prems(2) fin p(2) by (simp add: a(2))
  then show ?case using Suc.IH [OF a(4)] p(1) \<open>p \<noteq> 0\<close> by fastforce
qed

lemma incr_decr:
  assumes "inv s" and "page s p" and "0 < refs s p"
  shows "\<exists>t u. incr p s = Ok ((), t) \<and> decr p t = Ok ((), u) \<and> inv u \<and> avail u = avail s
    \<and> (\<forall>q. page s q \<longrightarrow> refs u q = refs s q)"
proof -
  obtain t where t: "incr p s = Ok ((), t) \<and> inv t \<and> page t = page s
      \<and> (\<forall>q. page s q \<longrightarrow> refs t q = (if q = p then refs s p + 1 else refs s q))"
    using incr_ok [OF assms] ..
  have it: "inv t" and pts: "page t = page s" using t by simp_all
  have rt': "\<forall>q. page s q \<longrightarrow> refs t q = (if q = p then refs s p + 1 else refs s q)"
    using t by (elim conjE)
  have pt: "page t p" using assms(2) by (simp only: pts)
  have "refs t p = refs s p + 1" using rt' [rule_format, OF assms(2)] by (simp only: simp_thms if_True)
  then have rt: "0 < refs t p" using assms(3) by simp
  obtain u where u: "decr p t = Ok ((), u) \<and> inv u \<and> page u = page t
      \<and> (\<forall>q. page t q \<longrightarrow> refs u q = (if q = p then refs t p - 1 else refs t q))"
    using decr_ok [OF it pt rt] ..
  have refs: "refs u q = refs s q" if "page s q" for q
    using rt' u that by (cases "q = p") (auto simp: pts)
  have "q \<in> avail u \<longleftrightarrow> q \<in> avail s" for q
    using avail_iff [of u q] avail_iff [OF assms(1), of q] refs [of q] u by (auto simp: pts)
  then have "avail u = avail s" by blast
  then show ?thesis using t u refs by blast
qed

end

lemma kalloc_inv_drop_ref:
  assumes "kalloc_inv s" and "page_ok s p" and "0 < page_refs s p"
  defines "t \<equiv> (if refcount s (pageidx p) = 1 then pushed p (set_ref p 0 s)
      else set_ref p (refcount s (pageidx p) - 1) s)"
  shows "kalloc_inv t \<and> page_ok t = page_ok s
    \<and> (\<forall>q. page_ok s q \<longrightarrow> page_refs t q = (if q = p then page_refs s p - 1 else page_refs s q))"
proof -
  have nf: "p \<notin> free_set s" using assms(3) by (simp add: free_set_def page_refs_def)
  have "kalloc_inv t"
    unfolding t_def using kalloc_inv_pushed(1) [OF assms(1,2) nf] assms(3)
      kalloc_inv_set_ref_pos [OF assms(1,2) nf] by (simp add: page_refs_def)
  moreover have "page_ok t = page_ok s" by (simp add: t_def fun_eq_iff)
  moreover have "page_refs t q = (if q = p then page_refs s p - 1 else page_refs s q)"
    if "page_ok s q" for q
    using pageidx_eq_iff [OF that assms(2)] by (simp add: t_def page_refs_def pushed_def set_ref_def)
  ultimately show ?thesis by blast
qed

interpretation kpages: page_allocator kalloc kfree ref_inc ref_dec kalloc_inv page_ok free_set page_refs
proof
  fix s p
  assume inv: "kalloc_inv s"
  then have un: "unlocked s" by (simp add: kalloc_inv_def)
  show "p \<in> free_set s \<longleftrightarrow> page_ok s p \<and> page_refs s p = 0"
    by (simp add: free_set_def page_refs_def)
  show "0 \<le> page_refs s p" if "page_ok s p"
    using inv page_okD(2) [OF that] by (simp add: kalloc_inv_def page_refs_def)
  show "p \<noteq> 0" if "page_ok s p"
    using that inv by (auto simp: kalloc_inv_def page_ok_def)
  show "kalloc s = Ok (0, s)" if "free_set s = {}"
    using kalloc_none un kalloc_inv_empty_iff(1) [OF inv] that by blast
  show "\<exists>p t. kalloc s = Ok (p, t) \<and> p \<in> free_set s \<and> kalloc_inv t \<and> page_ok t = page_ok s
      \<and> (\<forall>q. page_ok s q \<longrightarrow> page_refs t q = (if q = p then 1 else page_refs s q))"
    if "free_set s \<noteq> {}"
  proof -
    let ?r = "freelist s"
    have nz: "?r \<noteq> 0" using kalloc_inv_empty_iff(1) [OF inv] that by blast
    have mem: "?r \<in> free_set s" by (rule kalloc_inv_empty_iff(2) [OF inv nz])
    then have ok: "page_ok s ?r" by (simp add: free_set_def)
    have "kalloc s = Ok (?r, popped s)"
      unfolding popped_def by (rule kalloc_some [OF un nz page_okD(2) [OF ok]])
    moreover have "page_ok (popped s) = page_ok s"
      by (simp add: fun_eq_iff popped_def) (simp add: page_ok_def)
    moreover have "page_refs (popped s) q = (if q = ?r then 1 else page_refs s q)"
      if "page_ok s q" for q
      using pageidx_eq_iff [OF that ok] by (simp add: popped_def page_refs_def set_ref_def)
    ultimately show ?thesis using mem kalloc_inv_popped(1) [OF inv nz] by blast
  qed
  assume ok: "page_ok s p" and pos: "0 < page_refs s p"
  then have refs: "0 < refcount s (pageidx p)" by (simp add: page_refs_def)
  show "\<exists>t. kfree p s = Ok ((), t) \<and> kalloc_inv t \<and> page_ok t = page_ok s
      \<and> (\<forall>q. page_ok s q \<longrightarrow> page_refs t q = (if q = p then page_refs s p - 1 else page_refs s q))"
    using kfree_eq [OF un ok refs] kalloc_inv_drop_ref [OF inv ok pos] by blast
  show "\<exists>t. ref_dec p s = Ok ((), t) \<and> kalloc_inv t \<and> page_ok t = page_ok s
      \<and> (\<forall>q. page_ok s q \<longrightarrow> page_refs t q = (if q = p then page_refs s p - 1 else page_refs s q))"
    using ref_dec_eq [OF un page_okD [OF ok] refs] kalloc_inv_drop_ref [OF inv ok pos] by blast
  have nf: "p \<notin> free_set s" using pos by (simp add: free_set_def page_refs_def)
  have "kalloc_inv (set_ref p (refcount s (pageidx p) + 1) s)"
    by (rule kalloc_inv_set_ref_pos [OF inv ok nf]) (use refs in simp)
  moreover have "page_refs (set_ref p (refcount s (pageidx p) + 1) s) q
      = (if q = p then page_refs s p + 1 else page_refs s q)" if "page_ok s q" for q
    using pageidx_eq_iff [OF that ok] by (simp add: page_refs_def set_ref_def)
  moreover have "page_ok (set_ref p (refcount s (pageidx p) + 1) s) = page_ok s"
    by (simp add: fun_eq_iff)
  moreover have "ref_inc p s = Ok ((), set_ref p (refcount s (pageidx p) + 1) s)"
    by (rule ref_inc_eq [OF un page_okD [OF ok]]) (use refs in simp)
  ultimately show "\<exists>t. ref_inc p s = Ok ((), t) \<and> kalloc_inv t \<and> page_ok t = page_ok s
      \<and> (\<forall>q. page_ok s q \<longrightarrow> page_refs t q = (if q = p then page_refs s p + 1 else page_refs s q))"
    by blast
qed

section \<open>Booting the allocator\<close>

text \<open>
  While \<open>freerange\<close> runs, all counts are 0 and the free list holds the pages below \<open>p\<close>.
\<close>

definition boot_inv :: "phys \<Rightarrow> addr \<Rightarrow> bool" where
  "boot_inv s p \<longleftrightarrow> unlocked s \<and> 0 < kend s \<and> (\<forall>i<NREF. refcount s i = 0)
     \<and> (\<exists>xs. free_chain (pmem s) (freelist s) xs \<and> distinct xs \<and> set xs = {q. page_ok s q \<and> q < p})"

lemma free_chain_pushed:
  assumes "free_chain (pmem s) (freelist s) xs" and "\<forall>x\<in>set xs. page_aligned x"
    and "page_aligned p" and "p \<notin> set xs" and "p \<noteq> 0"
  shows "free_chain (pmem (pushed p s)) (freelist (pushed p s)) (p # xs)"
proof -
  let ?m = "store64 (memset (pmem s) p 1 4096) p (freelist s)"
  have "load64 ?m x = load64 (pmem s) x" if "x \<in> set xs" for x
  proof -
    have x: "page_aligned x" "x \<noteq> p" using that assms(2,4) by auto
    then show ?thesis using assms(3)
      by (simp add: load64_store64_other page_aligned_aligned8 load64_memset_page)
  qed
  then have "free_chain ?m (freelist s) xs = free_chain (pmem s) (freelist s) xs"
    by (rule free_chain_cong)
  then show ?thesis using assms(1,5) by (simp add: pushed_def)
qed

lemma aligned_less_next:
  assumes "page_aligned q" and "page_aligned p" and "unat p + 4096 < 18446744073709551616"
  shows "q < p + PGSIZE \<longleftrightarrow> q < p \<or> q = p"
proof -
  from assms(1) obtain k where k: "unat q = 4096 * k" unfolding page_aligned_iff by (elim dvdE)
  from assms(2) obtain l where l: "unat p = 4096 * l" unfolding page_aligned_iff by (elim dvdE)
  have "unat (p + PGSIZE) = unat p + 4096" using assms(3) by (simp add: unat_add_no_wrap)
  then show ?thesis
    unfolding word_less_nat_alt word_unat_eq_iff using k l by auto
qed

lemma boot_step:
  assumes "boot_inv s p" and "page_ok s p" and "unat p + 4096 < 18446744073709551616"
  shows "boot_inv (pushed p s) (p + PGSIZE)"
proof -
  obtain xs where xs: "free_chain (pmem s) (freelist s) xs" "distinct xs" "set xs = {q. page_ok s q \<and> q < p}"
    using assms(1) unfolding boot_inv_def by blast
  have al: "page_aligned p" and "p \<noteq> 0"
    using assms(1,2) by (auto simp: boot_inv_def page_ok_def)
  have "{q. page_ok s q \<and> q < p + PGSIZE} = insert p {q. page_ok s q \<and> q < p}"
    using aligned_less_next [OF page_okD(1) al assms(3)] assms(2) by blast
  then have "set (p # xs) = {q. page_ok (pushed p s) q \<and> q < p + PGSIZE}"
    using xs(3) by simp
  moreover have "free_chain (pmem (pushed p s)) (freelist (pushed p s)) (p # xs)"
    by (rule free_chain_pushed [OF xs(1) _ al _ \<open>p \<noteq> 0\<close>]) (use xs(3) page_okD(1) in auto)
  moreover have "distinct (p # xs)" using xs by auto
  moreover have "unlocked (pushed p s)" "0 < kend (pushed p s)" "\<forall>i<NREF. refcount (pushed p s) i = 0"
    using assms(1) by (simp_all add: boot_inv_def unlocked_def pushed_def)
  ultimately show ?thesis unfolding boot_inv_def by blast
qed

lemma freerange_iteration:
  assumes "boot_inv s p" and "page_ok s p"
  shows "kbind (lock_acquire ref_lock ref_lock_update) (\<lambda>_.
     kbind (refcount_write (pageidx p) 1) (\<lambda>_.
     kbind (lock_release ref_lock ref_lock_update) (\<lambda>_.
     kbind (kfree p) f))) s = f () (pushed p s)"
proof -
  have un: "unlocked s" and z: "refcount s (pageidx p) = 0"
    using assms page_okD(2) [OF assms(2)] by (auto simp: boot_inv_def)
  have "refcount s = (refcount s)(pageidx p := 0)" using z by auto
  then have undo: "set_ref p 0 (set_ref p 1 s) = s" by (simp add: set_ref_def)
  have "unlocked (set_ref p 1 s)" "page_ok (set_ref p 1 s) p" "refcount (set_ref p 1 s) (pageidx p) = 1"
    using un assms(2) by (simp_all add: unlocked_def) (simp_all add: set_ref_def)
  then have kf: "kfree p (set_ref p 1 s) = Ok ((), pushed p s)"
    by (simp add: kfree_eq undo)
  have "s\<lparr>refcount := (refcount s)(pageidx p := 1), ref_lock := False\<rparr> = set_ref p 1 s"
    using un by (cases s) (simp add: set_ref_def unlocked_def)
  then show ?thesis
    using un page_okD(2) [OF assms(2)] kf
    by (simp add: kbind_def lock_acquire_def lock_release_def refcount_write_def unlocked_def)
qed

lemma freerange_loop_boot:
  assumes "boot_inv s p" and "page_aligned p" and "kend s \<le> p" and "p \<le> PHYSTOP"
    and "unat PHYSTOP - unat p < 4096 * fuel"
  shows "\<exists>t. freerange_loop fuel p PHYSTOP s = Ok ((), t) \<and> boot_inv t PHYSTOP \<and> kend t = kend s"
  using assms
proof (induction fuel arbitrary: s p)
  case 0
  then show ?case by simp
next
  case (Suc fuel)
  have p: "unat p \<le> 2281701376" using Suc.prems(4) by (simp add: word_le_nat_alt)
  then have next_p: "unat (p + PGSIZE) = unat p + 4096" by (simp add: unat_add_no_wrap)
  show ?case
  proof (cases "p + PGSIZE \<le> PHYSTOP")
    case True
    then have lt: "unat p + 4096 \<le> 2281701376" using next_p by (simp add: word_le_nat_alt)
    then have ok: "page_ok s p"
      using Suc.prems(2,3) by (simp add: page_ok_def word_less_nat_alt)
    have "boot_inv (pushed p s) (p + PGSIZE)"
      by (rule boot_step [OF Suc.prems(1) ok]) (use lt in simp)
    moreover have "page_aligned (p + PGSIZE)"
      using Suc.prems(2) by (simp add: page_aligned_iff next_p)
    moreover have "kend (pushed p s) \<le> p + PGSIZE" "kend (pushed p s) = kend s"
      using Suc.prems(3) next_p by (auto simp: pushed_def word_le_nat_alt)
    moreover have "unat PHYSTOP - unat (p + PGSIZE) < 4096 * fuel"
      using Suc.prems(5) next_p lt by simp
    ultimately have "\<exists>t. freerange_loop fuel (p + PGSIZE) PHYSTOP (pushed p s) = Ok ((), t)
        \<and> boot_inv t PHYSTOP \<and> kend t = kend s"
      using Suc.IH [of "pushed p s" "p + PGSIZE"] True by simp
    then show ?thesis
      using True freerange_iteration [OF Suc.prems(1) ok,
          of "\<lambda>_. freerange_loop fuel (p + PGSIZE) PHYSTOP"] by simp
  next
    case False
    then have "2281701376 < unat p + 4096" using next_p by (simp add: word_le_nat_alt)
    moreover obtain k where "unat p = 4096 * k"
      using Suc.prems(2) unfolding page_aligned_iff by (elim dvdE)
    ultimately have "unat p = unat (PHYSTOP)" using p by simp
    then have "p = PHYSTOP" by (rule word_eq_unatI)
    then show ?thesis using Suc.prems(1) False by simp
  qed
qed

lemma PGROUNDUP_le:
  assumes "e \<le> PHYSTOP"
  shows "e \<le> PGROUNDUP e" and "PGROUNDUP e \<le> PHYSTOP"
proof -
  have e: "unat e \<le> 2281701376" using assms by (simp add: word_le_nat_alt)
  then have up: "unat (PGROUNDUP e) = (unat e + 4095) div 4096 * 4096" by (simp add: unat_PGROUNDUP)
  show "e \<le> PGROUNDUP e" unfolding word_le_nat_alt up by simp
  have "(unat e + 4095) div 4096 \<le> 557056" using e by simp
  then show "PGROUNDUP e \<le> PHYSTOP" unfolding word_le_nat_alt up by simp
qed

lemma aligned_ge_PGROUNDUP:
  assumes "page_aligned q" and "e \<le> q" and "e \<le> PHYSTOP"
  shows "PGROUNDUP e \<le> q"
proof -
  have e: "unat e \<le> 2281701376" using assms by (simp add: word_le_nat_alt)
  then have up: "unat (PGROUNDUP e) = (unat e + 4095) div 4096 * 4096" by (simp add: unat_PGROUNDUP)
  from assms(1) obtain k where k: "unat q = 4096 * k" unfolding page_aligned_iff by (elim dvdE)
  then have "unat e \<le> 4096 * k" using assms(2) by (simp add: word_le_nat_alt)
  then have "(unat e + 4095) div 4096 \<le> k" by simp
  then show ?thesis unfolding word_le_nat_alt up k by simp
qed

lemma boot_inv_done: "boot_inv t PHYSTOP \<Longrightarrow> kalloc_inv t \<and> free_set t = {q. page_ok t q}"
proof -
  assume b: "boot_inv t PHYSTOP"
  have fs: "free_set t = {q. page_ok t q}"
    using b page_okD(2) by (auto simp: boot_inv_def free_set_def)
  moreover have "{q. page_ok t q \<and> q < PHYSTOP} = {q. page_ok t q}" by (auto simp: page_ok_def)
  ultimately show ?thesis using b by (simp add: boot_inv_def kalloc_inv_def)
qed

lemma kinit_boot:
  assumes "freelist s = 0" and "0 < kend s" and "kend s \<le> PHYSTOP"
  shows "\<exists>t. kinit s = Ok ((), t) \<and> kalloc_inv t \<and> free_set t = {q. page_ok s q} \<and> kend t = kend s"
proof -
  let ?s = "s\<lparr>kmem_lock := False, ref_lock := False,
    refcount := (\<lambda>i. if i < NREF then 0 else refcount s i)\<rparr>"
  let ?p = "PGROUNDUP (kend s)"
  have none: "{q. page_ok ?s q \<and> q < ?p} = {}"
    using aligned_ge_PGROUNDUP [OF _ _ assms(3)] by (force simp: page_ok_def)
  have b: "boot_inv ?s ?p"
    unfolding boot_inv_def
  proof (intro conjI exI [of _ "[]"])
    show "set [] = {q. page_ok ?s q \<and> q < ?p}" using none by simp
  qed (use assms in \<open>simp_all add: unlocked_def\<close>)
  have "unat PHYSTOP - unat ?p < 4096 * (NREF + 1)" by simp
  then have "\<exists>t. freerange_loop (NREF + 1) ?p PHYSTOP ?s = Ok ((), t) \<and> boot_inv t PHYSTOP \<and> kend t = kend ?s"
    by (intro freerange_loop_boot [OF b]) (use PGROUNDUP_le [OF assms(3)] in simp_all)
  then obtain t where t: "freerange_loop (NREF + 1) ?p PHYSTOP ?s = Ok ((), t)" "boot_inv t PHYSTOP"
      "kend t = kend s" by auto
  have "kinit s = Ok ((), t)"
    using t(1) by (simp add: kinit_def kbind_def freerange_def cong: if_cong)
  moreover have "{q. page_ok t q} = {q. page_ok s q}" using t(3) by (simp add: page_ok_def)
  ultimately show ?thesis using boot_inv_done [OF t(2)] t(3) by auto
qed

section \<open>What the operations leave in memory\<close>

text \<open>Two memories agree on the 4096 bytes of a page.\<close>

definition same_page :: "memory \<Rightarrow> memory \<Rightarrow> addr \<Rightarrow> bool" where
  "same_page m m' p \<longleftrightarrow> bytes_at m p 4096 = bytes_at m' p 4096"

lemma same_pageI: "(\<And>i. i < 4096 \<Longrightarrow> m (p + of_nat i) = m' (p + of_nat i)) \<Longrightarrow> same_page m m' p"
  unfolding same_page_def by (rule bytes_at_cong)

lemma same_pageD: "same_page m m' p \<Longrightarrow> i < 4096 \<Longrightarrow> m (p + of_nat i) = m' (p + of_nat i)"
  unfolding same_page_def by (metis nth_bytes_at)

lemma same_page_refl [simp]: "same_page m m p"
  by (simp add: same_page_def)

lemma same_page_trans: "same_page m m' p \<Longrightarrow> same_page m' m'' p \<Longrightarrow> same_page m m'' p"
  by (simp add: same_page_def)

lemma same_page_memset:
  "page_aligned p \<Longrightarrow> page_aligned q \<Longrightarrow> q \<noteq> p \<Longrightarrow> same_page (memset m p c 4096) m q"
  by (rule same_pageI) (simp add: memset_apply page_disjoint)

lemma same_page_store64:
  assumes "page_aligned p" and "page_aligned q" and "q \<noteq> p" and "unat (a - p) + 8 \<le> 4096"
  shows "same_page (store64 m a w) m q"
proof (rule same_pageI, rule store64_other)
  fix i :: nat assume i: "i < 4096"
  show "\<not> unat (q + of_nat i - a) < 8"
  proof
    assume lt: "unat (q + of_nat i - a) < 8"
    let ?j = "unat (a - p) + unat (q + of_nat i - a)"
    have "p + of_nat ?j = q + of_nat i" by simp
    moreover have "?j < 4096" using lt assms(4) by simp
    ultimately show False using page_offset_unique [OF assms(1,2) _ i, of ?j] assms(3) by blast
  qed
qed

lemma bytes_at_memset: "n \<le> 4096 \<Longrightarrow> bytes_at (memset m p c n) p n = replicate n c"
  by (rule nth_equalityI) (simp_all add: memset_apply unat_of_nat)

lemma pmem_pushed:
  assumes "page_aligned pa" and "page_aligned q" and "q \<noteq> pa"
  shows "same_page (pmem (pushed pa s)) (pmem s) q"
proof -
  have "same_page (store64 (memset (pmem s) pa 1 4096) pa (freelist s)) (memset (pmem s) pa 1 4096) q"
    by (rule same_page_store64 [OF assms]) simp
  then show ?thesis
    by (simp add: pushed_def) (metis same_page_memset [OF assms] same_page_trans)
qed

text \<open>\<open>kalloc\<close> on every branch, with its effect on memory.\<close>

lemma kalloc_cases:
  assumes "kalloc_inv s"
  obtains (none) "free_set s = {}" "kalloc s = Ok (0, s)"
    | (page) p t where "kalloc s = Ok (p, t)" "p \<in> free_set s" "p \<noteq> 0" "kalloc_inv t"
      "free_set t = free_set s - {p}" "page_ok t = page_ok s" "kend t = kend s"
      "refcount t = (refcount s)(pageidx p := 1)" "bytes_at (pmem t) p 4096 = replicate 4096 5"
      "\<And>q. page_aligned q \<Longrightarrow> q \<noteq> p \<Longrightarrow> same_page (pmem t) (pmem s) q"
proof (cases "free_set s = {}")
  case True
  then show ?thesis using none kpages.alloc_none [OF assms] by blast
next
  case False
  let ?r = "freelist s"
  have un: "unlocked s" using assms by (simp add: kalloc_inv_def)
  have nz: "?r \<noteq> 0" using kalloc_inv_empty_iff(1) [OF assms] False by blast
  have mem: "?r \<in> free_set s" by (rule kalloc_inv_empty_iff(2) [OF assms nz])
  then have ok: "page_ok s ?r" by (simp add: free_set_def)
  have pm: "pmem (popped s) = memset (pmem s) ?r 5 4096" by (simp add: popped_def set_ref_def)
  show ?thesis
  proof (rule page)
    show "kalloc s = Ok (?r, popped s)"
      unfolding popped_def by (rule kalloc_some [OF un nz page_okD(2) [OF ok]])
    show "page_ok (popped s) = page_ok s"
      by (simp add: fun_eq_iff popped_def) (simp add: page_ok_def)
    show "bytes_at (pmem (popped s)) ?r 4096 = replicate 4096 5"
      by (simp add: pm bytes_at_memset)
    show "same_page (pmem (popped s)) (pmem s) q" if "page_aligned q" "q \<noteq> ?r" for q
      unfolding pm by (rule same_page_memset [OF page_okD(1) [OF ok] that])
  qed (use mem nz kalloc_inv_popped [OF assms nz] in \<open>simp_all add: popped_def set_ref_def\<close>)
qed

text \<open>Dropping a reference, the common effect of \<open>kfree\<close> and \<open>ref_dec\<close>.\<close>

definition dropped :: "addr \<Rightarrow> phys \<Rightarrow> phys" where
  "dropped p s = (if refcount s (pageidx p) = 1 then pushed p (set_ref p 0 s)
     else set_ref p (refcount s (pageidx p) - 1) s)"

lemma dropped_props:
  assumes "kalloc_inv s" and "page_ok s p" and "0 < refcount s (pageidx p)"
  shows "kalloc_inv (dropped p s)" "page_ok (dropped p s) = page_ok s" "kend (dropped p s) = kend s"
    "refcount (dropped p s) = (refcount s)(pageidx p := refcount s (pageidx p) - 1)"
    "free_set (dropped p s) = (if refcount s (pageidx p) = 1 then insert p (free_set s) else free_set s)"
    "\<And>q. page_aligned q \<Longrightarrow> q \<noteq> p \<or> refcount s (pageidx p) \<noteq> 1 \<Longrightarrow> same_page (pmem (dropped p s)) (pmem s) q"
proof -
  have nf: "p \<notin> free_set s" using assms(3) by (simp add: free_set_def)
  have "0 < page_refs s p" using assms(3) by (simp add: page_refs_def)
  from kalloc_inv_drop_ref [OF assms(1,2) this]
  show "kalloc_inv (dropped p s)" "page_ok (dropped p s) = page_ok s" by (simp_all add: dropped_def)
  show "kend (dropped p s) = kend s" by (simp add: dropped_def pushed_def set_ref_def)
  show "refcount (dropped p s) = (refcount s)(pageidx p := refcount s (pageidx p) - 1)"
    by (simp add: dropped_def pushed_def set_ref_def)
  show "free_set (dropped p s) = (if refcount s (pageidx p) = 1 then insert p (free_set s) else free_set s)"
    using kalloc_inv_pushed(2) [OF assms(1,2) nf] free_set_set_ref [OF assms(2)] nf assms(3)
    by (simp add: dropped_def)
  fix q assume q: "page_aligned q" "q \<noteq> p \<or> refcount s (pageidx p) \<noteq> 1"
  have "pmem (set_ref p v s) = pmem s" for v by (simp add: set_ref_def)
  then show "same_page (pmem (dropped p s)) (pmem s) q"
    using q pmem_pushed [OF page_okD(1) [OF assms(2)] q(1), of "set_ref p 0 s"]
    by (auto simp: dropped_def)
qed

lemma kfree_dropped:
  "kalloc_inv s \<Longrightarrow> page_ok s p \<Longrightarrow> 0 < refcount s (pageidx p) \<Longrightarrow> kfree p s = Ok ((), dropped p s)"
  unfolding dropped_def by (rule kfree_eq) (simp_all add: kalloc_inv_def)

lemma ref_dec_dropped:
  "kalloc_inv s \<Longrightarrow> page_ok s p \<Longrightarrow> 0 < refcount s (pageidx p) \<Longrightarrow> ref_dec p s = Ok ((), dropped p s)"
  unfolding dropped_def by (rule ref_dec_eq) (simp_all add: kalloc_inv_def page_okD)

section \<open>A concrete machine\<close>

text \<open>
  Eight free pages below \<open>PHYSTOP\<close>, linked from the highest to the lowest, as \<open>freerange\<close> leaves
  them.
\<close>

definition small_pages :: "addr list" where
  "small_pages = [0x87FFF000, 0x87FFE000, 0x87FFD000, 0x87FFC000, 0x87FFB000, 0x87FFA000, 0x87FF9000, 0x87FF8000]"

definition small_machine :: phys where
  "small_machine = \<lparr>pmem = fold (\<lambda>(p, q) m. store64 m p q) (zip small_pages (tl small_pages)) (\<lambda>_. 0),
     kmem_lock = False, freelist = 0x87FFF000, ref_lock = False, refcount = (\<lambda>_. 0), kend = 0x87FF8000\<rparr>"

lemma small_machine_page_ok: "page_ok small_machine p \<longleftrightarrow> p \<in> set small_pages"
proof
  assume "page_ok small_machine p"
  then have a: "page_aligned p" and l: "2281668608 \<le> unat p" and u: "unat p < 2281701376"
    by (auto simp: page_ok_def small_machine_def word_le_nat_alt word_less_nat_alt)
  from a obtain k where k: "unat p = 4096 * k" unfolding page_aligned_iff by (elim dvdE)
  then have "557048 \<le> k" "k < 557056" using l u by auto
  then have "k = 557048 \<or> k = 557049 \<or> k = 557050 \<or> k = 557051 \<or> k = 557052 \<or> k = 557053
      \<or> k = 557054 \<or> k = 557055"
    by arith
  then show "p \<in> set small_pages" using k by (auto simp: small_pages_def word_unat_eq_iff)
next
  assume "p \<in> set small_pages"
  then show "page_ok small_machine p"
    by (auto simp: page_ok_def small_machine_def small_pages_def page_aligned_def)
qed

lemma small_machine_free_set: "free_set small_machine = set small_pages"
  using small_machine_page_ok by (auto simp: free_set_def) (auto simp: small_machine_def)

lemma small_machine_inv: "kalloc_inv small_machine"
  unfolding kalloc_inv_def
proof (intro conjI exI [of _ small_pages])
  have "load64 (\<lambda>_. 0) a = 0" for a by (simp add: load64_def upt_rec)
  then show "free_chain (pmem small_machine) (freelist small_machine) small_pages"
    by (simp add: small_machine_def small_pages_def aligned8_def load64_store64_other)
  show "set small_pages = free_set small_machine" by (simp add: small_machine_free_set)
qed (simp_all add: small_machine_def small_pages_def unlocked_def)

section \<open>Properties\<close>

text \<open>
  C31: after \<open>kinit\<close>, run on the state the loader leaves (zeroed globals, any memory contents),
  every page-aligned page of \<open>[end, PHYSTOP)\<close> is on the free list exactly once, with count 0, and
  nothing else is; the loop of \<open>freerange\<close> ends and no check of \<open>kfree\<close> panics.
\<close>

theorem kinit_frees_every_page:
  assumes "freelist s = 0" and "0 < kend s" and "kend s \<le> PHYSTOP"
  shows "\<exists>t xs. kinit s = Ok ((), t) \<and> free_chain (pmem t) (freelist t) xs \<and> distinct xs
    \<and> set xs = {q. page_aligned q \<and> kend s \<le> q \<and> q < PHYSTOP} \<and> kalloc_inv t"
proof -
  obtain t where t: "kinit s = Ok ((), t)" "kalloc_inv t" "free_set t = {q. page_ok s q}"
    using kinit_boot [OF assms] by blast
  then show ?thesis unfolding kalloc_inv_def page_ok_def by blast
qed

theorem kinit_frees_every_page_witness:
  "\<exists>t xs. kinit (small_machine\<lparr>freelist := 0, kend := 0x80021000\<rparr>) = Ok ((), t)
    \<and> free_chain (pmem t) (freelist t) xs \<and> distinct xs
    \<and> set xs = {q. page_aligned q \<and> 0x80021000 \<le> q \<and> q < PHYSTOP} \<and> kalloc_inv t"
  using kinit_frees_every_page [of "small_machine\<lparr>freelist := 0, kend := 0x80021000\<rparr>"] by simp

text \<open>
  C32: \<open>kalloc\<close> never panics: it returns 0 and changes nothing exactly when no page is free;
  otherwise it takes one free page, gives it count 1, fills it with 5, leaves the bytes of every
  other page and every other count alone, and keeps the invariant.
\<close>

theorem kalloc_correct:
  assumes "kalloc_inv s"
  shows "if free_set s = {} then kalloc s = Ok (0, s)
    else \<exists>p t. kalloc s = Ok (p, t) \<and> p \<in> free_set s \<and> free_set t = free_set s - {p}
      \<and> refcount t = (refcount s)(pageidx p := 1) \<and> bytes_at (pmem t) p 4096 = replicate 4096 5
      \<and> (\<forall>q. page_aligned q \<and> q \<noteq> p \<longrightarrow> same_page (pmem t) (pmem s) q) \<and> kalloc_inv t"
  using assms
proof (cases rule: kalloc_cases)
  case none
  then show ?thesis by simp
next
  case (page p t)
  then show ?thesis by auto
qed

theorem kalloc_correct_witness:
  "\<exists>p t. kalloc small_machine = Ok (p, t) \<and> p \<in> set small_pages
    \<and> free_set t = set small_pages - {p} \<and> kalloc_inv t"
proof -
  have "free_set small_machine \<noteq> {}" by (simp add: small_machine_free_set small_pages_def)
  then show ?thesis
    using kalloc_correct [OF small_machine_inv] by (simp only: if_False small_machine_free_set) blast
qed

text \<open>
  C33: \<open>kfree\<close> drops one reference of an allocated page: the page goes back to the free list exactly
  when that was the last one, its bytes change only then, and no other page is touched. On every
  other argument (misaligned, outside \<open>[end, PHYSTOP)\<close>, already free) it panics.
\<close>

theorem kfree_correct:
  assumes "kalloc_inv s"
  shows "if page_ok s p \<and> 0 < refcount s (pageidx p)
    then \<exists>t. kfree p s = Ok ((), t) \<and> kalloc_inv t
      \<and> free_set t = (if refcount s (pageidx p) = 1 then insert p (free_set s) else free_set s)
      \<and> refcount t = (refcount s)(pageidx p := refcount s (pageidx p) - 1)
      \<and> (\<forall>q. page_aligned q \<and> (q \<noteq> p \<or> refcount s (pageidx p) \<noteq> 1) \<longrightarrow> same_page (pmem t) (pmem s) q)
    else \<exists>e. kfree p s = Panic e"
proof (cases "page_ok s p \<and> 0 < refcount s (pageidx p)")
  case True
  then show ?thesis using kfree_dropped [OF assms] dropped_props [OF assms] by auto
next
  case False
  have "unlocked s" using assms by (simp add: kalloc_inv_def)
  then show ?thesis
    using False kfree_bad_page [of s p] kfree_not_referenced [of s p] by (cases "page_ok s p") auto
qed

theorem kfree_correct_witness: "\<exists>e. kfree 0x87FFF000 small_machine = Panic e"
  using kfree_correct [OF small_machine_inv, of "0x87FFF000"] by (simp add: small_machine_def)

text \<open>
  From a state with at least \<open>n\<close> free pages, \<open>n\<close> calls of \<open>kalloc\<close> in a row all succeed and
  return \<open>n\<close> different pages; the rest of the free pages stays free.
\<close>

theorem kalloc_n_distinct:
  assumes "kalloc_inv s" and "n \<le> card (free_set s)"
  shows "\<exists>ps t. kpages.alloc_n n s = Ok (ps, t) \<and> length ps = n \<and> distinct ps
    \<and> set ps \<subseteq> free_set s \<and> free_set t = free_set s - set ps \<and> kalloc_inv t"
  using kpages.alloc_n_total [OF assms] kpages.alloc_n_distinct [OF assms(1)] by metis

theorem kalloc_n_distinct_witness:
  "\<exists>ps t. kpages.alloc_n 8 small_machine = Ok (ps, t) \<and> set ps = set small_pages \<and> free_set t = {}"
proof -
  have c: "card (free_set small_machine) = 8" by (simp add: small_machine_free_set small_pages_def)
  obtain ps t where h: "kpages.alloc_n 8 small_machine = Ok (ps, t)" "length ps = 8" "distinct ps"
      "set ps \<subseteq> free_set small_machine" "free_set t = free_set small_machine - set ps"
    using kalloc_n_distinct [OF small_machine_inv, of 8] c by auto
  then have "card (set ps) = card (free_set small_machine)" using c distinct_card [of ps] by simp
  then have "set ps = free_set small_machine"
    using h(4) by (intro card_subset_eq) (simp_all add: small_machine_free_set)
  then show ?thesis using h(1,5) by (simp add: small_machine_free_set)
qed

end
