(* ===== verification/Vm.thy ===== *)
theory Vm
  imports Kalloc
begin

text \<open>
  \<open>kernel/vm.c\<close>: Sv39 page tables in physical memory. A page table is a page of 512 entries of
  eight bytes; \<open>walk\<close> descends three levels and allocates missing tables with \<open>kalloc\<close>. Every
  function of the source is one definition over the allocator's state \<open>phys\<close>: page tables, free
  pages and user data share one memory, as in the kernel. Return values are the C ones (0 and
  \<open>-1\<close>, a size, an address, 0 for NULL). A kernel-side buffer (\<open>src\<close> of \<open>copyout\<close>, \<open>dst\<close> of
  \<open>copyin\<close>) is a list of bytes. Loops whose end C tests with a comparison of addresses run on
  fuel, the number of pages; \<open>Block\<close> is a loop that has not ended then.
\<close>

unbundle bit_operations_syntax

section \<open>Walking the tree\<close>

definition load_pte :: "addr \<Rightarrow> (phys, uint64) kmon" where
  "load_pte a = kgets (\<lambda>s. load64 (pmem s) a)"

definition store_pte :: "addr \<Rightarrow> uint64 \<Rightarrow> (phys, unit) kmon" where
  "store_pte a v = kmodify (\<lambda>s. s\<lparr>pmem := store64 (pmem s) a v\<rparr>)"

definition zero_page :: "addr \<Rightarrow> (phys, unit) kmon" where
  "zero_page pa = kmodify (\<lambda>s. s\<lparr>pmem := memset (pmem s) pa 0 4096\<rparr>)"

text \<open>\<open>&pagetable[i]\<close>\<close>

definition pte_slot :: "addr \<Rightarrow> uint64 \<Rightarrow> addr" where
  "pte_slot pagetable i = pagetable + 8 * i"

fun walk_level :: "nat \<Rightarrow> addr \<Rightarrow> uint64 \<Rightarrow> bool \<Rightarrow> (phys, addr) kmon" where
  "walk_level 0 pagetable va alloc = kret (pte_slot pagetable (PX 0 va))"
| "walk_level (Suc l) pagetable va alloc =
     kbind (load_pte (pte_slot pagetable (PX (Suc l) va))) (\<lambda>pte.
     if pte AND PTE_V \<noteq> 0 then walk_level l (PTE2PA pte) va alloc
     else if \<not> alloc then kret 0
     else kbind kalloc (\<lambda>pg.
       if pg = 0 then kret 0 else
       kbind (zero_page pg) (\<lambda>_.
       kbind (store_pte (pte_slot pagetable (PX (Suc l) va)) (PA2PTE pg OR PTE_V)) (\<lambda>_.
       walk_level l pg va alloc))))"

definition walk :: "addr \<Rightarrow> uint64 \<Rightarrow> bool \<Rightarrow> (phys, addr) kmon" where
  "walk pagetable va alloc =
     (if va \<ge> MAXVA then kpanic ''walk'' else walk_level 2 pagetable va alloc)"

definition walkaddr :: "addr \<Rightarrow> uint64 \<Rightarrow> (phys, addr) kmon" where
  "walkaddr pagetable va =
     (if va \<ge> MAXVA then kret 0 else
      kbind (walk pagetable va False) (\<lambda>pte.
      if pte = 0 then kret 0 else
      kbind (load_pte pte) (\<lambda>v.
      if v AND PTE_V = 0 then kret 0
      else if v AND PTE_U = 0 then kret 0
      else kret (PTE2PA v))))"

definition ismapped :: "addr \<Rightarrow> uint64 \<Rightarrow> (phys, int) kmon" where
  "ismapped pagetable va =
     kbind (walk pagetable va False) (\<lambda>pte.
     if pte = 0 then kret 0 else
     kbind (load_pte pte) (\<lambda>v. if v AND PTE_V \<noteq> 0 then kret 1 else kret 0))"

section \<open>Adding and removing mappings\<close>

fun mappages_loop :: "nat \<Rightarrow> addr \<Rightarrow> uint64 \<Rightarrow> uint64 \<Rightarrow> uint64 \<Rightarrow> uint64 \<Rightarrow> (phys, int) kmon" where
  "mappages_loop 0 pagetable a last_a pa perm = kblock"
| "mappages_loop (Suc fuel) pagetable a last_a pa perm =
     kbind (walk pagetable a True) (\<lambda>pte.
     if pte = 0 then kret (- 1) else
     kbind (load_pte pte) (\<lambda>v.
     if v AND PTE_V \<noteq> 0 then kpanic ''mappages: remap'' else
     kbind (store_pte pte (PA2PTE pa OR perm OR PTE_V)) (\<lambda>_.
     if a = last_a then kret 0
     else mappages_loop fuel pagetable (a + PGSIZE) last_a (pa + PGSIZE) perm)))"

definition mappages :: "addr \<Rightarrow> uint64 \<Rightarrow> uint64 \<Rightarrow> uint64 \<Rightarrow> uint64 \<Rightarrow> (phys, int) kmon" where
  "mappages pagetable va sz pa perm =
     (if va mod PGSIZE \<noteq> 0 then kpanic ''mappages: va not aligned''
      else if sz mod PGSIZE \<noteq> 0 then kpanic ''mappages: size not aligned''
      else if sz = 0 then kpanic ''mappages: size''
      else mappages_loop (unat (sz div PGSIZE)) pagetable va (va + sz - PGSIZE) pa perm)"

definition kvmmap :: "addr \<Rightarrow> uint64 \<Rightarrow> uint64 \<Rightarrow> uint64 \<Rightarrow> uint64 \<Rightarrow> (phys, unit) kmon" where
  "kvmmap kpgtbl va pa sz perm =
     kbind (mappages kpgtbl va sz pa perm) (\<lambda>r. if r \<noteq> 0 then kpanic ''kvmmap'' else kret ())"

definition uvmcreate :: "(phys, addr) kmon" where
  "uvmcreate =
     kbind kalloc (\<lambda>pagetable.
     if pagetable = 0 then kret 0 else
     kbind (zero_page pagetable) (\<lambda>_. kret pagetable))"

fun uvmunmap_loop :: "nat \<Rightarrow> addr \<Rightarrow> uint64 \<Rightarrow> uint64 \<Rightarrow> bool \<Rightarrow> (phys, unit) kmon" where
  "uvmunmap_loop 0 pagetable a a_end do_free = (if a < a_end then kblock else kret ())"
| "uvmunmap_loop (Suc fuel) pagetable a a_end do_free =
     (if a < a_end then
        kbind (kbind (walk pagetable a False) (\<lambda>pte.
          if pte = 0 then kret () else
          kbind (load_pte pte) (\<lambda>v.
          if v AND PTE_V = 0 then kret () else
          kbind (if do_free then ref_dec (PTE2PA v) else kret ()) (\<lambda>_.
          store_pte pte 0)))) (\<lambda>_.
        uvmunmap_loop fuel pagetable (a + PGSIZE) a_end do_free)
      else kret ())"

definition uvmunmap :: "addr \<Rightarrow> uint64 \<Rightarrow> uint64 \<Rightarrow> bool \<Rightarrow> (phys, unit) kmon" where
  "uvmunmap pagetable va npages do_free =
     (if va mod PGSIZE \<noteq> 0 then kpanic ''uvmunmap: not aligned''
      else uvmunmap_loop (unat npages) pagetable va (va + npages * PGSIZE) do_free)"

definition uvmdealloc :: "addr \<Rightarrow> uint64 \<Rightarrow> uint64 \<Rightarrow> (phys, uint64) kmon" where
  "uvmdealloc pagetable oldsz newsz =
     (if newsz \<ge> oldsz then kret oldsz else
      kbind (if PGROUNDUP newsz < PGROUNDUP oldsz
             then uvmunmap pagetable (PGROUNDUP newsz)
               (scast (ucast ((PGROUNDUP oldsz - PGROUNDUP newsz) div PGSIZE) :: 32 word)) True
             else kret ()) (\<lambda>_.
      kret newsz))"

fun uvmalloc_loop :: "nat \<Rightarrow> addr \<Rightarrow> uint64 \<Rightarrow> uint64 \<Rightarrow> uint64 \<Rightarrow> uint64 \<Rightarrow> (phys, uint64) kmon" where
  "uvmalloc_loop 0 pagetable oldsz a newsz xperm = (if a < newsz then kblock else kret newsz)"
| "uvmalloc_loop (Suc fuel) pagetable oldsz a newsz xperm =
     (if a < newsz then
        kbind kalloc (\<lambda>mem.
        if mem = 0 then kbind (uvmdealloc pagetable a oldsz) (\<lambda>_. kret 0) else
        kbind (zero_page mem) (\<lambda>_.
        kbind (mappages pagetable a PGSIZE mem (PTE_R OR PTE_U OR xperm)) (\<lambda>r.
        if r \<noteq> 0 then kbind (kfree mem) (\<lambda>_. kbind (uvmdealloc pagetable a oldsz) (\<lambda>_. kret 0))
        else uvmalloc_loop fuel pagetable oldsz (a + PGSIZE) newsz xperm)))
      else kret newsz)"

definition uvmalloc :: "addr \<Rightarrow> uint64 \<Rightarrow> uint64 \<Rightarrow> uint64 \<Rightarrow> (phys, uint64) kmon" where
  "uvmalloc pagetable oldsz newsz xperm =
     (if newsz < oldsz then kret oldsz
      else uvmalloc_loop (Suc (unat (newsz div PGSIZE))) pagetable (PGROUNDUP oldsz) (PGROUNDUP oldsz) newsz xperm)"

section \<open>Freeing an address space\<close>

text \<open>
  \<open>freewalk\<close> recurses on the levels of the tree; the first argument bounds the depth (three for
  a table that \<open>walk\<close> built).
\<close>

fun free_entries :: "(addr \<Rightarrow> (phys, unit) kmon) \<Rightarrow> addr \<Rightarrow> nat list \<Rightarrow> (phys, unit) kmon" where
  "free_entries sub pagetable [] = kret ()"
| "free_entries sub pagetable (i # is) =
     kbind (load_pte (pte_slot pagetable (of_nat i))) (\<lambda>pte.
     kbind (if pte AND PTE_V \<noteq> 0 \<and> pte AND (PTE_R OR PTE_W OR PTE_X) = 0
            then kbind (sub (PTE2PA pte)) (\<lambda>_. store_pte (pte_slot pagetable (of_nat i)) 0)
            else if pte AND PTE_V \<noteq> 0 then kpanic ''freewalk: leaf''
            else kret ()) (\<lambda>_.
     free_entries sub pagetable is))"

fun freewalk :: "nat \<Rightarrow> addr \<Rightarrow> (phys, unit) kmon" where
  "freewalk 0 pagetable = kblock"
| "freewalk (Suc depth) pagetable =
     kbind (free_entries (freewalk depth) pagetable [0..<512]) (\<lambda>_. kfree pagetable)"

definition uvmfree :: "addr \<Rightarrow> uint64 \<Rightarrow> (phys, unit) kmon" where
  "uvmfree pagetable sz =
     kbind (if sz > 0 then uvmunmap pagetable 0 (PGROUNDUP sz div PGSIZE) True else kret ()) (\<lambda>_.
     freewalk 3 pagetable)"

section \<open>Copy-on-write\<close>

fun uvmcopy_loop :: "nat \<Rightarrow> addr \<Rightarrow> addr \<Rightarrow> uint64 \<Rightarrow> uint64 \<Rightarrow> (phys, int) kmon" where
  "uvmcopy_loop 0 old new i sz = (if i < sz then kblock else kret 0)"
| "uvmcopy_loop (Suc fuel) old new i sz =
     (if i < sz then
        kbind (walk old i False) (\<lambda>pte.
        if pte = 0 then uvmcopy_loop fuel old new (i + PGSIZE) sz else
        kbind (load_pte pte) (\<lambda>v.
        if v AND PTE_V = 0 then uvmcopy_loop fuel old new (i + PGSIZE) sz else
        kbind (mappages new i PGSIZE (PTE2PA v) (PTE_FLAGS v AND NOT PTE_W)) (\<lambda>r.
        if r \<noteq> 0 then kbind (uvmunmap new 0 (i div PGSIZE) True) (\<lambda>_. kret (- 1)) else
        kbind (load_pte pte) (\<lambda>v'.
        kbind (store_pte pte (v' AND NOT PTE_W)) (\<lambda>_.
        kbind (ref_inc (PTE2PA v)) (\<lambda>_.
        uvmcopy_loop fuel old new (i + PGSIZE) sz))))))
      else kret 0)"

definition uvmcopy :: "addr \<Rightarrow> addr \<Rightarrow> uint64 \<Rightarrow> (phys, int) kmon" where
  "uvmcopy old new sz = uvmcopy_loop (Suc (unat (sz div PGSIZE))) old new 0 sz"

definition uvmclear :: "addr \<Rightarrow> uint64 \<Rightarrow> (phys, unit) kmon" where
  "uvmclear pagetable va =
     kbind (walk pagetable va False) (\<lambda>pte.
     if pte = 0 then kpanic ''uvmclear'' else
     kbind (load_pte pte) (\<lambda>v. store_pte pte (v AND NOT PTE_U)))"

definition vmfault :: "addr \<Rightarrow> uint64 \<Rightarrow> bool \<Rightarrow> (phys, addr) kmon" where
  "vmfault pagetable va0 wr =
     (let va = PGROUNDDOWN va0 in
      kbind (walk pagetable va True) (\<lambda>pte.
      if pte = 0 then kret 0 else
      kbind (load_pte pte) (\<lambda>v.
      if v AND PTE_V = 0 then kret 0 else
      if \<not> wr then kret (PTE2PA v) else
      if v AND PTE_W \<noteq> 0 then kret (PTE2PA v) else
      kbind (ref_get (PTE2PA v)) (\<lambda>n.
      if n > 1 then
        kbind kalloc (\<lambda>mem.
        if mem = 0 then kret 0 else
        kbind (kmodify (\<lambda>s. s\<lparr>pmem := memmove (pmem s) mem (PTE2PA v) 4096\<rparr>)) (\<lambda>_.
        kbind (ref_dec (PTE2PA v)) (\<lambda>_.
        kbind (load_pte pte) (\<lambda>v'.
        kbind (store_pte pte (PA2PTE mem OR (PTE_FLAGS v' AND NOT PTE_W) OR PTE_W)) (\<lambda>_.
        kret mem)))))
      else
        kbind (store_pte pte (v OR PTE_W)) (\<lambda>_. kret (PTE2PA v))))))"

section \<open>Copying between kernel and user\<close>

definition store_bytes :: "memory \<Rightarrow> addr \<Rightarrow> byte list \<Rightarrow> memory" where
  "store_bytes m a bs = fold (\<lambda>i m. m(a + of_nat i := bs ! i)) [0..<length bs] m"

text \<open>The bytes left in the page of \<open>va\<close>, from \<open>va\<close> on, but at most \<open>len\<close>.\<close>

definition chunk :: "uint64 \<Rightarrow> nat \<Rightarrow> nat" where
  "chunk va len = min (unat (PGSIZE - (va - PGROUNDDOWN va))) len"

lemma chunk_pos: "0 < len \<Longrightarrow> 0 < chunk va len"
proof -
  assume "0 < len"
  have "unat (va - PGROUNDDOWN va) = unat va mod 4096"
    using unat_sub_le [OF PGROUNDDOWN_le [of va]]
    by (simp add: unat_PGROUNDDOWN minus_div_mult_eq_mod)
  then have "va - PGROUNDDOWN va < PGSIZE" by (simp add: word_less_nat_alt)
  then have "PGSIZE - (va - PGROUNDDOWN va) \<noteq> 0" by auto
  then have "unat (PGSIZE - (va - PGROUNDDOWN va)) \<noteq> 0" by (simp only: unat_eq_zero) simp
  then show ?thesis using \<open>0 < len\<close> by (simp add: chunk_def)
qed

function copyout :: "addr \<Rightarrow> uint64 \<Rightarrow> byte list \<Rightarrow> (phys, int) kmon" where
  "copyout pagetable dstva src =
     (if src = [] then kret 0 else
      let va0 = PGROUNDDOWN dstva; n = chunk dstva (length src) in
      if va0 \<ge> MAXVA then kret (- 1) else
      kbind (kbind (walkaddr pagetable va0) (\<lambda>pa.
        if pa = 0 then vmfault pagetable va0 False else kret pa)) (\<lambda>pa0.
      if pa0 = 0 then kret (- 1) else
      kbind (walk pagetable va0 False) (\<lambda>pte.
      kbind (load_pte pte) (\<lambda>v.
      if v AND PTE_W = 0 then kret (- 1) else
      kbind (kmodify (\<lambda>s. s\<lparr>pmem := store_bytes (pmem s) (pa0 + (dstva - va0)) (take n src)\<rparr>)) (\<lambda>_.
      copyout pagetable (va0 + PGSIZE) (drop n src))))))"
  by pat_completeness auto
termination
  by (relation "measure (\<lambda>(pt, va, src). length src)") (use chunk_pos in auto)

text \<open>
  The bytes copied so far are the accumulator: with the return value -1 they are what the destination holds
  although the copy failed. \<open>copyin\<close> is the view of the callers that give up then.
\<close>

function copyin_to :: "addr \<Rightarrow> byte list \<Rightarrow> uint64 \<Rightarrow> nat \<Rightarrow> (phys, int \<times> byte list) kmon" where
  "copyin_to pagetable dst srcva len =
     (if len = 0 then kret (0, dst) else
      let va0 = PGROUNDDOWN srcva; n = chunk srcva len in
      kbind (kbind (walkaddr pagetable va0) (\<lambda>pa.
        if pa = 0 then vmfault pagetable va0 False else kret pa)) (\<lambda>pa0.
      if pa0 = 0 then kret (- 1, dst) else
      kbind (kgets (\<lambda>s. bytes_at (pmem s) (pa0 + (srcva - va0)) n)) (\<lambda>bs.
      copyin_to pagetable (dst @ bs) (va0 + PGSIZE) (len - n))))"
  by pat_completeness auto
termination
  by (relation "measure (\<lambda>(pt, dst, va, len). len)") (use chunk_pos in auto)

declare copyin_to.simps [simp del]

definition copyin :: "addr \<Rightarrow> byte list \<Rightarrow> uint64 \<Rightarrow> nat \<Rightarrow> (phys, byte list option) kmon" where
  "copyin pagetable dst srcva len =
     kbind (copyin_to pagetable dst srcva len) (\<lambda>(r, bs). kret (if r = - 1 then None else Some bs))"

lemma copyin_simps:
  "copyin pagetable dst srcva len =
     (if len = 0 then kret (Some dst) else
      let va0 = PGROUNDDOWN srcva; n = chunk srcva len in
      kbind (kbind (walkaddr pagetable va0) (\<lambda>pa.
        if pa = 0 then vmfault pagetable va0 False else kret pa)) (\<lambda>pa0.
      if pa0 = 0 then kret None else
      kbind (kgets (\<lambda>s. bytes_at (pmem s) (pa0 + (srcva - va0)) n)) (\<lambda>bs.
      copyin pagetable (dst @ bs) (va0 + PGSIZE) (len - n))))"
  unfolding copyin_def
  by (subst copyin_to.simps) (rule ext, auto simp: kbind_def Let_def split: outcome.splits)

function copyinstr :: "addr \<Rightarrow> byte list \<Rightarrow> uint64 \<Rightarrow> nat \<Rightarrow> (phys, byte list option) kmon" where
  "copyinstr pagetable dst srcva mx =
     (if mx = 0 then kret None else
      let va0 = PGROUNDDOWN srcva; n = chunk srcva mx in
      kbind (walkaddr pagetable va0) (\<lambda>pa0.
      if pa0 = 0 then kret None else
      kbind (kgets (\<lambda>s. bytes_at (pmem s) (pa0 + (srcva - va0)) n)) (\<lambda>bs.
      if 0 \<in> set bs then kret (Some (dst @ takeWhile (\<lambda>b. b \<noteq> 0) bs))
      else copyinstr pagetable (dst @ bs) (va0 + PGSIZE) (mx - n))))"
  by pat_completeness auto
termination
  by (relation "measure (\<lambda>(pt, dst, va, mx). mx)") (use chunk_pos in auto)

end
