(* ===== verification/Vm_Tables.thy ===== *)
theory Vm_Tables
  imports Vm
begin

text \<open>
  The page tables of \<open>kernel/vm.c\<close> seen from outside. A set \<open>R\<close> of root pages (one per address
  space) spans trees of table pages; \<open>pt_wf s R\<close> says that all table pages of all trees are
  allocated, have one reference and are different from each other. The content of an address space
  is the function \<open>pte_at\<close> from virtual addresses to entries (0 where nothing is mapped).

  The lemmas show that \<open>walk\<close> finds or builds the path of tables to the entry of its address without
  changing any mapping of any address space, and that a store to that entry changes this mapping
  only. \<open>mappages\<close> is then an update of the function \<open>pte_at\<close> on a range of pages.
\<close>

unbundle bit_operations_syntax

section \<open>Slots of a table page\<close>

lemma unat_pte_slot:
  assumes "page_aligned p" and "unat i < 512"
  shows "unat (pte_slot p i) = unat p + 8 * unat i"
proof -
  have e: "unat (8 * i) = 8 * unat i" using assms(2) by (simp add: unat_word_ariths)
  have "pte_slot p i = p + of_nat (8 * unat i)" by (simp add: pte_slot_def)
  then show ?thesis using page_aligned_add [OF assms(1), of "8 * unat i"] assms(2) by simp
qed

lemma aligned8_pte_slot [simp]: "page_aligned p \<Longrightarrow> unat i < 512 \<Longrightarrow> aligned8 (pte_slot p i)"
  using page_aligned_aligned8 [of p] by (simp add: aligned8_def unat_pte_slot)

lemma pte_slot_eq_iff:
  assumes "page_aligned p" and "page_aligned q" and "unat i < 512" and "unat j < 512"
  shows "pte_slot p i = pte_slot q j \<longleftrightarrow> p = q \<and> i = j"
proof
  assume "pte_slot p i = pte_slot q j"
  then have "p + of_nat (8 * unat i) = q + of_nat (8 * unat j)" by (simp add: pte_slot_def)
  then have "p = q \<and> 8 * unat i = 8 * unat j"
    using page_offset_unique [OF assms(1,2), of "8 * unat i" "8 * unat j"] assms(3,4) by simp
  then show "p = q \<and> i = j" by (simp add: word_unat_eq_iff)
qed simp

lemma pte_slot_in_page: "unat i < 512 \<Longrightarrow> unat (pte_slot p i - p) + 8 \<le> 4096"
  by (simp add: pte_slot_def unat_word_ariths)

lemma load_slot_cong:
  assumes "same_page m m' p" and "unat i < 512"
  shows "load64 m (pte_slot p i) = load64 m' (pte_slot p i)"
proof (rule load64_cong)
  fix k :: nat assume "k < 8"
  then have "8 * unat i + k < 4096" using assms(2) by simp
  from same_pageD [OF assms(1) this]
  show "m (pte_slot p i + of_nat k) = m' (pte_slot p i + of_nat k)"
    by (simp add: pte_slot_def add.assoc)
qed

lemma load_slot_store:
  assumes "page_aligned p" and "page_aligned q" and "unat i < 512" and "unat j < 512"
  shows "load64 (store64 m (pte_slot p i) v) (pte_slot q j)
    = (if p = q \<and> i = j then v else load64 m (pte_slot q j))"
  using assms pte_slot_eq_iff [OF assms] by auto

lemma load_zeroed_slot:
  assumes "unat i < 512"
  shows "load64 (memset m p 0 4096) (pte_slot p i) = 0"
proof -
  have "bytes_at (memset m p 0 4096) p 4096 = bytes_at (\<lambda>_. 0) p 4096"
    by (simp add: bytes_at_memset) (simp add: bytes_at_def map_replicate_const)
  then have "load64 (memset m p 0 4096) (pte_slot p i) = load64 (\<lambda>_. 0) (pte_slot p i)"
    by (intro load_slot_cong [OF _ assms]) (simp add: same_page_def)
  then show ?thesis by (simp add: load64_def upt_rec)
qed

section \<open>The trees\<close>

definition child :: "memory \<Rightarrow> addr \<Rightarrow> uint64 \<Rightarrow> addr option" where
  "child m p i = (if load64 m (pte_slot p i) AND PTE_V \<noteq> 0
     then Some (PTE2PA (load64 m (pte_slot p i))) else None)"

fun table :: "memory \<Rightarrow> addr \<Rightarrow> uint64 list \<Rightarrow> addr option" where
  "table m p [] = Some p"
| "table m p (i # is) = (case child m p i of None \<Rightarrow> None | Some q \<Rightarrow> table m q is)"

definition path_ok :: "uint64 list \<Rightarrow> bool" where
  "path_ok path \<longleftrightarrow> length path \<le> 2 \<and> (\<forall>i\<in>set path. unat i < 512)"

definition tables :: "memory \<Rightarrow> addr set \<Rightarrow> addr set" where
  "tables m R = {p. \<exists>r\<in>R. \<exists>path. path_ok path \<and> table m r path = Some p}"

text \<open>The indices that lead from the root to the leaf table of \<open>va\<close>.\<close>

definition va_path :: "uint64 \<Rightarrow> uint64 list" where
  "va_path va = [PX 2 va, PX 1 va]"

definition pte_at :: "memory \<Rightarrow> addr \<Rightarrow> uint64 \<Rightarrow> uint64" where
  "pte_at m r va = (case table m r (va_path va) of None \<Rightarrow> 0
     | Some q \<Rightarrow> load64 m (pte_slot q (PX 0 va)))"

definition pt_wf :: "phys \<Rightarrow> addr set \<Rightarrow> bool" where
  "pt_wf s R \<longleftrightarrow> kalloc_inv s
     \<and> (\<forall>p\<in>tables (pmem s) R. page_ok s p \<and> refcount s (pageidx p) = 1)
     \<and> (\<forall>r\<in>R. \<forall>r'\<in>R. \<forall>xs ys p. path_ok xs \<longrightarrow> path_ok ys \<longrightarrow> table (pmem s) r xs = Some p
          \<longrightarrow> table (pmem s) r' ys = Some p \<longrightarrow> r = r' \<and> xs = ys)"

lemma table_snoc: "table m p (xs @ [i]) = (case table m p xs of None \<Rightarrow> None | Some q \<Rightarrow> child m q i)"
  by (induction m p xs rule: table.induct) (auto split: option.splits)

lemma path_ok_snoc: "path_ok (xs @ [i]) \<longleftrightarrow> length xs \<le> 1 \<and> path_ok xs \<and> unat i < 512"
  by (auto simp: path_ok_def)

lemma path_ok_va_path [simp]: "path_ok (va_path va)"
  by (simp add: path_ok_def va_path_def PX_less)

lemma tablesI: "r \<in> R \<Longrightarrow> path_ok path \<Longrightarrow> table m r path = Some p \<Longrightarrow> p \<in> tables m R"
  by (auto simp: tables_def)

lemma child_cong: "same_page m m' p \<Longrightarrow> unat i < 512 \<Longrightarrow> child m p i = child m' p i"
  using load_slot_cong by (simp add: child_def)

lemma pt_wf_table:
  assumes "pt_wf s R" and "r \<in> R" and "path_ok path" and "table (pmem s) r path = Some p"
  shows "page_ok s p" and "refcount s (pageidx p) = 1" and "page_aligned p" and "p \<notin> free_set s"
  using assms tablesI [OF assms(2-4)] by (auto simp: pt_wf_def free_set_def page_ok_def)

lemma pt_wf_inj:
  "pt_wf s R \<Longrightarrow> r \<in> R \<Longrightarrow> r' \<in> R \<Longrightarrow> path_ok xs \<Longrightarrow> path_ok ys \<Longrightarrow> table (pmem s) r xs = Some p \<Longrightarrow>
    table (pmem s) r' ys = Some p \<Longrightarrow> r = r' \<and> xs = ys"
  unfolding pt_wf_def by blast

lemma pt_wf_kalloc: "pt_wf s R \<Longrightarrow> kalloc_inv s"
  by (simp add: pt_wf_def)

lemma table_cong:
  assumes "\<And>p. p \<in> tables m R \<Longrightarrow> same_page m' m p" and "r \<in> R" and "path_ok path"
  shows "table m' r path = table m r path"
  using assms(3)
proof (induction path rule: rev_induct)
  case Nil
  then show ?case by simp
next
  case (snoc i xs)
  then have xs: "path_ok xs" and i: "unat i < 512" by (simp_all add: path_ok_snoc)
  show ?case
  proof (cases "table m r xs")
    case None
    then show ?thesis using snoc xs by (simp add: table_snoc)
  next
    case (Some q)
    then have "same_page m' m q" using assms(1) tablesI [OF assms(2) xs] by blast
    then show ?thesis using Some snoc xs child_cong [OF _ i] by (simp add: table_snoc)
  qed
qed

lemma pte_at_cong:
  assumes "\<And>p. p \<in> tables m R \<Longrightarrow> same_page m' m p" and "r \<in> R"
  shows "pte_at m' r va = pte_at m r va"
proof (cases "table m r (va_path va)")
  case None
  then show ?thesis using table_cong [OF assms, of "va_path va"] by (simp add: pte_at_def)
next
  case (Some q)
  then have "same_page m' m q" using assms(1) tablesI [OF assms(2) path_ok_va_path] by blast
  then show ?thesis
    using Some table_cong [OF assms, of "va_path va"] load_slot_cong [OF _ PX_less]
    by (simp add: pte_at_def)
qed

section \<open>Linking a new table page\<close>

definition linked :: "addr \<Rightarrow> uint64 \<Rightarrow> addr \<Rightarrow> phys \<Rightarrow> phys" where
  "linked q i pg s = s\<lparr>pmem := store64 (memset (pmem s) pg 0 4096) (pte_slot q i) (PA2PTE pg OR PTE_V)\<rparr>"

lemma page_ok_pte:
  assumes "page_ok s pg" and "flags < 1024"
  shows "PTE2PA (PA2PTE pg OR flags) = pg"
proof (rule PTE2PA_PA2PTE)
  have "unat pg < 2281701376" using assms(1) by (simp add: page_ok_def word_less_nat_alt)
  then show "pg < 0x100000000000000" by (simp add: word_less_nat_alt)
qed (use assms in \<open>auto simp: page_ok_def\<close>)

lemma PTE_V_set: "(x OR PTE_V) AND PTE_V \<noteq> 0"
  by (simp add: PTE_bit_iff bit_or_iff)

lemma load_linked:
  assumes "page_aligned q" and "page_aligned pg" and "q \<noteq> pg" and "unat i < 512"
    and "\<And>p. page_aligned p \<Longrightarrow> p \<noteq> pg \<Longrightarrow> same_page (pmem u) m p"
    and "page_aligned p" and "unat j < 512"
  shows "load64 (pmem (linked q i pg u)) (pte_slot p j)
    = (if p = pg then 0 else if p = q \<and> j = i then PA2PTE pg OR PTE_V else load64 m (pte_slot p j))"
proof -
  have "load64 (pmem (linked q i pg u)) (pte_slot p j)
      = (if q = p \<and> i = j then PA2PTE pg OR PTE_V else load64 (memset (pmem u) pg 0 4096) (pte_slot p j))"
    using load_slot_store [OF assms(1,6,4,7)] by (simp add: linked_def)
  moreover have "load64 (memset (pmem u) pg 0 4096) (pte_slot p j) = load64 m (pte_slot p j)" if "p \<noteq> pg"
    using same_page_trans [OF same_page_memset [OF assms(2,6) that] assms(5) [OF assms(6) that]] load_slot_cong assms(7)
    by blast
  ultimately show ?thesis using load_zeroed_slot [OF assms(7)] assms(3) by auto
qed

lemma same_page_linked:
  assumes "page_aligned q" and "page_aligned pg" and "unat i < 512"
    and "\<And>p. page_aligned p \<Longrightarrow> p \<noteq> pg \<Longrightarrow> same_page (pmem u) m p"
    and "page_aligned p" and "p \<noteq> pg" and "p \<noteq> q"
  shows "same_page (pmem (linked q i pg u)) m p"
proof -
  have "same_page (pmem (linked q i pg u)) (memset (pmem u) pg 0 4096) p"
    unfolding linked_def using same_page_store64 [OF assms(1,5,7)] pte_slot_in_page [OF assms(3)] by simp
  then show ?thesis
    using same_page_memset [OF assms(2,5,6)] assms(4) [OF assms(5,6)] same_page_trans by blast
qed

text \<open>A fresh page linked below the table at \<open>P\<close> adds the path \<open>P @ [i]\<close> and no other.\<close>

lemma table_linked:
  assumes wf: "pt_wf s R" and r: "r \<in> R" and P: "path_ok (P @ [i])"
    and q: "table (pmem s) r P = Some q" and none: "child (pmem s) q i = None"
    and pg: "pg \<in> free_set s"
    and u: "\<And>p. page_aligned p \<Longrightarrow> p \<noteq> pg \<Longrightarrow> same_page (pmem u) (pmem s) p"
    and r': "r' \<in> R" and path: "path_ok path"
  shows "table (pmem (linked q i pg u)) r' path
    = (if r' = r \<and> path = P @ [i] then Some pg else table (pmem s) r' path)"
  using path
proof (induction path rule: rev_induct)
  case Nil
  then show ?case by simp
next
  case (snoc j xs)
  let ?t = "linked q i pg u"
  have i: "unat i < 512" "path_ok P" and j: "unat j < 512" "path_ok xs"
    using P snoc.prems by (simp_all add: path_ok_snoc)
  note tq = pt_wf_table [OF wf r i(2) q]
  have pga: "page_aligned pg" "page_ok s pg" using pg by (auto simp: free_set_def page_ok_def)
  have qpg: "q \<noteq> pg" using tq(4) pg by auto
  have ch: "child (pmem ?t) p j = (if p = pg then None else if p = q \<and> j = i then Some pg else child (pmem s) p j)"
    if "page_aligned p" for p
  proof -
    have "load64 (pmem ?t) (pte_slot p j) = (if p = pg then 0
        else if p = q \<and> j = i then PA2PTE pg OR PTE_V else load64 (pmem s) (pte_slot p j))"
      by (rule load_linked [OF tq(3) pga(1) qpg i(1) u that j(1)])
    then show ?thesis
      using page_ok_pte [OF pga(2), of 1] PTE_V_set unfolding child_def by (simp only: split: if_split) auto
  qed
  show ?case
  proof (cases "r' = r \<and> xs = P @ [i]")
    case True
    then have "table (pmem ?t) r' xs = Some pg" using snoc.IH j(2) by simp
    then have "table (pmem ?t) r' (xs @ [j]) = None" using ch [OF pga(1)] by (simp add: table_snoc)
    moreover have "table (pmem s) r' xs = None" using True q none by (simp add: table_snoc)
    then have "table (pmem s) r' (xs @ [j]) = None" by (simp add: table_snoc)
    ultimately show ?thesis using True by simp
  next
    case False
    then have IH: "table (pmem ?t) r' xs = table (pmem s) r' xs" using snoc.IH [OF j(2)] by (simp only: if_False)
    show ?thesis
    proof (cases "table (pmem s) r' xs")
      case None
      then show ?thesis using IH q by (auto simp: table_snoc)
    next
      case (Some p)
      note tp = pt_wf_table [OF wf r' j(2) Some]
      have "p = q \<longleftrightarrow> r' = r \<and> xs = P"
        using pt_wf_inj [OF wf r' r j(2) i(2) Some] q Some by auto
      then show ?thesis using IH Some ch [OF tp(3)] tp(4) pg q by (auto simp: table_snoc)
    qed
  qed
qed

section \<open>What a walk keeps\<close>

text \<open>
  \<open>kept s t R\<close>: the step from \<open>s\<close> to \<open>t\<close> may take free pages for new tables and change entries,
  but keeps the trees well formed, every table where it was, every allocated page that is no table
  (user memory, kernel objects) byte for byte, and every count of an allocated page.
\<close>

definition kept :: "phys \<Rightarrow> phys \<Rightarrow> addr set \<Rightarrow> bool" where
  "kept s t R \<longleftrightarrow> pt_wf t R \<and> page_ok t = page_ok s \<and> kend t = kend s \<and> free_set t \<subseteq> free_set s
     \<and> tables (pmem t) R \<subseteq> tables (pmem s) R \<union> free_set s
     \<and> (\<forall>r\<in>R. \<forall>path p. path_ok path \<longrightarrow> table (pmem s) r path = Some p \<longrightarrow> table (pmem t) r path = Some p)
     \<and> (\<forall>p. page_ok s p \<longrightarrow> p \<notin> free_set s \<longrightarrow> refcount t (pageidx p) = refcount s (pageidx p))
     \<and> (\<forall>p. page_aligned p \<longrightarrow> p \<notin> free_set s \<longrightarrow> p \<notin> tables (pmem s) R \<longrightarrow> same_page (pmem t) (pmem s) p)"

definition same_maps :: "phys \<Rightarrow> phys \<Rightarrow> addr set \<Rightarrow> bool" where
  "same_maps s t R \<longleftrightarrow> (\<forall>r\<in>R. \<forall>va. pte_at (pmem t) r va = pte_at (pmem s) r va)"

lemma kept_refl: "pt_wf s R \<Longrightarrow> kept s s R"
  by (simp add: kept_def)

lemma kept_trans:
  assumes "kept s t R" and "kept t u R"
  shows "kept s u R"
proof -
  have nf: "p \<notin> free_set t" if "p \<notin> free_set s" for p
    using assms(1) that by (auto simp: kept_def)
  moreover have "p \<notin> tables (pmem t) R" if "p \<notin> free_set s" "p \<notin> tables (pmem s) R" for p
    using assms(1) that by (auto simp: kept_def)
  ultimately have "same_page (pmem u) (pmem s) p"
    if "page_aligned p" "p \<notin> free_set s" "p \<notin> tables (pmem s) R" for p
    using assms that same_page_trans unfolding kept_def by meson
  moreover have "refcount u (pageidx p) = refcount s (pageidx p)" if "page_ok s p" "p \<notin> free_set s" for p
    using assms nf [OF that(2)] that by (simp add: kept_def)
  ultimately show ?thesis using assms unfolding kept_def by (simp; blast)
qed

lemma same_maps_trans: "same_maps s t R \<Longrightarrow> same_maps t u R \<Longrightarrow> same_maps s u R"
  by (simp add: same_maps_def)

lemma keptD:
  assumes "kept s t R"
  shows "pt_wf t R" and "page_ok t = page_ok s" and "kend t = kend s" and "free_set t \<subseteq> free_set s"
    and "\<And>r path p. r \<in> R \<Longrightarrow> path_ok path \<Longrightarrow> table (pmem s) r path = Some p \<Longrightarrow> table (pmem t) r path = Some p"
    and "\<And>p. page_ok s p \<Longrightarrow> p \<notin> free_set s \<Longrightarrow> refcount t (pageidx p) = refcount s (pageidx p)"
    and "\<And>p. page_aligned p \<Longrightarrow> p \<notin> free_set s \<Longrightarrow> p \<notin> tables (pmem s) R \<Longrightarrow> same_page (pmem t) (pmem s) p"
  using assms unfolding kept_def by blast+

lemma linked_simps [simp]:
  "page_ok (linked q i pg u) = page_ok u" "kend (linked q i pg u) = kend u"
  "refcount (linked q i pg u) = refcount u" "freelist (linked q i pg u) = freelist u"
  "unlocked (linked q i pg u) = unlocked u" "free_set (linked q i pg u) = free_set u"
  by (auto simp: linked_def page_ok_def unlocked_def free_set_def fun_eq_iff)

text \<open>A change of memory that leaves the free pages alone keeps the allocator's invariant.\<close>

lemma kalloc_inv_pmem:
  assumes "kalloc_inv s" and "\<And>p. p \<in> free_set s \<Longrightarrow> same_page m (pmem s) p"
  shows "kalloc_inv (s\<lparr>pmem := m\<rparr>)"
proof -
  obtain xs where xs: "free_chain (pmem s) (freelist s) xs" "distinct xs" "set xs = free_set s"
    using assms(1) unfolding kalloc_inv_def by blast
  have "load64 m x = load64 (pmem s) x" if "x \<in> set xs" for x
    using load_slot_cong [OF assms(2), of x 0] that xs(3) by (simp add: pte_slot_def)
  then have "free_chain m (freelist s) xs = free_chain (pmem s) (freelist s) xs"
    by (rule free_chain_cong)
  moreover have "free_set (s\<lparr>pmem := m\<rparr>) = free_set s" by (simp add: free_set_def page_ok_def)
  moreover have "unlocked (s\<lparr>pmem := m\<rparr>) = unlocked s" by (simp add: unlocked_def)
  ultimately show ?thesis using assms(1) xs unfolding kalloc_inv_def by auto
qed

lemma pt_wfI:
  assumes "kalloc_inv t"
    and "\<And>r path p. r \<in> R \<Longrightarrow> path_ok path \<Longrightarrow> table (pmem t) r path = Some p \<Longrightarrow> page_ok t p \<and> refcount t (pageidx p) = 1"
    and "\<And>r r' xs ys p. r \<in> R \<Longrightarrow> r' \<in> R \<Longrightarrow> path_ok xs \<Longrightarrow> path_ok ys \<Longrightarrow> table (pmem t) r xs = Some p \<Longrightarrow>
      table (pmem t) r' ys = Some p \<Longrightarrow> r = r' \<and> xs = ys"
  shows "pt_wf t R"
  using assms unfolding pt_wf_def tables_def by blast

text \<open>
  \<open>took s pg u\<close>: \<open>kalloc\<close> took the page \<open>pg\<close>. \<open>missing s R r P i q\<close>: the table \<open>q\<close> at the path
  \<open>P\<close> of the space \<open>r\<close> has no valid entry \<open>i\<close>.
\<close>

definition took :: "phys \<Rightarrow> addr \<Rightarrow> phys \<Rightarrow> bool" where
  "took s pg u \<longleftrightarrow> pg \<in> free_set s \<and> kalloc_inv u \<and> free_set u = free_set s - {pg} \<and> page_ok u = page_ok s
     \<and> kend u = kend s \<and> refcount u = (refcount s)(pageidx pg := 1)
     \<and> (\<forall>p. page_aligned p \<longrightarrow> p \<noteq> pg \<longrightarrow> same_page (pmem u) (pmem s) p)"

lemma kalloc_took:
  assumes "kalloc_inv s"
  obtains "free_set s = {}" "kalloc s = Ok (0, s)"
    | pg u where "kalloc s = Ok (pg, u)" "pg \<noteq> 0" "took s pg u"
  using assms
proof (cases rule: kalloc_cases)
  case none
  then show ?thesis by (rule that(1))
next
  case (page p t)
  have "took s p t" unfolding took_def using page by blast
  then show ?thesis by (rule that(2) [OF page(1,3)])
qed

lemma tookD:
  assumes "took s pg u"
  shows "pg \<in> free_set s" "page_ok s pg" "page_aligned pg" "kalloc_inv u" "free_set u = free_set s - {pg}"
    "page_ok u = page_ok s" "kend u = kend s"
    "\<And>p. page_ok s p \<Longrightarrow> refcount u (pageidx p) = (if p = pg then 1 else refcount s (pageidx p))"
    "\<And>p. page_aligned p \<Longrightarrow> p \<noteq> pg \<Longrightarrow> same_page (pmem u) (pmem s) p"
proof -
  show pg: "page_ok s pg" "pg \<in> free_set s" using assms by (auto simp: took_def free_set_def)
  show "page_aligned pg" using page_okD(1) [OF pg(1)] .
  show "refcount u (pageidx p) = (if p = pg then 1 else refcount s (pageidx p))" if "page_ok s p" for p
    using assms pageidx_eq_iff [OF that pg(1)] by (simp add: took_def)
qed (use assms in \<open>auto simp: took_def\<close>)

definition missing :: "phys \<Rightarrow> addr set \<Rightarrow> addr \<Rightarrow> uint64 list \<Rightarrow> uint64 \<Rightarrow> addr \<Rightarrow> bool" where
  "missing s R r P i q \<longleftrightarrow> pt_wf s R \<and> r \<in> R \<and> path_ok (P @ [i]) \<and> table (pmem s) r P = Some q
     \<and> child (pmem s) q i = None"

lemma missingD:
  assumes "missing s R r P i q"
  shows "pt_wf s R" "r \<in> R" "path_ok (P @ [i])" "path_ok P" "unat i < 512" "table (pmem s) r P = Some q"
    "child (pmem s) q i = None" "page_aligned q" "q \<notin> free_set s" "q \<in> tables (pmem s) R"
    "table (pmem s) r (P @ [i]) = None"
proof -
  show m: "pt_wf s R" "r \<in> R" "path_ok (P @ [i])" "table (pmem s) r P = Some q" "child (pmem s) q i = None"
    using assms by (simp_all add: missing_def)
  then show P: "path_ok P" "unat i < 512" by (simp_all add: path_ok_snoc)
  show "page_aligned q" "q \<notin> free_set s" using pt_wf_table(3,4) [OF m(1,2) P(1) m(4)] by auto
  show "q \<in> tables (pmem s) R" using tablesI [OF m(2) P(1) m(4)] .
  show "table (pmem s) r (P @ [i]) = None" using m by (simp add: table_snoc)
qed

lemma link_table:
  assumes "missing s R r P i q" and "took s pg u" and "r' \<in> R" and "path_ok path"
  shows "table (pmem (linked q i pg u)) r' path
    = (if r' = r \<and> path = P @ [i] then Some pg else table (pmem s) r' path)"
  using missingD [OF assms(1)] tookD [OF assms(2)] assms(3,4) by (intro table_linked) auto

lemma link_mem:
  assumes "missing s R r P i q" and "took s pg u" and "page_aligned p" and "p \<noteq> pg" and "p \<noteq> q"
  shows "same_page (pmem (linked q i pg u)) (pmem s) p"
  using missingD [OF assms(1)] tookD [OF assms(2)] assms(3-5) by (intro same_page_linked) auto

lemma link_wf:
  assumes m: "missing s R r P i q" and u: "took s pg u"
  shows "pt_wf (linked q i pg u) R"
proof (rule pt_wfI)
  let ?t = "linked q i pg u"
  note D = missingD [OF m] tookD [OF u] and tab = link_table [OF m u]
  have "same_page (pmem ?t) (pmem u) p" if "p \<in> free_set u" for p
    using that D by (intro same_page_linked) (auto simp: free_set_def page_ok_def)
  then have "kalloc_inv (u\<lparr>pmem := pmem ?t\<rparr>)" by (rule kalloc_inv_pmem [OF tookD(4) [OF u]])
  then show "kalloc_inv ?t" by (simp add: linked_def)
  have pgtab: "table (pmem s) r' path \<noteq> Some pg" if "r' \<in> R" "path_ok path" for r' path
    using pt_wf_table(4) [OF D(1) that] tookD(1) [OF u] by blast
  show "page_ok ?t p \<and> refcount ?t (pageidx p) = 1"
    if "r' \<in> R" "path_ok path" "table (pmem ?t) r' path = Some p" for r' path p
  proof -
    have "p = pg \<or> table (pmem s) r' path = Some p" using tab [OF that(1,2)] that(3) by (auto split: if_splits)
    then show ?thesis using pt_wf_table(1,2) [OF D(1) that(1,2)] tookD(2,6,8) [OF u] by auto
  qed
  show "r1 = r2 \<and> xs = ys"
    if "r1 \<in> R" "r2 \<in> R" "path_ok xs" "path_ok ys" "table (pmem ?t) r1 xs = Some p" "table (pmem ?t) r2 ys = Some p"
    for r1 r2 xs ys p
    using that tab [OF that(1,3)] tab [OF that(2,4)] pgtab [OF that(1,3)] pgtab [OF that(2,4)]
      pt_wf_inj [OF D(1) that(1-4)] by (auto split: if_splits)
qed

lemma link_kept:
  assumes m: "missing s R r P i q" and u: "took s pg u"
  shows "kept s (linked q i pg u) R"
proof -
  note D = missingD [OF m] and T = tookD [OF u] and tab = link_table [OF m u]
  have "tables (pmem (linked q i pg u)) R \<subseteq> tables (pmem s) R \<union> free_set s"
  proof
    fix p assume "p \<in> tables (pmem (linked q i pg u)) R"
    then obtain r' path where "r' \<in> R" "path_ok path" "table (pmem (linked q i pg u)) r' path = Some p"
      by (auto simp: tables_def)
    then show "p \<in> tables (pmem s) R \<union> free_set s"
      using tab [of r' path] T(1) tablesI [of r' R path] by (auto split: if_splits)
  qed
  moreover have "table (pmem (linked q i pg u)) r' path = Some p"
    if "r' \<in> R" "path_ok path" "table (pmem s) r' path = Some p" for r' path p
    using tab [OF that(1,2)] that(3) D(11) by auto
  moreover have "p \<noteq> pg \<and> p \<noteq> q" if "p \<notin> free_set s" "p \<notin> tables (pmem s) R" for p
    using that T(1) D(10) by auto
  moreover have "refcount u (pageidx p) = refcount s (pageidx p)" if "page_ok s p" "p \<notin> free_set s" for p
    using T(8) [OF that(1)] that(2) T(1) by auto
  ultimately show ?thesis
    unfolding kept_def using link_wf [OF m u] link_mem [OF m u] T(5-7) by simp
qed

lemma link_maps:
  assumes m: "missing s R r P i q" and u: "took s pg u" and r': "r' \<in> R"
  shows "pte_at (pmem (linked q i pg u)) r' va = pte_at (pmem s) r' va"
proof -
  let ?t = "linked q i pg u"
  note D = missingD [OF m] and T = tookD [OF u] and tab = link_table [OF m u r' path_ok_va_path, of va]
  consider (new) "r' = r" "va_path va = P @ [i]" | (none) "table (pmem s) r' (va_path va) = None"
      "\<not> (r' = r \<and> va_path va = P @ [i])"
    | (old) p where "table (pmem s) r' (va_path va) = Some p" "\<not> (r' = r \<and> va_path va = P @ [i])"
    by blast
  then show ?thesis
  proof cases
    case new
    have "q \<noteq> pg" using D(9) T(1) by auto
    then have "load64 (pmem ?t) (pte_slot pg (PX 0 va)) = 0"
      using load_linked [OF D(8) T(3) _ D(5) T(9) T(3) PX_less] by simp
    then show ?thesis using tab new D(11) by (simp add: pte_at_def)
  next
    case none
    then show ?thesis using tab by (auto simp: pte_at_def)
  next
    case (old p)
    note tp = pt_wf_table [OF D(1) r' path_ok_va_path old(1)]
    have "length P \<noteq> length (va_path va)" using D(3) by (simp add: va_path_def path_ok_snoc)
    then have "p \<noteq> q" using pt_wf_inj [OF D(1) r' D(2) path_ok_va_path D(4) old(1)] D(6) by auto
    then have "same_page (pmem ?t) (pmem s) p" using link_mem [OF m u tp(3)] tp(4) T(1) by auto
    then show ?thesis using tab old load_slot_cong [OF _ PX_less] by (simp add: pte_at_def)
  qed
qed

section \<open>walk\<close>

lemma walk_lookup:
  assumes "va < MAXVA"
  shows "walk r va False s
    = Ok (case table (pmem s) r (va_path va) of None \<Rightarrow> 0 | Some q \<Rightarrow> pte_slot q (PX 0 va), s)"
  using assms by (simp add: walk_def va_path_def not_le [symmetric] numeral_2_eq_2 load_pte_def child_def)

lemma walk_bad_va: "va \<ge> MAXVA \<Longrightarrow> walk r va alloc s = Panic ''walk''"
  by (simp add: walk_def)

text \<open>The indices below level \<open>Suc l\<close> on the way down to the leaf table.\<close>

fun down :: "nat \<Rightarrow> uint64 \<Rightarrow> uint64 list" where
  "down 0 va = []"
| "down (Suc l) va = PX (Suc l) va # down l va"

lemma walk_level_alloc:
  assumes "pt_wf s R" and "r \<in> R" and "path_ok P" and "length P + l = 2" and "table (pmem s) r P = Some q"
  shows "\<exists>pte t. walk_level l q va True s = Ok (pte, t) \<and> kept s t R \<and> same_maps s t R
    \<and> card (free_set s) \<le> card (free_set t) + l
    \<and> (pte = 0 \<and> free_set t = {} \<and> card (free_set s) < l
       \<or> (\<exists>leaf. table (pmem t) r (P @ down l va) = Some leaf
            \<and> pte = pte_slot leaf (PX 0 va)))"
  using assms
proof (induction l arbitrary: s P q)
  case 0
  then show ?case by (simp add: kept_refl same_maps_def)
next
  case (Suc l)
  let ?i = "PX (Suc l) va" and ?t = "\<lambda>u pg. linked q (PX (Suc l) va) pg u"
  have Pi: "path_ok (P @ [?i])" "length (P @ [?i]) + l = 2"
    using Suc.prems(3,4) by (simp_all add: path_ok_def PX_less)
  show ?case
  proof (cases "child (pmem s) q ?i")
    case (Some q')
    then have "table (pmem s) r (P @ [?i]) = Some q'" using Suc.prems(5) by (simp add: table_snoc)
    from Suc.IH [OF Suc.prems(1,2) Pi this] show ?thesis
      using Some by (fastforce simp: load_pte_def child_def split: if_splits)
  next
    case None
    then have m: "missing s R r P ?i q" using Suc.prems Pi by (simp add: missing_def)
    have step: "walk_level (Suc l) q va True s = kbind kalloc (\<lambda>pg. if pg = 0 then kret 0 else
       kbind (zero_page pg) (\<lambda>_.
       kbind (store_pte (pte_slot q ?i) (PA2PTE pg OR PTE_V)) (\<lambda>_. walk_level l pg va True))) s"
      using None by (simp add: load_pte_def child_def split: if_splits)
    show ?thesis
    proof (cases rule: kalloc_took [OF pt_wf_kalloc [OF Suc.prems(1)]])
      case 1
      then show ?thesis using step kept_refl [OF Suc.prems(1)] by (simp add: same_maps_def)
    next
      case (2 pg u)
      have run: "walk_level (Suc l) q va True s = walk_level l pg va True (?t u pg)"
        unfolding step using 2 by (simp add: zero_page_def store_pte_def linked_def)
      have new: "table (pmem (?t u pg)) r (P @ [?i]) = Some pg"
        using link_table [OF m 2(3) Suc.prems(2) Pi(1)] by simp
      have sm: "same_maps s (?t u pg) R" using link_maps [OF m 2(3)] by (simp add: same_maps_def)
      obtain pte t where h: "walk_level l pg va True (?t u pg) = Ok (pte, t)" "kept (?t u pg) t R"
          "same_maps (?t u pg) t R" "card (free_set (?t u pg)) \<le> card (free_set t) + l"
          "pte = 0 \<and> free_set t = {} \<and> card (free_set (?t u pg)) < l
          \<or> (\<exists>leaf. table (pmem t) r ((P @ [?i]) @ down l va) = Some leaf
             \<and> pte = pte_slot leaf (PX 0 va))"
        using Suc.IH [OF link_wf [OF m 2(3)] Suc.prems(2) Pi new] by blast
      have "card (free_set s) = Suc (card (free_set (?t u pg)))"
        using tookD(1,5) [OF 2(3)] by (simp add: card_Suc_Diff1 del: card_Diff_insert)
      then show ?thesis
        using h(1,4,5) run kept_trans [OF link_kept [OF m 2(3)] h(2)] same_maps_trans [OF sm h(3)]
        by (auto simp del: walk_level.simps)
    qed
  qed
qed

lemma walk_alloc:
  assumes "pt_wf s R" and "r \<in> R" and "va < MAXVA"
  obtains (full) t where "walk r va True s = Ok (0, t)" "kept s t R" "same_maps s t R" "free_set t = {}"
      "card (free_set s) < 2"
    | (slot) leaf t where "walk r va True s = Ok (pte_slot leaf (PX 0 va), t)" "kept s t R" "same_maps s t R"
        "table (pmem t) r (va_path va) = Some leaf" "card (free_set s) \<le> card (free_set t) + 2"
proof -
  have e: "[] @ down 2 va = va_path va"
    by (simp add: va_path_def numeral_2_eq_2)
  have "walk r va True s = walk_level 2 r va True s" using assms(3) by (simp add: walk_def not_le [symmetric])
  then show ?thesis
    using walk_level_alloc [OF assms(1,2), of "[]" 2 r va] full slot unfolding e by (auto simp: path_ok_def)
qed

lemma pte_slot_nonzero:
  assumes "pt_wf s R" and "r \<in> R" and "path_ok path" and "table (pmem s) r path = Some q" and "unat i < 512"
  shows "pte_slot q i \<noteq> 0"
proof -
  note t = pt_wf_table [OF assms(1-4)]
  have "0 < unat q" using t(1) pt_wf_kalloc [OF assms(1)] by (auto simp: page_ok_def kalloc_inv_def word_le_nat_alt word_less_nat_alt)
  then have "unat (pte_slot q i) \<noteq> 0" using unat_pte_slot [OF t(3) assms(5)] by simp
  then show ?thesis by auto
qed

section \<open>Storing an entry\<close>

text \<open>Two addresses below \<open>MAXVA\<close> have the same entry exactly when they are in the same page.\<close>

definition vpn :: "uint64 \<Rightarrow> nat" where
  "vpn va = unat va div 4096"

lemma unat_PX: "unat (PX l va) = vpn va div 512 ^ l mod 512"
proof -
  have m: "(0x1FF :: 64 word) = mask 9" by (simp add: mask_eq_exp_minus_1)
  have "unat (PX l va) = unat (drop_bit (12 + 9 * l) va) mod 512"
    by (simp add: PX_def m take_bit_eq_mask [symmetric] take_bit_eq_mod unat_mod)
  also have "unat (drop_bit (12 + 9 * l) va) = unat va div 2 ^ (12 + 9 * l)"
  proof -
    have "take_bit 64 (unat va) = unat va" using unat_lt_2p64 [of va] by (simp add: take_bit_nat_eq_self_iff)
    then show ?thesis unfolding unsigned_drop_bit_eq by (simp add: drop_bit_eq_div)
  qed
  also have "\<dots> = vpn va div 512 ^ l"
    by (simp add: vpn_def power_add power_mult div_mult2_eq)
  finally show ?thesis .
qed

lemma vpn_less: "va < MAXVA \<Longrightarrow> vpn va < 67108864"
  by (simp add: vpn_def word_less_nat_alt less_mult_imp_div_less)

lemma div_mod_eqI: "a div n = b div n \<Longrightarrow> a mod n = b mod n \<Longrightarrow> a = b" for a b n :: nat
  by (metis div_mult_mod_eq)

lemma vpn_eq_iff:
  assumes "va < MAXVA" and "vb < MAXVA"
  shows "va_path va = va_path vb \<and> PX 0 va = PX 0 vb \<longleftrightarrow> vpn va = vpn vb"
proof -
  have d: "x = y" if "x div 512 div 512 = y div 512 div 512" "x div 512 mod 512 = y div 512 mod 512"
    "x mod 512 = y mod 512" for x y :: nat
    by (rule div_mod_eqI [OF div_mod_eqI [OF that(1,2)] that(3)])
  have s: "vpn v div 512 ^ 2 mod 512 = vpn v div 512 div 512" if "v < MAXVA" for v
  proof -
    have "vpn v div 512 div 512 < 512" using vpn_less [OF that] by (simp add: div_less_iff_less_mult)
    moreover have "vpn v div 512 ^ 2 = vpn v div 512 div 512" by (simp only: power2_eq_square div_mult2_eq)
    ultimately show ?thesis by (simp only: mod_less)
  qed
  show ?thesis
  proof
    assume "va_path va = va_path vb \<and> PX 0 va = PX 0 vb"
    then have px: "PX 2 va = PX 2 vb" "PX 1 va = PX 1 vb" "PX 0 va = PX 0 vb" by (simp_all add: va_path_def)
    show "vpn va = vpn vb"
    proof (rule d)
      show "vpn va div 512 div 512 = vpn vb div 512 div 512"
        using arg_cong [OF px(1), of unat] by (simp only: unat_PX s assms)
      show "vpn va div 512 mod 512 = vpn vb div 512 mod 512"
        using arg_cong [OF px(2), of unat] by (simp only: unat_PX power_one_right)
      show "vpn va mod 512 = vpn vb mod 512"
        using arg_cong [OF px(3), of unat] by (simp only: unat_PX power_0 div_by_1)
    qed
  next
    assume "vpn va = vpn vb"
    then have "PX l va = PX l vb" for l by (intro word_eq_unatI) (simp add: unat_PX)
    then show "va_path va = va_path vb \<and> PX 0 va = PX 0 vb" by (simp add: va_path_def)
  qed
qed

definition pte_stored :: "addr \<Rightarrow> uint64 \<Rightarrow> phys \<Rightarrow> phys" where
  "pte_stored a v s = s\<lparr>pmem := store64 (pmem s) a v\<rparr>"

lemma store_pte_eq [simp]: "store_pte a v s = Ok ((), pte_stored a v s)"
  by (simp add: store_pte_def pte_stored_def)

lemma pte_stored_simps [simp]:
  "page_ok (pte_stored a v s) = page_ok s" "kend (pte_stored a v s) = kend s"
  "refcount (pte_stored a v s) = refcount s" "free_set (pte_stored a v s) = free_set s"
  "unlocked (pte_stored a v s) = unlocked s"
  by (auto simp: pte_stored_def page_ok_def unlocked_def free_set_def fun_eq_iff)

text \<open>A store to a leaf entry: no table moves, one mapping changes.\<close>

lemma leaf_store_mem:
  assumes "pt_wf s R" and "r \<in> R" and "table (pmem s) r (va_path va) = Some q"
    and "page_aligned p" and "p \<noteq> q"
  shows "same_page (pmem (pte_stored (pte_slot q (PX 0 va)) v s)) (pmem s) p"
  using same_page_store64 [OF pt_wf_table(3) [OF assms(1,2) path_ok_va_path assms(3)] assms(4,5) pte_slot_in_page [OF PX_less]]
  by (simp add: pte_stored_def)

lemma leaf_store_table:
  assumes wf: "pt_wf s R" and r: "r \<in> R" and q: "table (pmem s) r (va_path va) = Some q"
    and r': "r' \<in> R" and path: "path_ok path"
  shows "table (pmem (pte_stored (pte_slot q (PX 0 va)) v s)) r' path = table (pmem s) r' path"
  using path
proof (induction path rule: rev_induct)
  case Nil
  then show ?case by simp
next
  case (snoc j xs)
  then have j: "unat j < 512" "path_ok xs" "length xs \<le> 1" by (simp_all add: path_ok_snoc)
  show ?case
  proof (cases "table (pmem s) r' xs")
    case None
    then show ?thesis using snoc j by (simp add: table_snoc)
  next
    case (Some p)
    have "length xs \<noteq> length (va_path va)" using j(3) by (simp add: va_path_def)
    then have "p \<noteq> q" using pt_wf_inj [OF wf r' r j(2) path_ok_va_path Some] q by auto
    then have "child (pmem (pte_stored (pte_slot q (PX 0 va)) v s)) p j = child (pmem s) p j"
      using leaf_store_mem [OF wf r q pt_wf_table(3) [OF wf r' j(2) Some]] child_cong [OF _ j(1)] by blast
    then show ?thesis using Some snoc j by (simp add: table_snoc)
  qed
qed

lemma leaf_store_maps:
  assumes wf: "pt_wf s R" and r: "r \<in> R" and q: "table (pmem s) r (va_path va) = Some q"
    and r': "r' \<in> R" and va: "va < MAXVA" and vb: "vb < MAXVA"
  shows "pte_at (pmem (pte_stored (pte_slot q (PX 0 va)) v s)) r' vb
    = (if r' = r \<and> vpn vb = vpn va then v else pte_at (pmem s) r' vb)"
proof (cases "table (pmem s) r' (va_path vb)")
  case None
  have "r' = r \<and> vpn vb = vpn va \<Longrightarrow> va_path vb = va_path va" using vpn_eq_iff [OF vb va] by blast
  then have ne: "\<not> (r' = r \<and> vpn vb = vpn va)" using q None by force
  have "table (pmem (pte_stored (pte_slot q (PX 0 va)) v s)) r' (va_path vb) = None"
    using None leaf_store_table [OF wf r q r' path_ok_va_path [of vb]] by simp
  then show ?thesis unfolding pte_at_def using None ne by (simp only: if_False option.case)
next
  case (Some p)
  note tp = pt_wf_table [OF wf r' path_ok_va_path Some] and tq = pt_wf_table [OF wf r path_ok_va_path q]
  have "p = q \<longleftrightarrow> r' = r \<and> va_path vb = va_path va"
  proof
    assume "p = q"
    then show "r' = r \<and> va_path vb = va_path va"
      using pt_wf_inj [OF wf r' r path_ok_va_path path_ok_va_path Some] q by blast
  qed (use q Some in simp)
  then have iff: "(q = p \<and> PX 0 va = PX 0 vb) = (r' = r \<and> vpn vb = vpn va)"
    unfolding vpn_eq_iff [OF vb va, symmetric] by argo
  have "table (pmem (pte_stored (pte_slot q (PX 0 va)) v s)) r' (va_path vb) = Some p"
    using Some leaf_store_table [OF wf r q r' path_ok_va_path [of vb]] by simp
  then have "pte_at (pmem (pte_stored (pte_slot q (PX 0 va)) v s)) r' vb
      = load64 (store64 (pmem s) (pte_slot q (PX 0 va)) v) (pte_slot p (PX 0 vb))"
    by (simp add: pte_at_def) (simp add: pte_stored_def)
  also have "\<dots> = (if q = p \<and> PX 0 va = PX 0 vb then v else load64 (pmem s) (pte_slot p (PX 0 vb)))"
    by (rule load_slot_store [OF tq(3) tp(3) PX_less PX_less])
  finally show ?thesis unfolding iff using Some by (simp add: pte_at_def)
qed

lemma leaf_store_kept:
  assumes wf: "pt_wf s R" and r: "r \<in> R" and q: "table (pmem s) r (va_path va) = Some q"
  shows "kept s (pte_stored (pte_slot q (PX 0 va)) v s) R"
proof -
  let ?t = "pte_stored (pte_slot q (PX 0 va)) v s"
  note tq = pt_wf_table [OF wf r path_ok_va_path q]
  note tab = leaf_store_table [OF wf r q, of _ _ v]
  have mem: "same_page (pmem ?t) (pmem s) p" if "page_aligned p" "p \<noteq> q" for p
    using leaf_store_mem [OF wf r q that] .
  have "pt_wf ?t R"
  proof (rule pt_wfI)
    have "same_page (pmem ?t) (pmem s) p" if "p \<in> free_set s" for p
      using that tq(4) by (intro mem) (auto simp: free_set_def page_ok_def)
    from kalloc_inv_pmem [OF pt_wf_kalloc [OF wf] this] show "kalloc_inv ?t" by (simp add: pte_stored_def)
    show "page_ok ?t p \<and> refcount ?t (pageidx p) = 1"
      if "r' \<in> R" "path_ok path" "table (pmem ?t) r' path = Some p" for r' path p
      using that tab [OF that(1,2)] pt_wf_table(1,2) [OF wf that(1,2)] by simp
    show "r1 = r2 \<and> xs = ys"
      if "r1 \<in> R" "r2 \<in> R" "path_ok xs" "path_ok ys" "table (pmem ?t) r1 xs = Some p" "table (pmem ?t) r2 ys = Some p"
      for r1 r2 xs ys p
      using that tab [OF that(1,3)] tab [OF that(2,4)] pt_wf_inj [OF wf that(1-4)] by simp
  qed
  moreover have "tables (pmem ?t) R = tables (pmem s) R" 
    by (simp add: tables_def tab cong: conj_cong)
  moreover have "q \<in> tables (pmem s) R" by (rule tablesI [OF r path_ok_va_path q])
  ultimately show ?thesis unfolding kept_def using tab mem by auto
qed

section \<open>Ranges of pages\<close>

text \<open>
  \<open>maps_to s t R r va n f\<close>: from \<open>s\<close> to \<open>t\<close>, the entry of the \<open>k\<close>-th page from \<open>va\<close> on in the
  space \<open>r\<close> became \<open>f k\<close>, for \<open>k < n\<close>; every other entry of every space is what it was.
\<close>

definition maps_to :: "phys \<Rightarrow> phys \<Rightarrow> addr set \<Rightarrow> addr \<Rightarrow> uint64 \<Rightarrow> nat \<Rightarrow> (nat \<Rightarrow> uint64) \<Rightarrow> bool" where
  "maps_to s t R r va n f \<longleftrightarrow> (\<forall>r'\<in>R. \<forall>v. v < MAXVA \<longrightarrow> pte_at (pmem t) r' v
     = (if r' = r \<and> vpn va \<le> vpn v \<and> vpn v < vpn va + n then f (vpn v - vpn va) else pte_at (pmem s) r' v))"

lemma maps_to_0: "same_maps s t R \<Longrightarrow> maps_to s t R r va 0 f"
  by (auto simp: maps_to_def same_maps_def)

lemma maps_toD:
  "maps_to s t R r va n f \<Longrightarrow> r' \<in> R \<Longrightarrow> v < MAXVA \<Longrightarrow> pte_at (pmem t) r' v
     = (if r' = r \<and> vpn va \<le> vpn v \<and> vpn v < vpn va + n then f (vpn v - vpn va) else pte_at (pmem s) r' v)"
  unfolding maps_to_def by blast

lemma maps_to_cong: "maps_to s t R r va n f \<Longrightarrow> (\<And>i. i < n \<Longrightarrow> f i = g i) \<Longrightarrow> maps_to s t R r va n g"
  by (auto simp: maps_to_def)

lemma unat_next_page:
  assumes "unat va + 4096 \<le> 274877906944"
  shows "unat (va + PGSIZE) = unat va + 4096"
  using assms by (intro trans [OF unat_add_no_wrap]) simp_all

lemma vpn_next_page: "unat va + 4096 \<le> 274877906944 \<Longrightarrow> vpn (va + PGSIZE) = Suc (vpn va)"
  unfolding vpn_def using unat_next_page [of va] by simp

lemma maps_to_step:
  assumes "maps_to s t R r va 1 (\<lambda>_. f 0)" and "maps_to t u R r (va + PGSIZE) n (\<lambda>k. f (Suc k))"
    and "unat va + 4096 \<le> 274877906944"
  shows "maps_to s u R r va (Suc n) f"
  unfolding maps_to_def
proof (intro ballI allI impI)
  fix r' v assume r': "r' \<in> R" and v: "v < MAXVA"
  have nx: "vpn (va + PGSIZE) = Suc (vpn va)" by (rule vpn_next_page [OF assms(3)])
  have e: "Suc (vpn v - Suc (vpn va)) = vpn v - vpn va" if "Suc (vpn va) \<le> vpn v" using that by simp
  consider "r' \<noteq> r \<or> vpn v < vpn va" | "r' = r" "vpn v = vpn va" | "r' = r" "Suc (vpn va) \<le> vpn v"
    by linarith
  then show "pte_at (pmem u) r' v = (if r' = r \<and> vpn va \<le> vpn v \<and> vpn v < vpn va + Suc n
      then f (vpn v - vpn va) else pte_at (pmem s) r' v)"
    by cases (use maps_toD [OF assms(1) r' v] maps_toD [OF assms(2) r' v] e in \<open>auto simp: nx\<close>)
qed

lemma maps_to_store:
  assumes "kept s t R" and "same_maps s t R" and "r \<in> R" and "table (pmem t) r (va_path va) = Some leaf"
    and "va < MAXVA"
  shows "maps_to s (pte_stored (pte_slot leaf (PX 0 va)) v t) R r va 1 (\<lambda>_. v)"
  unfolding maps_to_def
proof (intro ballI allI impI)
  fix r' vb assume "r' \<in> R" and "vb < MAXVA"
  then have "pte_at (pmem (pte_stored (pte_slot leaf (PX 0 va)) v t)) r' vb
      = (if r' = r \<and> vpn vb = vpn va then v else pte_at (pmem s) r' vb)"
    using leaf_store_maps [OF keptD(1) [OF assms(1)] assms(3,4) _ assms(5), of r' vb v] assms(2)
    by (simp add: same_maps_def)
  moreover have "vpn vb = vpn va \<longleftrightarrow> vpn va \<le> vpn vb \<and> vpn vb < vpn va + 1" by arith
  ultimately show "pte_at (pmem (pte_stored (pte_slot leaf (PX 0 va)) v t)) r' vb
      = (if r' = r \<and> vpn va \<le> vpn vb \<and> vpn vb < vpn va + 1 then v else pte_at (pmem s) r' vb)" by argo
qed

lemma load_leaf: "table (pmem s) r (va_path va) = Some leaf \<Longrightarrow> load_pte (pte_slot leaf (PX 0 va)) s = Ok (pte_at (pmem s) r va, s)"
  by (simp add: load_pte_def pte_at_def)

section \<open>mappages\<close>

definition unmapped :: "phys \<Rightarrow> addr \<Rightarrow> uint64 \<Rightarrow> nat \<Rightarrow> bool" where
  "unmapped s r va n \<longleftrightarrow> (\<forall>v. v < MAXVA \<longrightarrow> vpn va \<le> vpn v \<longrightarrow> vpn v < vpn va + n \<longrightarrow> pte_at (pmem s) r v AND PTE_V = 0)"

lemma last_page_iff:
  assumes "unat va + 4096 * Suc n \<le> 274877906944"
  shows "va = va + of_nat n * PGSIZE \<longleftrightarrow> n = 0"
proof -
  have "n * 4096 < 18446744073709551616" using assms by simp
  then have "unat (of_nat (n * 4096) :: 64 word) = n * 4096" by (simp only: unat_of_nat) simp
  moreover have "(of_nat n :: 64 word) * PGSIZE = of_nat (n * 4096)" by simp
  ultimately have "(of_nat n :: 64 word) * PGSIZE = 0 \<longleftrightarrow> n = 0"
    by (metis mult_eq_0_iff unat_eq_zero zero_neq_numeral)
  then show ?thesis by simp
qed

text \<open>One iteration of the loop of \<open>mappages\<close>, on each of its branches.\<close>

lemma mappages_iteration:
  assumes "pt_wf s R" and "r \<in> R" and "va < MAXVA"
  obtains (full) t where "mappages_loop (Suc fuel) r va last_a pa perm s = Ok (- 1, t)"
      "kept s t R" "same_maps s t R" "free_set t = {}" "card (free_set s) < 2"
    | (remap) "pte_at (pmem s) r va AND PTE_V \<noteq> 0"
      "mappages_loop (Suc fuel) r va last_a pa perm s = Panic ''mappages: remap''"
    | (store) u where "kept s u R" "maps_to s u R r va 1 (\<lambda>_. PA2PTE pa OR perm OR PTE_V)"
      "pte_at (pmem s) r va AND PTE_V = 0"
      "mappages_loop (Suc fuel) r va last_a pa perm s = (if va = last_a then Ok (0, u)
         else mappages_loop fuel r (va + PGSIZE) last_a (pa + PGSIZE) perm u)"
      "card (free_set s) \<le> card (free_set u) + 2"
  using assms
proof (cases rule: walk_alloc)
  case (full t)
  then show ?thesis using that(1) by simp
next
  case (slot leaf t)
  have nz: "pte_slot leaf (PX 0 va) \<noteq> 0"
    by (rule pte_slot_nonzero [OF keptD(1) [OF slot(2)] assms(2) path_ok_va_path slot(4) PX_less])
  have ld: "load_pte (pte_slot leaf (PX 0 va)) t = Ok (pte_at (pmem s) r va, t)"
    using load_leaf [OF slot(4)] slot(3) assms(2) by (simp add: same_maps_def)
  let ?u = "pte_stored (pte_slot leaf (PX 0 va)) (PA2PTE pa OR perm OR PTE_V) t"
  show ?thesis
  proof (cases "pte_at (pmem s) r va AND PTE_V = 0")
    case True
    have "kept s ?u R"
      using kept_trans [OF slot(2) leaf_store_kept [OF keptD(1) [OF slot(2)] assms(2) slot(4)]] .
    moreover have "maps_to s ?u R r va 1 (\<lambda>_. PA2PTE pa OR perm OR PTE_V)"
      by (rule maps_to_store [OF slot(2,3) assms(2) slot(4) assms(3)])
    moreover have "mappages_loop (Suc fuel) r va last_a pa perm s = (if va = last_a then Ok (0, ?u)
         else mappages_loop fuel r (va + PGSIZE) last_a (pa + PGSIZE) perm ?u)"
      using slot(1) nz ld True by simp
    moreover have "card (free_set s) \<le> card (free_set ?u) + 2" using slot(5) by simp
    ultimately show ?thesis using that(3) True by blast
  next
    case False
    then have "mappages_loop (Suc fuel) r va last_a pa perm s = Panic ''mappages: remap''"
      using slot(1) nz ld by simp
    then show ?thesis using that(2) False by blast
  qed
qed

lemma unmapped_step:
  assumes "unmapped s r va (Suc n)" and "maps_to s u R r va 1 f" and "r \<in> R"
    and "unat va + 4096 \<le> 274877906944"
  shows "unmapped u r (va + PGSIZE) n"
  unfolding unmapped_def vpn_next_page [OF assms(4)]
proof (intro allI impI)
  fix v assume v: "v < MAXVA" "Suc (vpn va) \<le> vpn v" "vpn v < Suc (vpn va) + n"
  have "pte_at (pmem u) r v = pte_at (pmem s) r v" using maps_toD [OF assms(2,3) v(1)] v(2) by simp
  moreover have "pte_at (pmem s) r v AND PTE_V = 0" using assms(1) v unfolding unmapped_def by simp
  ultimately show "pte_at (pmem u) r v AND PTE_V = 0" by simp
qed

lemma mappages_loop_range:
  assumes "pt_wf s R" and "r \<in> R" and "unat va + 4096 * Suc n \<le> 274877906944"
    and "unmapped s r va (Suc n)"
  shows "\<exists>res t k. mappages_loop (Suc n) r va (va + of_nat n * PGSIZE) pa perm s = Ok (res, t) \<and> kept s t R
    \<and> maps_to s t R r va k (\<lambda>i. PA2PTE (pa + of_nat i * PGSIZE) OR perm OR PTE_V)
    \<and> (res = 0 \<and> k = Suc n \<or> res = - 1 \<and> k \<le> n \<and> free_set t = {})"
  using assms
proof (induction n arbitrary: s va pa)
  case (0 s va pa)
  have va: "va < MAXVA" using "0.prems"(3) by (simp add: word_less_nat_alt)
  have "pte_at (pmem s) r va AND PTE_V = 0" using "0.prems"(4) va by (simp add: unmapped_def)
  then show ?case
  proof (cases rule: mappages_iteration [OF "0.prems"(1,2) va, of 0 va pa perm])
    case (1 t)
    then show ?thesis using maps_to_0 by (intro exI [of _ "- 1"] exI [of _ t] exI [of _ 0]) simp
  next
    case (3 u)
    have "maps_to s u R r va 1 (\<lambda>i. PA2PTE (pa + of_nat i * PGSIZE) OR perm OR PTE_V)"
      by (rule maps_to_cong [OF 3(2)]) simp
    then show ?thesis using 3(1,4) by (intro exI [of _ 0] exI [of _ u] exI [of _ 1]) simp
  qed simp
next
  case (Suc n s va pa)
  let ?f = "\<lambda>i. PA2PTE (pa + of_nat i * PGSIZE) OR perm OR PTE_V"
  let ?last = "va + of_nat (Suc n) * PGSIZE"
  have va: "va < MAXVA" and small: "unat va + 4096 \<le> 274877906944"
    using Suc.prems(3) by (simp_all add: word_less_nat_alt)
  have valid: "pte_at (pmem s) r va AND PTE_V = 0" using Suc.prems(4) va by (simp add: unmapped_def)
  have ne: "va \<noteq> ?last" using last_page_iff [OF Suc.prems(3)] by simp
  show ?case
  proof (cases rule: mappages_iteration [OF Suc.prems(1,2) va, of "Suc n" ?last pa perm])
    case (1 t)
    then show ?thesis using maps_to_0 by (intro exI [of _ "- 1"] exI [of _ t] exI [of _ 0]) simp
  next
    case 2
    then show ?thesis using valid by simp
  next
    case (3 u)
    have um: "unmapped u r (va + PGSIZE) (Suc n)" by (rule unmapped_step [OF Suc.prems(4) 3(2) Suc.prems(2) small])
    have sh: "unat (va + PGSIZE) + 4096 * Suc n \<le> 274877906944"
      using Suc.prems(3) unat_next_page [OF small] by simp
    have last_eq: "va + PGSIZE + of_nat n * PGSIZE = ?last" by (simp add: algebra_simps)
    obtain res t k where h: "mappages_loop (Suc n) r (va + PGSIZE) ?last (pa + PGSIZE) perm u = Ok (res, t)"
        "kept u t R" "maps_to u t R r (va + PGSIZE) k (\<lambda>i. PA2PTE (pa + PGSIZE + of_nat i * PGSIZE) OR perm OR PTE_V)"
        "res = 0 \<and> k = Suc n \<or> res = - 1 \<and> k \<le> n \<and> free_set t = {}"
      using Suc.IH [OF keptD(1) [OF 3(1)] Suc.prems(2) sh um, of "pa + PGSIZE"] unfolding last_eq by blast
    have "maps_to s t R r va (Suc k) ?f"
      by (rule maps_to_step [OF _ _ small]) (use 3(2) h(3) in \<open>simp_all add: algebra_simps\<close>)
    moreover have "mappages_loop (Suc (Suc n)) r va ?last pa perm s = Ok (res, t)" using 3(4) ne h(1) by simp
    ultimately show ?thesis using kept_trans [OF 3(1) h(2)] h(4)
      by (intro exI [of _ res] exI [of _ t] exI [of _ "Suc k"]) auto
  qed
qed

end
