(* ===== verification/Vm_Space.thy ===== *)
theory Vm_Space
  imports Vm_Tables
begin

text \<open>
  User memory across all address spaces: which spaces map which physical page, and the invariant
  \<open>uvm_inv\<close> that copy-on-write rests on. Every page a space maps is an allocated page that is no
  page table; its reference count is at least the number of its mappings; and a page that some space
  may write is mapped nowhere else.

  The lemmas show that \<open>mappages\<close>, \<open>uvmunmap\<close>, \<open>uvmcopy\<close> and \<open>vmfault\<close> keep the invariant, so that
  the count \<open>vmfault\<close> tests decides correctly between writing in place and copying.
\<close>

unbundle bit_operations_syntax

section \<open>Mappings by page number\<close>

definition page_va :: "nat \<Rightarrow> uint64" where
  "page_va n = of_nat n * PGSIZE"

definition mapping :: "phys \<Rightarrow> addr \<Rightarrow> nat \<Rightarrow> uint64" where
  "mapping s r n = pte_at (pmem s) r (page_va n)"

definition pte_valid :: "uint64 \<Rightarrow> bool" where
  "pte_valid e \<longleftrightarrow> e AND PTE_V \<noteq> 0"

definition pte_writable :: "uint64 \<Rightarrow> bool" where
  "pte_writable e \<longleftrightarrow> e AND PTE_W \<noteq> 0"

text \<open>The pages below \<open>TRAPFRAME\<close> are user pages.\<close>

abbreviation (input) USERPAGES :: nat where "USERPAGES \<equiv> 67108862"

definition mappers :: "phys \<Rightarrow> addr set \<Rightarrow> addr \<Rightarrow> (addr \<times> nat) set" where
  "mappers s R p = {(r, n). r \<in> R \<and> n < USERPAGES \<and> pte_valid (mapping s r n) \<and> PTE2PA (mapping s r n) = p}"

lemma unat_page_va: "n < 67108864 \<Longrightarrow> unat (page_va n) = n * 4096"
proof -
  assume n: "n < 67108864"
  have "unat (of_nat (n * 4096) :: 64 word) = n * 4096 mod 2 ^ 64" by (simp only: unat_of_nat) simp
  also have "\<dots> = n * 4096" using n by simp
  finally show ?thesis by (simp add: page_va_def)
qed

lemma page_va_facts [simp]:
  assumes "n < 67108864"
  shows "page_va n < MAXVA" and "vpn (page_va n) = n" and "page_aligned (page_va n)"
  using unat_page_va [OF assms] assms by (simp_all add: word_less_nat_alt vpn_def page_aligned_iff)

lemma PX_vpn: "vpn v = vpn v' \<Longrightarrow> PX l v = PX l v'"
  by (rule word_eq_unatI) (simp add: unat_PX)

lemma pte_at_vpn: "vpn v = vpn v' \<Longrightarrow> pte_at m r v = pte_at m r v'"
proof -
  assume "vpn v = vpn v'"
  then have "va_path v = va_path v'" "PX 0 v = PX 0 v'" using PX_vpn [of v v'] by (simp_all add: va_path_def)
  then show ?thesis by (simp only: pte_at_def)
qed

lemma pte_at_mapping: "v < MAXVA \<Longrightarrow> pte_at (pmem s) r v = mapping s r (vpn v)"
  unfolding mapping_def by (rule pte_at_vpn) (simp add: vpn_less)

lemma page_va_vpn: "page_aligned v \<Longrightarrow> v < MAXVA \<Longrightarrow> page_va (vpn v) = v"
proof (rule word_eq_unatI)
  assume a: "page_aligned v" and v: "v < MAXVA"
  from a obtain k where "unat v = 4096 * k" unfolding page_aligned_iff by (elim dvdE)
  then show "unat (page_va (vpn v)) = unat v" using unat_page_va [OF vpn_less [OF v]] by (simp add: vpn_def)
qed

lemma page_va_Suc: "page_va n + PGSIZE = page_va (Suc n)"
  by (simp add: page_va_def algebra_simps)

lemma maps_to_mapping:
  assumes "maps_to s t R r (page_va n) k f" and "r' \<in> R" and "n' < 67108864" and "n < 67108864"
  shows "mapping t r' n' = (if r' = r \<and> n \<le> n' \<and> n' < n + k then f (n' - n) else mapping s r' n')"
  using maps_toD [OF assms(1,2), of "page_va n'"] assms(3,4) by (simp add: mapping_def)

lemma same_maps_mapping: "same_maps s t R \<Longrightarrow> r \<in> R \<Longrightarrow> mapping t r n = mapping s r n"
  by (simp add: same_maps_def mapping_def)

lemma finite_mappers: "finite R \<Longrightarrow> finite (mappers s R p)"
  by (rule finite_subset [of _ "R \<times> {..<USERPAGES}"]) (auto simp: mappers_def)

lemma mem_mappers:
  "(r, n) \<in> mappers s R p \<longleftrightarrow> r \<in> R \<and> n < USERPAGES \<and> pte_valid (mapping s r n) \<and> PTE2PA (mapping s r n) = p"
  by (simp add: mappers_def)

section \<open>The invariant\<close>

definition pte_ok :: "phys \<Rightarrow> addr set \<Rightarrow> uint64 \<Rightarrow> bool" where
  "pte_ok s R e \<longleftrightarrow> page_ok s (PTE2PA e) \<and> PTE2PA e \<notin> tables (pmem s) R \<and> e < 0x40000000000000"

definition uvm_inv :: "phys \<Rightarrow> addr set \<Rightarrow> bool" where
  "uvm_inv s R \<longleftrightarrow> finite R \<and> pt_wf s R
     \<and> (\<forall>r\<in>R. \<forall>n<USERPAGES. pte_valid (mapping s r n) \<longrightarrow> pte_ok s R (mapping s r n))
     \<and> (\<forall>p. page_ok s p \<longrightarrow> int (card (mappers s R p)) \<le> refcount s (pageidx p))
     \<and> (\<forall>r\<in>R. \<forall>n<USERPAGES. pte_valid (mapping s r n) \<longrightarrow> pte_writable (mapping s r n)
          \<longrightarrow> mappers s R (PTE2PA (mapping s r n)) = {(r, n)})"

lemma uvm_invD:
  assumes "uvm_inv s R"
  shows "finite R" "pt_wf s R" "kalloc_inv s"
    "\<And>r n. r \<in> R \<Longrightarrow> n < USERPAGES \<Longrightarrow> pte_valid (mapping s r n) \<Longrightarrow> pte_ok s R (mapping s r n)"
    "\<And>p. page_ok s p \<Longrightarrow> int (card (mappers s R p)) \<le> refcount s (pageidx p)"
    "\<And>r n. r \<in> R \<Longrightarrow> n < USERPAGES \<Longrightarrow> pte_valid (mapping s r n) \<Longrightarrow> pte_writable (mapping s r n) \<Longrightarrow>
      mappers s R (PTE2PA (mapping s r n)) = {(r, n)}"
  using assms pt_wf_kalloc unfolding uvm_inv_def by blast+

lemma uvm_inv_refs:
  assumes "uvm_inv s R" and "(r, n) \<in> mappers s R p"
  shows "page_ok s p" "0 < refcount s (pageidx p)" "p \<notin> free_set s" "p \<notin> tables (pmem s) R" "page_aligned p"
proof -
  show ok: "page_ok s p" "p \<notin> tables (pmem s) R"
    using uvm_invD(4) [OF assms(1), of r n] assms(2) by (auto simp: mem_mappers pte_ok_def)
  have "0 < card (mappers s R p)"
    using finite_mappers [OF uvm_invD(1) [OF assms(1)]] assms(2) by (auto simp: card_gt_0_iff)
  then show "0 < refcount s (pageidx p)" using uvm_invD(5) [OF assms(1) ok(1)] by simp
  then show "p \<notin> free_set s" by (simp add: free_set_def)
  show "page_aligned p" by (rule page_okD(1) [OF ok(1)])
qed

text \<open>One mapping changes: what has to hold of the new entry and of the counts.\<close>

definition one_change :: "phys \<Rightarrow> phys \<Rightarrow> addr set \<Rightarrow> addr \<Rightarrow> nat \<Rightarrow> uint64 \<Rightarrow> bool" where
  "one_change s t R r n e \<longleftrightarrow> (\<forall>r'\<in>R. \<forall>n'<67108864. mapping t r' n' = (if r' = r \<and> n' = n then e else mapping s r' n'))"

lemma one_changeD:
  "one_change s t R r n e \<Longrightarrow> r' \<in> R \<Longrightarrow> n' < 67108864 \<Longrightarrow>
    mapping t r' n' = (if r' = r \<and> n' = n then e else mapping s r' n')"
  by (simp add: one_change_def)

lemma mappers_change:
  assumes "one_change s t R r n e" and "r \<in> R" and "n < USERPAGES"
  shows "mappers t R p = (mappers s R p - {(r, n)}) \<union> (if pte_valid e \<and> PTE2PA e = p then {(r, n)} else {})"
proof (rule set_eqI, clarify)
  fix r' n'
  have "r' \<in> R \<Longrightarrow> n' < USERPAGES \<Longrightarrow> mapping t r' n' = (if r' = r \<and> n' = n then e else mapping s r' n')"
    by (rule one_changeD [OF assms(1)]) simp_all
  then show "(r', n') \<in> mappers t R p \<longleftrightarrow>
      (r', n') \<in> (mappers s R p - {(r, n)}) \<union> (if pte_valid e \<and> PTE2PA e = p then {(r, n)} else {})"
    using assms(2,3) by (cases "r' = r \<and> n' = n") (auto simp: mem_mappers)
qed

lemma uvm_inv_change:
  assumes inv: "uvm_inv s R" and wf: "pt_wf t R" and ch: "one_change s t R r n e" and r: "r \<in> R" "n < USERPAGES"
    and ok: "page_ok t = page_ok s" and tab: "tables (pmem t) R \<subseteq> tables (pmem s) R \<union> free_set s"
    and refs: "\<And>p. page_ok s p \<Longrightarrow> int (card (mappers s R p - {(r, n)}))
      + (if pte_valid e \<and> PTE2PA e = p then 1 else 0) \<le> refcount t (pageidx p)"
    and new: "pte_valid e \<Longrightarrow> pte_ok t R e"
    and excl: "\<And>r' n'. pte_valid e \<Longrightarrow> (r', n') \<in> mappers s R (PTE2PA e) - {(r, n)} \<Longrightarrow>
      \<not> pte_writable (mapping s r' n') \<and> \<not> pte_writable e"
  shows "uvm_inv t R"
  unfolding uvm_inv_def
proof (intro conjI ballI allI impI)
  note mp = mappers_change [OF ch r]
  show "finite R" by (rule uvm_invD(1) [OF inv])
  show "pt_wf t R" by (rule wf)
  fix p assume p: "page_ok t p"
  have "card (mappers t R p) \<le> card (mappers s R p - {(r, n)}) + (if pte_valid e \<and> PTE2PA e = p then 1 else 0)"
    unfolding mp using card_Un_le [of "mappers s R p - {(r, n)}" "{(r, n)}"] by simp
  then show "int (card (mappers t R p)) \<le> refcount t (pageidx p)"
    using refs [of p] p ok by (auto split: if_splits)
next
  fix r' n' assume r': "r' \<in> R" and n': "n' < USERPAGES" and v: "pte_valid (mapping t r' n')"
  have m: "mapping t r' n' = (if r' = r \<and> n' = n then e else mapping s r' n')"
    by (rule one_changeD [OF ch r']) (use n' in simp)
  show okt: "pte_ok t R (mapping t r' n')"
  proof (cases "r' = r \<and> n' = n")
    case True
    then show ?thesis using m v new by simp
  next
    case False
    then have ms: "mapping t r' n' = mapping s r' n'" using m by (simp only: if_False)
    then have mem: "(r', n') \<in> mappers s R (PTE2PA (mapping s r' n'))" using r' n' v by (simp add: mem_mappers)
    have "PTE2PA (mapping s r' n') \<notin> tables (pmem t) R"
      using uvm_inv_refs(3,4) [OF inv mem] tab by blast
    then show ?thesis
      using uvm_invD(4) [OF inv r' n'] v ok unfolding ms by (simp add: pte_ok_def)
  qed
  assume w: "pte_writable (mapping t r' n')"
  show "mappers t R (PTE2PA (mapping t r' n')) = {(r', n')}"
  proof (cases "r' = r \<and> n' = n")
    case True
    then have "mappers s R (PTE2PA e) - {(r, n)} = {}" using excl v w m by fastforce
    then show ?thesis unfolding mappers_change [OF ch r] using True v m by simp
  next
    case False
    then have ms: "mapping t r' n' = mapping s r' n'" using m by (simp only: if_False)
    then have one: "mappers s R (PTE2PA (mapping s r' n')) = {(r', n')}"
      using uvm_invD(6) [OF inv r' n'] v w by simp
    have "\<not> (pte_valid e \<and> PTE2PA e = PTE2PA (mapping s r' n'))"
    proof
      assume "pte_valid e \<and> PTE2PA e = PTE2PA (mapping s r' n')"
      then have "\<not> pte_writable (mapping s r' n')" using excl [of r' n'] one False by auto
      then show False using w ms by simp
    qed
    then show ?thesis unfolding ms mappers_change [OF ch r] using one False by auto
  qed
qed

section \<open>Steps that leave the tables alone\<close>

lemma pt_wf_transfer:
  assumes wf: "pt_wf s R" and inv: "kalloc_inv t" and ok: "page_ok t = page_ok s"
    and mem: "\<And>p. p \<in> tables (pmem s) R \<Longrightarrow> same_page (pmem t) (pmem s) p"
    and refs: "\<And>p. p \<in> tables (pmem s) R \<Longrightarrow> refcount t (pageidx p) = refcount s (pageidx p)"
  shows "pt_wf t R" and "tables (pmem t) R = tables (pmem s) R" and "same_maps s t R"
    and "\<And>r path. r \<in> R \<Longrightarrow> path_ok path \<Longrightarrow> table (pmem t) r path = table (pmem s) r path"
proof -
  show tab: "table (pmem t) r path = table (pmem s) r path" if "r \<in> R" "path_ok path" for r path
    by (rule table_cong [OF mem that])
  show tabs: "tables (pmem t) R = tables (pmem s) R" by (simp add: tables_def tab cong: conj_cong)
  show "same_maps s t R" unfolding same_maps_def using pte_at_cong [OF mem] by blast
  show "pt_wf t R"
  proof (rule pt_wfI [OF inv])
    show "page_ok t p \<and> refcount t (pageidx p) = 1"
      if "r \<in> R" "path_ok path" "table (pmem t) r path = Some p" for r path p
      using pt_wf_table(1,2) [OF wf that(1,2)] that tab ok refs [OF tablesI [OF that(1,2)]] by simp
    show "r = r' \<and> xs = ys"
      if "r \<in> R" "r' \<in> R" "path_ok xs" "path_ok ys" "table (pmem t) r xs = Some p" "table (pmem t) r' ys = Some p"
      for r r' xs ys p
      using pt_wf_inj [OF wf that(1-4)] that tab by simp
  qed
qed

lemma mappages_one:
  assumes "pt_wf s R" and "r \<in> R" and "n < 67108864" and "\<not> pte_valid (mapping s r n)"
  obtains (full) t where "mappages r (page_va n) PGSIZE pa perm s = Ok (- 1, t)" "kept s t R"
      "same_maps s t R" "free_set t = {}" "card (free_set s) < 2"
    | (ok) t where "mappages r (page_va n) PGSIZE pa perm s = Ok (0, t)" "kept s t R"
      "one_change s t R r n (PA2PTE pa OR perm OR PTE_V)" "card (free_set s) \<le> card (free_set t) + 2"
proof -
  have small: "unat (page_va n) + 4096 \<le> 274877906944" using unat_page_va [OF assms(3)] assms(3) by simp
  have eq: "mappages r (page_va n) PGSIZE pa perm s = mappages_loop (Suc 0) r (page_va n) (page_va n) pa perm s"
    using page_va_facts(3) [OF assms(3)] by (simp add: mappages_def page_aligned_def)
  have inval: "pte_at (pmem s) r (page_va n) AND PTE_V = 0"
    using assms(4) by (simp add: mapping_def pte_valid_def)
  show ?thesis
  proof (cases rule: mappages_iteration [OF assms(1,2) page_va_facts(1) [OF assms(3)], of 0 "page_va n" pa perm])
    case (1 t)
    then show ?thesis using full eq by simp
  next
    case 2
    then show ?thesis using inval by simp
  next
    case (3 u)
    have "one_change s u R r n (PA2PTE pa OR perm OR PTE_V)"
      unfolding one_change_def
    proof (intro ballI allI impI)
      fix r' n' assume "r' \<in> R" and "n' < (67108864 :: nat)"
      then show "mapping u r' n' = (if r' = r \<and> n' = n then PA2PTE pa OR perm OR PTE_V else mapping s r' n')"
        using maps_to_mapping [OF 3(2), of r' n'] assms(3) by auto
    qed
    then show ?thesis using ok 3(1,4,5) eq by simp
  qed
qed

lemma walk_mapping:
  assumes "pt_wf s R" and "r \<in> R" and "n < 67108864"
  obtains (none) "walk r (page_va n) False s = Ok (0, s)" "mapping s r n = 0"
    | (leaf) q where "walk r (page_va n) False s = Ok (pte_slot q (PX 0 (page_va n)), s)"
      "pte_slot q (PX 0 (page_va n)) \<noteq> 0" "table (pmem s) r (va_path (page_va n)) = Some q"
      "load_pte (pte_slot q (PX 0 (page_va n))) s = Ok (mapping s r n, s)"
proof (cases "table (pmem s) r (va_path (page_va n))")
  case None
  then show ?thesis
    using none walk_lookup [OF page_va_facts(1) [OF assms(3)]] by (simp add: mapping_def pte_at_def)
next
  case (Some q)
  show ?thesis
    using leaf [OF _ pte_slot_nonzero [OF assms(1,2) path_ok_va_path Some PX_less] Some]
      walk_lookup [OF page_va_facts(1) [OF assms(3)]] load_leaf [OF Some] Some by (simp add: mapping_def)
qed

text \<open>Storing a leaf entry changes one mapping and nothing else.\<close>

lemma store_one_change:
  fixes e :: uint64
  assumes "pt_wf s R" and "r \<in> R" and "n < 67108864" and "table (pmem s) r (va_path (page_va n)) = Some q"
  defines "t \<equiv> pte_stored (pte_slot q (PX 0 (page_va n))) e s"
  shows "one_change s t R r n e" and "kept s t R" and "tables (pmem t) R = tables (pmem s) R"
proof -
  show "kept s t R" unfolding t_def by (rule leaf_store_kept [OF assms(1,2,4)])
  show "tables (pmem t) R = tables (pmem s) R"
    unfolding t_def by (simp add: tables_def leaf_store_table [OF assms(1,2,4)] cong: conj_cong)
  show "one_change s t R r n e"
    unfolding one_change_def t_def
  proof (intro ballI allI impI)
    fix r' n' assume "r' \<in> R" and "n' < (67108864 :: nat)"
    then show "mapping (pte_stored (pte_slot q (PX 0 (page_va n))) e s) r' n'
        = (if r' = r \<and> n' = n then e else mapping s r' n')"
      using leaf_store_maps [OF assms(1,2,4) _ page_va_facts(1) [OF assms(3)], of r' "page_va n'"] assms(3)
      by (simp add: mapping_def)
  qed
qed

section \<open>uvmunmap\<close>

text \<open>
  \<open>unmaps s t R r n k\<close>: the valid mappings of the pages \<open>n\<close> to \<open>n + k\<close> of the space \<open>r\<close> are gone, each
  gave back one reference, a page is freed exactly when its count reaches 0, and the pages that are
  still allocated keep their bytes.
\<close>

definition in_range :: "phys \<Rightarrow> addr set \<Rightarrow> addr \<Rightarrow> nat \<Rightarrow> nat \<Rightarrow> addr \<Rightarrow> nat set" where
  "in_range s R r n k p = {i. n \<le> i \<and> i < n + k \<and> (r, i) \<in> mappers s R p}"

definition unmaps :: "phys \<Rightarrow> phys \<Rightarrow> addr set \<Rightarrow> addr \<Rightarrow> nat \<Rightarrow> nat \<Rightarrow> bool" where
  "unmaps s t R r n k \<longleftrightarrow> uvm_inv t R \<and> page_ok t = page_ok s \<and> kend t = kend s
     \<and> tables (pmem t) R = tables (pmem s) R \<and> free_set s \<subseteq> free_set t
     \<and> (\<forall>r'\<in>R. \<forall>i<67108864. mapping t r' i
          = (if r' = r \<and> n \<le> i \<and> i < n + k \<and> pte_valid (mapping s r i) then 0 else mapping s r' i))
     \<and> (\<forall>p. page_ok s p \<longrightarrow> refcount t (pageidx p) = refcount s (pageidx p) - int (card (in_range s R r n k p)))
     \<and> (\<forall>p. page_aligned p \<longrightarrow> p \<notin> free_set t \<longrightarrow> p \<notin> tables (pmem s) R \<longrightarrow> same_page (pmem t) (pmem s) p)"

lemma unmapsD:
  assumes "unmaps s t R r n k"
  shows "uvm_inv t R" "page_ok t = page_ok s" "kend t = kend s" "tables (pmem t) R = tables (pmem s) R"
    "free_set s \<subseteq> free_set t"
    "\<And>r' i. r' \<in> R \<Longrightarrow> i < 67108864 \<Longrightarrow> mapping t r' i
       = (if r' = r \<and> n \<le> i \<and> i < n + k \<and> pte_valid (mapping s r i) then 0 else mapping s r' i)"
    "\<And>p. page_ok s p \<Longrightarrow> refcount t (pageidx p) = refcount s (pageidx p) - int (card (in_range s R r n k p))"
    "\<And>p. page_aligned p \<Longrightarrow> p \<notin> free_set t \<Longrightarrow> p \<notin> tables (pmem s) R \<Longrightarrow> same_page (pmem t) (pmem s) p"
  using assms unfolding unmaps_def by blast+

lemma in_range_0 [simp]: "in_range s R r n 0 p = {}"
  by (auto simp: in_range_def)

lemma finite_in_range [simp]: "finite (in_range s R r n k p)"
  by (rule finite_subset [of _ "{n..<n + k}"]) (auto simp: in_range_def)

lemma unmaps_refl: "uvm_inv s R \<Longrightarrow> unmaps s s R r n 0"
  by (auto simp: unmaps_def)

lemma not_valid_0 [simp]: "\<not> pte_valid 0"
  by (simp add: pte_valid_def)

lemma unmaps_none:
  assumes "uvm_inv s R" and "\<not> pte_valid (mapping s r n)"
  shows "unmaps s s R r n 1"
proof -
  have "in_range s R r n 1 p = {}" for p
    using assms(2) by (auto simp: in_range_def mem_mappers le_less_Suc_eq)
  moreover have "\<not> (n \<le> i \<and> i < n + 1 \<and> pte_valid (mapping s r i))" for i
    using assms(2) by (auto simp: le_less_Suc_eq)
  ultimately show ?thesis using assms(1) unfolding unmaps_def by (auto simp: le_less_Suc_eq)
qed

lemma in_range_split:
  assumes "\<And>i. Suc n \<le> i \<Longrightarrow> i < n + Suc k \<Longrightarrow> mapping t r i = mapping s r i"
  shows "card (in_range s R r n (Suc k) p) = card (in_range s R r n 1 p) + card (in_range t R r (Suc n) k p)"
proof -
  have "in_range s R r n (Suc k) p = in_range s R r n 1 p \<union> in_range t R r (Suc n) k p"
  proof (rule set_eqI)
    fix i
    show "i \<in> in_range s R r n (Suc k) p \<longleftrightarrow> i \<in> in_range s R r n 1 p \<union> in_range t R r (Suc n) k p"
      using assms [of i] by (cases "Suc n \<le> i") (auto simp: in_range_def mem_mappers)
  qed
  then show ?thesis by (simp add: card_Un_disjoint in_range_def disjoint_iff)
qed

lemma unmaps_step:
  assumes "unmaps s t R r n 1" and "unmaps t u R r (Suc n) k" and "n + k < USERPAGES" and "r \<in> R"
  shows "unmaps s u R r n (Suc k)"
  unfolding unmaps_def
proof (intro conjI ballI allI impI)
  note A = unmapsD [OF assms(1)] and B = unmapsD [OF assms(2)]
  show "uvm_inv u R" "page_ok u = page_ok s" "kend u = kend s" "tables (pmem u) R = tables (pmem s) R"
    using A(2-4) B(1-4) by simp_all
  show "free_set s \<subseteq> free_set u" using A(5) B(5) by (rule subset_trans)
  have keep: "mapping t r i = mapping s r i" if "i < 67108864" "Suc n \<le> i" for i
    using A(6) [OF assms(4) that(1)] that(2) by simp
  {
    fix r' i assume r': "r' \<in> R" and i: "i < (67108864 :: nat)"
    show "mapping u r' i = (if r' = r \<and> n \<le> i \<and> i < n + Suc k \<and> pte_valid (mapping s r i) then 0 else mapping s r' i)"
    proof (cases "Suc n \<le> i")
      case True
      then have t: "mapping t r' i = mapping s r' i" using A(6) [OF r' i] by simp
      have "(n \<le> i \<and> i < n + Suc k) = (Suc n \<le> i \<and> i < Suc n + k)" using True by auto
      then show ?thesis using B(6) [OF r' i] unfolding t keep [OF i True] by argo
    next
      case False
      then have "(n \<le> i \<and> i < n + Suc k) = (n \<le> i \<and> i < n + 1)" by auto
      moreover have "mapping u r' i = mapping t r' i" using B(6) [OF r' i] False by simp
      ultimately show ?thesis using A(6) [OF r' i] by argo
    qed
  }
  fix p
  show "refcount u (pageidx p) = refcount s (pageidx p) - int (card (in_range s R r n (Suc k) p))" if "page_ok s p"
  proof -
    have "card (in_range s R r n (Suc k) p) = card (in_range s R r n 1 p) + card (in_range t R r (Suc n) k p)"
      by (rule in_range_split) (use keep assms(3) in simp)
    then show ?thesis using A(2) A(7) [OF that] B(7) [of p] that by simp
  qed
  show "same_page (pmem u) (pmem s) p" if "page_aligned p" "p \<notin> free_set u" "p \<notin> tables (pmem s) R"
    using that A(4) B(5) by (intro same_page_trans [OF B(8) A(8)]) auto
qed

lemma dropped_keeps_tables:
  assumes inv: "uvm_inv s R" and m: "(r, n) \<in> mappers s R pa"
  shows "pt_wf (dropped pa s) R" and "tables (pmem (dropped pa s)) R = tables (pmem s) R"
    and "same_maps s (dropped pa s) R"
    and "\<And>r path. r \<in> R \<Longrightarrow> path_ok path \<Longrightarrow> table (pmem (dropped pa s)) r path = table (pmem s) r path"
proof -
  note P = uvm_inv_refs [OF inv m] and D = dropped_props [OF uvm_invD(3) [OF inv] uvm_inv_refs(1,2) [OF inv m]]
  have tp: "page_ok s p" "page_aligned p" "p \<noteq> pa" if "p \<in> tables (pmem s) R" for p
    using that uvm_invD(2) [OF inv] P(4) page_okD(1) by (auto simp: pt_wf_def)
  have mem: "same_page (pmem (dropped pa s)) (pmem s) p" if "p \<in> tables (pmem s) R" for p
    using D(6) tp [OF that] by blast
  have rc: "refcount (dropped pa s) (pageidx p) = refcount s (pageidx p)" if "p \<in> tables (pmem s) R" for p
    using D(4) pageidx_eq_iff [OF tp(1) [OF that] P(1)] tp(3) [OF that] by simp
  show "pt_wf (dropped pa s) R" "tables (pmem (dropped pa s)) R = tables (pmem s) R" "same_maps s (dropped pa s) R"
    "\<And>r path. r \<in> R \<Longrightarrow> path_ok path \<Longrightarrow> table (pmem (dropped pa s)) r path = table (pmem s) r path"
    by (rule pt_wf_transfer [OF uvm_invD(2) [OF inv] D(1,2) mem rc]; assumption)+
qed

lemma one_change_same_maps:
  "same_maps s t R \<Longrightarrow> one_change t u R r n e \<Longrightarrow> one_change s u R r n e"
  by (simp add: one_change_def same_maps_mapping)

lemma card_mappers_minus:
  assumes "uvm_inv s R" and "(r, n) \<in> mappers s R pa"
  shows "int (card (mappers s R p - {(r, n)})) = int (card (mappers s R p)) - (if p = pa then 1 else 0)"
proof (cases "p = pa")
  case True
  then have "0 < card (mappers s R p)"
    using finite_mappers [OF uvm_invD(1) [OF assms(1)]] assms(2) by (auto simp: card_gt_0_iff)
  then show ?thesis using True assms(2) by simp
next
  case False
  then have "mappers s R p - {(r, n)} = mappers s R p" using assms(2) by (auto simp: mem_mappers)
  then show ?thesis using False by simp
qed

lemma unmap_valid:
  assumes inv: "uvm_inv s R" and r: "r \<in> R" and n: "n < USERPAGES" and v: "pte_valid (mapping s r n)"
    and q: "table (pmem s) r (va_path (page_va n)) = Some q"
  shows "unmaps s (pte_stored (pte_slot q (PX 0 (page_va n))) 0 (dropped (PTE2PA (mapping s r n)) s)) R r n 1"
    (is "unmaps s ?t R r n 1")
proof -
  let ?pa = "PTE2PA (mapping s r n)" and ?s1 = "dropped (PTE2PA (mapping s r n)) s"
  have m: "(r, n) \<in> mappers s R ?pa" using r n v by (simp add: mem_mappers)
  note P = uvm_inv_refs [OF inv m]
  note D = dropped_props [OF uvm_invD(3) [OF inv] P(1,2)] and T = dropped_keeps_tables [OF inv m]
  have n': "n < 67108864" using n by simp
  have "table (pmem ?s1) r (va_path (page_va n)) = Some q" using T(4) [OF r path_ok_va_path] q by simp
  note S = store_one_change [OF T(1) r n' this, of 0]
  have ch: "one_change s ?t R r n 0" by (rule one_change_same_maps [OF T(3) S(1)])
  have rc: "refcount ?t (pageidx p) = refcount s (pageidx p) - (if p = ?pa then 1 else 0)" if "page_ok s p" for p
    using D(4) pageidx_eq_iff [OF that P(1)] by simp
  have "uvm_inv ?t R"
  proof (rule uvm_inv_change [OF inv keptD(1) [OF S(2)] ch r n])
    show "int (card (mappers s R p - {(r, n)})) + (if pte_valid 0 \<and> PTE2PA 0 = p then 1 else 0)
        \<le> refcount ?t (pageidx p)" if "page_ok s p" for p
      using card_mappers_minus [OF inv m, of p] rc [OF that] uvm_invD(5) [OF inv that] by simp
  qed (use D(2) S(3) T(2) in simp_all)
  moreover have "card (in_range s R r n 1 p) = (if p = ?pa then 1 else 0)" for p
  proof -
    have "in_range s R r n 1 p = (if p = ?pa then {n} else {})"
      using m by (auto simp: in_range_def mem_mappers le_less_Suc_eq)
    then show ?thesis by simp
  qed
  moreover have "mapping ?t r' i = (if r' = r \<and> n \<le> i \<and> i < n + 1 \<and> pte_valid (mapping s r i) then 0 else mapping s r' i)"
    if "r' \<in> R" "i < 67108864" for r' i
    using one_changeD [OF ch that] v by (auto simp: le_less_Suc_eq)
  moreover have "same_page (pmem ?t) (pmem s) p"
    if "page_aligned p" "p \<notin> free_set ?t" "p \<notin> tables (pmem s) R" for p
    using that D(5,6) T(2) same_page_trans [OF keptD(7) [OF S(2) that(1)] D(6) [OF that(1)]] by (auto split: if_splits)
  moreover have "free_set s \<subseteq> free_set ?t" using D(5) by auto
  ultimately show ?thesis unfolding unmaps_def using D(2,3) S(3) T(2) rc by simp
qed

lemma uvmunmap_loop_range:
  assumes "uvm_inv s R" and "r \<in> R" and "n + k \<le> USERPAGES"
  shows "\<exists>t. uvmunmap_loop k r (page_va n) (page_va (n + k)) True s = Ok ((), t) \<and> unmaps s t R r n k"
  using assms
proof (induction k arbitrary: s n)
  case 0
  then show ?case using unmaps_refl by simp
next
  case (Suc k)
  have n: "n < USERPAGES" and n': "n < 67108864" using Suc.prems(3) by simp_all
  have lt: "page_va n < page_va (n + Suc k)"
    using unat_page_va [of n] unat_page_va [of "n + Suc k"] Suc.prems(3) by (simp add: word_less_nat_alt)
  let ?body = "kbind (walk r (page_va n) False) (\<lambda>pte. if pte = 0 then kret () else kbind (load_pte pte) (\<lambda>v.
     if v AND PTE_V = 0 then kret () else kbind (if True then ref_dec (PTE2PA v) else kret ()) (\<lambda>_. store_pte pte 0)))"
  have "\<exists>t. ?body s = Ok ((), t) \<and> unmaps s t R r n 1"
  proof (cases rule: walk_mapping [OF uvm_invD(2) [OF Suc.prems(1)] Suc.prems(2) n'])
    case 1
    then show ?thesis using unmaps_none [OF Suc.prems(1), of r n] by simp
  next
    case (2 q)
    show ?thesis
    proof (cases "pte_valid (mapping s r n)")
      case True
      then have "(r, n) \<in> mappers s R (PTE2PA (mapping s r n))" using Suc.prems(2) n by (simp add: mem_mappers)
      from uvm_inv_refs(1,2) [OF Suc.prems(1) this] have "ref_dec (PTE2PA (mapping s r n)) s
          = Ok ((), dropped (PTE2PA (mapping s r n)) s)" by (rule ref_dec_dropped [OF uvm_invD(3) [OF Suc.prems(1)]])
      then show ?thesis
        using 2 True unmap_valid [OF Suc.prems(1,2) n True 2(3)] by (simp add: pte_valid_def)
    next
      case False
      then show ?thesis using 2 unmaps_none [OF Suc.prems(1) False] by (simp add: pte_valid_def)
    qed
  qed
  then obtain t where t: "?body s = Ok ((), t)" "unmaps s t R r n 1" by blast
  obtain u where u: "uvmunmap_loop k r (page_va (Suc n)) (page_va (Suc n + k)) True t = Ok ((), u)"
      "unmaps t u R r (Suc n) k"
    using Suc.IH [OF unmapsD(1) [OF t(2)] Suc.prems(2), of "Suc n"] Suc.prems(3) by auto
  have "unmaps s u R r n (Suc k)"
    by (rule unmaps_step [OF t(2) u(2) _ Suc.prems(2)]) (use Suc.prems(3) in simp)
  moreover have "uvmunmap_loop (Suc k) r (page_va n) (page_va (n + Suc k)) True s = Ok ((), u)"
    using lt t(1) u(1) by (simp add: page_va_Suc)
  ultimately show ?case by blast
qed

section \<open>uvmcopy\<close>

definition no_write :: "uint64 \<Rightarrow> uint64" where
  "no_write e = e AND NOT PTE_W"

lemma bit_no_write: "i < 64 \<Longrightarrow> bit (no_write e) i \<longleftrightarrow> bit e i \<and> i \<noteq> 2"
proof -
  assume i: "i < 64"
  have "bit (4 :: 64 word) i \<longleftrightarrow> i = 2" using bit_exp_iff [where 'a = "64 word", of 2 i] i by auto
  then show ?thesis using i unfolding no_write_def by (simp only: bit_and_iff bit_not_iff) auto
qed

lemma no_write_le: "no_write e \<le> e"
  unfolding no_write_def by (rule word_and_le2)

lemma no_write_facts [simp]:
  "pte_valid (no_write e) = pte_valid e" "\<not> pte_writable (no_write e)" "PTE2PA (no_write e) = PTE2PA e"
proof -
  note b = bit_no_write [of _ e]
  show "pte_valid (no_write e) = pte_valid e" "\<not> pte_writable (no_write e)"
    using b [of 0] b [of 2] by (simp_all add: pte_valid_def pte_writable_def PTE_bit_iff)
  show "PTE2PA (no_write e) = PTE2PA e"
  proof (rule bit_word_eqI)
    fix i assume "i < LENGTH(64)"
    then show "bit (PTE2PA (no_write e)) i = bit (PTE2PA e) i"
      using b [of "10 + (i - 12)"] by (auto simp: PTE2PA_def bit_push_bit_iff bit_drop_bit_eq)
  qed
qed

text \<open>The entry \<open>uvmcopy\<close> builds for the child is the parent's without the write bit.\<close>

lemma pte_rebuild:
  assumes "pte_valid e" and "e < 0x40000000000000"
  shows "PA2PTE (PTE2PA e) OR (PTE_FLAGS e AND NOT PTE_W) OR PTE_V = no_write e"
proof (rule bit_word_eqI)
  fix i assume i: "i < LENGTH(64)"
  have hi: "i < 54" if "bit e i" using bit_lt_exp [of e 54 i] assms(2) that by auto
  have m: "(0x3FF :: 64 word) = mask 10" by (simp add: mask_eq_exp_minus_1)
  have nw: "bit (PTE_FLAGS e AND NOT PTE_W) i \<longleftrightarrow> bit e i \<and> i < 10 \<and> i \<noteq> 2"
    using bit_no_write [of i "PTE_FLAGS e"] i by (auto simp: no_write_def PTE_FLAGS_def m bit_and_iff bit_mask_iff)
  have b0: "bit (1 :: 64 word) i \<longleftrightarrow> i = 0" by (simp add: bit_1_iff)
  have v: "bit e 0" using assms(1) by (simp add: pte_valid_def PTE_bit_iff)
  show "bit (PA2PTE (PTE2PA e) OR (PTE_FLAGS e AND NOT PTE_W) OR PTE_V) i = bit (no_write e) i"
    unfolding bit_or_iff nw bit_no_write [OF i [simplified]] b0
    using i hi v by (cases "i < 10") (auto simp: PA2PTE_def PTE2PA_def bit_push_bit_iff bit_drop_bit_eq)
qed

text \<open>A second, read-only mapping of a mapped page.\<close>

lemma mappers_share:
  assumes r: "old \<in> R" "new \<in> R" "n < USERPAGES"
    and v: "pte_valid (mapping s old n)" "\<not> pte_valid (mapping s new n)"
    and mt: "\<And>r i. r \<in> R \<Longrightarrow> i < 67108864 \<Longrightarrow> mapping t r i
      = (if (r = old \<or> r = new) \<and> i = n then no_write (mapping s old n) else mapping s r i)"
  shows "mappers t R p = mappers s R p \<union> (if p = PTE2PA (mapping s old n) then {(new, n)} else {})"
proof (rule set_eqI, clarify)
  fix r' i
  have "r' \<in> R \<Longrightarrow> i < USERPAGES \<Longrightarrow> mapping t r' i
      = (if (r' = old \<or> r' = new) \<and> i = n then no_write (mapping s old n) else mapping s r' i)"
    by (rule mt) simp_all
  then show "(r', i) \<in> mappers t R p
      \<longleftrightarrow> (r', i) \<in> mappers s R p \<union> (if p = PTE2PA (mapping s old n) then {(new, n)} else {})"
    using r v by (cases "(r' = old \<or> r' = new) \<and> i = n") (auto simp: mem_mappers)
qed

lemma uvm_inv_share:
  assumes inv: "uvm_inv s R" and wf: "pt_wf t R" and r: "old \<in> R" "new \<in> R" "n < USERPAGES"
    and v: "pte_valid (mapping s old n)" "\<not> pte_valid (mapping s new n)"
    and mt: "\<And>r i. r \<in> R \<Longrightarrow> i < 67108864 \<Longrightarrow> mapping t r i
      = (if (r = old \<or> r = new) \<and> i = n then no_write (mapping s old n) else mapping s r i)"
    and ok: "page_ok t = page_ok s" and tab: "tables (pmem t) R \<subseteq> tables (pmem s) R \<union> free_set s"
    and rc: "\<And>p. page_ok s p \<Longrightarrow> p \<notin> free_set s \<Longrightarrow>
      refcount t (pageidx p) = refcount s (pageidx p) + (if p = PTE2PA (mapping s old n) then 1 else 0)"
    and nn: "kalloc_inv t"
  shows "uvm_inv t R"
proof -
  let ?pa = "PTE2PA (mapping s old n)"
  have old: "(old, n) \<in> mappers s R ?pa" using r v by (simp add: mem_mappers)
  note mp = mappers_share [OF r v mt]
  have okt: "pte_ok t R e" if "PTE2PA e = PTE2PA e'" "e < 0x40000000000000" "(r', i) \<in> mappers s R (PTE2PA e')" for e e' r' i
    using uvm_inv_refs [OF inv that(3)] that tab ok by (auto simp: pte_ok_def)
  have small: "no_write e < 0x40000000000000" if "e < 0x40000000000000" for e
    using no_write_le [of e] that by (rule le_less_trans)
  show ?thesis
    unfolding uvm_inv_def
  proof (intro conjI ballI allI impI)
    show "finite R" "pt_wf t R" using uvm_invD(1) [OF inv] wf by auto
    fix p assume p: "page_ok t p"
    show "int (card (mappers t R p)) \<le> refcount t (pageidx p)"
    proof (cases "p \<in> free_set s")
      case True
      then have "mappers s R p = {}" "p \<noteq> ?pa" using uvm_inv_refs(3) [OF inv] old by auto
      then have "mappers t R p = {}" by (simp add: mp)
      then show ?thesis using nn page_okD(2) [OF p] by (simp add: kalloc_inv_def)
    next
      case False
      then show ?thesis
        using uvm_invD(5) [OF inv, of p] p ok rc [of p] card_insert_le_m1 [of "Suc (card (mappers s R p))" "mappers s R p" "(new, n)"]
        by (auto simp: mp)
    qed
  next
    fix r' i assume r': "r' \<in> R" and i: "i < USERPAGES" and vt: "pte_valid (mapping t r' i)"
    have m: "mapping t r' i = (if (r' = old \<or> r' = new) \<and> i = n then no_write (mapping s old n) else mapping s r' i)"
      by (rule mt [OF r']) (use i in simp)
    show "pte_ok t R (mapping t r' i)"
    proof (cases "(r' = old \<or> r' = new) \<and> i = n")
      case True
      then show ?thesis using m okt [OF _ _ old] small uvm_invD(4) [OF inv r(1,3) v(1)] by (simp add: pte_ok_def)
    next
      case False
      then have e: "mapping t r' i = mapping s r' i" using m by (simp only: if_False)
      then have "(r', i) \<in> mappers s R (PTE2PA (mapping s r' i))" using r' i vt by (simp add: mem_mappers)
      then show ?thesis using okt uvm_invD(4) [OF inv r' i] vt unfolding e by (auto simp: pte_ok_def)
    qed
    assume w: "pte_writable (mapping t r' i)"
    then have ne: "\<not> ((r' = old \<or> r' = new) \<and> i = n)" using m by auto
    then have e: "mapping t r' i = mapping s r' i" using m by (simp only: if_False)
    then have one: "mappers s R (PTE2PA (mapping s r' i)) = {(r', i)}" using uvm_invD(6) [OF inv r' i] vt w by simp
    then have "PTE2PA (mapping s r' i) \<noteq> ?pa" using old ne by auto
    then show "mappers t R (PTE2PA (mapping t r' i)) = {(r', i)}" using one by (simp add: mp e)
  qed
qed

lemma uvm_inv_kept:
  assumes inv: "uvm_inv s R" and k: "kept s t R" and m: "same_maps s t R"
  shows "uvm_inv t R"
proof -
  have ms: "mapping t r n = mapping s r n" if "r \<in> R" for r n using same_maps_mapping [OF m that] .
  have mp: "mappers t R p = mappers s R p" for p using ms by (auto simp: mappers_def)
  have "int (card (mappers s R p)) \<le> refcount t (pageidx p)" if p: "page_ok s p" for p
  proof (cases "p \<in> free_set s")
    case True
    then have "mappers s R p = {}" using uvm_inv_refs(3) [OF inv] by auto
    then show ?thesis using pt_wf_kalloc [OF keptD(1) [OF k]] page_okD(2) [OF p] by (simp add: kalloc_inv_def)
  next
    case False
    then show ?thesis using keptD(6) [OF k p] uvm_invD(5) [OF inv p] by simp
  qed
  moreover have "pte_ok t R (mapping s r n)" if "r \<in> R" "n < USERPAGES" "pte_valid (mapping s r n)" for r n
  proof -
    have "(r, n) \<in> mappers s R (PTE2PA (mapping s r n))" using that by (simp add: mem_mappers)
    from uvm_inv_refs(3,4) [OF inv this] have "PTE2PA (mapping s r n) \<notin> tables (pmem t) R"
      using k unfolding kept_def by blast
    then show ?thesis using uvm_invD(4) [OF inv that] keptD(2) [OF k] by (simp add: pte_ok_def)
  qed
  ultimately show ?thesis
    unfolding uvm_inv_def using inv keptD(1,2) [OF k] ms by (simp add: mp uvm_inv_def)
qed

definition copies :: "phys \<Rightarrow> phys \<Rightarrow> addr set \<Rightarrow> addr \<Rightarrow> addr \<Rightarrow> nat \<Rightarrow> nat \<Rightarrow> bool" where
  "copies s t R old new n k \<longleftrightarrow> uvm_inv t R \<and> page_ok t = page_ok s \<and> free_set t \<subseteq> free_set s
     \<and> tables (pmem t) R \<subseteq> tables (pmem s) R \<union> free_set s
     \<and> (\<forall>r\<in>R. \<forall>i<67108864. mapping t r i = (if (r = old \<or> r = new) \<and> n \<le> i \<and> i < n + k \<and> pte_valid (mapping s old i)
          then no_write (mapping s old i) else mapping s r i))
     \<and> (\<forall>p. page_ok s p \<longrightarrow> p \<notin> free_set s \<longrightarrow>
          refcount t (pageidx p) = refcount s (pageidx p) + int (card (in_range s R old n k p)))
     \<and> (\<forall>p. page_aligned p \<longrightarrow> p \<notin> free_set s \<longrightarrow> p \<notin> tables (pmem s) R \<longrightarrow> same_page (pmem t) (pmem s) p)
     \<and> card (free_set s) \<le> card (free_set t) + 2 * k"

lemma copiesD:
  assumes "copies s t R old new n k"
  shows "uvm_inv t R" "page_ok t = page_ok s" "free_set t \<subseteq> free_set s"
    "tables (pmem t) R \<subseteq> tables (pmem s) R \<union> free_set s"
    "\<And>r i. r \<in> R \<Longrightarrow> i < 67108864 \<Longrightarrow> mapping t r i = (if (r = old \<or> r = new) \<and> n \<le> i \<and> i < n + k \<and> pte_valid (mapping s old i)
       then no_write (mapping s old i) else mapping s r i)"
    "\<And>p. page_ok s p \<Longrightarrow> p \<notin> free_set s \<Longrightarrow>
       refcount t (pageidx p) = refcount s (pageidx p) + int (card (in_range s R old n k p))"
    "\<And>p. page_aligned p \<Longrightarrow> p \<notin> free_set s \<Longrightarrow> p \<notin> tables (pmem s) R \<Longrightarrow> same_page (pmem t) (pmem s) p"
    "card (free_set s) \<le> card (free_set t) + 2 * k"
  using assms unfolding copies_def by blast+

lemma copies_refl: "uvm_inv s R \<Longrightarrow> copies s s R old new n 0"
  by (auto simp: copies_def)

lemma copies_skip:
  assumes "uvm_inv s R" and "\<not> pte_valid (mapping s old n)"
  shows "copies s s R old new n 1"
proof -
  have "in_range s R old n 1 p = {}" for p
    using assms(2) by (auto simp: in_range_def mem_mappers le_less_Suc_eq)
  moreover have "\<not> (n \<le> i \<and> i < n + 1 \<and> pte_valid (mapping s old i))" for i
    using assms(2) by (auto simp: le_less_Suc_eq)
  ultimately show ?thesis using assms(1) unfolding copies_def by (auto simp: le_less_Suc_eq)
qed

lemma copies_step:
  assumes "copies s t R old new n 1" and "copies t u R old new (Suc n) k" and "n + k < USERPAGES" and "old \<in> R"
  shows "copies s u R old new n (Suc k)"
  unfolding copies_def
proof (intro conjI ballI allI impI)
  note A = copiesD [OF assms(1)] and B = copiesD [OF assms(2)]
  show "uvm_inv u R" "page_ok u = page_ok s" using A(2) B(1,2) by simp_all
  show "free_set u \<subseteq> free_set s" using A(3) B(3) by (rule subset_trans [rotated])
  show "card (free_set s) \<le> card (free_set u) + 2 * Suc k" using A(8) B(8) by simp
  show "tables (pmem u) R \<subseteq> tables (pmem s) R \<union> free_set s" using A(3,4) B(4) by blast
  have keep: "mapping t r i = mapping s r i" if "r \<in> R" "i < 67108864" "Suc n \<le> i" for r i
    using A(5) [OF that(1,2)] that(3) by simp
  {
    fix r i assume r: "r \<in> R" and i: "i < (67108864 :: nat)"
    show "mapping u r i = (if (r = old \<or> r = new) \<and> n \<le> i \<and> i < n + Suc k \<and> pte_valid (mapping s old i)
      then no_write (mapping s old i) else mapping s r i)"
    proof (cases "Suc n \<le> i")
      case True
      have "(n \<le> i \<and> i < n + Suc k) = (Suc n \<le> i \<and> i < Suc n + k)" using True by auto
      then show ?thesis using B(5) [OF r i] unfolding keep [OF r i True] keep [OF assms(4) i True] by argo
    next
      case False
      then have "(n \<le> i \<and> i < n + Suc k) = (n \<le> i \<and> i < n + 1)" by auto
      moreover have "mapping u r i = mapping t r i" using B(5) [OF r i] False by simp
      ultimately show ?thesis using A(5) [OF r i] by argo
    qed
  }
  fix p
  assume nf: "p \<notin> free_set s"
  then have nt: "p \<notin> free_set t" using A(3) by blast
  show "refcount u (pageidx p) = refcount s (pageidx p) + int (card (in_range s R old n (Suc k) p))" if "page_ok s p"
  proof -
    have "card (in_range s R old n (Suc k) p) = card (in_range s R old n 1 p) + card (in_range t R old (Suc n) k p)"
      by (rule in_range_split) (use keep [OF assms(4)] assms(3) in simp)
    then show ?thesis using A(6) [OF that nf] B(6) [OF _ nt] that A(2) by simp
  qed
  show "same_page (pmem u) (pmem s) p" if "page_aligned p" "p \<notin> tables (pmem s) R"
    using A(4) nf that by (intro same_page_trans [OF B(7) [OF that(1) nt] A(7) [OF that(1) nf]]) blast+
qed

end
