(* ===== verification/Vm_Cow.thy ===== *)
theory Vm_Cow
  imports Vm_Space
begin

text \<open>
  Copy-on-write: \<open>uvmcopy\<close> (the memory part of \<open>fork\<close>) and \<open>vmfault\<close> (the store page fault) against
  the invariant \<open>uvm_inv\<close> on user memory, and the properties of \<open>kernel/vm.c\<close> that follow.
\<close>

unbundle bit_operations_syntax

section \<open>uvmcopy, one page\<close>

lemma set_ref_simps [simp]:
  "pmem (set_ref p v s) = pmem s" "kend (set_ref p v s) = kend s" "unlocked (set_ref p v s) = unlocked s"
  "freelist (set_ref p v s) = freelist s"
  by (simp_all add: set_ref_def unlocked_def)

lemma ref_inc_ok:
  assumes "kalloc_inv s" and "page_ok s p" and "0 < refcount s (pageidx p)"
  shows "ref_inc p s = Ok ((), set_ref p (refcount s (pageidx p) + 1) s)"
    and "kalloc_inv (set_ref p (refcount s (pageidx p) + 1) s)"
    and "free_set (set_ref p (refcount s (pageidx p) + 1) s) = free_set s"
proof -
  have nf: "p \<notin> free_set s" using assms(3) by (simp add: free_set_def)
  show "ref_inc p s = Ok ((), set_ref p (refcount s (pageidx p) + 1) s)"
    using assms page_okD [OF assms(2)] by (intro ref_inc_eq) (simp_all add: kalloc_inv_def)
  show "kalloc_inv (set_ref p (refcount s (pageidx p) + 1) s)"
    by (rule kalloc_inv_set_ref_pos [OF assms(1,2) nf]) (use assms(3) in simp)
  show "free_set (set_ref p (refcount s (pageidx p) + 1) s) = free_set s"
    using free_set_set_ref [OF assms(2)] nf assms(3) by simp
qed

text \<open>
  The state after one iteration that copies a mapping: the child's entry is in (state \<open>t\<close>), then the
  parent's entry loses its write bit, then the page gets one more reference.
\<close>

lemma copy_one_state:
  assumes inv: "uvm_inv s R" and r: "old \<in> R" "new \<in> R" "old \<noteq> new" and n: "n < USERPAGES"
    and v: "pte_valid (mapping s old n)" "\<not> pte_valid (mapping s new n)"
    and k: "kept s t R" and ch: "one_change s t R new n (no_write (mapping s old n))"
    and q: "table (pmem t) old (va_path (page_va n)) = Some q" and c: "card (free_set s) \<le> card (free_set t) + 2"
  defines "pa \<equiv> PTE2PA (mapping s old n)"
    and "t2 \<equiv> pte_stored (pte_slot q (PX 0 (page_va n))) (no_write (mapping s old n)) t"
  shows "ref_inc pa t2 = Ok ((), set_ref pa (refcount s (pageidx pa) + 1) t2)"
    and "copies s (set_ref pa (refcount s (pageidx pa) + 1) t2) R old new n 1"
proof -
  let ?u = "set_ref pa (refcount s (pageidx pa) + 1) t2"
  have m: "(old, n) \<in> mappers s R pa" using r(1) n v(1) by (simp add: mem_mappers pa_def)
  note P = uvm_inv_refs [OF inv m]
  have n': "n < 67108864" using n by simp
  note S = store_one_change [OF keptD(1) [OF k] r(1) n' q, of "no_write (mapping s old n)", folded t2_def]
  have k2: "kept s t2 R" by (rule kept_trans [OF k S(2)])
  have rc2: "refcount t2 (pageidx pa) = refcount s (pageidx pa)" by (rule keptD(6) [OF k2 P(1,3)])
  have i2: "kalloc_inv t2" "page_ok t2 pa" "0 < refcount t2 (pageidx pa)"
    using pt_wf_kalloc [OF keptD(1) [OF k2]] keptD(2) [OF k2] P rc2 by simp_all
  note I = ref_inc_ok [OF i2, unfolded rc2]
  show "ref_inc pa t2 = Ok ((), ?u)" by (rule I(1))
  have tabs: "p \<noteq> pa" if "p \<in> tables (pmem t2) R" for p
    using that P(3,4) k2 by (auto simp: kept_def)
  have "page_ok t2 p" if "p \<in> tables (pmem t2) R" for p using that keptD(1) [OF k2] by (auto simp: pt_wf_def)
  then have rt: "refcount ?u (pageidx p) = refcount t2 (pageidx p)" if "p \<in> tables (pmem t2) R" for p
    using tabs [OF that] pageidx_eq_iff [OF _ i2(2), of p] that by (simp add: set_ref_def)
  have T: "pt_wf ?u R" "tables (pmem ?u) R = tables (pmem t2) R" "same_maps t2 ?u R"
    by (rule pt_wf_transfer [OF keptD(1) [OF k2] I(2)]; simp add: fun_eq_iff rt)+
  have mt: "mapping ?u r i = (if (r = old \<or> r = new) \<and> i = n then no_write (mapping s old n) else mapping s r i)"
    if "r \<in> R" "i < 67108864" for r i
    using one_changeD [OF S(1) that] one_changeD [OF ch that] same_maps_mapping [OF T(3) that(1)] by auto
  have rc: "refcount ?u (pageidx p) = refcount s (pageidx p) + (if p = pa then 1 else 0)"
    if "page_ok s p" "p \<notin> free_set s" for p
    using keptD(6) [OF k2 that] pageidx_eq_iff [OF that(1) P(1)] by (simp add: set_ref_def)
  have tb: "tables (pmem ?u) R \<subseteq> tables (pmem s) R \<union> free_set s" using T(2) k2 unfolding kept_def by blast
  have okp: "page_ok ?u = page_ok s" using keptD(2) [OF k2] by (simp add: fun_eq_iff)
  have "uvm_inv ?u R"
    by (rule uvm_inv_share [OF inv T(1) r(1,2) n v mt okp tb _ I(2)]) (use rc in \<open>simp_all add: pa_def\<close>)
  moreover have "card (in_range s R old n 1 p) = (if p = pa then 1 else 0)" for p
  proof -
    have "in_range s R old n 1 p = (if p = pa then {n} else {})"
      using m by (auto simp: in_range_def mem_mappers le_less_Suc_eq)
    then show ?thesis by simp
  qed
  moreover have "(n \<le> i \<and> i < n + 1 \<and> pte_valid (mapping s old i)) = (i = n)" for i
    using v(1) by (auto simp: le_less_Suc_eq)
  ultimately show "copies s ?u R old new n 1"
    unfolding copies_def using okp tb mt rc I(3) c keptD(4,7) [OF k2] by (auto simp: le_less_Suc_eq t2_def)
qed

section \<open>uvmcopy, the loop\<close>

definition npages :: "uint64 \<Rightarrow> nat" where
  "npages sz = (unat sz + 4095) div 4096"

lemma page_va_less_iff: "i < 67108864 \<Longrightarrow> page_va i < sz \<longleftrightarrow> i < npages sz"
  unfolding word_less_nat_alt npages_def by (simp add: unat_page_va) arith

lemma uvmunmap_range:
  assumes "uvm_inv s R" and "r \<in> R" and "n + k \<le> USERPAGES"
  shows "\<exists>t. uvmunmap r (page_va n) (of_nat k) True s = Ok ((), t) \<and> unmaps s t R r n k"
proof -
  have k: "unat (of_nat k :: 64 word) = k" using assms(3) by (simp add: unat_of_nat)
  have "page_va n + of_nat k * PGSIZE = page_va (n + k)" by (simp add: page_va_def algebra_simps)
  then have "uvmunmap r (page_va n) (of_nat k) True = uvmunmap_loop k r (page_va n) (page_va (n + k)) True"
    using page_va_facts(3) [of n] assms(3) k by (simp add: uvmunmap_def page_aligned_def)
  then show ?thesis using uvmunmap_loop_range [OF assms] by simp
qed

text \<open>
  \<open>copy_fails s v R old new n j\<close>: \<open>j\<close> pages were copied, then a table page could not be allocated,
  and the mappings below page \<open>n + j\<close> of the child were removed again.
\<close>

definition copy_fails :: "phys \<Rightarrow> phys \<Rightarrow> addr set \<Rightarrow> addr \<Rightarrow> addr \<Rightarrow> nat \<Rightarrow> nat \<Rightarrow> bool" where
  "copy_fails s v R old new n j \<longleftrightarrow> card (free_set s) < 2 * Suc j
     \<and> (\<exists>t u. copies s t R old new n j \<and> kept t u R \<and> same_maps t u R \<and> unmaps u v R new 0 (n + j))"

lemma copy_fails_step:
  assumes "copies s t R old new n 1" and "copy_fails t v R old new (Suc n) j" and "n + j < USERPAGES" and "old \<in> R"
  shows "copy_fails s v R old new n (Suc j)"
proof -
  obtain a u where a: "copies t a R old new (Suc n) j" "kept a u R" "same_maps a u R" "unmaps u v R new 0 (Suc n + j)"
    using assms(2) unfolding copy_fails_def by blast
  have "copies s a R old new n (Suc j)" by (rule copies_step [OF assms(1) a(1) assms(3,4)])
  moreover have "card (free_set s) < 2 * Suc (Suc j)"
    using copiesD(8) [OF assms(1)] assms(2) unfolding copy_fails_def by simp
  ultimately show ?thesis unfolding copy_fails_def using a by auto
qed

lemma uvmcopy_iteration:
  assumes inv: "uvm_inv s R" and r: "old \<in> R" "new \<in> R" "old \<noteq> new" and n: "n < USERPAGES"
    and free: "\<not> pte_valid (mapping s new n)" and lt: "page_va n < sz"
  shows "(\<exists>t. copies s t R old new n 1
      \<and> uvmcopy_loop (Suc fuel) old new (page_va n) sz s = uvmcopy_loop fuel old new (page_va (Suc n)) sz t)
    \<or> (\<exists>v. copy_fails s v R old new n 0 \<and> uvmcopy_loop (Suc fuel) old new (page_va n) sz s = Ok (- 1, v))"
proof -
  have n': "n < 67108864" using n by simp
  have div: "page_va n div PGSIZE = of_nat n"
    using unat_page_va [OF n'] n by (intro word_eq_unatI) (simp add: unat_div unat_of_nat)
  show ?thesis
  proof (cases rule: walk_mapping [OF uvm_invD(2) [OF inv] r(1) n'])
    case 1
    then show ?thesis using lt copies_skip [OF inv, of old n] by (auto simp: page_va_Suc)
  next
    case (2 q)
    let ?e = "mapping s old n"
    show ?thesis
    proof (cases "pte_valid ?e")
      case False
      then show ?thesis using 2 lt copies_skip [OF inv False] by (auto simp: page_va_Suc pte_valid_def)
    next
      case True
      have rb: "PA2PTE (PTE2PA ?e) OR (PTE_FLAGS ?e AND NOT PTE_W) OR PTE_V = no_write ?e"
        using uvm_invD(4) [OF inv r(1) n True] by (intro pte_rebuild [OF True]) (simp add: pte_ok_def)
      show ?thesis
      proof (cases rule: mappages_one [OF uvm_invD(2) [OF inv] r(2) n' free, of "PTE2PA ?e" "PTE_FLAGS ?e AND NOT PTE_W"])
        case (1 t)
        have it: "uvm_inv t R" by (rule uvm_inv_kept [OF inv 1(2,3)])
        obtain v where v: "uvmunmap new 0 (of_nat n) True t = Ok ((), v)" "unmaps t v R new 0 n"
          using uvmunmap_range [OF it r(2), of 0 n] n by (auto simp: page_va_def)
        have "copy_fails s v R old new n 0"
          unfolding copy_fails_def using copies_refl [OF inv] 1 v(2) by auto
        moreover have "uvmcopy_loop (Suc fuel) old new (page_va n) sz s = Ok (- 1, v)"
          using 2 lt True 1(1) v(1) div by (simp add: pte_valid_def)
        ultimately show ?thesis by blast
      next
        case (2 t)
        have ch: "one_change s t R new n (no_write ?e)" using 2(3) rb by simp
        have q: "table (pmem t) old (va_path (page_va n)) = Some q"
          by (rule keptD(5) [OF 2(2) r(1) path_ok_va_path \<open>table (pmem s) old (va_path (page_va n)) = Some q\<close>])
        have "mapping t old n = ?e" using one_changeD [OF ch r(1) n'] r(3) by simp
        then have ld: "load_pte (pte_slot q (PX 0 (page_va n))) t = Ok (?e, t)"
          using load_leaf [OF q] by (simp add: mapping_def)
        note C = copy_one_state [OF inv r n True free 2(2) ch q 2(4)]
        show ?thesis
          using lt True \<open>walk old (page_va n) False s = _\<close> \<open>pte_slot q (PX 0 (page_va n)) \<noteq> 0\<close>
            \<open>load_pte (pte_slot q (PX 0 (page_va n))) s = _\<close> 2(1) ld C
          by (auto simp: page_va_Suc pte_valid_def no_write_def)
      qed
    qed
  qed
qed

lemma uvmcopy_loop_range:
  assumes "uvm_inv s R" and "old \<in> R" and "new \<in> R" and "old \<noteq> new" and "npages sz \<le> USERPAGES" and "n \<le> npages sz"
    and "\<forall>i. n \<le> i \<longrightarrow> i < npages sz \<longrightarrow> \<not> pte_valid (mapping s new i)" and "npages sz - n \<le> fuel"
  shows "(\<exists>t. uvmcopy_loop fuel old new (page_va n) sz s = Ok (0, t) \<and> copies s t R old new n (npages sz - n))
    \<or> (\<exists>j v. j < npages sz - n \<and> copy_fails s v R old new n j
        \<and> uvmcopy_loop fuel old new (page_va n) sz s = Ok (- 1, v))"
  using assms
proof (induction fuel arbitrary: s n)
  case 0
  then show ?case using page_va_less_iff [of n sz] copies_refl [OF "0.prems"(1)] by auto
next
  case (Suc fuel)
  show ?case
  proof (cases "n < npages sz")
    case False
    then show ?thesis using page_va_less_iff [of n sz] Suc.prems(5,6) copies_refl [OF Suc.prems(1)] by auto
  next
    case True
    then have n: "n < USERPAGES" using Suc.prems(5) by simp
    have lt: "page_va n < sz" using page_va_less_iff [of n sz] True n by simp
    have free: "\<not> pte_valid (mapping s new n)" using Suc.prems(7) True by simp
    from uvmcopy_iteration [OF Suc.prems(1-4) n free lt, of fuel] show ?thesis
    proof (elim disjE exE conjE)
      fix v assume "copy_fails s v R old new n 0" "uvmcopy_loop (Suc fuel) old new (page_va n) sz s = Ok (- 1, v)"
      then show ?thesis using True by (intro disjI2 exI [of _ 0] exI [of _ v]) simp
    next
      fix t assume c: "copies s t R old new n 1"
        and e: "uvmcopy_loop (Suc fuel) old new (page_va n) sz s = uvmcopy_loop fuel old new (page_va (Suc n)) sz t"
      have k: "Suc (npages sz - Suc n) = npages sz - n" using True by simp
      have "\<not> pte_valid (mapping t new i)" if "Suc n \<le> i" "i < npages sz" for i
        using copiesD(5) [OF c Suc.prems(3), of i] that Suc.prems(5,7) by simp
      then have "(\<exists>u. uvmcopy_loop fuel old new (page_va (Suc n)) sz t = Ok (0, u) \<and> copies t u R old new (Suc n) (npages sz - Suc n))
        \<or> (\<exists>j v. j < npages sz - Suc n \<and> copy_fails t v R old new (Suc n) j
            \<and> uvmcopy_loop fuel old new (page_va (Suc n)) sz t = Ok (- 1, v))"
        using Suc.prems True by (intro Suc.IH [OF copiesD(1) [OF c]]) simp_all
      then show ?thesis
      proof (elim disjE exE conjE)
        fix u assume "uvmcopy_loop fuel old new (page_va (Suc n)) sz t = Ok (0, u)"
          "copies t u R old new (Suc n) (npages sz - Suc n)"
        then show ?thesis
          using copies_step [OF c, of u "npages sz - Suc n"] Suc.prems(2,5) True e unfolding k by simp
      next
        fix j v assume "j < npages sz - Suc n" "copy_fails t v R old new (Suc n) j"
          "uvmcopy_loop fuel old new (page_va (Suc n)) sz t = Ok (- 1, v)"
        then show ?thesis
          using copy_fails_step [OF c, of v j] Suc.prems(2,5) True e
          by (intro disjI2 exI [of _ "Suc j"] exI [of _ v]) simp
      qed
    qed
  qed
qed

lemma uvmcopy_result:
  assumes "uvm_inv s R" and "old \<in> R" and "new \<in> R" and "old \<noteq> new" and "npages sz \<le> USERPAGES"
    and "\<forall>i<npages sz. \<not> pte_valid (mapping s new i)"
  obtains (copied) t where "uvmcopy old new sz s = Ok (0, t)" "copies s t R old new 0 (npages sz)"
    | (failed) j t where "uvmcopy old new sz s = Ok (- 1, t)" "j < npages sz" "copy_fails s t R old new 0 j"
proof -
  have "npages sz \<le> Suc (unat (sz div PGSIZE))" by (simp add: npages_def unat_div)
  moreover have "page_va 0 = 0" by (simp add: page_va_def)
  ultimately show ?thesis
    using uvmcopy_loop_range [OF assms(1-5), of 0 "Suc (unat (sz div PGSIZE))"] assms(6) that
    unfolding uvmcopy_def by (simp del: uvmcopy_loop.simps) blast
qed

lemma copy_fails_effect:
  assumes f: "copy_fails s v R old new 0 j" and r: "old \<in> R" "new \<in> R" "old \<noteq> new" and j: "j < USERPAGES"
    and free: "\<forall>i<k. \<not> pte_valid (mapping s new i)" and k: "j \<le> k" "k \<le> USERPAGES"
  shows "uvm_inv v R" and "i < k \<Longrightarrow> \<not> pte_valid (mapping v new i)"
    and "i < 67108864 \<Longrightarrow> mapping v old i \<in> {mapping s old i, no_write (mapping s old i)}"
    and "r' \<in> R \<Longrightarrow> r' \<noteq> old \<Longrightarrow> r' \<noteq> new \<Longrightarrow> i < 67108864 \<Longrightarrow> mapping v r' i = mapping s r' i"
    and "page_ok s p \<Longrightarrow> p \<notin> free_set s \<Longrightarrow> refcount v (pageidx p) = refcount s (pageidx p)"
    and "page_aligned p \<Longrightarrow> p \<notin> free_set s \<Longrightarrow> p \<notin> tables (pmem s) R \<Longrightarrow> same_page (pmem v) (pmem s) p"
proof -
  obtain t u where c: "copies s t R old new 0 j" and kp: "kept t u R" and sm: "same_maps t u R" and un: "unmaps u v R new 0 j"
    using f by (auto simp: copy_fails_def)
  note C = copiesD [OF c] and U = unmapsD [OF un]
  show "uvm_inv v R" by (rule U(1))
  have mu: "mapping u r' i = mapping t r' i" if "r' \<in> R" for r' i by (rule same_maps_mapping [OF sm that])
  have tn: "pte_valid (mapping t new i) \<longleftrightarrow> i < j \<and> pte_valid (mapping s old i)" if "i < k" for i
    using C(5) [OF r(2), of i] free that k by auto
  show "\<not> pte_valid (mapping v new i)" if "i < k"
    using U(6) [OF r(2), of i] mu [OF r(2), of i] tn [OF that] that k by auto
  show "mapping v old i \<in> {mapping s old i, no_write (mapping s old i)}" if "i < 67108864"
    using U(6) [OF r(1) that] mu [OF r(1), of i] C(5) [OF r(1) that] r(3) by auto
  show "mapping v r' i = mapping s r' i" if "r' \<in> R" "r' \<noteq> old" "r' \<noteq> new" "i < 67108864"
    using U(6) [OF that(1,4)] mu [OF that(1), of i] C(5) [OF that(1,4)] that by simp
  have nt: "p \<notin> free_set t" if "p \<notin> free_set s" using that C(3) by blast
  show refs: "refcount v (pageidx p) = refcount s (pageidx p)" if "page_ok s p" "p \<notin> free_set s"
  proof -
    have "in_range u R new 0 j p = in_range s R old 0 j p"
    proof (rule set_eqI)
      fix i
      show "i \<in> in_range u R new 0 j p \<longleftrightarrow> i \<in> in_range s R old 0 j p"
        using mu [OF r(2), of i] tn [of i] C(5) [OF r(2), of i] r j k by (auto simp: in_range_def mem_mappers)
    qed
    moreover have "refcount u (pageidx p) = refcount t (pageidx p)"
      using keptD(6) [OF kp _ nt] that C(2) by simp
    ultimately show ?thesis using U(7) [of p] C(2,6) that keptD(2) [OF kp] by simp
  qed
  show "same_page (pmem v) (pmem s) p" if a: "page_aligned p" "p \<notin> free_set s" "p \<notin> tables (pmem s) R"
  proof -
    have nv: "p \<notin> free_set v"
    proof
      assume "p \<in> free_set v"
      then have "page_ok s p" "refcount v (pageidx p) = 0"
        using U(2) keptD(2) [OF kp] C(2) by (auto simp: free_set_def)
      then show False using refs [OF _ a(2)] a(2) by (simp add: free_set_def)
    qed
    have tt: "p \<notin> tables (pmem t) R" using C(4) a by blast
    then have "p \<notin> tables (pmem u) R" using kp nt [OF a(2)] unfolding kept_def by blast
    then show ?thesis
      using U(8) [OF a(1) nv] keptD(7) [OF kp a(1) nt [OF a(2)] tt] C(7) [OF a] same_page_trans by blast
  qed
qed

section \<open>vmfault\<close>

lemma word_less_expI:
  fixes w :: "64 word"
  assumes "\<And>i. bit w i \<Longrightarrow> i < k" and "k < 64"
  shows "w < 2 ^ k"
proof -
  have "take_bit k w = w"
    by (rule bit_word_eqI) (use assms(1) in \<open>auto simp: bit_take_bit_iff\<close>)
  then have "take_bit k (unat w) = unat w" by (metis unsigned_take_bit_eq)
  then have "unat w < 2 ^ k" by (simp add: take_bit_nat_eq_self_iff)
  moreover have "unat ((2 :: 64 word) ^ k) = 2 ^ k"
    using assms(2) unat_of_nat [of "2 ^ k", where 'a = 64] power_strict_increasing [of k 64 "2 :: nat"] by simp
  ultimately show ?thesis by (simp add: word_less_nat_alt)
qed

lemma pte_small:
  assumes "page_ok s p" and "flags < 1024"
  shows "PA2PTE p OR flags < 0x40000000000000"
proof -
  have "unat p < 2281701376" using assms(1) by (simp add: page_ok_def word_less_nat_alt)
  then have "p < 2 ^ 32" by (simp add: word_less_nat_alt)
  then have p: "i < 32" if "bit p i" for i using bit_lt_exp [of p 32 i] that by simp
  have f: "i < 10" if "bit flags i" for i using bit_lt_exp [of flags 10 i] assms(2) that by simp
  have "PA2PTE p OR flags < 2 ^ 54"
    by (rule word_less_expI) (auto simp: bit_or_iff PA2PTE_def bit_push_bit_iff bit_drop_bit_eq dest!: p f)
  then show ?thesis by simp
qed

lemma PTE_FLAGS_less: "PTE_FLAGS e < 1024"
proof -
  have "PTE_FLAGS e \<le> 1023" unfolding PTE_FLAGS_def by (rule word_and_le1)
  then show ?thesis by (simp add: word_le_nat_alt word_less_nat_alt)
qed

definition cow_flags :: "uint64 \<Rightarrow> uint64" where
  "cow_flags e = (PTE_FLAGS e AND NOT PTE_W) OR PTE_W"

lemma cow_flags_facts:
  assumes "page_ok s p" and "pte_valid e"
  shows "pte_valid (PA2PTE p OR cow_flags e)" "pte_writable (PA2PTE p OR cow_flags e)"
    "PTE2PA (PA2PTE p OR cow_flags e) = p" "PA2PTE p OR cow_flags e < 0x40000000000000"
proof -
  have m: "(0x3FF :: 64 word) = mask 10" by (simp add: mask_eq_exp_minus_1)
  have w: "bit (4 :: 64 word) i \<longleftrightarrow> i = 2" if "i < 64" for i
    using bit_exp_iff [where 'a = "64 word", of 2 i] that by auto
  have b: "bit (cow_flags e) i \<longleftrightarrow> i < 10 \<and> bit e i \<or> i = 2" if "i < 64" for i
    using bit_no_write [OF that, of "PTE_FLAGS e"] w [OF that]
    by (auto simp: cow_flags_def bit_or_iff no_write_def PTE_FLAGS_def m bit_and_iff bit_mask_iff)
  have "cow_flags e < 2 ^ 10"
  proof (rule word_less_expI)
    fix i assume "bit (cow_flags e) i"
    moreover from this have "i < 64" using bit_imp_le_length by fastforce
    ultimately show "i < 10" using b by auto
  qed simp
  then have f: "cow_flags e < 1024" by simp
  show "PTE2PA (PA2PTE p OR cow_flags e) = p" by (rule page_ok_pte [OF assms(1) f])
  show "PA2PTE p OR cow_flags e < 0x40000000000000" by (rule pte_small [OF assms(1) f])
  show "pte_valid (PA2PTE p OR cow_flags e)" "pte_writable (PA2PTE p OR cow_flags e)"
    using b [of 0] b [of 2] assms(2) by (auto simp: pte_valid_def pte_writable_def PTE_bit_iff bit_or_iff)
qed

lemma or_W_facts:
  assumes "pte_ok s R e"
  shows "pte_valid (e OR PTE_W) = pte_valid e" "pte_writable (e OR PTE_W)" "PTE2PA (e OR PTE_W) = PTE2PA e"
    "pte_ok s R (e OR PTE_W)"
proof -
  have w: "bit (4 :: 64 word) i \<longleftrightarrow> i = 2" if "i < 64" for i
    using bit_exp_iff [where 'a = "64 word", of 2 i] that by auto
  show "pte_valid (e OR PTE_W) = pte_valid e" "pte_writable (e OR PTE_W)"
    using w [of 0] w [of 2] by (simp_all add: pte_valid_def pte_writable_def PTE_bit_iff bit_or_iff)
  show pa: "PTE2PA (e OR PTE_W) = PTE2PA e"
    by (rule bit_word_eqI) (auto simp: PTE2PA_def bit_push_bit_iff bit_drop_bit_eq bit_or_iff w)
  have "e < 2 ^ 54" using assms by (simp add: pte_ok_def)
  then have e: "i < 54" if "bit e i" for i using bit_lt_exp [of e 54 i] that by simp
  have "e OR PTE_W < 2 ^ 54"
  proof (rule word_less_expI)
    fix i assume b: "bit (e OR PTE_W) i"
    then have "i < 64" using bit_imp_le_length by fastforce
    then show "i < 54" using b e w [of i] by (auto simp: bit_or_iff)
  qed simp
  then show "pte_ok s R (e OR PTE_W)" using assms pa by (simp add: pte_ok_def)
qed

lemma PGROUNDDOWN_page_va: "va < MAXVA \<Longrightarrow> PGROUNDDOWN va = page_va (vpn va)"
  using unat_page_va [OF vpn_less, of va] by (intro word_eq_unatI) (simp add: unat_PGROUNDDOWN vpn_def)

text \<open>The page has no other reference: the entry gets its write bit.\<close>

lemma make_writable:
  assumes inv: "uvm_inv s R" and r: "r \<in> R" and n: "n < USERPAGES" and v: "pte_valid (mapping s r n)"
    and one: "refcount s (pageidx (PTE2PA (mapping s r n))) \<le> 1"
    and q: "table (pmem s) r (va_path (page_va n)) = Some q"
  defines "t \<equiv> pte_stored (pte_slot q (PX 0 (page_va n))) (mapping s r n OR PTE_W) s"
  shows "uvm_inv t R" and "one_change s t R r n (mapping s r n OR PTE_W)" and "kept s t R"
proof -
  let ?e = "mapping s r n" and ?pa = "PTE2PA (mapping s r n)"
  have n': "n < 67108864" using n by simp
  have m: "(r, n) \<in> mappers s R ?pa" using r n v by (simp add: mem_mappers)
  note P = uvm_inv_refs [OF inv m] and W = or_W_facts [OF uvm_invD(4) [OF inv r n v]]
  note S = store_one_change [OF uvm_invD(2) [OF inv] r n' q, of "?e OR PTE_W", folded t_def]
  show "one_change s t R r n (?e OR PTE_W)" "kept s t R" by (rule S(1), rule S(2))
  have "card (mappers s R ?pa - {(r, n)}) = 0"
    using card_mappers_minus [OF inv m, of ?pa] uvm_invD(5) [OF inv P(1)] one by simp
  then have none: "mappers s R ?pa - {(r, n)} = {}"
    using finite_mappers [OF uvm_invD(1) [OF inv]] by (simp only: card_0_eq finite_Diff)
  show "uvm_inv t R"
  proof (rule uvm_inv_change [OF inv keptD(1) [OF S(2)] S(1) r n])
    show "pte_ok t R (?e OR PTE_W)" using W(4) S(3) by (simp add: pte_ok_def t_def)
    show "int (card (mappers s R p - {(r, n)})) + (if pte_valid (?e OR PTE_W) \<and> PTE2PA (?e OR PTE_W) = p then 1 else 0)
        \<le> refcount t (pageidx p)" if "page_ok s p" for p
      using card_mappers_minus [OF inv m, of p] uvm_invD(5) [OF inv that] W(1,3) v by (simp add: t_def)
  qed (use S(3) W(3) none in \<open>auto simp: t_def\<close>)
qed

text \<open>The page is shared: its bytes go to a new page, which takes its place.\<close>

lemma memmove_page:
  assumes "page_aligned p" and "page_aligned q" and "p < PHYSTOP" and "q < PHYSTOP"
  shows "bytes_at (memmove m p q 4096) p 4096 = bytes_at m q 4096"
    and "page_aligned x \<Longrightarrow> x \<noteq> p \<Longrightarrow> same_page (memmove m p q 4096) m x"
proof -
  have "unat p < 2281701376" "unat q < 2281701376" using assms(3,4) by (simp_all add: word_less_nat_alt)
  then have a: "memmove m p q 4096 x = (if unat (x - p) < 4096 then m (q + (x - p)) else m x)" for x
    by (intro memmove_apply) simp_all
  show "bytes_at (memmove m p q 4096) p 4096 = bytes_at m q 4096"
    by (rule nth_equalityI) (simp_all add: a unat_of_nat)
  show "same_page (memmove m p q 4096) m x" if "page_aligned x" "x \<noteq> p"
    by (rule same_pageI) (simp add: a page_disjoint [OF assms(1) that])
qed

lemma took_fill:
  assumes wf: "pt_wf s R" and tk: "took s mem u"
    and fill: "\<And>p. page_aligned p \<Longrightarrow> p \<noteq> mem \<Longrightarrow> same_page m (pmem u) p"
  defines "u1 \<equiv> u\<lparr>pmem := m\<rparr>"
  shows "pt_wf u1 R" "tables (pmem u1) R = tables (pmem s) R" "same_maps s u1 R" "page_ok u1 = page_ok s"
    "\<And>p. page_aligned p \<Longrightarrow> p \<noteq> mem \<Longrightarrow> same_page (pmem u1) (pmem s) p"
    "\<And>p. page_ok s p \<Longrightarrow> refcount u1 (pageidx p) = (if p = mem then 1 else refcount s (pageidx p))"
    "\<And>r path. r \<in> R \<Longrightarrow> path_ok path \<Longrightarrow> table (pmem u1) r path = table (pmem s) r path"
    "free_set u1 = free_set s - {mem}"
proof -
  note T = tookD [OF tk]
  show mem: "same_page (pmem u1) (pmem s) p" if "page_aligned p" "p \<noteq> mem" for p
    using same_page_trans [OF fill [OF that] T(9) [OF that]] by (simp add: u1_def)
  show ok: "page_ok u1 = page_ok s" using T(6) by (simp add: u1_def fun_eq_iff page_ok_def)
  show rc: "refcount u1 (pageidx p) = (if p = mem then 1 else refcount s (pageidx p))" if "page_ok s p" for p
    using T(8) [OF that] by (simp add: u1_def)
  show "free_set u1 = free_set s - {mem}" using T(5) by (simp add: u1_def free_set_def page_ok_def)
  have "kalloc_inv u1"
    unfolding u1_def by (rule kalloc_inv_pmem [OF T(4)]) (use T(5) fill in \<open>auto simp: free_set_def page_ok_def\<close>)
  have tp: "page_ok s p" "p \<noteq> mem" if "p \<in> tables (pmem s) R" for p
    using that wf T(1) by (auto simp: pt_wf_def free_set_def)
  have "same_page (pmem u1) (pmem s) p" "refcount u1 (pageidx p) = refcount s (pageidx p)"
    if "p \<in> tables (pmem s) R" for p
    using mem [OF page_okD(1) [OF tp(1) [OF that]] tp(2) [OF that]] rc [OF tp(1) [OF that]] tp(2) [OF that] by simp_all
  note X = pt_wf_transfer [OF wf \<open>kalloc_inv u1\<close> ok this]
  show "pt_wf u1 R" "tables (pmem u1) R = tables (pmem s) R" "same_maps s u1 R"
    "\<And>r path. r \<in> R \<Longrightarrow> path_ok path \<Longrightarrow> table (pmem u1) r path = table (pmem s) r path"
    using X by blast+
qed

lemma took_copy:
  assumes wf: "pt_wf s R" and tk: "took s mem u" and pa: "page_ok s pa" "pa \<notin> free_set s"
  defines "u1 \<equiv> u\<lparr>pmem := memmove (pmem u) mem pa 4096\<rparr>"
  shows "pt_wf u1 R" "tables (pmem u1) R = tables (pmem s) R" "same_maps s u1 R" "page_ok u1 = page_ok s"
    "\<And>p. page_aligned p \<Longrightarrow> p \<noteq> mem \<Longrightarrow> same_page (pmem u1) (pmem s) p"
    "bytes_at (pmem u1) mem 4096 = bytes_at (pmem s) pa 4096"
    "\<And>p. page_ok s p \<Longrightarrow> refcount u1 (pageidx p) = (if p = mem then 1 else refcount s (pageidx p))"
    "\<And>r path. r \<in> R \<Longrightarrow> path_ok path \<Longrightarrow> table (pmem u1) r path = table (pmem s) r path"
proof -
  note T = tookD [OF tk]
  have al: "page_aligned pa" "mem < PHYSTOP" "pa < PHYSTOP" using pa T(2) by (auto simp: page_ok_def)
  note M = memmove_page [OF T(3) al(1) al(2,3)]
  have ne: "pa \<noteq> mem" using pa(2) T(1) by auto
  show "bytes_at (pmem u1) mem 4096 = bytes_at (pmem s) pa 4096"
    using M(1) T(9) [OF al(1) ne] by (simp add: u1_def same_page_def)
  note X = took_fill [OF wf tk, of "memmove (pmem u) mem pa 4096", OF M(2), folded u1_def]
  show "pt_wf u1 R" "tables (pmem u1) R = tables (pmem s) R" "same_maps s u1 R" "page_ok u1 = page_ok s"
    "\<And>p. page_aligned p \<Longrightarrow> p \<noteq> mem \<Longrightarrow> same_page (pmem u1) (pmem s) p"
    "\<And>p. page_ok s p \<Longrightarrow> refcount u1 (pageidx p) = (if p = mem then 1 else refcount s (pageidx p))"
    "\<And>r path. r \<in> R \<Longrightarrow> path_ok path \<Longrightarrow> table (pmem u1) r path = table (pmem s) r path"
    using X(1-7) by blast+
qed

lemma break_sharing:
  assumes inv: "uvm_inv s R" and r: "r \<in> R" and n: "n < USERPAGES" and v: "pte_valid (mapping s r n)"
    and shared: "1 < refcount s (pageidx (PTE2PA (mapping s r n)))"
    and q: "table (pmem s) r (va_path (page_va n)) = Some q" and tk: "took s mem u"
  defines "u1 \<equiv> u\<lparr>pmem := memmove (pmem u) mem (PTE2PA (mapping s r n)) 4096\<rparr>"
  defines "e' \<equiv> PA2PTE mem OR cow_flags (mapping s r n)"
  defines "t \<equiv> pte_stored (pte_slot q (PX 0 (page_va n))) e' (dropped (PTE2PA (mapping s r n)) u1)"
  shows "ref_dec (PTE2PA (mapping s r n)) u1 = Ok ((), dropped (PTE2PA (mapping s r n)) u1)"
    and "load_pte (pte_slot q (PX 0 (page_va n))) (dropped (PTE2PA (mapping s r n)) u1)
      = Ok (mapping s r n, dropped (PTE2PA (mapping s r n)) u1)"
    and "uvm_inv t R" and "one_change s t R r n e'"
    and "bytes_at (pmem t) mem 4096 = bytes_at (pmem s) (PTE2PA (mapping s r n)) 4096"
    and "\<And>p. page_aligned p \<Longrightarrow> p \<noteq> mem \<Longrightarrow> p \<notin> tables (pmem s) R \<Longrightarrow> same_page (pmem t) (pmem s) p"
proof -
  let ?pa = "PTE2PA (mapping s r n)" and ?u2 = "dropped (PTE2PA (mapping s r n)) u1"
  have n': "n < 67108864" using n by simp
  have m: "(r, n) \<in> mappers s R ?pa" using r n v by (simp add: mem_mappers)
  note P = uvm_inv_refs [OF inv m]
  note C = took_copy [OF uvm_invD(2) [OF inv] tk P(1,3), folded u1_def] and K = tookD [OF tk]
  have ne: "?pa \<noteq> mem" using P(3) K(1) by auto
  have memt: "mem \<notin> tables (pmem s) R" using K(1) uvm_invD(2) [OF inv] by (auto simp: pt_wf_def free_set_def)
  have rc1: "refcount u1 (pageidx ?pa) = refcount s (pageidx ?pa)" using C(7) [OF P(1)] ne by simp
  then have "page_ok u1 ?pa" "0 < refcount u1 (pageidx ?pa)" using C(4) P(1,2) by simp_all
  note D = this and I = pt_wf_kalloc [OF C(1)]
  show "ref_dec ?pa u1 = Ok ((), ?u2)" by (rule ref_dec_dropped [OF I D])
  have u2: "?u2 = set_ref ?pa (refcount s (pageidx ?pa) - 1) u1" using shared rc1 by (simp add: dropped_def)
  have rc2: "refcount ?u2 (pageidx p) = (if p = mem then 1 else refcount s (pageidx p) - (if p = ?pa then 1 else 0))"
    if "page_ok s p" for p
    using C(7) [OF that] pageidx_eq_iff [OF that P(1)] ne by (auto simp: u2 set_ref_def)
  have tb: "page_ok s p" "p \<noteq> ?pa" "p \<noteq> mem" if "p \<in> tables (pmem u1) R" for p
    using that C(2) P(4) memt uvm_invD(2) [OF inv] by (auto simp: pt_wf_def)
  have ok2: "page_ok ?u2 = page_ok u1" by (simp add: u2 fun_eq_iff)
  have X: "pt_wf ?u2 R" "tables (pmem ?u2) R = tables (pmem u1) R" "same_maps u1 ?u2 R"
      "\<And>r path. r \<in> R \<Longrightarrow> path_ok path \<Longrightarrow> table (pmem ?u2) r path = table (pmem u1) r path"
    by (rule pt_wf_transfer [OF C(1) dropped_props(1) [OF I D] ok2];
        use tb rc2 C(7) in \<open>simp add: u2\<close>)+
  have q2: "table (pmem ?u2) r (va_path (page_va n)) = Some q" using X(4) C(8) r q by simp
  note S = store_one_change [OF X(1) r n' q2, of e', folded t_def]
  have sm: "same_maps s ?u2 R" by (rule same_maps_trans [OF C(3) X(3)])
  show ch: "one_change s t R r n e'" by (rule one_change_same_maps [OF sm S(1)])
  show "load_pte (pte_slot q (PX 0 (page_va n))) ?u2 = Ok (mapping s r n, ?u2)"
    using load_leaf [OF q2] same_maps_mapping [OF sm r, of n] by (simp add: mapping_def)
  note F = cow_flags_facts [OF K(2) v, folded e'_def]
  have fs: "free_set ?u2 = free_set u1" using dropped_props(5) [OF I D] shared rc1 by simp
  have tab: "tables (pmem t) R = tables (pmem s) R" using S(3) X(2) C(2) by simp
  have fr: "same_page (pmem t) (pmem u1) p" if "page_aligned p" "p \<notin> tables (pmem s) R" for p
    using leaf_store_mem [OF X(1) r q2 that(1)] tablesI [OF r path_ok_va_path q] that(2) by (auto simp: t_def u2)
  show "bytes_at (pmem t) mem 4096 = bytes_at (pmem s) ?pa 4096"
    using fr [OF K(3) memt] C(6) by (simp add: same_page_def)
  show "same_page (pmem t) (pmem s) p" if "page_aligned p" "p \<noteq> mem" "p \<notin> tables (pmem s) R" for p
    using same_page_trans [OF fr [OF that(1,3)] C(5) [OF that(1,2)]] .
  have none: "mappers s R mem = {}" using uvm_inv_refs(3) [OF inv] K(1) by auto
  have okt: "page_ok t = page_ok s" using C(4) ok2 by (simp add: t_def)
  show "uvm_inv t R"
  proof (rule uvm_inv_change [OF inv keptD(1) [OF S(2)] ch r n okt])
    show "int (card (mappers s R p - {(r, n)})) + (if pte_valid e' \<and> PTE2PA e' = p then 1 else 0)
        \<le> refcount t (pageidx p)" if "page_ok s p" for p
      using card_mappers_minus [OF inv m, of p] rc2 [OF that] uvm_invD(5) [OF inv that] F(1,3) none ne
      by (auto simp: t_def)
  qed (use F K(2) okt tab memt none in \<open>auto simp: pte_ok_def\<close>)
qed

text \<open>
  \<open>writes_ok s t R r n pa\<close>: page \<open>n\<close> of the space \<open>r\<close> is now writable at \<open>pa\<close>, holds the bytes it held,
  and is mapped nowhere else; every other mapping of every space is unchanged, and so are the bytes of
  the page behind it.
\<close>

definition writes_ok :: "phys \<Rightarrow> phys \<Rightarrow> addr set \<Rightarrow> addr \<Rightarrow> nat \<Rightarrow> addr \<Rightarrow> bool" where
  "writes_ok s t R r n pa \<longleftrightarrow> pte_valid (mapping t r n) \<and> pte_writable (mapping t r n) \<and> PTE2PA (mapping t r n) = pa
     \<and> bytes_at (pmem t) pa 4096 = bytes_at (pmem s) (PTE2PA (mapping s r n)) 4096
     \<and> mappers t R pa = {(r, n)}
     \<and> (\<forall>r'\<in>R. \<forall>i<USERPAGES. (r', i) \<noteq> (r, n) \<longrightarrow> mapping t r' i = mapping s r' i
          \<and> (pte_valid (mapping s r' i) \<longrightarrow> same_page (pmem t) (pmem s) (PTE2PA (mapping s r' i))))"

lemma writes_okI:
  assumes s: "uvm_inv s R" and t: "uvm_inv t R" and r: "r \<in> R" "n < USERPAGES" and ch: "one_change s t R r n e"
    and e: "pte_valid e" "pte_writable e" "PTE2PA e = pa"
    and b: "bytes_at (pmem t) pa 4096 = bytes_at (pmem s) (PTE2PA (mapping s r n)) 4096"
    and fr: "\<And>p. page_aligned p \<Longrightarrow> p \<notin> free_set s \<Longrightarrow> p \<notin> tables (pmem s) R \<Longrightarrow> same_page (pmem t) (pmem s) p"
  shows "writes_ok s t R r n pa"
proof -
  have m: "mapping t r n = e" using one_changeD [OF ch r(1), of n] r(2) by simp
  have "mappers t R pa = {(r, n)}" using uvm_invD(6) [OF t r] e m by simp
  moreover have "mapping t r' i = mapping s r' i"
      "pte_valid (mapping s r' i) \<longrightarrow> same_page (pmem t) (pmem s) (PTE2PA (mapping s r' i))"
    if r': "r' \<in> R" "i < USERPAGES" "(r', i) \<noteq> (r, n)" for r' i
  proof -
    show "mapping t r' i = mapping s r' i" using one_changeD [OF ch r'(1), of i] r' by auto
    have "(r', i) \<in> mappers s R (PTE2PA (mapping s r' i))" if "pte_valid (mapping s r' i)"
      using that r' by (simp add: mem_mappers)
    then show "pte_valid (mapping s r' i) \<longrightarrow> same_page (pmem t) (pmem s) (PTE2PA (mapping s r' i))"
      using fr uvm_inv_refs(3-5) [OF s] by blast
  qed
  ultimately show ?thesis unfolding writes_ok_def using m e b by simp
qed

lemma writes_ok_kept:
  assumes "uvm_inv s R" and "kept s t R" and "same_maps s t R" and "r \<in> R" and "n < USERPAGES"
    and "pte_valid (mapping s r n)" and "writes_ok t u R r n pa"
  shows "writes_ok s u R r n pa"
proof -
  have ms: "mapping t r' i = mapping s r' i" if "r' \<in> R" for r' i using same_maps_mapping [OF assms(3) that] .
  have sp: "same_page (pmem t) (pmem s) (PTE2PA (mapping s r' i))"
    if "r' \<in> R" "i < USERPAGES" "pte_valid (mapping s r' i)" for r' i
  proof -
    have "(r', i) \<in> mappers s R (PTE2PA (mapping s r' i))" using that by (simp add: mem_mappers)
    from uvm_inv_refs(3-5) [OF assms(1) this] show ?thesis by (intro keptD(7) [OF assms(2)])
  qed
  show ?thesis
    using assms(7) sp [OF assms(4-6)] sp same_page_trans unfolding writes_ok_def ms [OF assms(4)]
    by (auto simp: ms same_page_def)
qed

lemma uvm_inv_not_null:
  assumes "uvm_inv s R" and "(r, n) \<in> mappers s R p"
  shows "p \<noteq> 0"
  using uvm_inv_refs(1) [OF assms] kpages.not_null [OF uvm_invD(3) [OF assms(1)]] by blast

text \<open>The rest of \<open>vmfault\<close> once \<open>walk\<close> has found a valid entry.\<close>

definition fault_page :: "addr \<Rightarrow> uint64 \<Rightarrow> (phys, addr) kmon" where
  "fault_page pte v =
     (if v AND PTE_W \<noteq> 0 then kret (PTE2PA v) else
      kbind (ref_get (PTE2PA v)) (\<lambda>n.
      if n > 1 then
        kbind kalloc (\<lambda>mem.
        if mem = 0 then kret 0 else
        kbind (kmodify (\<lambda>s. s\<lparr>pmem := memmove (pmem s) mem (PTE2PA v) 4096\<rparr>)) (\<lambda>_.
        kbind (ref_dec (PTE2PA v)) (\<lambda>_.
        kbind (load_pte pte) (\<lambda>v'.
        kbind (store_pte pte (PA2PTE mem OR (PTE_FLAGS v' AND NOT PTE_W) OR PTE_W)) (\<lambda>_.
        kret mem)))))
      else
        kbind (store_pte pte (v OR PTE_W)) (\<lambda>_. kret (PTE2PA v))))"

lemma fault_page_ok:
  assumes inv: "uvm_inv s R" and r: "r \<in> R" and n: "n < USERPAGES" and v: "pte_valid (mapping s r n)"
    and q: "table (pmem s) r (va_path (page_va n)) = Some q"
  shows "\<exists>pa t. fault_page (pte_slot q (PX 0 (page_va n))) (mapping s r n) s = Ok (pa, t) \<and> uvm_inv t R
    \<and> (pa = 0 \<and> t = s \<and> free_set s = {} \<or> pa \<noteq> 0 \<and> writes_ok s t R r n pa)"
proof -
  let ?e = "mapping s r n" and ?pa = "PTE2PA (mapping s r n)"
  have m: "(r, n) \<in> mappers s R ?pa" using r n v by (simp add: mem_mappers)
  note P = uvm_inv_refs [OF inv m] and nz = uvm_inv_not_null [OF inv m] and ki = uvm_invD(3) [OF inv]
  have get: "ref_get ?pa s = Ok (refcount s (pageidx ?pa), s)"
    using ki page_okD [OF P(1)] by (intro ref_get_eq) (simp_all add: kalloc_inv_def)
  consider (rw) "pte_writable ?e" | (one) "\<not> pte_writable ?e" "refcount s (pageidx ?pa) \<le> 1"
    | (shared) "\<not> pte_writable ?e" "1 < refcount s (pageidx ?pa)" by linarith
  then show ?thesis
  proof cases
    case rw
    have "one_change s s R r n ?e" by (simp add: one_change_def)
    then have "writes_ok s s R r n ?pa" using writes_okI [OF inv inv r n _ v rw refl] by simp
    then show ?thesis using inv nz rw by (simp add: fault_page_def pte_writable_def)
  next
    case one
    note M = make_writable [OF inv r n v one(2) q] and W = or_W_facts [OF uvm_invD(4) [OF inv r n v]]
    let ?t = "pte_stored (pte_slot q (PX 0 (page_va n))) (?e OR PTE_W) s"
    have "same_page (pmem ?t) (pmem s) ?pa" by (rule keptD(7) [OF M(3) P(5,3,4)])
    then have "writes_ok s ?t R r n ?pa"
      using W v by (intro writes_okI [OF inv M(1) r n M(2)] keptD(7) [OF M(3)]) (simp_all add: same_page_def)
    moreover have "fault_page (pte_slot q (PX 0 (page_va n))) ?e s = Ok (?pa, ?t)"
      using one get by (simp add: fault_page_def pte_writable_def)
    ultimately show ?thesis using M(1) nz by blast
  next
    case shared
    show ?thesis
    proof (cases rule: kalloc_took [OF ki])
      case 1
      then show ?thesis using shared get inv by (simp add: fault_page_def pte_writable_def)
    next
      case (2 mem u)
      note B = break_sharing [OF inv r n v shared(2) q 2(3)] and K = tookD [OF 2(3)]
      note F = cow_flags_facts [OF K(2) v]
      let ?t = "pte_stored (pte_slot q (PX 0 (page_va n))) (PA2PTE mem OR cow_flags ?e)
        (dropped ?pa (u\<lparr>pmem := memmove (pmem u) mem ?pa 4096\<rparr>))"
      have "writes_ok s ?t R r n mem"
        by (rule writes_okI [OF inv B(3) r n B(4) F(1-3) B(5) B(6)]) (use K(1) in auto)
      moreover have "fault_page (pte_slot q (PX 0 (page_va n))) ?e s = Ok (mem, ?t)"
        using shared get 2(1,2) B(1,2) by (simp add: fault_page_def pte_writable_def cow_flags_def)
      ultimately show ?thesis using B(3) 2(2) by blast
    qed
  qed
qed

lemma vmfault_write:
  assumes inv: "uvm_inv s R" and r: "r \<in> R" and va: "va < MAXVA" and n: "vpn va < USERPAGES"
  shows "\<exists>pa t. vmfault r va True s = Ok (pa, t) \<and> uvm_inv t R
    \<and> (pa = 0 \<and> kept s t R \<and> same_maps s t R \<and> (\<not> pte_valid (mapping s r (vpn va)) \<or> free_set t = {})
       \<or> pa \<noteq> 0 \<and> writes_ok s t R r (vpn va) pa)"
proof (cases rule: walk_alloc [OF uvm_invD(2) [OF inv] r page_va_facts(1) [OF vpn_less [OF va]]])
  case (1 t)
  then show ?thesis
    using uvm_inv_kept [OF inv 1(2,3)] by (simp add: vmfault_def PGROUNDDOWN_page_va [OF va])
next
  case (2 q t)
  let ?slot = "pte_slot q (PX 0 (page_va (vpn va)))" and ?n = "vpn va"
  have it: "uvm_inv t R" by (rule uvm_inv_kept [OF inv 2(2,3)])
  have nz: "?slot \<noteq> 0" by (rule pte_slot_nonzero [OF keptD(1) [OF 2(2)] r path_ok_va_path 2(4) PX_less])
  have e: "mapping t r ?n = mapping s r ?n" by (rule same_maps_mapping [OF 2(3) r])
  have ld: "load_pte ?slot t = Ok (mapping t r ?n, t)" using load_leaf [OF 2(4)] by (simp add: mapping_def)
  show ?thesis
  proof (cases "pte_valid (mapping s r ?n)")
    case False
    then show ?thesis
      using 2 nz ld it e by (simp add: vmfault_def PGROUNDDOWN_page_va [OF va] pte_valid_def)
  next
    case True
    then have v: "pte_valid (mapping t r ?n)" using e by simp
    have "vmfault r va True s = fault_page ?slot (mapping t r ?n) t"
      using 2(1) nz ld v by (simp add: vmfault_def PGROUNDDOWN_page_va [OF va] pte_valid_def fault_page_def)
    then show ?thesis
      using fault_page_ok [OF it r n v 2(4)] writes_ok_kept [OF inv 2(2,3) r n True] 2(2,3) by auto
  qed
qed

end
