(* ===== verification/Vm_Alloc.thy ===== *)
theory Vm_Alloc
  imports Vm_Cow
begin

text \<open>
  Growing user memory: \<open>uvmcreate\<close> adds an empty address space, \<open>uvmalloc\<close> adds zeroed pages to one,
  or adds nothing at all when memory runs out. Both keep the invariant on user memory.
\<close>

unbundle bit_operations_syntax

section \<open>uvmcreate\<close>

definition zeroed :: "addr \<Rightarrow> phys \<Rightarrow> phys" where
  "zeroed pg s = s\<lparr>pmem := memset (pmem s) pg 0 4096\<rparr>"

lemma zero_page_eq [simp]: "zero_page pg s = Ok ((), zeroed pg s)"
  by (simp add: zero_page_def zeroed_def)

lemma took_zeroed:
  assumes "pt_wf s R" and "took s mem u"
  shows "pt_wf (zeroed mem u) R" "tables (pmem (zeroed mem u)) R = tables (pmem s) R" "same_maps s (zeroed mem u) R"
    "page_ok (zeroed mem u) = page_ok s"
    "\<And>p. page_aligned p \<Longrightarrow> p \<noteq> mem \<Longrightarrow> same_page (pmem (zeroed mem u)) (pmem s) p"
    "\<And>p. page_ok s p \<Longrightarrow> refcount (zeroed mem u) (pageidx p) = (if p = mem then 1 else refcount s (pageidx p))"
    "\<And>r path. r \<in> R \<Longrightarrow> path_ok path \<Longrightarrow> table (pmem (zeroed mem u)) r path = table (pmem s) r path"
    "free_set (zeroed mem u) = free_set s - {mem}"
    "bytes_at (pmem (zeroed mem u)) mem 4096 = replicate 4096 0"
proof -
  have "same_page (memset (pmem u) mem 0 4096) (pmem u) p" if "page_aligned p" "p \<noteq> mem" for p
    by (rule same_page_memset [OF tookD(3) [OF assms(2)] that])
  note X = took_fill [OF assms this, folded zeroed_def]
  show "pt_wf (zeroed mem u) R" "tables (pmem (zeroed mem u)) R = tables (pmem s) R" "same_maps s (zeroed mem u) R"
    "page_ok (zeroed mem u) = page_ok s" "free_set (zeroed mem u) = free_set s - {mem}"
    "\<And>p. page_aligned p \<Longrightarrow> p \<noteq> mem \<Longrightarrow> same_page (pmem (zeroed mem u)) (pmem s) p"
    "\<And>p. page_ok s p \<Longrightarrow> refcount (zeroed mem u) (pageidx p) = (if p = mem then 1 else refcount s (pageidx p))"
    "\<And>r path. r \<in> R \<Longrightarrow> path_ok path \<Longrightarrow> table (pmem (zeroed mem u)) r path = table (pmem s) r path"
    using X by blast+
  show "bytes_at (pmem (zeroed mem u)) mem 4096 = replicate 4096 0" by (simp add: zeroed_def bytes_at_memset)
qed

lemma zeroed_root:
  assumes "path_ok path"
  shows "table (pmem (zeroed mem u)) mem path = (if path = [] then Some mem else None)"
proof (cases path)
  case (Cons i xs)
  then have "unat i < 512" using assms by (simp add: path_ok_def)
  then have "child (pmem (zeroed mem u)) mem i = None" using load_zeroed_slot by (simp add: child_def zeroed_def)
  then show ?thesis using Cons by simp
qed simp

text \<open>A fresh page that no space maps.\<close>

lemma uvm_inv_took:
  assumes inv: "uvm_inv s R" and tk: "took s mem u"
  shows "uvm_inv (zeroed mem u) R"
proof -
  note Z = took_zeroed [OF uvm_invD(2) [OF inv] tk] and K = tookD [OF tk]
  have ms: "mapping (zeroed mem u) r n = mapping s r n" if "r \<in> R" for r n using same_maps_mapping [OF Z(3) that] .
  have mp: "mappers (zeroed mem u) R p = mappers s R p" for p using ms by (auto simp: mappers_def)
  have none: "mappers s R mem = {}" using uvm_inv_refs(3) [OF inv] K(1) by auto
  have "int (card (mappers s R p)) \<le> refcount (zeroed mem u) (pageidx p)" if "page_ok s p" for p
    using Z(6) [OF that] uvm_invD(5) [OF inv that] none by auto
  then show ?thesis
    unfolding uvm_inv_def using inv Z(1,2,4) by (simp add: mp ms uvm_inv_def pte_ok_def)
qed

lemma new_root:
  assumes inv: "uvm_inv s R" and tk: "took s mem u"
  shows "uvm_inv (zeroed mem u) (insert mem R)" and "mapping (zeroed mem u) mem n = 0" and "mem \<notin> R"
    and "r \<in> R \<Longrightarrow> mapping (zeroed mem u) r n = mapping s r n"
proof -
  let ?t = "zeroed mem u"
  note Z = took_zeroed [OF uvm_invD(2) [OF inv] tk] and K = tookD [OF tk] and it = uvm_inv_took [OF inv tk]
  have memt: "mem \<notin> tables (pmem s) R" using K(1) uvm_invD(2) [OF inv] by (auto simp: pt_wf_def free_set_def)
  have "r \<in> tables (pmem s) R" if "r \<in> R" for r using tablesI [OF that, of "[]"] by (simp add: path_ok_def)
  then show new: "mem \<notin> R" using memt by blast
  show m0: "mapping ?t mem n = 0" for n
    using zeroed_root [OF path_ok_va_path] by (simp add: mapping_def pte_at_def va_path_def)
  show "mapping ?t r n = mapping s r n" if "r \<in> R" using same_maps_mapping [OF Z(3) that] .
  have tb: "tables (pmem ?t) (insert mem R) = insert mem (tables (pmem ?t) R)"
  proof
    show "tables (pmem ?t) (insert mem R) \<subseteq> insert mem (tables (pmem ?t) R)"
      using zeroed_root [of _ mem u] by (auto simp: tables_def split: if_splits)
    have "mem \<in> tables (pmem ?t) (insert mem R)"
      using tablesI [of mem "insert mem R" "[]"] by (simp add: path_ok_def)
    then show "insert mem (tables (pmem ?t) R) \<subseteq> tables (pmem ?t) (insert mem R)" by (auto simp: tables_def)
  qed
  have wf: "pt_wf ?t (insert mem R)"
  proof (rule pt_wfI [OF uvm_invD(3) [OF it]])
    show "page_ok ?t p \<and> refcount ?t (pageidx p) = 1"
      if "r \<in> insert mem R" "path_ok path" "table (pmem ?t) r path = Some p" for r path p
      using that zeroed_root [OF that(2), of mem u] pt_wf_table(1,2) [OF Z(1) _ that(2)] Z(4,6) K(2)
      by (auto split: if_splits)
    show "r = r' \<and> xs = ys"
      if "r \<in> insert mem R" "r' \<in> insert mem R" "path_ok xs" "path_ok ys"
        "table (pmem ?t) r xs = Some p" "table (pmem ?t) r' ys = Some p" for r r' xs ys p
      using that zeroed_root [OF that(3), of mem u] zeroed_root [OF that(4), of mem u] pt_wf_inj [OF Z(1) _ _ that(3,4)]
        tablesI [OF _ that(3)] tablesI [OF _ that(4)] memt Z(2) by (auto split: if_splits)
  qed
  have mp: "mappers ?t (insert mem R) p = mappers ?t R p" for p using m0 new by (auto simp: mappers_def)
  have "pte_ok ?t (insert mem R) (mapping ?t r i)" if "r \<in> R" "i < USERPAGES" "pte_valid (mapping ?t r i)" for r i
  proof -
    have m: "(r, i) \<in> mappers ?t R (PTE2PA (mapping ?t r i))" using that by (simp add: mem_mappers)
    have "PTE2PA (mapping ?t r i) \<noteq> mem"
      using uvm_inv_refs(3) [OF inv, of r i mem] m same_maps_mapping [OF Z(3) that(1), of i] K(1) by (auto simp: mem_mappers)
    then show ?thesis using uvm_invD(4) [OF it that] by (simp add: pte_ok_def tb)
  qed
  then show "uvm_inv ?t (insert mem R)"
    unfolding uvm_inv_def using wf it m0 by (auto simp: mp uvm_inv_def)
qed

lemma uvmcreate_cases:
  assumes "uvm_inv s R"
  obtains (none) "free_set s = {}" "uvmcreate s = Ok (0, s)"
    | (root) r t where "uvmcreate s = Ok (r, t)" "r \<noteq> 0" "r \<in> free_set s" "r \<notin> R" "uvm_inv t (insert r R)"
      "\<And>n. mapping t r n = 0" "\<And>r' n. r' \<in> R \<Longrightarrow> mapping t r' n = mapping s r' n"
      "free_set t = free_set s - {r}"
proof (cases rule: kalloc_took [OF uvm_invD(3) [OF assms]])
  case 1
  then show ?thesis using none by (simp add: uvmcreate_def)
next
  case (2 mem u)
  have "uvmcreate s = Ok (mem, zeroed mem u)" using 2(1,2) by (simp add: uvmcreate_def)
  then show ?thesis
    using root 2(2) new_root [OF assms 2(3)] tookD(1) [OF 2(3)] took_zeroed(8) [OF uvm_invD(2) [OF assms] 2(3)] by blast
qed

section \<open>uvmalloc, one page\<close>

definition leaf_pte :: "addr \<Rightarrow> uint64 \<Rightarrow> uint64" where
  "leaf_pte p perm = PA2PTE p OR perm OR PTE_V"

lemma leaf_pte_facts:
  assumes "page_ok s p" and "perm < 1024"
  shows "pte_valid (leaf_pte p perm)" "PTE2PA (leaf_pte p perm) = p" "leaf_pte p perm < 0x40000000000000"
proof -
  have "perm OR PTE_V < 2 ^ 10"
  proof (rule word_less_expI)
    fix i assume "bit (perm OR PTE_V) i"
    then show "i < 10" using bit_lt_exp [of perm 10 i] assms(2) by (auto simp: bit_or_iff bit_1_iff)
  qed simp
  then have f: "perm OR PTE_V < 1024" by simp
  show "PTE2PA (leaf_pte p perm) = p" "leaf_pte p perm < 0x40000000000000"
    using page_ok_pte [OF assms(1) f] pte_small [OF assms(1) f] by (simp_all add: leaf_pte_def)
  show "pte_valid (leaf_pte p perm)" by (simp add: pte_valid_def leaf_pte_def PTE_bit_iff bit_or_iff)
qed

definition grows :: "phys \<Rightarrow> phys \<Rightarrow> addr set \<Rightarrow> addr \<Rightarrow> nat \<Rightarrow> nat \<Rightarrow> uint64 \<Rightarrow> bool" where
  "grows s t R r n k perm \<longleftrightarrow> uvm_inv t R \<and> page_ok t = page_ok s \<and> free_set t \<subseteq> free_set s
     \<and> tables (pmem t) R \<subseteq> tables (pmem s) R \<union> free_set s
     \<and> (\<forall>r'\<in>R. \<forall>i<67108864. \<not> (r' = r \<and> n \<le> i \<and> i < n + k) \<longrightarrow> mapping t r' i = mapping s r' i)
     \<and> (\<forall>i. n \<le> i \<longrightarrow> i < n + k \<longrightarrow> (\<exists>p\<in>free_set s. mapping t r i = leaf_pte p perm
          \<and> bytes_at (pmem t) p 4096 = replicate 4096 0))
     \<and> (\<forall>p. page_ok s p \<longrightarrow> p \<notin> free_set s \<longrightarrow> refcount t (pageidx p) = refcount s (pageidx p))
     \<and> (\<forall>p. page_aligned p \<longrightarrow> p \<notin> free_set s \<longrightarrow> p \<notin> tables (pmem s) R \<longrightarrow> same_page (pmem t) (pmem s) p)
     \<and> card (free_set s) \<le> card (free_set t) + 3 * k"

lemma growsD:
  assumes "grows s t R r n k perm"
  shows "uvm_inv t R" "page_ok t = page_ok s" "free_set t \<subseteq> free_set s"
    "tables (pmem t) R \<subseteq> tables (pmem s) R \<union> free_set s"
    "\<And>r' i. r' \<in> R \<Longrightarrow> i < 67108864 \<Longrightarrow> \<not> (r' = r \<and> n \<le> i \<and> i < n + k) \<Longrightarrow> mapping t r' i = mapping s r' i"
    "\<And>i. n \<le> i \<Longrightarrow> i < n + k \<Longrightarrow> \<exists>p\<in>free_set s. mapping t r i = leaf_pte p perm
       \<and> bytes_at (pmem t) p 4096 = replicate 4096 0"
    "\<And>p. page_ok s p \<Longrightarrow> p \<notin> free_set s \<Longrightarrow> refcount t (pageidx p) = refcount s (pageidx p)"
    "\<And>p. page_aligned p \<Longrightarrow> p \<notin> free_set s \<Longrightarrow> p \<notin> tables (pmem s) R \<Longrightarrow> same_page (pmem t) (pmem s) p"
    "card (free_set s) \<le> card (free_set t) + 3 * k"
  using assms unfolding grows_def by blast+

lemma grows_refl: "uvm_inv s R \<Longrightarrow> grows s s R r n 0 perm"
  by (auto simp: grows_def)

lemma card_took:
  assumes "took s pg u"
  shows "card (free_set s) = Suc (card (free_set u))"
  using tookD(1,5) [OF assms] by (simp add: card_Suc_Diff1 del: card_Diff_insert)

lemma grow_one:
  assumes inv: "uvm_inv s R" and r: "r \<in> R" and n: "n < USERPAGES" and tk: "took s mem u" and perm: "perm < 1024"
    and k: "kept (zeroed mem u) t R" and ch: "one_change (zeroed mem u) t R r n (leaf_pte mem perm)"
    and c: "card (free_set (zeroed mem u)) \<le> card (free_set t) + 2"
  shows "grows s t R r n 1 perm"
proof -
  let ?z = "zeroed mem u" and ?e = "leaf_pte mem perm"
  note Z = took_zeroed [OF uvm_invD(2) [OF inv] tk] and K = tookD [OF tk] and iz = uvm_inv_took [OF inv tk]
  note F = leaf_pte_facts [OF K(2) perm]
  have memt: "mem \<notin> tables (pmem s) R" using K(1) uvm_invD(2) [OF inv] by (auto simp: pt_wf_def free_set_def)
  have memz: "mem \<notin> free_set ?z" "page_ok ?z mem" "mem \<notin> tables (pmem ?z) R" using Z(2,4,8) K(2) memt by auto
  have none: "mappers ?z R mem = {}"
    using uvm_inv_refs(3) [OF inv] K(1) same_maps_mapping [OF Z(3)] by (auto simp: mappers_def mem_mappers)
  have memtab: "mem \<notin> tables (pmem t) R" using k memz(1,3) unfolding kept_def by blast
  have okt: "page_ok t = page_ok s" using keptD(2) [OF k] Z(4) by simp
  have "uvm_inv t R"
  proof (rule uvm_inv_change [OF iz keptD(1) [OF k] ch r n keptD(2) [OF k]])
    show "tables (pmem t) R \<subseteq> tables (pmem ?z) R \<union> free_set ?z" using k by (simp add: kept_def)
    show "pte_ok t R ?e" using F K(2) okt memtab by (simp add: pte_ok_def)
    show "int (card (mappers ?z R p - {(r, n)})) + (if pte_valid ?e \<and> PTE2PA ?e = p then 1 else 0) \<le> refcount t (pageidx p)"
      if p: "page_ok ?z p" for p
    proof (cases "p \<in> free_set ?z")
      case True
      then have "mappers ?z R p = {}" "p \<noteq> mem" using uvm_inv_refs(3) [OF iz] memz(1) by auto
      then show ?thesis
        using F(2) pt_wf_kalloc [OF keptD(1) [OF k]] page_okD(2) [OF p] by (auto simp: kalloc_inv_def)
    next
      case False
      have "card (mappers ?z R p - {(r, n)}) \<le> card (mappers ?z R p)"
        by (rule card_mono) (use finite_mappers [OF uvm_invD(1) [OF inv]] in auto)
      then show ?thesis
        using keptD(6) [OF k p False] uvm_invD(5) [OF iz p] F(2) none Z(6) [of mem] K(2) by (cases "p = mem") auto
    qed
  qed (use F none in auto)
  moreover have "bytes_at (pmem t) mem 4096 = replicate 4096 0"
    using keptD(7) [OF k K(3) memz(1,3)] Z(9) by (simp add: same_page_def)
  moreover have "mapping t r' i = mapping s r' i" if "r' \<in> R" "i < 67108864" "\<not> (r' = r \<and> i = n)" for r' i
    using one_changeD [OF ch that(1,2)] that(3) same_maps_mapping [OF Z(3) that(1)] by auto
  moreover have "mapping t r n = ?e" using one_changeD [OF ch r, of n] n by simp
  moreover have "refcount t (pageidx p) = refcount s (pageidx p)" if "page_ok s p" "p \<notin> free_set s" for p
    using keptD(6) [OF k, of p] Z(4,6,8) that K(1) by auto
  moreover have "same_page (pmem t) (pmem s) p" if "page_aligned p" "p \<notin> free_set s" "p \<notin> tables (pmem s) R" for p
    using that K(1) Z(2,8) by (intro same_page_trans [OF keptD(7) [OF k that(1)] Z(5) [OF that(1)]]) auto
  moreover have "free_set t \<subseteq> free_set s" "tables (pmem t) R \<subseteq> tables (pmem s) R \<union> free_set s"
    using k Z(2,8) unfolding kept_def by blast+
  moreover have "card (free_set s) \<le> card (free_set t) + 3"
    using c card_took [OF tk] Z(8) K(5) by simp
  ultimately show ?thesis unfolding grows_def using okt K(1) by (auto simp: le_less_Suc_eq)
qed

lemma grows_step:
  assumes "grows s t R r n 1 perm" and "grows t u R r (Suc n) k perm" and "r \<in> R" and "n + k < USERPAGES" and "perm < 1024"
  shows "grows s u R r n (Suc k) perm"
  unfolding grows_def
proof (intro conjI ballI allI impI)
  note A = growsD [OF assms(1)] and B = growsD [OF assms(2)]
  show "uvm_inv u R" "page_ok u = page_ok s" using A(2) B(1,2) by simp_all
  show "free_set u \<subseteq> free_set s" using A(3) B(3) by blast
  show "card (free_set s) \<le> card (free_set u) + 3 * Suc k" using A(9) B(9) by simp
  show "tables (pmem u) R \<subseteq> tables (pmem s) R \<union> free_set s" using A(3,4) B(4) by blast
  show "mapping u r' i = mapping s r' i"
    if "r' \<in> R" "i < 67108864" "\<not> (r' = r \<and> n \<le> i \<and> i < n + Suc k)" for r' i
    using A(5) [OF that(1,2)] B(5) [OF that(1,2)] that(3) by auto
  show "\<exists>p\<in>free_set s. mapping u r i = leaf_pte p perm \<and> bytes_at (pmem u) p 4096 = replicate 4096 0"
    if "n \<le> i" "i < n + Suc k" for i
  proof (cases "i = n")
    case True
    obtain p where p: "p \<in> free_set s" "mapping t r n = leaf_pte p perm" "bytes_at (pmem t) p 4096 = replicate 4096 0"
      using A(6) [of n] by auto
    have ok: "page_ok s p" using p(1) by (simp add: free_set_def)
    have m: "(r, n) \<in> mappers t R p"
      using leaf_pte_facts [OF ok assms(5)] assms(3,4) p(2) by (simp add: mem_mappers)
    have "same_page (pmem u) (pmem t) p"
      using uvm_inv_refs(3-5) [OF A(1) m] by (intro B(8))
    moreover have "mapping u r n = mapping t r n" using B(5) [OF assms(3), of n] assms(4) by simp
    ultimately show ?thesis using p True by (auto simp: same_page_def)
  next
    case False
    then show ?thesis using B(6) [of i] that A(3) by auto
  qed
  fix p assume nf: "p \<notin> free_set s"
  then have nt: "p \<notin> free_set t" using A(3) by blast
  show "refcount u (pageidx p) = refcount s (pageidx p)" if "page_ok s p"
    using A(2) A(7) [OF that nf] B(7) [OF _ nt] that by simp
  show "same_page (pmem u) (pmem s) p" if "page_aligned p" "p \<notin> tables (pmem s) R"
    using A(4) nf that by (intro same_page_trans [OF B(8) [OF that(1) nt] A(8) [OF that(1) nf]]) blast+
qed

text \<open>Giving back a page that nobody maps.\<close>

definition settled :: "phys \<Rightarrow> phys \<Rightarrow> addr set \<Rightarrow> bool" where
  "settled s t R \<longleftrightarrow> uvm_inv t R \<and> same_maps s t R \<and> page_ok t = page_ok s
     \<and> (\<forall>p. page_aligned p \<longrightarrow> p \<notin> free_set s \<longrightarrow> p \<notin> tables (pmem s) R \<longrightarrow>
          p \<notin> tables (pmem t) R \<and> same_page (pmem t) (pmem s) p)"

lemma drop_unmapped:
  assumes inv: "uvm_inv s R" and p: "page_ok s p" "p \<notin> tables (pmem s) R"
    and refs: "int (card (mappers s R p)) < refcount s (pageidx p)"
  shows "uvm_inv (dropped p s) R" and "same_maps s (dropped p s) R"
    and "tables (pmem (dropped p s)) R = tables (pmem s) R"
proof -
  have pos: "0 < refcount s (pageidx p)" using refs by simp
  note D = dropped_props [OF uvm_invD(3) [OF inv] p(1) pos]
  have tp: "page_ok s x" "x \<noteq> p" if "x \<in> tables (pmem s) R" for x
    using that uvm_invD(2) [OF inv] p(2) by (auto simp: pt_wf_def)
  have mem: "same_page (pmem (dropped p s)) (pmem s) x" "refcount (dropped p s) (pageidx x) = refcount s (pageidx x)"
    if "x \<in> tables (pmem s) R" for x
    using D(6) [OF page_okD(1) [OF tp(1) [OF that]]] D(4) pageidx_eq_iff [OF tp(1) [OF that] p(1)] tp(2) [OF that] by auto
  note X = pt_wf_transfer [OF uvm_invD(2) [OF inv] D(1,2) mem]
  show sm: "same_maps s (dropped p s) R" by (rule X(3))
  show tb: "tables (pmem (dropped p s)) R = tables (pmem s) R" by (rule X(2))
  have ms: "mapping (dropped p s) r n = mapping s r n" if "r \<in> R" for r n by (rule same_maps_mapping [OF sm that])
  have mp: "mappers (dropped p s) R x = mappers s R x" for x using ms by (auto simp: mappers_def)
  have "int (card (mappers s R x)) \<le> refcount (dropped p s) (pageidx x)" if "page_ok s x" for x
    using uvm_invD(5) [OF inv that] refs D(4) pageidx_eq_iff [OF that p(1)] by auto
  then show "uvm_inv (dropped p s) R"
    unfolding uvm_inv_def using inv X(1) D(2) tb by (simp add: mp ms uvm_inv_def pte_ok_def)
qed

lemma settled_fail:
  assumes inv: "uvm_inv s R" and tk: "took s mem u" and k: "kept (zeroed mem u) t R" and m: "same_maps (zeroed mem u) t R"
  shows "kfree mem t = Ok ((), dropped mem t)" and "settled s (dropped mem t) R"
proof -
  note Z = took_zeroed [OF uvm_invD(2) [OF inv] tk] and K = tookD [OF tk]
  have it: "uvm_inv t R" by (rule uvm_inv_kept [OF uvm_inv_took [OF inv tk] k m])
  have sm: "same_maps s t R" by (rule same_maps_trans [OF Z(3) m])
  have memt: "mem \<notin> tables (pmem s) R" using K(1) uvm_invD(2) [OF inv] by (auto simp: pt_wf_def free_set_def)
  have memz: "mem \<notin> free_set (zeroed mem u)" "page_ok (zeroed mem u) mem" "mem \<notin> tables (pmem (zeroed mem u)) R"
    using Z(2,4,8) K(2) memt by auto
  have rc: "refcount t (pageidx mem) = 1" using keptD(6) [OF k memz(2,1)] Z(6) [OF K(2)] by simp
  have ok: "page_ok t mem" "page_ok t = page_ok s" using keptD(2) [OF k] Z(4) K(2) by simp_all
  have memtab: "mem \<notin> tables (pmem t) R" using k memz(1,3) unfolding kept_def by blast
  have "mappers t R mem = {}"
    using uvm_inv_refs(3) [OF inv] K(1) same_maps_mapping [OF sm] by (auto simp: mappers_def mem_mappers)
  then have lt: "int (card (mappers t R mem)) < refcount t (pageidx mem)" using rc by simp
  note D = drop_unmapped [OF it ok(1) memtab lt] and P = dropped_props [OF uvm_invD(3) [OF it] ok(1)]
  show "kfree mem t = Ok ((), dropped mem t)"
    by (rule kfree_dropped [OF uvm_invD(3) [OF it] ok(1)]) (simp add: rc)
  have "p \<notin> tables (pmem (dropped mem t)) R \<and> same_page (pmem (dropped mem t)) (pmem s) p"
    if "page_aligned p" "p \<notin> free_set s" "p \<notin> tables (pmem s) R" for p
  proof -
    have ne: "p \<noteq> mem" using that(2) K(1) by auto
    have z: "p \<notin> free_set (zeroed mem u)" "p \<notin> tables (pmem (zeroed mem u)) R" using that Z(2,8) by auto
    have "p \<notin> tables (pmem t) R" using k z unfolding kept_def by blast
    moreover have "same_page (pmem (dropped mem t)) (pmem t) p" using P(6) [OF _ that(1)] ne rc by simp
    ultimately show ?thesis
      using D(3) keptD(7) [OF k that(1) z] Z(5) [OF that(1) ne] same_page_trans by blast
  qed
  then show "settled s (dropped mem t) R"
    unfolding settled_def using D(1) same_maps_trans [OF sm D(2)] P(2) ok(2) rc by simp
qed

section \<open>uvmdealloc and the loop of uvmalloc\<close>

lemma PGROUNDUP_page_va: "n < 67108864 \<Longrightarrow> PGROUNDUP (page_va n) = page_va n"
  by (rule word_eq_unatI) (simp add: unat_PGROUNDUP unat_page_va)

lemma page_va_less: "n < 67108864 \<Longrightarrow> m < 67108864 \<Longrightarrow> page_va n < page_va m \<longleftrightarrow> n < m"
  by (simp add: word_less_nat_alt unat_page_va)

lemma page_va_diff:
  assumes "m + k < 67108864"
  shows "(page_va (m + k) - page_va m) div PGSIZE = of_nat k"
proof -
  have "page_va (m + k) - page_va m = page_va k" by (simp add: page_va_def algebra_simps)
  moreover have "unat (of_nat k :: 64 word) = k" using assms by (simp add: unat_of_nat)
  ultimately show ?thesis using unat_page_va [of k] assms by (intro word_eq_unatI) (simp add: unat_div)
qed

text \<open>The cast of the page count to \<open>int\<close> and back loses nothing for sizes below \<open>MAXVA\<close>.\<close>

lemma int_cast_npages:
  assumes "k < 67108864"
  shows "(scast (ucast (of_nat k :: 64 word) :: 32 word) :: 64 word) = of_nat k"
proof -
  have u64: "unat (of_nat k :: 64 word) = k" and u32: "unat (of_nat k :: 32 word) = k"
    using assms by (simp_all add: unat_of_nat)
  have c: "(ucast (of_nat k :: 64 word) :: 32 word) = of_nat k"
  proof -
    have "unat (ucast (of_nat k :: 64 word) :: 32 word) = take_bit 32 (unat (of_nat k :: 64 word))"
      by (simp only: unsigned_ucast_eq) simp
    also have "\<dots> = k" using assms unfolding u64 by (simp add: take_bit_nat_eq_self_iff)
    finally show ?thesis using u32 by (simp only: word_unat_eq_iff)
  qed
  have "uint (of_nat k :: 32 word) = int k" using u32 by (metis of_nat_unat)
  then have "sint (of_nat k :: 32 word) = int k"
    using assms by (simp add: sint_uint signed_take_bit_int_eq_self)
  then show ?thesis unfolding c by (metis of_int_of_nat_eq of_int_sint)
qed
lemma uvmdealloc_pages:
  assumes "uvm_inv s R" and "r \<in> R" and "m + k \<le> USERPAGES"
  shows "\<exists>t x. uvmdealloc r (page_va (m + k)) (page_va m) s = Ok (x, t) \<and> unmaps s t R r m k"
proof (cases "k = 0")
  case True
  then show ?thesis using unmaps_refl [OF assms(1)] by (simp add: uvmdealloc_def)
next
  case False
  then have lt: "page_va m < page_va (m + k)" using page_va_less [of m "m + k"] assms(3) by simp
  obtain t where "uvmunmap r (page_va m) (of_nat k) True s = Ok ((), t)" "unmaps s t R r m k"
    using uvmunmap_range [OF assms] by auto
  then show ?thesis
    using lt PGROUNDUP_page_va [of "m + k"] PGROUNDUP_page_va [of m] page_va_diff [of m k] int_cast_npages [of k] assms(3)
    by (simp add: uvmdealloc_def not_le [symmetric])
qed

text \<open>
  \<open>grow_fails s v R r m n j\<close>: the pages from \<open>n\<close> to \<open>n + j\<close> were added, then memory ran out, and the
  pages from \<open>m\<close> on were removed again.
\<close>

definition grow_fails :: "phys \<Rightarrow> phys \<Rightarrow> addr set \<Rightarrow> addr \<Rightarrow> nat \<Rightarrow> nat \<Rightarrow> nat \<Rightarrow> uint64 \<Rightarrow> bool" where
  "grow_fails s v R r m n j perm \<longleftrightarrow> card (free_set s) < 3 * Suc j
     \<and> (\<exists>t w. grows s t R r n j perm \<and> settled t w R \<and> unmaps w v R r m (n + j - m))"

lemma settled_refl: "uvm_inv s R \<Longrightarrow> settled s s R"
  by (simp add: settled_def same_maps_def)

lemma grow_fails_0:
  assumes "uvm_inv s R" and "settled s w R" and "card (free_set s) < 3" and "unmaps w v R r m (n - m)"
  shows "grow_fails s v R r m n 0 perm"
  unfolding grow_fails_def by (intro exI [of _ s] exI [of _ w] conjI) (use assms grows_refl in simp_all)

lemma grow_fails_step:
  assumes "grows s t R r n 1 perm" and "grow_fails t v R r m (Suc n) j perm" and "r \<in> R" and "n + j < USERPAGES" and "perm < 1024"
  shows "grow_fails s v R r m n (Suc j) perm"
proof -
  obtain a w where a: "grows t a R r (Suc n) j perm" "settled a w R" "unmaps w v R r m (Suc n + j - m)"
    using assms(2) unfolding grow_fails_def by blast
  have "grows s a R r n (Suc j) perm" by (rule grows_step [OF assms(1) a(1) assms(3-5)])
  moreover have "card (free_set s) < 3 * Suc (Suc j)"
    using growsD(9) [OF assms(1)] assms(2) unfolding grow_fails_def by simp
  ultimately show ?thesis unfolding grow_fails_def using a by auto
qed

lemma uvmalloc_iteration:
  assumes inv: "uvm_inv s R" and r: "r \<in> R" and n: "n < USERPAGES" and m: "m \<le> n"
    and free: "\<not> pte_valid (mapping s r n)" and lt: "page_va n < newsz" and perm: "PTE_R OR PTE_U OR xperm < 1024"
  shows "(\<exists>t. grows s t R r n 1 (PTE_R OR PTE_U OR xperm)
      \<and> uvmalloc_loop (Suc fuel) r (page_va m) (page_va n) newsz xperm s
        = uvmalloc_loop fuel r (page_va m) (page_va (Suc n)) newsz xperm t)
    \<or> (\<exists>v. grow_fails s v R r m n 0 (PTE_R OR PTE_U OR xperm)
      \<and> uvmalloc_loop (Suc fuel) r (page_va m) (page_va n) newsz xperm s = Ok (0, v))"
proof -
  have n': "n < 67108864" using n by simp
  have dealloc: "\<exists>v x. uvmdealloc r (page_va n) (page_va m) w = Ok (x, v) \<and> unmaps w v R r m (n - m)"
    if "uvm_inv w R" for w
    using uvmdealloc_pages [OF that r, of m "n - m"] m n by auto
  show ?thesis
  proof (cases rule: kalloc_took [OF uvm_invD(3) [OF inv]])
    case 1
    obtain v x where "uvmdealloc r (page_va n) (page_va m) s = Ok (x, v)" "unmaps s v R r m (n - m)"
      using dealloc [OF inv] by blast
    then show ?thesis
      using 1 lt grow_fails_0 [OF inv settled_refl [OF inv]] by (intro disjI2 exI [of _ v]) simp
  next
    case (2 mem u)
    let ?z = "zeroed mem u" and ?perm = "PTE_R OR PTE_U OR xperm"
    note Z = took_zeroed [OF uvm_invD(2) [OF inv] 2(3)]
    have fz: "\<not> pte_valid (mapping ?z r n)" using free same_maps_mapping [OF Z(3) r] by simp
    show ?thesis
    proof (cases rule: mappages_one [OF Z(1) r n' fz, of mem ?perm])
      case (1 t)
      note S = settled_fail [OF inv 2(3) 1(2,3)]
      obtain v x where "uvmdealloc r (page_va n) (page_va m) (dropped mem t) = Ok (x, v)"
          "unmaps (dropped mem t) v R r m (n - m)"
        using dealloc [of "dropped mem t"] S(2) unfolding settled_def by blast
      then show ?thesis
        using 2(1,2) 1(1,5) lt S(1) grow_fails_0 [OF inv S(2)] card_took [OF 2(3)] Z(8) tookD(5) [OF 2(3)]
        by (intro disjI2 exI [of _ v]) simp
    next
      case ok: (2 t)
      have "grows s t R r n 1 ?perm"
        using ok(3,4) by (intro grow_one [OF inv r n 2(3) perm ok(2)]) (simp_all add: leaf_pte_def)
      then show ?thesis using 2(1,2) ok(1) lt by (auto simp: page_va_Suc)
    qed
  qed
qed

lemma uvmalloc_loop_range:
  assumes "uvm_inv s R" and "r \<in> R" and "npages newsz \<le> USERPAGES" and "m \<le> n" and "n \<le> USERPAGES"
    and "\<forall>i. n \<le> i \<longrightarrow> i < npages newsz \<longrightarrow> \<not> pte_valid (mapping s r i)" and "npages newsz - n \<le> fuel"
    and "PTE_R OR PTE_U OR xperm < 1024"
  shows "(\<exists>t. uvmalloc_loop fuel r (page_va m) (page_va n) newsz xperm s = Ok (newsz, t)
      \<and> grows s t R r n (npages newsz - n) (PTE_R OR PTE_U OR xperm))
    \<or> (\<exists>j v. j < npages newsz - n \<and> grow_fails s v R r m n j (PTE_R OR PTE_U OR xperm)
        \<and> uvmalloc_loop fuel r (page_va m) (page_va n) newsz xperm s = Ok (0, v))"
  using assms
proof (induction fuel arbitrary: s n)
  case 0
  then show ?case using page_va_less_iff [of n newsz] grows_refl [OF "0.prems"(1)] by auto
next
  case (Suc fuel)
  let ?perm = "PTE_R OR PTE_U OR xperm"
  show ?case
  proof (cases "n < npages newsz")
    case False
    then show ?thesis using page_va_less_iff [of n newsz] Suc.prems(5) grows_refl [OF Suc.prems(1)] by auto
  next
    case True
    then have n: "n < USERPAGES" using Suc.prems(3) by simp
    have lt: "page_va n < newsz" using page_va_less_iff [of n newsz] True n by simp
    have free: "\<not> pte_valid (mapping s r n)" using Suc.prems(6) True by simp
    from uvmalloc_iteration [OF Suc.prems(1,2) n Suc.prems(4) free lt Suc.prems(8), of fuel] show ?thesis
    proof (elim disjE exE conjE)
      fix v assume "grow_fails s v R r m n 0 ?perm" "uvmalloc_loop (Suc fuel) r (page_va m) (page_va n) newsz xperm s = Ok (0, v)"
      then show ?thesis using True by (intro disjI2 exI [of _ 0] exI [of _ v] conjI) simp_all
    next
      fix t assume g: "grows s t R r n 1 ?perm"
        and e: "uvmalloc_loop (Suc fuel) r (page_va m) (page_va n) newsz xperm s
          = uvmalloc_loop fuel r (page_va m) (page_va (Suc n)) newsz xperm t"
      have k: "Suc (npages newsz - Suc n) = npages newsz - n" using True by simp
      have "\<not> pte_valid (mapping t r i)" if "Suc n \<le> i" "i < npages newsz" for i
        using growsD(5) [OF g Suc.prems(2), of i] that Suc.prems(3,6) by simp
      then have "(\<exists>u. uvmalloc_loop fuel r (page_va m) (page_va (Suc n)) newsz xperm t = Ok (newsz, u)
          \<and> grows t u R r (Suc n) (npages newsz - Suc n) ?perm)
        \<or> (\<exists>j v. j < npages newsz - Suc n \<and> grow_fails t v R r m (Suc n) j ?perm
            \<and> uvmalloc_loop fuel r (page_va m) (page_va (Suc n)) newsz xperm t = Ok (0, v))"
        using Suc.prems True by (intro Suc.IH [OF growsD(1) [OF g]]) simp_all
      then show ?thesis
      proof (elim disjE exE conjE)
        fix u assume "uvmalloc_loop fuel r (page_va m) (page_va (Suc n)) newsz xperm t = Ok (newsz, u)"
          "grows t u R r (Suc n) (npages newsz - Suc n) ?perm"
        then show ?thesis
          using grows_step [OF g, of u "npages newsz - Suc n"] Suc.prems(2,3,8) True e unfolding k by simp
      next
        fix j v assume "j < npages newsz - Suc n" "grow_fails t v R r m (Suc n) j ?perm"
          "uvmalloc_loop fuel r (page_va m) (page_va (Suc n)) newsz xperm t = Ok (0, v)"
        then show ?thesis
          using grow_fails_step [OF g, of v m j] Suc.prems(2,3,8) True e
          by (intro disjI2 exI [of _ "Suc j"] exI [of _ v]) simp
      qed
    qed
  qed
qed

lemma PGROUNDUP_npages:
  assumes "npages sz \<le> USERPAGES"
  shows "PGROUNDUP sz = page_va (npages sz)"
proof (rule word_eq_unatI)
  define x where "x = (unat sz + 4095) mod 4096"
  have "unat sz + 4095 = 4096 * npages sz + x" "x < 4096" by (simp_all add: npages_def x_def)
  then have "unat sz + 4095 < 18446744073709551616" using assms by simp
  then show "unat (PGROUNDUP sz) = unat (page_va (npages sz))"
    using assms by (simp add: unat_PGROUNDUP unat_page_va) (simp add: npages_def)
qed

lemma npages_mono: "oldsz \<le> newsz \<Longrightarrow> npages oldsz \<le> npages newsz"
  by (simp add: npages_def word_le_nat_alt div_le_mono)

lemma uvmalloc_result:
  assumes "uvm_inv s R" and "r \<in> R" and "oldsz \<le> newsz" and "npages newsz \<le> USERPAGES"
    and "\<forall>i. npages oldsz \<le> i \<longrightarrow> i < npages newsz \<longrightarrow> \<not> pte_valid (mapping s r i)"
    and "PTE_R OR PTE_U OR xperm < 1024"
  obtains (grown) t where "uvmalloc r oldsz newsz xperm s = Ok (newsz, t)"
      "grows s t R r (npages oldsz) (npages newsz - npages oldsz) (PTE_R OR PTE_U OR xperm)"
    | (failed) j t where "uvmalloc r oldsz newsz xperm s = Ok (0, t)" "j < npages newsz - npages oldsz"
      "grow_fails s t R r (npages oldsz) (npages oldsz) j (PTE_R OR PTE_U OR xperm)"
proof -
  have le: "npages oldsz \<le> npages newsz" by (rule npages_mono [OF assms(3)])
  then have up: "PGROUNDUP oldsz = page_va (npages oldsz)" using assms(4) by (intro PGROUNDUP_npages) simp
  have fuel: "npages newsz - npages oldsz \<le> Suc (unat (newsz div PGSIZE))" by (simp add: npages_def unat_div)
  have "uvmalloc r oldsz newsz xperm = uvmalloc_loop (Suc (unat (newsz div PGSIZE))) r
      (page_va (npages oldsz)) (page_va (npages oldsz)) newsz xperm"
    using assms(3) by (simp add: uvmalloc_def up not_less [symmetric] del: uvmalloc_loop.simps)
  then show ?thesis
    using uvmalloc_loop_range [OF assms(1,2,4) order_refl _ assms(5) fuel assms(6)] le assms(4) that by auto
qed

lemma grow_fails_effect:
  assumes f: "grow_fails s v R r n n j perm" and r: "r \<in> R" and k: "n + j \<le> USERPAGES"
    and free: "\<forall>i. n \<le> i \<longrightarrow> i < n + j \<longrightarrow> \<not> pte_valid (mapping s r i)"
  shows "uvm_inv v R" and "card (free_set s) < 3 * Suc j"
    and "r' \<in> R \<Longrightarrow> i < USERPAGES \<Longrightarrow> pte_valid (mapping v r' i) = pte_valid (mapping s r' i)
      \<and> (pte_valid (mapping s r' i) \<longrightarrow> mapping v r' i = mapping s r' i)"
proof -
  obtain t w where g: "grows s t R r n j perm" and w: "settled t w R" and u: "unmaps w v R r n j"
    and c: "card (free_set s) < 3 * Suc j"
    using f by (auto simp: grow_fails_def)
  show "uvm_inv v R" by (rule unmapsD(1) [OF u])
  show "card (free_set s) < 3 * Suc j" by (rule c)
  assume r': "r' \<in> R" "i < USERPAGES"
  have "same_maps t w R" using w by (simp add: settled_def)
  then have m: "mapping w r' i = mapping t r' i" using r'(1) by (rule same_maps_mapping)
  have i: "i < 67108864" using r'(2) by simp
  show "pte_valid (mapping v r' i) = pte_valid (mapping s r' i)
      \<and> (pte_valid (mapping s r' i) \<longrightarrow> mapping v r' i = mapping s r' i)"
  proof (cases "r' = r \<and> n \<le> i \<and> i < n + j")
    case True
    then have "\<not> pte_valid (mapping v r' i)" using unmapsD(6) [OF u r'(1) i] by auto
    then show ?thesis using True free by simp
  next
    case False
    then have "mapping v r' i = mapping w r' i" "mapping t r' i = mapping s r' i"
      using unmapsD(6) [OF u r'(1) i] growsD(5) [OF g r'(1) i False] by auto
    then show ?thesis using m by simp
  qed
qed

end
