(* ===== verification/Vm_Copy.thy ===== *)
theory Vm_Copy
  imports Vm_Alloc
begin

text \<open>
  \<open>copyout\<close>, \<open>copyin\<close> and \<open>copyinstr\<close> against user memory: the byte a space sees at a virtual address
  is \<open>ubyte\<close>. \<open>copyout\<close> changes exactly the addressed bytes of the addressed space and no byte of any
  other space; \<open>copyin\<close> returns the bytes the space sees.
\<close>

unbundle bit_operations_syntax

declare copyout.simps [simp del] copyinstr.simps [simp del]

section \<open>User bytes\<close>

definition page_off :: "uint64 \<Rightarrow> nat" where
  "page_off va = unat va mod 4096"

definition ubyte :: "phys \<Rightarrow> addr \<Rightarrow> uint64 \<Rightarrow> byte" where
  "ubyte s r va = pmem s (PTE2PA (mapping s r (vpn va)) + of_nat (page_off va))"

lemma page_off_less: "page_off va < 4096"
  by (simp add: page_off_def)

lemma offset_eq: "va - PGROUNDDOWN va = of_nat (page_off va)"
proof (rule word_eq_unatI)
  have "unat (va - PGROUNDDOWN va) = unat va - unat va div 4096 * 4096"
    using unat_sub_le [OF PGROUNDDOWN_le [of va]] by (simp add: unat_PGROUNDDOWN)
  also have "\<dots> = page_off va" by (simp add: page_off_def minus_div_mult_eq_mod)
  finally show "unat (va - PGROUNDDOWN va) = unat (of_nat (page_off va) :: 64 word)"
    using page_off_less [of va] by (simp add: unat_of_nat)
qed

lemma chunk_eq: "chunk va len = min (4096 - page_off va) len"
proof -
  have o: "page_off va < 4096" by (rule page_off_less)
  have "unat (PGSIZE - of_nat (page_off va) :: 64 word) = 4096 - page_off va"
  proof -
    have u: "unat (of_nat (page_off va) :: 64 word) = page_off va" using o by (simp add: unat_of_nat)
    then have "(of_nat (page_off va) :: 64 word) \<le> PGSIZE"
      by (simp add: word_le_nat_alt less_imp_le [OF page_off_less])
    then show ?thesis using unat_sub_le u by simp
  qed
  then show ?thesis by (simp add: chunk_def offset_eq)
qed

lemma walk_present:
  assumes "va < MAXVA" and "table (pmem s) r (va_path va) = Some q"
  shows "walk r va alloc s = Ok (pte_slot q (PX 0 va), s)"
proof -
  have "walk_level 2 r va alloc s = Ok (pte_slot q (PX 0 va), s)"
    using assms(2) by (simp add: va_path_def numeral_2_eq_2 load_pte_def child_def split: option.splits if_splits)
  then show ?thesis using assms(1) by (simp add: walk_def not_le [symmetric])
qed

lemma mapping_nonzero_table:
  "mapping s r n \<noteq> 0 \<Longrightarrow> \<exists>q. table (pmem s) r (va_path (page_va n)) = Some q"
  by (auto simp: mapping_def pte_at_def split: option.splits)

text \<open>
  The page \<open>copyout\<close> and \<open>copyin\<close> find for a page number: \<open>walkaddr\<close> for a user page, \<open>vmfault\<close> for
  any other valid entry. The two together accept every valid entry.
\<close>

definition find_page :: "addr \<Rightarrow> uint64 \<Rightarrow> (phys, addr) kmon" where
  "find_page r va0 = kbind (walkaddr r va0) (\<lambda>pa. if pa = 0 then vmfault r va0 False else kret pa)"

lemma find_page_valid:
  assumes wf: "pt_wf s R" and r: "r \<in> R" and n: "n < 67108864" and v: "pte_valid (mapping s r n)"
  shows "find_page r (page_va n) s = Ok (PTE2PA (mapping s r n), s)"
proof -
  have "mapping s r n \<noteq> 0" using v by auto
  then obtain q where q: "table (pmem s) r (va_path (page_va n)) = Some q" using mapping_nonzero_table by blast
  note W = walk_present [OF page_va_facts(1) [OF n] q]
  have nz: "pte_slot q (PX 0 (page_va n)) \<noteq> 0" by (rule pte_slot_nonzero [OF wf r path_ok_va_path q PX_less])
  have ld: "load_pte (pte_slot q (PX 0 (page_va n))) s = Ok (mapping s r n, s)"
    using load_leaf [OF q] by (simp add: mapping_def)
  have "vmfault r (page_va n) False s = Ok (PTE2PA (mapping s r n), s)"
    using W nz ld v n by (simp add: vmfault_def pte_valid_def)
  moreover have "walkaddr r (page_va n) s
      = Ok (if mapping s r n AND PTE_U = 0 then 0 else PTE2PA (mapping s r n), s)"
    using W nz ld v page_va_facts(1) [OF n] by (simp add: walkaddr_def pte_valid_def not_le [symmetric])
  ultimately show ?thesis by (simp add: find_page_def)
qed

lemma find_page_invalid:
  assumes wf: "pt_wf s R" and r: "r \<in> R" and n: "n < 67108864" and v: "\<not> pte_valid (mapping s r n)"
  shows "\<exists>t. find_page r (page_va n) s = Ok (0, t) \<and> kept s t R \<and> same_maps s t R"
proof -
  have "walkaddr r (page_va n) s = Ok (0, s)"
    by (cases rule: walk_mapping [OF wf r n])
      (use v page_va_facts(1) [OF n] in \<open>simp_all add: walkaddr_def pte_valid_def not_le [symmetric]\<close>)
  moreover have "\<exists>t. vmfault r (page_va n) False s = Ok (0, t) \<and> kept s t R \<and> same_maps s t R"
  proof (cases rule: walk_alloc [OF wf r page_va_facts(1) [OF n]])
    case (1 t)
    then show ?thesis using n by (simp add: vmfault_def)
  next
    case (2 q t)
    have nz: "pte_slot q (PX 0 (page_va n)) \<noteq> 0"
      by (rule pte_slot_nonzero [OF keptD(1) [OF 2(2)] r path_ok_va_path 2(4) PX_less])
    have "load_pte (pte_slot q (PX 0 (page_va n))) t = Ok (mapping s r n, t)"
      using load_leaf [OF 2(4)] same_maps_mapping [OF 2(3) r, of n] by (simp add: mapping_def)
    then show ?thesis using 2 nz v n by (simp add: vmfault_def pte_valid_def)
  qed
  ultimately show ?thesis by (simp add: find_page_def)
qed

section \<open>Writing a user page\<close>

lemma store_bytes_apply:
  "length bs \<le> 18446744073709551616 \<Longrightarrow>
    store_bytes m a bs x = (if unat (x - a) < length bs then bs ! unat (x - a) else m x)"
  unfolding store_bytes_def by (rule fold_write_bytes)

lemma of_nat_eq64:
  assumes "(of_nat a :: 64 word) = of_nat b" and "a < 18446744073709551616" and "b < 18446744073709551616"
  shows "a = b"
proof -
  have u: "unat (of_nat n :: 64 word) = n" if "n < 18446744073709551616" for n
    using that by (simp only: unat_of_nat) simp
  from arg_cong [OF assms(1), of unat] show ?thesis by (simp only: u [OF assms(2)] u [OF assms(3)])
qed

lemma unat_offset_diff:
  assumes "i < 4096" and "off < 4096" and "len \<le> 4096"
  shows "unat (of_nat i - of_nat off :: 64 word) < len \<longleftrightarrow> off \<le> i \<and> i < off + len"
    and "off \<le> i \<Longrightarrow> unat (of_nat i - of_nat off :: 64 word) = i - off"
proof -
  show d: "unat (of_nat i - of_nat off :: 64 word) = i - off" if "off \<le> i"
  proof -
    have "(of_nat i - of_nat off :: 64 word) = of_nat (i - off)" using that by simp
    moreover have "unat (of_nat (i - off) :: 64 word) = i - off"
      using assms(1) by (simp only: unat_of_nat) simp
    ultimately show ?thesis by simp
  qed
  show "unat (of_nat i - of_nat off :: 64 word) < len \<longleftrightarrow> off \<le> i \<and> i < off + len" (is "unat ?d < len \<longleftrightarrow> _")
  proof (cases "off \<le> i")
    case True
    then show ?thesis using d by auto
  next
    case False
    have "\<not> unat ?d < len"
    proof
      assume k: "unat ?d < len"
      have "(of_nat (off + unat ?d) :: 64 word) = of_nat i" by simp
      then have "off + unat ?d = i" by (rule of_nat_eq64) (use k assms in simp_all)
      then show False using False by simp
    qed
    then show ?thesis using False by simp
  qed
qed

lemma page_store_same:
  assumes "page_aligned p" and "page_aligned q" and "q \<noteq> p" and "off + length bs \<le> 4096"
  shows "same_page (store_bytes m (p + of_nat off) bs) m q"
proof (rule same_pageI)
  fix i :: nat assume i: "i < 4096"
  have "\<not> unat (q + of_nat i - (p + of_nat off)) < length bs"
  proof
    assume k: "unat (q + of_nat i - (p + of_nat off)) < length bs"
    let ?j = "off + unat (q + of_nat i - (p + of_nat off))"
    have "p + of_nat ?j = q + of_nat i" by simp
    then show False using page_offset_unique [OF assms(1,2) _ i, of ?j] assms(3,4) k by auto
  qed
  then show "store_bytes m (p + of_nat off) bs (q + of_nat i) = m (q + of_nat i)"
    using assms(4) by (simp add: store_bytes_apply)
qed

lemma page_store_at:
  assumes "i < 4096" and "off < 4096" and "off + length bs \<le> 4096"
  shows "store_bytes m (p + of_nat off) bs (p + of_nat i)
    = (if off \<le> i \<and> i < off + length bs then bs ! (i - off) else m (p + of_nat i))"
proof -
  have "p + of_nat i - (p + of_nat off) = (of_nat i - of_nat off :: 64 word)" by simp
  then show ?thesis
    using unat_offset_diff [OF assms(1,2), of "length bs"] assms(3) by (simp add: store_bytes_apply)
qed

text \<open>
  \<open>wrote s t R r d bs\<close>: from \<open>s\<close> to \<open>t\<close> the space \<open>r\<close> sees the bytes \<open>bs\<close> from the address \<open>d\<close> on, and
  nothing else that any space sees has changed.
\<close>

definition wrote :: "phys \<Rightarrow> phys \<Rightarrow> addr set \<Rightarrow> addr \<Rightarrow> uint64 \<Rightarrow> byte list \<Rightarrow> bool" where
  "wrote s t R r d bs \<longleftrightarrow> uvm_inv t R \<and> same_maps s t R
     \<and> (\<forall>r'\<in>R. \<forall>x. unat x < USERPAGES * 4096 \<longrightarrow> pte_valid (mapping s r' (vpn x)) \<longrightarrow> ubyte t r' x
          = (if r' = r \<and> unat d \<le> unat x \<and> unat x < unat d + length bs then bs ! (unat x - unat d) else ubyte s r' x))"

lemma wroteD:
  assumes "wrote s t R r d bs"
  shows "uvm_inv t R" "same_maps s t R"
    "\<And>r' x. r' \<in> R \<Longrightarrow> unat x < USERPAGES * 4096 \<Longrightarrow> pte_valid (mapping s r' (vpn x)) \<Longrightarrow> ubyte t r' x
       = (if r' = r \<and> unat d \<le> unat x \<and> unat x < unat d + length bs then bs ! (unat x - unat d) else ubyte s r' x)"
  using assms unfolding wrote_def by blast+

lemma vpn_user: "unat x < USERPAGES * 4096 \<Longrightarrow> vpn x < USERPAGES"
  by (simp add: vpn_def less_mult_imp_div_less)

lemma wrote_nothing:
  assumes inv: "uvm_inv s R" and k: "kept s t R" and m: "same_maps s t R"
  shows "wrote s t R r d []"
proof -
  have "ubyte t r' x = ubyte s r' x"
    if "r' \<in> R" "unat x < USERPAGES * 4096" "pte_valid (mapping s r' (vpn x))" for r' x
  proof -
    have "(r', vpn x) \<in> mappers s R (PTE2PA (mapping s r' (vpn x)))"
      using that vpn_user by (simp add: mem_mappers)
    from uvm_inv_refs(3-5) [OF inv this] have "same_page (pmem t) (pmem s) (PTE2PA (mapping s r' (vpn x)))"
      by (intro keptD(7) [OF k])
    from same_pageD [OF this page_off_less] show ?thesis
      by (simp add: ubyte_def same_maps_mapping [OF m that(1)])
  qed
  then show ?thesis unfolding wrote_def using uvm_inv_kept [OF inv k m] m by auto
qed

lemma wrote_refl: "uvm_inv s R \<Longrightarrow> wrote s s R r d []"
  by (rule wrote_nothing [OF _ kept_refl]) (auto dest: uvm_invD(2) simp: same_maps_def)

lemma wrote_trans:
  assumes "wrote s t R r d bs" and "wrote t u R r e cs" and "unat e = unat d + length bs"
  shows "wrote s u R r d (bs @ cs)"
  unfolding wrote_def
proof (intro conjI ballI allI impI)
  note A = wroteD [OF assms(1)] and B = wroteD [OF assms(2)]
  show "uvm_inv u R" by (rule B(1))
  show "same_maps s u R" by (rule same_maps_trans [OF A(2) B(2)])
  fix r' x assume x: "r' \<in> R" "unat x < USERPAGES * 4096" "pte_valid (mapping s r' (vpn x))"
  then have "pte_valid (mapping t r' (vpn x))" using same_maps_mapping [OF A(2) x(1)] by simp
  then show "ubyte u r' x = (if r' = r \<and> unat d \<le> unat x \<and> unat x < unat d + length (bs @ cs)
      then (bs @ cs) ! (unat x - unat d) else ubyte s r' x)"
    using A(3) [OF x] B(3) [OF x(1,2)] assms(3) by (auto simp: nth_append)
qed

lemma vpn_range_iff:
  assumes "page_off d + k \<le> 4096"
  shows "unat d \<le> unat x \<and> unat x < unat d + k \<longleftrightarrow> vpn x = vpn d \<and> page_off d \<le> page_off x \<and> page_off x < page_off d + k"
    and "unat d \<le> unat x \<Longrightarrow> unat x < unat d + k \<Longrightarrow> unat x - unat d = page_off x - page_off d"
proof -
  have e: "unat y = 4096 * vpn y + page_off y" for y by (simp add: vpn_def page_off_def)
  show i: "unat d \<le> unat x \<and> unat x < unat d + k \<longleftrightarrow> vpn x = vpn d \<and> page_off d \<le> page_off x \<and> page_off x < page_off d + k"
  proof (cases "vpn x" "vpn d" rule: linorder_cases)
    case less
    then have "4096 * vpn x + 4096 \<le> 4096 * vpn d" by linarith
    then show ?thesis using less e [of d] e [of x] page_off_less [of x] by auto
  next
    case equal
    then show ?thesis using e [of d] e [of x] by auto
  next
    case greater
    then have "4096 * vpn d + 4096 \<le> 4096 * vpn x" by linarith
    then show ?thesis using greater e [of d] e [of x] assms by auto
  qed
  show "unat x - unat d = page_off x - page_off d" if "unat d \<le> unat x" "unat x < unat d + k"
    using i that e [of d] e [of x] by simp
qed

lemma write_user_page:
  assumes inv: "uvm_inv s R" and r: "r \<in> R" and n: "vpn d < USERPAGES" and v: "pte_valid (mapping s r (vpn d))"
    and w: "pte_writable (mapping s r (vpn d))" and len: "page_off d + length bs \<le> 4096"
  defines "t \<equiv> s\<lparr>pmem := store_bytes (pmem s) (PTE2PA (mapping s r (vpn d)) + of_nat (page_off d)) bs\<rparr>"
  shows "wrote s t R r d bs"
proof -
  let ?pa = "PTE2PA (mapping s r (vpn d))"
  have m: "(r, vpn d) \<in> mappers s R ?pa" using r n v by (simp add: mem_mappers)
  note P = uvm_inv_refs [OF inv m] and one = uvm_invD(6) [OF inv r n v w]
  have same: "same_page (pmem t) (pmem s) p" if "page_aligned p" "p \<noteq> ?pa" for p
    unfolding t_def using page_store_same [OF P(5) that len] by simp
  have k: "kalloc_inv t"
    unfolding t_def using same P(3)
    by (intro kalloc_inv_pmem [OF uvm_invD(3) [OF inv]]) (auto simp: t_def free_set_def page_ok_def)
  have ok: "page_ok t = page_ok s" and rc: "refcount t = refcount s" by (simp_all add: t_def page_ok_def fun_eq_iff)
  have tb: "p \<noteq> ?pa" "page_aligned p" if "p \<in> tables (pmem s) R" for p
    using that P(4) uvm_invD(2) [OF inv] page_okD(1) by (auto simp: pt_wf_def)
  have X: "pt_wf t R" "tables (pmem t) R = tables (pmem s) R" "same_maps s t R"
    by (rule pt_wf_transfer [OF uvm_invD(2) [OF inv] k ok]; use same tb rc in simp)+
  have ms: "mapping t r' i = mapping s r' i" if "r' \<in> R" for r' i by (rule same_maps_mapping [OF X(3) that])
  have mp: "mappers t R p = mappers s R p" for p using ms by (auto simp: mappers_def)
  have it: "uvm_inv t R"
    unfolding uvm_inv_def using inv X(1,2) ok rc by (simp add: mp ms uvm_inv_def pte_ok_def)
  have "ubyte t r' x = (if r' = r \<and> unat d \<le> unat x \<and> unat x < unat d + length bs then bs ! (unat x - unat d) else ubyte s r' x)"
    if x: "r' \<in> R" "unat x < USERPAGES * 4096" "pte_valid (mapping s r' (vpn x))" for r' x
  proof (cases "r' = r \<and> vpn x = vpn d")
    case True
    have "ubyte t r' x = store_bytes (pmem s) (?pa + of_nat (page_off d)) bs (?pa + of_nat (page_off x))"
      unfolding ubyte_def ms [OF x(1)] using True by (simp add: t_def)
    also have "\<dots> = (if page_off d \<le> page_off x \<and> page_off x < page_off d + length bs
        then bs ! (page_off x - page_off d) else pmem s (?pa + of_nat (page_off x)))"
      by (rule page_store_at [OF page_off_less page_off_less len])
    also have "pmem s (?pa + of_nat (page_off x)) = ubyte s r' x" using True by (simp add: ubyte_def)
    finally have u: "ubyte t r' x = (if page_off d \<le> page_off x \<and> page_off x < page_off d + length bs
        then bs ! (page_off x - page_off d) else ubyte s r' x)" .
    show ?thesis
    proof (cases "unat d \<le> unat x \<and> unat x < unat d + length bs")
      case c: True
      then show ?thesis using u True vpn_range_iff [OF len, of x] by (simp only: simp_thms if_True)
    next
      case c: False
      then show ?thesis using u True vpn_range_iff(1) [OF len, of x] by (simp only: simp_thms if_False)
    qed
  next
    case False
    let ?p = "PTE2PA (mapping s r' (vpn x))"
    have mx: "(r', vpn x) \<in> mappers s R ?p" using x vpn_user by (simp add: mem_mappers)
    have "?p \<noteq> ?pa"
    proof
      assume "?p = ?pa"
      then have "(r', vpn x) \<in> {(r, vpn d)}" using mx one by (simp only:)
      then show False using False by simp
    qed
    from same_pageD [OF same [OF uvm_inv_refs(5) [OF inv mx] this] page_off_less]
    have "ubyte t r' x = ubyte s r' x" by (simp add: ubyte_def ms [OF x(1)])
    then show ?thesis using False vpn_range_iff(1) [OF len, of x] by auto
  qed
  then show ?thesis unfolding wrote_def using it X(3) by blast
qed

section \<open>Ranges of user bytes\<close>

definition ubytes :: "phys \<Rightarrow> addr \<Rightarrow> uint64 \<Rightarrow> nat \<Rightarrow> byte list" where
  "ubytes s r d n = map (\<lambda>i. ubyte s r (d + of_nat i)) [0..<n]"

lemma ubytes_add: "ubytes s r d (a + b) = ubytes s r d a @ ubytes s r (d + of_nat a) b"
  by (rule nth_equalityI) (auto simp: ubytes_def nth_append add.assoc of_nat_diff)

lemma length_ubytes [simp]: "length (ubytes s r d n) = n"
  by (simp add: ubytes_def)

lemma page_bytes:
  assumes "page_off d + k \<le> 4096" and "unat d + k \<le> USERPAGES * 4096"
  shows "bytes_at (pmem s) (PTE2PA (mapping s r (vpn d)) + of_nat (page_off d)) k = ubytes s r d k"
    and "i < k \<Longrightarrow> vpn (d + of_nat i) = vpn d"
proof -
  have u: "unat (d + of_nat i) = unat d + i" if "i < k" for i
    using that assms(2) by (intro unat_add_of_nat) simp
  have v: "vpn (d + of_nat i) = vpn d \<and> page_off (d + of_nat i) = page_off d + i" if "i < k" for i
  proof -
    have "unat d \<le> unat (d + of_nat i)" "unat (d + of_nat i) < unat d + k" using u [OF that] that by simp_all
    then show ?thesis using vpn_range_iff [OF assms(1), of "d + of_nat i"] u [OF that] by auto
  qed
  then show "i < k \<Longrightarrow> vpn (d + of_nat i) = vpn d" by simp
  show "bytes_at (pmem s) (PTE2PA (mapping s r (vpn d)) + of_nat (page_off d)) k = ubytes s r d k"
    by (rule nth_equalityI) (simp_all add: ubytes_def ubyte_def v add.assoc)
qed

text \<open>Every entry that maps one of the \<open>n\<close> bytes from \<open>d\<close> on satisfies \<open>P\<close>.\<close>

definition range_all :: "(uint64 \<Rightarrow> bool) \<Rightarrow> phys \<Rightarrow> addr \<Rightarrow> uint64 \<Rightarrow> nat \<Rightarrow> bool" where
  "range_all P s r d n \<longleftrightarrow> (\<forall>i<n. P (mapping s r (vpn (d + of_nat i))))"

abbreviation mapped_range :: "phys \<Rightarrow> addr \<Rightarrow> uint64 \<Rightarrow> nat \<Rightarrow> bool" where
  "mapped_range \<equiv> range_all pte_valid"

definition writable_entry :: "uint64 \<Rightarrow> bool" where
  "writable_entry e \<longleftrightarrow> pte_valid e \<and> pte_writable e"

lemma range_all_0 [simp]: "range_all P s r d 0"
  by (simp add: range_all_def)

lemma range_all_split:
  assumes "page_off d + a \<le> 4096" and "unat d + a \<le> USERPAGES * 4096" and "0 < a"
  shows "range_all P s r d (a + b) \<longleftrightarrow> P (mapping s r (vpn d)) \<and> range_all P s r (d + of_nat a) b"
proof
  assume m: "range_all P s r d (a + b)"
  have "P (mapping s r (vpn (d + of_nat 0)))" using m assms(3) unfolding range_all_def by blast
  moreover have "P (mapping s r (vpn (d + of_nat a + of_nat i)))" if "i < b" for i
    using m that unfolding range_all_def by (metis add.assoc add_less_cancel_left of_nat_add)
  ultimately show "P (mapping s r (vpn d)) \<and> range_all P s r (d + of_nat a) b" by (simp add: range_all_def)
next
  assume m: "P (mapping s r (vpn d)) \<and> range_all P s r (d + of_nat a) b"
  show "range_all P s r d (a + b)"
    unfolding range_all_def
  proof (intro allI impI)
    fix i assume i: "i < a + b"
    show "P (mapping s r (vpn (d + of_nat i)))"
    proof (cases "i < a")
      case True
      then show ?thesis using m page_bytes(2) [OF assms(1,2) True] by simp
    next
      case False
      then have "d + of_nat i = d + of_nat a + of_nat (i - a)" by (simp add: of_nat_diff)
      then show ?thesis using m i False unfolding range_all_def by (metis diff_less_mono le_add_diff_inverse add_diff_cancel_left' not_less)
    qed
  qed
qed

section \<open>copyout\<close>

lemma unat_advance:
  assumes "unat d + k \<le> USERPAGES * 4096" and "4096 - page_off d < k"
  shows "unat (PGROUNDDOWN d + PGSIZE) = unat d + (4096 - page_off d)"
proof -
  have e: "unat d = unat d div 4096 * 4096 + page_off d" by (simp add: page_off_def)
  have "unat (PGROUNDDOWN d) + 4096 < 18446744073709551616" using assms e by (simp add: unat_PGROUNDDOWN)
  then have "unat (PGROUNDDOWN d + PGSIZE) = unat (PGROUNDDOWN d) + 4096"
    using unat_add_no_wrap [of "PGROUNDDOWN d" PGSIZE] by simp
  then show ?thesis using e page_off_less [of d] by (simp add: unat_PGROUNDDOWN)
qed

lemma copyout_unfold:
  assumes "src \<noteq> []" and "d < MAXVA"
  shows "copyout r d src = kbind (find_page r (page_va (vpn d))) (\<lambda>pa0. if pa0 = 0 then kret (- 1) else
     kbind (walk r (page_va (vpn d)) False) (\<lambda>pte. kbind (load_pte pte) (\<lambda>v.
     if v AND PTE_W = 0 then kret (- 1) else
     kbind (kmodify (\<lambda>s. s\<lparr>pmem := store_bytes (pmem s) (pa0 + of_nat (page_off d)) (take (chunk d (length src)) src)\<rparr>)) (\<lambda>_.
     copyout r (page_va (vpn d) + PGSIZE) (drop (chunk d (length src)) src)))))"
proof -
  have "page_va (vpn d) < MAXVA" using vpn_less [OF assms(2)] by simp
  then show ?thesis
    using assms offset_eq [of d] by (subst copyout.simps)
      (simp add: Let_def PGROUNDDOWN_page_va find_page_def not_le [symmetric] cong: if_cong)
qed

lemma page_store_found:
  assumes inv: "uvm_inv s R" and r: "r \<in> R" and n: "n < USERPAGES" and v: "pte_valid (mapping s r n)"
  shows "\<exists>q. walk r (page_va n) False s = Ok (q, s) \<and> load_pte q s = Ok (mapping s r n, s)"
    and "PTE2PA (mapping s r n) \<noteq> 0"
proof -
  have n': "n < 67108864" using n by simp
  show "\<exists>q. walk r (page_va n) False s = Ok (q, s) \<and> load_pte q s = Ok (mapping s r n, s)"
    by (cases rule: walk_mapping [OF uvm_invD(2) [OF inv] r n']) (use v in auto)
  have "(r, n) \<in> mappers s R (PTE2PA (mapping s r n))" using r n v by (simp add: mem_mappers)
  then show "PTE2PA (mapping s r n) \<noteq> 0" by (rule uvm_inv_not_null [OF inv])
qed

text \<open>One round of the loop of \<open>copyout\<close>.\<close>

lemma copyout_round:
  assumes inv: "uvm_inv s R" and r: "r \<in> R" and src: "src \<noteq> []" and d: "unat d < USERPAGES * 4096"
  defines "c \<equiv> chunk d (length src)" and "e \<equiv> mapping s r (vpn d)"
  shows "if pte_valid e \<and> pte_writable e
    then \<exists>t. copyout r d src s = copyout r (PGROUNDDOWN d + PGSIZE) (drop c src) t \<and> wrote s t R r d (take c src)
    else \<exists>t. copyout r d src s = Ok (- 1, t) \<and> wrote s t R r d []"
proof -
  have dm: "d < MAXVA" using d by (simp add: word_less_nat_alt)
  have n: "vpn d < USERPAGES" "vpn d < 67108864" using vpn_user [OF d] by simp_all
  note U = copyout_unfold [OF src dm, of r]
  show ?thesis
  proof (cases "pte_valid e")
    case False
    then have "\<not> pte_valid (mapping s r (vpn d))" by (simp add: e_def)
    from find_page_invalid [OF uvm_invD(2) [OF inv] r n(2) this] obtain t
      where "find_page r (page_va (vpn d)) s = Ok (0, t)" "kept s t R" "same_maps s t R" by blast
    then show ?thesis using False wrote_nothing [OF inv] by (auto simp: U)
  next
    case True
    then have v: "pte_valid (mapping s r (vpn d))" by (simp add: e_def)
    note F = find_page_valid [OF uvm_invD(2) [OF inv] r n(2) v]
    obtain q where q: "walk r (page_va (vpn d)) False s = Ok (q, s)" "load_pte q s = Ok (e, s)"
      using page_store_found(1) [OF inv r n(1) v] by (auto simp: e_def)
    have nz: "PTE2PA e \<noteq> 0" using page_store_found(2) [OF inv r n(1) v] by (simp add: e_def)
    show ?thesis
    proof (cases "pte_writable e")
      case False
      then show ?thesis
        using True F q nz wrote_refl [OF inv] by (auto simp: U e_def pte_writable_def)
    next
      case w: True
      have "page_off d + length (take c src) \<le> 4096"
        using page_off_less [of d] by (simp add: c_def chunk_eq)
      then have "wrote s (s\<lparr>pmem := store_bytes (pmem s) (PTE2PA e + of_nat (page_off d)) (take c src)\<rparr>) R r d (take c src)"
        using write_user_page [OF inv r n(1) v] w by (simp add: e_def)
      then show ?thesis
        using True w F q nz by (auto simp: U e_def c_def pte_writable_def PGROUNDDOWN_page_va [OF dm])
    qed
  qed
qed

lemma copyout_result:
  assumes "uvm_inv s R" and "r \<in> R" and "unat d + length src \<le> USERPAGES * 4096"
  shows "\<exists>res t k. copyout r d src s = Ok (res, t) \<and> wrote s t R r d (take k src)
    \<and> range_all writable_entry s r d k \<and> (res = 0 \<and> k = length src \<or> res = - 1 \<and> k < length src
        \<and> \<not> writable_entry (mapping s r (vpn (d + of_nat k))))"
  using assms
proof (induction "length src" arbitrary: s d src rule: less_induct)
  case less
  show ?case
  proof (cases "src = []")
    case True
    then show ?thesis using wrote_refl [OF less.prems(1)] by (simp add: copyout.simps)
  next
    case False
    then have d: "unat d < USERPAGES * 4096" using less.prems(3) by (cases src) simp_all
    let ?c = "chunk d (length src)" and ?e = "mapping s r (vpn d)"
    note rd = copyout_round [OF less.prems(1,2) False d]
    show ?thesis
    proof (cases "pte_valid ?e \<and> pte_writable ?e")
      case bad: False
      then obtain t where "copyout r d src s = Ok (- 1, t)" "wrote s t R r d []" using rd by auto
      then show ?thesis using bad False by (intro exI [of _ "- 1"] exI [of _ t] exI [of _ 0]) (simp add: writable_entry_def)
    next
      case True
      then obtain t where t: "copyout r d src s = copyout r (PGROUNDDOWN d + PGSIZE) (drop ?c src) t"
          "wrote s t R r d (take ?c src)" using rd by auto
      have pc: "page_off d + ?c \<le> 4096" "unat d + ?c \<le> USERPAGES * 4096" "0 < ?c"
        using page_off_less [of d] less.prems(3) False by (simp_all add: chunk_eq)
      have rc: "range_all writable_entry s r d (?c + b) \<longleftrightarrow> range_all writable_entry s r (d + of_nat ?c) b" for b
        using range_all_split [OF pc, of writable_entry s r b] True by (simp add: writable_entry_def)
      show ?thesis
      proof (cases "4096 - page_off d < length src")
        case False
        then have "?c = length src" by (simp add: chunk_eq)
        then show ?thesis using t rc [of 0] by (intro exI [of _ 0] exI [of _ t] exI [of _ "length src"]) (simp add: copyout.simps)
      next
        case True
        then have c: "?c = 4096 - page_off d" "?c < length src" "0 < ?c"
          using page_off_less [of d] by (simp_all add: chunk_eq)
        let ?d = "PGROUNDDOWN d + PGSIZE"
        have u: "unat ?d = unat d + ?c" using unat_advance [OF less.prems(3) True] c(1) by simp
        have dd: "?d = d + of_nat ?c"
          by (rule word_eq_unatI) (use u less.prems(3) c(2) in \<open>simp add: unat_add_of_nat\<close>)
        have len: "length (drop ?c src) < length src" "unat ?d + length (drop ?c src) \<le> USERPAGES * 4096"
          using c less.prems(3) u by simp_all
        obtain res w k where h: "copyout r ?d (drop ?c src) t = Ok (res, w)" "wrote t w R r ?d (take k (drop ?c src))"
            "range_all writable_entry t r ?d k" "res = 0 \<and> k = length (drop ?c src) \<or> res = - 1 \<and> k < length (drop ?c src)
              \<and> \<not> writable_entry (mapping t r (vpn (?d + of_nat k)))"
          using less.hyps [OF len(1) wroteD(1) [OF t(2)] less.prems(2) len(2)] by blast
        have "wrote s w R r d (take ?c src @ take k (drop ?c src))"
          by (rule wrote_trans [OF t(2) h(2)]) (use u c(2) in simp)
        then have "wrote s w R r d (take (?c + k) src)" by (simp add: take_add)
        moreover have "range_all writable_entry s r d (?c + k)"
          unfolding rc using h(3) same_maps_mapping [OF wroteD(2) [OF t(2)] less.prems(2)]
          unfolding dd [symmetric] range_all_def by simp
        ultimately show ?thesis
          using h(1,4) t(1) c(2) dd same_maps_mapping [OF wroteD(2) [OF t(2)] less.prems(2)]
          by (intro exI [of _ res] exI [of _ w] exI [of _ "?c + k"]) (auto simp: add.assoc)
      qed
    qed
  qed
qed

section \<open>copyin\<close>

lemma copyin_unfold:
  assumes "0 < len" and "d < MAXVA"
  shows "copyin r dst d len = kbind (find_page r (page_va (vpn d))) (\<lambda>pa0. if pa0 = 0 then kret None else
     kbind (kgets (\<lambda>s. bytes_at (pmem s) (pa0 + of_nat (page_off d)) (chunk d len))) (\<lambda>bs.
     copyin r (dst @ bs) (page_va (vpn d) + PGSIZE) (len - chunk d len)))"
  using assms offset_eq [of d] by (subst copyin_simps)
    (simp add: Let_def PGROUNDDOWN_page_va find_page_def cong: if_cong)

lemma copyin_result:
  assumes "uvm_inv s R" and "r \<in> R" and "unat d + len \<le> USERPAGES * 4096"
  shows "\<exists>t. copyin r dst d len s = Ok (if mapped_range s r d len then Some (dst @ ubytes s r d len) else None, t)
    \<and> wrote s t R r d []"
  using assms
proof (induction len arbitrary: d dst rule: less_induct)
  case (less len)
  show ?case
  proof (cases "len = 0")
    case True
    then show ?thesis
      using wrote_refl [OF less.prems(1)] by (simp add: copyin_simps range_all_def ubytes_def)
  next
    case False
    then have d: "unat d < USERPAGES * 4096" using less.prems(3) by simp
    have dm: "d < MAXVA" using d by (simp add: word_less_nat_alt)
    have n: "vpn d < USERPAGES" "vpn d < 67108864" using vpn_user [OF d] by simp_all
    let ?c = "chunk d len"
    have c: "page_off d + ?c \<le> 4096" "unat d + ?c \<le> USERPAGES * 4096" "0 < ?c" "?c \<le> len"
      using page_off_less [of d] less.prems(3) False by (auto simp: chunk_eq)
    note split = range_all_split [OF c(1-3), of pte_valid s r "len - ?c"]
    note U = copyin_unfold [of len d r dst]
    show ?thesis
    proof (cases "pte_valid (mapping s r (vpn d))")
      case no: False
      from find_page_invalid [OF uvm_invD(2) [OF less.prems(1)] less.prems(2) n(2) this] obtain t
        where "find_page r (page_va (vpn d)) s = Ok (0, t)" "kept s t R" "same_maps s t R" by blast
      then show ?thesis
        using no False dm split c(4) wrote_nothing [OF less.prems(1)] by (auto simp: U)
    next
      case v: True
      note F = find_page_valid [OF uvm_invD(2) [OF less.prems(1)] less.prems(2) n(2) v]
      have nz: "PTE2PA (mapping s r (vpn d)) \<noteq> 0" by (rule page_store_found(2) [OF less.prems(1,2) n(1) v])
      have step: "copyin r dst d len s = copyin r (dst @ ubytes s r d ?c) (page_va (vpn d) + PGSIZE) (len - ?c) s"
        using False dm F nz page_bytes(1) [OF c(1,2), of s r] by (simp add: U)
      show ?thesis
      proof (cases "?c = len")
        case True
        then show ?thesis
          using step split v wrote_refl [OF less.prems(1)] by (simp add: copyin_simps range_all_def)
      next
        case more: False
        then have "4096 - page_off d < len" and ce: "?c = 4096 - page_off d" by (auto simp: chunk_eq split: if_splits)
        then have u: "unat (PGROUNDDOWN d + PGSIZE) = unat d + ?c" using unat_advance [OF less.prems(3)] by simp
        have dd: "page_va (vpn d) + PGSIZE = d + of_nat ?c"
          by (rule word_eq_unatI) (use u less.prems(3) c(4) in \<open>simp add: unat_add_of_nat PGROUNDDOWN_page_va [OF dm, symmetric]\<close>)
        have lt: "len - ?c < len" "unat (d + of_nat ?c) + (len - ?c) \<le> USERPAGES * 4096"
          using c(3,4) less.prems(3) u dd by (simp_all add: PGROUNDDOWN_page_va [OF dm])
        have e: "ubytes s r d len = ubytes s r d ?c @ ubytes s r (d + of_nat ?c) (len - ?c)"
          using ubytes_add [of s r d ?c "len - ?c"] c(4) by simp
        from less.IH [OF lt(1) less.prems(1,2) lt(2), of "dst @ ubytes s r d ?c"] show ?thesis
          using step split v c(4) unfolding dd e by (auto simp: wrote_def)
      qed
    qed
  qed
qed

lemma PGROUNDDOWN_MAXVA: "MAXVA \<le> va \<Longrightarrow> MAXVA \<le> PGROUNDDOWN va"
proof -
  assume "MAXVA \<le> va"
  then have "274877906944 \<le> unat va" by (simp add: word_le_nat_alt)
  then have "67108864 \<le> unat va div 4096" by linarith
  then have "274877906944 \<le> unat va div 4096 * 4096" by linarith
  then show ?thesis by (simp add: word_le_nat_alt unat_PGROUNDDOWN)
qed

section \<open>copyinstr\<close>

text \<open>
  The reference for \<open>copyinstr\<close> reads byte by byte: it fails at the first byte that is not in a user
  page, ends at the first NUL, and fails when \<open>mx\<close> bytes hold no NUL.
\<close>

definition user_page :: "phys \<Rightarrow> addr \<Rightarrow> uint64 \<Rightarrow> bool" where
  "user_page s r d \<longleftrightarrow> d < MAXVA \<and> pte_valid (mapping s r (vpn d)) \<and> mapping s r (vpn d) AND PTE_U \<noteq> 0
     \<and> PTE2PA (mapping s r (vpn d)) \<noteq> 0"

fun user_str :: "phys \<Rightarrow> addr \<Rightarrow> uint64 \<Rightarrow> nat \<Rightarrow> byte list option" where
  "user_str s r d 0 = None"
| "user_str s r d (Suc mx) =
     (if \<not> user_page s r d then None else if ubyte s r d = 0 then Some []
      else map_option ((#) (ubyte s r d)) (user_str s r (d + 1) mx))"

lemma walkaddr_user_page:
  assumes "pt_wf s R" and "r \<in> R"
  shows "walkaddr r (PGROUNDDOWN d) s = Ok (if user_page s r d then PTE2PA (mapping s r (vpn d)) else 0, s)"
proof (cases "d < MAXVA")
  case False
  then have "MAXVA \<le> PGROUNDDOWN d" by (intro PGROUNDDOWN_MAXVA) simp
  then show ?thesis using False by (simp add: walkaddr_def user_page_def)
next
  case True
  note n = vpn_less [OF True]
  show ?thesis
    by (cases rule: walk_mapping [OF assms n])
      (use True page_va_facts(1) [OF n] in \<open>auto simp: PGROUNDDOWN_page_va [OF True] walkaddr_def user_page_def pte_valid_def not_le [symmetric]\<close>)
qed

lemma user_str_chunk:
  assumes "\<And>i. i < c \<Longrightarrow> user_page s r (d + of_nat i)"
  shows "user_str s r d (c + m) = (if 0 \<in> set (ubytes s r d c)
    then Some (takeWhile (\<lambda>b. b \<noteq> 0) (ubytes s r d c))
    else map_option ((@) (ubytes s r d c)) (user_str s r (d + of_nat c) m))"
  using assms
proof (induction c arbitrary: d)
  case 0
  then show ?case by (cases "user_str s r d m") (simp_all add: ubytes_def)
next
  case (Suc c)
  have u: "ubytes s r d (Suc c) = ubyte s r d # ubytes s r (d + 1) c"
    using ubytes_add [of s r d 1 c] by (simp add: ubytes_def)
  have ok: "user_page s r d" using Suc.prems [of 0] by simp
  have tl: "user_page s r (d + 1 + of_nat i)" if "i < c" for i
    using Suc.prems [of "Suc i"] that by (simp add: add.assoc)
  have sh: "d + 1 + of_nat c = d + of_nat (Suc c)" by simp
  show ?case
    using Suc.IH [of "d + 1", OF tl] ok unfolding u sh
    by (cases "user_str s r (d + of_nat (Suc c)) m") auto
qed

lemma user_page_chunk:
  assumes "user_page s r d" and "i < chunk d n"
  shows "user_page s r (d + of_nat i)" and "vpn (d + of_nat i) = vpn d" and "page_off (d + of_nat i) = page_off d + i"
proof -
  have dm: "unat d < 274877906944" using assms(1) by (simp add: user_page_def word_less_nat_alt)
  have i: "page_off d + i < 4096" using assms(2) unfolding chunk_eq by linarith
  have u: "unat (d + of_nat i) = unat d + i" using dm i by (intro unat_add_of_nat) simp
  have e: "unat d = 4096 * vpn d + page_off d" by (simp add: vpn_def page_off_def)
  have "unat (d + of_nat i) = 4096 * vpn d + (page_off d + i)" using u e by simp
  then show v: "vpn (d + of_nat i) = vpn d" "page_off (d + of_nat i) = page_off d + i"
    unfolding vpn_def [of "d + of_nat i"] page_off_def [of "d + of_nat i"] using i by simp_all
  have "vpn d < 67108864" using vpn_less assms(1) by (simp add: user_page_def)
  then have "unat (d + of_nat i) < 274877906944" using u e i by simp
  then show "user_page s r (d + of_nat i)" using assms(1) v by (simp add: user_page_def word_less_nat_alt)
qed

lemma copyinstr_user_str:
  assumes wf: "pt_wf s R" and r: "r \<in> R"
  shows "copyinstr r dst d mx s = Ok (map_option ((@) dst) (user_str s r d mx), s)"
proof (induction mx arbitrary: d dst rule: less_induct)
  case (less mx)
  show ?case
  proof (cases "mx = 0")
    case True
    then show ?thesis by (simp add: copyinstr.simps)
  next
    case False
    let ?c = "chunk d mx" and ?pa = "PTE2PA (mapping s r (vpn d))"
    have c: "0 < ?c" "?c \<le> mx" using False page_off_less [of d] by (auto simp: chunk_eq)
    show ?thesis
    proof (cases "user_page s r d")
      case no: False
      then have "user_str s r d mx = None" using False by (cases mx) simp_all
      then show ?thesis
        using no False walkaddr_user_page [OF wf r, of d] by (subst copyinstr.simps) (simp add: Let_def)
    next
      case ok: True
      have bs: "bytes_at (pmem s) (?pa + (d - PGROUNDDOWN d)) ?c = ubytes s r d ?c"
        by (rule nth_equalityI)
          (simp_all add: ubytes_def ubyte_def user_page_chunk [OF ok] offset_eq add.assoc)
      have step: "copyinstr r dst d mx s = (if 0 \<in> set (ubytes s r d ?c)
          then Ok (Some (dst @ takeWhile (\<lambda>b. b \<noteq> 0) (ubytes s r d ?c)), s)
          else copyinstr r (dst @ ubytes s r d ?c) (PGROUNDDOWN d + PGSIZE) (mx - ?c) s)"
        using ok False walkaddr_user_page [OF wf r, of d] bs
        by (subst copyinstr.simps) (simp add: Let_def user_page_def)
      note sp = user_str_chunk [of ?c s r d "mx - ?c", OF user_page_chunk(1) [OF ok]]
      show ?thesis
      proof (cases "0 \<in> set (ubytes s r d ?c) \<or> ?c = mx")
        case True
        then show ?thesis using step sp c less.IH [of 0] by (auto simp: copyinstr.simps)
      next
        case more: False
        then have ce: "?c = 4096 - page_off d" by (auto simp: chunk_eq split: if_splits)
        have "PGROUNDDOWN d + PGSIZE = d + of_nat ?c"
        proof -
          have "d = PGROUNDDOWN d + of_nat (page_off d)" using offset_eq [of d] by (simp add: algebra_simps)
          moreover have "of_nat (page_off d) + of_nat ?c = (PGSIZE :: 64 word)"
            using page_off_less [of d] by (simp add: ce of_nat_diff less_imp_le)
          ultimately show ?thesis by (metis add.assoc)
        qed
        then show ?thesis
          using step sp more c less.IH [of "mx - ?c" "dst @ ubytes s r d ?c" "d + of_nat ?c"]
          by (cases "user_str s r (d + of_nat ?c) (mx - ?c)") auto
      qed
    qed
  qed
qed

end
