(* ===== verification/Vm_Properties.thy ===== *)
theory Vm_Properties
  imports Vm_Copy
begin

text \<open>
  The properties of the virtual memory system: fork by sharing pages (\<open>uvmcopy\<close>), the write fault that
  breaks sharing (\<open>vmfault\<close>), growing a space (\<open>uvmalloc\<close>), and the copies between kernel and user. The
  witnesses run on the state that \<open>demo_spaces\<close> builds with the functions themselves: two address spaces
  on a machine with eight pages, the first with a writable page at address 0.
\<close>

unbundle bit_operations_syntax

section \<open>A machine with two address spaces\<close>

lemma uvm_inv_empty: "kalloc_inv s \<Longrightarrow> uvm_inv s {}"
proof -
  assume i: "kalloc_inv s"
  have "0 \<le> refcount s (pageidx p)" if "page_ok s p" for p
    using i page_okD(2) [OF that] by (simp add: kalloc_inv_def)
  then show ?thesis using i by (simp add: uvm_inv_def pt_wf_def tables_def mappers_def)
qed

lemma leaf_pte_rwu:
  "pte_valid (leaf_pte p (PTE_R OR PTE_U OR PTE_W))" "pte_writable (leaf_pte p (PTE_R OR PTE_U OR PTE_W))"
  "leaf_pte p (PTE_R OR PTE_U OR PTE_W) AND PTE_U \<noteq> 0"
  by (simp_all add: leaf_pte_def pte_valid_def pte_writable_def PTE_bit_iff bit_or_iff bit_numeral_rec
      numeral_eq_Suc)

lemma demo_spaces:
  obtains s r1 r2 where "uvm_inv s {r1, r2}" "r1 \<noteq> r2" "pte_valid (mapping s r1 0)" "pte_writable (mapping s r1 0)"
    "mapping s r1 0 AND PTE_U \<noteq> 0" "ubyte s r1 0 = 0"
    "\<And>n. n < 67108864 \<Longrightarrow> mapping s r2 n = 0" "\<And>n. 0 < n \<Longrightarrow> n < 67108864 \<Longrightarrow> mapping s r1 n = 0"
    "3 \<le> card (free_set s)"
proof -
  have c0: "card (free_set small_machine) = 8"
    by (simp add: small_machine_free_set small_pages_def)
  have fin: "finite (free_set small_machine)" by (simp add: small_machine_free_set)
  obtain r1 s1 where s1: "r1 \<in> free_set small_machine" "uvm_inv s1 {r1}" "\<And>n. mapping s1 r1 n = 0"
      "free_set s1 = free_set small_machine - {r1}"
    by (rule uvmcreate_cases [OF uvm_inv_empty [OF small_machine_inv]])
      (use c0 in auto)
  have c1: "card (free_set s1) = 7" using s1 c0 fin by simp
  obtain r2 s2 where s2: "r2 \<in> free_set s1" "r2 \<notin> {r1}" "uvm_inv s2 {r2, r1}" "\<And>n. mapping s2 r2 n = 0"
      "\<And>n. mapping s2 r1 n = mapping s1 r1 n" "free_set s2 = free_set s1 - {r2}"
    by (rule uvmcreate_cases [OF s1(2)]) (use c1 in auto)
  have c2: "card (free_set s2) = 6" using s2 c1 s1(4) fin by simp
  have np: "npages 0 = 0" "npages 4096 = 1" by (simp_all add: npages_def)
  have m1: "\<And>n. mapping s2 r1 n = 0" using s1(3) s2(5) by simp
  have inv: "uvm_inv s2 {r1, r2}" using s2(3) by (simp add: insert_commute)
  show ?thesis
  proof (rule uvmalloc_result [OF inv, of r1 0 4096 PTE_W])
    fix t assume "grows s2 t {r1, r2} r1 (npages 0) (npages 4096 - npages 0) (PTE_R OR PTE_U OR PTE_W)"
    then have g: "grows s2 t {r1, r2} r1 0 1 (PTE_R OR PTE_U OR PTE_W)" by (simp only: np) simp
    obtain p where p: "mapping t r1 0 = leaf_pte p (PTE_R OR PTE_U OR PTE_W)"
        "bytes_at (pmem t) p 4096 = replicate 4096 0" "p \<in> free_set s2"
      using growsD(6) [OF g, of 0] by auto
    have "page_ok s2 p" using p(3) by (simp add: free_set_def)
    then have "ubyte t r1 0 = bytes_at (pmem t) p 4096 ! 0"
      by (simp add: ubyte_def vpn_def page_off_def p(1) leaf_pte_facts(2) nth_bytes_at)
    then have "ubyte t r1 0 = 0" by (simp add: p(2))
    moreover have "mapping t r2 n = 0" if "n < 67108864" for n
      using growsD(5) [OF g, of r2 n] that s2(2,4) by auto
    moreover have "mapping t r1 n = 0" if "0 < n" "n < 67108864" for n
      using growsD(5) [OF g, of r1 n] that m1 by auto
    moreover have "3 \<le> card (free_set t)" using growsD(9) [OF g] c2 by simp
    ultimately show ?thesis
      using that [of t r1 r2] growsD(1) [OF g] s2(2) leaf_pte_rwu [of p] p(1) by auto
  next
    fix j t assume "j < npages 4096 - npages 0" "grow_fails s2 t {r1, r2} r1 (npages 0) (npages 0) j (PTE_R OR PTE_U OR PTE_W)"
    then show ?thesis using c2 by (simp add: grow_fails_def np)
  qed (simp_all add: np m1)
qed

lemma ubyte_keep:
  assumes "uvm_inv s R" and "r \<in> R" and "vpn va < USERPAGES" and "pte_valid (mapping s r (vpn va))"
    and "PTE2PA (mapping t r' (vpn va)) = PTE2PA (mapping s r (vpn va))"
    and "\<And>p. page_aligned p \<Longrightarrow> p \<notin> free_set s \<Longrightarrow> p \<notin> tables (pmem s) R \<Longrightarrow> same_page (pmem t) (pmem s) p"
  shows "ubyte t r' va = ubyte s r va"
proof -
  let ?p = "PTE2PA (mapping s r (vpn va))"
  have "(r, vpn va) \<in> mappers s R ?p" using assms(2-4) by (simp add: mem_mappers)
  from uvm_inv_refs(3-5) [OF assms(1) this] have "same_page (pmem t) (pmem s) ?p" by (intro assms(6))
  then show ?thesis using page_off_less [of va] by (simp add: ubyte_def assms(5) same_pageD)
qed

section \<open>Properties\<close>

text \<open>
  C3: \<open>uvmcopy\<close> (fork) shares every page of the parent with the child. On success the child sees every
  byte the parent saw, the parent still sees them, no page mapped by both is writable by either, each
  shared page has one more reference per mapping, and no other space changes. It fails (-1) only when
  fewer than two free pages per page are left, and then the child maps nothing, no count has changed and
  every space still sees its bytes. In both cases the invariant of the address spaces holds.
\<close>

theorem uvmcopy_correct:
  assumes "uvm_inv s R" and "old \<in> R" and "new \<in> R" and "old \<noteq> new" and "npages sz \<le> USERPAGES"
    and "\<forall>i<npages sz. \<not> pte_valid (mapping s new i)"
  shows "\<exists>res t. uvmcopy old new sz s = Ok (res, t) \<and> uvm_inv t R
    \<and> (res = 0 \<and> (\<forall>va. unat va < npages sz * 4096 \<longrightarrow> pte_valid (mapping s old (vpn va)) \<longrightarrow>
          pte_valid (mapping t new (vpn va)) \<and> ubyte t new va = ubyte s old va \<and> ubyte t old va = ubyte s old va
          \<and> \<not> pte_writable (mapping t new (vpn va)) \<and> \<not> pte_writable (mapping t old (vpn va)))
        \<and> (\<forall>p. page_ok s p \<and> p \<notin> free_set s \<longrightarrow> refcount t (pageidx p)
             = refcount s (pageidx p) + int (card (in_range s R old 0 (npages sz) p)))
       \<or> res = - 1 \<and> card (free_set s) < 2 * npages sz \<and> (\<forall>i<npages sz. \<not> pte_valid (mapping t new i))
        \<and> (\<forall>p. page_ok s p \<and> p \<notin> free_set s \<longrightarrow> refcount t (pageidx p) = refcount s (pageidx p)))
    \<and> (\<forall>r\<in>R. r \<noteq> new \<longrightarrow> (\<forall>va. vpn va < USERPAGES \<longrightarrow> pte_valid (mapping s r (vpn va)) \<longrightarrow>
          pte_valid (mapping t r (vpn va)) \<and> ubyte t r va = ubyte s r va))"
proof (rule uvmcopy_result [OF assms])
  fix t assume u: "uvmcopy old new sz s = Ok (0, t)" and c: "copies s t R old new 0 (npages sz)"
  note D = copiesD [OF c]
  have pa: "PTE2PA (mapping t r n) = PTE2PA (mapping s r n) \<and> pte_valid (mapping t r n)"
    if "r \<in> R" "r \<noteq> new" "n < USERPAGES" "pte_valid (mapping s r n)" for r n
    using D(5) [of r n] that by (cases "r = old") simp_all
  have child: "mapping t r (vpn va) = no_write (mapping s old (vpn va)) \<and> vpn va < USERPAGES"
    if "r \<in> {old, new}" "unat va < npages sz * 4096" "pte_valid (mapping s old (vpn va))" for r va
  proof -
    have "vpn va < npages sz" using that(2) by (simp add: vpn_def less_mult_imp_div_less)
    then show ?thesis using D(5) [of r "vpn va"] that assms(2,3,5) by auto
  qed
  have "ubyte t r va = ubyte s r va" if "r \<in> R" "r \<noteq> new" "vpn va < USERPAGES" "pte_valid (mapping s r (vpn va))" for r va
    using pa [OF that] D(7) by (intro ubyte_keep [OF assms(1) that(1,3,4)]) simp_all
  moreover have "ubyte t r va = ubyte s old va"
    if "r \<in> {old, new}" "unat va < npages sz * 4096" "pte_valid (mapping s old (vpn va))" for r va
    using child [OF that] D(7) that(3) by (intro ubyte_keep [OF assms(1,2)]) simp_all
  ultimately show ?thesis using u D(1,6) pa child by (intro exI [of _ 0] exI [of _ t]) simp
next
  fix j t assume u: "uvmcopy old new sz s = Ok (- 1, t)" and j: "j < npages sz" and f: "copy_fails s t R old new 0 j"
  have "j < USERPAGES" using j assms(5) by simp
  note D = copy_fails_effect [OF f assms(2-4) this assms(6) less_imp_le [OF j] assms(5)]
  have "card (free_set s) < 2 * npages sz" using f j by (simp add: copy_fails_def)
  moreover have pa: "PTE2PA (mapping t r n) = PTE2PA (mapping s r n) \<and> pte_valid (mapping t r n)"
    if "r \<in> R" "r \<noteq> new" "n < USERPAGES" "pte_valid (mapping s r n)" for r n
    using D(3) [of n] D(4) [of r n] that by (cases "r = old") auto
  moreover have "ubyte t r va = ubyte s r va" if "r \<in> R" "r \<noteq> new" "vpn va < USERPAGES" "pte_valid (mapping s r (vpn va))" for r va
    using pa [OF that] D(6) by (intro ubyte_keep [OF assms(1) that(1,3,4)]) simp_all
  ultimately show ?thesis using u D(1,2,5) by (intro exI [of _ "- 1"] exI [of _ t]) simp
qed

theorem uvmcopy_correct_witness:
  "\<exists>s t r1 r2. uvmcopy r1 r2 4096 s = Ok (0, t) \<and> pte_writable (mapping s r1 0)
    \<and> pte_valid (mapping t r2 0) \<and> \<not> pte_writable (mapping t r1 0) \<and> ubyte t r2 0 = 0"
proof (rule demo_spaces)
  fix s r1 r2
  assume s: "uvm_inv s {r1, r2}" "r1 \<noteq> r2" "pte_valid (mapping s r1 0)" "pte_writable (mapping s r1 0)"
    "ubyte s r1 0 = 0" "\<And>n. n < 67108864 \<Longrightarrow> mapping s r2 n = 0" "3 \<le> card (free_set s)"
  have np: "npages 4096 = 1" by (simp add: npages_def)
  have v0: "vpn 0 = 0" by (simp add: vpn_def)
  have pre: "\<forall>i<npages 4096. \<not> pte_valid (mapping s r2 i)" using s(6) by (simp add: np)
  have big: "\<not> card (free_set s) < 2 * npages 4096" using s(7) by (simp add: np)
  have "npages 4096 \<le> USERPAGES" by (simp add: np)
  note C = uvmcopy_correct [OF s(1) insertI1 insertI2 [OF singletonI] s(2) this pre]
  obtain t where t: "uvmcopy r1 r2 4096 s = Ok (0, t)"
    and c: "\<And>va. unat va < npages 4096 * 4096 \<Longrightarrow> pte_valid (mapping s r1 (vpn va)) \<Longrightarrow>
      pte_valid (mapping t r2 (vpn va)) \<and> ubyte t r2 va = ubyte s r1 va \<and> \<not> pte_writable (mapping t r1 (vpn va))"
    using C big by blast
  show ?thesis using s(3-5) t c [of 0] np v0
    by (intro exI [of _ s] exI [of _ t] exI [of _ r1] exI [of _ r2]) simp
qed

lemma writes_ok_ubyte:
  assumes "uvm_inv s R" and "writes_ok s t R r n pa" and "r' \<in> R" and "vpn x < USERPAGES"
    and "pte_valid (mapping s r' (vpn x))"
  shows "pte_valid (mapping t r' (vpn x)) \<and> ubyte t r' x = ubyte s r' x"
proof (cases "(r', vpn x) = (r, n)")
  case True
  then have w: "bytes_at (pmem t) pa 4096 = bytes_at (pmem s) (PTE2PA (mapping s r' (vpn x))) 4096"
      "PTE2PA (mapping t r' (vpn x)) = pa" "pte_valid (mapping t r' (vpn x))"
    using assms(2) unfolding writes_ok_def by blast+
  have "pmem t (pa + of_nat i) = pmem s (PTE2PA (mapping s r' (vpn x)) + of_nat i)" if "i < 4096" for i
    using nth_bytes_at [OF that] w(1) by metis
  then show ?thesis using w(2,3) page_off_less [of x] by (simp add: ubyte_def)
next
  case False
  have "\<forall>r'\<in>R. \<forall>i<USERPAGES. (r', i) \<noteq> (r, n) \<longrightarrow> mapping t r' i = mapping s r' i
      \<and> (pte_valid (mapping s r' i) \<longrightarrow> same_page (pmem t) (pmem s) (PTE2PA (mapping s r' i)))"
    using assms(2) unfolding writes_ok_def by (elim conjE)
  from this [rule_format, OF assms(3,4) False] have m: "mapping t r' (vpn x) = mapping s r' (vpn x)"
      "same_page (pmem t) (pmem s) (PTE2PA (mapping s r' (vpn x)))"
    using assms(5) by simp_all
  show ?thesis using m(1) same_pageD [OF m(2) page_off_less [of x]] assms(5) by (simp add: ubyte_def)
qed

text \<open>
  C4: a write fault. \<open>vmfault\<close> called for a write either returns 0, which happens only when the page is
  not mapped or no page is free, or returns the physical page that the faulting space now maps writable
  at that address and that no other mapping of any space refers to. In every case every space sees the
  bytes it saw before, and the invariant of the address spaces holds.
\<close>

theorem vmfault_write_correct:
  assumes "uvm_inv s R" and "r \<in> R" and "va < MAXVA" and "vpn va < USERPAGES"
  shows "\<exists>pa t. vmfault r va True s = Ok (pa, t) \<and> uvm_inv t R
    \<and> (if pa = 0 then \<not> pte_valid (mapping s r (vpn va)) \<or> free_set t = {}
       else pte_valid (mapping t r (vpn va)) \<and> pte_writable (mapping t r (vpn va))
         \<and> PTE2PA (mapping t r (vpn va)) = pa \<and> mappers t R pa = {(r, vpn va)})
    \<and> (\<forall>r'\<in>R. \<forall>x. vpn x < USERPAGES \<longrightarrow> pte_valid (mapping s r' (vpn x)) \<longrightarrow>
          pte_valid (mapping t r' (vpn x)) \<and> ubyte t r' x = ubyte s r' x)"
proof -
  obtain pa t where v: "vmfault r va True s = Ok (pa, t)" "uvm_inv t R"
    and c: "pa = 0 \<and> kept s t R \<and> same_maps s t R \<and> (\<not> pte_valid (mapping s r (vpn va)) \<or> free_set t = {})
      \<or> pa \<noteq> 0 \<and> writes_ok s t R r (vpn va) pa"
    using vmfault_write [OF assms] by blast
  have b: "pte_valid (mapping t r' (vpn x)) \<and> ubyte t r' x = ubyte s r' x"
    if "r' \<in> R" "vpn x < USERPAGES" "pte_valid (mapping s r' (vpn x))" for r' x
  proof (cases "pa = 0")
    case True
    then have k: "kept s t R" "same_maps s t R" using c by blast+
    have m: "mapping t r' (vpn x) = mapping s r' (vpn x)" by (rule same_maps_mapping [OF k(2) that(1)])
    then show ?thesis using that(3) by (auto intro: ubyte_keep [OF assms(1) that] keptD(7) [OF k(1)])
  next
    case False
    then have "writes_ok s t R r (vpn va) pa" using c by blast
    then show ?thesis by (rule writes_ok_ubyte [OF assms(1) _ that])
  qed
  have "if pa = 0 then \<not> pte_valid (mapping s r (vpn va)) \<or> free_set t = {}
       else pte_valid (mapping t r (vpn va)) \<and> pte_writable (mapping t r (vpn va))
         \<and> PTE2PA (mapping t r (vpn va)) = pa \<and> mappers t R pa = {(r, vpn va)}"
    using c by (cases "pa = 0") (simp_all add: writes_ok_def)
  then show ?thesis using v b by blast
qed

theorem vmfault_write_correct_witness:
  "\<exists>s t r1 r2 pa. uvm_inv s {r1, r2} \<and> vmfault r1 0 True s = Ok (pa, t) \<and> uvm_inv t {r1, r2} \<and> ubyte t r1 0 = 0"
proof (rule demo_spaces)
  fix s r1 r2
  assume s: "uvm_inv s {r1, r2}" "pte_valid (mapping s r1 0)" "ubyte s r1 0 = 0"
  have v0: "vpn 0 = 0" by (simp add: vpn_def)
  obtain pa t where "vmfault r1 0 True s = Ok (pa, t)" "uvm_inv t {r1, r2}"
      "\<forall>r'\<in>{r1, r2}. \<forall>x. vpn x < USERPAGES \<longrightarrow> pte_valid (mapping s r' (vpn x)) \<longrightarrow>
        pte_valid (mapping t r' (vpn x)) \<and> ubyte t r' x = ubyte s r' x"
    using vmfault_write_correct [OF s(1), of r1 0] v0 by force
  then show ?thesis using s v0 by (intro exI [of _ s] exI [of _ t] exI [of _ r1] exI [of _ r2] exI [of _ pa]) simp
qed

text \<open>
  C5: \<open>copyout\<close> writes exactly a prefix of the source bytes at the destination of the addressed space:
  every other mapped byte of that space and every byte of every other space keeps its value. It returns 0
  exactly when all bytes were written, and -1 when the next destination byte lies on a page that is not
  mapped writable. The invariant of the address spaces holds afterwards.
\<close>

theorem copyout_isolated:
  assumes "uvm_inv s R" and "r \<in> R" and "unat d + length src \<le> USERPAGES * 4096"
  shows "\<exists>res t k. copyout r d src s = Ok (res, t) \<and> uvm_inv t R
    \<and> (res = 0 \<and> k = length src
       \<or> res = - 1 \<and> k < length src \<and> \<not> writable_entry (mapping s r (vpn (d + of_nat k))))
    \<and> (\<forall>r'\<in>R. \<forall>x. unat x < USERPAGES * 4096 \<longrightarrow> pte_valid (mapping s r' (vpn x)) \<longrightarrow> ubyte t r' x
         = (if r' = r \<and> unat d \<le> unat x \<and> unat x < unat d + k then src ! (unat x - unat d) else ubyte s r' x))"
proof -
  obtain res t k where c: "copyout r d src s = Ok (res, t)" and w: "wrote s t R r d (take k src)"
    and e: "res = 0 \<and> k = length src \<or> res = - 1 \<and> k < length src \<and> \<not> writable_entry (mapping s r (vpn (d + of_nat k)))"
    using copyout_result [OF assms] by blast
  have k: "k \<le> length src" using e by auto
  have "ubyte t r' x = (if r' = r \<and> unat d \<le> unat x \<and> unat x < unat d + k then src ! (unat x - unat d) else ubyte s r' x)"
    if "r' \<in> R" "unat x < USERPAGES * 4096" "pte_valid (mapping s r' (vpn x))" for r' x
    using wroteD(3) [OF w that] k by auto
  then show ?thesis using c e wroteD(1) [OF w] by blast
qed

theorem copyout_isolated_witness:
  "\<exists>s t r1 r2. uvm_inv s {r1, r2} \<and> copyout r1 0 [42] s = Ok (0, t) \<and> ubyte s r1 0 = 0 \<and> ubyte t r1 0 = 42"
proof (rule demo_spaces)
  fix s r1 r2
  assume s: "uvm_inv s {r1, r2}" "pte_valid (mapping s r1 0)" "pte_writable (mapping s r1 0)" "ubyte s r1 0 = 0"
  have v0: "vpn 0 = 0" by (simp add: vpn_def)
  obtain res t k where t: "copyout r1 0 [42] s = Ok (res, t)"
      "res = 0 \<and> k = length [42 :: byte] \<or> res = - 1 \<and> k < length [42 :: byte] \<and> \<not> writable_entry (mapping s r1 (vpn (0 + of_nat k)))"
    and b: "\<forall>r'\<in>{r1, r2}. \<forall>x. unat x < USERPAGES * 4096 \<longrightarrow> pte_valid (mapping s r' (vpn x)) \<longrightarrow> ubyte t r' x
         = (if r' = r1 \<and> unat (0 :: 64 word) \<le> unat x \<and> unat x < unat (0 :: 64 word) + k then [42] ! (unat x - unat (0 :: 64 word)) else ubyte s r' x)"
    using copyout_isolated [OF s(1) insertI1, of 0 "[42]"] by (simp only: list.size) auto
  have res: "res = 0" "k = 1" using t(2) s(2,3) v0 by (auto simp: writable_entry_def)
  show ?thesis
    using s t(1) res b [rule_format, of r1 0] v0 by (intro exI [of _ s] exI [of _ t] exI [of _ r1] exI [of _ r2]) simp
qed

lemma copyout_ubytes:
  assumes inv: "uvm_inv s R" and r: "r \<in> R" and d: "unat d + length src \<le> USERPAGES * 4096"
    and c: "copyout r d src s = Ok (0, t)"
  shows "uvm_inv t R" and "mapped_range t r d (length src)" and "ubytes t r d (length src) = src"
proof -
  obtain k where w: "wrote s t R r d (take k src)" "range_all writable_entry s r d k" "k = length src"
    using copyout_result [OF inv r d] c by auto
  show "uvm_inv t R" by (rule wroteD(1) [OF w(1)])
  have m: "mapping t r n = mapping s r n" for n by (rule same_maps_mapping [OF wroteD(2) [OF w(1)] r])
  show v: "mapped_range t r d (length src)" using w(2,3) by (simp add: range_all_def m writable_entry_def)
  have "ubyte t r (d + of_nat i) = src ! i" if "i < length src" for i
  proof -
    have "unat (d + of_nat i) = unat d + i" using that d by (intro unat_add_of_nat) simp
    then show ?thesis using wroteD(3) [OF w(1) r, of "d + of_nat i"] v that d w(3) by (simp add: range_all_def m)
  qed
  then show "ubytes t r d (length src) = src" by (intro nth_equalityI) (simp_all add: ubytes_def)
qed

text \<open>
  C19: what \<open>copyout\<close> wrote, \<open>copyin\<close> reads back: after a successful \<open>copyout\<close> of any bytes to any place in
  user memory, a \<open>copyin\<close> of the same range returns those bytes.
\<close>

theorem copyin_copyout_roundtrip:
  assumes "uvm_inv s R" and "r \<in> R" and "unat d + length src \<le> USERPAGES * 4096"
    and "copyout r d src s = Ok (0, t)"
  shows "\<exists>u. copyin r [] d (length src) t = Ok (Some src, u)"
proof -
  note c = copyout_ubytes [OF assms]
  show ?thesis using copyin_result [OF c(1) assms(2,3), of "[]"] c(2,3) by auto
qed

theorem copyin_copyout_roundtrip_witness:
  "\<exists>s t u r1. copyout r1 0 [42] s = Ok (0, t) \<and> copyin r1 [] 0 1 t = Ok (Some [42], u)"
proof (rule demo_spaces)
  fix s r1 r2
  assume s: "uvm_inv s {r1, r2}" "pte_valid (mapping s r1 0)" "pte_writable (mapping s r1 0)"
  have "vpn 0 = 0" by (simp add: vpn_def)
  then obtain t where c: "copyout r1 0 [42] s = Ok (0, t)"
    using copyout_result [OF s(1) insertI1, of 0 "[42]"] s(2,3) by (auto simp: writable_entry_def)
  show ?thesis using copyin_copyout_roundtrip [OF s(1) insertI1 _ c] c by auto
qed

text \<open>
  C20: \<open>copyinstr\<close>, which copies a page at a time and searches each chunk for the NUL, computes the
  byte-at-a-time reference \<open>user_str\<close>: the bytes up to the first NUL within \<open>max\<close> bytes, and failure if the
  string is longer or reaches a page that is not a valid user page. It changes no state.
\<close>

theorem copyinstr_correct:
  assumes "pt_wf s R" and "r \<in> R"
  shows "copyinstr r [] d mx s = Ok (user_str s r d mx, s)"
  using copyinstr_user_str [OF assms, of "[]"] by (cases "user_str s r d mx") simp_all

theorem copyinstr_correct_witness:
  "\<exists>s r1. copyinstr r1 [] 0 5 s = Ok (Some [], s) \<and> copyinstr r1 [] 8192 5 s = Ok (None, s)"
proof (rule demo_spaces)
  fix s r1 r2
  assume s: "uvm_inv s {r1, r2}" "pte_valid (mapping s r1 0)" "mapping s r1 0 AND PTE_U \<noteq> 0" "ubyte s r1 0 = 0"
    "\<And>n. 0 < n \<Longrightarrow> n < 67108864 \<Longrightarrow> mapping s r1 n = 0"
  note wf = uvm_invD(2) [OF s(1)]
  have v: "vpn 0 = 0" "vpn 8192 = 2" by (simp_all add: vpn_def)
  have "PTE2PA (mapping s r1 0) \<noteq> 0" using page_store_found(2) [OF s(1) insertI1 _ s(2)] by simp
  then have "user_page s r1 0" "\<not> user_page s r1 8192" using s v by (simp_all add: user_page_def)
  then have "user_str s r1 0 5 = Some []" "user_str s r1 8192 5 = None"
    using s(4) by (simp_all add: numeral_eq_Suc)
  then show ?thesis using copyinstr_correct [OF wf insertI1, of 0 5] copyinstr_correct [OF wf insertI1, of 8192 5] by auto
qed

text \<open>
  C21: \<open>uvmalloc\<close> grows a space from \<open>oldsz\<close> to \<open>newsz\<close>: every page in between is mapped with the requested
  permissions to a page that was free and now holds zeroes. It fails (0) only when fewer than three free
  pages per new page were left, and then exactly the pages mapped before are mapped, unchanged. In both
  cases the invariant holds and every other mapping of every space is as before.
\<close>

theorem uvmalloc_correct:
  assumes "uvm_inv s R" and "r \<in> R" and "oldsz \<le> newsz" and "npages newsz \<le> USERPAGES"
    and "\<forall>i. npages oldsz \<le> i \<longrightarrow> i < npages newsz \<longrightarrow> \<not> pte_valid (mapping s r i)"
    and "PTE_R OR PTE_U OR xperm < 1024"
  shows "\<exists>res t. uvmalloc r oldsz newsz xperm s = Ok (res, t) \<and> uvm_inv t R
    \<and> (res = newsz \<and> (\<forall>i. npages oldsz \<le> i \<and> i < npages newsz \<longrightarrow> (\<exists>p\<in>free_set s.
           mapping t r i = leaf_pte p (PTE_R OR PTE_U OR xperm) \<and> bytes_at (pmem t) p 4096 = replicate 4096 0))
       \<or> res = 0 \<and> card (free_set s) < 3 * (npages newsz - npages oldsz)
         \<and> (\<forall>i<USERPAGES. pte_valid (mapping t r i) = pte_valid (mapping s r i)))
    \<and> (\<forall>r'\<in>R. \<forall>i<USERPAGES. pte_valid (mapping s r' i) \<longrightarrow> mapping t r' i = mapping s r' i)"
proof (rule uvmalloc_result [OF assms])
  let ?k = "npages newsz - npages oldsz"
  have le: "npages oldsz \<le> npages newsz" by (rule npages_mono [OF assms(3)])
  fix t assume u: "uvmalloc r oldsz newsz xperm s = Ok (newsz, t)"
    and g: "grows s t R r (npages oldsz) ?k (PTE_R OR PTE_U OR xperm)"
  have "mapping t r' i = mapping s r' i" if "r' \<in> R" "i < USERPAGES" "pte_valid (mapping s r' i)" for r' i
    using growsD(5) [OF g that(1), of i] that assms(5) le by auto
  then show ?thesis using u growsD(1,6) [OF g] le by (intro exI [of _ newsz] exI [of _ t]) auto
next
  fix j t assume u: "uvmalloc r oldsz newsz xperm s = Ok (0, t)" and j: "j < npages newsz - npages oldsz"
    and f: "grow_fails s t R r (npages oldsz) (npages oldsz) j (PTE_R OR PTE_U OR xperm)"
  have b: "npages oldsz + j \<le> USERPAGES" using j assms(4) by simp
  have "\<forall>i. npages oldsz \<le> i \<longrightarrow> i < npages oldsz + j \<longrightarrow> \<not> pte_valid (mapping s r i)" using assms(5) j by simp
  note E = grow_fails_effect [OF f assms(2) b this]
  have "card (free_set s) < 3 * (npages newsz - npages oldsz)" using E(2) j by simp
  then show ?thesis using u E(1) E(3) assms(2) by (intro exI [of _ 0] exI [of _ t]) simp
qed

theorem uvmalloc_correct_witness:
  "\<exists>s t r1. uvmalloc r1 0 4096 PTE_W s = Ok (4096, t) \<and> (\<exists>p\<in>free_set s.
     mapping t r1 0 = leaf_pte p (PTE_R OR PTE_U OR PTE_W) \<and> bytes_at (pmem t) p 4096 = replicate 4096 0)"
proof (rule demo_spaces)
  fix s r1 r2
  assume s: "uvm_inv s {r1, r2}" "\<And>n. n < 67108864 \<Longrightarrow> mapping s r2 n = 0" "3 \<le> card (free_set s)"
  have np: "npages 0 = 0" "npages 4096 = 1" by (simp_all add: npages_def)
  have "\<forall>i. npages 0 \<le> i \<longrightarrow> i < npages 4096 \<longrightarrow> \<not> pte_valid (mapping s r2 i)" using s(2) by (simp add: np)
  note U = uvmalloc_correct [OF s(1) insertI2 [OF singletonI] _ _ this, of PTE_W]
  have "\<not> card (free_set s) < 3 * (npages 4096 - npages 0)" using s(3) by (simp add: np)
  then obtain t where "uvmalloc r2 0 4096 PTE_W s = Ok (4096, t)"
      "\<forall>i. npages 0 \<le> i \<and> i < npages 4096 \<longrightarrow> (\<exists>p\<in>free_set s.
        mapping t r2 i = leaf_pte p (PTE_R OR PTE_U OR PTE_W) \<and> bytes_at (pmem t) p 4096 = replicate 4096 0)"
    using U by (simp add: np) blast
  then show ?thesis by (intro exI [of _ s] exI [of _ t] exI [of _ r2]) (simp add: np)
qed

text \<open>
  C30: a bad user pointer stops the kernel. \<open>copyin\<close>, unlike \<open>copyout\<close>, does not test the address against
  \<open>MAXVA\<close>: \<open>walkaddr\<close> answers 0 for such an address and the fall-back \<open>vmfault\<close> calls \<open>walk\<close>, which panics.
\<close>

theorem copyin_bad_address_panics:
  assumes "MAXVA \<le> srcva" and "0 < len"
  shows "copyin r dst srcva len s = Panic ''walk''"
proof -
  have m: "MAXVA \<le> PGROUNDDOWN srcva" by (rule PGROUNDDOWN_MAXVA [OF assms(1)])
  have "walkaddr r (PGROUNDDOWN srcva) s = Ok (0, s)" using m by (simp add: walkaddr_def)
  moreover have "vmfault r (PGROUNDDOWN srcva) False s = Panic ''walk''"
    using walk_bad_va [OF m] by (simp add: vmfault_def Let_def)
  ultimately show ?thesis using assms(2) by (simp add: copyin_simps Let_def)
qed

theorem copyin_bad_address_panics_witness:
  "copyin 0x87FFF000 [] 0xFFFFFFFFFFFFFFFF 1 small_machine = Panic ''walk''"
  by (rule copyin_bad_address_panics) simp_all

end
