(* ===== verification/Spinlock.thy ===== *)
theory Spinlock
  imports Xv6_Prelude
begin

text \<open>
  \<open>kernel/spinlock.c\<close>: spin locks and the nesting of interrupt disabling, on the part of the machine
  state they touch: which hart runs the code (\<open>r_tp\<close>), each hart's interrupt enable bit
  (\<open>sstatus.SIE\<close>), \<open>struct cpu\<close> of every hart and every spin lock of the kernel. The record is extended
  by the later components, and the operations here work on every extension.

  The atomic swap is one step. The loop of \<open>acquire\<close> around it does not end as long as the lock is held
  by somebody else, so in a state where it is held the outcome is \<open>Block\<close>. The second half of the theory
  takes the operations apart at the atomic accesses, interleaves any number of harts, and shows that at
  most one of them holds a lock. Names of locks (debugging strings) are not kept.
\<close>

section \<open>State\<close>

text \<open>
  Every spin lock of the kernel. The locks of the page allocator are part of its own state
  (\<open>Kalloc\<close>). A pipe is named by the address of its page, the sleep lock of a buffer or an inode by the
  index of its slot.
\<close>

datatype sleepid = Buf_lock nat | Inode_lock nat

datatype lockid = Pid_lock | Wait_lock | Proc_lock nat | Ticks_lock | Pr_lock | Cons_lock | Uart_lock
  | Disk_lock | Bcache_lock | Log_lock | Itable_lock | Ftable_lock | Pipe_lock addr | Shm_lock
  | Mbox_lock nat | Sleep_lock sleepid

record cpu =
  cproc :: "nat option"
  noff :: int
  intena :: bool

record spinlock =
  locked :: bool
  lkcpu :: "nat option"

record kharts =
  hart :: nat
  sie :: "nat \<Rightarrow> bool"
  cpus :: "nat \<Rightarrow> cpu"
  locks :: "lockid \<Rightarrow> spinlock"

abbreviation (input) NCPU :: nat where "NCPU \<equiv> 8"

definition free_lock :: spinlock where
  "free_lock = \<lparr>locked = False, lkcpu = None\<rparr>"

section \<open>Operations\<close>

definition intr_get :: "('z kharts_scheme, bool) kmon" where
  "intr_get = kgets (\<lambda>s. sie s (hart s))"

definition intr_on :: "('z kharts_scheme, unit) kmon" where
  "intr_on = kmodify (\<lambda>s. s\<lparr>sie := (sie s)(hart s := True)\<rparr>)"

definition intr_off :: "('z kharts_scheme, unit) kmon" where
  "intr_off = kmodify (\<lambda>s. s\<lparr>sie := (sie s)(hart s := False)\<rparr>)"

text \<open>\<open>cpuid\<close> and \<open>mycpu\<close>: the index of this hart's entry of \<open>cpus\<close>, which has \<open>NCPU\<close> elements.\<close>

definition cpuid :: "('z kharts_scheme, nat) kmon" where
  "cpuid = kgets hart"

definition mycpu :: "('z kharts_scheme, nat) kmon" where
  "mycpu = kbind cpuid (\<lambda>id. if id < NCPU then kret id else kub ''cpus'')"

definition cpu_set :: "nat \<Rightarrow> (cpu \<Rightarrow> cpu) \<Rightarrow> ('z kharts_scheme, unit) kmon" where
  "cpu_set c f = kmodify (\<lambda>s. s\<lparr>cpus := (cpus s)(c := f (cpus s c))\<rparr>)"

definition lock_set :: "lockid \<Rightarrow> (spinlock \<Rightarrow> spinlock) \<Rightarrow> ('z kharts_scheme, unit) kmon" where
  "lock_set lk f = kmodify (\<lambda>s. s\<lparr>locks := (locks s)(lk := f (locks s lk))\<rparr>)"

definition initlock :: "lockid \<Rightarrow> ('z kharts_scheme, unit) kmon" where
  "initlock lk =
     kbind (lock_set lk (\<lambda>l. l\<lparr>locked := False\<rparr>)) (\<lambda>_.
     lock_set lk (\<lambda>l. l\<lparr>lkcpu := None\<rparr>))"

definition push_off :: "('z kharts_scheme, unit) kmon" where
  "push_off =
     kbind intr_get (\<lambda>old.
     kbind intr_off (\<lambda>_.
     kbind mycpu (\<lambda>c.
     kbind (kgets (\<lambda>s. noff (cpus s c))) (\<lambda>n.
     kbind (if n = 0 then cpu_set c (\<lambda>p. p\<lparr>intena := old\<rparr>) else kret ()) (\<lambda>_.
     cpu_set c (\<lambda>p. p\<lparr>noff := noff p + 1\<rparr>))))))"

definition pop_off :: "('z kharts_scheme, unit) kmon" where
  "pop_off =
     kbind mycpu (\<lambda>c.
     kbind intr_get (\<lambda>on.
     if on then kpanic ''pop_off - interruptible'' else
     kbind (kgets (\<lambda>s. noff (cpus s c))) (\<lambda>n.
     if n < 1 then kpanic ''pop_off'' else
     kbind (cpu_set c (\<lambda>p. p\<lparr>noff := noff p - 1\<rparr>)) (\<lambda>_.
     kbind (kgets (\<lambda>s. noff (cpus s c) = 0 \<and> intena (cpus s c))) (\<lambda>last.
     if last then intr_on else kret ())))))"

definition holding :: "lockid \<Rightarrow> ('z kharts_scheme, bool) kmon" where
  "holding lk = kbind mycpu (\<lambda>c. kgets (\<lambda>s. locked (locks s lk) \<and> lkcpu (locks s lk) = Some c))"

text \<open>\<open>__sync_lock_test_and_set(&lk->locked, 1)\<close>: the old value.\<close>

definition test_and_set :: "lockid \<Rightarrow> ('z kharts_scheme, bool) kmon" where
  "test_and_set lk =
     kbind (kgets (\<lambda>s. locked (locks s lk))) (\<lambda>old.
     kbind (lock_set lk (\<lambda>l. l\<lparr>locked := True\<rparr>)) (\<lambda>_. kret old))"

definition acquire :: "lockid \<Rightarrow> ('z kharts_scheme, unit) kmon" where
  "acquire lk =
     kbind push_off (\<lambda>_.
     kbind (holding lk) (\<lambda>h.
     if h then kpanic ''acquire'' else
     kbind (test_and_set lk) (\<lambda>old.
     if old then kblock else
     kbind mycpu (\<lambda>c. lock_set lk (\<lambda>l. l\<lparr>lkcpu := Some c\<rparr>)))))"

definition release :: "lockid \<Rightarrow> ('z kharts_scheme, unit) kmon" where
  "release lk =
     kbind (holding lk) (\<lambda>h.
     if \<not> h then kpanic ''release'' else
     kbind (lock_set lk (\<lambda>l. l\<lparr>lkcpu := None\<rparr>)) (\<lambda>_.
     kbind (lock_set lk (\<lambda>l. l\<lparr>locked := False\<rparr>)) (\<lambda>_.
     pop_off)))"

section \<open>A single thread\<close>

text \<open>
  A hart is calm when it exists and its bookkeeping is consistent: with no lock held, \<open>intena\<close> is the
  current interrupt state, which every matched pair of \<open>push_off\<close> and \<open>pop_off\<close> leaves behind; with locks
  held, interrupts are off.
\<close>

definition calm :: "'z kharts_scheme \<Rightarrow> bool" where
  "calm s \<longleftrightarrow> hart s < NCPU \<and> 0 \<le> noff (cpus s (hart s))
     \<and> (noff (cpus s (hart s)) = 0 \<longrightarrow> intena (cpus s (hart s)) = sie s (hart s))
     \<and> (noff (cpus s (hart s)) \<noteq> 0 \<longrightarrow> \<not> sie s (hart s))"

text \<open>The state with \<open>lk\<close> taken by the running hart.\<close>

definition pushed_off :: "'z kharts_scheme \<Rightarrow> 'z kharts_scheme" where
  "pushed_off s = s\<lparr>sie := (sie s)(hart s := False),
     cpus := (cpus s)(hart s := (cpus s (hart s))\<lparr>noff := noff (cpus s (hart s)) + 1\<rparr>)\<rparr>"

definition with_lock :: "lockid \<Rightarrow> 'z kharts_scheme \<Rightarrow> 'z kharts_scheme" where
  "with_lock lk s = (pushed_off s)\<lparr>locks := (locks s)(lk := \<lparr>locked = True, lkcpu = Some (hart s)\<rparr>)\<rparr>"

lemmas spin_defs = intr_get_def intr_on_def intr_off_def cpuid_def mycpu_def cpu_set_def lock_set_def
  push_off_def pop_off_def holding_def test_and_set_def kbind_def

lemma push_off_calm: "calm s \<Longrightarrow> push_off s = Ok ((), pushed_off s)"
  by (cases s; cases "noff (cpus s (hart s)) = 0")
    (auto simp: spin_defs calm_def pushed_off_def fun_upd_idem_iff)

lemma pop_off_pushed:
  assumes "calm s"
  shows "pop_off (pushed_off s) = Ok ((), s)"
  using assms by (cases s; cases "noff (cpus s (hart s)) = 0"; cases "sie s (hart s)")
    (auto simp: spin_defs calm_def pushed_off_def fun_upd_idem_iff)

definition avail :: "lockid \<Rightarrow> 'z kharts_scheme \<Rightarrow> bool" where
  "avail lk s \<longleftrightarrow> locks s lk = free_lock"

lemma hart_with_lock [simp]: "hart (with_lock lk s) = hart s" "hart (pushed_off s) = hart s"
  by (simp_all add: with_lock_def pushed_off_def)

lemma calm_with_lock [simp]: "calm s \<Longrightarrow> calm (with_lock lk s)"
  by (simp add: calm_def with_lock_def pushed_off_def)

lemma avail_with_lock [simp]: "avail l (with_lock lk s) \<longleftrightarrow> l \<noteq> lk \<and> avail l s"
  by (simp add: avail_def with_lock_def pushed_off_def free_lock_def)

lemma with_lock_more [simp]:
  "kharts.more (with_lock lk s) = kharts.more s"
  "with_lock lk (s\<lparr>kharts.more := x\<rparr>) = (with_lock lk s)\<lparr>kharts.more := x\<rparr>"
  by (simp_all add: with_lock_def pushed_off_def)

lemma acquire_calm:
  assumes "calm s" and "avail lk s"
  shows "acquire lk s = Ok ((), with_lock lk s)"
  using assms by (simp add: acquire_def push_off_calm)
    (simp add: spin_defs with_lock_def pushed_off_def avail_def free_lock_def calm_def)

lemma release_with_lock:
  assumes "calm s" and "avail lk s"
  shows "release lk (with_lock lk s) = Ok ((), s)"
proof -
  have h: "hart s < NCPU" using assms(1) by (simp add: calm_def)
  have "(with_lock lk s)\<lparr>locks := (locks s)(lk := free_lock)\<rparr> = pushed_off s"
    using assms(2) by (simp add: with_lock_def pushed_off_def avail_def fun_upd_idem)
  then show ?thesis
    using h pop_off_pushed [OF assms(1)] by (simp add: release_def holding_def mycpu_def cpuid_def lock_set_def kbind_def)
      (simp add: with_lock_def free_lock_def)
qed

lemma acquire_twice:
  assumes "calm s" and "locks s lk = \<lparr>locked = True, lkcpu = Some (hart s)\<rparr>"
  shows "acquire lk s = Panic ''acquire''"
  using assms by (simp add: acquire_def push_off_calm)
    (simp add: spin_defs pushed_off_def calm_def)

lemma acquire_other_hart:
  assumes "calm s" and "locked (locks s lk)" and "lkcpu (locks s lk) \<noteq> Some (hart s)"
  shows "acquire lk s = Block"
  using assms by (simp add: acquire_def push_off_calm)
    (simp add: spin_defs pushed_off_def calm_def)

lemma release_not_held:
  assumes "hart s < NCPU" and "\<not> (locked (locks s lk) \<and> lkcpu (locks s lk) = Some (hart s))"
  shows "release lk s = Panic ''release''"
  using assms by (simp add: release_def spin_defs)

section \<open>Interleaved harts\<close>

text \<open>
  \<open>acquire\<close> and \<open>release\<close> cut at their accesses to shared memory. A hart is \<open>Out\<close> of a lock, is
  \<open>Spinning\<close> on it, has \<open>Won\<close> the swap, is \<open>Inside\<close> once it has recorded itself as the holder, and is
  \<open>Leaving\<close> once it has erased that record.
\<close>

datatype phase = Out | Spinning | Won | Inside | Leaving

definition acquire_begin :: "lockid \<Rightarrow> ('z kharts_scheme, bool) kmon" where
  "acquire_begin lk = kbind push_off (\<lambda>_. holding lk)"

definition acquire_own :: "lockid \<Rightarrow> ('z kharts_scheme, unit) kmon" where
  "acquire_own lk = kbind mycpu (\<lambda>c. lock_set lk (\<lambda>l. l\<lparr>lkcpu := Some c\<rparr>))"

definition release_disown :: "lockid \<Rightarrow> ('z kharts_scheme, bool) kmon" where
  "release_disown lk = kbind (holding lk) (\<lambda>h. kbind (lock_set lk (\<lambda>l. l\<lparr>lkcpu := None\<rparr>)) (\<lambda>_. kret h))"

definition release_end :: "lockid \<Rightarrow> ('z kharts_scheme, unit) kmon" where
  "release_end lk = kbind (lock_set lk (\<lambda>l. l\<lparr>locked := False\<rparr>)) (\<lambda>_. pop_off)"

lemma acquire_pieces:
  "acquire lk = kbind (acquire_begin lk) (\<lambda>h. if h then kpanic ''acquire'' else
     kbind (test_and_set lk) (\<lambda>old. if old then kblock else acquire_own lk))"
  by (auto simp: acquire_def acquire_begin_def acquire_own_def kbind_def fun_eq_iff split: outcome.splits)

lemma release_pieces:
  assumes "hart s < NCPU" and "locked (locks s lk)" and "lkcpu (locks s lk) = Some (hart s)"
  shows "release lk s = kbind (release_disown lk) (\<lambda>_. release_end lk) s"
  using assms by (simp add: release_def release_disown_def release_end_def holding_def mycpu_def cpuid_def lock_set_def kbind_def)

type_synonym phases = "nat \<Rightarrow> lockid \<Rightarrow> phase"

definition set_phase :: "nat \<Rightarrow> lockid \<Rightarrow> phase \<Rightarrow> phases \<Rightarrow> phases" where
  "set_phase h lk p ph = ph(h := (ph h)(lk := p))"

inductive lock_step :: "kharts \<times> phases \<Rightarrow> kharts \<times> phases \<Rightarrow> bool" where
  start: "h < NCPU \<Longrightarrow> ph h lk = Out \<Longrightarrow> acquire_begin lk (s\<lparr>hart := h\<rparr>) = Ok (False, t) \<Longrightarrow>
     lock_step (s, ph) (t, set_phase h lk Spinning ph)"
| spin: "ph h lk = Spinning \<Longrightarrow> test_and_set lk (s\<lparr>hart := h\<rparr>) = Ok (True, t) \<Longrightarrow>
     lock_step (s, ph) (t, ph)"
| win: "ph h lk = Spinning \<Longrightarrow> test_and_set lk (s\<lparr>hart := h\<rparr>) = Ok (False, t) \<Longrightarrow>
     lock_step (s, ph) (t, set_phase h lk Won ph)"
| own: "ph h lk = Won \<Longrightarrow> acquire_own lk (s\<lparr>hart := h\<rparr>) = Ok ((), t) \<Longrightarrow>
     lock_step (s, ph) (t, set_phase h lk Inside ph)"
| disown: "ph h lk = Inside \<Longrightarrow> release_disown lk (s\<lparr>hart := h\<rparr>) = Ok (True, t) \<Longrightarrow>
     lock_step (s, ph) (t, set_phase h lk Leaving ph)"
| finish: "ph h lk = Leaving \<Longrightarrow> release_end lk (s\<lparr>hart := h\<rparr>) = Ok ((), t) \<Longrightarrow>
     lock_step (s, ph) (t, set_phase h lk Out ph)"

inductive_cases lock_stepE: "lock_step (s, ph) c"

definition owns :: "phase \<Rightarrow> bool" where
  "owns p \<longleftrightarrow> p \<in> {Won, Inside, Leaving}"

definition entered :: "phases \<Rightarrow> nat \<Rightarrow> lockid set" where
  "entered ph h = {lk. ph h lk \<noteq> Out}"

text \<open>What holds of one lock and the phases of the harts at it.\<close>

definition lock_ok :: "spinlock \<Rightarrow> (nat \<Rightarrow> phase) \<Rightarrow> bool" where
  "lock_ok l q \<longleftrightarrow> (\<forall>h h'. owns (q h) \<longrightarrow> owns (q h') \<longrightarrow> h = h')
     \<and> (locked l \<longleftrightarrow> (\<exists>h. owns (q h))) \<and> (\<forall>h. lkcpu l = Some h \<longleftrightarrow> q h = Inside)"

text \<open>What holds of one hart and the set of locks it has entered.\<close>

definition irq_ok :: "kharts \<Rightarrow> nat \<Rightarrow> lockid set \<Rightarrow> bool" where
  "irq_ok s h E \<longleftrightarrow> finite E \<and> noff (cpus s h) = int (card E) \<and> (E \<noteq> {} \<longrightarrow> \<not> sie s h \<and> h < NCPU)"

definition lock_inv :: "kharts \<times> phases \<Rightarrow> bool" where
  "lock_inv = (\<lambda>(s, ph). (\<forall>lk. lock_ok (locks s lk) (\<lambda>h. ph h lk)) \<and> (\<forall>h. irq_ok s h (entered ph h)))"

text \<open>The state before any lock is taken.\<close>

definition boot_config :: "kharts \<times> phases \<Rightarrow> bool" where
  "boot_config = (\<lambda>(s, ph). (\<forall>lk. locks s lk = free_lock) \<and> (\<forall>h. noff (cpus s h) = 0) \<and> (\<forall>h lk. ph h lk = Out))"

lemma lock_inv_boot: "boot_config c \<Longrightarrow> lock_inv c"
  by (cases c) (simp add: boot_config_def lock_inv_def lock_ok_def irq_ok_def free_lock_def owns_def entered_def)

lemma entered_set_phase:
  "entered (set_phase h lk p ph) h' = (if h' = h then (if p = Out then entered ph h - {lk} else insert lk (entered ph h))
     else entered ph h')"
  by (auto simp: entered_def set_phase_def)

lemma set_phase_apply: "set_phase h lk p ph h' lk' = (if h' = h \<and> lk' = lk then p else ph h' lk')"
  by (simp add: set_phase_def)

lemma acquire_begin_effect:
  assumes "acquire_begin lk (s\<lparr>hart := h\<rparr>) = Ok (b, t)"
  shows "locks t = locks s" "sie t = (sie s)(h := False)" "h < NCPU"
    "noff (cpus t h') = (if h' = h then noff (cpus s h) + 1 else noff (cpus s h'))"
    "b = (locked (locks s lk) \<and> lkcpu (locks s lk) = Some h)"
  using assms by (auto simp: acquire_begin_def spin_defs split: if_splits)

lemma test_and_set_effect:
  assumes "test_and_set lk (s\<lparr>hart := h\<rparr>) = Ok (b, t)"
  shows "locks t = (locks s)(lk := (locks s lk)\<lparr>locked := True\<rparr>)" "sie t = sie s" "cpus t = cpus s"
    "b = locked (locks s lk)"
  using assms by (auto simp: spin_defs)

lemma acquire_own_effect:
  assumes "acquire_own lk (s\<lparr>hart := h\<rparr>) = Ok (x, t)"
  shows "locks t = (locks s)(lk := (locks s lk)\<lparr>lkcpu := Some h\<rparr>)" "sie t = sie s" "cpus t = cpus s"
  using assms by (auto simp: acquire_own_def spin_defs split: if_splits)

lemma release_disown_effect:
  assumes "release_disown lk (s\<lparr>hart := h\<rparr>) = Ok (b, t)"
  shows "locks t = (locks s)(lk := (locks s lk)\<lparr>lkcpu := None\<rparr>)" "sie t = sie s" "cpus t = cpus s"
    "b = (locked (locks s lk) \<and> lkcpu (locks s lk) = Some h)"
  using assms by (auto simp: release_disown_def spin_defs split: if_splits)

lemma release_end_effect:
  assumes "release_end lk (s\<lparr>hart := h\<rparr>) = Ok (x, t)"
  shows "locks t = (locks s)(lk := (locks s lk)\<lparr>locked := False\<rparr>)"
    "sie t = (if noff (cpus s h) = 1 \<and> intena (cpus s h) then (sie s)(h := True) else sie s)"
    "noff (cpus t h') = (if h' = h then noff (cpus s h) - 1 else noff (cpus s h'))" "1 \<le> noff (cpus s h)"
  using assms by (auto simp: release_end_def spin_defs split: if_splits)

lemma lock_ok_steps:
  assumes "lock_ok l q"
  shows "q h = Out \<Longrightarrow> lock_ok l (q(h := Spinning))"
    and "q h = Spinning \<Longrightarrow> \<not> locked l \<Longrightarrow> lock_ok (l\<lparr>locked := True\<rparr>) (q(h := Won))"
    and "q h = Won \<Longrightarrow> lock_ok (l\<lparr>lkcpu := Some h\<rparr>) (q(h := Inside))"
    and "q h = Inside \<Longrightarrow> lock_ok (l\<lparr>lkcpu := None\<rparr>) (q(h := Leaving))"
    and "q h = Leaving \<Longrightarrow> lock_ok (l\<lparr>locked := False\<rparr>) (q(h := Out))"
proof -
  have own: "\<And>h h'. owns (q h) \<Longrightarrow> owns (q h') \<Longrightarrow> h = h'" and lk: "locked l \<longleftrightarrow> (\<exists>h. owns (q h))"
    and cp: "\<And>h. lkcpu l = Some h \<longleftrightarrow> q h = Inside"
    using assms by (auto simp: lock_ok_def)
  show "q h = Out \<Longrightarrow> lock_ok l (q(h := Spinning))"
  proof -
    assume o: "q h = Out"
    have "owns ((q(h := Spinning)) h') = owns (q h')" "((q(h := Spinning)) h' = Inside) = (q h' = Inside)" for h'
      using o by (simp_all add: owns_def)
    then show ?thesis using assms by (simp add: lock_ok_def)
  qed
  show "q h = Spinning \<Longrightarrow> \<not> locked l \<Longrightarrow> lock_ok (l\<lparr>locked := True\<rparr>) (q(h := Won))"
    using lk cp by (auto simp: lock_ok_def owns_def)
  show "q h = Won \<Longrightarrow> lock_ok (l\<lparr>lkcpu := Some h\<rparr>) (q(h := Inside))"
    using own [of h] lk by (auto simp: lock_ok_def owns_def)
  show "q h = Inside \<Longrightarrow> lock_ok (l\<lparr>lkcpu := None\<rparr>) (q(h := Leaving))"
    using own [of h] lk by (auto simp: lock_ok_def owns_def)
  show "q h = Leaving \<Longrightarrow> lock_ok (l\<lparr>locked := False\<rparr>) (q(h := Out))"
    using own [of h] cp by (auto simp: lock_ok_def owns_def)
qed

lemma irq_ok_add:
  assumes "irq_ok s h E" and "lk \<notin> E" and "h < NCPU" and "\<not> sie t h" and "noff (cpus t h) = noff (cpus s h) + 1"
  shows "irq_ok t h (insert lk E)"
  using assms by (simp add: irq_ok_def)

lemma irq_ok_remove:
  assumes "irq_ok s h E" and "lk \<in> E" and "noff (cpus t h) = noff (cpus s h) - 1"
    and "noff (cpus s h) \<noteq> 1 \<Longrightarrow> sie t h = sie s h"
  shows "irq_ok t h (E - {lk})"
proof -
  have f: "finite E" and n: "noff (cpus s h) = int (card E)" and i: "\<not> sie s h" "h < NCPU"
    using assms(1,2) by (auto simp: irq_ok_def)
  have c: "card (E - {lk}) = card E - 1" "0 < card E" using f assms(2) by (auto simp: card_gt_0_iff)
  have "card E \<noteq> 1" if "E - {lk} \<noteq> {}" using that f c by (metis card_eq_0_iff diff_self_eq_0 finite_Diff)
  then show ?thesis using assms(3,4) f n i c by (auto simp: irq_ok_def)
qed

lemma irq_ok_cong:
  "irq_ok s h E \<Longrightarrow> sie t h = sie s h \<Longrightarrow> noff (cpus t h) = noff (cpus s h) \<Longrightarrow> irq_ok t h E"
  by (simp add: irq_ok_def)

text \<open>A step of hart \<open>h\<close> at lock \<open>lk\<close>.\<close>

lemma lock_invI:
  assumes "lock_inv (s, ph)" and "\<And>lk'. lk' \<noteq> lk \<Longrightarrow> locks t lk' = locks s lk'"
    and "\<And>h'. h' \<noteq> h \<Longrightarrow> sie t h' = sie s h' \<and> noff (cpus t h') = noff (cpus s h')"
    and "lock_ok (locks t lk) ((\<lambda>h. ph h lk)(h := p))" and "irq_ok t h (entered (set_phase h lk p ph) h)"
  shows "lock_inv (t, set_phase h lk p ph)"
proof -
  have "lock_ok (locks t lk') (\<lambda>h'. set_phase h lk p ph h' lk')" for lk'
  proof (cases "lk' = lk")
    case True
    have "(\<lambda>h'. set_phase h lk p ph h' lk) = (\<lambda>h. ph h lk)(h := p)" by (auto simp: set_phase_apply)
    then show ?thesis using True assms(4) by simp
  next
    case False
    then show ?thesis using assms(1,2) by (simp add: lock_inv_def set_phase_apply)
  qed
  moreover have "irq_ok t h' (entered (set_phase h lk p ph) h')" for h'
  proof (cases "h' = h")
    case True
    then show ?thesis using assms(5) by simp
  next
    case False
    then show ?thesis
      using assms(1) assms(3) [OF False] by (auto simp: lock_inv_def entered_set_phase intro: irq_ok_cong)
  qed
  ultimately show ?thesis by (simp add: lock_inv_def)
qed

lemma set_phase_same: "ph h lk = p \<Longrightarrow> set_phase h lk p ph = ph"
  by (auto simp: set_phase_def)

lemma lock_invD:
  assumes "lock_inv (s, ph)"
  shows "lock_ok (locks s lk) (\<lambda>h. ph h lk)" "irq_ok s h (entered ph h)"
  using assms by (simp_all add: lock_inv_def)

lemma entered_keep: "ph h lk \<noteq> Out \<Longrightarrow> p \<noteq> Out \<Longrightarrow> entered (set_phase h lk p ph) h = entered ph h"
  by (auto simp: entered_def set_phase_def)

lemma lock_inv_step:
  assumes "lock_step c d" and "lock_inv c"
  shows "lock_inv d"
  using assms
proof (induction rule: lock_step.induct)
  case (start h ph lk s t)
  note E = acquire_begin_effect [OF start(3)] and I = lock_invD [OF start(4)]
  have "lk \<notin> entered ph h" using start(2) by (simp add: entered_def)
  from irq_ok_add [OF I(2) this E(3)] show ?case
    using E I(1) start(2) by (intro lock_invI [OF start(4)]) (simp_all add: lock_ok_steps(1) entered_set_phase)
next
  case (spin ph h lk s t)
  note E = test_and_set_effect [OF spin(2)]
  have "lock_inv (t, set_phase h lk Spinning ph)"
    using E lock_invD [OF spin(3)] spin(1)
    by (intro lock_invI [OF spin(3)]) (simp_all add: entered_keep fun_upd_idem irq_ok_def)
  then show ?case using spin(1) by (simp add: set_phase_same)
next
  case (win ph h lk s t)
  note E = test_and_set_effect [OF win(2)]
  show ?case
    using E lock_invD [OF win(3)] win(1)
    by (intro lock_invI [OF win(3)]) (simp_all add: entered_keep lock_ok_steps(2) irq_ok_def)
next
  case (own ph h lk s t)
  note E = acquire_own_effect [OF own(2)]
  show ?case
    using E lock_invD [OF own(3)] own(1)
    by (intro lock_invI [OF own(3)]) (simp_all add: entered_keep lock_ok_steps(3) irq_ok_def)
next
  case (disown ph h lk s t)
  note E = release_disown_effect [OF disown(2)]
  show ?case
    using E lock_invD [OF disown(3)] disown(1)
    by (intro lock_invI [OF disown(3)]) (simp_all add: entered_keep lock_ok_steps(4) irq_ok_def)
next
  case (finish ph h lk s t)
  note E = release_end_effect [OF finish(2)] and I = lock_invD [OF finish(3)]
  have "lk \<in> entered ph h" using finish(1) by (simp add: entered_def)
  from irq_ok_remove [OF I(2) this] show ?case
    using E I(1) finish(1) by (intro lock_invI [OF finish(3)]) (simp_all add: lock_ok_steps(5) entered_set_phase)
qed

lemma lock_inv_reachable: "lock_step\<^sup>*\<^sup>* c d \<Longrightarrow> lock_inv c \<Longrightarrow> lock_inv d"
  by (induction rule: rtranclp_induct) (auto intro: lock_inv_step)

section \<open>Properties\<close>


definition two_harts :: kharts where
  "two_harts = \<lparr>hart = 0, sie = (\<lambda>_. True), cpus = (\<lambda>_. \<lparr>cproc = None, noff = 0, intena = False\<rparr>),
     locks = (\<lambda>_. free_lock)\<rparr>"




end
