(* ===== verification/Sched.thy ===== *)
theory Sched
  imports Spinlock Vm
begin

text \<open>
  The process table of \<open>kernel/proc.c\<close> and the part of it that needs no file: process allocation and
  release, page tables of processes, growing memory, sleeping and waking, killing, waiting, the scheduler's
  steps, and the copies that go to user or kernel memory.

  A process is named by its index in the table, \<open>None\<close> is a null pointer. Physical memory is the state of
  the page allocator (\<open>mem\<close>), and the trap frame of a process is read and written in its page. \<open>sched\<close>
  gives up the processor, so an operation that reaches it ends with \<open>Sleep\<close> and the state in which the other
  threads continue; the code that follows the switch is a definition of its own (\<open>sleep_end\<close>).
\<close>

unbundle bit_operations_syntax

section \<open>State\<close>

abbreviation (input) NPROC :: nat where "NPROC \<equiv> 64"
abbreviation (input) NOFILE :: nat where "NOFILE \<equiv> 16"

datatype chan = Chan_proc nat | Chan_ticks | Chan_cons | Chan_uart | Chan_disk | Chan_buf nat | Chan_log
  | Chan_pipe_read addr | Chan_pipe_write addr | Chan_mbox nat | Chan_sleeplock sleepid

datatype procstate = UNUSED | USED | SLEEPING | RUNNABLE | RUNNING | ZOMBIE

text \<open>Of \<open>struct context\<close> the two registers that \<open>allocproc\<close> sets.\<close>

record swcontext =
  ctx_ra :: uint64
  ctx_sp :: uint64

record proc =
  pstate :: procstate
  pchan :: "chan option"
  pkilled :: int
  xstate :: int
  pid :: int
  parent :: "nat option"
  kstack :: uint64
  sz :: uint64
  pagetable :: addr
  trapframe :: addr
  pcontext :: swcontext
  ofile :: "nat \<Rightarrow> nat option"
  cwd :: "nat option"
  pname :: "byte list"
  page_faults :: int

text \<open>Addresses the linker sets.\<close>

record ksyms =
  sym_trampoline :: addr
  sym_forkret :: addr
  sym_uservec :: addr
  sym_userret :: addr
  sym_usertrap :: addr
  sym_kernelvec :: addr

record kprocs = kharts +
  mem :: phys
  procs :: "nat \<Rightarrow> proc"
  nextpid :: int
  initproc :: "nat option"
  ksym :: ksyms

definition on_mem :: "(phys, 'a) kmon \<Rightarrow> ('z kprocs_scheme, 'a) kmon" where
  "on_mem = klift mem (\<lambda>m s. s\<lparr>mem := m\<rparr>)"

definition pget :: "nat \<Rightarrow> (proc \<Rightarrow> 'a) \<Rightarrow> ('z kprocs_scheme, 'a) kmon" where
  "pget p f = kgets (\<lambda>s. f (procs s p))"

definition pset :: "nat \<Rightarrow> (proc \<Rightarrow> proc) \<Rightarrow> ('z kprocs_scheme, unit) kmon" where
  "pset p f = kmodify (\<lambda>s. s\<lparr>procs := (procs s)(p := f (procs s p))\<rparr>)"

definition procinit :: "('z kprocs_scheme, unit) kmon" where
  "procinit =
     kbind (initlock Pid_lock) (\<lambda>_.
     kbind (initlock Wait_lock) (\<lambda>_.
     kfor (\<lambda>p. kbind (initlock (Proc_lock p)) (\<lambda>_.
       pset p (\<lambda>q. q\<lparr>pstate := UNUSED, kstack := KSTACK p\<rparr>))) [0..<NPROC]))"

section \<open>The current process\<close>

definition myproc :: "('z kprocs_scheme, nat option) kmon" where
  "myproc =
     kbind push_off (\<lambda>_.
     kbind mycpu (\<lambda>c.
     kbind (kgets (\<lambda>s. cproc (cpus s c))) (\<lambda>p.
     kbind pop_off (\<lambda>_. kret p))))"

text \<open>\<open>myproc()\<close> where the code goes on to use the pointer.\<close>

definition curproc :: "('z kprocs_scheme, nat) kmon" where
  "curproc = kbind myproc (\<lambda>p. case p of None \<Rightarrow> kub ''null process'' | Some i \<Rightarrow> kret i)"

definition allocpid :: "('z kprocs_scheme, int) kmon" where
  "allocpid =
     kbind (acquire Pid_lock) (\<lambda>_.
     kbind (kgets nextpid) (\<lambda>pid.
     kbind (kmodify (\<lambda>s. s\<lparr>nextpid := nextpid s + 1\<rparr>)) (\<lambda>_.
     kbind (release Pid_lock) (\<lambda>_. kret pid))))"

section \<open>Page tables of processes\<close>

definition proc_pagetable :: "nat \<Rightarrow> ('z kprocs_scheme, addr) kmon" where
  "proc_pagetable p =
     kbind (on_mem uvmcreate) (\<lambda>pt.
     if pt = 0 then kret 0 else
     kbind (kgets (\<lambda>s. sym_trampoline (ksym s))) (\<lambda>tramp.
     kbind (on_mem (mappages pt TRAMPOLINE PGSIZE tramp (PTE_R OR PTE_X))) (\<lambda>r.
     if r < 0 then kbind (on_mem (uvmfree pt 0)) (\<lambda>_. kret 0) else
     kbind (pget p trapframe) (\<lambda>tf.
     kbind (on_mem (mappages pt TRAPFRAME PGSIZE tf (PTE_R OR PTE_W))) (\<lambda>r.
     if r < 0 then
       kbind (on_mem (uvmunmap pt TRAMPOLINE 1 False)) (\<lambda>_.
       kbind (on_mem (uvmfree pt 0)) (\<lambda>_. kret 0))
     else kret pt)))))"

definition proc_freepagetable :: "addr \<Rightarrow> uint64 \<Rightarrow> ('z kprocs_scheme, unit) kmon" where
  "proc_freepagetable pt siz =
     kbind (on_mem (uvmunmap pt TRAMPOLINE 1 False)) (\<lambda>_.
     kbind (on_mem (uvmunmap pt TRAPFRAME 1 False)) (\<lambda>_.
     on_mem (uvmfree pt siz)))"

definition freeproc :: "nat \<Rightarrow> ('z kprocs_scheme, unit) kmon" where
  "freeproc p =
     kbind (pget p trapframe) (\<lambda>tf.
     kbind (if tf \<noteq> 0 then on_mem (kfree tf) else kret ()) (\<lambda>_.
     kbind (pset p (\<lambda>q. q\<lparr>trapframe := 0\<rparr>)) (\<lambda>_.
     kbind (pget p pagetable) (\<lambda>pt.
     kbind (pget p sz) (\<lambda>size.
     kbind (if pt \<noteq> 0 then proc_freepagetable pt size else kret ()) (\<lambda>_.
     pset p (\<lambda>q. q\<lparr>pagetable := 0, sz := 0, pid := 0, parent := None, pname := [], pchan := None,
       pkilled := 0, xstate := 0, pstate := UNUSED\<rparr>)))))))"

section \<open>Allocating a process\<close>

text \<open>The search of \<open>allocproc\<close>: the first unused entry, with its lock held.\<close>

fun find_unused :: "nat list \<Rightarrow> ('z kprocs_scheme, nat option) kmon" where
  "find_unused [] = kret None"
| "find_unused (p # ps) =
     kbind (acquire (Proc_lock p)) (\<lambda>_.
     kbind (pget p pstate) (\<lambda>st.
     if st = UNUSED then kret (Some p) else
     kbind (release (Proc_lock p)) (\<lambda>_. find_unused ps)))"

definition allocproc :: "('z kprocs_scheme, nat option) kmon" where
  "allocproc =
     kbind (find_unused [0..<NPROC]) (\<lambda>found.
     case found of None \<Rightarrow> kret None | Some p \<Rightarrow>
     kbind allocpid (\<lambda>n.
     kbind (pset p (\<lambda>q. q\<lparr>pid := n, pstate := USED\<rparr>)) (\<lambda>_.
     kbind (on_mem kalloc) (\<lambda>tf.
     kbind (pset p (\<lambda>q. q\<lparr>trapframe := tf\<rparr>)) (\<lambda>_.
     if tf = 0 then kbind (freeproc p) (\<lambda>_. kbind (release (Proc_lock p)) (\<lambda>_. kret None)) else
     kbind (proc_pagetable p) (\<lambda>pt.
     kbind (pset p (\<lambda>q. q\<lparr>pagetable := pt\<rparr>)) (\<lambda>_.
     if pt = 0 then kbind (freeproc p) (\<lambda>_. kbind (release (Proc_lock p)) (\<lambda>_. kret None)) else
     kbind (kgets (\<lambda>s. sym_forkret (ksym s))) (\<lambda>ra.
     kbind (pset p (\<lambda>q. q\<lparr>pcontext := \<lparr>ctx_ra = ra, ctx_sp = kstack q + PGSIZE\<rparr> \<rparr>)) (\<lambda>_.
     kret (Some p))))))))))"

definition growproc :: "32 word \<Rightarrow> ('z kprocs_scheme, int) kmon" where
  "growproc n =
     kbind curproc (\<lambda>p.
     kbind (pget p sz) (\<lambda>size.
     kbind (pget p pagetable) (\<lambda>pt.
     if 0 < sint n then
       kbind (on_mem (uvmalloc pt size (size + scast n) PTE_W)) (\<lambda>r.
       if r = 0 then kret (- 1) else kbind (pset p (\<lambda>q. q\<lparr>sz := r\<rparr>)) (\<lambda>_. kret 0))
     else if sint n < 0 then
       kbind (on_mem (uvmdealloc pt size (size + scast n))) (\<lambda>r.
       kbind (pset p (\<lambda>q. q\<lparr>sz := r\<rparr>)) (\<lambda>_. kret 0))
     else kbind (pset p (\<lambda>q. q\<lparr>sz := size\<rparr>)) (\<lambda>_. kret 0))))"

section \<open>Sleeping and waking\<close>

definition sched :: "('z kprocs_scheme, unit) kmon" where
  "sched =
     kbind curproc (\<lambda>p.
     kbind (holding (Proc_lock p)) (\<lambda>h.
     if \<not> h then kpanic ''sched p->lock'' else
     kbind mycpu (\<lambda>c.
     kbind (kgets (\<lambda>s. noff (cpus s c))) (\<lambda>n.
     if n \<noteq> 1 then kpanic ''sched locks'' else
     kbind (pget p pstate) (\<lambda>st.
     if st = RUNNING then kpanic ''sched RUNNING'' else
     kbind intr_get (\<lambda>on.
     if on then kpanic ''sched interruptible'' else ksleep))))))"

definition yield :: "('z kprocs_scheme, unit) kmon" where
  "yield =
     kbind curproc (\<lambda>p.
     kbind (acquire (Proc_lock p)) (\<lambda>_.
     kbind (pset p (\<lambda>q. q\<lparr>pstate := RUNNABLE\<rparr>)) (\<lambda>_.
     kbind sched (\<lambda>_. release (Proc_lock p)))))"

text \<open>What \<open>sleep\<close> does once the process runs again.\<close>

definition sleep_end :: "nat \<Rightarrow> lockid \<Rightarrow> ('z kprocs_scheme, unit) kmon" where
  "sleep_end p lk =
     kbind (pset p (\<lambda>q. q\<lparr>pchan := None\<rparr>)) (\<lambda>_.
     kbind (release (Proc_lock p)) (\<lambda>_. acquire lk))"

definition sleep :: "chan \<Rightarrow> lockid \<Rightarrow> ('z kprocs_scheme, unit) kmon" where
  "sleep ch lk =
     kbind curproc (\<lambda>p.
     kbind (acquire (Proc_lock p)) (\<lambda>_.
     kbind (release lk) (\<lambda>_.
     kbind (pset p (\<lambda>q. q\<lparr>pchan := Some ch\<rparr>)) (\<lambda>_.
     kbind (pset p (\<lambda>q. q\<lparr>pstate := SLEEPING\<rparr>)) (\<lambda>_.
     kbind sched (\<lambda>_. sleep_end p lk))))))"

text \<open>The channel is a pointer and may be null (the parent of an orphan); nobody sleeps on null.\<close>

fun wakeup_loop :: "chan option \<Rightarrow> nat list \<Rightarrow> ('z kprocs_scheme, unit) kmon" where
  "wakeup_loop ch [] = kret ()"
| "wakeup_loop ch (p # ps) =
     kbind myproc (\<lambda>me.
     kbind (if me \<noteq> Some p then
       kbind (acquire (Proc_lock p)) (\<lambda>_.
       kbind (pget p (\<lambda>q. pstate q = SLEEPING \<and> pchan q = ch)) (\<lambda>hit.
       kbind (if hit then pset p (\<lambda>q. q\<lparr>pstate := RUNNABLE\<rparr>) else kret ()) (\<lambda>_.
       release (Proc_lock p)))) else kret ()) (\<lambda>_.
     wakeup_loop ch ps))"

definition wakeup :: "chan option \<Rightarrow> ('z kprocs_scheme, unit) kmon" where
  "wakeup ch = wakeup_loop ch [0..<NPROC]"

section \<open>Killing\<close>

fun kkill_loop :: "int \<Rightarrow> nat list \<Rightarrow> ('z kprocs_scheme, int) kmon" where
  "kkill_loop n [] = kret (- 1)"
| "kkill_loop n (p # ps) =
     kbind (acquire (Proc_lock p)) (\<lambda>_.
     kbind (pget p pid) (\<lambda>m.
     if m = n then
       kbind (pset p (\<lambda>q. q\<lparr>pkilled := 1\<rparr>)) (\<lambda>_.
       kbind (pget p pstate) (\<lambda>st.
       kbind (if st = SLEEPING then pset p (\<lambda>q. q\<lparr>pstate := RUNNABLE\<rparr>) else kret ()) (\<lambda>_.
       kbind (release (Proc_lock p)) (\<lambda>_. kret 0))))
     else kbind (release (Proc_lock p)) (\<lambda>_. kkill_loop n ps)))"

definition kkill :: "int \<Rightarrow> ('z kprocs_scheme, int) kmon" where
  "kkill n = kkill_loop n [0..<NPROC]"

definition setkilled :: "nat \<Rightarrow> ('z kprocs_scheme, unit) kmon" where
  "setkilled p =
     kbind (acquire (Proc_lock p)) (\<lambda>_.
     kbind (pset p (\<lambda>q. q\<lparr>pkilled := 1\<rparr>)) (\<lambda>_.
     release (Proc_lock p)))"

definition killed :: "nat \<Rightarrow> ('z kprocs_scheme, bool) kmon" where
  "killed p =
     kbind (acquire (Proc_lock p)) (\<lambda>_.
     kbind (pget p pkilled) (\<lambda>k.
     kbind (release (Proc_lock p)) (\<lambda>_. kret (k \<noteq> 0))))"

fun find_pid :: "int \<Rightarrow> nat list \<Rightarrow> ('z kprocs_scheme, nat option) kmon" where
  "find_pid n [] = kbind (release Pid_lock) (\<lambda>_. kret None)"
| "find_pid n (p # ps) =
     kbind (pget p pid) (\<lambda>m.
     if m = n then kbind (release Pid_lock) (\<lambda>_. kret (Some p)) else find_pid n ps)"

definition find_proc_by_pid :: "int \<Rightarrow> ('z kprocs_scheme, nat option) kmon" where
  "find_proc_by_pid n = kbind (acquire Pid_lock) (\<lambda>_. find_pid n [0..<NPROC])"

section \<open>Parents and children\<close>

definition reparent :: "nat \<Rightarrow> ('z kprocs_scheme, unit) kmon" where
  "reparent p =
     kfor (\<lambda>pp.
       kbind (pget pp parent) (\<lambda>q.
       if q = Some p then
         kbind (kgets initproc) (\<lambda>ini.
         kbind (pset pp (\<lambda>r. r\<lparr>parent := ini\<rparr>)) (\<lambda>_.
         wakeup (map_option Chan_proc ini)))
       else kret ())) [0..<NPROC]"

definition bytes32 :: "32 word \<Rightarrow> byte list" where
  "bytes32 w = map (\<lambda>i. ucast (drop_bit (8 * i) w)) [0..<4]"

text \<open>One scan of the table in \<open>kwait\<close>: a result to return, or whether the process has children.\<close>

fun kwait_scan :: "nat \<Rightarrow> uint64 \<Rightarrow> bool \<Rightarrow> nat list \<Rightarrow> ('z kprocs_scheme, int + bool) kmon" where
  "kwait_scan p a havekids [] = kret (Inr havekids)"
| "kwait_scan p a havekids (pp # ps) =
     kbind (pget pp parent) (\<lambda>par.
     if par \<noteq> Some p then kwait_scan p a havekids ps else
     kbind (acquire (Proc_lock pp)) (\<lambda>_.
     kbind (pget pp pstate) (\<lambda>st.
     if st = ZOMBIE then
       kbind (pget pp pid) (\<lambda>n.
       kbind (pget pp xstate) (\<lambda>x.
       kbind (pget p pagetable) (\<lambda>pt.
       kbind (if a \<noteq> 0 then on_mem (copyout pt a (bytes32 (word_of_int x))) else kret 0) (\<lambda>r.
       if r < 0 then
         kbind (release (Proc_lock pp)) (\<lambda>_.
         kbind (release Wait_lock) (\<lambda>_. kret (Inl (- 1))))
       else
         kbind (freeproc pp) (\<lambda>_.
         kbind (release (Proc_lock pp)) (\<lambda>_.
         kbind (release Wait_lock) (\<lambda>_. kret (Inl n))))))))
     else kbind (release (Proc_lock pp)) (\<lambda>_. kwait_scan p a True ps))))"

text \<open>
  The body of the loop of \<open>kwait\<close>, with \<open>wait_lock\<close> held. When it sleeps, the process runs it again after
  \<open>sleep_end\<close>.
\<close>

definition kwait_round :: "nat \<Rightarrow> uint64 \<Rightarrow> ('z kprocs_scheme, int) kmon" where
  "kwait_round p a =
     kbind (kwait_scan p a False [0..<NPROC]) (\<lambda>r.
     case r of Inl x \<Rightarrow> kret x | Inr havekids \<Rightarrow>
     kbind (if havekids then killed p else kret True) (\<lambda>stop.
     if stop then kbind (release Wait_lock) (\<lambda>_. kret (- 1)) else
     kbind (sleep (Chan_proc p) Wait_lock) (\<lambda>_. kblock)))"

definition kwait :: "uint64 \<Rightarrow> ('z kprocs_scheme, int) kmon" where
  "kwait a = kbind curproc (\<lambda>p. kbind (acquire Wait_lock) (\<lambda>_. kwait_round p a))"

text \<open>The end of \<open>kexit\<close>, with \<open>wait_lock\<close> held: the process becomes a zombie and never runs again.\<close>

definition kexit_switch :: "nat \<Rightarrow> int \<Rightarrow> ('z kprocs_scheme, unit) kmon" where
  "kexit_switch p status =
     kbind (acquire (Proc_lock p)) (\<lambda>_.
     kbind (pset p (\<lambda>q. q\<lparr>xstate := status\<rparr>)) (\<lambda>_.
     kbind (pset p (\<lambda>q. q\<lparr>pstate := ZOMBIE\<rparr>)) (\<lambda>_.
     kbind (release Wait_lock) (\<lambda>_.
     kbind sched (\<lambda>_. kpanic ''zombie exit'')))))"

section \<open>The scheduler\<close>

text \<open>
  The body of the scheduler's inner loop for one entry, up to the switch (\<open>True\<close>: a process was chosen and
  runs now, with its lock held), and after the switch back.
\<close>

definition scheduler_pick :: "nat \<Rightarrow> ('z kprocs_scheme, bool) kmon" where
  "scheduler_pick p =
     kbind (acquire (Proc_lock p)) (\<lambda>_.
     kbind (pget p pstate) (\<lambda>st.
     if st = RUNNABLE then
       kbind (pset p (\<lambda>q. q\<lparr>pstate := RUNNING\<rparr>)) (\<lambda>_.
       kbind mycpu (\<lambda>c.
       kbind (cpu_set c (\<lambda>x. x\<lparr>cproc := Some p\<rparr>)) (\<lambda>_. kret True)))
     else kbind (release (Proc_lock p)) (\<lambda>_. kret False)))"

definition scheduler_back :: "nat \<Rightarrow> ('z kprocs_scheme, unit) kmon" where
  "scheduler_back p =
     kbind mycpu (\<lambda>c.
     kbind (cpu_set c (\<lambda>x. x\<lparr>cproc := None\<rparr>)) (\<lambda>_. release (Proc_lock p)))"

text \<open>The start of a round: interrupts on for a moment, then the first runnable entry of those given.\<close>

fun scheduler_scan :: "nat list \<Rightarrow> ('z kprocs_scheme, nat option) kmon" where
  "scheduler_scan [] = kret None"
| "scheduler_scan (p # ps) =
     kbind (scheduler_pick p) (\<lambda>ran. if ran then kret (Some p) else scheduler_scan ps)"

definition scheduler_round :: "('z kprocs_scheme, nat option) kmon" where
  "scheduler_round = kbind intr_on (\<lambda>_. kbind intr_off (\<lambda>_. scheduler_scan [0..<NPROC]))"

section \<open>Copies to and from user or kernel memory\<close>

text \<open>
  The target of \<open>either_copyout\<close> and the source of \<open>either_copyin\<close>: a user address, or a buffer of the
  kernel. Bytes for a kernel buffer are handed to the caller, who owns the buffer.
\<close>

datatype kbuf = User_addr uint64 | Kernel_buf "byte list"

definition either_copyout :: "kbuf \<Rightarrow> byte list \<Rightarrow> ('z kprocs_scheme, int) kmon" where
  "either_copyout dst src =
     kbind curproc (\<lambda>p.
     case dst of User_addr va \<Rightarrow> kbind (pget p pagetable) (\<lambda>pt. on_mem (copyout pt va src))
     | Kernel_buf _ \<Rightarrow> kret 0)"

definition either_copyin :: "kbuf \<Rightarrow> nat \<Rightarrow> ('z kprocs_scheme, byte list option) kmon" where
  "either_copyin src len =
     kbind curproc (\<lambda>p.
     case src of User_addr va \<Rightarrow> kbind (pget p pagetable) (\<lambda>pt. on_mem (copyin pt [] va len))
     | Kernel_buf bs \<Rightarrow> if len \<le> length bs then kret (Some (take len bs)) else kub ''kernel buffer'')"

text \<open>The result and the bytes the destination received, also when the copy failed.\<close>

definition either_copyin_to :: "kbuf \<Rightarrow> nat \<Rightarrow> ('z kprocs_scheme, int \<times> byte list) kmon" where
  "either_copyin_to src len =
     kbind curproc (\<lambda>p.
     case src of User_addr va \<Rightarrow> kbind (pget p pagetable) (\<lambda>pt. on_mem (copyin_to pt [] va len))
     | Kernel_buf bs \<Rightarrow> if len \<le> length bs then kret (0, take len bs) else kub ''kernel buffer'')"

end
