(* ===== verification/Sched_Facts.thy ===== *)
theory Sched_Facts
  imports Sched
begin

text \<open>
  The operations of \<open>Sched\<close> on a hart that follows the locking rules, in closed form: \<open>wakeup\<close> as one
  update of the process table, \<open>sleep\<close> as the state in which the processor is given up. The steps of the
  scheduler are then put together into a step relation of any number of harts, whose invariant is that a
  process runs on at most one of them.
\<close>

section \<open>Updates under a lock\<close>

lemma with_lock_fields [simp]:
  "mem (with_lock lk s) = mem s" "procs (with_lock lk s) = procs s" "nextpid (with_lock lk s) = nextpid s"
  "initproc (with_lock lk s) = initproc s" "ksym (with_lock lk s) = ksym s"
  by (simp_all add: with_lock_def pushed_off_def)

lemma with_lock_updates [simp]:
  "mem_update f (with_lock lk s) = with_lock lk (mem_update f s)"
  "procs_update g (with_lock lk s) = with_lock lk (procs_update g s)"
  "nextpid_update h (with_lock lk s) = with_lock lk (nextpid_update h s)"
  "initproc_update i (with_lock lk s) = with_lock lk (initproc_update i s)"
  by (simp_all add: with_lock_def pushed_off_def)

lemma calm_updates [simp]:
  "calm (mem_update f s) = calm s" "calm (procs_update g s) = calm s"
  "calm (nextpid_update h s) = calm s" "calm (initproc_update i s) = calm s"
  by (simp_all add: calm_def)

lemma avail_updates [simp]:
  "avail lk (mem_update f s) = avail lk s" "avail lk (procs_update g s) = avail lk s"
  "avail lk (nextpid_update h s) = avail lk s" "avail lk (initproc_update i s) = avail lk s"
  by (simp_all add: avail_def)

lemma with_lock_swap: "a \<noteq> b \<Longrightarrow> with_lock a (with_lock b s) = with_lock b (with_lock a s)"
  by (simp add: with_lock_def pushed_off_def fun_upd_twist)

lemma release_outer:
  assumes "calm s" and "avail lk s" and "l \<noteq> lk"
  shows "release lk (with_lock l (with_lock lk s)) = Ok ((), with_lock l s)"
  using assms release_with_lock [of "with_lock l s" lk] by (simp add: with_lock_swap)

lemma acquire_with_lock: "calm s \<Longrightarrow> avail lk s \<Longrightarrow> kbind (acquire lk) f s = f () (with_lock lk s)"
  by (simp add: acquire_calm)

section \<open>The current process\<close>

definition cur :: "'z kprocs_scheme \<Rightarrow> nat option" where
  "cur s = cproc (cpus s (hart s))"

lemma cur_simps [simp]:
  "cur (with_lock lk s) = cur s" "cur (mem_update f s) = cur s" "cur (procs_update g s) = cur s"
  "cur (nextpid_update h s) = cur s" "cur (initproc_update i s) = cur s"
  by (simp_all add: cur_def with_lock_def pushed_off_def)

lemma myproc_calm: "calm s \<Longrightarrow> myproc s = Ok (cur s, s)"
proof -
  assume c: "calm s"
  have "hart s < NCPU" using c by (simp add: calm_def)
  then show ?thesis
    using push_off_calm [OF c] pop_off_pushed [OF c]
    by (simp add: myproc_def mycpu_def cpuid_def) (simp add: cur_def pushed_off_def)
qed

lemma curproc_calm: "calm s \<Longrightarrow> cur s = Some p \<Longrightarrow> curproc s = Ok (p, s)"
  by (simp add: curproc_def myproc_calm)

lemma pget_apply [simp, kmon]: "pget p f s = Ok (f (procs s p), s)"
  by (simp add: pget_def)

lemma pset_apply [simp, kmon]: "pset p f s = Ok ((), s\<lparr>procs := (procs s)(p := f (procs s p))\<rparr>)"
  by (simp add: pset_def)

lemma on_mem_Ok: "m (mem s) = Ok (x, t) \<Longrightarrow> on_mem m s = Ok (x, s\<lparr>mem := t\<rparr>)"
  by (simp add: on_mem_def)

section \<open>Waking and killing\<close>

definition woken :: "chan option \<Rightarrow> nat option \<Rightarrow> nat set \<Rightarrow> (nat \<Rightarrow> proc) \<Rightarrow> nat \<Rightarrow> proc" where
  "woken ch me P ps = (\<lambda>p. if p \<in> P \<and> me \<noteq> Some p \<and> pstate (ps p) = SLEEPING \<and> pchan (ps p) = ch
     then (ps p)\<lparr>pstate := RUNNABLE\<rparr> else ps p)"

lemma wakeup_loop_eq:
  assumes "calm s" and "\<forall>p\<in>set ps. cur s \<noteq> Some p \<longrightarrow> avail (Proc_lock p) s"
  shows "wakeup_loop ch ps s = Ok ((), s\<lparr>procs := woken ch (cur s) (set ps) (procs s)\<rparr>)"
  using assms
proof (induction ps arbitrary: s)
  case Nil
  then show ?case by (simp add: woken_def)
next
  case (Cons p ps)
  let ?hit = "cur s \<noteq> Some p \<and> pstate (procs s p) = SLEEPING \<and> pchan (procs s p) = ch"
  let ?t = "if ?hit then s\<lparr>procs := (procs s)(p := (procs s p)\<lparr>pstate := RUNNABLE\<rparr>)\<rparr> else s"
  have "wakeup_loop ch (p # ps) s = wakeup_loop ch ps ?t"
    using Cons.prems by (auto simp: myproc_calm acquire_calm release_with_lock)
  also have "\<dots> = Ok ((), ?t\<lparr>procs := woken ch (cur ?t) (set ps) (procs ?t)\<rparr>)"
    using Cons.prems by (intro Cons.IH) auto
  also have "?t\<lparr>procs := woken ch (cur ?t) (set ps) (procs ?t)\<rparr>
      = s\<lparr>procs := woken ch (cur s) (set (p # ps)) (procs s)\<rparr>"
    by (cases ?hit) (auto simp: woken_def intro!: arg_cong [where f = "\<lambda>x. s\<lparr>procs := x\<rparr>"])
  finally show ?case .
qed

definition quiet :: "'z kprocs_scheme \<Rightarrow> bool" where
  "quiet s \<longleftrightarrow> calm s \<and> (\<forall>p<NPROC. avail (Proc_lock p) s)"

lemma quiet_simps [simp]:
  "quiet (mem_update f s) = quiet s" "quiet (procs_update g s) = quiet s"
  "quiet (nextpid_update h s) = quiet s" "quiet (initproc_update i s) = quiet s"
  by (simp_all add: quiet_def)

lemma quiet_with_lock: "quiet s \<Longrightarrow> (\<And>p. lk \<noteq> Proc_lock p) \<Longrightarrow> quiet (with_lock lk s)"
  by (auto simp: quiet_def)

lemma quietD: "quiet s \<Longrightarrow> calm s" "quiet s \<Longrightarrow> p < NPROC \<Longrightarrow> avail (Proc_lock p) s"
  by (simp_all add: quiet_def)

abbreviation woken_up :: "chan option \<Rightarrow> 'z kprocs_scheme \<Rightarrow> 'z kprocs_scheme" where
  "woken_up ch s \<equiv> s\<lparr>procs := woken ch (cur s) {..<NPROC} (procs s)\<rparr>"

lemma wakeup_eq: "quiet s \<Longrightarrow> wakeup ch s = Ok ((), woken_up ch s)"
  unfolding wakeup_def by (subst wakeup_loop_eq) (auto simp: quiet_def lessThan_atLeast0)

lemma killed_eq: "calm s \<Longrightarrow> avail (Proc_lock p) s \<Longrightarrow> killed p s = Ok (pkilled (procs s p) \<noteq> 0, s)"
  by (simp add: killed_def acquire_calm release_with_lock)

lemma setkilled_eq:
  "calm s \<Longrightarrow> avail (Proc_lock p) s \<Longrightarrow>
     setkilled p s = Ok ((), s\<lparr>procs := (procs s)(p := (procs s p)\<lparr>pkilled := 1\<rparr>)\<rparr>)"
  by (simp add: setkilled_def acquire_calm release_with_lock)

definition asleep :: "chan \<Rightarrow> nat \<Rightarrow> 'z kprocs_scheme \<Rightarrow> 'z kprocs_scheme" where
  "asleep ch p s = s\<lparr>procs := (procs s)(p := (procs s p)\<lparr>pchan := Some ch, pstate := SLEEPING\<rparr>)\<rparr>"

lemma sched_sleeps:
  assumes "calm s" and "noff (cpus s (hart s)) = 0" and "cur s = Some p" and "pstate (procs s p) \<noteq> RUNNING"
  shows "sched (with_lock (Proc_lock p) s) = Sleep (with_lock (Proc_lock p) s)"
proof -
  let ?t = "with_lock (Proc_lock p) s"
  have "curproc ?t = Ok (p, ?t)" using assms by (simp add: curproc_calm)
  moreover have "hart s < NCPU" using assms(1) by (simp add: calm_def)
  moreover have "locks ?t (Proc_lock p) = \<lparr>locked = True, lkcpu = Some (hart s)\<rparr>" "noff (cpus ?t (hart s)) = 1"
    "\<not> sie ?t (hart s)" using assms(2) by (simp_all add: with_lock_def pushed_off_def)
  ultimately show ?thesis
    using assms(4) by (simp add: sched_def holding_def mycpu_def cpuid_def intr_get_def)
qed

text \<open>
  Sleeping with exactly the condition lock held: the state left behind has the process marked asleep on the
  channel, the condition lock free, and only the process's own lock still held.
\<close>

lemma sleep_eq:
  assumes "calm s" and "noff (cpus s (hart s)) = 0" and "cur s = Some p" and "avail lk s"
    and "avail (Proc_lock p) s" and "lk \<noteq> Proc_lock p"
  shows "sleep ch lk (with_lock lk s) = Sleep (with_lock (Proc_lock p) (asleep ch p s))"
proof -
  have "sched (with_lock (Proc_lock p) (asleep ch p s)) = Sleep (with_lock (Proc_lock p) (asleep ch p s))"
    using assms by (intro sched_sleeps) (simp_all add: asleep_def)
  then show ?thesis
    using assms by (simp add: sleep_def curproc_calm acquire_calm release_outer)
      (simp add: asleep_def)
qed

section \<open>Switching\<close>

definition set_cur :: "nat option \<Rightarrow> 'z kprocs_scheme \<Rightarrow> 'z kprocs_scheme" where
  "set_cur x s = s\<lparr>cpus := (cpus s)(hart s := (cpus s (hart s))\<lparr>cproc := x\<rparr>)\<rparr>"

lemma cpu_update_swap: "(c :: cpu)\<lparr>noff := n, cproc := x\<rparr> = c\<lparr>cproc := x, noff := n\<rparr>"
  by (cases c) simp

lemma set_cur_with_lock: "set_cur x (with_lock lk s) = with_lock lk (set_cur x s)"
  by (cases s) (simp add: set_cur_def with_lock_def pushed_off_def cpu_update_swap)

lemma set_cur_simps [simp]:
  "calm (set_cur x s) = calm s" "avail lk (set_cur x s) = avail lk s" "procs (set_cur x s) = procs s"
  "hart (set_cur x s) = hart s" "locks (set_cur x s) = locks s" "sie (set_cur x s) = sie s"
  by (simp_all add: set_cur_def calm_def avail_def)

lemma cpu_set_cur: "cpu_set (hart s) (\<lambda>k. k\<lparr>cproc := x\<rparr>) s = Ok ((), set_cur x s)"
  by (simp add: cpu_set_def set_cur_def)

lemma scheduler_back_eq:
  assumes "calm s" and "avail (Proc_lock p) s"
  shows "scheduler_back p (with_lock (Proc_lock p) s) = Ok ((), set_cur None s)"
proof -
  have "hart s < NCPU" using assms(1) by (simp add: calm_def)
  then show ?thesis
    using assms release_with_lock [of "set_cur None s" "Proc_lock p"]
      cpu_set_cur [of "with_lock (Proc_lock p) s"]
    by (simp add: scheduler_back_def mycpu_def cpuid_def set_cur_with_lock)
qed

lemma scheduler_pick_eq:
  assumes "calm s" and "avail (Proc_lock p) s"
  shows "scheduler_pick p s = (if pstate (procs s p) = RUNNABLE
    then Ok (True, with_lock (Proc_lock p) (set_cur (Some p) (s\<lparr>procs := (procs s)(p := (procs s p)\<lparr>pstate := RUNNING\<rparr>)\<rparr>)))
    else Ok (False, s))"
proof -
  have "hart s < NCPU" using assms(1) by (simp add: calm_def)
  then show ?thesis
    using assms cpu_set_cur [of "with_lock (Proc_lock p) (s\<lparr>procs := (procs s)(p := (procs s p)\<lparr>pstate := RUNNING\<rparr>)\<rparr>)"]
    by (simp add: scheduler_pick_def acquire_calm release_with_lock mycpu_def cpuid_def set_cur_with_lock)
qed

lemma yield_eq:
  assumes "calm s" and "noff (cpus s (hart s)) = 0" and "cur s = Some p" and "avail (Proc_lock p) s"
  shows "yield s = Sleep (with_lock (Proc_lock p) (s\<lparr>procs := (procs s)(p := (procs s p)\<lparr>pstate := RUNNABLE\<rparr>)\<rparr>))"
  using assms sched_sleeps [of "s\<lparr>procs := (procs s)(p := (procs s p)\<lparr>pstate := RUNNABLE\<rparr>)\<rparr>" p]
  by (simp add: yield_def curproc_calm acquire_calm)

lemma kexit_switch_eq:
  assumes "calm s" and "noff (cpus s (hart s)) = 0" and "cur s = Some p" and "avail Wait_lock s" and "avail (Proc_lock p) s"
  shows "kexit_switch p st (with_lock Wait_lock s)
    = Sleep (with_lock (Proc_lock p) (s\<lparr>procs := (procs s)(p := (procs s p)\<lparr>xstate := st, pstate := ZOMBIE\<rparr>)\<rparr>))"
  using assms sched_sleeps [of "s\<lparr>procs := (procs s)(p := (procs s p)\<lparr>xstate := st, pstate := ZOMBIE\<rparr>)\<rparr>" p]
  by (simp add: kexit_switch_def acquire_calm release_outer)

definition kill_entry :: "nat \<Rightarrow> (nat \<Rightarrow> proc) \<Rightarrow> nat \<Rightarrow> proc" where
  "kill_entry p ps = ps(p := (ps p)\<lparr>pkilled := 1,
     pstate := (if pstate (ps p) = SLEEPING then RUNNABLE else pstate (ps p))\<rparr>)"

lemma kkill_loop_eq:
  assumes "calm s" and "\<forall>p\<in>set ps. avail (Proc_lock p) s"
  shows "kkill_loop n ps s = (case find (\<lambda>p. pid (procs s p) = n) ps of None \<Rightarrow> Ok (- 1, s)
    | Some p \<Rightarrow> Ok (0, s\<lparr>procs := kill_entry p (procs s)\<rparr>))"
  using assms
proof (induction ps)
  case Nil
  then show ?case by simp
next
  case (Cons p ps)
  then show ?case
    by (cases "pstate (procs s p) = SLEEPING") (auto simp: acquire_calm release_with_lock kill_entry_def fun_upd_idem)
qed

lemma kkill_eq:
  "quiet s \<Longrightarrow> kkill n s = (case find (\<lambda>p. pid (procs s p) = n) [0..<NPROC] of None \<Rightarrow> Ok (- 1, s)
    | Some p \<Rightarrow> Ok (0, s\<lparr>procs := kill_entry p (procs s)\<rparr>))"
  unfolding kkill_def by (rule kkill_loop_eq) (auto simp: quiet_def)

lemma find_unused_eq:
  assumes "calm s" and "\<forall>p\<in>set ps. avail (Proc_lock p) s"
  shows "find_unused ps s = (case find (\<lambda>p. pstate (procs s p) = UNUSED) ps of None \<Rightarrow> Ok (None, s)
    | Some p \<Rightarrow> Ok (Some p, with_lock (Proc_lock p) s))"
  using assms by (induction ps) (auto simp: acquire_calm release_with_lock)

end
