(* ===== verification/Sched_Properties.thy ===== *)
theory Sched_Properties
  imports Sched_Facts
begin

text \<open>
  Properties of sleeping, waking, killing and scheduling. The scheduler steps of all harts form a step
  relation \<open>sched_step\<close>; between two steps no lock is held, inside a step the operations of \<open>Sched\<close> run from
  the acquisition of the process lock to its release by the scheduler on the other side of the switch.
\<close>

section \<open>The steps of the scheduler\<close>

inductive sched_step :: "kprocs \<Rightarrow> kprocs \<Rightarrow> bool" where
  run: "h < NCPU \<Longrightarrow> cproc (cpus s h) = None \<Longrightarrow> p < NPROC \<Longrightarrow> scheduler_pick p (s\<lparr>hart := h\<rparr>) = Ok (True, t) \<Longrightarrow>
     release (Proc_lock p) t = Ok ((), u) \<Longrightarrow> sched_step s u"
| yields: "h < NCPU \<Longrightarrow> cproc (cpus s h) = Some p \<Longrightarrow> yield (s\<lparr>hart := h\<rparr>) = Sleep t \<Longrightarrow>
     scheduler_back p t = Ok ((), u) \<Longrightarrow> sched_step s u"
| sleeps: "h < NCPU \<Longrightarrow> cproc (cpus s h) = Some p \<Longrightarrow> (\<And>q. lk \<noteq> Proc_lock q) \<Longrightarrow>
     kbind (acquire lk) (\<lambda>_. sleep ch lk) (s\<lparr>hart := h\<rparr>) = Sleep t \<Longrightarrow>
     scheduler_back p t = Ok ((), u) \<Longrightarrow> sched_step s u"
| exits: "h < NCPU \<Longrightarrow> cproc (cpus s h) = Some p \<Longrightarrow>
     kbind (acquire Wait_lock) (\<lambda>_. kexit_switch p st) (s\<lparr>hart := h\<rparr>) = Sleep t \<Longrightarrow>
     scheduler_back p t = Ok ((), u) \<Longrightarrow> sched_step s u"
| wakes: "h < NCPU \<Longrightarrow> wakeup ch (s\<lparr>hart := h\<rparr>) = Ok ((), u) \<Longrightarrow> sched_step s u"
| kills: "h < NCPU \<Longrightarrow> kkill n (s\<lparr>hart := h\<rparr>) = Ok (r, u) \<Longrightarrow> sched_step s u"

text \<open>Which process runs where, against the states of the processes.\<close>

definition run_ok :: "(nat \<Rightarrow> nat option) \<Rightarrow> (nat \<Rightarrow> procstate) \<Rightarrow> bool" where
  "run_ok c st \<longleftrightarrow> (\<forall>h<NCPU. \<forall>p. c h = Some p \<longrightarrow> p < NPROC \<and> st p = RUNNING)
     \<and> (\<forall>p<NPROC. st p = RUNNING \<longrightarrow> (\<exists>h<NCPU. c h = Some p))
     \<and> (\<forall>h<NCPU. \<forall>h'<NCPU. \<forall>p. c h = Some p \<longrightarrow> c h' = Some p \<longrightarrow> h = h')"

definition sched_inv :: "kprocs \<Rightarrow> bool" where
  "sched_inv s \<longleftrightarrow> (\<forall>lk. avail lk s) \<and> (\<forall>h<NCPU. calm (s\<lparr>hart := h\<rparr>) \<and> noff (cpus s h) = 0)
     \<and> run_ok (\<lambda>h. cproc (cpus s h)) (\<lambda>p. pstate (procs s p))"

lemma run_ok_start:
  assumes "run_ok c st" and "c h = None" and "st p = RUNNABLE" and "p < NPROC" and "h < NCPU"
  shows "run_ok (c(h := Some p)) (st(p := RUNNING))"
proof -
  have "\<exists>h'. h' \<noteq> h \<and> h' < NCPU \<and> c h' = Some q" if "q < NPROC" "st q = RUNNING" for q
    using assms(1,2) that unfolding run_ok_def by (metis option.distinct(1))
  then have "\<exists>h'<NCPU. (c(h := Some p)) h' = Some q" if "q < NPROC" "(st(p := RUNNING)) q = RUNNING" for q
    using that assms(5) by (cases "q = p") auto
  then show ?thesis using assms unfolding run_ok_def by (simp split: if_splits) fastforce
qed

lemma run_okD:
  assumes "run_ok c st"
  shows "h < NCPU \<Longrightarrow> c h = Some p \<Longrightarrow> p < NPROC \<and> st p = RUNNING"
    and "p < NPROC \<Longrightarrow> st p = RUNNING \<Longrightarrow> \<exists>h<NCPU. c h = Some p"
    and "h < NCPU \<Longrightarrow> h' < NCPU \<Longrightarrow> c h = Some p \<Longrightarrow> c h' = Some p \<Longrightarrow> h = h'"
  using assms unfolding run_ok_def by blast+

lemma run_ok_stop:
  assumes "run_ok c st" and "c h = Some p" and "h < NCPU" and "x \<noteq> RUNNING"
  shows "run_ok (c(h := None)) (st(p := x))"
  unfolding run_ok_def
proof (intro conjI allI impI)
  note D = run_okD [OF assms(1)]
  fix k q assume k: "k < NCPU" "(c(h := None)) k = Some q"
  then have c: "k \<noteq> h" "c k = Some q" by (auto split: if_splits)
  then have "q \<noteq> p" using D(3) [OF k(1) assms(3)] assms(2) by auto
  then show "q < NPROC" "(st(p := x)) q = RUNNING" using D(1) [OF k(1) c(2)] by auto
  fix k' assume "k' < NCPU" "(c(h := None)) k' = Some q"
  then show "k = k'" using D(3) [OF k(1)] c by (auto split: if_splits)
next
  fix q assume q: "q < NPROC" "(st(p := x)) q = RUNNING"
  then have "q \<noteq> p" "st q = RUNNING" using assms(4) by (auto split: if_splits)
  then obtain k where k: "k < NCPU" "c k = Some q" using run_okD(2) [OF assms(1) q(1)] by blast
  moreover have "k \<noteq> h" using k(2) assms(2) \<open>q \<noteq> p\<close> by auto
  ultimately show "\<exists>h'<NCPU. (c(h := None)) h' = Some q" by (intro exI [of _ k]) simp
qed

lemma run_ok_cong:
  assumes "run_ok c st" and "\<And>p. (st' p = RUNNING) = (st p = RUNNING)"
  shows "run_ok c st'"
  using assms(1) unfolding run_ok_def assms(2) .

lemma sched_inv_step_state:
  assumes "sched_inv s" and "locks u = locks s" and "sie u = sie s"
    and "\<And>h. noff (cpus u h) = noff (cpus s h) \<and> intena (cpus u h) = intena (cpus s h)"
    and "run_ok (\<lambda>h. cproc (cpus u h)) (\<lambda>p. pstate (procs u p))"
  shows "sched_inv u"
proof -
  have "calm (u\<lparr>hart := h\<rparr>) \<and> noff (cpus u h) = 0" if "h < NCPU" for h
    using assms(1,3,4) that by (simp add: sched_inv_def calm_def cong: if_cong)
  then show ?thesis using assms(1,2,5) by (simp add: sched_inv_def avail_def)
qed

lemma sched_invD:
  assumes "sched_inv s" and "h < NCPU"
  shows "calm (s\<lparr>hart := h\<rparr>)" "noff (cpus s h) = 0" "avail lk (s\<lparr>hart := h\<rparr>)" "quiet (s\<lparr>hart := h\<rparr>)"
    "run_ok (\<lambda>h. cproc (cpus s h)) (\<lambda>p. pstate (procs s p))"
  using assms by (simp_all add: sched_inv_def avail_def quiet_def)

text \<open>A process leaves its hart.\<close>

lemma sched_inv_leave:
  assumes inv: "sched_inv s" and h: "h < NCPU" and p: "cproc (cpus s h) = Some p" and f: "pstate (f (procs s p)) \<noteq> RUNNING"
    and u: "scheduler_back p (with_lock (Proc_lock p) (s\<lparr>hart := h, procs := (procs s)(p := f (procs s p))\<rparr>)) = Ok ((), u)"
  shows "sched_inv u"
proof -
  let ?t = "s\<lparr>hart := h, procs := (procs s)(p := f (procs s p))\<rparr>"
  note D = sched_invD [OF inv h]
  have "calm ?t" "avail (Proc_lock p) ?t" using D(1) D(3) [of "Proc_lock p"] by simp_all
  then have e: "u = set_cur None ?t" using u scheduler_back_eq [of ?t p] by simp
  have "run_ok ((\<lambda>h. cproc (cpus s h))(h := None)) ((\<lambda>p. pstate (procs s p))(p := pstate (f (procs s p))))"
    by (rule run_ok_stop [OF D(5) p h f])
  moreover have "(\<lambda>h'. cproc (cpus u h')) = (\<lambda>h. cproc (cpus s h))(h := None)"
    "(\<lambda>q. pstate (procs u q)) = (\<lambda>p. pstate (procs s p))(p := pstate (f (procs s p)))"
    by (auto simp: e set_cur_def)
  ultimately show ?thesis by (intro sched_inv_step_state [OF inv]) (simp_all add: e, simp add: set_cur_def)
qed

lemma cur_hart: "cur (s\<lparr>hart := h\<rparr>) = cproc (cpus s h)"
  by (simp add: cur_def)

lemma sched_inv_procs:
  assumes inv: "sched_inv s" and u: "u = s\<lparr>hart := h, procs := ps\<rparr>"
    and st: "\<And>p. (pstate (ps p) = RUNNING) = (pstate (procs s p) = RUNNING)"
  shows "sched_inv u"
proof -
  have r: "run_ok (\<lambda>h. cproc (cpus s h)) (\<lambda>p. pstate (ps p))"
    using inv st by (auto simp: sched_inv_def intro: run_ok_cong)
  show ?thesis by (rule sched_inv_step_state [OF inv]) (simp_all add: u r)
qed

lemma sched_inv_step:
  assumes "sched_step s u" and "sched_inv s"
  shows "sched_inv u"
  using assms
proof (induction rule: sched_step.induct)
  case (run h s p t u)
  note D = sched_invD [OF run(6,1)]
  let ?r = "set_cur (Some p) (s\<lparr>hart := h, procs := (procs s)(p := (procs s p)\<lparr>pstate := RUNNING\<rparr>)\<rparr>)"
  have ps: "pstate (procs s p) = RUNNABLE" and t: "t = with_lock (Proc_lock p) ?r"
    using run(4) scheduler_pick_eq [OF D(1) D(3)] by (auto split: if_splits)
  have "u = ?r" using run(5) t D(1) D(3) [of "Proc_lock p"] release_with_lock [of ?r "Proc_lock p"] by simp
  moreover have "(\<lambda>h'. cproc (cpus ?r h')) = (\<lambda>h. cproc (cpus s h))(h := Some p)"
    "(\<lambda>q. pstate (procs ?r q)) = (\<lambda>p. pstate (procs s p))(p := RUNNING)"
    by (auto simp: set_cur_def)
  moreover have "run_ok ((\<lambda>h. cproc (cpus s h))(h := Some p)) ((\<lambda>p. pstate (procs s p))(p := RUNNING))"
    by (rule run_ok_start [OF D(5) run(2) ps run(3,1)])
  ultimately show ?case by (intro sched_inv_step_state [OF run(6)]) (simp_all, simp add: set_cur_def)
next
  case (yields h s p t u)
  note D = sched_invD [OF yields(5,1)]
  have "t = with_lock (Proc_lock p) (s\<lparr>hart := h, procs := (procs s)(p := (procs s p)\<lparr>pstate := RUNNABLE\<rparr>)\<rparr>)"
    using yields(2,3) yield_eq [of "s\<lparr>hart := h\<rparr>" p] D(1,2) D(3) [of "Proc_lock p"] by (simp add: cur_hart)
  then show ?case using yields(4) by (intro sched_inv_leave [OF yields(5,1,2), of "pstate_update (\<lambda>_. RUNNABLE)"]) simp_all
next
  case (sleeps h s p lk ch t u)
  note D = sched_invD [OF sleeps(6,1)]
  have "sleep ch lk (with_lock lk (s\<lparr>hart := h\<rparr>)) = Sleep (with_lock (Proc_lock p) (asleep ch p (s\<lparr>hart := h\<rparr>)))"
    using sleeps(2,3) D(1,2) D(3) by (intro sleep_eq) (simp_all add: cur_hart)
  then have "t = with_lock (Proc_lock p) (s\<lparr>hart := h, procs := (procs s)(p := (procs s p)\<lparr>pchan := Some ch, pstate := SLEEPING\<rparr>)\<rparr>)"
    using sleeps(4) acquire_calm [OF D(1) D(3)] by (simp add: asleep_def)
  then show ?case using sleeps(5)
    by (intro sched_inv_leave [OF sleeps(6,1,2), of "\<lambda>q. q\<lparr>pchan := Some ch, pstate := SLEEPING\<rparr>"]) simp_all
next
  case (exits h s p st t u)
  note D = sched_invD [OF exits(5,1)]
  have "t = with_lock (Proc_lock p) (s\<lparr>hart := h, procs := (procs s)(p := (procs s p)\<lparr>xstate := st, pstate := ZOMBIE\<rparr>)\<rparr>)"
    using exits(2,3) kexit_switch_eq [of "s\<lparr>hart := h\<rparr>" p st] acquire_calm [OF D(1) D(3)] D(1,2) D(3) [of "Proc_lock p"] D(3) [of Wait_lock]
    by (simp add: cur_hart)
  then show ?case using exits(4)
    by (intro sched_inv_leave [OF exits(5,1,2), of "\<lambda>q. q\<lparr>xstate := st, pstate := ZOMBIE\<rparr>"]) simp_all
next
  case (wakes h ch s u)
  then show ?case
    using wakeup_eq [OF sched_invD(4) [OF wakes(3,1)], of ch]
    by (intro sched_inv_procs [OF wakes(3), where h = h and ps = "woken ch (cproc (cpus s h)) {..<NPROC} (procs s)"])
      (auto simp: cur_hart, auto simp: woken_def split: if_splits)
next
  case (kills h n s r u)
  show ?case
  proof (cases "find (\<lambda>p. pid (procs s p) = n) [0..<NPROC]")
    case None
    then show ?thesis using kills kkill_eq [OF sched_invD(4) [OF kills(3,1)], of n]
      by (intro sched_inv_procs [OF kills(3), where h = h and ps = "procs s"]) auto
  next
    case (Some p)
    then show ?thesis using kills kkill_eq [OF sched_invD(4) [OF kills(3,1)], of n]
      by (intro sched_inv_procs [OF kills(3), where h = h and ps = "kill_entry p (procs s)"]) (auto simp: kill_entry_def)
  qed
qed

lemma sched_inv_reachable: "sched_step\<^sup>*\<^sup>* s u \<Longrightarrow> sched_inv s \<Longrightarrow> sched_inv u"
  by (induction rule: rtranclp_induct) (auto intro: sched_inv_step)

section \<open>Properties\<close>

text \<open>A machine on which process 0 is ready and nothing runs, and no lock is held.\<close>

definition idle_proc :: proc where
  "idle_proc = \<lparr>pstate = UNUSED, pchan = None, pkilled = 0, xstate = 0, pid = 0, parent = None, kstack = 0, sz = 0,
     pagetable = 0, trapframe = 0, pcontext = \<lparr>ctx_ra = 0, ctx_sp = 0\<rparr>, ofile = (\<lambda>_. None), cwd = None,
     pname = [], page_faults = 0\<rparr>"

definition boot_procs :: "(nat \<Rightarrow> proc) \<Rightarrow> kprocs" where
  "boot_procs ps = \<lparr>hart = 0, sie = (\<lambda>_. False), cpus = (\<lambda>_. \<lparr>cproc = None, noff = 0, intena = False\<rparr>),
     locks = (\<lambda>_. free_lock), mem = small_machine, procs = ps, nextpid = 2, initproc = None,
     ksym = \<lparr>sym_trampoline = 0x80007000, sym_forkret = 0x80001000, sym_uservec = 0x80007000,
       sym_userret = 0x8000709C, sym_usertrap = 0x80002000, sym_kernelvec = 0x80005000\<rparr>\<rparr>"

lemma boot_procs_facts [simp]:
  "calm ((boot_procs ps)\<lparr>hart := h\<rparr>) \<longleftrightarrow> h < NCPU" "calm (boot_procs ps)" "avail lk (boot_procs ps)"
  "procs (boot_procs ps) = ps" "cur (boot_procs ps) = None" "cpus (boot_procs ps) = (\<lambda>_. \<lparr>cproc = None, noff = 0, intena = False\<rparr>)"
  "quiet (boot_procs ps)" "hart (boot_procs ps) = 0"
  by (simp_all add: boot_procs_def calm_def avail_def quiet_def cur_def)



text \<open>
  C24: \<open>wakeup\<close> makes runnable exactly the processes that sleep on the channel, except the caller, and
  changes nothing else.
\<close>

theorem wakeup_correct:
  assumes "quiet s"
  shows "\<exists>t. wakeup ch s = Ok ((), t) \<and> t = s\<lparr>procs := procs t\<rparr>
    \<and> (\<forall>p. procs t p = (if p < NPROC \<and> cur s \<noteq> Some p \<and> pstate (procs s p) = SLEEPING \<and> pchan (procs s p) = ch
         then (procs s p)\<lparr>pstate := RUNNABLE\<rparr> else procs s p))"
  using wakeup_eq [OF assms, of ch] by (auto simp: woken_def)

theorem wakeup_correct_witness:
  "\<exists>t. wakeup (Some Chan_ticks) (boot_procs (\<lambda>_. idle_proc\<lparr>pstate := SLEEPING, pchan := Some Chan_ticks\<rparr>)) = Ok ((), t)
     \<and> pstate (procs t 63) = RUNNABLE"
  using wakeup_correct [of "boot_procs (\<lambda>_. idle_proc\<lparr>pstate := SLEEPING, pchan := Some Chan_ticks\<rparr>)" "Some Chan_ticks"]
  by (auto simp: idle_proc_def)

lemma with_lock_other_hart:
  assumes "h \<noteq> hart s"
  shows "calm ((with_lock lk s)\<lparr>hart := h\<rparr>) = calm (s\<lparr>hart := h\<rparr>)"
    "cur ((with_lock lk s)\<lparr>hart := h\<rparr>) = cur (s\<lparr>hart := h\<rparr>)"
  using assms by (simp_all add: calm_def cur_def with_lock_def pushed_off_def)

text \<open>A waker on another hart gets stuck on the lock of a process in the middle of \<open>sleep\<close>.\<close>

lemma wakeup_loop_stuck:
  assumes "calm t" and "locked (locks t (Proc_lock p))" and "lkcpu (locks t (Proc_lock p)) \<noteq> Some (hart t)"
    and "cur t \<noteq> Some p" and "p \<in> set ps" and "\<forall>q\<in>set ps. q \<noteq> p \<longrightarrow> avail (Proc_lock q) t"
  shows "wakeup_loop ch ps t = Block"
  using assms
proof (induction ps arbitrary: t)
  case Nil
  then show ?case by simp
next
  case (Cons q ps)
  show ?case
  proof (cases "q = p")
    case True
    then show ?thesis using Cons.prems by (simp add: myproc_calm acquire_other_hart)
  next
    case False
    let ?f = "\<lambda>x. if cur t \<noteq> Some q \<and> pstate (procs t q) = SLEEPING \<and> pchan (procs t q) = ch
      then x(q := (procs t q)\<lparr>pstate := RUNNABLE\<rparr>) else x"
    have "wakeup_loop ch (q # ps) t = wakeup_loop ch ps (t\<lparr>procs := ?f (procs t)\<rparr>)"
      using Cons.prems False by (auto simp: myproc_calm acquire_calm release_with_lock)
    also have "\<dots> = Block" using Cons.prems False by (intro Cons.IH) auto
    finally show ?thesis .
  qed
qed

lemma wakeup_stuck:
  assumes "calm (s\<lparr>hart := h\<rparr>)" and "h \<noteq> hart s" and "cur (s\<lparr>hart := h\<rparr>) \<noteq> Some p" and "p < NPROC"
    and "\<forall>q<NPROC. avail (Proc_lock q) s"
  shows "wakeup ch ((with_lock (Proc_lock p) s)\<lparr>hart := h\<rparr>) = Block"
  unfolding wakeup_def
proof (rule wakeup_loop_stuck)
  let ?t = "(with_lock (Proc_lock p) s)\<lparr>hart := h\<rparr>"
  show "calm ?t" "cur ?t \<noteq> Some p" using assms(1-3) by (simp_all add: with_lock_other_hart)
  show "locked (locks ?t (Proc_lock p))" "lkcpu (locks ?t (Proc_lock p)) \<noteq> Some (hart ?t)"
    using assms(2) by (simp_all add: with_lock_def)
  show "\<forall>q\<in>set [0..<NPROC]. q \<noteq> p \<longrightarrow> avail (Proc_lock q) ?t"
    using assms(5) by (auto simp: avail_def with_lock_def pushed_off_def)
qed (use assms(4) in auto)





end
