(* ===== verification/Sleeplock.thy ===== *)
theory Sleeplock
  imports Sched_Facts
begin

text \<open>
  \<open>kernel/sleeplock.c\<close>: long-term locks. A sleep lock is a flag and the pid of its holder, protected by a
  spin lock; a process that finds it taken sleeps on it. The loop around the sleep starts over when the
  process runs again, so one pass of it is the definition.
\<close>

record sleeplock =
  slocked :: bool
  spid :: int

record ksleep = kprocs +
  slocks :: "sleepid \<Rightarrow> sleeplock"

definition slock_set :: "sleepid \<Rightarrow> (sleeplock \<Rightarrow> sleeplock) \<Rightarrow> ('z ksleep_scheme, unit) kmon" where
  "slock_set i f = kmodify (\<lambda>s. s\<lparr>slocks := (slocks s)(i := f (slocks s i))\<rparr>)"

definition initsleeplock :: "sleepid \<Rightarrow> ('z ksleep_scheme, unit) kmon" where
  "initsleeplock i =
     kbind (initlock (Sleep_lock i)) (\<lambda>_.
     slock_set i (\<lambda>l. l\<lparr>slocked := False, spid := 0\<rparr>))"

definition acquiresleep :: "sleepid \<Rightarrow> ('z ksleep_scheme, unit) kmon" where
  "acquiresleep i =
     kbind (acquire (Sleep_lock i)) (\<lambda>_.
     kbind (kgets (\<lambda>s. slocked (slocks s i))) (\<lambda>taken.
     kbind (if taken then kbind (sleep (Chan_sleeplock i) (Sleep_lock i)) (\<lambda>_. kblock) else kret ()) (\<lambda>_.
     kbind (slock_set i (\<lambda>l. l\<lparr>slocked := True\<rparr>)) (\<lambda>_.
     kbind curproc (\<lambda>p.
     kbind (pget p pid) (\<lambda>n.
     kbind (slock_set i (\<lambda>l. l\<lparr>spid := n\<rparr>)) (\<lambda>_.
     release (Sleep_lock i))))))))"

definition releasesleep :: "sleepid \<Rightarrow> ('z ksleep_scheme, unit) kmon" where
  "releasesleep i =
     kbind (acquire (Sleep_lock i)) (\<lambda>_.
     kbind (slock_set i (\<lambda>l. l\<lparr>slocked := False, spid := 0\<rparr>)) (\<lambda>_.
     kbind (wakeup (Some (Chan_sleeplock i))) (\<lambda>_.
     release (Sleep_lock i))))"

definition holdingsleep :: "sleepid \<Rightarrow> ('z ksleep_scheme, bool) kmon" where
  "holdingsleep i =
     kbind (acquire (Sleep_lock i)) (\<lambda>_.
     kbind (kgets (\<lambda>s. slocks s i)) (\<lambda>l.
     kbind (if slocked l then kbind curproc (\<lambda>p. pget p (\<lambda>q. spid l = pid q)) else kret False) (\<lambda>r.
     kbind (release (Sleep_lock i)) (\<lambda>_. kret r))))"

section \<open>A process that follows the locking rules\<close>

lemma with_lock_sleep [simp]:
  "slocks (with_lock lk s) = slocks s" "slocks_update f (with_lock lk s) = with_lock lk (slocks_update f s)"
  "calm (slocks_update f s) = calm s" "avail lk (slocks_update f s) = avail lk s"
  "cur (slocks_update f s) = cur s" "quiet (slocks_update f s) = quiet s"
  by (simp_all add: with_lock_def pushed_off_def calm_def avail_def cur_def quiet_def)

text \<open>Process \<open>p\<close> runs in the kernel and holds no spin lock.\<close>

definition at_rest :: "nat \<Rightarrow> 'z kprocs_scheme \<Rightarrow> bool" where
  "at_rest p s \<longleftrightarrow> calm s \<and> (\<forall>lk. avail lk s) \<and> noff (cpus s (hart s)) = 0 \<and> cur s = Some p \<and> p < NPROC"

lemma at_restD:
  "at_rest p s \<Longrightarrow> calm s" "at_rest p s \<Longrightarrow> avail lk s" "at_rest p s \<Longrightarrow> noff (cpus s (hart s)) = 0"
  "at_rest p s \<Longrightarrow> cur s = Some p" "at_rest p s \<Longrightarrow> p < NPROC" "at_rest p s \<Longrightarrow> quiet s"
  by (auto simp: at_rest_def quiet_def)

lemma at_rest_updates [simp]:
  "at_rest p (mem_update f s) = at_rest p s" "at_rest p (procs_update g s) = at_rest p s"
  "at_rest p (nextpid_update h s) = at_rest p s" "at_rest p (initproc_update i s) = at_rest p s"
  by (simp_all add: at_rest_def)

lemma at_rest_slocks [simp]: "at_rest p (slocks_update f s) = at_rest p s"
  by (simp add: at_rest_def)

lemma wakeup_under:
  assumes "at_rest p s" and "\<And>q. lk \<noteq> Proc_lock q"
  shows "wakeup ch (with_lock lk s) = Ok ((), with_lock lk (woken_up ch s))"
  using wakeup_eq [OF quiet_with_lock [OF at_restD(6) [OF assms(1)] assms(2)], of ch] by simp

abbreviation taken_by :: "int \<Rightarrow> sleeplock" where
  "taken_by n \<equiv> \<lparr>slocked = True, spid = n\<rparr>"

lemma sleeplock_full_update [simp]: "(l :: sleeplock)\<lparr>slocked := b, spid := n\<rparr> = \<lparr>slocked = b, spid = n\<rparr>"
  by (cases l) simp

lemma acquiresleep_free:
  assumes "calm s" and "avail (Sleep_lock i) s" and "cur s = Some p" and "\<not> slocked (slocks s i)"
  shows "acquiresleep i s = Ok ((), s\<lparr>slocks := (slocks s)(i := taken_by (pid (procs s p)))\<rparr>)"
  using assms by (simp add: acquiresleep_def acquire_calm release_with_lock curproc_calm slock_set_def)

lemma acquiresleep_busy:
  assumes "at_rest p s" and "slocked (slocks s i)"
  shows "acquiresleep i s = Sleep (with_lock (Proc_lock p) (asleep (Chan_sleeplock i) p s))"
proof -
  note R = at_restD [OF assms(1)]
  have "sleep (Chan_sleeplock i) (Sleep_lock i) (with_lock (Sleep_lock i) s)
      = Sleep (with_lock (Proc_lock p) (asleep (Chan_sleeplock i) p s))"
    using R by (intro sleep_eq) simp_all
  then show ?thesis using R(1,2) assms(2) by (simp add: acquiresleep_def acquire_calm)
qed

lemma releasesleep_eq:
  assumes "quiet s" and "avail (Sleep_lock i) s"
  shows "releasesleep i s = Ok ((), woken_up (Some (Chan_sleeplock i))
    (s\<lparr>slocks := (slocks s)(i := \<lparr>slocked = False, spid = 0\<rparr>)\<rparr>))"
proof -
  have "quiet (with_lock (Sleep_lock i) (s\<lparr>slocks := x\<rparr>))" for x
    using assms by (intro quiet_with_lock) simp_all
  then show ?thesis
    using assms quietD(1) [OF assms(1)]
    by (simp add: releasesleep_def acquire_calm release_with_lock slock_set_def wakeup_eq)
qed

lemma holdingsleep_eq:
  assumes "calm s" and "avail (Sleep_lock i) s" and "cur s = Some p"
  shows "holdingsleep i s = Ok (slocked (slocks s i) \<and> spid (slocks s i) = pid (procs s p), s)"
  using assms by (simp add: holdingsleep_def acquire_calm release_with_lock curproc_calm)

text \<open>
  C22: a sleep lock admits one process. \<open>acquiresleep\<close> on a free lock takes it for the caller and
  \<open>holdingsleep\<close> then holds of the caller and of no process with another pid; on a taken lock the caller goes
  to sleep on the lock, which is left as it was, with no spin lock held but its own; \<open>releasesleep\<close> frees the lock and
  makes runnable every process that sleeps on it.
\<close>

theorem sleeplock_correct:
  assumes "at_rest p s"
  shows "(\<not> slocked (slocks s i) \<longrightarrow> (\<exists>t. acquiresleep i s = Ok ((), t) \<and> holdingsleep i t = Ok (True, t)
       \<and> (\<forall>q u. procs u = procs t \<and> slocks u = slocks t \<and> at_rest q u \<and> pid (procs u q) \<noteq> pid (procs u p) \<longrightarrow>
            holdingsleep i u = Ok (False, u))))
    \<and> (slocked (slocks s i) \<longrightarrow> (\<exists>t. acquiresleep i s = Sleep t \<and> slocks t = slocks s
         \<and> pstate (procs t p) = SLEEPING \<and> pchan (procs t p) = Some (Chan_sleeplock i)
         \<and> (\<forall>lk. avail lk t \<longleftrightarrow> lk \<noteq> Proc_lock p)))
    \<and> (\<exists>t. releasesleep i s = Ok ((), t) \<and> \<not> slocked (slocks t i) \<and> at_rest p t
         \<and> (\<forall>q<NPROC. q \<noteq> p \<and> pstate (procs s q) = SLEEPING \<and> pchan (procs s q) = Some (Chan_sleeplock i)
              \<longrightarrow> pstate (procs t q) = RUNNABLE))"
proof (intro conjI impI)
  note R = at_restD [OF assms]
  assume "\<not> slocked (slocks s i)"
  then have a: "acquiresleep i s = Ok ((), s\<lparr>slocks := (slocks s)(i := taken_by (pid (procs s p)))\<rparr>)" (is "_ = Ok ((), ?t)")
    using R by (intro acquiresleep_free) simp_all
  have "holdingsleep i u = Ok (False, u)"
    if "procs u = procs ?t \<and> slocks u = slocks ?t \<and> at_rest q u \<and> pid (procs u q) \<noteq> pid (procs u p)" for q u
    using that holdingsleep_eq [of u i q] at_restD [of q u] by auto
  moreover have "holdingsleep i ?t = Ok (True, ?t)" using R by (subst holdingsleep_eq) simp_all
  ultimately show "\<exists>t. acquiresleep i s = Ok ((), t) \<and> holdingsleep i t = Ok (True, t)
       \<and> (\<forall>q u. procs u = procs t \<and> slocks u = slocks t \<and> at_rest q u \<and> pid (procs u q) \<noteq> pid (procs u p) \<longrightarrow>
            holdingsleep i u = Ok (False, u))" using a by blast
next
  assume "slocked (slocks s i)"
  from acquiresleep_busy [OF assms this] show "\<exists>t. acquiresleep i s = Sleep t \<and> slocks t = slocks s
         \<and> pstate (procs t p) = SLEEPING \<and> pchan (procs t p) = Some (Chan_sleeplock i)
         \<and> (\<forall>lk. avail lk t \<longleftrightarrow> lk \<noteq> Proc_lock p)"
    using at_restD(2) [OF assms] by (simp add: asleep_def)
next
  note R = at_restD [OF assms]
  show "\<exists>t. releasesleep i s = Ok ((), t) \<and> \<not> slocked (slocks t i) \<and> at_rest p t
         \<and> (\<forall>q<NPROC. q \<noteq> p \<and> pstate (procs s q) = SLEEPING \<and> pchan (procs s q) = Some (Chan_sleeplock i)
              \<longrightarrow> pstate (procs t q) = RUNNABLE)"
    using releasesleep_eq [OF R(6) R(2), of i] R(4) assms by (auto simp: woken_def)
qed

text \<open>A machine on which process 0 runs and no lock is taken.\<close>

definition proc_zero :: proc where
  "proc_zero = \<lparr>pstate = RUNNING, pchan = None, pkilled = 0, xstate = 0, pid = 1, parent = None, kstack = 0, sz = 0,
     pagetable = 0, trapframe = 0, pcontext = \<lparr>ctx_ra = 0, ctx_sp = 0\<rparr>, ofile = (\<lambda>_. None), cwd = None,
     pname = [], page_faults = 0\<rparr>"

definition one_proc :: kprocs where
  "one_proc = \<lparr>hart = 0, sie = (\<lambda>_. False), cpus = (\<lambda>_. \<lparr>cproc = Some 0, noff = 0, intena = False\<rparr>),
     locks = (\<lambda>_. free_lock), mem = small_machine, procs = (\<lambda>_. proc_zero), nextpid = 2, initproc = None,
     ksym = \<lparr>sym_trampoline = 0x80007000, sym_forkret = 0x80001000, sym_uservec = 0x80007000,
       sym_userret = 0x8000709C, sym_usertrap = 0x80002000, sym_kernelvec = 0x80005000\<rparr>\<rparr>"

definition no_sleeplocks :: ksleep where
  "no_sleeplocks = kprocs.extend one_proc \<lparr>slocks = (\<lambda>_. \<lparr>slocked = False, spid = 0\<rparr>)\<rparr>"

lemma at_rest_extend [simp]: "at_rest p (kprocs.extend one_proc x) \<longleftrightarrow> p = 0"
  by (auto simp: at_rest_def calm_def avail_def cur_def one_proc_def kprocs.extend_def)

theorem sleeplock_correct_witness:
  "\<exists>t. acquiresleep (Buf_lock 0) no_sleeplocks = Ok ((), t) \<and> holdingsleep (Buf_lock 0) t = Ok (True, t)"
proof -
  have "at_rest 0 no_sleeplocks" by (simp add: no_sleeplocks_def)
  from sleeplock_correct [OF this, of "Buf_lock 0"] show ?thesis
    by (simp add: no_sleeplocks_def kprocs.extend_def) blast
qed

end
