(* ===== verification/Fifo.thy ===== *)
theory Fifo
  imports Xv6_Prelude
begin

text \<open>
  The contract of a bounded first-in first-out buffer, which pipes and mailboxes implement with a circular array, and what follows from it for any sequence of operations: the items
  taken out, followed by the items still inside, are the items that were inside, followed by those put in.
\<close>

datatype 'a fifo_op = Put 'a | Get

locale fifo =
  fixes inv :: "'s \<Rightarrow> bool"
    and items :: "'s \<Rightarrow> 'a list"
    and cap :: nat
    and put :: "'a \<Rightarrow> 's \<Rightarrow> 's"
    and front :: "'s \<Rightarrow> 'a"
    and get :: "'s \<Rightarrow> 's"
  assumes bounded: "inv s \<Longrightarrow> length (items s) \<le> cap"
    and put_inv: "inv s \<Longrightarrow> length (items s) < cap \<Longrightarrow> inv (put x s)"
    and put_items: "inv s \<Longrightarrow> length (items s) < cap \<Longrightarrow> items (put x s) = items s @ [x]"
    and front_items: "inv s \<Longrightarrow> items s \<noteq> [] \<Longrightarrow> front s = hd (items s)"
    and get_inv: "inv s \<Longrightarrow> items s \<noteq> [] \<Longrightarrow> inv (get s)"
    and get_items: "inv s \<Longrightarrow> items s \<noteq> [] \<Longrightarrow> items (get s) = tl (items s)"
begin

text \<open>A sequence of operations that fits: no item is put into a full buffer or taken from an empty one.\<close>

fun run :: "'a fifo_op list \<Rightarrow> 's \<Rightarrow> ('a list \<times> 's) option" where
  "run [] s = Some ([], s)"
| "run (Put x # ops) s = (if length (items s) < cap then run ops (put x s) else None)"
| "run (Get # ops) s = (if items s = [] then None
     else map_option (\<lambda>(out, t). (front s # out, t)) (run ops (get s)))"

fun inputs :: "'a fifo_op list \<Rightarrow> 'a list" where
  "inputs [] = []"
| "inputs (Put x # ops) = x # inputs ops"
| "inputs (Get # ops) = inputs ops"

lemma run_order: "inv s \<Longrightarrow> run ops s = Some (out, t) \<Longrightarrow> inv t \<and> out @ items t = items s @ inputs ops"
proof (induction ops s arbitrary: out t rule: run.induct)
  case (1 s)
  then show ?case by simp
next
  case (2 x ops s)
  then show ?case by (auto simp: put_inv put_items split: if_splits)
next
  case (3 ops s)
  then have ne: "items s \<noteq> []" by (auto split: if_splits)
  obtain o' where o': "run ops (get s) = Some (o', t)" "out = front s # o'"
    using 3(3) ne by (auto split: option.splits)
  have "inv t \<and> o' @ items t = items (get s) @ inputs ops" by (rule 3(1) [OF ne get_inv [OF 3(2) ne] o'(1)])
  then show ?case using o'(2) ne by (simp add: front_items [OF 3(2) ne] get_items [OF 3(2) ne])
qed

fun puts :: "'a list \<Rightarrow> 's \<Rightarrow> 's" where
  "puts [] s = s"
| "puts (x # xs) s = puts xs (put x s)"

lemma puts_items:
  "inv s \<Longrightarrow> length (items s) + length xs \<le> cap \<Longrightarrow> inv (puts xs s) \<and> items (puts xs s) = items s @ xs"
proof (induction xs arbitrary: s)
  case (Cons x xs)
  then have "length (items s) < cap" by simp
  then show ?case using Cons.IH [of "put x s"] Cons.prems by (simp add: put_inv put_items)
qed simp

fun gets :: "nat \<Rightarrow> 's \<Rightarrow> 's" where
  "gets 0 s = s"
| "gets (Suc n) s = gets n (get s)"

lemma gets_items:
  "inv s \<Longrightarrow> n \<le> length (items s) \<Longrightarrow> inv (gets n s) \<and> items (gets n s) = drop n (items s)"
proof (induction n arbitrary: s)
  case (Suc n)
  then have ne: "items s \<noteq> []" by auto
  then show ?case using Suc.IH [of "get s"] Suc.prems by (simp add: get_inv get_items drop_Suc)
qed simp

lemma front_gets: "inv s \<Longrightarrow> n < length (items s) \<Longrightarrow> front (gets n s) = items s ! n"
  using gets_items [of s n] front_items [of "gets n s"] by (simp add: hd_drop_conv_nth)

end

section \<open>A circular array\<close>

text \<open>The items between position \<open>r\<close> and \<open>r + n\<close> of an array of length \<open>N\<close>.\<close>

definition ring :: "nat \<Rightarrow> (nat \<Rightarrow> 'a) \<Rightarrow> nat \<Rightarrow> nat \<Rightarrow> 'a list" where
  "ring N d r n = map (\<lambda>i. d ((r + i) mod N)) [0..<n]"

lemma length_ring [simp]: "length (ring N d r n) = n"
  by (simp add: ring_def)

lemma ring_eq_Nil [simp]: "ring N d r n = [] \<longleftrightarrow> n = 0"
  by (simp add: ring_def)

lemma ring_0 [simp]: "ring N d r 0 = []"
  by (simp add: ring_def)

lemma ring_mod: "ring N d (r mod N) n = ring N d r n"
  by (simp add: ring_def mod_add_left_eq)

lemma mod_window:
  assumes "(a + i) mod m = (a + j) mod m" and "i < m" and "j < m"
  shows "i = (j :: nat)"
proof -
  have "i = j" if "j \<le> i" "(a + i) mod m = (a + j) mod m" "i < m" for i j :: nat
  proof -
    have "m dvd (a + i) - (a + j)" using that by (simp add: mod_eq_dvd_iff_nat)
    then have "m dvd i - j" by simp
    then show ?thesis using that by (metis dvd_imp_le le_antisym less_imp_diff_less not_le zero_less_diff)
  qed
  then show ?thesis using assms by (metis nat_le_linear)
qed

lemma ring_put:
  assumes "n < N"
  shows "ring N (d((r + n) mod N := x)) r (Suc n) = ring N d r n @ [x]"
proof -
  have "(r + i) mod N \<noteq> (r + n) mod N" if "i < n" for i
    using mod_window [of r i N n] that assms by auto
  then show ?thesis by (simp add: ring_def)
qed

lemma ring_get:
  assumes "0 < n"
  shows "ring N d r n = d (r mod N) # ring N d (Suc r) (n - 1)"
proof -
  obtain k where n: "n = Suc k" using assms by (cases n) auto
  have "[0..<Suc k] = 0 # map Suc [0..<k]" by (simp add: map_Suc_upt upt_conv_Cons)
  then show ?thesis by (simp add: ring_def n)
qed

end
