(* ===== verification/Mbox.thy ===== *)
theory Mbox
  imports Sleeplock Fifo
begin

text \<open>
  \<open>kernel/mbox.c\<close>: 32 mailboxes of 16 messages, each a circular array with its own spin lock. \<open>head\<close>,
  \<open>tail\<close> and \<open>count\<close> are C integers that never become negative and are kept as natural numbers. A sender
  that finds the mailbox full and a receiver that finds it empty sleep on the mailbox; when they run again
  they test again, so one pass of the loop is the definition.
\<close>

abbreviation (input) MAX_MBOX :: nat where "MAX_MBOX \<equiv> 32"
abbreviation (input) MBOX_SIZE :: nat where "MBOX_SIZE \<equiv> 16"

record mailbox =
  mb_key :: int
  mb_buf :: "nat \<Rightarrow> int"
  mb_head :: nat
  mb_tail :: nat
  mb_count :: nat

record kmbox = ksleep +
  mboxes :: "nat \<Rightarrow> mailbox"

definition mb_set :: "nat \<Rightarrow> (mailbox \<Rightarrow> mailbox) \<Rightarrow> ('z kmbox_scheme, unit) kmon" where
  "mb_set i f = kmodify (\<lambda>s. s\<lparr>mboxes := (mboxes s)(i := f (mboxes s i))\<rparr>)"

definition mb_get :: "nat \<Rightarrow> (mailbox \<Rightarrow> 'a) \<Rightarrow> ('z kmbox_scheme, 'a) kmon" where
  "mb_get i f = kgets (\<lambda>s. f (mboxes s i))"

definition mboxinit :: "('z kmbox_scheme, unit) kmon" where
  "mboxinit = kfor (\<lambda>i. kbind (mb_set i (\<lambda>m. m\<lparr>mb_key := - 1\<rparr>)) (\<lambda>_. initlock (Mbox_lock i))) [0..<MAX_MBOX]"

fun mbox_create_loop :: "int \<Rightarrow> nat list \<Rightarrow> ('z kmbox_scheme, int) kmon" where
  "mbox_create_loop key [] = kret (- 1)"
| "mbox_create_loop key (i # is) =
     kbind (acquire (Mbox_lock i)) (\<lambda>_.
     kbind (mb_get i mb_key) (\<lambda>k.
     if k = key then kbind (release (Mbox_lock i)) (\<lambda>_. kret (int i))
     else if k = - 1 then
       kbind (mb_set i (\<lambda>m. m\<lparr>mb_key := key, mb_head := 0, mb_tail := 0, mb_count := 0\<rparr>)) (\<lambda>_.
       kbind (release (Mbox_lock i)) (\<lambda>_. kret (int i)))
     else kbind (release (Mbox_lock i)) (\<lambda>_. mbox_create_loop key is)))"

definition mbox_create :: "int \<Rightarrow> ('z kmbox_scheme, int) kmon" where
  "mbox_create key = mbox_create_loop key [0..<MAX_MBOX]"

text \<open>The messages of a mailbox, and the array accesses of sending and receiving.\<close>

definition mbox_put :: "int \<Rightarrow> mailbox \<Rightarrow> mailbox" where
  "mbox_put msg m = m\<lparr>mb_buf := (mb_buf m)(mb_tail m := msg), mb_tail := (mb_tail m + 1) mod MBOX_SIZE,
     mb_count := mb_count m + 1\<rparr>"

definition mbox_front :: "mailbox \<Rightarrow> int" where
  "mbox_front m = mb_buf m (mb_head m)"

definition mbox_get :: "mailbox \<Rightarrow> mailbox" where
  "mbox_get m = m\<lparr>mb_head := (mb_head m + 1) mod MBOX_SIZE, mb_count := mb_count m - 1\<rparr>"

definition mbox_send :: "int \<Rightarrow> int \<Rightarrow> ('z kmbox_scheme, int) kmon" where
  "mbox_send i msg =
     (if i < 0 \<or> i \<ge> int MAX_MBOX then kret (- 1) else
      let b = nat i in
      kbind (acquire (Mbox_lock b)) (\<lambda>_.
      kbind (mb_get b mb_count) (\<lambda>n.
      kbind (if n = MBOX_SIZE then kbind (sleep (Chan_mbox b) (Mbox_lock b)) (\<lambda>_. kblock) else kret ()) (\<lambda>_.
      kbind (mb_get b mb_tail) (\<lambda>t.
      if t \<ge> MBOX_SIZE then kub ''mbox buf'' else
      kbind (mb_set b (mbox_put msg)) (\<lambda>_.
      kbind (wakeup (Some (Chan_mbox b))) (\<lambda>_.
      kbind (release (Mbox_lock b)) (\<lambda>_. kret 0))))))))"

text \<open>The return value and the message stored through the pointer.\<close>

definition mbox_recv :: "int \<Rightarrow> ('z kmbox_scheme, int \<times> int option) kmon" where
  "mbox_recv i =
     (if i < 0 \<or> i \<ge> int MAX_MBOX then kret (- 1, None) else
      let b = nat i in
      kbind (acquire (Mbox_lock b)) (\<lambda>_.
      kbind (mb_get b mb_count) (\<lambda>n.
      kbind (if n = 0 then kbind (sleep (Chan_mbox b) (Mbox_lock b)) (\<lambda>_. kblock) else kret ()) (\<lambda>_.
      kbind (mb_get b mb_head) (\<lambda>h.
      if h \<ge> MBOX_SIZE then kub ''mbox buf'' else
      kbind (mb_get b mbox_front) (\<lambda>msg.
      kbind (mb_set b mbox_get) (\<lambda>_.
      kbind (wakeup (Some (Chan_mbox b))) (\<lambda>_.
      kbind (release (Mbox_lock b)) (\<lambda>_. kret (0, Some msg)))))))))) "

section \<open>The mailbox as a queue\<close>

definition mbox_ok :: "mailbox \<Rightarrow> bool" where
  "mbox_ok m \<longleftrightarrow> mb_head m < MBOX_SIZE \<and> mb_count m \<le> MBOX_SIZE \<and> mb_tail m = (mb_head m + mb_count m) mod MBOX_SIZE"

definition mbox_items :: "mailbox \<Rightarrow> int list" where
  "mbox_items m = ring MBOX_SIZE (mb_buf m) (mb_head m) (mb_count m)"

interpretation mbq: fifo mbox_ok mbox_items MBOX_SIZE mbox_put mbox_front mbox_get
proof
  fix m x
  show "length (mbox_items m) \<le> MBOX_SIZE" if "mbox_ok m"
    using that by (simp add: mbox_ok_def mbox_items_def)
  show "mbox_ok (mbox_put x m)" if "mbox_ok m" "length (mbox_items m) < MBOX_SIZE"
    using that by (simp add: mbox_ok_def mbox_items_def mbox_put_def mod_Suc_eq)
  show "mbox_items (mbox_put x m) = mbox_items m @ [x]" if "mbox_ok m" "length (mbox_items m) < MBOX_SIZE"
    using that ring_put [of "mb_count m" MBOX_SIZE "mb_buf m" "mb_head m" x]
    by (simp add: mbox_ok_def mbox_items_def mbox_put_def)
  show "mbox_front m = hd (mbox_items m)" if "mbox_ok m" "mbox_items m \<noteq> []"
    using that ring_get [of "mb_count m" MBOX_SIZE "mb_buf m" "mb_head m"]
    by (simp add: mbox_ok_def mbox_items_def mbox_front_def)
  show "mbox_ok (mbox_get m)" if "mbox_ok m" "mbox_items m \<noteq> []"
    using that by (cases "mb_count m") (simp_all add: mbox_ok_def mbox_items_def mbox_get_def mod_simps)
  show "mbox_items (mbox_get m) = tl (mbox_items m)" if "mbox_ok m" "mbox_items m \<noteq> []"
    using that ring_get [of "mb_count m" MBOX_SIZE "mb_buf m" "mb_head m"]
      ring_mod [of MBOX_SIZE "mb_buf m" "Suc (mb_head m)" "mb_count m - 1"]
    by (simp add: mbox_ok_def mbox_items_def mbox_get_def)
qed

section \<open>The operations\<close>

lemma with_lock_mbox [simp]:
  "mboxes (with_lock lk s) = mboxes s" "mboxes_update f (with_lock lk s) = with_lock lk (mboxes_update f s)"
  "calm (mboxes_update f s) = calm s" "avail lk (mboxes_update f s) = avail lk s"
  "cur (mboxes_update f s) = cur s" "quiet (mboxes_update f s) = quiet s" "at_rest p (mboxes_update f s) = at_rest p s"
  by (simp_all add: with_lock_def pushed_off_def calm_def avail_def cur_def quiet_def at_rest_def)

lemma mb_simps [simp]:
  "mb_get i g s = Ok (g (mboxes s i), s)" "mb_set i f s = Ok ((), s\<lparr>mboxes := (mboxes s)(i := f (mboxes s i))\<rparr>)"
  by (simp_all add: mb_get_def mb_set_def)

lemma mbox_send_room:
  assumes "at_rest p s" and "0 \<le> i" "i < 32" and "mbox_ok (mboxes s (nat i))" and "mb_count (mboxes s (nat i)) < 16"
  shows "mbox_send i msg s = Ok (0, woken_up (Some (Chan_mbox (nat i)))
    (s\<lparr>mboxes := (mboxes s)(nat i := mbox_put msg (mboxes s (nat i)))\<rparr>))"
proof -
  have "mb_tail (mboxes s (nat i)) < 16" using assms(4) by (simp add: mbox_ok_def)
  then show ?thesis
    using assms at_restD [OF assms(1)]
    by (simp add: mbox_send_def Let_def acquire_calm wakeup_under release_with_lock not_le)
qed

lemma mbox_send_full:
  assumes "at_rest p s" and "0 \<le> i" "i < 32" and "mb_count (mboxes s (nat i)) = 16"
  shows "mbox_send i msg s = Sleep (with_lock (Proc_lock p) (asleep (Chan_mbox (nat i)) p s))"
  using assms at_restD [OF assms(1)] sleep_eq [of s p "Mbox_lock (nat i)" "Chan_mbox (nat i)"]
  by (simp add: mbox_send_def Let_def acquire_calm not_le)

lemma mbox_recv_some:
  assumes "at_rest p s" and "0 \<le> i" "i < 32" and "mbox_ok (mboxes s (nat i))" and "mb_count (mboxes s (nat i)) \<noteq> 0"
  shows "mbox_recv i s = Ok ((0, Some (mbox_front (mboxes s (nat i)))), woken_up (Some (Chan_mbox (nat i)))
    (s\<lparr>mboxes := (mboxes s)(nat i := mbox_get (mboxes s (nat i)))\<rparr>))"
proof -
  have "mb_head (mboxes s (nat i)) < 16" using assms(4) by (simp add: mbox_ok_def)
  then show ?thesis
    using assms at_restD [OF assms(1)]
    by (simp add: mbox_recv_def Let_def acquire_calm wakeup_under release_with_lock not_le)
qed

lemma mbox_recv_empty:
  assumes "at_rest p s" and "0 \<le> i" "i < 32" and "mb_count (mboxes s (nat i)) = 0"
  shows "mbox_recv i s = Sleep (with_lock (Proc_lock p) (asleep (Chan_mbox (nat i)) p s))"
  using assms at_restD [OF assms(1)] sleep_eq [of s p "Mbox_lock (nat i)" "Chan_mbox (nat i)"]
  by (simp add: mbox_recv_def Let_def acquire_calm not_le)

lemma mbox_send_Ok:
  assumes "at_rest p s" and "0 \<le> i" "i < 32" and "mbox_ok (mboxes s (nat i))" and "mbox_send i msg s = Ok (r, t)"
  shows "r = 0" "mboxes t = (mboxes s)(nat i := mbox_put msg (mboxes s (nat i)))" "length (mbox_items (mboxes s (nat i))) < 16"
proof -
  have "mb_count (mboxes s (nat i)) \<noteq> 16" using mbox_send_full [OF assms(1-3)] assms(5) by auto
  then have c: "mb_count (mboxes s (nat i)) < 16" using assms(4) by (simp add: mbox_ok_def)
  then show "length (mbox_items (mboxes s (nat i))) < 16" by (simp add: mbox_items_def)
  from mbox_send_room [OF assms(1-4) c, of msg] assms(5)
  show "r = 0" "mboxes t = (mboxes s)(nat i := mbox_put msg (mboxes s (nat i)))" by auto
qed

lemma mbox_recv_Ok:
  assumes "at_rest p s" and "0 \<le> i" "i < 32" and "mbox_ok (mboxes s (nat i))" and "mbox_recv i s = Ok ((r, v), t)"
  shows "v = Some (mbox_front (mboxes s (nat i)))" "mboxes t = (mboxes s)(nat i := mbox_get (mboxes s (nat i)))"
    "mbox_items (mboxes s (nat i)) \<noteq> []"
proof -
  have c: "mb_count (mboxes s (nat i)) \<noteq> 0" using mbox_recv_empty [OF assms(1-3)] assms(5) by auto
  then show "mbox_items (mboxes s (nat i)) \<noteq> []" by (simp add: mbox_items_def)
  from mbox_recv_some [OF assms(1-4) c] assms(5)
  show "v = Some (mbox_front (mboxes s (nat i)))" "mboxes t = (mboxes s)(nat i := mbox_get (mboxes s (nat i)))" by auto
qed

section \<open>Properties\<close>

text \<open>
  Any number of processes send to and receive from mailbox \<open>i\<close>: \<open>mbox_trace i s sent received t\<close> says that
  \<open>sent\<close> and \<open>received\<close> are the messages of the completed calls, in order. Between two calls anything may
  happen to the machine that leaves the mailbox alone.
\<close>

inductive mbox_trace :: "int \<Rightarrow> kmbox \<Rightarrow> int list \<Rightarrow> int list \<Rightarrow> kmbox \<Rightarrow> bool" for i s where
  start: "mbox_trace i s [] [] s"
| other: "mbox_trace i s xs ys t \<Longrightarrow> mboxes u (nat i) = mboxes t (nat i) \<Longrightarrow> mbox_trace i s xs ys u"
| send: "mbox_trace i s xs ys t \<Longrightarrow> at_rest p t \<Longrightarrow> mbox_send i msg t = Ok (0, u) \<Longrightarrow> mbox_trace i s (xs @ [msg]) ys u"
| recv: "mbox_trace i s xs ys t \<Longrightarrow> at_rest p t \<Longrightarrow> mbox_recv i t = Ok ((0, Some v), u) \<Longrightarrow> mbox_trace i s xs (ys @ [v]) u"

text \<open>
  C16: a mailbox delivers messages in order. Whatever the interleaving of sends and receives by whatever
  processes, the messages received so far followed by those still in the mailbox are the messages it held at
  the start followed by those sent since: nothing is lost, duplicated or reordered, and at most 16 messages
  are stored.
\<close>

theorem mbox_fifo:
  assumes "mbox_trace i s sent received t" and "mbox_ok (mboxes s (nat i))" and "0 \<le> i" "i < 32"
  shows "mbox_ok (mboxes t (nat i)) \<and> length (mbox_items (mboxes t (nat i))) \<le> 16
    \<and> received @ mbox_items (mboxes t (nat i)) = mbox_items (mboxes s (nat i)) @ sent"
  using assms(1)
proof (induction rule: mbox_trace.induct)
  case start
  then show ?case using assms(2) mbq.bounded by simp
next
  case (other xs ys t u)
  then show ?case by simp
next
  case (send xs ys t p msg u)
  note ok = send.IH [THEN conjunct1] and E = mbox_send_Ok [OF send(2) assms(3,4) send.IH [THEN conjunct1] send(3)]
  show ?case
    using E send.IH mbq.put_items [OF ok E(3)] mbq.put_inv [OF ok E(3)] mbq.bounded [OF mbq.put_inv [OF ok E(3)]] by simp
next
  case (recv xs ys t p v u)
  note ok = recv.IH [THEN conjunct1] and E = mbox_recv_Ok [OF recv(2) assms(3,4) recv.IH [THEN conjunct1] recv(3)]
  show ?case
    using E recv.IH mbq.get_items [OF ok E(3)] mbq.get_inv [OF ok E(3)] mbq.front_items [OF ok E(3)]
      mbq.bounded [OF mbq.get_inv [OF ok E(3)]] by simp
qed

definition empty_mboxes :: kmbox where
  "empty_mboxes = ksleep.extend no_sleeplocks
     \<lparr>mboxes = (\<lambda>_. \<lparr>mb_key = - 1, mb_buf = (\<lambda>_. 0), mb_head = 0, mb_tail = 0, mb_count = 0\<rparr>)\<rparr>"

theorem mbox_fifo_witness:
  "\<exists>t. mbox_trace 3 empty_mboxes [7] [] t \<and> [] @ mbox_items (mboxes t 3) = [7]"
proof -
  have r: "at_rest 0 empty_mboxes" and m: "mboxes empty_mboxes 3 = \<lparr>mb_key = - 1, mb_buf = (\<lambda>_. 0), mb_head = 0, mb_tail = 0, mb_count = 0\<rparr>"
    by (simp_all add: empty_mboxes_def no_sleeplocks_def ksleep.extend_def kprocs.extend_def at_rest_def calm_def
        avail_def cur_def one_proc_def)
  have ok: "mbox_ok (mboxes empty_mboxes (nat 3))" by (simp add: m mbox_ok_def)
  obtain t where t: "mbox_send 3 7 empty_mboxes = Ok (0, t)"
    using mbox_send_room [OF r _ _ ok, of 7] m by auto
  have tr: "mbox_trace 3 empty_mboxes ([] @ [7]) [] t"
    by (rule mbox_trace.send [OF mbox_trace.start r t])
  then show ?thesis using mbox_fifo [OF tr ok] m by (auto simp: mbox_items_def)
qed

end
