(* ===== verification/Shm.thy ===== *)
theory Shm
  imports Mbox Vm_Properties
begin

text \<open>
  \<open>kernel/shm.c\<close>: shared memory pages named by a key. A table of 16 entries holds the key, the page and a
  count of users; \<open>shm_get\<close> maps the page above the memory of the calling process. The diagnostic \<open>printf\<close>
  calls are not modelled.
\<close>

unbundle bit_operations_syntax

abbreviation (input) SHM_MAX :: nat where "SHM_MAX \<equiv> 16"

record kshm = kmbox +
  shm_pages :: "nat \<Rightarrow> addr"
  shm_keys :: "nat \<Rightarrow> int"
  shm_refcnt :: "nat \<Rightarrow> int"

definition shm_set :: "nat \<Rightarrow> addr \<Rightarrow> int \<Rightarrow> int \<Rightarrow> ('z kshm_scheme, unit) kmon" where
  "shm_set i page key n = kmodify (\<lambda>s. s\<lparr>shm_pages := (shm_pages s)(i := page), shm_keys := (shm_keys s)(i := key),
     shm_refcnt := (shm_refcnt s)(i := n)\<rparr>)"

definition shminit :: "('z kshm_scheme, unit) kmon" where
  "shminit = kbind (initlock Shm_lock) (\<lambda>_. kfor (\<lambda>i. shm_set i 0 (- 1) 0) [0..<SHM_MAX])"

text \<open>The search for an entry with a key, the same in all three calls.\<close>

fun shm_find :: "int \<Rightarrow> nat list \<Rightarrow> ('z kshm_scheme, nat option) kmon" where
  "shm_find key [] = kret None"
| "shm_find key (i # is) =
     kbind (kgets (\<lambda>s. shm_keys s i = key \<and> shm_pages s i \<noteq> 0)) (\<lambda>hit.
     if hit then kret (Some i) else shm_find key is)"

fun shm_alloc :: "int \<Rightarrow> nat list \<Rightarrow> ('z kshm_scheme, int) kmon" where
  "shm_alloc key [] = kbind (release Shm_lock) (\<lambda>_. kret (- 1))"
| "shm_alloc key (i # is) =
     kbind (kgets (\<lambda>s. shm_keys s i)) (\<lambda>k.
     if k = - 1 then
       kbind (on_mem kalloc) (\<lambda>page.
       if page = 0 then kbind (release Shm_lock) (\<lambda>_. kret (- 1)) else
       kbind (on_mem (zero_page page)) (\<lambda>_.
       kbind (shm_set i page key 1) (\<lambda>_.
       kbind (release Shm_lock) (\<lambda>_. kret (int i)))))
     else shm_alloc key is)"

definition shm_create :: "int \<Rightarrow> ('z kshm_scheme, int) kmon" where
  "shm_create key =
     kbind (acquire Shm_lock) (\<lambda>_.
     kbind (shm_find key [0..<SHM_MAX]) (\<lambda>found.
     case found of Some i \<Rightarrow> kbind (release Shm_lock) (\<lambda>_. kret (int i))
     | None \<Rightarrow> shm_alloc key [0..<SHM_MAX]))"

definition shm_get :: "int \<Rightarrow> ('z kshm_scheme, uint64) kmon" where
  "shm_get key =
     kbind myproc (\<lambda>me.
     case me of None \<Rightarrow> kret 0 | Some p \<Rightarrow>
     kbind (acquire Shm_lock) (\<lambda>_.
     kbind (shm_find key [0..<SHM_MAX]) (\<lambda>found.
     case found of None \<Rightarrow> kbind (release Shm_lock) (\<lambda>_. kret 0) | Some i \<Rightarrow>
     kbind (kgets (\<lambda>s. shm_pages s i)) (\<lambda>pa.
     if pa AND (PGSIZE - 1) \<noteq> 0 then kbind (release Shm_lock) (\<lambda>_. kret 0) else
     kbind (pget p sz) (\<lambda>size.
     let va = (if PGROUNDUP size < PGSIZE then PGSIZE else PGROUNDUP size) in
     kbind (pget p pagetable) (\<lambda>pt.
     kbind (on_mem (mappages pt va PGSIZE pa (PTE_V OR PTE_R OR PTE_W OR PTE_U))) (\<lambda>r.
     if r < 0 then kbind (release Shm_lock) (\<lambda>_. kret 0) else
     kbind (if size < va + PGSIZE then pset p (\<lambda>q. q\<lparr>sz := va + PGSIZE\<rparr>) else kret ()) (\<lambda>_.
     kbind (kmodify (\<lambda>s. s\<lparr>shm_refcnt := (shm_refcnt s)(i := shm_refcnt s i + 1)\<rparr>)) (\<lambda>_.
     kbind (release Shm_lock) (\<lambda>_. kret va))))))))))"

definition shm_close :: "int \<Rightarrow> ('z kshm_scheme, int) kmon" where
  "shm_close key =
     kbind (acquire Shm_lock) (\<lambda>_.
     kbind (shm_find key [0..<SHM_MAX]) (\<lambda>found.
     case found of None \<Rightarrow> kbind (release Shm_lock) (\<lambda>_. kret (- 1)) | Some i \<Rightarrow>
     kbind (kmodify (\<lambda>s. s\<lparr>shm_refcnt := (shm_refcnt s)(i := shm_refcnt s i - 1)\<rparr>)) (\<lambda>_.
     kbind (kgets (\<lambda>s. shm_refcnt s i)) (\<lambda>n.
     kbind (if n \<le> 0 then
         kbind (kgets (\<lambda>s. shm_pages s i)) (\<lambda>page.
         kbind (on_mem (kfree page)) (\<lambda>_. shm_set i 0 (- 1) 0))
       else kret ()) (\<lambda>_.
     kbind (release Shm_lock) (\<lambda>_. kret 0))))))"

section \<open>Behaviour\<close>

lemma with_lock_shm [simp]:
  "shm_pages (with_lock lk s) = shm_pages s" "shm_keys (with_lock lk s) = shm_keys s" "shm_refcnt (with_lock lk s) = shm_refcnt s"
  "shm_pages_update f (with_lock lk s) = with_lock lk (shm_pages_update f s)"
  "shm_keys_update g (with_lock lk s) = with_lock lk (shm_keys_update g s)"
  "shm_refcnt_update g (with_lock lk s) = with_lock lk (shm_refcnt_update g s)"
  by (simp_all add: with_lock_def pushed_off_def)

lemma at_rest_shm [simp]:
  "calm (shm_pages_update f s) = calm s" "calm (shm_keys_update g s) = calm s" "calm (shm_refcnt_update g s) = calm s"
  "avail lk (shm_pages_update f s) = avail lk s" "avail lk (shm_keys_update g s) = avail lk s"
  "avail lk (shm_refcnt_update g s) = avail lk s"
  "at_rest p (shm_pages_update f s) = at_rest p s" "at_rest p (shm_keys_update g s) = at_rest p s"
  "at_rest p (shm_refcnt_update g s) = at_rest p s"
  by (simp_all add: calm_def avail_def at_rest_def cur_def)

text \<open>The entry a key is found in.\<close>

definition shm_slot :: "'z kshm_scheme \<Rightarrow> int \<Rightarrow> nat option" where
  "shm_slot s key = find (\<lambda>i. shm_keys s i = key \<and> shm_pages s i \<noteq> 0) [0..<SHM_MAX]"

lemma shm_find_eq: "shm_find key is s = Ok (find (\<lambda>i. shm_keys s i = key \<and> shm_pages s i \<noteq> 0) is, s)"
  by (induction "is") auto

text \<open>
  What the table looks like: a free entry has key -1 and no page, a used entry has its own key, an allocated
  page of its own, and at least one user.
\<close>

definition shm_ok :: "'z kshm_scheme \<Rightarrow> bool" where
  "shm_ok s \<longleftrightarrow> kalloc_inv (mem s)
     \<and> (\<forall>i<SHM_MAX. (shm_keys s i = - 1) = (shm_pages s i = 0))
     \<and> (\<forall>i<SHM_MAX. shm_pages s i \<noteq> 0 \<longrightarrow> page_ok (mem s) (shm_pages s i) \<and> 0 < refcount (mem s) (pageidx (shm_pages s i))
          \<and> 0 < shm_refcnt s i)
     \<and> (\<forall>i<SHM_MAX. \<forall>j<SHM_MAX. shm_pages s i \<noteq> 0 \<longrightarrow> shm_pages s j \<noteq> 0 \<longrightarrow> i \<noteq> j \<longrightarrow>
          shm_keys s i \<noteq> shm_keys s j \<and> shm_pages s i \<noteq> shm_pages s j)"

definition shm_filled :: "nat \<Rightarrow> addr \<Rightarrow> int \<Rightarrow> int \<Rightarrow> 'z kshm_scheme \<Rightarrow> 'z kshm_scheme" where
  "shm_filled i page key n s = s\<lparr>shm_pages := (shm_pages s)(i := page), shm_keys := (shm_keys s)(i := key),
     shm_refcnt := (shm_refcnt s)(i := n)\<rparr>"

lemma shm_alloc_eq:
  assumes "calm s" and "avail Shm_lock s" and "kalloc_inv (mem s)"
  shows "shm_alloc key is (with_lock Shm_lock s) = (case find (\<lambda>i. shm_keys s i = - 1) is of None \<Rightarrow> Ok (- 1, s)
    | Some i \<Rightarrow> if free_set (mem s) = {} then Ok (- 1, s)
      else (case kalloc (mem s) of Ok (pg, u) \<Rightarrow>
        Ok (int i, shm_filled i pg key 1 (s\<lparr>mem := zeroed pg u\<rparr>)) | _ \<Rightarrow> Block))"
proof (induction "is")
  case Nil
  then show ?case using assms by (simp add: release_with_lock)
next
  case (Cons i "is")
  show ?case
  proof (cases "shm_keys s i = - 1")
    case False
    then show ?thesis using Cons by simp
  next
    case True
    show ?thesis
    proof (cases rule: kalloc_took [OF assms(3)])
      case 1
      then show ?thesis
        using True assms on_mem_Ok [of kalloc "with_lock Shm_lock s" 0 "mem s"] by (simp add: release_with_lock)
    next
      case (2 pg u)
      have ne: "free_set (mem s) \<noteq> {}" using tookD(1) [OF 2(3)] by blast
      have "on_mem kalloc (with_lock Shm_lock s) = Ok (pg, with_lock Shm_lock (s\<lparr>mem := u\<rparr>))"
        using on_mem_Ok [of kalloc "with_lock Shm_lock s" pg u] 2(1) by simp
      moreover have "on_mem (zero_page pg) (with_lock Shm_lock (s\<lparr>mem := u\<rparr>)) = Ok ((), with_lock Shm_lock (s\<lparr>mem := zeroed pg u\<rparr>))"
        using on_mem_Ok [of "zero_page pg" "with_lock Shm_lock (s\<lparr>mem := u\<rparr>)"] by simp
      ultimately show ?thesis
        using True assms ne 2(1,2) release_with_lock [of "shm_filled i pg key 1 (s\<lparr>mem := zeroed pg u\<rparr>)" Shm_lock]
        by (simp add: shm_set_def shm_filled_def)
    qed
  qed
qed

text \<open>A new entry keeps the table in shape.\<close>

lemma shm_ok_fill:
  assumes ok: "shm_ok s" and i: "i < SHM_MAX" "shm_keys s i = - 1" and key: "key \<noteq> - 1" "shm_slot s key = None"
    and tk: "took (mem s) pg u"
  shows "shm_ok (shm_filled i pg key 1 (s\<lparr>mem := zeroed pg u\<rparr>))" (is "shm_ok ?t")
proof -
  note T = tookD [OF tk]
  have "pt_wf (mem s) {}" using ok by (simp add: shm_ok_def pt_wf_def tables_def)
  from took_zeroed(1,4) [OF this tk] have Z: "kalloc_inv (zeroed pg u)" "page_ok (zeroed pg u) = page_ok (mem s)"
      "refcount (zeroed pg u) = refcount u"
    using pt_wf_kalloc by (auto simp: zeroed_def)
  have pi: "shm_pages s i = 0" using ok i by (simp add: shm_ok_def)
  have ne: "shm_pages s j \<noteq> pg" "page_ok (mem s) (shm_pages s j)" if "j < SHM_MAX" "shm_pages s j \<noteq> 0" for j
    using ok that T(1) by (auto simp: shm_ok_def free_set_def)
  have nk: "shm_keys s j \<noteq> key" if "j < SHM_MAX" "shm_pages s j \<noteq> 0" for j
    using key(2) that by (auto simp: shm_slot_def find_None_iff)
  have pg: "pg \<noteq> 0" "refcount u (pageidx pg) = 1"
    using T(2) T(8) [of pg] kpages.not_null [of "mem s"] ok by (auto simp: shm_ok_def)
  have rc: "refcount u (pageidx (shm_pages s j)) = refcount (mem s) (pageidx (shm_pages s j))"
    if "j < SHM_MAX" "shm_pages s j \<noteq> 0" for j
    using ne [OF that] T(8) by simp
  have "page_ok (mem s) (shm_pages s j)" "0 < refcount (mem s) (pageidx (shm_pages s j))" "0 < shm_refcnt s j"
    if "j < SHM_MAX" "shm_pages s j \<noteq> 0" for j
    using ok that by (auto simp: shm_ok_def)
  then show ?thesis
    using ok Z pg T(2) ne nk rc key pi i unfolding shm_ok_def by (auto simp: shm_filled_def)
qed

section \<open>Properties\<close>


definition no_shm :: kshm where
  "no_shm = kmbox.extend empty_mboxes \<lparr>shm_pages = (\<lambda>_. 0), shm_keys = (\<lambda>_. - 1), shm_refcnt = (\<lambda>_. 0)\<rparr>"

lemma no_shm_facts [simp]:
  "at_rest 0 no_shm" "mem no_shm = small_machine" "shm_pages no_shm = (\<lambda>_. 0)" "shm_keys no_shm = (\<lambda>_. - 1)"
  by (simp_all add: no_shm_def empty_mboxes_def no_sleeplocks_def kmbox.extend_def ksleep.extend_def kprocs.extend_def
      at_rest_def calm_def avail_def cur_def one_proc_def)


lemma page_aligned_mask: "page_aligned a \<longleftrightarrow> a AND (PGSIZE - 1) = 0"
proof -
  have "a AND 4095 = a mod 4096" by (simp add: mask12 take_bit_eq_mask [symmetric] take_bit_eq_mod)
  then show ?thesis by (simp add: page_aligned_def)
qed

lemma shm_perm: "PTE_V OR PTE_R OR PTE_W OR PTE_U < (1024 :: uint64)"
  by simp

lemma shm_get_maps:
  assumes "at_rest p s" and wf: "pt_wf (mem s) R" and r: "pagetable (procs s p) \<in> R" and sl: "shm_slot s key = Some i"
    and al: "page_aligned (shm_pages s i)" and n: "sz (procs s p) = page_va n" "0 < n" "n < 67108863"
    and un: "\<not> pte_valid (mapping (mem s) (pagetable (procs s p)) n)" and big: "2 \<le> card (free_set (mem s))"
  obtains m where "kept (mem s) m R"
    "one_change (mem s) m R (pagetable (procs s p)) n (leaf_pte (shm_pages s i) (PTE_V OR PTE_R OR PTE_W OR PTE_U))"
    "shm_get key s = Ok (page_va n, s\<lparr>mem := m, procs := (procs s)(p := (procs s p)\<lparr>sz := page_va (Suc n)\<rparr>),
       shm_refcnt := (shm_refcnt s)(i := shm_refcnt s i + 1)\<rparr>)"
proof -
  note R = at_restD [OF assms(1)]
  let ?r = "pagetable (procs s p)" and ?pa = "shm_pages s i"
  have n': "n < 67108864" "Suc n < 67108864" using n(3) by simp_all
  have up: "PGROUNDUP (page_va n) = page_va n" by (rule PGROUNDUP_page_va [OF n'(1)])
  have big': "\<not> page_va n < PGSIZE" using n(2) unat_page_va [OF n'(1)] by (simp add: word_less_nat_alt)
  have lt: "page_va n < page_va n + PGSIZE" using page_va_less [OF n'] by (simp add: page_va_Suc)
  have fnd: "shm_find key [0..<SHM_MAX] (with_lock Shm_lock s) = Ok (Some i, with_lock Shm_lock s)"
    using sl by (simp add: shm_find_eq shm_slot_def)
  obtain m where m: "mappages ?r (page_va n) PGSIZE ?pa (PTE_V OR PTE_R OR PTE_W OR PTE_U) (mem s) = Ok (0, m)"
      "kept (mem s) m R" "one_change (mem s) m R ?r n (PA2PTE ?pa OR (PTE_V OR PTE_R OR PTE_W OR PTE_U) OR PTE_V)"
    by (rule mappages_one [OF wf r n'(1) un, of ?pa "PTE_V OR PTE_R OR PTE_W OR PTE_U"]) (use big in auto)
  have om: "on_mem (mappages ?r (page_va n) PGSIZE ?pa (PTE_V OR PTE_R OR PTE_W OR PTE_U)) (with_lock Shm_lock s)
      = Ok (0, with_lock Shm_lock (s\<lparr>mem := m\<rparr>))"
    using on_mem_Ok [of _ "with_lock Shm_lock s"] m(1) by simp
  have "shm_get key s = Ok (page_va n, s\<lparr>mem := m, procs := (procs s)(p := (procs s p)\<lparr>sz := page_va (Suc n)\<rparr>),
       shm_refcnt := (shm_refcnt s)(i := shm_refcnt s i + 1)\<rparr>)"
    using R fnd al om big' lt up n(1)
    by (simp add: shm_get_def myproc_calm acquire_calm release_with_lock page_aligned_mask Let_def page_va_Suc del: or_numerals)
  then show ?thesis using that [OF m(2)] m(3) by (simp add: leaf_pte_def)
qed

text \<open>Unmapping one mapped page with its memory drops one reference of that page.\<close>

lemma uvmunmap_single:
  assumes wf: "pt_wf m R" and r: "r \<in> R" and n: "n < 67108863" and v: "pte_valid (mapping m r n)"
    and ok: "page_ok m (PTE2PA (mapping m r n))" "0 < refcount m (pageidx (PTE2PA (mapping m r n)))"
  obtains a where "uvmunmap r (page_va n) 1 True m = Ok ((), pte_stored a 0 (dropped (PTE2PA (mapping m r n)) m))"
proof -
  have n': "n < 67108864" "Suc n < 67108864" using n by simp_all
  have lt: "page_va n < page_va n + PGSIZE" using page_va_less [OF n'] by (simp add: page_va_Suc)
  have al: "page_va n mod PGSIZE = 0" using page_va_facts(3) [OF n'(1)] by (simp add: page_aligned_def)
  have k: "kalloc_inv m" using wf by (simp add: pt_wf_def)
  show thesis
  proof (rule walk_mapping [OF wf r n'(1)])
    assume "mapping m r n = 0"
    then show thesis using v by (simp add: pte_valid_def)
  next
    fix q assume q: "walk r (page_va n) False m = Ok (pte_slot q (PX 0 (page_va n)), m)"
      "pte_slot q (PX 0 (page_va n)) \<noteq> 0" "load_pte (pte_slot q (PX 0 (page_va n))) m = Ok (mapping m r n, m)"
    have "uvmunmap r (page_va n) 1 True m =
        Ok ((), pte_stored (pte_slot q (PX 0 (page_va n))) 0 (dropped (PTE2PA (mapping m r n)) m))"
      using al lt q v ref_dec_dropped [OF k ok] by (simp add: uvmunmap_def pte_valid_def)
    then show thesis by (rule that)
  qed
qed

text \<open>
  C26: \<open>shm_get\<close> maps the shared page without taking a reference of it, so a process that maps a shared
  page and then gives the address back (what \<open>uvmdealloc\<close> does when the process shrinks or exits) drops the
  reference that \<open>shm_create\<close> took: the page is on the free list while its slot still holds the key and
  the page, and a later \<open>shm_get\<close> of the key hands out a free page.
\<close>

theorem shm_page_freed_while_listed:
  assumes rest: "at_rest p s" and wf: "pt_wf (mem s) R" and r: "pagetable (procs s p) \<in> R" and sl: "shm_slot s key = Some i"
    and pg: "page_ok (mem s) (shm_pages s i)" "refcount (mem s) (pageidx (shm_pages s i)) = 1"
    and n: "sz (procs s p) = page_va n" "0 < n" "n < 67108863"
    and un: "\<not> pte_valid (mapping (mem s) (pagetable (procs s p)) n)" and big: "2 \<le> card (free_set (mem s))"
  shows "\<exists>t m. shm_get key s = Ok (page_va n, t) \<and> uvmunmap (pagetable (procs s p)) (page_va n) 1 True (mem t) = Ok ((), m)
    \<and> shm_slot t key = Some i \<and> shm_pages t i = shm_pages s i \<and> shm_refcnt t i = shm_refcnt s i + 1
    \<and> shm_pages s i \<in> free_set m"
proof -
  let ?r = "pagetable (procs s p)" and ?pa = "shm_pages s i" and ?perm = "PTE_V OR PTE_R OR PTE_W OR PTE_U"
  have al: "page_aligned ?pa" using pg(1) by (simp add: page_ok_def)
  obtain m where m: "kept (mem s) m R" "one_change (mem s) m R ?r n (leaf_pte ?pa ?perm)"
    "shm_get key s = Ok (page_va n, s\<lparr>mem := m, procs := (procs s)(p := (procs s p)\<lparr>sz := page_va (Suc n)\<rparr>),
       shm_refcnt := (shm_refcnt s)(i := shm_refcnt s i + 1)\<rparr>)"
    by (rule shm_get_maps [OF rest wf r sl al n un big])
  note K = keptD [OF m(1)]
  have e: "mapping m ?r n = leaf_pte ?pa ?perm" using one_changeD [OF m(2) r] n(3) by simp
  note F = leaf_pte_facts [OF pg(1) shm_perm]
  have nf: "?pa \<notin> free_set (mem s)" using pg(2) by (simp add: free_set_def)
  have ok: "page_ok m ?pa" "refcount m (pageidx ?pa) = 1" using K(2) K(6) [OF pg(1) nf] pg by simp_all
  obtain a where "uvmunmap ?r (page_va n) 1 True m = Ok ((), pte_stored a 0 (dropped ?pa m))"
    by (rule uvmunmap_single [OF K(1) r n(3)]) (use e F ok in simp_all)
  moreover have "?pa \<in> free_set (dropped ?pa m)"
    using dropped_props(5) [OF _ ok(1)] K(1) ok(2) by (simp add: pt_wf_def)
  ultimately show ?thesis using m(3) sl
    by (intro exI [of _ "s\<lparr>mem := m, procs := (procs s)(p := (procs s p)\<lparr>sz := page_va (Suc n)\<rparr>),
       shm_refcnt := (shm_refcnt s)(i := shm_refcnt s i + 1)\<rparr>"] exI [of _ "pte_stored a 0 (dropped ?pa m)"])
      (simp add: shm_slot_def)
qed

theorem shm_page_freed_while_listed_witness:
  "\<exists>(s :: kshm) t m. shm_keys s 0 = 5 \<and> shm_get 5 s = Ok (4096, t) \<and> uvmunmap (pagetable (procs s 0)) 4096 1 True (mem t) = Ok ((), m)
    \<and> shm_keys t 0 = 5 \<and> shm_pages t 0 \<in> free_set m"
proof (rule demo_spaces)
  fix m r1 r2
  assume m: "uvm_inv m {r1, r2}" "\<And>n. 0 < n \<Longrightarrow> n < 67108864 \<Longrightarrow> mapping m r1 n = 0" "3 \<le> card (free_set m)"
  let ?s = "no_shm\<lparr>mem := m, procs := \<lambda>_. proc_zero\<lparr>sz := 4096, pagetable := r1\<rparr>, shm_pages := \<lambda>_. r2,
    shm_keys := (\<lambda>_. - 1)(0 := 5), shm_refcnt := (\<lambda>_. 0)(0 := 1)\<rparr>"
  have wf: "pt_wf m {r1, r2}" using m(1) by (simp add: uvm_inv_def)
  have tr: "r2 \<in> tables (pmem m) {r1, r2}" by (rule tablesI [of r2 _ "[]"]) (simp_all add: path_ok_def)
  have r2: "page_ok m r2" "refcount m (pageidx r2) = 1" using wf tr unfolding pt_wf_def by blast+
  have "0 < kend m" "kend m \<le> r2" using wf r2(1) by (simp_all add: pt_wf_def kalloc_inv_def page_ok_def)
  then have "r2 \<noteq> 0" by auto
  then have sl: "shm_slot ?s 5 = Some 0" by (simp add: shm_slot_def upt_rec)
  have pv: "page_va 1 = 4096" by (simp add: page_va_def)
  have "\<not> pte_valid (mapping m r1 1)" using m(2) [of 1] by (simp add: pte_valid_def)
  with shm_page_freed_while_listed [of 0 ?s "{r1, r2}" 5 0 1] obtain t m' where
    t: "shm_get 5 ?s = Ok (4096, t)" "uvmunmap r1 4096 1 True (mem t) = Ok ((), m')" "shm_slot t 5 = Some 0"
      "shm_pages t 0 = r2" "r2 \<in> free_set m'"
    using wf r2 sl pv m(3) by auto
  then show ?thesis
    by (intro exI [of _ ?s] exI [of _ t] exI [of _ m']) (auto simp: shm_slot_def find_Some_iff)
qed

end
