(* ===== verification/Pipe.thy ===== *)
theory Pipe
  imports Shm
begin

text \<open>
  \<open>kernel/pipe.c\<close>: a pipe is a page with a circular buffer of 512 bytes and two 32-bit counters that wrap
  around. The pipes live in a table by the address of their page; \<open>None\<close> stands for a page that holds no
  pipe (any more), and using it is undefined. The loops of reading and writing go on where they were after a
  sleep: \<open>pipewrite_loop\<close> and \<open>piperead_loop\<close> take the number of bytes moved so far. \<open>pipealloc\<close>, which
  fills in two open files, is in the theory of the file table.
\<close>

unbundle bit_operations_syntax

abbreviation (input) PIPESIZE :: nat where "PIPESIZE \<equiv> 512"

record pipe =
  pdata :: "nat \<Rightarrow> byte"
  nread :: uint
  nwrite :: uint
  readopen :: int
  writeopen :: int

record kpipes = kshm +
  pipes :: "addr \<Rightarrow> pipe option"

definition pipe_at :: "addr \<Rightarrow> ('z kpipes_scheme, pipe) kmon" where
  "pipe_at pi = kbind (kgets (\<lambda>s. pipes s pi)) (\<lambda>x. case x of None \<Rightarrow> kub ''no pipe'' | Some q \<Rightarrow> kret q)"

definition pipe_set :: "addr \<Rightarrow> pipe \<Rightarrow> ('z kpipes_scheme, unit) kmon" where
  "pipe_set pi q = kmodify (\<lambda>s. s\<lparr>pipes := (pipes s)(pi := Some q)\<rparr>)"

definition pipeclose :: "addr \<Rightarrow> bool \<Rightarrow> ('z kpipes_scheme, unit) kmon" where
  "pipeclose pi writable =
     kbind (acquire (Pipe_lock pi)) (\<lambda>_.
     kbind (pipe_at pi) (\<lambda>q.
     kbind (if writable
            then kbind (pipe_set pi (q\<lparr>writeopen := 0\<rparr>)) (\<lambda>_. wakeup (Some (Chan_pipe_read pi)))
            else kbind (pipe_set pi (q\<lparr>readopen := 0\<rparr>)) (\<lambda>_. wakeup (Some (Chan_pipe_write pi)))) (\<lambda>_.
     kbind (pipe_at pi) (\<lambda>q.
     if readopen q = 0 \<and> writeopen q = 0 then
       kbind (release (Pipe_lock pi)) (\<lambda>_.
       kbind (on_mem (kfree pi)) (\<lambda>_.
       kmodify (\<lambda>s. s\<lparr>pipes := (pipes s)(pi := None)\<rparr>)))
     else release (Pipe_lock pi)))))"

text \<open>The array accesses: \<open>data[nwrite++ % PIPESIZE] = ch\<close> and \<open>ch = data[nread++ % PIPESIZE]\<close>.\<close>

definition pipe_put :: "byte \<Rightarrow> pipe \<Rightarrow> pipe" where
  "pipe_put ch q = q\<lparr>pdata := (pdata q)(unat (nwrite q mod 512) := ch), nwrite := nwrite q + 1\<rparr>"

definition pipe_front :: "pipe \<Rightarrow> byte" where
  "pipe_front q = pdata q (unat (nread q mod 512))"

definition pipe_get :: "pipe \<Rightarrow> pipe" where
  "pipe_get q = q\<lparr>nread := nread q + 1\<rparr>"

definition pipewrite_end :: "addr \<Rightarrow> nat \<Rightarrow> ('z kpipes_scheme, int) kmon" where
  "pipewrite_end pi i =
     kbind (wakeup (Some (Chan_pipe_read pi))) (\<lambda>_.
     kbind (release (Pipe_lock pi)) (\<lambda>_. kret (int i)))"

fun pipewrite_loop :: "nat \<Rightarrow> nat \<Rightarrow> addr \<Rightarrow> uint64 \<Rightarrow> nat \<Rightarrow> ('z kpipes_scheme, int) kmon" where
  "pipewrite_loop 0 pr pi a i = pipewrite_end pi i"
| "pipewrite_loop (Suc k) pr pi a i =
     kbind (pipe_at pi) (\<lambda>q.
     kbind (if readopen q = 0 then kret True else killed pr) (\<lambda>stop.
     if stop then kbind (release (Pipe_lock pi)) (\<lambda>_. kret (- 1))
     else if nwrite q = nread q + 512 then
       kbind (wakeup (Some (Chan_pipe_read pi))) (\<lambda>_.
       kbind (sleep (Chan_pipe_write pi) (Pipe_lock pi)) (\<lambda>_. kblock))
     else
       kbind (pget pr pagetable) (\<lambda>pt.
       kbind (on_mem (copyin pt [] (a + of_nat i) 1)) (\<lambda>r.
       case r of None \<Rightarrow> pipewrite_end pi i
       | Some ch \<Rightarrow>
           kbind (pipe_set pi (pipe_put (hd ch) q)) (\<lambda>_.
           pipewrite_loop k pr pi a (i + 1))))))"

definition pipewrite :: "addr \<Rightarrow> uint64 \<Rightarrow> int \<Rightarrow> ('z kpipes_scheme, int) kmon" where
  "pipewrite pi a n =
     kbind curproc (\<lambda>pr.
     kbind (acquire (Pipe_lock pi)) (\<lambda>_.
     pipewrite_loop (nat n) pr pi a 0))"

definition piperead_end :: "addr \<Rightarrow> nat \<Rightarrow> ('z kpipes_scheme, int) kmon" where
  "piperead_end pi i =
     kbind (wakeup (Some (Chan_pipe_write pi))) (\<lambda>_.
     kbind (release (Pipe_lock pi)) (\<lambda>_. kret (int i)))"

fun piperead_loop :: "nat \<Rightarrow> nat \<Rightarrow> addr \<Rightarrow> uint64 \<Rightarrow> nat \<Rightarrow> ('z kpipes_scheme, int) kmon" where
  "piperead_loop 0 pr pi a i = piperead_end pi i"
| "piperead_loop (Suc k) pr pi a i =
     kbind (pipe_at pi) (\<lambda>q.
     if nread q = nwrite q then piperead_end pi i else
     kbind (pipe_set pi (pipe_get q)) (\<lambda>_.
     kbind (pget pr pagetable) (\<lambda>pt.
     kbind (on_mem (copyout pt (a + of_nat i) [pipe_front q])) (\<lambda>r.
     if r = - 1 then piperead_end pi i else piperead_loop k pr pi a (i + 1)))))"

definition piperead :: "addr \<Rightarrow> uint64 \<Rightarrow> int \<Rightarrow> ('z kpipes_scheme, int) kmon" where
  "piperead pi a n =
     kbind curproc (\<lambda>pr.
     kbind (acquire (Pipe_lock pi)) (\<lambda>_.
     kbind (pipe_at pi) (\<lambda>q.
     if nread q = nwrite q \<and> writeopen q \<noteq> 0 then
       kbind (killed pr) (\<lambda>k.
       if k then kbind (release (Pipe_lock pi)) (\<lambda>_. kret (- 1))
       else kbind (sleep (Chan_pipe_read pi) (Pipe_lock pi)) (\<lambda>_. kblock))
     else piperead_loop (nat n) pr pi a 0)))"

section \<open>The pipe as a queue\<close>

text \<open>The counters wrap around at \<open>2 ^ 32\<close>, a multiple of the buffer size; their difference is the fill.\<close>

definition pipe_ok :: "pipe \<Rightarrow> bool" where
  "pipe_ok q \<longleftrightarrow> nwrite q - nread q \<le> 512"

definition pipe_items :: "pipe \<Rightarrow> byte list" where
  "pipe_items q = ring PIPESIZE (pdata q) (unat (nread q)) (unat (nwrite q - nread q))"

lemma unat_mod_512: "unat ((w :: uint) mod 512) = unat w mod 512"
  by (simp add: unat_mod)

lemma nwrite_index: "unat (nwrite q) mod 512 = (unat (nread q) + unat (nwrite q - nread q)) mod 512"
proof -
  have "unat (nread q + (nwrite q - nread q)) = (unat (nread q) + unat (nwrite q - nread q)) mod 4294967296"
    by (simp only: unat_word_ariths) simp
  then show ?thesis by (simp add: mod_mod_cancel)
qed

lemma pipe_full_iff: "nwrite q = nread q + 512 \<longleftrightarrow> length (pipe_items q) = 512"
proof -
  have "nwrite q = nread q + 512 \<longleftrightarrow> nwrite q - nread q = 512" by (simp add: diff_eq_eq algebra_simps)
  also have "\<dots> \<longleftrightarrow> unat (nwrite q - nread q) = 512" by (subst word_unat_eq_iff) simp
  finally show ?thesis by (simp add: pipe_items_def)
qed

lemma pipe_empty_iff: "nread q = nwrite q \<longleftrightarrow> pipe_items q = []"
  by (auto simp: pipe_items_def unat_eq_zero)

lemma pipe_length: "length (pipe_items q) = unat (nwrite q - nread q)"
  by (simp add: pipe_items_def)

lemma pipe_ok_length: "pipe_ok q \<longleftrightarrow> length (pipe_items q) \<le> 512"
  by (simp add: pipe_ok_def pipe_length word_le_nat_alt)

lemma pipe_put_count:
  assumes "length (pipe_items q) < 512"
  shows "unat (nwrite q + 1 - nread q) = Suc (unat (nwrite q - nread q))"
proof -
  have e: "nwrite q + 1 - nread q = (nwrite q - nread q) + 1" by simp
  show ?thesis using assms unfolding e pipe_length by (subst unat_word_ariths) simp
qed

lemma pipe_get_count:
  assumes "pipe_items q \<noteq> []"
  shows "unat (nwrite q - (nread q + 1)) = unat (nwrite q - nread q) - 1"
proof -
  have e: "nwrite q - (nread q + 1) = (nwrite q - nread q) - 1" by simp
  have "nwrite q - nread q \<noteq> 0" using assms pipe_empty_iff [of q] by simp
  then show ?thesis unfolding e by (simp add: unat_minus_one)
qed

lemma nread_Suc: "unat (nread q + 1) mod 512 = Suc (unat (nread q)) mod 512"
proof -
  have "unat (nread q + 1) = Suc (unat (nread q)) mod 4294967296" by (simp only: unat_word_ariths) simp
  then show ?thesis by (simp add: mod_mod_cancel)
qed

interpretation pq: fifo pipe_ok pipe_items PIPESIZE pipe_put pipe_front pipe_get
proof
  fix q x
  show "length (pipe_items q) \<le> PIPESIZE" if "pipe_ok q" using that by (simp add: pipe_ok_length)
  show items: "pipe_items (pipe_put x q) = pipe_items q @ [x]" if "length (pipe_items q) < PIPESIZE"
    using ring_put [of "unat (nwrite q - nread q)" PIPESIZE "pdata q" "unat (nread q)" x] that pipe_put_count [OF that]
    by (simp add: pipe_items_def pipe_put_def unat_mod_512 nwrite_index)
  show "pipe_ok (pipe_put x q)" if "length (pipe_items q) < PIPESIZE" using items [OF that] that by (simp add: pipe_ok_length)
  show "pipe_front q = hd (pipe_items q)" if "pipe_items q \<noteq> []"
    using that ring_get [of "unat (nwrite q - nread q)" PIPESIZE "pdata q" "unat (nread q)"]
    by (simp add: pipe_items_def pipe_front_def unat_mod_512)
  show get: "pipe_items (pipe_get q) = tl (pipe_items q)" if "pipe_items q \<noteq> []"
  proof -
    have c: "unat (nwrite q - (nread q + 1)) = unat (nwrite q - nread q) - 1" by (rule pipe_get_count [OF that])
    have "pipe_items (pipe_get q) = ring PIPESIZE (pdata q) (unat (nread q + 1) mod 512) (unat (nwrite q - nread q) - 1)"
      using c by (simp add: pipe_items_def pipe_get_def ring_mod)
    also have "\<dots> = ring PIPESIZE (pdata q) (Suc (unat (nread q))) (unat (nwrite q - nread q) - 1)"
      by (simp only: nread_Suc ring_mod)
    finally show ?thesis using that ring_get [of "unat (nwrite q - nread q)" PIPESIZE "pdata q" "unat (nread q)"]
      by (simp add: pipe_items_def)
  qed
  show "pipe_ok (pipe_get q)" if "pipe_ok q" "pipe_items q \<noteq> []"
    using get [OF that(2)] that(1) by (simp add: pipe_ok_length)
qed

section \<open>The operations on a pipe\<close>

lemma with_lock_pipes [simp]:
  "pipes (with_lock lk s) = pipes s" "pipes_update f (with_lock lk s) = with_lock lk (pipes_update f s)"
  "calm (pipes_update f s) = calm s" "avail lk (pipes_update f s) = avail lk s"
  "cur (pipes_update f s) = cur s" "quiet (pipes_update f s) = quiet s" "at_rest p (pipes_update f s) = at_rest p s"
  "kpipes.more (with_lock lk s) = kpipes.more s"
  by (simp_all add: with_lock_def pushed_off_def calm_def avail_def cur_def quiet_def at_rest_def)

lemma pipe_at_Some [simp]: "pipes s pi = Some q \<Longrightarrow> pipe_at pi s = Ok (q, s)"
  by (simp add: pipe_at_def)

lemma pipe_set_apply [simp]: "pipe_set pi q s = Ok ((), s\<lparr>pipes := (pipes s)(pi := Some q)\<rparr>)"
  by (simp add: pipe_set_def)

lemma pipe_ends [simp]:
  "readopen (pipe_put c q) = readopen q" "writeopen (pipe_put c q) = writeopen q"
  "readopen (pipe_get q) = readopen q" "writeopen (pipe_get q) = writeopen q"
  by (simp_all add: pipe_put_def pipe_get_def)

text \<open>No byte of user memory and no mapping changed.\<close>

definition intact :: "phys \<Rightarrow> phys \<Rightarrow> addr set \<Rightarrow> bool" where
  "intact s t R \<longleftrightarrow> wrote s t R 0 0 []"

lemma wrote_intact: "wrote s t R r d [] \<Longrightarrow> intact s t R"
  by (auto simp: intact_def wrote_def)

lemma intact_refl: "uvm_inv s R \<Longrightarrow> intact s s R"
  unfolding intact_def by (rule wrote_refl)

lemma intact_trans: "intact s t R \<Longrightarrow> intact t u R \<Longrightarrow> intact s u R"
  unfolding intact_def using wrote_trans [of s t R 0 0 "[]" u 0 "[]"] by simp

lemma intactD:
  assumes "intact s t R"
  shows "uvm_inv t R" "r \<in> R \<Longrightarrow> mapping t r n = mapping s r n"
    "r \<in> R \<Longrightarrow> range_all P t r d n = range_all P s r d n"
    "r \<in> R \<Longrightarrow> unat d + n \<le> USERPAGES * 4096 \<Longrightarrow> mapped_range s r d n \<Longrightarrow> ubytes t r d n = ubytes s r d n"
proof -
  note w = wroteD [OF assms [unfolded intact_def]]
  show "uvm_inv t R" by (rule w(1))
  show m: "mapping t r n = mapping s r n" if "r \<in> R" for r n by (rule same_maps_mapping [OF w(2) that])
  show "range_all P t r d n = range_all P s r d n" if "r \<in> R" using m [OF that] by (simp add: range_all_def)
  show "ubytes t r d n = ubytes s r d n" if "r \<in> R" "unat d + n \<le> USERPAGES * 4096" "mapped_range s r d n"
  proof -
    have "ubyte t r (d + of_nat i) = ubyte s r (d + of_nat i)" if i: "i < n" for i
    proof -
      have "unat (d + of_nat i) = unat d + i" using that \<open>unat d + n \<le> _\<close> by (intro unat_add_of_nat) simp
      then show ?thesis using w(3) [OF \<open>r \<in> R\<close>, of "d + of_nat i"] that \<open>mapped_range s r d n\<close> \<open>unat d + n \<le> _\<close>
        by (simp add: range_all_def)
    qed
    then show ?thesis by (simp add: ubytes_def)
  qed
qed

lemma ubytes_Suc: "ubytes s r d (Suc k) = ubyte s r d # ubytes s r (d + 1) k"
  using ubytes_add [of s r d 1 k] by (simp add: ubytes_def)

lemma range_all_Suc: "range_all P s r d (Suc k) \<longleftrightarrow> P (mapping s r (vpn d)) \<and> range_all P s r (d + 1) k"
  unfolding range_all_def by (auto simp: less_Suc_eq_0_disj add.assoc)

text \<open>
  A process that moves bytes through the pipe: \<open>moved\<close> relates the state before and after, with the pipe's
  new contents; nothing else of the kernel changed but the states of the processes that were woken.
\<close>

definition moved :: "addr \<Rightarrow> pipe \<Rightarrow> 'z kpipes_scheme \<Rightarrow> 'z kpipes_scheme \<Rightarrow> bool" where
  "moved pi q s t \<longleftrightarrow> pipes t = (pipes s)(pi := Some q) \<and> kpipes.more t = kpipes.more s
     \<and> (\<forall>x. pagetable (procs t x) = pagetable (procs s x) \<and> pkilled (procs t x) = pkilled (procs s x))"

definition waits_on :: "chan \<Rightarrow> nat \<Rightarrow> 'z kprocs_scheme \<Rightarrow> bool" where
  "waits_on ch p t \<longleftrightarrow> pstate (procs t p) = SLEEPING \<and> pchan (procs t p) = Some ch \<and> (\<forall>lk. avail lk t \<longleftrightarrow> lk \<noteq> Proc_lock p)"

lemma woken_fields [simp]:
  "pagetable (woken ch me P ps x) = pagetable (ps x)" "pkilled (woken ch me P ps x) = pkilled (ps x)"
  by (simp_all add: woken_def)

lemma copyin_byte:
  assumes "uvm_inv s R" and "r \<in> R" and "unat d < USERPAGES * 4096" and "pte_valid (mapping s r (vpn d))"
  obtains t where "copyin r [] d 1 s = Ok (Some [ubyte s r d], t)" "intact s t R"
  using copyin_result [OF assms(1,2), of d 1 "[]"] assms(3,4) that
  by (auto simp: ubytes_def range_all_def intro: wrote_intact)

lemma pipewrite_loop_result:
  assumes "at_rest p s" and "uvm_inv (mem s) R" and "r = pagetable (procs s p)" and "r \<in> R" and "pipes s pi = Some q"
    and "pipe_ok q" and "readopen q \<noteq> 0" and "pkilled (procs s p) = 0" and "unat a + (i + k) \<le> USERPAGES * 4096"
    and "mapped_range (mem s) r (a + of_nat i) k"
  shows "\<exists>t. moved pi (pq.puts (take (512 - length (pipe_items q)) (ubytes (mem s) r (a + of_nat i) k)) q) s t
      \<and> intact (mem s) (mem t) R
      \<and> (if k \<le> 512 - length (pipe_items q)
         then pipewrite_loop k p pi a i (with_lock (Pipe_lock pi) s) = Ok (int (i + k), t) \<and> at_rest p t
         else pipewrite_loop k p pi a i (with_lock (Pipe_lock pi) s) = Sleep t \<and> waits_on (Chan_pipe_write pi) p t)"
  using assms
proof (induction k arbitrary: s q i)
  case 0
  then show ?case
    using at_restD [OF 0(1)]
    by (intro exI [of _ "woken_up (Some (Chan_pipe_read pi)) s"])
      (simp add: pipewrite_end_def wakeup_under release_with_lock moved_def intact_refl ubytes_def fun_upd_idem)
next
  case (Suc k)
  note R = at_restD [OF Suc.prems(1)]
  let ?d = "a + of_nat i"
  have kl: "killed p (with_lock (Pipe_lock pi) s) = Ok (False, with_lock (Pipe_lock pi) s)"
    using R Suc.prems(8) by (subst killed_eq) simp_all
  show ?case
  proof (cases "length (pipe_items q) = 512")
    case True
    have "at_rest p (woken_up (Some (Chan_pipe_read pi)) s)" using Suc.prems(1) by simp
    note R' = at_restD [OF this]
    have "sleep (Chan_pipe_write pi) (Pipe_lock pi) (with_lock (Pipe_lock pi) (woken_up (Some (Chan_pipe_read pi)) s))
        = Sleep (with_lock (Proc_lock p) (asleep (Chan_pipe_write pi) p (woken_up (Some (Chan_pipe_read pi)) s)))"
      using R' by (intro sleep_eq) simp_all
    then show ?thesis using True Suc.prems R kl pipe_full_iff [of q]
      by (intro exI [of _ "with_lock (Proc_lock p) (asleep (Chan_pipe_write pi) p (woken_up (Some (Chan_pipe_read pi)) s))"])
        (simp add: wakeup_under moved_def asleep_def intact_refl fun_upd_idem waits_on_def)
  next
    case False
    then have room: "length (pipe_items q) < 512" using pq.bounded [OF Suc.prems(6)] by simp
    have d: "unat ?d = unat a + i" using Suc.prems(9) by (intro unat_add_of_nat) simp
    have v: "pte_valid (mapping (mem s) r (vpn ?d))" "mapped_range (mem s) r (?d + 1) k"
      using Suc.prems(10) by (simp_all add: range_all_Suc)
    obtain m where m: "copyin r [] ?d 1 (mem s) = Ok (Some [ubyte (mem s) r ?d], m)" "intact (mem s) m R"
      by (rule copyin_byte [OF Suc.prems(2,4) _ v(1)]) (use d Suc.prems(9) in auto)
    let ?q = "pipe_put (ubyte (mem s) r ?d) q"
    let ?s = "s\<lparr>mem := m, pipes := (pipes s)(pi := Some ?q)\<rparr>"
    note I = intactD [OF m(2)]
    have e: "a + of_nat (i + 1) = ?d + 1" by (simp add: add.assoc)
    have len: "length (pipe_items ?q) = Suc (length (pipe_items q))" using pq.put_items [OF Suc.prems(6) room] by simp
    have ub: "ubytes m r (?d + 1) k = ubytes (mem s) r (?d + 1) k"
    proof (rule I(4) [OF Suc.prems(4) _ v(2)])
      have "unat (?d + 1) = unat ?d + 1" using d Suc.prems(9) by (simp add: unat_word_ariths)
      then show "unat (?d + 1) + k \<le> USERPAGES * 4096" using d Suc.prems(9) by simp
    qed
    obtain t where t: "moved pi (pq.puts (take (512 - length (pipe_items ?q)) (ubytes m r (?d + 1) k)) ?q) ?s t"
        "intact m (mem t) R"
        "if k \<le> 512 - length (pipe_items ?q)
         then pipewrite_loop k p pi a (i + 1) (with_lock (Pipe_lock pi) ?s) = Ok (int (i + 1 + k), t) \<and> at_rest p t
         else pipewrite_loop k p pi a (i + 1) (with_lock (Pipe_lock pi) ?s) = Sleep t \<and> waits_on (Chan_pipe_write pi) p t"
      using Suc.IH [of ?s ?q "i + 1"] Suc.prems I v(2) pq.put_inv [OF Suc.prems(6) room] unfolding e by auto
    have om: "on_mem (copyin r [] ?d 1) (with_lock (Pipe_lock pi) s)
        = Ok (Some [ubyte (mem s) r ?d], with_lock (Pipe_lock pi) (s\<lparr>mem := m\<rparr>))"
      using on_mem_Ok [of _ "with_lock (Pipe_lock pi) s"] m(1) by simp
    have run: "pipewrite_loop (Suc k) p pi a i (with_lock (Pipe_lock pi) s)
        = pipewrite_loop k p pi a (i + 1) (with_lock (Pipe_lock pi) ?s)"
      using Suc.prems(3,5,7) kl False pipe_full_iff [of q] om by simp
    have tk: "take (512 - length (pipe_items q)) (ubytes (mem s) r ?d (Suc k))
        = ubyte (mem s) r ?d # take (512 - length (pipe_items ?q)) (ubytes m r (?d + 1) k)"
      unfolding ub ubytes_Suc len using room by (simp add: take_Cons' Suc_diff_Suc)
    have "moved pi (pq.puts (take (512 - length (pipe_items q)) (ubytes (mem s) r ?d (Suc k))) q) s t"
      using t(1) unfolding tk by (simp add: moved_def)
    then show ?thesis unfolding run
      using t(2,3) intact_trans [OF m(2) t(2)] room len by (intro exI [of _ t]) (auto split: if_splits)
  qed
qed

lemma copyout_byte:
  assumes "uvm_inv s R" and "r \<in> R" and "unat d < USERPAGES * 4096" and "writable_entry (mapping s r (vpn d))"
  obtains t where "copyout r d [c] s = Ok (0, t)" "wrote s t R r d [c]"
proof -
  have "unat d + length [c] \<le> USERPAGES * 4096" using assms(3) by simp
  from copyout_result [OF assms(1,2) this] obtain res t k where c: "copyout r d [c] s = Ok (res, t)" "wrote s t R r d (take k [c])"
      "res = 0 \<and> k = length [c] \<or> res = - 1 \<and> k < length [c] \<and> \<not> writable_entry (mapping s r (vpn (d + of_nat k)))" by blast
  then have "res = 0" "k = 1" using assms(4) by auto
  then show thesis using that c(1,2) by simp
qed

lemma piperead_loop_result:
  assumes "at_rest p s" and "uvm_inv (mem s) R" and "r = pagetable (procs s p)" and "r \<in> R" and "pipes s pi = Some q"
    and "pipe_ok q" and "unat a + (i + k) \<le> USERPAGES * 4096"
    and "range_all writable_entry (mem s) r (a + of_nat i) (min k (length (pipe_items q)))"
  shows "\<exists>t. moved pi (pq.gets (min k (length (pipe_items q))) q) s t \<and> at_rest p t
      \<and> wrote (mem s) (mem t) R r (a + of_nat i) (take k (pipe_items q))
      \<and> piperead_loop k p pi a i (with_lock (Pipe_lock pi) s) = Ok (int (i + min k (length (pipe_items q))), t)"
  using assms
proof (induction k arbitrary: s q i)
  case 0
  then show ?case
    using at_restD [OF 0(1)]
    by (intro exI [of _ "woken_up (Some (Chan_pipe_write pi)) s"])
      (simp add: piperead_end_def wakeup_under release_with_lock moved_def wrote_refl fun_upd_idem)
next
  case (Suc k)
  note R = at_restD [OF Suc.prems(1)]
  let ?d = "a + of_nat i"
  show ?case
  proof (cases "pipe_items q")
    case Nil
    then show ?thesis
      using R Suc.prems pipe_empty_iff [of q]
      by (intro exI [of _ "woken_up (Some (Chan_pipe_write pi)) s"])
        (simp add: piperead_end_def wakeup_under release_with_lock moved_def wrote_refl fun_upd_idem)
  next
    case (Cons c cs)
    then have ne: "pipe_items q \<noteq> []" by simp
    have fr: "pipe_front q = c" "pipe_items (pipe_get q) = cs" "pipe_ok (pipe_get q)"
      using pq.front_items [OF Suc.prems(6) ne] pq.get_items [OF Suc.prems(6) ne] pq.get_inv [OF Suc.prems(6) ne] Cons by simp_all
    have d: "unat ?d = unat a + i" using Suc.prems(7) by (intro unat_add_of_nat) simp
    have d1: "unat (?d + 1) = unat ?d + 1" using d Suc.prems(7) by (simp add: unat_word_ariths)
    have v: "writable_entry (mapping (mem s) r (vpn ?d))" "range_all writable_entry (mem s) r (?d + 1) (min k (length cs))"
      using Suc.prems(8) Cons by (simp_all add: range_all_Suc)
    obtain m where m: "copyout r ?d [c] (mem s) = Ok (0, m)" "wrote (mem s) m R r ?d [c]"
      by (rule copyout_byte [OF Suc.prems(2,4) _ v(1)]) (use d Suc.prems(7) in auto)
    let ?s = "s\<lparr>mem := m, pipes := (pipes s)(pi := Some (pipe_get q))\<rparr>"
    have e: "a + of_nat (i + 1) = ?d + 1" by (simp add: add.assoc)
    have mp: "range_all P m r d' n = range_all P (mem s) r d' n" for P d' n
      using same_maps_mapping [OF wroteD(2) [OF m(2)] Suc.prems(4)] by (simp add: range_all_def)
    have v2: "range_all writable_entry m r (?d + 1) (min k (length cs))" using v(2) by (simp add: mp)
    obtain t where t: "moved pi (pq.gets (min k (length cs)) (pipe_get q)) ?s t" "at_rest p t"
        "wrote m (mem t) R r (?d + 1) (take k cs)"
        "piperead_loop k p pi a (i + 1) (with_lock (Pipe_lock pi) ?s) = Ok (int (i + 1 + min k (length cs)), t)"
      using Suc.IH [of ?s "pipe_get q" "i + 1"] Suc.prems fr v2 wroteD(1) [OF m(2)] unfolding e by auto
    have om: "on_mem (copyout r ?d [c]) (with_lock (Pipe_lock pi) (s\<lparr>pipes := (pipes s)(pi := Some (pipe_get q))\<rparr>))
        = Ok (0, with_lock (Pipe_lock pi) (s\<lparr>pipes := (pipes s)(pi := Some (pipe_get q)), mem := m\<rparr>))"
      using on_mem_Ok [of _ "with_lock (Pipe_lock pi) (s\<lparr>pipes := (pipes s)(pi := Some (pipe_get q))\<rparr>)"] m(1) by simp
    have sw: "s\<lparr>pipes := x, mem := m\<rparr> = s\<lparr>mem := m, pipes := x\<rparr>" for x by simp
    have run: "piperead_loop (Suc k) p pi a i (with_lock (Pipe_lock pi) s)
        = piperead_loop k p pi a (i + 1) (with_lock (Pipe_lock pi) ?s)"
      using Suc.prems(3,5) om ne pipe_empty_iff [of q] fr(1) unfolding sw by simp
    have "wrote (mem s) (mem t) R r ?d (c # take k cs)" using wrote_trans [OF m(2) t(3)] d1 by simp
    then show ?thesis unfolding run using t(1,2,4) Cons by (intro exI [of _ t]) (simp add: moved_def)
  qed
qed

section \<open>Properties\<close>

lemma moved_pipe: "moved pi q s t \<Longrightarrow> pipes t pi = Some q"
  by (simp add: moved_def)


definition empty_pipe :: pipe where
  "empty_pipe = \<lparr>pdata = (\<lambda>_. 0), nread = 0xFFFFFFFF, nwrite = 0xFFFFFFFF, readopen = 1, writeopen = 1\<rparr>"

definition one_pipe :: "phys \<Rightarrow> addr \<Rightarrow> kpipes" where
  "one_pipe m r = kshm.extend (no_shm\<lparr>mem := m, procs := \<lambda>_. proc_zero\<lparr>pagetable := r\<rparr>\<rparr>)
     \<lparr>pipes = (\<lambda>_. None)(0x87000000 := Some empty_pipe)\<rparr>"

lemma one_pipe_facts [simp]:
  "at_rest 0 (one_pipe m r)" "mem (one_pipe m r) = m" "pagetable (procs (one_pipe m r) 0) = r"
  "pkilled (procs (one_pipe m r) 0) = 0" "pipes (one_pipe m r) 0x87000000 = Some empty_pipe"
  by (simp_all add: one_pipe_def no_shm_def empty_mboxes_def no_sleeplocks_def kshm.extend_def kmbox.extend_def
      ksleep.extend_def kprocs.extend_def at_rest_def calm_def avail_def cur_def one_proc_def proc_zero_def)


end
