(* ===== verification/Uart.thy ===== *)
theory Uart
  imports Pipe
begin

text \<open>
  \<open>kernel/uart.c\<close> and \<open>consputc\<close> of \<open>kernel/console.c\<close>: the driver of the 16550a serial port. The device
  is modelled by what the driver sees of it: the control registers last written, the bytes accepted by the
  transmit register in order (\<open>uart_sent\<close>), the received bytes that wait in the receive register (\<open>uart_rx\<close>),
  and whether the transmitter is idle, which the device may change between two steps of the driver.
\<close>

unbundle bit_operations_syntax

abbreviation (input) RHR :: nat where "RHR \<equiv> 0"
abbreviation (input) THR :: nat where "THR \<equiv> 0"
abbreviation (input) IER :: nat where "IER \<equiv> 1"
abbreviation (input) FCR :: nat where "FCR \<equiv> 2"
abbreviation (input) ISR :: nat where "ISR \<equiv> 2"
abbreviation (input) LCR :: nat where "LCR \<equiv> 3"
abbreviation (input) LSR :: nat where "LSR \<equiv> 5"
abbreviation (input) IER_RX_ENABLE :: byte where "IER_RX_ENABLE \<equiv> 1"
abbreviation (input) IER_TX_ENABLE :: byte where "IER_TX_ENABLE \<equiv> 2"
abbreviation (input) FCR_FIFO_ENABLE :: byte where "FCR_FIFO_ENABLE \<equiv> 1"
abbreviation (input) FCR_FIFO_CLEAR :: byte where "FCR_FIFO_CLEAR \<equiv> 6"
abbreviation (input) LCR_EIGHT_BITS :: byte where "LCR_EIGHT_BITS \<equiv> 3"
abbreviation (input) LCR_BAUD_LATCH :: byte where "LCR_BAUD_LATCH \<equiv> 128"
abbreviation (input) LSR_RX_READY :: byte where "LSR_RX_READY \<equiv> 1"
abbreviation (input) LSR_TX_IDLE :: byte where "LSR_TX_IDLE \<equiv> 32"

record kuart = kpipes +
  uart_regs :: "nat \<Rightarrow> byte"
  uart_baud :: "nat \<Rightarrow> byte"
  uart_sent :: "byte list"
  uart_rx :: "byte list"
  uart_idle :: bool
  tx_busy :: int
  panicking :: int
  panicked :: int

text \<open>
  With the latch bit of the line control register set, registers 0 and 1 hold the baud rate. Reading the
  receive register takes the byte out of it.
\<close>

definition WriteReg :: "nat \<Rightarrow> byte \<Rightarrow> ('z kuart_scheme, unit) kmon" where
  "WriteReg reg v = kmodify (\<lambda>s.
     if reg \<le> 1 \<and> uart_regs s LCR AND LCR_BAUD_LATCH \<noteq> 0 then s\<lparr>uart_baud := (uart_baud s)(reg := v)\<rparr>
     else if reg = THR then s\<lparr>uart_sent := uart_sent s @ [v]\<rparr>
     else s\<lparr>uart_regs := (uart_regs s)(reg := v)\<rparr>)"

definition ReadReg :: "nat \<Rightarrow> ('z kuart_scheme, byte) kmon" where
  "ReadReg reg =
     (if reg = LSR then kgets (\<lambda>s. (if uart_rx s \<noteq> [] then LSR_RX_READY else 0) OR (if uart_idle s then LSR_TX_IDLE else 0))
      else if reg = RHR then
        kbind (kgets uart_rx) (\<lambda>rx.
        case rx of [] \<Rightarrow> kret 0 | c # cs \<Rightarrow> kbind (kmodify (\<lambda>s. s\<lparr>uart_rx := cs\<rparr>)) (\<lambda>_. kret c))
      else kgets (\<lambda>s. uart_regs s reg))"

definition uartinit :: "('z kuart_scheme, unit) kmon" where
  "uartinit =
     kbind (WriteReg IER 0) (\<lambda>_.
     kbind (WriteReg LCR LCR_BAUD_LATCH) (\<lambda>_.
     kbind (WriteReg 0 3) (\<lambda>_.
     kbind (WriteReg 1 0) (\<lambda>_.
     kbind (WriteReg LCR LCR_EIGHT_BITS) (\<lambda>_.
     kbind (WriteReg FCR (FCR_FIFO_ENABLE OR FCR_FIFO_CLEAR)) (\<lambda>_.
     kbind (WriteReg IER (IER_TX_ENABLE OR IER_RX_ENABLE)) (\<lambda>_.
     initlock Uart_lock)))))))"

text \<open>The rest of the bytes to send; a sender that sleeps goes on with them when it runs again.\<close>

fun uartwrite_loop :: "byte list \<Rightarrow> ('z kuart_scheme, unit) kmon" where
  "uartwrite_loop [] = release Uart_lock"
| "uartwrite_loop (c # buf) =
     kbind (kgets tx_busy) (\<lambda>busy.
     if busy \<noteq> 0 then kbind (sleep Chan_uart Uart_lock) (\<lambda>_. kblock) else
     kbind (WriteReg THR c) (\<lambda>_.
     kbind (kmodify (\<lambda>s. s\<lparr>tx_busy := 1\<rparr>)) (\<lambda>_.
     uartwrite_loop buf)))"

definition uartwrite :: "byte list \<Rightarrow> ('z kuart_scheme, unit) kmon" where
  "uartwrite buf = kbind (acquire Uart_lock) (\<lambda>_. uartwrite_loop buf)"

definition uartputc_sync :: "byte \<Rightarrow> ('z kuart_scheme, unit) kmon" where
  "uartputc_sync c =
     kbind (kgets panicking) (\<lambda>pk.
     kbind (if pk = 0 then push_off else kret ()) (\<lambda>_.
     kbind (kgets panicked) (\<lambda>pd.
     if pd \<noteq> 0 then kblock else
     kbind (ReadReg LSR) (\<lambda>l.
     if l AND LSR_TX_IDLE = 0 then kblock else
     kbind (WriteReg THR c) (\<lambda>_.
     kbind (kgets panicking) (\<lambda>pk.
     if pk = 0 then pop_off else kret ()))))))"

definition uartgetc :: "('z kuart_scheme, int) kmon" where
  "uartgetc =
     kbind (ReadReg LSR) (\<lambda>l.
     if l AND LSR_RX_READY \<noteq> 0 then kbind (ReadReg RHR) (\<lambda>c. kret (uint c)) else kret (- 1))"

text \<open>\<open>consputc\<close> takes an \<open>int\<close>: a character or the code for a backspace.\<close>

abbreviation (input) BACKSPACE :: int where "BACKSPACE \<equiv> 256"

definition consputc :: "int \<Rightarrow> ('z kuart_scheme, unit) kmon" where
  "consputc c =
     (if c = BACKSPACE then
        kbind (uartputc_sync 8) (\<lambda>_. kbind (uartputc_sync 32) (\<lambda>_. uartputc_sync 8))
      else uartputc_sync (word_of_int c))"

section \<open>Output on a working port\<close>

lemma with_lock_uart [simp]:
  "uart_regs (with_lock lk s) = uart_regs s" "uart_sent (with_lock lk s) = uart_sent s" "uart_rx (with_lock lk s) = uart_rx s"
  "uart_idle (with_lock lk s) = uart_idle s" "tx_busy (with_lock lk s) = tx_busy s" "panicking (with_lock lk s) = panicking s"
  "panicked (with_lock lk s) = panicked s" "kuart.more (with_lock lk s) = kuart.more s"
  "uart_sent_update f (with_lock lk s) = with_lock lk (uart_sent_update f s)"
  "uart_rx_update f (with_lock lk s) = with_lock lk (uart_rx_update f s)"
  "tx_busy_update g (with_lock lk s) = with_lock lk (tx_busy_update g s)"
  by (simp_all add: with_lock_def pushed_off_def)

lemma uart_updates [simp]:
  "calm (uart_sent_update f s) = calm s" "avail lk (uart_sent_update f s) = avail lk s" "cur (uart_sent_update f s) = cur s"
  "quiet (uart_sent_update f s) = quiet s" "at_rest p (uart_sent_update f s) = at_rest p s"
  "calm (uart_rx_update f s) = calm s" "avail lk (uart_rx_update f s) = avail lk s" "cur (uart_rx_update f s) = cur s"
  "quiet (uart_rx_update f s) = quiet s" "at_rest p (uart_rx_update f s) = at_rest p s"
  "calm (tx_busy_update g s) = calm s" "avail lk (tx_busy_update g s) = avail lk s" "cur (tx_busy_update g s) = cur s"
  "quiet (tx_busy_update g s) = quiet s" "at_rest p (tx_busy_update g s) = at_rest p s"
  by (simp_all add: calm_def avail_def cur_def quiet_def at_rest_def)

text \<open>The port is set up, its transmitter idle and no panic is under way.\<close>

definition port_ready :: "'z kuart_scheme \<Rightarrow> bool" where
  "port_ready s \<longleftrightarrow> calm s \<and> uart_idle s \<and> panicking s = 0 \<and> panicked s = 0 \<and> uart_regs s LCR AND LCR_BAUD_LATCH = 0"

lemma port_ready_with_lock [simp]: "port_ready s \<Longrightarrow> port_ready (with_lock lk s)"
  by (simp add: port_ready_def)

lemma port_ready_sent [simp]: "port_ready (uart_sent_update f s) = port_ready s"
  by (simp add: port_ready_def)

lemma pushed_off_uart [simp]:
  "uart_regs (pushed_off s) = uart_regs s" "uart_idle (pushed_off s) = uart_idle s" "panicking (pushed_off s) = panicking s"
  "panicked (pushed_off s) = panicked s" "uart_sent (pushed_off s) = uart_sent s"
  "uart_sent_update f (pushed_off s) = pushed_off (uart_sent_update f s)"
  by (simp_all add: pushed_off_def)

lemma uartputc_sync_ready:
  "port_ready s \<Longrightarrow> uartputc_sync c s = Ok ((), s\<lparr>uart_sent := uart_sent s @ [c]\<rparr>)"
  by (simp add: uartputc_sync_def port_ready_def ReadReg_def WriteReg_def push_off_calm pop_off_pushed)

text \<open>The bytes that \<open>consputc\<close> sends.\<close>

definition echo :: "int \<Rightarrow> byte list" where
  "echo c = (if c = BACKSPACE then [8, 32, 8] else [word_of_int c])"

lemma consputc_ready: "port_ready s \<Longrightarrow> consputc c s = Ok ((), s\<lparr>uart_sent := uart_sent s @ echo c\<rparr>)"
  by (simp add: consputc_def echo_def uartputc_sync_ready)

lemma kfor_consputc:
  "port_ready s \<Longrightarrow> kfor consputc cs s = Ok ((), s\<lparr>uart_sent := uart_sent s @ concat (map echo cs)\<rparr>)"
  by (induction cs arbitrary: s) (simp_all add: consputc_ready)

end
