(* ===== verification/Printf.thy ===== *)
theory Printf
  imports Uart
begin

text \<open>
  \<open>kernel/printf.c\<close>: formatted output to the console. The variable arguments are a list of values tagged with
  the type they were passed as; taking an argument at another type, or one that was not passed, is undefined.
  Strings are their bytes without the closing NUL. In the other components \<open>panic\<close> is the outcome \<open>Panic\<close>;
  here it is the function that prints the message first.
\<close>

unbundle bit_operations_syntax

datatype vararg = Va_int "32 word" | Va_long uint64 | Va_str "byte list option"

definition digits :: "byte list" where
  "digits = map of_char ''0123456789abcdef''"

lemma div_less_word: "1 < base \<Longrightarrow> x div base \<noteq> 0 \<Longrightarrow> unat (x div base) < unat (x :: 64 word)"
proof -
  assume "1 < base" "x div base \<noteq> 0"
  then have "1 < unat base" "x \<noteq> 0" by (auto simp: word_less_nat_alt)
  then show ?thesis by (simp add: unat_div unat_gt_0)
qed

text \<open>
  The digits of \<open>x\<close>, last one first: the \<open>do ... while\<close> loop of \<open>printint\<close>. Every call passes 10 or 16 as
  the base; with a base below 2 the loop would not end.
\<close>

function printint_buf :: "uint64 \<Rightarrow> uint64 \<Rightarrow> byte list" where
  "printint_buf base x = digits ! unat (x mod base) #
     (if 1 < base \<and> x div base \<noteq> 0 then printint_buf base (x div base) else [])"
  by auto

termination
  by (relation "measure (\<lambda>(base, x). unat x)") (auto intro: div_less_word)

declare printint_buf.simps [simp del]

definition printint_chars :: "64 word \<Rightarrow> uint64 \<Rightarrow> bool \<Rightarrow> byte list" where
  "printint_chars xx base sign =
     (let neg = sign \<and> sint xx < 0; x = (if neg then - xx else xx) in
      printint_buf base x @ (if neg then [of_char (CHR ''-'')] else []))"

definition printint :: "64 word \<Rightarrow> uint64 \<Rightarrow> bool \<Rightarrow> ('z kuart_scheme, unit) kmon" where
  "printint xx base sign =
     (let buf = printint_chars xx base sign in
      if 20 < length buf then kub ''printint buf'' else kfor (\<lambda>c. consputc (uint c)) (rev buf))"

definition printptr :: "uint64 \<Rightarrow> ('z kuart_scheme, unit) kmon" where
  "printptr x =
     kbind (consputc (of_char (CHR ''0''))) (\<lambda>_.
     kbind (consputc (of_char (CHR ''x''))) (\<lambda>_.
     kfor (\<lambda>i. consputc (uint (digits ! unat (drop_bit 60 (push_bit (4 * i) x))))) [0..<16]))"

text \<open>One argument at the type the conversion asks for.\<close>

definition va_int :: "vararg list \<Rightarrow> ('s, 32 word \<times> vararg list) kmon" where
  "va_int ap = (case ap of Va_int v # ap' \<Rightarrow> kret (v, ap') | _ \<Rightarrow> kub ''va_arg'')"

definition va_long :: "vararg list \<Rightarrow> ('s, uint64 \<times> vararg list) kmon" where
  "va_long ap = (case ap of Va_long v # ap' \<Rightarrow> kret (v, ap') | _ \<Rightarrow> kub ''va_arg'')"

definition va_str :: "vararg list \<Rightarrow> ('s, byte list option \<times> vararg list) kmon" where
  "va_str ap = (case ap of Va_str v # ap' \<Rightarrow> kret (v, ap') | _ \<Rightarrow> kub ''va_arg'')"

definition fmt_at :: "byte list \<Rightarrow> nat \<Rightarrow> byte" where
  "fmt_at fmt i = (if i < length fmt then fmt ! i else 0)"

abbreviation chr :: "char \<Rightarrow> byte" where "chr \<equiv> of_char"

text \<open>
  One conversion after a \<open>%\<close>: the characters of the format it uses up, and the arguments left. \<open>c0\<close>, \<open>c1\<close>,
  \<open>c2\<close> are the next characters, 0 behind the end.
\<close>

definition printf_conv :: "byte \<Rightarrow> byte \<Rightarrow> byte \<Rightarrow> vararg list \<Rightarrow> ('z kuart_scheme, nat \<times> vararg list) kmon" where
  "printf_conv c0 c1 c2 ap =
     (if c0 = chr (CHR ''d'') then kbind (va_int ap) (\<lambda>(v, ap). kbind (printint (scast v) 10 True) (\<lambda>_. kret (1, ap)))
      else if c0 = chr (CHR ''l'') \<and> c1 = chr (CHR ''d'') then
        kbind (va_long ap) (\<lambda>(v, ap). kbind (printint v 10 True) (\<lambda>_. kret (2, ap)))
      else if c0 = chr (CHR ''l'') \<and> c1 = chr (CHR ''l'') \<and> c2 = chr (CHR ''d'') then
        kbind (va_long ap) (\<lambda>(v, ap). kbind (printint v 10 True) (\<lambda>_. kret (3, ap)))
      else if c0 = chr (CHR ''u'') then kbind (va_int ap) (\<lambda>(v, ap). kbind (printint (ucast v) 10 False) (\<lambda>_. kret (1, ap)))
      else if c0 = chr (CHR ''l'') \<and> c1 = chr (CHR ''u'') then
        kbind (va_long ap) (\<lambda>(v, ap). kbind (printint v 10 False) (\<lambda>_. kret (2, ap)))
      else if c0 = chr (CHR ''l'') \<and> c1 = chr (CHR ''l'') \<and> c2 = chr (CHR ''u'') then
        kbind (va_long ap) (\<lambda>(v, ap). kbind (printint v 10 False) (\<lambda>_. kret (3, ap)))
      else if c0 = chr (CHR ''x'') then kbind (va_int ap) (\<lambda>(v, ap). kbind (printint (ucast v) 16 False) (\<lambda>_. kret (1, ap)))
      else if c0 = chr (CHR ''l'') \<and> c1 = chr (CHR ''x'') then
        kbind (va_long ap) (\<lambda>(v, ap). kbind (printint v 16 False) (\<lambda>_. kret (2, ap)))
      else if c0 = chr (CHR ''l'') \<and> c1 = chr (CHR ''l'') \<and> c2 = chr (CHR ''x'') then
        kbind (va_long ap) (\<lambda>(v, ap). kbind (printint v 16 False) (\<lambda>_. kret (3, ap)))
      else if c0 = chr (CHR ''p'') then kbind (va_long ap) (\<lambda>(v, ap). kbind (printptr v) (\<lambda>_. kret (1, ap)))
      else if c0 = chr (CHR ''c'') then kbind (va_int ap) (\<lambda>(v, ap). kbind (consputc (sint v)) (\<lambda>_. kret (1, ap)))
      else if c0 = chr (CHR ''s'') then
        kbind (va_str ap) (\<lambda>(v, ap).
        kbind (kfor (\<lambda>c. consputc (uint c)) (case v of None \<Rightarrow> map of_char ''(null)'' | Some cs \<Rightarrow> cs)) (\<lambda>_. kret (1, ap)))
      else if c0 = chr (CHR ''%'') then kbind (consputc (of_char (CHR ''%''))) (\<lambda>_. kret (1, ap))
      else
        kbind (consputc (of_char (CHR ''%''))) (\<lambda>_.
        kbind (consputc (uint c0)) (\<lambda>_. kret (1, ap))))"

function printf_loop :: "byte list \<Rightarrow> nat \<Rightarrow> vararg list \<Rightarrow> ('z kuart_scheme, unit) kmon" where
  "printf_loop fmt i ap =
     (let cx = fmt_at fmt i in
      if cx = 0 then kret ()
      else if cx \<noteq> chr (CHR ''%'') then kbind (consputc (uint cx)) (\<lambda>_. printf_loop fmt (i + 1) ap)
      else
        let c0 = fmt_at fmt (i + 1); c1 = (if c0 \<noteq> 0 then fmt_at fmt (i + 2) else 0);
            c2 = (if c1 \<noteq> 0 then fmt_at fmt (i + 3) else 0) in
        if c0 = 0 then kret ()
        else kbind (printf_conv c0 c1 c2 ap) (\<lambda>(n, ap'). printf_loop fmt (i + 1 + n) ap'))"
  by auto

termination
  by (relation "measure (\<lambda>(fmt, i, ap). length fmt - i)") (auto simp: fmt_at_def split: if_splits)

declare printf_loop.simps [simp del]

definition printf :: "byte list \<Rightarrow> vararg list \<Rightarrow> ('z kuart_scheme, int) kmon" where
  "printf fmt ap =
     kbind (kgets panicking) (\<lambda>pk.
     kbind (if pk = 0 then acquire Pr_lock else kret ()) (\<lambda>_.
     kbind (printf_loop fmt 0 ap) (\<lambda>_.
     kbind (kgets panicking) (\<lambda>pk.
     kbind (if pk = 0 then release Pr_lock else kret ()) (\<lambda>_. kret 0)))))"

definition panic :: "byte list \<Rightarrow> ('z kuart_scheme, unit) kmon" where
  "panic msg =
     kbind (kmodify (\<lambda>s. s\<lparr>panicking := 1\<rparr>)) (\<lambda>_.
     kbind (printf (map of_char ''panic: '') []) (\<lambda>_.
     kbind (printf (map of_char ''%s'' @ [10]) [Va_str (Some msg)]) (\<lambda>_.
     kbind (kmodify (\<lambda>s. s\<lparr>panicked := 1\<rparr>)) (\<lambda>_. kblock))))"

definition printfinit :: "('z kuart_scheme, unit) kmon" where
  "printfinit = initlock Pr_lock"

section \<open>What an integer prints as\<close>

text \<open>Reading a numeral: the value of a digit, of a list of digits, and of a numeral with an optional sign.\<close>

definition digit_value :: "byte \<Rightarrow> int" where
  "digit_value c = (if c \<le> 57 then uint c - 48 else uint c - 87)"

definition digits_value :: "int \<Rightarrow> byte list \<Rightarrow> int" where
  "digits_value base cs = foldl (\<lambda>v c. v * base + digit_value c) 0 cs"

definition numeral_value :: "int \<Rightarrow> byte list \<Rightarrow> int" where
  "numeral_value base cs = (case cs of c # cs' \<Rightarrow> if c = 45 then - digits_value base cs' else digits_value base cs | [] \<Rightarrow> 0)"

lemma digits_eq: "digits = [48, 49, 50, 51, 52, 53, 54, 55, 56, 57, 97, 98, 99, 100, 101, 102]"
  by (simp add: digits_def)

lemma digit_value_digits:
  assumes "n < 16"
  shows "digit_value (digits ! n) = int n" "digits ! n \<noteq> 45"
proof -
  have "list_all (\<lambda>n. digit_value (digits ! n) = int n \<and> digits ! n \<noteq> 45) [0..<16]"
    by (simp add: upt_rec digits_eq digit_value_def)
  then show "digit_value (digits ! n) = int n" "digits ! n \<noteq> 45" using assms by (simp_all add: list_all_iff)
qed

lemma digits_value_snoc: "digits_value base (cs @ [c]) = digits_value base cs * base + digit_value c"
  by (simp add: digits_value_def)

lemma printint_buf_value:
  assumes "1 < base" and "base \<le> 16"
  shows "digits_value (uint base) (rev (printint_buf base x)) = uint x" "\<forall>c\<in>set (printint_buf base x). c \<noteq> 45"
proof -
  have "digits_value (uint base) (rev (printint_buf base x)) = uint x \<and> (\<forall>c\<in>set (printint_buf base x). c \<noteq> 45)"
    using assms
  proof (induction base x rule: printint_buf.induct)
    case (1 base x)
    have b: "0 < unat base" "unat base \<le> 16" using 1(2,3) by (auto simp: word_less_nat_alt word_le_nat_alt)
    have "unat (x mod base) < 16" using b by (simp add: unat_mod) (meson less_le_trans mod_less_divisor)
    note D = digit_value_digits [OF this]
    have m: "int (unat (x mod base)) = uint x mod uint base" by (simp add: uint_mod)
    show ?case
    proof (cases "x div base = 0")
      case True
      then have "uint x div uint base = 0" by (simp add: uint_div [symmetric])
      then have "uint x mod uint base = uint x" using mult_div_mod_eq [of "uint base" "uint x"] by simp
      then show ?thesis using D m True by (subst (1 2) printint_buf.simps) (simp add: digits_value_def)
    next
      case False
      have "uint (x div base) * uint base + uint x mod uint base = uint x" by (simp add: uint_div)
      then show ?thesis using 1(1) [OF _ 1(2,3)] 1(2) False D m
        by (subst (1 2) printint_buf.simps) (simp add: digits_value_snoc)
    qed
  qed
  then show "digits_value (uint base) (rev (printint_buf base x)) = uint x" "\<forall>c\<in>set (printint_buf base x). c \<noteq> 45" by simp_all
qed

lemma printint_buf_length:
  assumes "1 < base" and "unat x < unat base ^ n" and "0 < n"
  shows "length (printint_buf base x) \<le> n"
  using assms
proof (induction n arbitrary: x)
  case (Suc n)
  show ?case
  proof (cases "x div base = 0")
    case True
    then show ?thesis by (subst printint_buf.simps) simp
  next
    case False
    have d: "unat (x div base) < unat base ^ n"
      using Suc.prems by (simp add: unat_div less_mult_imp_div_less mult.commute)
    have "n \<noteq> 0"
    proof
      assume "n = 0"
      then have "unat (x div base) = 0" using d by simp
      then show False using False by (simp add: unat_eq_0)
    qed
    then have "length (printint_buf base (x div base)) \<le> n" using Suc.IH [OF Suc.prems(1) d] by simp
    then show ?thesis by (subst printint_buf.simps) simp
  qed
qed simp

lemma echo_byte [simp]: "echo (uint c) = [c]"
proof -
  have "uint c < 256" using unsigned_less [of c] by simp
  then show ?thesis by (simp add: echo_def)
qed

lemma kfor_bytes:
  assumes "port_ready s"
  shows "kfor (\<lambda>c. consputc (uint c)) cs s = Ok ((), s\<lparr>uart_sent := uart_sent s @ cs\<rparr>)"
  using assms by (induction cs arbitrary: s) (simp_all add: consputc_ready)

lemma sint_eq: "sint (xx :: 64 word) = uint xx - (if bit xx 63 then 18446744073709551616 else 0)"
proof -
  have "uint xx < 18446744073709551616" using uint_lt2p [of xx] by simp
  then show ?thesis
    by (simp add: sint_uint signed_take_bit_eq_take_bit_minus take_bit_int_eq_self_iff bit_uint_iff)
qed

lemma uint_neg:
  assumes "sint (xx :: 64 word) < 0"
  shows "uint (- xx) = - sint xx" "unat (- xx) \<le> 9223372036854775808"
proof -
  have s: "sint xx = uint xx - 18446744073709551616" using assms sint_eq [of xx] by (auto split: if_splits)
  have "uint (- xx) = (- uint xx) mod 18446744073709551616" by (simp only: uint_word_ariths) simp
  also have "\<dots> = (- sint xx) mod 18446744073709551616" unfolding s by simp
  also have "\<dots> = - sint xx" using assms sint_greater_eq [of xx] by (intro mod_pos_pos_trivial) simp_all
  finally show u: "uint (- xx) = - sint xx" .
  show "unat (- xx) \<le> 9223372036854775808" using u sint_greater_eq [of xx] by (simp add: unat_eq_nat_uint)
qed

lemma printint_chars_length:
  assumes "base = 10 \<or> base = 16"
  shows "length (printint_chars xx base sign) \<le> 20"
proof -
  have b: "1 < base" using assms by auto
  have "unat (x :: 64 word) < unat base ^ 20" for x
  proof -
    have "unat x < 18446744073709551616" by simp
    also have "\<dots> \<le> unat base ^ 20" using assms by auto
    finally show ?thesis .
  qed
  then have all: "length (printint_buf base x) \<le> 20" for x by (intro printint_buf_length [OF b]) simp_all
  have neg: "length (printint_buf base (- xx)) \<le> 19" if "sint xx < 0"
  proof (rule printint_buf_length [OF b])
    have "unat (- xx) \<le> 9223372036854775808" by (rule uint_neg [OF that])
    also have "\<dots> < unat base ^ 19" using assms by auto
    finally show "unat (- xx) < unat base ^ 19" .
  qed simp
  show ?thesis using all neg by (auto simp: printint_chars_def Let_def)
qed

text \<open>
  C34: \<open>printint\<close> prints the number it is given. In base 10 or 16, signed or unsigned, for every 64-bit value
  (the least signed one included) the characters sent to the console are a numeral with the value of the
  argument; its buffer of 20 characters is never overrun, and nothing else of the state changes.
\<close>

theorem printint_roundtrip:
  assumes "port_ready s" and "base = 10 \<or> base = 16"
  shows "\<exists>cs. printint xx base sign s = Ok ((), s\<lparr>uart_sent := uart_sent s @ cs\<rparr>) \<and> cs \<noteq> []
    \<and> numeral_value (uint base) cs = (if sign then sint xx else uint xx)"
proof -
  have b: "1 < base" "base \<le> 16" using assms(2) by auto
  let ?cs = "rev (printint_chars xx base sign)"
  have p: "printint xx base sign s = Ok ((), s\<lparr>uart_sent := uart_sent s @ ?cs\<rparr>)"
    using printint_chars_length [OF assms(2), of xx sign] kfor_bytes [OF assms(1)] by (simp add: printint_def Let_def not_less)
  note V = printint_buf_value [OF b]
  have ne: "printint_buf base x \<noteq> []" for x by (subst printint_buf.simps) simp
  have nv: "numeral_value (uint base) (rev (printint_buf base x)) = uint x" for x
  proof (cases "rev (printint_buf base x)")
    case (Cons c cs)
    then have "c \<in> set (printint_buf base x)" by (metis list.set_intros(1) set_rev)
    then show ?thesis using V(1) [of x] V(2) [of x] Cons by (auto simp: numeral_value_def)
  qed (use ne in simp)
  have "numeral_value (uint base) ?cs = (if sign then sint xx else uint xx)"
  proof (cases "sign \<and> sint xx < 0")
    case True
    then show ?thesis using V(1) uint_neg [of xx] by (simp add: printint_chars_def Let_def numeral_value_def)
  next
    case False
    moreover have "sint xx = uint xx" if "\<not> sint xx < 0"
      using sint_eq [of xx] that uint_lt2p [of xx] by (auto split: if_splits)
    ultimately show ?thesis using nv by (auto simp: printint_chars_def Let_def)
  qed
  then show ?thesis using p ne by (intro exI [of _ ?cs]) (simp add: printint_chars_def Let_def)
qed

definition quiet_port :: kuart where
  "quiet_port = kpipes.extend (one_pipe small_machine 0)
     \<lparr>uart_regs = (\<lambda>_. 0), uart_baud = (\<lambda>_. 0), uart_sent = [], uart_rx = [], uart_idle = True, tx_busy = 0,
      panicking = 0, panicked = 0\<rparr>"

lemma at_rest_quiet_port [simp]: "at_rest 0 quiet_port"
  by (simp add: quiet_port_def one_pipe_def no_shm_def empty_mboxes_def no_sleeplocks_def kpipes.extend_def
      kshm.extend_def kmbox.extend_def ksleep.extend_def kprocs.extend_def at_rest_def calm_def avail_def cur_def one_proc_def)

lemma port_ready_quiet_port [simp]: "port_ready quiet_port"
  using at_restD(1) [OF at_rest_quiet_port] by (simp add: port_ready_def quiet_port_def kpipes.extend_def)

theorem printint_roundtrip_witness:
  "\<exists>cs. printint 0x8000000000000000 10 True quiet_port = Ok ((), quiet_port\<lparr>uart_sent := uart_sent quiet_port @ cs\<rparr>)
     \<and> numeral_value 10 cs = - 9223372036854775808"
  using printint_roundtrip [OF port_ready_quiet_port, of 10 "0x8000000000000000" True]
  by (auto simp: sint_eq bit_iff_odd)

end
