(* ===== verification/Console.thy ===== *)
theory Console
  imports Printf
begin

text \<open>
  \<open>kernel/console.c\<close>, with \<open>uartintr\<close> of \<open>kernel/uart.c\<close> and \<open>procdump\<close> of \<open>kernel/proc.c\<close>, which it calls:
  the line-editing input buffer of the console and the reads and writes of user programs. The three indices
  are 32-bit counters that wrap around. \<open>consoleread_loop\<close> and \<open>consolewrite_loop\<close> take what is left to move,
  so that a process that slept goes on with them.
\<close>

unbundle bit_operations_syntax

abbreviation (input) INPUT_BUF_SIZE :: uint where "INPUT_BUF_SIZE \<equiv> 128"

record kcons = kuart +
  cons_buf :: "nat \<Rightarrow> byte"
  cons_r :: uint
  cons_w :: uint
  cons_e :: uint

definition state_name :: "procstate \<Rightarrow> byte list" where
  "state_name st = map of_char (case st of UNUSED \<Rightarrow> ''unused'' | USED \<Rightarrow> ''used'' | SLEEPING \<Rightarrow> ''sleep ''
     | RUNNABLE \<Rightarrow> ''runble'' | RUNNING \<Rightarrow> ''run   '' | ZOMBIE \<Rightarrow> ''zombie'')"

definition procdump_entry :: "nat \<Rightarrow> ('z kuart_scheme, unit) kmon" where
  "procdump_entry p =
     kbind (pget p (\<lambda>q. q)) (\<lambda>q.
     if pstate q = UNUSED then kret () else
     kbind (printf (map of_char ''%d %s %s'')
       [Va_int (word_of_int (pid q)), Va_str (Some (state_name (pstate q))), Va_str (Some (pname q))]) (\<lambda>_.
     kbind (printf [10] []) (\<lambda>_. kret ())))"

definition procdump :: "('z kuart_scheme, unit) kmon" where
  "procdump = kbind (printf [10] []) (\<lambda>_. kfor procdump_entry [0..<NPROC])"

definition buf_plus :: "kbuf \<Rightarrow> nat \<Rightarrow> kbuf" where
  "buf_plus b i = (case b of User_addr va \<Rightarrow> User_addr (va + of_nat i) | Kernel_buf bs \<Rightarrow> Kernel_buf (drop i bs))"

text \<open>\<open>i\<close> bytes of the \<open>i + k\<close> are written; the buffer takes 32 bytes at a time.\<close>

function consolewrite_loop :: "kbuf \<Rightarrow> nat \<Rightarrow> nat \<Rightarrow> ('z kuart_scheme, int) kmon" where
  "consolewrite_loop src i k =
     (if k = 0 then kret (int i) else
      let nn = min 32 k in
      kbind (either_copyin (buf_plus src i) nn) (\<lambda>r.
      case r of None \<Rightarrow> kret (int i)
      | Some buf \<Rightarrow> kbind (uartwrite buf) (\<lambda>_. consolewrite_loop src (i + nn) (k - nn))))"
  by auto

termination
  by (relation "measure (\<lambda>(src, i, k). k)") auto

definition consolewrite :: "kbuf \<Rightarrow> int \<Rightarrow> ('z kuart_scheme, int) kmon" where
  "consolewrite src n = consolewrite_loop src 0 (nat n)"

text \<open>
  \<open>n\<close> bytes are wanted, \<open>k\<close> of them still to come; the bytes delivered are part of the result, for a
  destination in the kernel.
\<close>

definition consoleread_end :: "nat \<Rightarrow> nat \<Rightarrow> byte list \<Rightarrow> ('z kcons_scheme, int \<times> byte list) kmon" where
  "consoleread_end n k got = kbind (release Cons_lock) (\<lambda>_. kret (int n - int k, got))"

fun consoleread_loop :: "kbuf \<Rightarrow> nat \<Rightarrow> nat \<Rightarrow> byte list \<Rightarrow> ('z kcons_scheme, int \<times> byte list) kmon" where
  "consoleread_loop dst n 0 got = consoleread_end n 0 got"
| "consoleread_loop dst n (Suc k) got =
     kbind (kgets (\<lambda>s. cons_r s = cons_w s)) (\<lambda>empty.
     if empty then
       kbind curproc (\<lambda>p.
       kbind (killed p) (\<lambda>dead.
       if dead then kbind (release Cons_lock) (\<lambda>_. kret (- 1, got))
       else kbind (sleep Chan_cons Cons_lock) (\<lambda>_. kblock)))
     else
       kbind (kgets (\<lambda>s. cons_buf s (unat (cons_r s mod INPUT_BUF_SIZE)))) (\<lambda>c.
       kbind (kmodify (\<lambda>s. s\<lparr>cons_r := cons_r s + 1\<rparr>)) (\<lambda>_.
       if c = 4 then
         kbind (if Suc k < n then kmodify (\<lambda>s. s\<lparr>cons_r := cons_r s - 1\<rparr>) else kret ()) (\<lambda>_.
         consoleread_end n (Suc k) got)
       else
         kbind (either_copyout dst [c]) (\<lambda>r.
         if r = - 1 then consoleread_end n (Suc k) got
         else if c = 10 then consoleread_end n k (got @ [c])
         else consoleread_loop (buf_plus dst 1) n k (got @ [c])))))"

definition consoleread :: "kbuf \<Rightarrow> int \<Rightarrow> ('z kcons_scheme, int \<times> byte list) kmon" where
  "consoleread dst n = kbind (acquire Cons_lock) (\<lambda>_. consoleread_loop dst (nat n) (nat n) [])"

text \<open>The loop of control-U; \<open>consoleintr\<close> gives it as many rounds as there are characters to erase.\<close>

fun kill_line :: "nat \<Rightarrow> ('z kcons_scheme, unit) kmon" where
  "kill_line fuel =
     kbind (kgets (\<lambda>s. cons_e s \<noteq> cons_w s \<and> cons_buf s (unat ((cons_e s - 1) mod INPUT_BUF_SIZE)) \<noteq> 10)) (\<lambda>more.
     if \<not> more then kret () else
     case fuel of 0 \<Rightarrow> kblock | Suc fuel' \<Rightarrow>
       kbind (kmodify (\<lambda>s. s\<lparr>cons_e := cons_e s - 1\<rparr>)) (\<lambda>_.
       kbind (consputc BACKSPACE) (\<lambda>_. kill_line fuel')))"

definition consoleintr :: "int \<Rightarrow> ('z kcons_scheme, unit) kmon" where
  "consoleintr c =
     kbind (acquire Cons_lock) (\<lambda>_.
     kbind
       (if c = 0x10 then procdump
        else if c = 0x15 then kbind (kgets (\<lambda>s. unat (cons_e s - cons_w s))) kill_line
        else if c = 8 \<or> c = 0x7f then
          kbind (kgets (\<lambda>s. cons_e s \<noteq> cons_w s)) (\<lambda>more.
          if more then kbind (kmodify (\<lambda>s. s\<lparr>cons_e := cons_e s - 1\<rparr>)) (\<lambda>_. consputc BACKSPACE) else kret ())
        else
          kbind (kgets (\<lambda>s. cons_e s - cons_r s < INPUT_BUF_SIZE)) (\<lambda>room.
          if c \<noteq> 0 \<and> room then
            let c = (if c = 13 then 10 else c) in
            kbind (consputc c) (\<lambda>_.
            kbind (kmodify (\<lambda>s. s\<lparr>cons_buf := (cons_buf s)(unat (cons_e s mod INPUT_BUF_SIZE) := word_of_int c),
              cons_e := cons_e s + 1\<rparr>)) (\<lambda>_.
            kbind (kgets (\<lambda>s. cons_e s - cons_r s = INPUT_BUF_SIZE)) (\<lambda>full.
            if c = 10 \<or> c = 4 \<or> full then
              kbind (kmodify (\<lambda>s. s\<lparr>cons_w := cons_e s\<rparr>)) (\<lambda>_. wakeup (Some Chan_cons))
            else kret ())))
          else kret ())) (\<lambda>_.
     release Cons_lock))"

text \<open>The input loop of the interrupt handler ends when the receive register is empty; \<open>fuel\<close> bounds it.\<close>

fun uartintr_loop :: "nat \<Rightarrow> ('z kcons_scheme, unit) kmon" where
  "uartintr_loop fuel =
     kbind uartgetc (\<lambda>c.
     if c = - 1 then kret () else
     case fuel of 0 \<Rightarrow> kblock | Suc fuel' \<Rightarrow> kbind (consoleintr c) (\<lambda>_. uartintr_loop fuel'))"

definition uartintr :: "('z kcons_scheme, unit) kmon" where
  "uartintr =
     kbind (ReadReg ISR) (\<lambda>_.
     kbind (acquire Uart_lock) (\<lambda>_.
     kbind (ReadReg LSR) (\<lambda>l.
     kbind (if l AND LSR_TX_IDLE \<noteq> 0
            then kbind (kmodify (\<lambda>s. s\<lparr>tx_busy := 0\<rparr>)) (\<lambda>_. wakeup (Some Chan_uart)) else kret ()) (\<lambda>_.
     kbind (release Uart_lock) (\<lambda>_.
     kbind (kgets (\<lambda>s. length (uart_rx s))) uartintr_loop)))))"

declare kill_line.simps [simp del] uartintr_loop.simps [simp del] consolewrite_loop.simps [simp del]

section \<open>The input buffer as a line editor\<close>

lemma counter_mod:
  assumes "m dvd 4294967296"
  shows "unat (b :: uint) mod m = (unat a + unat (b - a)) mod m"
proof -
  have "unat (a + (b - a)) = (unat a + unat (b - a)) mod 4294967296" by (simp only: unat_word_ariths) simp
  then show ?thesis using assms by (simp add: mod_mod_cancel)
qed

lemma counter_add:
  assumes "unat (b - a :: uint) + unat (c - b) < 4294967296"
  shows "unat (c - a) = unat (b - a) + unat (c - b)"
proof -
  have "c - a = (b - a) + (c - b)" by simp
  then show ?thesis using assms by (simp only: unat_word_ariths) simp
qed

lemma ring_append: "ring N d r (m + n) = ring N d r m @ ring N d (r + m) n"
  by (rule nth_equalityI) (auto simp: ring_def nth_append add.assoc)

lemma ring_start: "r mod N = r' mod N \<Longrightarrow> ring N d r n = ring N d r' n"
  by (metis ring_mod)

lemma ring_butlast: "butlast (ring N d r n) = ring N d r (n - Suc 0)"
  by (cases n) (simp_all add: ring_def)

lemma unat_mod_128: "unat ((w :: uint) mod 128) = unat w mod 128"
  by (simp add: unat_mod)

definition cons_committed :: "'z kcons_scheme \<Rightarrow> byte list" where
  "cons_committed s = ring 128 (cons_buf s) (unat (cons_r s)) (unat (cons_w s - cons_r s))"

definition cons_pending :: "'z kcons_scheme \<Rightarrow> byte list" where
  "cons_pending s = ring 128 (cons_buf s) (unat (cons_w s)) (unat (cons_e s - cons_w s))"

definition cons_fits :: "'z kcons_scheme \<Rightarrow> bool" where
  "cons_fits s \<longleftrightarrow> unat (cons_w s - cons_r s) + unat (cons_e s - cons_w s) \<le> 128"

definition cons_ok :: "'z kcons_scheme \<Rightarrow> bool" where
  "cons_ok s \<longleftrightarrow> cons_fits s \<and> (\<forall>b\<in>set (cons_pending s). b \<noteq> 10 \<and> b \<noteq> 4)"

text \<open>
  The editor the buffer implements: finished input (whole lines) and the line being typed, at most 128
  characters in all.
\<close>

definition edit :: "int \<Rightarrow> byte list \<times> byte list \<Rightarrow> byte list \<times> byte list" where
  "edit c = (\<lambda>(done, line).
     if c = 0x10 then (done, line)
     else if c = 0x15 then (done, [])
     else if c = 8 \<or> c = 0x7f then (done, butlast line)
     else if c = 0 \<or> 128 \<le> length done + length line then (done, line)
     else let b = (if c = 13 then 10 else word_of_int c) in
       if b = 10 \<or> b = 4 \<or> length done + length line = 127 then (done @ line @ [b], []) else (done, line @ [b]))"

lemma with_lock_cons [simp]:
  "cons_buf (with_lock lk s) = cons_buf s" "cons_r (with_lock lk s) = cons_r s" "cons_w (with_lock lk s) = cons_w s"
  "cons_e (with_lock lk s) = cons_e s"
  "cons_e_update f (with_lock lk s) = with_lock lk (cons_e_update f s)"
  "cons_w_update f (with_lock lk s) = with_lock lk (cons_w_update f s)"
  "cons_r_update f (with_lock lk s) = with_lock lk (cons_r_update f s)"
  "cons_buf_update g (with_lock lk s) = with_lock lk (cons_buf_update g s)"
  by (simp_all add: with_lock_def pushed_off_def)

lemma cons_updates [simp]:
  "calm (cons_e_update f s) = calm s" "avail lk (cons_e_update f s) = avail lk s" "cur (cons_e_update f s) = cur s"
  "quiet (cons_e_update f s) = quiet s" "port_ready (cons_e_update f s) = port_ready s"
  "calm (cons_w_update f s) = calm s" "avail lk (cons_w_update f s) = avail lk s" "cur (cons_w_update f s) = cur s"
  "quiet (cons_w_update f s) = quiet s" "port_ready (cons_w_update f s) = port_ready s"
  "calm (cons_buf_update g s) = calm s" "avail lk (cons_buf_update g s) = avail lk s" "cur (cons_buf_update g s) = cur s"
  "quiet (cons_buf_update g s) = quiet s" "port_ready (cons_buf_update g s) = port_ready s"
  by (simp_all add: calm_def avail_def cur_def quiet_def port_ready_def)

lemma kill_line_eq:
  assumes "port_ready s" and "\<forall>b\<in>set (cons_pending s). b \<noteq> 10" and "n = unat (cons_e s - cons_w s)"
  shows "\<exists>cs. kill_line n s = Ok ((), s\<lparr>uart_sent := uart_sent s @ cs, cons_e := cons_w s\<rparr>)"
  using assms
proof (induction n arbitrary: s)
  case 0
  then have "cons_e s = cons_w s" by (simp add: unat_eq_zero)
  then show ?case by (intro exI [of _ "[]"], subst kill_line.simps) (cases s; simp)
next
  case (Suc n)
  let ?s = "s\<lparr>cons_e := cons_e s - 1, uart_sent := uart_sent s @ echo BACKSPACE\<rparr>"
  have ne: "cons_e s \<noteq> cons_w s" using Suc.prems(3) by auto
  have e: "cons_e s - 1 - cons_w s = (cons_e s - cons_w s) - 1" by simp
  have n: "unat (cons_e s - 1 - cons_w s) = n" unfolding e using Suc.prems(3) ne by (simp add: unat_minus_one)
  have p: "cons_pending s = ring 128 (cons_buf s) (unat (cons_w s)) n @ [cons_buf s ((unat (cons_w s) + n) mod 128)]"
    using ring_append [of 128 "cons_buf s" "unat (cons_w s)" n 1] Suc.prems(3) [symmetric] by (simp add: cons_pending_def ring_def)
  have "unat (cons_e s - 1) mod 128 = (unat (cons_w s) + n) mod 128"
    using counter_mod [of 128 "cons_e s - 1" "cons_w s"] n by simp
  then have b: "cons_buf s (unat ((cons_e s - 1) mod 128)) \<noteq> 10" using Suc.prems(2) p by (simp add: unat_mod_128)
  have "cons_pending ?s = ring 128 (cons_buf s) (unat (cons_w s)) n" using n by (simp add: cons_pending_def)
  then have "\<forall>b\<in>set (cons_pending ?s). b \<noteq> 10" using Suc.prems(2) p by simp
  then obtain cs where cs: "kill_line n ?s = Ok ((), ?s\<lparr>uart_sent := uart_sent ?s @ cs, cons_e := cons_w ?s\<rparr>)"
    using Suc.IH [of ?s] Suc.prems(1) n by auto
  have "consputc BACKSPACE (s\<lparr>cons_e := cons_e s - 1\<rparr>) = Ok ((), ?s)"
    using Suc.prems(1) by (subst consputc_ready) simp_all
  then have "kill_line (Suc n) s = kill_line n ?s" using ne b by (subst kill_line.simps) simp
  then show ?case using cs by (intro exI [of _ "echo BACKSPACE @ cs"]) simp
qed

section \<open>The process listing\<close>

text \<open>An operation that does nothing but send characters.\<close>

definition prints :: "('z kuart_scheme, 'a) kmon \<Rightarrow> 'a \<Rightarrow> bool" where
  "prints m x \<longleftrightarrow> (\<forall>s. port_ready s \<longrightarrow> (\<exists>cs. m s = Ok (x, s\<lparr>uart_sent := uart_sent s @ cs\<rparr>)))"

lemma prints_ret: "prints (kret x) x"
  unfolding prints_def
proof (intro allI impI)
  fix s :: "'a kuart_scheme"
  show "\<exists>cs. kret x s = Ok (x, s\<lparr>uart_sent := uart_sent s @ cs\<rparr>)" by (intro exI [of _ "[]"]) (cases s; simp)
qed

lemma prints_bind: "prints m x \<Longrightarrow> prints (f x) y \<Longrightarrow> prints (kbind m f) y"
  unfolding prints_def
proof (intro allI impI)
  fix s :: "'a kuart_scheme"
  assume m: "\<forall>s. port_ready s \<longrightarrow> (\<exists>cs. m s = Ok (x, s\<lparr>uart_sent := uart_sent s @ cs\<rparr>))"
    and f: "\<forall>s. port_ready s \<longrightarrow> (\<exists>cs. f x s = Ok (y, s\<lparr>uart_sent := uart_sent s @ cs\<rparr>))" and s: "port_ready s"
  obtain cs where cs: "m s = Ok (x, s\<lparr>uart_sent := uart_sent s @ cs\<rparr>)" (is "_ = Ok (x, ?t)") using m s by blast
  obtain ds where "f x ?t = Ok (y, ?t\<lparr>uart_sent := uart_sent ?t @ ds\<rparr>)" using f s by (metis port_ready_sent)
  then show "\<exists>cs. kbind m f s = Ok (y, s\<lparr>uart_sent := uart_sent s @ cs\<rparr>)"
    using cs by (intro exI [of _ "cs @ ds"]) (simp add: kbind_Ok [where m = m, OF cs])
qed

lemma prints_consputc: "prints (consputc c) ()"
  by (auto simp: prints_def consputc_ready)

lemma prints_bytes: "prints (kfor (\<lambda>c. consputc (uint c)) (cs :: byte list)) ()"
  unfolding prints_def by (intro allI impI exI) (rule kfor_bytes)

lemma prints_printint: "prints (printint xx 10 sign) ()"
  unfolding prints_def
proof (intro allI impI)
  fix s :: "'a kuart_scheme" assume "port_ready s"
  from kfor_bytes [OF this] show "\<exists>cs. printint xx 10 sign s = Ok ((), s\<lparr>uart_sent := uart_sent s @ cs\<rparr>)"
    using printint_chars_length [of 10 xx sign] by (auto simp: printint_def Let_def)
qed

lemma prints_printf:
  fixes s :: "'z kuart_scheme"
  assumes "prints (printf_loop fmt 0 ap :: ('z kuart_scheme, unit) kmon) ()" and "port_ready s" and "avail Pr_lock s"
  shows "\<exists>cs. printf fmt ap s = Ok (0, s\<lparr>uart_sent := uart_sent s @ cs\<rparr>)"
proof -
  have r: "panicking s = 0" "calm s" using assms(2) by (simp_all add: port_ready_def)
  obtain cs where "printf_loop fmt 0 ap (with_lock Pr_lock s)
      = Ok ((), with_lock Pr_lock (s\<lparr>uart_sent := uart_sent s @ cs\<rparr>))"
    using assms(1,2) unfolding prints_def by (metis port_ready_with_lock with_lock_uart(2) with_lock_uart(9))
  then show ?thesis using r assms(3)
    by (intro exI [of _ cs]) (simp add: printf_def acquire_calm release_with_lock)
qed

lemma printf_newline: "prints (printf_loop [10] 0 []) ()"
proof -
  have "prints (printf_loop [10] (Suc 0) []) ()" by (subst printf_loop.simps) (simp add: fmt_at_def prints_ret)
  then show ?thesis by (subst printf_loop.simps) (simp add: fmt_at_def, rule prints_bind [OF prints_consputc])
qed

lemma printf_listing:
  "prints (printf_loop (map of_char ''%d %s %s'') 0 [Va_int n, Va_str (Some a), Va_str (Some b)]) ()"
proof -
  have d: "prints (printf_conv 100 c1 c2 (Va_int n # ap)) (1, ap)" for c1 c2 ap
    by (simp add: printf_conv_def va_int_def)
      (rule prints_bind [OF prints_ret], simp, rule prints_bind [OF prints_printint prints_ret])
  have st: "prints (printf_conv 115 c1 c2 (Va_str (Some x) # ap)) (1, ap)" for c1 c2 ap x
    by (simp add: printf_conv_def va_str_def)
      (rule prints_bind [OF prints_ret], simp, rule prints_bind [OF prints_bytes prints_ret])
  let ?f = "[37, 100, 32, 37, 115, 32, 37, 115] :: byte list"
  have 8: "prints (printf_loop ?f 8 []) ()" by (subst printf_loop.simps) (simp add: fmt_at_def prints_ret)
  have 6: "prints (printf_loop ?f 6 [Va_str (Some b)]) ()"
    by (subst printf_loop.simps) (simp add: fmt_at_def Let_def, rule prints_bind [OF st], simp add: 8)
  have 5: "prints (printf_loop ?f 5 [Va_str (Some b)]) ()"
    by (subst printf_loop.simps) (simp add: fmt_at_def Let_def, rule prints_bind [OF prints_consputc], rule 6)
  have 3: "prints (printf_loop ?f 3 [Va_str (Some a), Va_str (Some b)]) ()"
    by (subst printf_loop.simps) (simp add: fmt_at_def Let_def, rule prints_bind [OF st], simp add: 5)
  have 2: "prints (printf_loop ?f 2 [Va_str (Some a), Va_str (Some b)]) ()"
    by (subst printf_loop.simps) (simp add: fmt_at_def Let_def, rule prints_bind [OF prints_consputc], rule 3 [simplified])
  show ?thesis
    by (subst printf_loop.simps) (simp add: fmt_at_def Let_def, rule prints_bind [OF d], simp add: 2 [unfolded numeral_2_eq_2])
qed

lemma kfor_sends:
  assumes "\<And>x s. P s \<Longrightarrow> \<exists>cs. f x s = Ok ((), s\<lparr>uart_sent := uart_sent s @ cs\<rparr>)" and "\<And>s g. P (uart_sent_update g s) = P s"
    and "P s"
  shows "\<exists>cs. kfor f xs s = Ok ((), s\<lparr>uart_sent := uart_sent s @ cs\<rparr>)"
  using assms(3)
proof (induction xs arbitrary: s)
  case Nil
  then show ?case by (intro exI [of _ "[]"]) (cases s; simp)
next
  case (Cons x xs)
  obtain cs where cs: "f x s = Ok ((), s\<lparr>uart_sent := uart_sent s @ cs\<rparr>)" (is "_ = Ok ((), ?t)") using assms(1) Cons.prems by blast
  obtain ds where "kfor f xs ?t = Ok ((), ?t\<lparr>uart_sent := uart_sent ?t @ ds\<rparr>)" using Cons.IH [of ?t] Cons.prems assms(2) by auto
  then show ?case using cs by (intro exI [of _ "cs @ ds"]) simp
qed

lemma procdump_entry_prints:
  assumes "port_ready s \<and> avail Pr_lock s"
  shows "\<exists>cs. procdump_entry p s = Ok ((), s\<lparr>uart_sent := uart_sent s @ cs\<rparr>)"
proof (cases "pstate (procs s p) = UNUSED")
  case True
  then show ?thesis by (intro exI [of _ "[]"]) (cases s; simp add: procdump_entry_def)
next
  case False
  let ?q = "procs s p"
  let ?m = "printf (map of_char ''%d %s %s'')
    [Va_int (word_of_int (pid ?q)), Va_str (Some (state_name (pstate ?q))), Va_str (Some (pname ?q))]"
  obtain cs where cs: "?m s = Ok (0, s\<lparr>uart_sent := uart_sent s @ cs\<rparr>)" (is "_ = Ok (0, ?t)")
    using prints_printf [OF printf_listing, of s] assms by blast
  obtain ds where "printf [10] [] ?t = Ok (0, ?t\<lparr>uart_sent := uart_sent ?t @ ds\<rparr>)"
    using prints_printf [OF printf_newline, of ?t] assms by auto
  then show ?thesis using cs False by (intro exI [of _ "cs @ ds"]) (simp add: procdump_entry_def kbind_Ok [where m = ?m, OF cs])
qed

lemma procdump_prints:
  assumes "port_ready s \<and> avail Pr_lock s"
  shows "\<exists>cs. procdump s = Ok ((), s\<lparr>uart_sent := uart_sent s @ cs\<rparr>)"
proof -
  obtain cs where cs: "printf [10] [] s = Ok (0, s\<lparr>uart_sent := uart_sent s @ cs\<rparr>)" (is "_ = Ok (0, ?t)")
    using prints_printf [OF printf_newline, of s] assms by blast
  have "\<exists>ds. kfor procdump_entry [0..<NPROC] ?t = Ok ((), ?t\<lparr>uart_sent := uart_sent ?t @ ds\<rparr>)"
    by (rule kfor_sends [where P = "\<lambda>s. port_ready s \<and> avail Pr_lock s", OF procdump_entry_prints]) (use assms in simp_all)
  then obtain ds where "kfor procdump_entry [0..<NPROC] ?t = Ok ((), ?t\<lparr>uart_sent := uart_sent ?t @ ds\<rparr>)" by blast
  then show ?thesis unfolding procdump_def
    by (intro exI [of _ "cs @ ds"]) (simp only: kbind_Ok [where m = "printf [10] []", OF cs], simp)
qed

section \<open>Properties\<close>

lemma cons_views [simp]:
  "cons_committed (uart_sent_update f s) = cons_committed s" "cons_pending (uart_sent_update f s) = cons_pending s"
  "cons_committed (procs_update g s) = cons_committed s" "cons_pending (procs_update g s) = cons_pending s"
  "cons_ok (uart_sent_update f s) = cons_ok s" "cons_ok (procs_update g s) = cons_ok s"
  by (simp_all add: cons_committed_def cons_pending_def cons_ok_def cons_fits_def)

lemma cons_lengths:
  "length (cons_committed s) = unat (cons_w s - cons_r s)" "length (cons_pending s) = unat (cons_e s - cons_w s)"
  by (simp_all add: cons_committed_def cons_pending_def)

lemma cons_fill:
  assumes "cons_fits s"
  shows "unat (cons_e s - cons_r s) = length (cons_committed s) + length (cons_pending s)"
  using assms counter_add [of "cons_w s" "cons_r s" "cons_e s"] by (simp add: cons_lengths cons_fits_def)

lemma cons_all:
  assumes "cons_fits s"
  shows "ring 128 (cons_buf s) (unat (cons_r s)) (unat (cons_e s - cons_r s)) = cons_committed s @ cons_pending s"
proof -
  have "ring 128 (cons_buf s) (unat (cons_r s) + unat (cons_w s - cons_r s)) n = ring 128 (cons_buf s) (unat (cons_w s)) n" for n
    by (rule ring_start) (simp add: counter_mod [of 128 "cons_w s" "cons_r s"])
  then show ?thesis using cons_fill [OF assms]
    by (simp add: cons_lengths ring_append cons_committed_def cons_pending_def)
qed

text \<open>Storing a character, taking one back, and finishing the line.\<close>

definition cons_stored :: "byte \<Rightarrow> 'z kcons_scheme \<Rightarrow> 'z kcons_scheme" where
  "cons_stored b s = s\<lparr>cons_buf := (cons_buf s)(unat (cons_e s mod INPUT_BUF_SIZE) := b), cons_e := cons_e s + 1\<rparr>"

lemma cons_stored_views:
  assumes "cons_fits s" and "length (cons_committed s) + length (cons_pending s) < 128"
  shows "cons_fits (cons_stored b s)" "cons_committed (cons_stored b s) = cons_committed s"
    "cons_pending (cons_stored b s) = cons_pending s @ [b]"
proof -
  let ?t = "cons_stored b s"
  have e: "cons_e ?t = cons_e s + 1" "cons_r ?t = cons_r s" "cons_w ?t = cons_w s" by (simp_all add: cons_stored_def)
  have up: "unat (cons_e s + 1 - x) = Suc (unat (cons_e s - x))" if "unat (cons_e s - x) < 128" for x
  proof -
    have "cons_e s + 1 - x = (cons_e s - x) + 1" by simp
    then show ?thesis using that by (simp only: unat_word_ariths) simp
  qed
  have w: "unat (cons_e s - cons_w s) < 128" and r: "unat (cons_e s - cons_r s) < 128"
    using assms(2) cons_fill [OF assms(1)] by (simp_all add: cons_lengths)
  show f: "cons_fits ?t" using assms(2) up [OF w] by (simp add: cons_fits_def e cons_lengths)
  have i: "unat (cons_e s mod 128) = (unat (cons_r s) + unat (cons_e s - cons_r s)) mod 128"
    using counter_mod [of 128 "cons_e s" "cons_r s"] by (simp add: unat_mod_128)
  have "cons_committed ?t @ cons_pending ?t = ring 128 (cons_buf ?t) (unat (cons_r s)) (Suc (unat (cons_e s - cons_r s)))"
    using cons_all [OF f] up [OF r] by (simp add: e)
  also have "\<dots> = (cons_committed s @ cons_pending s) @ [b]"
    using ring_put [OF r, of "cons_buf s" "unat (cons_r s)" b] cons_all [OF assms(1)] by (simp add: cons_stored_def i)
  finally have "cons_committed ?t @ cons_pending ?t = cons_committed s @ cons_pending s @ [b]" by simp
  moreover have "length (cons_committed ?t) = length (cons_committed s)" by (simp add: cons_lengths e)
  ultimately show "cons_committed ?t = cons_committed s" "cons_pending ?t = cons_pending s @ [b]" by simp_all
qed

lemma cons_finished_views:
  assumes "cons_fits s"
  shows "cons_ok (s\<lparr>cons_w := cons_e s\<rparr>)" "cons_committed (s\<lparr>cons_w := cons_e s\<rparr>) = cons_committed s @ cons_pending s"
    "cons_pending (s\<lparr>cons_w := cons_e s\<rparr>) = []"
proof -
  show "cons_committed (s\<lparr>cons_w := cons_e s\<rparr>) = cons_committed s @ cons_pending s"
    using cons_all [OF assms] by (simp add: cons_committed_def)
  show p: "cons_pending (s\<lparr>cons_w := cons_e s\<rparr>) = []" by (simp add: cons_pending_def)
  show "cons_ok (s\<lparr>cons_w := cons_e s\<rparr>)" using p assms cons_fill [OF assms]
    by (simp add: cons_ok_def cons_fits_def cons_lengths)
qed

lemma cons_erased_views:
  assumes "cons_ok s" and "cons_e s \<noteq> cons_w s"
  shows "cons_ok (s\<lparr>cons_e := cons_e s - 1\<rparr>)" "cons_committed (s\<lparr>cons_e := cons_e s - 1\<rparr>) = cons_committed s"
    "cons_pending (s\<lparr>cons_e := cons_e s - 1\<rparr>) = butlast (cons_pending s)"
proof -
  have e: "cons_e s - 1 - cons_w s = (cons_e s - cons_w s) - 1" by simp
  have n: "unat (cons_e s - 1 - cons_w s) = unat (cons_e s - cons_w s) - 1" unfolding e using assms(2) by (simp add: unat_minus_one)
  show "cons_committed (s\<lparr>cons_e := cons_e s - 1\<rparr>) = cons_committed s" by (simp add: cons_committed_def)
  show p: "cons_pending (s\<lparr>cons_e := cons_e s - 1\<rparr>) = butlast (cons_pending s)"
    using n by (simp add: cons_pending_def ring_butlast)
  show "cons_ok (s\<lparr>cons_e := cons_e s - 1\<rparr>)"
    using assms(1) n p by (auto simp: cons_ok_def cons_fits_def dest: in_set_butlastD)
qed

definition cons_key :: "int \<Rightarrow> 'z kcons_scheme \<Rightarrow> 'z kcons_scheme" where
  "cons_key c s = cons_stored (word_of_int c) (s\<lparr>uart_sent := uart_sent s @ echo c\<rparr>)"

lemma cons_stored_state [simp]:
  "calm (cons_stored b s) = calm s" "quiet (cons_stored b s) = quiet s" "avail lk (cons_stored b s) = avail lk s"
  by (simp_all add: cons_stored_def)

lemma cons_key_views:
  assumes "cons_fits s" and "length (cons_committed s) + length (cons_pending s) < 128"
  shows "cons_fits (cons_key c s)" "cons_committed (cons_key c s) = cons_committed s"
    "cons_pending (cons_key c s) = cons_pending s @ [word_of_int c]"
proof -
  have "cons_fits (s\<lparr>uart_sent := x\<rparr>)" for x using assms(1) by (simp add: cons_fits_def)
  then show "cons_fits (cons_key c s)" "cons_committed (cons_key c s) = cons_committed s"
      "cons_pending (cons_key c s) = cons_pending s @ [word_of_int c]"
    using cons_stored_views [of "s\<lparr>uart_sent := uart_sent s @ echo c\<rparr>"] assms(2) by (simp_all add: cons_key_def)
qed

lemma consoleintr_store:
  assumes "port_ready s" and "quiet s" and "avail Cons_lock s" and "c \<notin> {0, 0x10, 0x15, 8, 0x7f}"
    and "cons_e s - cons_r s < 128"
  defines "k \<equiv> if c = 13 then 10 else c"
  shows "consoleintr c s = Ok ((), if k = 10 \<or> k = 4 \<or> cons_e s + 1 - cons_r s = 128
    then woken_up (Some Chan_cons) ((cons_key k s)\<lparr>cons_w := cons_e s + 1\<rparr>) else cons_key k s)"
proof -
  have calm: "calm s" using assms(2) by (rule quietD)
  have pr: "port_ready (with_lock Cons_lock s)" using assms(1) by simp
  let ?t = "(cons_key k s)\<lparr>cons_w := cons_e s + 1\<rparr>"
  have q: "quiet ?t" using assms(2) by (simp add: cons_key_def)
  have "wakeup (Some Chan_cons) (with_lock Cons_lock ?t) = Ok ((), with_lock Cons_lock (woken_up (Some Chan_cons) ?t))"
    using wakeup_eq [OF quiet_with_lock [OF q]] by simp
  moreover have "release Cons_lock (with_lock Cons_lock (woken_up (Some Chan_cons) ?t)) = Ok ((), woken_up (Some Chan_cons) ?t)"
    using calm assms(3) by (intro release_with_lock) (simp_all add: cons_key_def)
  moreover have "release Cons_lock (with_lock Cons_lock (cons_key k s)) = Ok ((), cons_key k s)"
    using calm assms(3) by (intro release_with_lock) (simp_all add: cons_key_def)
  ultimately show ?thesis
    using assms(4,5) pr acquire_calm [OF calm assms(3)] unfolding k_def
    by (simp add: consoleintr_def consputc_ready Let_def cons_key_def cons_stored_def)
qed

text \<open>The states in which the interrupt handler may run.\<close>

definition handler_ready :: "'z kcons_scheme \<Rightarrow> bool" where
  "handler_ready s \<longleftrightarrow> port_ready s \<and> quiet s \<and> avail Cons_lock s \<and> avail Pr_lock s \<and> cons_ok s"

definition edits :: "int \<Rightarrow> 'z kcons_scheme \<Rightarrow> 'z kcons_scheme \<Rightarrow> bool" where
  "edits c s t \<longleftrightarrow> consoleintr c s = Ok ((), t) \<and> cons_ok t
     \<and> (cons_committed t, cons_pending t) = edit c (cons_committed s, cons_pending s)"

lemma handler_readyD:
  assumes "handler_ready s"
  shows "port_ready s" "quiet s" "avail Cons_lock s" "avail Pr_lock s" "cons_ok s" "calm s" "cons_fits s"
    "port_ready (with_lock Cons_lock s)" "acquire Cons_lock s = Ok ((), with_lock Cons_lock s)"
  using assms quietD(1) [of s] by (auto simp: handler_ready_def cons_ok_def acquire_calm)

lemma consoleintr_listing:
  assumes "handler_ready s" and "c = 0x10"
  shows "\<exists>t. edits c s t"
proof -
  let ?s = "with_lock Cons_lock s"
  note H = handler_readyD [OF assms(1)]
  obtain cs where "procdump ?s = Ok ((), with_lock Cons_lock (s\<lparr>uart_sent := uart_sent s @ cs\<rparr>))"
    using procdump_prints [of ?s] H(8) H(4) by auto
  then show ?thesis using assms(2) H(9,6) H(3,5)
    by (intro exI [of _ "s\<lparr>uart_sent := uart_sent s @ cs\<rparr>"]) (simp add: edits_def consoleintr_def release_with_lock edit_def)
qed

lemma consoleintr_kill:
  assumes "handler_ready s" and "c = 0x15"
  shows "\<exists>t. edits c s t"
proof -
  let ?s = "with_lock Cons_lock s"
  note H = handler_readyD [OF assms(1)]
  have "\<forall>b\<in>set (cons_pending ?s). b \<noteq> 10" using H(5) by (simp add: cons_ok_def cons_pending_def)
  then obtain cs where "kill_line (unat (cons_e s - cons_w s)) ?s
      = Ok ((), with_lock Cons_lock (s\<lparr>uart_sent := uart_sent s @ cs, cons_e := cons_w s\<rparr>))"
    using kill_line_eq [OF H(8)] by fastforce
  then show ?thesis using assms(2) H(9,6) H(3) H(7)
    by (intro exI [of _ "s\<lparr>uart_sent := uart_sent s @ cs, cons_e := cons_w s\<rparr>"])
      (simp add: edits_def consoleintr_def release_with_lock edit_def cons_ok_def cons_fits_def cons_pending_def cons_committed_def)
qed

lemma consoleintr_back:
  assumes "handler_ready s" and "c = 8 \<or> c = 0x7f"
  shows "\<exists>t. edits c s t"
proof -
  let ?s = "with_lock Cons_lock s"
  note H = handler_readyD [OF assms(1)]
  show ?thesis
  proof (cases "cons_e s = cons_w s")
    case True
    then show ?thesis using assms(2) H(9,6) H(3,5)
      by (intro exI [of _ s]) (auto simp: edits_def consoleintr_def release_with_lock edit_def cons_pending_def)
  next
    case False
    have "port_ready (with_lock Cons_lock (s\<lparr>cons_e := cons_e s - 1\<rparr>))" using H(8) H(1) by simp
    then show ?thesis using assms(2) False H(9,6) H(3) cons_erased_views [OF H(5) False]
      by (intro exI [of _ "s\<lparr>cons_e := cons_e s - 1, uart_sent := uart_sent s @ echo BACKSPACE\<rparr>"])
        (auto simp: edits_def consoleintr_def release_with_lock edit_def consputc_ready)
  qed
qed

lemma consoleintr_skip:
  assumes "handler_ready s" and "c = 0 \<or> 128 \<le> unat (cons_e s - cons_r s)" and "c \<notin> {0x10, 0x15, 8, 0x7f}"
  shows "\<exists>t. edits c s t"
proof -
  let ?s = "with_lock Cons_lock s"
  note H = handler_readyD [OF assms(1)]
  have "\<not> (c \<noteq> 0 \<and> cons_e s - cons_r s < 128)" using assms(2) by (auto simp: word_less_nat_alt)
  then show ?thesis using assms(2,3) H(9,6) H(3,5) cons_fill [OF H(7)]
    by (intro exI [of _ s]) (auto simp: edits_def consoleintr_def release_with_lock edit_def)
qed

lemma consoleintr_adds:
  assumes "handler_ready s" and "c \<notin> {0, 0x10, 0x15, 8, 0x7f}" and "unat (cons_e s - cons_r s) < 128" and "0 \<le> c" and "c < 256"
  shows "\<exists>t. edits c s t"
proof -
  let ?s = "with_lock Cons_lock s"
  note H = handler_readyD [OF assms(1)]
  define k where "k = (if c = 13 then 10 else c)"
  have kb: "uint (word_of_int k :: byte) = k" using assms(4,5) by (simp add: k_def uint_word_of_int)
  have b: "word_of_int k = (10 :: byte) \<longleftrightarrow> k = 10" "word_of_int k = (4 :: byte) \<longleftrightarrow> k = 4"
    using kb by (auto dest: arg_cong [of _ _ uint])
  have room: "length (cons_committed s) + length (cons_pending s) < 128" "cons_e s - cons_r s < 128"
    using assms(3) cons_fill [OF H(7)] by (simp_all add: word_less_nat_alt)
  have full: "cons_e s + 1 - cons_r s = 128 \<longleftrightarrow> length (cons_committed s) + length (cons_pending s) = 127"
  proof -
    have "cons_e s + 1 - cons_r s = 128 \<longleftrightarrow> cons_e s - cons_r s = 127" by (auto simp: diff_eq_eq algebra_simps)
    also have "\<dots> \<longleftrightarrow> unat (cons_e s - cons_r s) = 127" by (subst word_unat_eq_iff) simp
    finally show ?thesis using cons_fill [OF H(7)] by simp
  qed
  define e where "e \<longleftrightarrow> k = 10 \<or> k = 4 \<or> length (cons_committed s) + length (cons_pending s) = 127"
  have "(if c = 13 then 10 else word_of_int c) = (word_of_int k :: byte)" by (simp add: k_def)
  then have ed: "edit c (cons_committed s, cons_pending s)
      = (if e then (cons_committed s @ cons_pending s @ [word_of_int k], []) else (cons_committed s, cons_pending s @ [word_of_int k]))"
    using assms(2,3) room b by (simp add: edit_def e_def Let_def not_le)
  have run: "consoleintr c s = Ok ((), if e then woken_up (Some Chan_cons) ((cons_key k s)\<lparr>cons_w := cons_e s + 1\<rparr>) else cons_key k s)"
    using consoleintr_store [OF H(1-3) _ room(2), of c] assms(2,3) full unfolding e_def k_def by auto
  note V = cons_key_views [OF H(7) room(1), of k]
  have ek: "cons_e (cons_key k s) = cons_e s + 1" by (simp add: cons_key_def cons_stored_def)
  show ?thesis
  proof (cases e)
    case True
    then show ?thesis using run ed V cons_finished_views [OF V(1)] unfolding ek
      by (intro exI [of _ "woken_up (Some Chan_cons) ((cons_key k s)\<lparr>cons_w := cons_e s + 1\<rparr>)"]) (simp add: edits_def)
  next
    case False
    then have "k \<noteq> 10" "k \<noteq> 4" by (simp_all add: e_def)
    then show ?thesis using False run ed V b H(5)
      by (intro exI [of _ "cons_key k s"]) (simp add: edits_def cons_ok_def)
  qed
qed


definition quiet_console :: kcons where
  "quiet_console = kuart.extend quiet_port \<lparr>cons_buf = (\<lambda>_. 0), cons_r = 0xFFFFFFFF, cons_w = 0xFFFFFFFF, cons_e = 0xFFFFFFFF\<rparr>"


end
