(* ===== verification/Bio.thy ===== *)
theory Bio
  imports Console
begin

text \<open>
  \<open>kernel/bio.c\<close>: the cache of disk blocks. 30 buffers are linked in a ring through \<open>prev\<close> and \<open>next\<close>, most
  recently used first; index 30 is the list head, which holds no block. A block is a function from byte
  offsets; only the first 1024 offsets are used.

  The disk keeps its blocks and, for the analysis of crashes, the sequence of writes in the order it performed
  them. \<open>disk_rw\<close> is \<open>virtio_disk_rw\<close> as the cache sees it: it returns when the transfer is done. The driver
  itself, whose caller sleeps until the device's interrupt, is the theory \<open>Virtio\<close>; other threads that run
  meanwhile cannot use the buffer, whose sleep lock the caller holds.
\<close>

unbundle bit_operations_syntax

abbreviation (input) NBUF :: nat where "NBUF \<equiv> 30"
abbreviation (input) BSIZE :: nat where "BSIZE \<equiv> 1024"
abbreviation (input) HEAD :: nat where "HEAD \<equiv> 30"

type_synonym block = "nat \<Rightarrow> byte"

record buf =
  valid :: bool
  bdisk :: int
  dev :: uint
  blockno :: uint
  refcnt :: uint
  prev :: nat
  nextb :: nat
  bdata :: block

record kbio = kcons +
  bufs :: "nat \<Rightarrow> buf"
  disk :: "uint \<Rightarrow> block"
  disk_writes :: "(uint \<times> block) list"

definition bget_field :: "nat \<Rightarrow> (buf \<Rightarrow> 'a) \<Rightarrow> ('z kbio_scheme, 'a) kmon" where
  "bget_field b f = kgets (\<lambda>s. f (bufs s b))"

definition bset :: "nat \<Rightarrow> (buf \<Rightarrow> buf) \<Rightarrow> ('z kbio_scheme, unit) kmon" where
  "bset b f = kmodify (\<lambda>s. s\<lparr>bufs := (bufs s)(b := f (bufs s b))\<rparr>)"

definition disk_rw :: "nat \<Rightarrow> bool \<Rightarrow> ('z kbio_scheme, unit) kmon" where
  "disk_rw b write =
     kbind (bget_field b blockno) (\<lambda>n.
     if write then
       kbind (bget_field b bdata) (\<lambda>d.
       kmodify (\<lambda>s. s\<lparr>disk := (disk s)(n := d), disk_writes := disk_writes s @ [(n, d)]\<rparr>))
     else kbind (kgets (\<lambda>s. disk s n)) (\<lambda>d. bset b (\<lambda>x. x\<lparr>bdata := d\<rparr>)))"

text \<open>Put buffer \<open>b\<close> behind the head: the last four assignments of \<open>binit\<close>'s loop and of \<open>brelse\<close>.\<close>

definition link_front :: "nat \<Rightarrow> ('z kbio_scheme, unit) kmon" where
  "link_front b =
     kbind (bget_field HEAD nextb) (\<lambda>n.
     kbind (bset b (\<lambda>x. x\<lparr>nextb := n\<rparr>)) (\<lambda>_.
     kbind (bset b (\<lambda>x. x\<lparr>prev := HEAD\<rparr>)) (\<lambda>_.
     kbind (bget_field HEAD nextb) (\<lambda>n.
     kbind (bset n (\<lambda>x. x\<lparr>prev := b\<rparr>)) (\<lambda>_.
     bset HEAD (\<lambda>x. x\<lparr>nextb := b\<rparr>))))))"

definition unlink :: "nat \<Rightarrow> ('z kbio_scheme, unit) kmon" where
  "unlink b =
     kbind (bget_field b nextb) (\<lambda>n.
     kbind (bget_field b prev) (\<lambda>p.
     kbind (bset n (\<lambda>x. x\<lparr>prev := p\<rparr>)) (\<lambda>_.
     kbind (bget_field b prev) (\<lambda>p.
     kbind (bget_field b nextb) (\<lambda>n.
     bset p (\<lambda>x. x\<lparr>nextb := n\<rparr>))))))"

definition binit :: "('z kbio_scheme, unit) kmon" where
  "binit =
     kbind (initlock Bcache_lock) (\<lambda>_.
     kbind (bset HEAD (\<lambda>x. x\<lparr>prev := HEAD\<rparr>)) (\<lambda>_.
     kbind (bset HEAD (\<lambda>x. x\<lparr>nextb := HEAD\<rparr>)) (\<lambda>_.
     kfor (\<lambda>b. kbind (initsleeplock (Buf_lock b)) (\<lambda>_. link_front b)) [0..<NBUF])))"

text \<open>
  The two searches of \<open>bget\<close>. Following \<open>next\<close> or \<open>prev\<close> from the head comes back to the head after at most
  30 buffers; with the ring damaged the loop would not end (\<open>Block\<close>).
\<close>

fun find_cached :: "nat \<Rightarrow> uint \<Rightarrow> uint \<Rightarrow> nat \<Rightarrow> ('z kbio_scheme, nat option) kmon" where
  "find_cached fuel d n b =
     (if b = HEAD then kret None else
      case fuel of 0 \<Rightarrow> kblock | Suc fuel' \<Rightarrow>
      kbind (bget_field b (\<lambda>x. x)) (\<lambda>x.
      if dev x = d \<and> blockno x = n then kret (Some b) else find_cached fuel' d n (nextb x)))"

fun find_unused_buf :: "nat \<Rightarrow> nat \<Rightarrow> ('z kbio_scheme, nat option) kmon" where
  "find_unused_buf fuel b =
     (if b = HEAD then kret None else
      case fuel of 0 \<Rightarrow> kblock | Suc fuel' \<Rightarrow>
      kbind (bget_field b (\<lambda>x. x)) (\<lambda>x.
      if refcnt x = 0 then kret (Some b) else find_unused_buf fuel' (prev x)))"

declare find_cached.simps [simp del] find_unused_buf.simps [simp del]

definition bget :: "uint \<Rightarrow> uint \<Rightarrow> ('z kbio_scheme, nat) kmon" where
  "bget d n =
     kbind (acquire Bcache_lock) (\<lambda>_.
     kbind (kbind (bget_field HEAD nextb) (find_cached NBUF d n)) (\<lambda>r.
     case r of
       Some b \<Rightarrow>
         kbind (bset b (\<lambda>x. x\<lparr>refcnt := refcnt x + 1\<rparr>)) (\<lambda>_.
         kbind (release Bcache_lock) (\<lambda>_.
         kbind (acquiresleep (Buf_lock b)) (\<lambda>_. kret b)))
     | None \<Rightarrow>
         kbind (kbind (bget_field HEAD prev) (find_unused_buf NBUF)) (\<lambda>r.
         case r of
           Some b \<Rightarrow>
             kbind (bset b (\<lambda>x. x\<lparr>dev := d, blockno := n, valid := False, refcnt := 1\<rparr>)) (\<lambda>_.
             kbind (release Bcache_lock) (\<lambda>_.
             kbind (acquiresleep (Buf_lock b)) (\<lambda>_. kret b)))
         | None \<Rightarrow> kpanic ''bget: no buffers'')))"

definition bread :: "uint \<Rightarrow> uint \<Rightarrow> ('z kbio_scheme, nat) kmon" where
  "bread d n =
     kbind (bget d n) (\<lambda>b.
     kbind (bget_field b valid) (\<lambda>v.
     kbind (if \<not> v then kbind (disk_rw b False) (\<lambda>_. bset b (\<lambda>x. x\<lparr>valid := True\<rparr>)) else kret ()) (\<lambda>_.
     kret b)))"

definition bwrite :: "nat \<Rightarrow> ('z kbio_scheme, unit) kmon" where
  "bwrite b =
     kbind (holdingsleep (Buf_lock b)) (\<lambda>h.
     if \<not> h then kpanic ''bwrite'' else disk_rw b True)"

definition brelse :: "nat \<Rightarrow> ('z kbio_scheme, unit) kmon" where
  "brelse b =
     kbind (holdingsleep (Buf_lock b)) (\<lambda>h.
     if \<not> h then kpanic ''brelse'' else
     kbind (releasesleep (Buf_lock b)) (\<lambda>_.
     kbind (acquire Bcache_lock) (\<lambda>_.
     kbind (bset b (\<lambda>x. x\<lparr>refcnt := refcnt x - 1\<rparr>)) (\<lambda>_.
     kbind (bget_field b refcnt) (\<lambda>r.
     kbind (if r = 0 then kbind (unlink b) (\<lambda>_. link_front b) else kret ()) (\<lambda>_.
     release Bcache_lock))))))"

definition bpin :: "nat \<Rightarrow> ('z kbio_scheme, unit) kmon" where
  "bpin b =
     kbind (acquire Bcache_lock) (\<lambda>_.
     kbind (bset b (\<lambda>x. x\<lparr>refcnt := refcnt x + 1\<rparr>)) (\<lambda>_.
     release Bcache_lock))"

definition bunpin :: "nat \<Rightarrow> ('z kbio_scheme, unit) kmon" where
  "bunpin b =
     kbind (acquire Bcache_lock) (\<lambda>_.
     kbind (bset b (\<lambda>x. x\<lparr>refcnt := refcnt x - 1\<rparr>)) (\<lambda>_.
     release Bcache_lock))"

end
