(* ===== verification/Virtio.thy ===== *)
theory Virtio
  imports Bio
begin

text \<open>
  \<open>kernel/virtio_disk.c\<close>: the driver of the virtio disk. The descriptor table and the two rings, which driver
  and device share, are part of the state; the address in a descriptor names what it points to. How the
  registers of the device change when the driver writes one of them is a parameter, \<open>vreact\<close>. \<open>virtio_disk_rw\<close> falls into the part up to the notification of the
  device, the sleep until the interrupt handler has cleared \<open>b->disk\<close>, and the part after it.
\<close>

unbundle bit_operations_syntax

abbreviation (input) NUM :: nat where "NUM \<equiv> 8"
abbreviation (input) VIRTIO_MMIO_MAGIC_VALUE :: nat where "VIRTIO_MMIO_MAGIC_VALUE \<equiv> 0x000"
abbreviation (input) VIRTIO_MMIO_VERSION :: nat where "VIRTIO_MMIO_VERSION \<equiv> 0x004"
abbreviation (input) VIRTIO_MMIO_DEVICE_ID :: nat where "VIRTIO_MMIO_DEVICE_ID \<equiv> 0x008"
abbreviation (input) VIRTIO_MMIO_VENDOR_ID :: nat where "VIRTIO_MMIO_VENDOR_ID \<equiv> 0x00c"
abbreviation (input) VIRTIO_MMIO_DEVICE_FEATURES :: nat where "VIRTIO_MMIO_DEVICE_FEATURES \<equiv> 0x010"
abbreviation (input) VIRTIO_MMIO_DRIVER_FEATURES :: nat where "VIRTIO_MMIO_DRIVER_FEATURES \<equiv> 0x020"
abbreviation (input) VIRTIO_MMIO_QUEUE_SEL :: nat where "VIRTIO_MMIO_QUEUE_SEL \<equiv> 0x030"
abbreviation (input) VIRTIO_MMIO_QUEUE_NUM_MAX :: nat where "VIRTIO_MMIO_QUEUE_NUM_MAX \<equiv> 0x034"
abbreviation (input) VIRTIO_MMIO_QUEUE_NUM :: nat where "VIRTIO_MMIO_QUEUE_NUM \<equiv> 0x038"
abbreviation (input) VIRTIO_MMIO_QUEUE_READY :: nat where "VIRTIO_MMIO_QUEUE_READY \<equiv> 0x044"
abbreviation (input) VIRTIO_MMIO_QUEUE_NOTIFY :: nat where "VIRTIO_MMIO_QUEUE_NOTIFY \<equiv> 0x050"
abbreviation (input) VIRTIO_MMIO_INTERRUPT_STATUS :: nat where "VIRTIO_MMIO_INTERRUPT_STATUS \<equiv> 0x060"
abbreviation (input) VIRTIO_MMIO_INTERRUPT_ACK :: nat where "VIRTIO_MMIO_INTERRUPT_ACK \<equiv> 0x064"
abbreviation (input) VIRTIO_MMIO_STATUS :: nat where "VIRTIO_MMIO_STATUS \<equiv> 0x070"
abbreviation (input) VIRTIO_MMIO_QUEUE_DESC_LOW :: nat where "VIRTIO_MMIO_QUEUE_DESC_LOW \<equiv> 0x080"
abbreviation (input) VIRTIO_MMIO_QUEUE_DESC_HIGH :: nat where "VIRTIO_MMIO_QUEUE_DESC_HIGH \<equiv> 0x084"
abbreviation (input) VIRTIO_MMIO_DRIVER_DESC_LOW :: nat where "VIRTIO_MMIO_DRIVER_DESC_LOW \<equiv> 0x090"
abbreviation (input) VIRTIO_MMIO_DRIVER_DESC_HIGH :: nat where "VIRTIO_MMIO_DRIVER_DESC_HIGH \<equiv> 0x094"
abbreviation (input) VIRTIO_MMIO_DEVICE_DESC_LOW :: nat where "VIRTIO_MMIO_DEVICE_DESC_LOW \<equiv> 0x0a0"
abbreviation (input) VIRTIO_MMIO_DEVICE_DESC_HIGH :: nat where "VIRTIO_MMIO_DEVICE_DESC_HIGH \<equiv> 0x0a4"
abbreviation (input) VRING_DESC_F_NEXT :: "16 word" where "VRING_DESC_F_NEXT \<equiv> 1"
abbreviation (input) VRING_DESC_F_WRITE :: "16 word" where "VRING_DESC_F_WRITE \<equiv> 2"
abbreviation (input) VIRTIO_BLK_T_IN :: uint where "VIRTIO_BLK_T_IN \<equiv> 0"
abbreviation (input) VIRTIO_BLK_T_OUT :: uint where "VIRTIO_BLK_T_OUT \<equiv> 1"

text \<open>What the address of a descriptor points to: a command header, the data of a buffer, a status byte.\<close>

datatype dma = Dma_null | Dma_op nat | Dma_data nat | Dma_status nat

record virtq_desc =
  d_addr :: dma
  d_len :: uint
  d_flags :: "16 word"
  d_next :: "16 word"

record virtio_blk_req =
  rq_type :: uint
  rq_reserved :: uint
  rq_sector :: uint64

record kvirtio = kbio +
  vdesc :: "nat \<Rightarrow> virtq_desc"
  avail_idx :: "16 word"
  avail_ring :: "nat \<Rightarrow> 16 word"
  used_idx_dev :: "16 word"
  used_ring :: "nat \<Rightarrow> uint"
  vfree :: "nat \<Rightarrow> bool"
  used_idx :: "16 word"
  info_b :: "nat \<Rightarrow> nat option"
  info_status :: "nat \<Rightarrow> byte"
  vops :: "nat \<Rightarrow> virtio_blk_req"
  vregs :: "nat \<Rightarrow> uint"
  vreact :: "nat \<Rightarrow> uint \<Rightarrow> (nat \<Rightarrow> uint) \<Rightarrow> nat \<Rightarrow> uint"

abbreviation no_desc :: virtq_desc where
  "no_desc \<equiv> \<lparr>d_addr = Dma_null, d_len = 0, d_flags = 0, d_next = 0\<rparr>"

definition rd :: "nat \<Rightarrow> ('z kvirtio_scheme, uint) kmon" where
  "rd r = kgets (\<lambda>s. vregs s r)"

definition wr :: "nat \<Rightarrow> uint \<Rightarrow> ('z kvirtio_scheme, unit) kmon" where
  "wr r v = kmodify (\<lambda>s. s\<lparr>vregs := vreact s r v (vregs s)\<rparr>)"

text \<open>
  The features the driver declines: read-only, SCSI, write-cache mode, several queues, any layout, event
  index, indirect descriptors.
\<close>

definition declined_features :: uint where
  "declined_features = push_bit 5 1 OR push_bit 7 1 OR push_bit 11 1 OR push_bit 12 1 OR push_bit 27 1 OR push_bit 29 1 OR push_bit 28 1"

definition virtio_disk_init :: "('z kvirtio_scheme, unit) kmon" where
  "virtio_disk_init =
     kbind (initlock Disk_lock) (\<lambda>_.
     kbind (rd VIRTIO_MMIO_MAGIC_VALUE) (\<lambda>magic.
     kbind (rd VIRTIO_MMIO_VERSION) (\<lambda>version.
     kbind (rd VIRTIO_MMIO_DEVICE_ID) (\<lambda>devid.
     kbind (rd VIRTIO_MMIO_VENDOR_ID) (\<lambda>vendor.
     if magic \<noteq> 0x74726976 \<or> version \<noteq> 2 \<or> devid \<noteq> 2 \<or> vendor \<noteq> 0x554d4551 then kpanic ''could not find virtio disk'' else
     kbind (wr VIRTIO_MMIO_STATUS 0) (\<lambda>_.
     kbind (wr VIRTIO_MMIO_STATUS 1) (\<lambda>_.
     kbind (wr VIRTIO_MMIO_STATUS (1 OR 2)) (\<lambda>_.
     kbind (rd VIRTIO_MMIO_DEVICE_FEATURES) (\<lambda>features.
     kbind (wr VIRTIO_MMIO_DRIVER_FEATURES (features AND NOT declined_features)) (\<lambda>_.
     kbind (wr VIRTIO_MMIO_STATUS (1 OR 2 OR 8)) (\<lambda>_.
     kbind (rd VIRTIO_MMIO_STATUS) (\<lambda>status.
     if status AND 8 = 0 then kpanic ''virtio disk FEATURES_OK unset'' else
     kbind (wr VIRTIO_MMIO_QUEUE_SEL 0) (\<lambda>_.
     kbind (rd VIRTIO_MMIO_QUEUE_READY) (\<lambda>ready.
     if ready \<noteq> 0 then kpanic ''virtio disk should not be ready'' else
     kbind (rd VIRTIO_MMIO_QUEUE_NUM_MAX) (\<lambda>mx.
     if mx = 0 then kpanic ''virtio disk has no queue 0''
     else if unat mx < NUM then kpanic ''virtio disk max queue too short'' else
     kbind (on_mem kalloc) (\<lambda>desc.
     kbind (on_mem kalloc) (\<lambda>avl.
     kbind (on_mem kalloc) (\<lambda>used.
     if desc = 0 \<or> avl = 0 \<or> used = 0 then kpanic ''virtio disk kalloc'' else
     kbind (on_mem (zero_page desc)) (\<lambda>_.
     kbind (on_mem (zero_page avl)) (\<lambda>_.
     kbind (on_mem (zero_page used)) (\<lambda>_.
     kbind (kmodify (\<lambda>s. s\<lparr>vdesc := \<lambda>_. no_desc, avail_idx := 0, avail_ring := \<lambda>_. 0, used_idx_dev := 0, used_ring := \<lambda>_. 0\<rparr>)) (\<lambda>_.
     kbind (wr VIRTIO_MMIO_QUEUE_NUM 8) (\<lambda>_.
     kbind (wr VIRTIO_MMIO_QUEUE_DESC_LOW (ucast desc)) (\<lambda>_.
     kbind (wr VIRTIO_MMIO_QUEUE_DESC_HIGH (ucast (drop_bit 32 desc))) (\<lambda>_.
     kbind (wr VIRTIO_MMIO_DRIVER_DESC_LOW (ucast avl)) (\<lambda>_.
     kbind (wr VIRTIO_MMIO_DRIVER_DESC_HIGH (ucast (drop_bit 32 avl))) (\<lambda>_.
     kbind (wr VIRTIO_MMIO_DEVICE_DESC_LOW (ucast used)) (\<lambda>_.
     kbind (wr VIRTIO_MMIO_DEVICE_DESC_HIGH (ucast (drop_bit 32 used))) (\<lambda>_.
     kbind (wr VIRTIO_MMIO_QUEUE_READY 1) (\<lambda>_.
     kbind (kmodify (\<lambda>s. s\<lparr>vfree := \<lambda>i. if i < NUM then True else vfree s i\<rparr>)) (\<lambda>_.
     wr VIRTIO_MMIO_STATUS (status OR 4))))))))))))))))))))))))))))))))"

fun alloc_desc_scan :: "nat list \<Rightarrow> ('z kvirtio_scheme, int) kmon" where
  "alloc_desc_scan [] = kret (- 1)"
| "alloc_desc_scan (i # is) =
     kbind (kgets (\<lambda>s. vfree s i)) (\<lambda>f.
     if f then kbind (kmodify (\<lambda>s. s\<lparr>vfree := (vfree s)(i := False)\<rparr>)) (\<lambda>_. kret (int i))
     else alloc_desc_scan is)"

definition alloc_desc :: "('z kvirtio_scheme, int) kmon" where
  "alloc_desc = alloc_desc_scan [0..<NUM]"

definition free_desc :: "nat \<Rightarrow> ('z kvirtio_scheme, unit) kmon" where
  "free_desc i =
     (if i \<ge> NUM then kpanic ''free_desc 1'' else
      kbind (kgets (\<lambda>s. vfree s i)) (\<lambda>f.
      if f then kpanic ''free_desc 2'' else
      kbind (kmodify (\<lambda>s. s\<lparr>vdesc := (vdesc s)(i := no_desc)\<rparr>)) (\<lambda>_.
      kbind (kmodify (\<lambda>s. s\<lparr>vfree := (vfree s)(i := True)\<rparr>)) (\<lambda>_.
      wakeup (Some Chan_disk)))))"

text \<open>A chain without a cycle has at most 8 descriptors, and \<open>free_desc\<close> panics on the second visit of one.\<close>

fun free_chain_fuel :: "nat \<Rightarrow> nat \<Rightarrow> ('z kvirtio_scheme, unit) kmon" where
  "free_chain_fuel 0 i = kblock"
| "free_chain_fuel (Suc fuel) i =
     kbind (kgets (\<lambda>s. vdesc s i)) (\<lambda>x.
     kbind (free_desc i) (\<lambda>_.
     if d_flags x AND VRING_DESC_F_NEXT \<noteq> 0 then free_chain_fuel fuel (unat (d_next x)) else kret ()))"

definition vfree_chain :: "nat \<Rightarrow> ('z kvirtio_scheme, unit) kmon" where
  "vfree_chain i = free_chain_fuel (NUM + 1) i"

definition alloc3_desc :: "('z kvirtio_scheme, (nat \<times> nat \<times> nat) option) kmon" where
  "alloc3_desc =
     kbind alloc_desc (\<lambda>a.
     if a < 0 then kret None else
     kbind alloc_desc (\<lambda>b.
     if b < 0 then kbind (free_desc (nat a)) (\<lambda>_. kret None) else
     kbind alloc_desc (\<lambda>c.
     if c < 0 then kbind (free_desc (nat a)) (\<lambda>_. kbind (free_desc (nat b)) (\<lambda>_. kret None)) else
     kret (Some (nat a, nat b, nat c)))))"

text \<open>The request in the three descriptors, the entry in the ring and the notification of the device.\<close>

definition virtio_submit :: "nat \<Rightarrow> bool \<Rightarrow> uint64 \<Rightarrow> nat \<times> nat \<times> nat \<Rightarrow> ('z kvirtio_scheme, unit) kmon" where
  "virtio_submit b write sector = (\<lambda>(i0, i1, i2).
     kbind (kmodify (\<lambda>s. s\<lparr>vops := (vops s)(i0 := \<lparr>rq_type = (if write then VIRTIO_BLK_T_OUT else VIRTIO_BLK_T_IN),
       rq_reserved = 0, rq_sector = sector\<rparr>)\<rparr>)) (\<lambda>_.
     kbind (kmodify (\<lambda>s. s\<lparr>vdesc := (vdesc s)(i0 := \<lparr>d_addr = Dma_op i0, d_len = 16, d_flags = VRING_DESC_F_NEXT,
       d_next = of_nat i1\<rparr>)\<rparr>)) (\<lambda>_.
     kbind (kmodify (\<lambda>s. s\<lparr>vdesc := (vdesc s)(i1 := \<lparr>d_addr = Dma_data b, d_len = of_nat BSIZE,
       d_flags = (if write then 0 else VRING_DESC_F_WRITE) OR VRING_DESC_F_NEXT, d_next = of_nat i2\<rparr>)\<rparr>)) (\<lambda>_.
     kbind (kmodify (\<lambda>s. s\<lparr>info_status := (info_status s)(i0 := 0xff)\<rparr>)) (\<lambda>_.
     kbind (kmodify (\<lambda>s. s\<lparr>vdesc := (vdesc s)(i2 := \<lparr>d_addr = Dma_status i0, d_len = 1, d_flags = VRING_DESC_F_WRITE,
       d_next = 0\<rparr>)\<rparr>)) (\<lambda>_.
     kbind (bset b (\<lambda>x. x\<lparr>bdisk := 1\<rparr>)) (\<lambda>_.
     kbind (kmodify (\<lambda>s. s\<lparr>info_b := (info_b s)(i0 := Some b)\<rparr>)) (\<lambda>_.
     kbind (kmodify (\<lambda>s. s\<lparr>avail_ring := (avail_ring s)(unat (avail_idx s mod 8) := of_nat i0)\<rparr>)) (\<lambda>_.
     kbind (kmodify (\<lambda>s. s\<lparr>avail_idx := avail_idx s + 1\<rparr>)) (\<lambda>_.
     wr VIRTIO_MMIO_QUEUE_NOTIFY 0))))))))))"

definition virtio_finish :: "nat \<Rightarrow> ('z kvirtio_scheme, unit) kmon" where
  "virtio_finish i0 =
     kbind (kmodify (\<lambda>s. s\<lparr>info_b := (info_b s)(i0 := None)\<rparr>)) (\<lambda>_.
     kbind (vfree_chain i0) (\<lambda>_.
     release Disk_lock))"

definition virtio_disk_rw :: "nat \<Rightarrow> bool \<Rightarrow> ('z kvirtio_scheme, unit) kmon" where
  "virtio_disk_rw b write =
     kbind (bget_field b blockno) (\<lambda>n.
     let sector = ucast (n * 2) in
     kbind (acquire Disk_lock) (\<lambda>_.
     kbind alloc3_desc (\<lambda>r.
     case r of None \<Rightarrow> kbind (sleep Chan_disk Disk_lock) (\<lambda>_. kblock)
     | Some idx \<Rightarrow>
         kbind (virtio_submit b write sector idx) (\<lambda>_.
         kbind (bget_field b bdisk) (\<lambda>busy.
         if busy = 1 then kbind (sleep (Chan_buf b) Disk_lock) (\<lambda>_. kblock)
         else virtio_finish (fst idx))))))"

text \<open>One entry of the used ring after the other; between two looks at the index the device may add more.\<close>

fun virtio_intr_loop :: "nat \<Rightarrow> ('z kvirtio_scheme, unit) kmon" where
  "virtio_intr_loop fuel =
     kbind (kgets (\<lambda>s. used_idx s \<noteq> used_idx_dev s)) (\<lambda>more.
     if \<not> more then kret () else
     case fuel of 0 \<Rightarrow> kblock | Suc fuel' \<Rightarrow>
     kbind (kgets (\<lambda>s. unat (used_ring s (unat (used_idx s mod 8))))) (\<lambda>i.
     if i \<ge> NUM then kub ''disk.info'' else
     kbind (kgets (\<lambda>s. info_status s i)) (\<lambda>st.
     if st \<noteq> 0 then kpanic ''virtio_disk_intr status'' else
     kbind (kgets (\<lambda>s. info_b s i)) (\<lambda>r.
     case r of None \<Rightarrow> kub ''disk.info.b''
     | Some b \<Rightarrow>
         kbind (bset b (\<lambda>x. x\<lparr>bdisk := 0\<rparr>)) (\<lambda>_.
         kbind (wakeup (Some (Chan_buf b))) (\<lambda>_.
         kbind (kmodify (\<lambda>s. s\<lparr>used_idx := used_idx s + 1\<rparr>)) (\<lambda>_.
         virtio_intr_loop fuel')))))))"

declare virtio_intr_loop.simps [simp del]

definition virtio_disk_intr :: "('z kvirtio_scheme, unit) kmon" where
  "virtio_disk_intr =
     kbind (acquire Disk_lock) (\<lambda>_.
     kbind (rd VIRTIO_MMIO_INTERRUPT_STATUS) (\<lambda>v.
     kbind (wr VIRTIO_MMIO_INTERRUPT_ACK (v AND 3)) (\<lambda>_.
     kbind (kgets (\<lambda>s. unat (used_idx_dev s - used_idx s))) (\<lambda>n.
     kbind (virtio_intr_loop n) (\<lambda>_.
     release Disk_lock)))))"

end
