(* ===== verification/Log.thy ===== *)
theory Log
  imports Virtio
begin

text \<open>
  \<open>kernel/log.c\<close>: the redo log that makes file-system calls atomic with respect to crashes. The in-memory
  header counts and names the logged blocks; the log area on disk is a header block, with the count and the
  block numbers as 32-bit little-endian integers, followed by the copies of the blocks. Block numbers are
  kept as 32-bit words.
\<close>

unbundle bit_operations_syntax

abbreviation (input) MAXOPBLOCKS :: int where "MAXOPBLOCKS \<equiv> 10"
abbreviation (input) LOGBLOCKS :: nat where "LOGBLOCKS \<equiv> 30"

text \<open>A 32-bit integer in a block.\<close>

definition load32 :: "block \<Rightarrow> nat \<Rightarrow> uint" where
  "load32 d i = ucast (d i) OR push_bit 8 (ucast (d (i + 1))) OR push_bit 16 (ucast (d (i + 2))) OR push_bit 24 (ucast (d (i + 3)))"

definition store32 :: "block \<Rightarrow> nat \<Rightarrow> uint \<Rightarrow> block" where
  "store32 d i v = d(i := ucast v, i + 1 := ucast (drop_bit 8 v), i + 2 := ucast (drop_bit 16 v), i + 3 := ucast (drop_bit 24 v))"

record klog = kvirtio +
  log_start :: uint
  log_outstanding :: int
  log_committing :: bool
  log_dev :: uint
  lh_n :: int
  lh_block :: "nat \<Rightarrow> uint"

text \<open>The body of the loop of \<open>install_trans\<close>, for entry \<open>tail\<close> of the header.\<close>

definition install_block :: "bool \<Rightarrow> nat \<Rightarrow> ('z klog_scheme, unit) kmon" where
  "install_block recovering tail =
     kbind (kgets (\<lambda>s. (log_dev s, log_start s, lh_block s tail))) (\<lambda>(d, start, dst).
     if LOGBLOCKS \<le> tail then kub ''log.lh.block'' else
     kbind (if recovering then
         kbind (printf (map of_char ''recovering tail %d dst %d'' @ [10]) [Va_int (of_nat tail), Va_int dst]) (\<lambda>_. kret ())
       else kret ()) (\<lambda>_.
     kbind (bread d (start + of_nat tail + 1)) (\<lambda>lbuf.
     kbind (bread d dst) (\<lambda>dbuf.
     kbind (bget_field lbuf bdata) (\<lambda>x.
     kbind (bset dbuf (\<lambda>b. b\<lparr>bdata := x\<rparr>)) (\<lambda>_.
     kbind (bwrite dbuf) (\<lambda>_.
     kbind (if \<not> recovering then bunpin dbuf else kret ()) (\<lambda>_.
     kbind (brelse lbuf) (\<lambda>_.
     brelse dbuf)))))))))"

definition install_trans :: "bool \<Rightarrow> ('z klog_scheme, unit) kmon" where
  "install_trans recovering = kbind (kgets lh_n) (\<lambda>n. kfor (install_block recovering) [0..<nat n])"

definition read_head :: "('z klog_scheme, unit) kmon" where
  "read_head =
     kbind (kgets (\<lambda>s. (log_dev s, log_start s))) (\<lambda>(d, start).
     kbind (bread d start) (\<lambda>b.
     kbind (bget_field b bdata) (\<lambda>lh.
     kbind (kmodify (\<lambda>s. s\<lparr>lh_n := sint (load32 lh 0)\<rparr>)) (\<lambda>_.
     kbind (kgets lh_n) (\<lambda>n.
     kbind (kfor (\<lambda>i. if LOGBLOCKS \<le> i then kub ''log.lh.block''
        else kmodify (\<lambda>s. s\<lparr>lh_block := (lh_block s)(i := load32 lh (4 + 4 * i))\<rparr>)) [0..<nat n]) (\<lambda>_.
     brelse b))))))"

definition write_head :: "('z klog_scheme, unit) kmon" where
  "write_head =
     kbind (kgets (\<lambda>s. (log_dev s, log_start s))) (\<lambda>(d, start).
     kbind (bread d start) (\<lambda>b.
     kbind (kgets lh_n) (\<lambda>n.
     kbind (bset b (\<lambda>x. x\<lparr>bdata := store32 (bdata x) 0 (word_of_int n)\<rparr>)) (\<lambda>_.
     kbind (kfor (\<lambda>i. if LOGBLOCKS \<le> i then kub ''log.lh.block'' else
        kbind (kgets (\<lambda>s. lh_block s i)) (\<lambda>v. bset b (\<lambda>x. x\<lparr>bdata := store32 (bdata x) (4 + 4 * i) v\<rparr>))) [0..<nat n]) (\<lambda>_.
     kbind (bwrite b) (\<lambda>_.
     brelse b))))))"

definition recover_from_log :: "('z klog_scheme, unit) kmon" where
  "recover_from_log =
     kbind read_head (\<lambda>_.
     kbind (install_trans True) (\<lambda>_.
     kbind (kmodify (\<lambda>s. s\<lparr>lh_n := 0\<rparr>)) (\<lambda>_.
     write_head)))"

text \<open>\<open>sizeof(struct logheader)\<close> is 124, below the block size, so that the first test of \<open>initlog\<close> never fires.\<close>

definition initlog :: "uint \<Rightarrow> uint \<Rightarrow> ('z klog_scheme, unit) kmon" where
  "initlog d logstart =
     (if 4 + 4 * LOGBLOCKS \<ge> BSIZE then kpanic ''initlog: too big logheader'' else
      kbind (initlock Log_lock) (\<lambda>_.
      kbind (kmodify (\<lambda>s. s\<lparr>log_start := logstart\<rparr>)) (\<lambda>_.
      kbind (kmodify (\<lambda>s. s\<lparr>log_dev := d\<rparr>)) (\<lambda>_.
      recover_from_log))))"

text \<open>One pass of the waiting loop.\<close>

definition begin_op :: "('z klog_scheme, unit) kmon" where
  "begin_op =
     kbind (acquire Log_lock) (\<lambda>_.
     kbind (kgets (\<lambda>s. (log_committing s, lh_n s, log_outstanding s))) (\<lambda>(c, n, out).
     if c then kbind (sleep Chan_log Log_lock) (\<lambda>_. kblock)
     else if n + (out + 1) * MAXOPBLOCKS > int LOGBLOCKS then kbind (sleep Chan_log Log_lock) (\<lambda>_. kblock)
     else
       kbind (kmodify (\<lambda>s. s\<lparr>log_outstanding := log_outstanding s + 1\<rparr>)) (\<lambda>_.
       release Log_lock)))"

text \<open>The body of the loop of \<open>write_log\<close>.\<close>

definition write_log_block :: "nat \<Rightarrow> ('z klog_scheme, unit) kmon" where
  "write_log_block tail =
     kbind (kgets (\<lambda>s. (log_dev s, log_start s, lh_block s tail))) (\<lambda>(d, start, src).
     if LOGBLOCKS \<le> tail then kub ''log.lh.block'' else
     kbind (bread d (start + of_nat tail + 1)) (\<lambda>to.
     kbind (bread d src) (\<lambda>from.
     kbind (bget_field from bdata) (\<lambda>x.
     kbind (bset to (\<lambda>b. b\<lparr>bdata := x\<rparr>)) (\<lambda>_.
     kbind (bwrite to) (\<lambda>_.
     kbind (brelse from) (\<lambda>_.
     brelse to)))))))"

definition write_log :: "('z klog_scheme, unit) kmon" where
  "write_log = kbind (kgets lh_n) (\<lambda>n. kfor write_log_block [0..<nat n])"

definition commit :: "('z klog_scheme, unit) kmon" where
  "commit =
     kbind (kgets lh_n) (\<lambda>n.
     if n > 0 then
       kbind write_log (\<lambda>_.
       kbind write_head (\<lambda>_.
       kbind (install_trans False) (\<lambda>_.
       kbind (kmodify (\<lambda>s. s\<lparr>lh_n := 0\<rparr>)) (\<lambda>_.
       write_head))))
     else kret ())"

definition end_op :: "('z klog_scheme, unit) kmon" where
  "end_op =
     kbind (acquire Log_lock) (\<lambda>_.
     kbind (kmodify (\<lambda>s. s\<lparr>log_outstanding := log_outstanding s - 1\<rparr>)) (\<lambda>_.
     kbind (kgets (\<lambda>s. (log_committing s, log_outstanding s))) (\<lambda>(c, out).
     if c then kpanic ''log.committing'' else
     kbind (if out = 0 then kmodify (\<lambda>s. s\<lparr>log_committing := True\<rparr>) else wakeup (Some Chan_log)) (\<lambda>_.
     kbind (release Log_lock) (\<lambda>_.
     if out = 0 then
       kbind commit (\<lambda>_.
       kbind (acquire Log_lock) (\<lambda>_.
       kbind (kmodify (\<lambda>s. s\<lparr>log_committing := False\<rparr>)) (\<lambda>_.
       kbind (wakeup (Some Chan_log)) (\<lambda>_.
       release Log_lock))))
     else kret ())))))"

text \<open>The index of a block in the header, or the number of entries (the search of \<open>log_write\<close>).\<close>

fun log_index :: "(nat \<Rightarrow> uint) \<Rightarrow> uint \<Rightarrow> nat \<Rightarrow> nat \<Rightarrow> nat" where
  "log_index blk b i 0 = i"
| "log_index blk b i (Suc k) = (if blk i = b then i else log_index blk b (i + 1) k)"

definition log_write :: "nat \<Rightarrow> ('z klog_scheme, unit) kmon" where
  "log_write b =
     kbind (acquire Log_lock) (\<lambda>_.
     kbind (kgets (\<lambda>s. (lh_n s, log_outstanding s, lh_block s))) (\<lambda>(n, out, blk).
     if n \<ge> int LOGBLOCKS then kpanic ''too big a transaction''
     else if out < 1 then kpanic ''log_write outside of trans''
     else
       kbind (bget_field b blockno) (\<lambda>bno.
       let i = log_index blk bno 0 (nat n) in
       kbind (kmodify (\<lambda>s. s\<lparr>lh_block := (lh_block s)(i := bno)\<rparr>)) (\<lambda>_.
       kbind (if int i = n then kbind (bpin b) (\<lambda>_. kmodify (\<lambda>s. s\<lparr>lh_n := lh_n s + 1\<rparr>)) else kret ()) (\<lambda>_.
       release Log_lock)))))"

end
