(* ===== verification/Fs.thy ===== *)
theory Fs
  imports Log
begin

text \<open>
  \<open>kernel/fs.c\<close>: blocks, inodes, file contents, directories and path names. An inode pointer is an index into
  the inode table; \<open>None\<close> is the null pointer. A directory entry read into the kernel is its 16 bytes. Names
  are their bytes up to the NUL, at most 14.
  The in-memory inode has room for 12 block addresses although the code uses index 12: such an access is
  undefined.
\<close>

unbundle bit_operations_syntax

abbreviation (input) ROOTDEV :: uint where "ROOTDEV \<equiv> 1"
abbreviation (input) ROOTINO :: uint where "ROOTINO \<equiv> 1"
abbreviation (input) NINODE :: nat where "NINODE \<equiv> 50"
abbreviation (input) NDIRECT :: nat where "NDIRECT \<equiv> 11"
abbreviation (input) NINDIRECT :: nat where "NINDIRECT \<equiv> 256"
abbreviation (input) MAXFILE :: nat where "MAXFILE \<equiv> NDIRECT + NINDIRECT + NINDIRECT * NINDIRECT"
abbreviation (input) DIRSIZ :: nat where "DIRSIZ \<equiv> 14"
abbreviation (input) FSMAGIC :: uint where "FSMAGIC \<equiv> 0x10203040"
abbreviation (input) T_DIR :: "16 word" where "T_DIR \<equiv> 1"
abbreviation (input) T_FILE :: "16 word" where "T_FILE \<equiv> 2"
abbreviation (input) T_DEVICE :: "16 word" where "T_DEVICE \<equiv> 3"
abbreviation (input) T_SYMLINK :: "16 word" where "T_SYMLINK \<equiv> 4"

record superblock =
  sb_magic :: uint
  sb_size :: uint
  sb_nblocks :: uint
  sb_ninodes :: uint
  sb_nlog :: uint
  sb_logstart :: uint
  sb_inodestart :: uint
  sb_bmapstart :: uint

record inode =
  idev :: uint
  inum :: uint
  iref :: int
  ivalid :: bool
  itype :: "16 word"
  imajor :: "16 word"
  iminor :: "16 word"
  nlink :: "16 word"
  isize :: uint
  iaddrs :: "nat \<Rightarrow> uint"

record kfs = klog +
  sb :: superblock
  inodes :: "nat \<Rightarrow> inode"

definition load16 :: "block \<Rightarrow> nat \<Rightarrow> 16 word" where
  "load16 d i = ucast (d i) OR push_bit 8 (ucast (d (i + 1)))"

definition store16 :: "block \<Rightarrow> nat \<Rightarrow> 16 word \<Rightarrow> block" where
  "store16 d i v = d(i := ucast v, i + 1 := ucast (drop_bit 8 v))"

definition iget_field :: "nat \<Rightarrow> (inode \<Rightarrow> 'a) \<Rightarrow> ('z kfs_scheme, 'a) kmon" where
  "iget_field ip f = kgets (\<lambda>s. f (inodes s ip))"

definition iset :: "nat \<Rightarrow> (inode \<Rightarrow> inode) \<Rightarrow> ('z kfs_scheme, unit) kmon" where
  "iset ip f = kmodify (\<lambda>s. s\<lparr>inodes := (inodes s)(ip := f (inodes s ip))\<rparr>)"

text \<open>\<open>ip->addrs[i]\<close>, an array of \<open>NDIRECT + 1\<close> elements.\<close>

definition iaddr :: "nat \<Rightarrow> nat \<Rightarrow> ('z kfs_scheme, uint) kmon" where
  "iaddr ip i = (if NDIRECT + 1 \<le> i then kub ''ip->addrs'' else iget_field ip (\<lambda>x. iaddrs x i))"

definition set_iaddr :: "nat \<Rightarrow> nat \<Rightarrow> uint \<Rightarrow> ('z kfs_scheme, unit) kmon" where
  "set_iaddr ip i a = (if NDIRECT + 1 \<le> i then kub ''ip->addrs'' else iset ip (\<lambda>x. x\<lparr>iaddrs := (iaddrs x)(i := a)\<rparr>))"

section \<open>Blocks\<close>

definition readsb :: "uint \<Rightarrow> ('z kfs_scheme, unit) kmon" where
  "readsb d =
     kbind (bread d 1) (\<lambda>bp.
     kbind (bget_field bp bdata) (\<lambda>x.
     kbind (kmodify (\<lambda>s. s\<lparr>sb := \<lparr>sb_magic = load32 x 0, sb_size = load32 x 4, sb_nblocks = load32 x 8,
       sb_ninodes = load32 x 12, sb_nlog = load32 x 16, sb_logstart = load32 x 20, sb_inodestart = load32 x 24,
       sb_bmapstart = load32 x 28\<rparr>\<rparr>)) (\<lambda>_.
     brelse bp)))"

definition bzero :: "uint \<Rightarrow> uint \<Rightarrow> ('z kfs_scheme, unit) kmon" where
  "bzero d bno =
     kbind (bread d bno) (\<lambda>bp.
     kbind (bset bp (\<lambda>x. x\<lparr>bdata := \<lambda>_. 0\<rparr>)) (\<lambda>_.
     kbind (log_write bp) (\<lambda>_.
     brelse bp)))"

definition BBLOCK :: "nat \<Rightarrow> superblock \<Rightarrow> uint" where
  "BBLOCK b x = of_nat (b div 8192) + sb_bmapstart x"

definition IBLOCK :: "uint \<Rightarrow> superblock \<Rightarrow> uint" where
  "IBLOCK i x = i div 16 + sb_inodestart x"

definition bit_mask :: "nat \<Rightarrow> byte" where
  "bit_mask bi = push_bit (bi mod 8) 1"

text \<open>The inner loop of \<open>balloc\<close> over the bits of one bitmap block, from bit number \<open>b\<close> of the disk on.\<close>

fun balloc_bits :: "uint \<Rightarrow> nat \<Rightarrow> nat \<Rightarrow> nat list \<Rightarrow> ('z kfs_scheme, uint option) kmon" where
  "balloc_bits d b bp [] = kret None"
| "balloc_bits d b bp (bi # bis) =
     kbind (kgets (\<lambda>s. unat (sb_size (sb s)))) (\<lambda>sz.
     if b + bi \<ge> sz then kret None else
     let m = bit_mask bi in
     kbind (bget_field bp (\<lambda>x. bdata x (bi div 8))) (\<lambda>x.
     if x AND m = 0 then
       kbind (bset bp (\<lambda>x. x\<lparr>bdata := (bdata x)(bi div 8 := bdata x (bi div 8) OR m)\<rparr>)) (\<lambda>_.
       kbind (log_write bp) (\<lambda>_.
       kbind (brelse bp) (\<lambda>_.
       kbind (bzero d (of_nat (b + bi))) (\<lambda>_.
       kret (Some (of_nat (b + bi)))))))
     else balloc_bits d b bp bis))"

fun balloc_loop :: "uint \<Rightarrow> nat list \<Rightarrow> ('z kfs_scheme, uint) kmon" where
  "balloc_loop d [] = kbind (printf (map of_char ''balloc: out of blocks'' @ [10]) []) (\<lambda>_. kret 0)"
| "balloc_loop d (b # bs) =
     kbind (kgets (\<lambda>s. BBLOCK b (sb s))) (\<lambda>n.
     kbind (bread d n) (\<lambda>bp.
     kbind (balloc_bits d b bp [0..<8192]) (\<lambda>r.
     case r of Some a \<Rightarrow> kret a
     | None \<Rightarrow> kbind (brelse bp) (\<lambda>_. balloc_loop d bs))))"

definition balloc :: "uint \<Rightarrow> ('z kfs_scheme, uint) kmon" where
  "balloc d =
     kbind (kgets (\<lambda>s. unat (sb_size (sb s)))) (\<lambda>sz.
     balloc_loop d (map (\<lambda>k. 8192 * k) [0..<(sz + 8191) div 8192]))"

definition bfree :: "uint \<Rightarrow> uint \<Rightarrow> ('z kfs_scheme, unit) kmon" where
  "bfree d b =
     kbind (kgets (\<lambda>s. BBLOCK (unat b) (sb s))) (\<lambda>n.
     kbind (bread d n) (\<lambda>bp.
     let bi = unat b mod 8192; m = bit_mask bi in
     kbind (bget_field bp (\<lambda>x. bdata x (bi div 8))) (\<lambda>x.
     if x AND m = 0 then kpanic ''freeing free block'' else
     kbind (bset bp (\<lambda>x. x\<lparr>bdata := (bdata x)(bi div 8 := bdata x (bi div 8) AND NOT m)\<rparr>)) (\<lambda>_.
     kbind (log_write bp) (\<lambda>_.
     brelse bp)))))"

section \<open>Inodes\<close>

definition iinit :: "('z kfs_scheme, unit) kmon" where
  "iinit = kbind (initlock Itable_lock) (\<lambda>_. kfor (\<lambda>i. initsleeplock (Inode_lock i)) [0..<NINODE])"

text \<open>The search of \<open>iget\<close>: the entry of the inode, and the first empty entry.\<close>

fun iget_scan :: "uint \<Rightarrow> uint \<Rightarrow> nat option \<Rightarrow> nat list \<Rightarrow> ('z kfs_scheme, nat option \<times> nat option) kmon" where
  "iget_scan d n e [] = kret (None, e)"
| "iget_scan d n e (ip # ips) =
     kbind (iget_field ip (\<lambda>x. x)) (\<lambda>x.
     if iref x > 0 \<and> idev x = d \<and> inum x = n then kret (Some ip, e)
     else iget_scan d n (if e = None \<and> iref x = 0 then Some ip else e) ips)"

definition iget :: "uint \<Rightarrow> uint \<Rightarrow> ('z kfs_scheme, nat) kmon" where
  "iget d n =
     kbind (acquire Itable_lock) (\<lambda>_.
     kbind (iget_scan d n None [0..<NINODE]) (\<lambda>r.
     case r of
       (Some ip, _) \<Rightarrow>
         kbind (iset ip (\<lambda>x. x\<lparr>iref := iref x + 1\<rparr>)) (\<lambda>_.
         kbind (release Itable_lock) (\<lambda>_. kret ip))
     | (None, None) \<Rightarrow> kpanic ''iget: no inodes''
     | (None, Some ip) \<Rightarrow>
         kbind (iset ip (\<lambda>x. x\<lparr>idev := d, inum := n, iref := 1, ivalid := False\<rparr>)) (\<lambda>_.
         kbind (release Itable_lock) (\<lambda>_. kret ip))))"

definition dinode_off :: "uint \<Rightarrow> nat" where
  "dinode_off n = unat (n mod 16) * 64"

fun ialloc_loop :: "uint \<Rightarrow> 16 word \<Rightarrow> nat list \<Rightarrow> ('z kfs_scheme, nat option) kmon" where
  "ialloc_loop d ty [] = kbind (printf (map of_char ''ialloc: no inodes'' @ [10]) []) (\<lambda>_. kret None)"
| "ialloc_loop d ty (n # ns) =
     kbind (kgets (\<lambda>s. IBLOCK (of_nat n) (sb s))) (\<lambda>bno.
     kbind (bread d bno) (\<lambda>bp.
     let dip = dinode_off (of_nat n) in
     kbind (bget_field bp (\<lambda>x. load16 (bdata x) dip)) (\<lambda>t.
     if t = 0 then
       kbind (bset bp (\<lambda>x. x\<lparr>bdata := store16 (\<lambda>j. if dip \<le> j \<and> j < dip + 64 then 0 else bdata x j) dip ty\<rparr>)) (\<lambda>_.
       kbind (log_write bp) (\<lambda>_.
       kbind (brelse bp) (\<lambda>_.
       kbind (iget d (of_nat n)) (\<lambda>ip. kret (Some ip)))))
     else kbind (brelse bp) (\<lambda>_. ialloc_loop d ty ns))))"

definition ialloc :: "uint \<Rightarrow> 16 word \<Rightarrow> ('z kfs_scheme, nat option) kmon" where
  "ialloc d ty = kbind (kgets (\<lambda>s. unat (sb_ninodes (sb s)))) (\<lambda>n. ialloc_loop d ty [1..<n])"

text \<open>The fields of an inode in its block; only the 12 addresses of the in-memory inode are copied.\<close>

definition put_dinode :: "inode \<Rightarrow> nat \<Rightarrow> block \<Rightarrow> block" where
  "put_dinode ip dip x =
     fold (\<lambda>i y. store32 y (dip + 12 + 4 * i) (iaddrs ip i)) [0..<NDIRECT + 1]
       (store32 (store16 (store16 (store16 (store16 x dip (itype ip)) (dip + 2) (imajor ip)) (dip + 4) (iminor ip))
         (dip + 6) (nlink ip)) (dip + 8) (isize ip))"

definition get_dinode :: "block \<Rightarrow> nat \<Rightarrow> inode \<Rightarrow> inode" where
  "get_dinode x dip ip = ip\<lparr>itype := load16 x dip, imajor := load16 x (dip + 2), iminor := load16 x (dip + 4),
     nlink := load16 x (dip + 6), isize := load32 x (dip + 8),
     iaddrs := (\<lambda>i. if i < NDIRECT + 1 then load32 x (dip + 12 + 4 * i) else iaddrs ip i)\<rparr>"

definition iupdate :: "nat \<Rightarrow> ('z kfs_scheme, unit) kmon" where
  "iupdate ip =
     kbind (iget_field ip (\<lambda>x. x)) (\<lambda>x.
     kbind (kgets (\<lambda>s. IBLOCK (inum x) (sb s))) (\<lambda>bno.
     kbind (bread (idev x) bno) (\<lambda>bp.
     kbind (bset bp (\<lambda>b. b\<lparr>bdata := put_dinode x (dinode_off (inum x)) (bdata b)\<rparr>)) (\<lambda>_.
     kbind (log_write bp) (\<lambda>_.
     brelse bp)))))"

definition idup :: "nat \<Rightarrow> ('z kfs_scheme, nat) kmon" where
  "idup ip =
     kbind (acquire Itable_lock) (\<lambda>_.
     kbind (iset ip (\<lambda>x. x\<lparr>iref := iref x + 1\<rparr>)) (\<lambda>_.
     kbind (release Itable_lock) (\<lambda>_. kret ip)))"

definition ilock :: "nat \<Rightarrow> ('z kfs_scheme, unit) kmon" where
  "ilock ip =
     kbind (iget_field ip iref) (\<lambda>r.
     if r < 1 then kpanic ''ilock'' else
     kbind (acquiresleep (Inode_lock ip)) (\<lambda>_.
     kbind (iget_field ip (\<lambda>x. x)) (\<lambda>x.
     if ivalid x then kret () else
     kbind (kgets (\<lambda>s. IBLOCK (inum x) (sb s))) (\<lambda>bno.
     kbind (bread (idev x) bno) (\<lambda>bp.
     kbind (bget_field bp bdata) (\<lambda>b.
     kbind (iset ip (get_dinode b (dinode_off (inum x)))) (\<lambda>_.
     kbind (brelse bp) (\<lambda>_.
     kbind (iset ip (\<lambda>x. x\<lparr>ivalid := True\<rparr>)) (\<lambda>_.
     kbind (iget_field ip itype) (\<lambda>t.
     if t = 0 then kpanic ''ilock: no type'' else kret ()))))))))))"

definition iunlock :: "nat \<Rightarrow> ('z kfs_scheme, unit) kmon" where
  "iunlock ip =
     kbind (holdingsleep (Inode_lock ip)) (\<lambda>h.
     kbind (iget_field ip iref) (\<lambda>r.
     if \<not> h \<or> r < 1 then kpanic ''iunlock'' else releasesleep (Inode_lock ip)))"

text \<open>\<open>ip\<close>'s direct blocks, then those of its indirect and of its doubly-indirect block.\<close>

definition free_entry :: "uint \<Rightarrow> nat \<Rightarrow> nat \<Rightarrow> ('z kfs_scheme, unit) kmon" where
  "free_entry d bp j =
     kbind (bget_field bp (\<lambda>x. load32 (bdata x) (4 * j))) (\<lambda>a.
     if a \<noteq> 0 then bfree d a else kret ())"

definition free_subtree :: "uint \<Rightarrow> nat \<Rightarrow> nat \<Rightarrow> ('z kfs_scheme, unit) kmon" where
  "free_subtree d bp1 i =
     kbind (bget_field bp1 (\<lambda>x. load32 (bdata x) (4 * i))) (\<lambda>a.
     if a = 0 then kret () else
     kbind (bread d a) (\<lambda>bp2.
     kbind (kfor (free_entry d bp2) [0..<NINDIRECT]) (\<lambda>_.
     kbind (brelse bp2) (\<lambda>_.
     kbind (bget_field bp1 (\<lambda>x. load32 (bdata x) (4 * i))) (\<lambda>a.
     bfree d a)))))"

definition itrunc :: "nat \<Rightarrow> ('z kfs_scheme, unit) kmon" where
  "itrunc ip =
     kbind (iget_field ip idev) (\<lambda>d.
     kbind (kfor (\<lambda>i.
       kbind (iaddr ip i) (\<lambda>a.
       if a \<noteq> 0 then kbind (bfree d a) (\<lambda>_. set_iaddr ip i 0) else kret ())) [0..<NDIRECT]) (\<lambda>_.
     kbind (iaddr ip NDIRECT) (\<lambda>a.
     kbind (if a \<noteq> 0 then
         kbind (bread d a) (\<lambda>bp1.
         kbind (kfor (free_entry d bp1) [0..<NINDIRECT]) (\<lambda>_.
         kbind (brelse bp1) (\<lambda>_.
         kbind (iaddr ip NDIRECT) (\<lambda>a.
         kbind (bfree d a) (\<lambda>_.
         set_iaddr ip NDIRECT 0)))))
       else kret ()) (\<lambda>_.
     kbind (iaddr ip (NDIRECT + 1)) (\<lambda>a.
     kbind (if a \<noteq> 0 then
         kbind (bread d a) (\<lambda>bp1.
         kbind (kfor (free_subtree d bp1) [0..<NINDIRECT]) (\<lambda>_.
         kbind (brelse bp1) (\<lambda>_.
         kbind (iaddr ip (NDIRECT + 1)) (\<lambda>a.
         kbind (bfree d a) (\<lambda>_.
         set_iaddr ip (NDIRECT + 1) 0)))))
       else kret ()) (\<lambda>_.
     kbind (iset ip (\<lambda>x. x\<lparr>isize := 0\<rparr>)) (\<lambda>_.
     iupdate ip)))))))"

definition iput :: "nat \<Rightarrow> ('z kfs_scheme, unit) kmon" where
  "iput ip =
     kbind (acquire Itable_lock) (\<lambda>_.
     kbind (iget_field ip (\<lambda>x. iref x = 1 \<and> ivalid x \<and> nlink x = 0)) (\<lambda>last.
     kbind (if last then
         kbind (acquiresleep (Inode_lock ip)) (\<lambda>_.
         kbind (release Itable_lock) (\<lambda>_.
         kbind (itrunc ip) (\<lambda>_.
         kbind (iset ip (\<lambda>x. x\<lparr>itype := 0\<rparr>)) (\<lambda>_.
         kbind (iupdate ip) (\<lambda>_.
         kbind (iset ip (\<lambda>x. x\<lparr>ivalid := False\<rparr>)) (\<lambda>_.
         kbind (releasesleep (Inode_lock ip)) (\<lambda>_.
         acquire Itable_lock)))))))
       else kret ()) (\<lambda>_.
     kbind (iset ip (\<lambda>x. x\<lparr>iref := iref x - 1\<rparr>)) (\<lambda>_.
     release Itable_lock))))"

definition iunlockput :: "nat \<Rightarrow> ('z kfs_scheme, unit) kmon" where
  "iunlockput ip = kbind (iunlock ip) (\<lambda>_. iput ip)"

definition reclaim_one :: "uint \<Rightarrow> nat \<Rightarrow> ('z kfs_scheme, unit) kmon" where
  "reclaim_one d n =
     kbind (kgets (\<lambda>s. IBLOCK (of_nat n) (sb s))) (\<lambda>bno.
     kbind (bread d bno) (\<lambda>bp.
     let dip = dinode_off (of_nat n) in
     kbind (bget_field bp (\<lambda>x. load16 (bdata x) dip \<noteq> 0 \<and> load16 (bdata x) (dip + 6) = 0)) (\<lambda>orphan.
     kbind (if orphan then
         kbind (printf (map of_char ''ireclaim: orphaned inode %d'' @ [10]) [Va_int (of_nat n)]) (\<lambda>_.
         kbind (iget d (of_nat n)) (\<lambda>ip. kret (Some ip))) else kret None) (\<lambda>r.
     kbind (brelse bp) (\<lambda>_.
     case r of None \<Rightarrow> kret ()
     | Some ip \<Rightarrow>
         kbind begin_op (\<lambda>_.
         kbind (ilock ip) (\<lambda>_.
         kbind (iunlock ip) (\<lambda>_.
         kbind (iput ip) (\<lambda>_.
         end_op))))))))) "

definition ireclaim :: "uint \<Rightarrow> ('z kfs_scheme, unit) kmon" where
  "ireclaim d = kbind (kgets (\<lambda>s. unat (sb_ninodes (sb s)))) (\<lambda>n. kfor (reclaim_one d) [1..<n])"

definition fsinit :: "uint \<Rightarrow> ('z kfs_scheme, unit) kmon" where
  "fsinit d =
     kbind (readsb d) (\<lambda>_.
     kbind (kgets sb) (\<lambda>x.
     if sb_magic x \<noteq> FSMAGIC then kpanic ''invalid file system'' else
     kbind (initlog d (sb_logstart x)) (\<lambda>_.
     ireclaim d)))"

section \<open>File contents\<close>

text \<open>
  An entry of a block of addresses, allocated when it is 0: the common part of the indirect and the
  doubly-indirect case. The address, 0 if no block could be allocated.
\<close>

definition bmap_entry :: "uint \<Rightarrow> nat \<Rightarrow> nat \<Rightarrow> ('z kfs_scheme, uint) kmon" where
  "bmap_entry d bp i =
     kbind (bget_field bp (\<lambda>x. load32 (bdata x) (4 * i))) (\<lambda>a.
     kbind (if a = 0 then
         kbind (balloc d) (\<lambda>a.
         kbind (if a \<noteq> 0 then
             kbind (bset bp (\<lambda>x. x\<lparr>bdata := store32 (bdata x) (4 * i) a\<rparr>)) (\<lambda>_. log_write bp)
           else kret ()) (\<lambda>_. kret a))
       else kret a) (\<lambda>a.
     kbind (brelse bp) (\<lambda>_. kret a)))"

text \<open>Entry \<open>i\<close> of the inode's own addresses, allocated when it is 0.\<close>

definition bmap_root :: "nat \<Rightarrow> nat \<Rightarrow> ('z kfs_scheme, uint) kmon" where
  "bmap_root ip i =
     kbind (iaddr ip i) (\<lambda>a.
     if a \<noteq> 0 then kret a else
     kbind (iget_field ip idev) (\<lambda>d.
     kbind (balloc d) (\<lambda>a.
     if a = 0 then kret 0 else
     kbind (set_iaddr ip i a) (\<lambda>_. kret a))))"

definition bmap :: "nat \<Rightarrow> uint \<Rightarrow> ('z kfs_scheme, uint) kmon" where
  "bmap ip bn =
     (if unat bn < NDIRECT then bmap_root ip (unat bn) else
      let bn = bn - 11 in
      if unat bn < NINDIRECT then
        kbind (bmap_root ip NDIRECT) (\<lambda>a.
        if a = 0 then kret 0 else
        kbind (iget_field ip idev) (\<lambda>d.
        kbind (bread d a) (\<lambda>bp.
        bmap_entry d bp (unat bn))))
      else
        let bn = bn - 256 in
        if unat bn < NINDIRECT * NINDIRECT then
          kbind (bmap_root ip (NDIRECT + 1)) (\<lambda>a.
          if a = 0 then kret 0 else
          kbind (iget_field ip idev) (\<lambda>d.
          kbind (bread d a) (\<lambda>bp.
          let first = unat bn div NINDIRECT; second = unat bn mod NINDIRECT in
          kbind (bmap_entry d bp first) (\<lambda>_.
          kbind (bget_field bp (\<lambda>x. load32 (bdata x) (4 * first))) (\<lambda>a.
          kbind (bread d a) (\<lambda>bp.
          bmap_entry d bp second))))))
        else kpanic ''bmap: out of range'')"

text \<open>The bytes \<open>off .. off + m\<close> of a block.\<close>

definition block_bytes :: "block \<Rightarrow> nat \<Rightarrow> nat \<Rightarrow> byte list" where
  "block_bytes x off m = map x [off..<off + m]"

definition put_bytes :: "block \<Rightarrow> nat \<Rightarrow> byte list \<Rightarrow> block" where
  "put_bytes x off bs = (\<lambda>j. if off \<le> j \<and> j < off + length bs then bs ! (j - off) else x j)"

lemma round_decreases:
  assumes "\<not> n \<le> tot"
  shows "n - (tot + min (n - tot) (1024 - unat ((off :: uint) mod 1024))) < n - tot"
proof -
  have "unat (off mod 1024) < 1024" by (simp add: unat_mod)
  then show ?thesis using assms by (cases "n - tot \<le> 1024 - unat (off mod 1024)") auto
qed

text \<open>\<open>n\<close> bytes to read, \<open>tot\<close> of them done; the bytes read are part of the result, for a destination in the kernel.\<close>

function readi_loop :: "nat \<Rightarrow> kbuf \<Rightarrow> uint \<Rightarrow> nat \<Rightarrow> nat \<Rightarrow> byte list \<Rightarrow> ('z kfs_scheme, int \<times> byte list) kmon" where
  "readi_loop ip dst off n tot got =
     (if tot \<ge> n then kret (int tot, got) else
      let m = min (n - tot) (BSIZE - unat (off mod 1024)) in
      kbind (bmap ip (off div 1024)) (\<lambda>a.
      if a = 0 then kret (int tot, got) else
      kbind (iget_field ip idev) (\<lambda>d.
      kbind (bread d a) (\<lambda>bp.
      kbind (bget_field bp (\<lambda>x. block_bytes (bdata x) (unat (off mod 1024)) m)) (\<lambda>bs.
      kbind (either_copyout dst bs) (\<lambda>r.
      if r = - 1 then kbind (brelse bp) (\<lambda>_. kret (- 1, got)) else
      kbind (brelse bp) (\<lambda>_.
      readi_loop ip (buf_plus dst m) (off + of_nat m) n (tot + m) (got @ bs))))))))"
  by auto

termination
  by (relation "measure (\<lambda>(ip, dst, off, n, tot, got). n - tot)") (auto intro: round_decreases)

definition readi :: "nat \<Rightarrow> kbuf \<Rightarrow> uint \<Rightarrow> uint \<Rightarrow> ('z kfs_scheme, int \<times> byte list) kmon" where
  "readi ip dst off n =
     kbind (iget_field ip isize) (\<lambda>sz.
     if off > sz \<or> off + n < off then kret (0, []) else
     let n = (if off + n > sz then sz - off else n) in
     readi_loop ip dst off (unat n) 0 [])"

text \<open>The offset reached and the number of bytes written.\<close>

function writei_loop :: "nat \<Rightarrow> kbuf \<Rightarrow> uint \<Rightarrow> nat \<Rightarrow> nat \<Rightarrow> ('z kfs_scheme, uint \<times> nat) kmon" where
  "writei_loop ip src off n tot =
     (if tot \<ge> n then kret (off, tot) else
      let m = min (n - tot) (BSIZE - unat (off mod 1024)) in
      kbind (bmap ip (off div 1024)) (\<lambda>a.
      if a = 0 then kret (off, tot) else
      kbind (iget_field ip idev) (\<lambda>d.
      kbind (bread d a) (\<lambda>bp.
      kbind (either_copyin_to src m) (\<lambda>(r, bs).
      kbind (bset bp (\<lambda>x. x\<lparr>bdata := put_bytes (bdata x) (unat (off mod 1024)) bs\<rparr>)) (\<lambda>_.
      if r = - 1 then kbind (brelse bp) (\<lambda>_. kret (off, tot)) else
      kbind (log_write bp) (\<lambda>_.
      kbind (brelse bp) (\<lambda>_.
      writei_loop ip (buf_plus src m) (off + of_nat m) n (tot + m)))))))))"
  by auto

termination
  by (relation "measure (\<lambda>(ip, src, off, n, tot). n - tot)") (auto intro: round_decreases)

declare readi_loop.simps [simp del] writei_loop.simps [simp del]

definition writei :: "nat \<Rightarrow> kbuf \<Rightarrow> uint \<Rightarrow> uint \<Rightarrow> ('z kfs_scheme, int) kmon" where
  "writei ip src off n =
     kbind (iget_field ip isize) (\<lambda>sz.
     if off > sz \<or> off + n < off then kret (- 1)
     else if off + n > of_nat (MAXFILE * BSIZE) then kret (- 1)
     else
       kbind (writei_loop ip src off (unat n) 0) (\<lambda>(off, tot).
       kbind (iget_field ip isize) (\<lambda>sz.
       kbind (if off > sz then iset ip (\<lambda>x. x\<lparr>isize := off\<rparr>) else kret ()) (\<lambda>_.
       kbind (iupdate ip) (\<lambda>_. kret (int tot))))))"

definition stati :: "nat \<Rightarrow> ('z kfs_scheme, uint \<times> uint \<times> 16 word \<times> 16 word \<times> uint64) kmon" where
  "stati ip = iget_field ip (\<lambda>x. (idev x, inum x, itype x, nlink x, ucast (isize x)))"

section \<open>Directories\<close>

text \<open>\<open>strncmp\<close> of \<open>string.c\<close> on strings given by their bytes; behind the last byte is the NUL.\<close>

fun strncmp_bytes :: "nat \<Rightarrow> byte list \<Rightarrow> byte list \<Rightarrow> int" where
  "strncmp_bytes 0 p q = 0"
| "strncmp_bytes (Suc n) p q =
     (let a = (case p of [] \<Rightarrow> 0 | c # _ \<Rightarrow> c); b = (case q of [] \<Rightarrow> 0 | c # _ \<Rightarrow> c) in
      if a \<noteq> 0 \<and> a = b then strncmp_bytes n (tl p) (tl q) else uint a - uint b)"

definition namecmp :: "byte list \<Rightarrow> byte list \<Rightarrow> int" where
  "namecmp s t = strncmp_bytes DIRSIZ s t"

text \<open>The number and the name in the 16 bytes of a directory entry, and back.\<close>

definition de_inum :: "byte list \<Rightarrow> 16 word" where
  "de_inum bs = ucast (bs ! 0) OR push_bit 8 (ucast (bs ! 1))"

definition de_name :: "byte list \<Rightarrow> byte list" where
  "de_name bs = drop 2 bs"

definition mk_dirent :: "16 word \<Rightarrow> byte list \<Rightarrow> byte list" where
  "mk_dirent n name = [ucast n, ucast (drop_bit 8 n)] @ take DIRSIZ (name @ replicate DIRSIZ 0)"

text \<open>The offsets \<open>0, 16, ...\<close> below the size of the directory.\<close>

definition dirent_offsets :: "uint \<Rightarrow> nat list" where
  "dirent_offsets n = map (\<lambda>k. 16 * k) [0..<(unat n + 15) div 16]"

text \<open>The inode and the offset of its entry.\<close>

fun dirlookup_loop :: "nat \<Rightarrow> byte list \<Rightarrow> nat list \<Rightarrow> ('z kfs_scheme, (nat \<times> uint) option) kmon" where
  "dirlookup_loop dp name [] = kret None"
| "dirlookup_loop dp name (off # offs) =
     kbind (readi dp (Kernel_buf []) (of_nat off) 16) (\<lambda>(n, de).
     if n \<noteq> 16 then kpanic ''dirlookup read''
     else if de_inum de = 0 then dirlookup_loop dp name offs
     else if namecmp name (de_name de) = 0 then
       kbind (iget_field dp idev) (\<lambda>d.
       kbind (iget d (ucast (de_inum de))) (\<lambda>ip. kret (Some (ip, of_nat off))))
     else dirlookup_loop dp name offs)"

definition dirlookup :: "nat \<Rightarrow> byte list \<Rightarrow> ('z kfs_scheme, (nat \<times> uint) option) kmon" where
  "dirlookup dp name =
     kbind (iget_field dp (\<lambda>x. x)) (\<lambda>x.
     if itype x \<noteq> T_DIR then kpanic ''dirlookup not DIR''
     else dirlookup_loop dp name (dirent_offsets (isize x)))"

text \<open>The offset of the first empty entry, or the first offset behind the last entry.\<close>

fun dirlink_scan :: "nat \<Rightarrow> nat \<Rightarrow> nat list \<Rightarrow> ('z kfs_scheme, nat) kmon" where
  "dirlink_scan dp pos [] = kret pos"
| "dirlink_scan dp pos (off # offs) =
     kbind (readi dp (Kernel_buf []) (of_nat off) 16) (\<lambda>(n, de).
     if n \<noteq> 16 then kpanic ''dirlink read''
     else if de_inum de = 0 then kret off
     else dirlink_scan dp (off + 16) offs)"

definition dirlink :: "nat \<Rightarrow> byte list \<Rightarrow> uint \<Rightarrow> ('z kfs_scheme, int) kmon" where
  "dirlink dp name n =
     kbind (dirlookup dp name) (\<lambda>r.
     case r of Some (ip, _) \<Rightarrow> kbind (iput ip) (\<lambda>_. kret (- 1))
     | None \<Rightarrow>
         kbind (iget_field dp isize) (\<lambda>sz.
         kbind (dirlink_scan dp 0 (dirent_offsets sz)) (\<lambda>off.
         kbind (writei dp (Kernel_buf (mk_dirent (ucast n) name)) (of_nat off) 16) (\<lambda>w.
         if w \<noteq> 16 then kret (- 1) else kret 0))))"

section \<open>Paths\<close>

text \<open>The next element of a path (its first 14 bytes) and the rest of the path without leading slashes.\<close>

definition skipelem :: "byte list \<Rightarrow> (byte list \<times> byte list) option" where
  "skipelem path =
     (let path = dropWhile (\<lambda>c. c = 47) path in
      if path = [] then None
      else
        let s = takeWhile (\<lambda>c. c \<noteq> 47) path; path = dropWhile (\<lambda>c. c \<noteq> 47) path in
        Some (take DIRSIZ s, dropWhile (\<lambda>c. c = 47) path))"

lemma length_dropWhile_le: "length (dropWhile P xs) \<le> length xs"
  by (induction xs) auto

lemma skipelem_shorter:
  assumes "skipelem path = Some (name, rest)"
  shows "length rest < length path"
proof -
  let ?p = "dropWhile (\<lambda>c. c = 47) path"
  have ne: "?p \<noteq> []" and rest: "rest = dropWhile (\<lambda>c. c = 47) (dropWhile (\<lambda>c. c \<noteq> 47) ?p)"
    using assms by (auto simp: skipelem_def Let_def split: if_splits)
  obtain c cs where p: "?p = c # cs" using ne by (cases ?p) auto
  have "c \<noteq> 47" using hd_dropWhile [OF ne] p by simp
  then have "length rest \<le> length cs"
    unfolding rest p using length_dropWhile_le [of "\<lambda>c. c = 47" "dropWhile (\<lambda>c. c \<noteq> 47) cs"]
      length_dropWhile_le [of "\<lambda>c. c \<noteq> 47" cs] by simp
  moreover have "length ?p \<le> length path" by (rule length_dropWhile_le)
  ultimately show ?thesis using p by simp
qed

text \<open>The inode found, and the last path element (the name for the parent's caller).\<close>

function namex_loop :: "nat \<Rightarrow> bool \<Rightarrow> byte list \<Rightarrow> byte list \<Rightarrow> ('z kfs_scheme, nat option \<times> byte list) kmon" where
  "namex_loop ip par path name =
     (case skipelem path of
        None \<Rightarrow> if par then kbind (iput ip) (\<lambda>_. kret (None, name)) else kret (Some ip, name)
      | Some (name, path) \<Rightarrow>
          kbind (ilock ip) (\<lambda>_.
          kbind (iget_field ip itype) (\<lambda>t.
          if t \<noteq> T_DIR then kbind (iunlockput ip) (\<lambda>_. kret (None, name))
          else if par \<and> path = [] then kbind (iunlock ip) (\<lambda>_. kret (Some ip, name))
          else
            kbind (dirlookup ip name) (\<lambda>r.
            case r of None \<Rightarrow> kbind (iunlockput ip) (\<lambda>_. kret (None, name))
            | Some (nxt, _) \<Rightarrow> kbind (iunlockput ip) (\<lambda>_. namex_loop nxt par path name)))))"
  by auto

termination
  by (relation "measure (\<lambda>(ip, par, path, name). length path)") (auto dest: skipelem_shorter)

declare namex_loop.simps [simp del]

definition namex :: "byte list \<Rightarrow> bool \<Rightarrow> ('z kfs_scheme, nat option \<times> byte list) kmon" where
  "namex path par =
     kbind (if path \<noteq> [] \<and> hd path = 47 then iget ROOTDEV ROOTINO
            else kbind curproc (\<lambda>p. kbind (pget p cwd) (\<lambda>d. case d of None \<Rightarrow> kub ''cwd'' | Some ip \<Rightarrow> idup ip))) (\<lambda>ip.
     namex_loop ip par path [])"

definition namei :: "byte list \<Rightarrow> ('z kfs_scheme, nat option) kmon" where
  "namei path = kbind (namex path False) (\<lambda>(ip, _). kret ip)"

definition nameiparent :: "byte list \<Rightarrow> ('z kfs_scheme, nat option \<times> byte list) kmon" where
  "nameiparent path = namex path True"

definition symlink :: "byte list \<Rightarrow> byte list \<Rightarrow> ('z kfs_scheme, int) kmon" where
  "symlink target path =
     kbind begin_op (\<lambda>_.
     kbind (nameiparent path) (\<lambda>(r, name).
     case r of None \<Rightarrow> kbind end_op (\<lambda>_. kret (- 1))
     | Some dp \<Rightarrow>
     kbind (ilock dp) (\<lambda>_.
     kbind (dirlookup dp name) (\<lambda>r.
     case r of Some (ip, _) \<Rightarrow>
         kbind (iunlockput dp) (\<lambda>_. kbind (iput ip) (\<lambda>_. kbind end_op (\<lambda>_. kret (- 1))))
     | None \<Rightarrow>
     kbind (iget_field dp idev) (\<lambda>d.
     kbind (ialloc d T_SYMLINK) (\<lambda>r.
     case r of None \<Rightarrow> kbind (iunlockput dp) (\<lambda>_. kbind end_op (\<lambda>_. kret (- 1)))
     | Some ip \<Rightarrow>
     kbind (ilock ip) (\<lambda>_.
     kbind (iset ip (\<lambda>x. x\<lparr>nlink := 1, isize := 0\<rparr>)) (\<lambda>_.
     kbind (iupdate ip) (\<lambda>_.
     kbind (iget_field ip inum) (\<lambda>n.
     kbind (dirlink dp name n) (\<lambda>r.
     if r < 0 then
       kbind (iset ip (\<lambda>x. x\<lparr>nlink := 0\<rparr>)) (\<lambda>_.
       kbind (iupdate ip) (\<lambda>_.
       kbind (iunlockput ip) (\<lambda>_.
       kbind (iunlockput dp) (\<lambda>_.
       kbind end_op (\<lambda>_. kret (- 1))))))
     else
       kbind (iunlockput dp) (\<lambda>_.
       kbind (writei ip (Kernel_buf target) 0 (of_nat (length target))) (\<lambda>w.
       if w \<noteq> int (length target) then
         kbind (iset ip (\<lambda>x. x\<lparr>nlink := 0\<rparr>)) (\<lambda>_.
         kbind (iupdate ip) (\<lambda>_.
         kbind (iunlockput ip) (\<lambda>_.
         kbind end_op (\<lambda>_. kret (- 1)))))
       else
         kbind (iunlockput ip) (\<lambda>_.
         kbind end_op (\<lambda>_. kret 0)))))))))))))))"

end
