(* ===== verification/Bio_Facts.thy ===== *)
theory Bio_Facts
  imports Bio
begin

text \<open>
  The buffer cache as its clients see it. The two-way ring of buffers is a list in order of use; the searches
  of \<open>bget\<close> are searches of that list. On top of it, \<open>cache_ok\<close> is the invariant of the cache between the
  operations of a process that holds some buffers and has pinned some, and \<open>blk\<close> the contents of the disk as
  seen through the cache. Every operation is then a fact about \<open>blk\<close>, the disk and the sets of held and pinned
  buffers, on which the proofs about the log rest.
\<close>

section \<open>The ring as a list\<close>

fun chain :: "(nat \<Rightarrow> nat) \<Rightarrow> nat \<Rightarrow> nat list \<Rightarrow> nat \<Rightarrow> bool" where
  "chain f a [] c \<longleftrightarrow> f a = c"
| "chain f a (x # xs) c \<longleftrightarrow> f a = x \<and> chain f x xs c"

definition ring_ok :: "(nat \<Rightarrow> buf) \<Rightarrow> nat list \<Rightarrow> bool" where
  "ring_ok B ls \<longleftrightarrow> distinct ls \<and> set ls = {..<NBUF} \<and> chain (\<lambda>b. nextb (B b)) HEAD ls HEAD
     \<and> chain (\<lambda>b. prev (B b)) HEAD (rev ls) HEAD"

lemma chain_append: "chain f a (xs @ y # ys) c \<longleftrightarrow> chain f a xs y \<and> chain f y ys c"
  by (induction xs arbitrary: a) auto

lemma chain_cong: "(\<And>x. x \<in> insert a (set xs) \<Longrightarrow> f x = g x) \<Longrightarrow> chain f a xs c \<longleftrightarrow> chain g a xs c"
  by (induction xs arbitrary: a) auto

lemma chain_last: "chain f a xs c \<Longrightarrow> f (last (a # xs)) = c"
  by (induction xs arbitrary: a) (auto split: if_splits)

lemma chain_first: "chain f a xs c \<Longrightarrow> f a = hd (xs @ [c])"
  by (cases xs) auto

lemma chain_redirect:
  "chain f a xs c \<Longrightarrow> distinct (a # xs) \<Longrightarrow> chain (f(last (a # xs) := d)) a xs d"
proof (induction xs arbitrary: a)
  case (Cons x xs)
  have "chain (f(last (x # xs) := d)) x xs d" using Cons.prems by (intro Cons.IH) auto
  moreover have "last (x # xs) \<noteq> a" using Cons.prems(2) last_in_set [of "x # xs"] by auto
  moreover have "last (a # x # xs) = last (x # xs)" by simp
  ultimately show ?case using Cons.prems(1) unfolding chain.simps by simp
qed simp

lemma chain_join:
  assumes "chain f a xs y" and "chain f b ys c" and "y = hd (ys @ [c])"
  shows "chain f a (xs @ ys) c"
  using assms by (cases ys) (auto simp: chain_append)

text \<open>Taking an element out of the middle.\<close>

lemma chain_unlink:
  assumes "chain f a (xs @ b # ys) c" and "distinct (a # xs @ b # ys)" and "c \<notin> set (b # ys) \<or> c = a"
  shows "chain (f(last (a # xs) := hd (ys @ [c]))) a (xs @ ys) c"
proof (rule chain_join)
  let ?g = "f(last (a # xs) := hd (ys @ [c]))"
  show "chain ?g a xs (hd (ys @ [c]))" using assms by (intro chain_redirect [where c = b]) (auto simp: chain_append)
  have l: "last (a # xs) \<notin> set (b # ys)" using assms(2) last_in_set [of "a # xs"] by auto
  have "chain f b ys c" using assms(1) by (simp add: chain_append)
  then show "chain ?g b ys c" using l by (subst chain_cong [where g = f]) auto
qed simp

text \<open>Putting an element at the front.\<close>

lemma chain_push:
  assumes "chain f a zs c" and "b \<notin> set zs" and "a \<notin> set zs" and "a \<noteq> b"
  shows "chain (f(b := f a, a := b)) a (b # zs) c"
proof (cases zs)
  case (Cons z zs')
  have "chain (f(b := f a, a := b)) z zs' c \<longleftrightarrow> chain f z zs' c" using assms Cons by (intro chain_cong) auto
  then show ?thesis using assms Cons by auto
qed (use assms in auto)

lemma chain_push_end:
  assumes "chain f a zs c" and "distinct (a # zs)" and "b \<notin> set (a # zs)"
  shows "chain (f(b := c, last (a # zs) := b)) a (zs @ [b]) c"
proof -
  have "last (a # zs) \<noteq> b" using assms(3) last_in_set [of "a # zs"] by auto
  moreover have "chain (f(b := c, last (a # zs) := b)) a zs b"
    using assms chain_redirect [of "f(b := c)" a zs c b] by (subst (asm) chain_cong [where g = f]) auto
  ultimately show ?thesis by (simp add: chain_append)
qed

lemma chain_unique:
  "chain f a xs c \<Longrightarrow> chain f a ys c \<Longrightarrow> c \<notin> set xs \<Longrightarrow> c \<notin> set ys \<Longrightarrow> xs = ys"
proof (induction xs arbitrary: a ys)
  case Nil
  then show ?case by (cases ys) auto
next
  case (Cons x xs)
  then show ?case by (cases ys) auto
qed

lemma ring_unique: "ring_ok B ls \<Longrightarrow> ring_ok B ls' \<Longrightarrow> ls' = ls"
  by (rule chain_unique) (auto simp: ring_ok_def)

section \<open>Moving a buffer to the front\<close>

definition unlinked :: "nat \<Rightarrow> (nat \<Rightarrow> buf) \<Rightarrow> nat \<Rightarrow> buf" where
  "unlinked b B = (let n = nextb (B b); p = prev (B b); B1 = B(n := (B n)\<lparr>prev := p\<rparr>) in
     B1(prev (B1 b) := (B1 (prev (B1 b)))\<lparr>nextb := nextb (B1 b)\<rparr>))"

definition linked_front :: "nat \<Rightarrow> (nat \<Rightarrow> buf) \<Rightarrow> nat \<Rightarrow> buf" where
  "linked_front b B = (let B1 = B(b := (B b)\<lparr>nextb := nextb (B HEAD), prev := HEAD\<rparr>); n = nextb (B1 HEAD);
     B2 = B1(n := (B1 n)\<lparr>prev := b\<rparr>) in B2(HEAD := (B2 HEAD)\<lparr>nextb := b\<rparr>))"

lemma bget_field_apply [simp]: "bget_field b f s = Ok (f (bufs s b), s)"
  by (simp add: bget_field_def)

lemma bset_apply [simp]: "bset b f s = Ok ((), s\<lparr>bufs := (bufs s)(b := f (bufs s b))\<rparr>)"
  by (simp add: bset_def)

lemma unlink_apply: "unlink b s = Ok ((), s\<lparr>bufs := unlinked b (bufs s)\<rparr>)"
  by (simp add: unlink_def unlinked_def Let_def)

lemma link_front_apply: "link_front b s = Ok ((), s\<lparr>bufs := linked_front b (bufs s)\<rparr>)"
  by (simp add: link_front_def linked_front_def Let_def)

lemma hd_rev_append: "hd (rev xs @ [a]) = last (a # xs)"
  by (cases xs rule: rev_cases) auto

lemma last_rev_cons: "last (a # rev xs) = hd (xs @ [a])"
  by (cases xs) auto

lemma ring_unlinked:
  assumes "ring_ok B (xs @ b # ys)"
  shows "(\<lambda>c. nextb (unlinked b B c)) = (\<lambda>c. nextb (B c))(last (HEAD # xs) := hd (ys @ [HEAD]))"
    "(\<lambda>c. prev (unlinked b B c)) = (\<lambda>c. prev (B c))(hd (ys @ [HEAD]) := last (HEAD # xs))"
proof -
  have "chain (\<lambda>b. nextb (B b)) b ys HEAD" "chain (\<lambda>b. prev (B b)) b (rev xs) HEAD"
    using assms by (simp_all add: ring_ok_def chain_append)
  from this [THEN chain_first] have np: "nextb (B b) = hd (ys @ [HEAD])" "prev (B b) = last (HEAD # xs)"
    by (simp_all only: hd_rev_append)
  have "b \<noteq> HEAD" "b \<notin> set xs" "b \<notin> set ys" using assms by (auto simp: ring_ok_def)
  then have "hd (ys @ [HEAD]) \<noteq> b" by (cases ys) auto
  then show "(\<lambda>c. nextb (unlinked b B c)) = (\<lambda>c. nextb (B c))(last (HEAD # xs) := hd (ys @ [HEAD]))"
    "(\<lambda>c. prev (unlinked b B c)) = (\<lambda>c. prev (B c))(hd (ys @ [HEAD]) := last (HEAD # xs))"
    using np by (auto simp: unlinked_def Let_def fun_eq_iff)
qed

lemma ring_move:
  assumes "ring_ok B (xs @ b # ys)"
  shows "ring_ok (linked_front b (unlinked b B)) (b # xs @ ys)"
proof -
  let ?B = "unlinked b B" and ?zs = "xs @ ys"
  have d: "distinct (xs @ b # ys)" "set (xs @ b # ys) = {..<NBUF}" using assms by (simp_all add: ring_ok_def)
  then have nh: "HEAD \<notin> set (xs @ b # ys)" by simp
  have n: "chain (\<lambda>c. nextb (?B c)) HEAD ?zs HEAD"
    unfolding ring_unlinked(1) [OF assms] using assms d nh
    by (intro chain_unlink) (auto simp: ring_ok_def)
  have "chain (\<lambda>c. prev (B c)) HEAD (rev ys @ b # rev xs) HEAD" using assms by (simp add: ring_ok_def)
  then have "chain ((\<lambda>c. prev (B c))(last (HEAD # rev ys) := hd (rev xs @ [HEAD]))) HEAD (rev ys @ rev xs) HEAD"
    using d nh by (intro chain_unlink) auto
  then have p: "chain (\<lambda>c. prev (?B c)) HEAD (rev ?zs) HEAD"
    unfolding ring_unlinked(2) [OF assms] last_rev_cons hd_rev_append by simp
  have f: "nextb (?B HEAD) = hd (?zs @ [HEAD])" using chain_first [OF n] .
  have nb: "b \<noteq> HEAD" using nh by auto
  have "hd (?zs @ [HEAD]) \<in> set (?zs @ [HEAD])" by (rule hd_in_set) simp
  then have nb: "hd (?zs @ [HEAD]) \<noteq> b" "b \<noteq> HEAD" using d(1) nb by auto
  have N: "(\<lambda>c. nextb (linked_front b ?B c)) = (\<lambda>c. nextb (?B c))(b := nextb (?B HEAD), HEAD := b)"
    and P: "(\<lambda>c. prev (linked_front b ?B c)) = (\<lambda>c. prev (?B c))(b := HEAD, hd (?zs @ [HEAD]) := b)"
    using nb f by (auto simp: linked_front_def Let_def fun_eq_iff)
  have "chain (\<lambda>c. nextb (linked_front b ?B c)) HEAD (b # ?zs) HEAD"
    unfolding N using n d nh by (intro chain_push) auto
  moreover have "chain (\<lambda>c. prev (linked_front b ?B c)) HEAD (rev ?zs @ [b]) HEAD"
    unfolding P last_rev_cons [symmetric] using d nh by (intro chain_push_end p) auto
  then have "chain (\<lambda>c. prev (linked_front b ?B c)) HEAD (rev (b # ?zs)) HEAD" by simp
  ultimately show ?thesis using d unfolding ring_ok_def by auto
qed

text \<open>Nothing but the links changes.\<close>

lemma unlinked_other:
  assumes "\<And>x n. f (x\<lparr>nextb := n\<rparr>) = f x" and "\<And>x n. f (x\<lparr>prev := n\<rparr>) = f x"
  shows "f (unlinked b B c) = f (B c)"
  using assms by (simp add: unlinked_def Let_def fun_upd_def)

lemma linked_front_other:
  assumes "\<And>x n. f (x\<lparr>nextb := n\<rparr>) = f x" and "\<And>x n. f (x\<lparr>prev := n\<rparr>) = f x"
  shows "f (linked_front b B c) = f (B c)"
  using assms by (simp add: linked_front_def Let_def fun_upd_def)

lemma moved_fields [simp]:
  "valid (linked_front b (unlinked b B) c) = valid (B c)" "dev (linked_front b (unlinked b B) c) = dev (B c)"
  "blockno (linked_front b (unlinked b B) c) = blockno (B c)" "refcnt (linked_front b (unlinked b B) c) = refcnt (B c)"
  "bdata (linked_front b (unlinked b B) c) = bdata (B c)" "bdisk (linked_front b (unlinked b B) c) = bdisk (B c)"
  by (simp_all add: linked_front_other unlinked_other)

text \<open>An update that leaves the links alone.\<close>

lemma ring_ok_upd:
  assumes "ring_ok B ls" and "nextb x = nextb (B b)" and "prev x = prev (B b)"
  shows "ring_ok (B(b := x)) ls"
proof -
  have "(\<lambda>c. nextb ((B(b := x)) c)) = (\<lambda>c. nextb (B c))" "(\<lambda>c. prev ((B(b := x)) c)) = (\<lambda>c. prev (B c))"
    using assms(2,3) by auto
  then show ?thesis using assms(1) by (simp add: ring_ok_def)
qed

section \<open>The searches\<close>

lemma find_cached_list:
  assumes "chain (\<lambda>c. nextb (bufs s c)) a xs HEAD" and "HEAD \<notin> set xs" and "length xs \<le> fuel"
  shows "find_cached fuel d n (nextb (bufs s a)) s = Ok (find (\<lambda>b. dev (bufs s b) = d \<and> blockno (bufs s b) = n) xs, s)"
  using assms
proof (induction xs arbitrary: a fuel)
  case Nil
  then show ?case by (subst find_cached.simps) simp
next
  case (Cons x xs)
  then obtain k where "fuel = Suc k" by (cases fuel) auto
  then show ?case using Cons by (subst find_cached.simps) auto
qed

lemma find_unused_list:
  assumes "chain (\<lambda>c. prev (bufs s c)) a xs HEAD" and "HEAD \<notin> set xs" and "length xs \<le> fuel"
  shows "find_unused_buf fuel (prev (bufs s a)) s = Ok (find (\<lambda>b. refcnt (bufs s b) = 0) xs, s)"
  using assms
proof (induction xs arbitrary: a fuel)
  case Nil
  then show ?case by (subst find_unused_buf.simps) simp
next
  case (Cons x xs)
  then obtain k where "fuel = Suc k" by (cases fuel) auto
  then show ?case using Cons by (subst find_unused_buf.simps) auto
qed

section \<open>The invariant and the view through the cache\<close>

lemma with_lock_bio [simp]:
  "bufs (with_lock lk s) = bufs s" "disk (with_lock lk s) = disk s" "disk_writes (with_lock lk s) = disk_writes s"
  "kbio.more (with_lock lk s) = kbio.more s"
  "bufs_update f (with_lock lk s) = with_lock lk (bufs_update f s)"
  "disk_update g (with_lock lk s) = with_lock lk (disk_update g s)"
  "disk_writes_update h (with_lock lk s) = with_lock lk (disk_writes_update h s)"
  by (simp_all add: with_lock_def pushed_off_def)

lemma bio_updates [simp]:
  "calm (bufs_update f s) = calm s" "avail lk (bufs_update f s) = avail lk s" "cur (bufs_update f s) = cur s"
  "quiet (bufs_update f s) = quiet s" "at_rest p (bufs_update f s) = at_rest p s"
  "calm (disk_update g s) = calm s" "avail lk (disk_update g s) = avail lk s" "cur (disk_update g s) = cur s"
  "quiet (disk_update g s) = quiet s" "at_rest p (disk_update g s) = at_rest p s"
  "calm (disk_writes_update h s) = calm s" "avail lk (disk_writes_update h s) = avail lk s"
  "cur (disk_writes_update h s) = cur s" "quiet (disk_writes_update h s) = quiet s"
  "at_rest p (disk_writes_update h s) = at_rest p s"
  by (simp_all add: calm_def avail_def cur_def quiet_def at_rest_def)

text \<open>What the operations of the cache, and messages on the console, may change.\<close>

definition touches :: "'z kbio_scheme \<Rightarrow> 'z kbio_scheme \<Rightarrow> bool" where
  "touches s t \<longleftrightarrow> (\<exists>P L U B D W. t = s\<lparr>procs := P, slocks := L, uart_sent := U, bufs := B, disk := D, disk_writes := W\<rparr>
     \<and> (\<forall>q. pid (P q) = pid (procs s q)))"

lemma touchesI:
  "t = s\<lparr>procs := procs t, slocks := slocks t, uart_sent := uart_sent t, bufs := bufs t, disk := disk t, disk_writes := disk_writes t\<rparr> \<Longrightarrow>
     (\<And>q. pid (procs t q) = pid (procs s q)) \<Longrightarrow> touches s t"
  unfolding touches_def by blast

lemma touches_refl [simp]: "touches s s"
  by (rule touchesI) simp_all

lemma touches_trans: "touches s t \<Longrightarrow> touches t u \<Longrightarrow> touches s u"
proof -
  assume "touches s t" "touches t u"
  then obtain P L U B D W P' L' U' B' D' W'
    where t: "t = s\<lparr>procs := P, slocks := L, uart_sent := U, bufs := B, disk := D, disk_writes := W\<rparr>" "\<forall>q. pid (P q) = pid (procs s q)"
      and u: "u = t\<lparr>procs := P', slocks := L', uart_sent := U', bufs := B', disk := D', disk_writes := W'\<rparr>" "\<forall>q. pid (P' q) = pid (procs t q)"
    unfolding touches_def by blast
  have "u = s\<lparr>procs := P', slocks := L', uart_sent := U', bufs := B', disk := D', disk_writes := W'\<rparr>" using t(1) u(1) by simp
  moreover have "\<forall>q. pid (P' q) = pid (procs s q)" using t u(2) by simp
  ultimately show ?thesis unfolding touches_def by blast
qed

lemma touches_at_rest: "touches s t \<Longrightarrow> at_rest p s \<Longrightarrow> at_rest p t"
  by (auto simp: touches_def)

lemma touches_pid: "touches s t \<Longrightarrow> pid (procs t q) = pid (procs s q)"
  by (auto simp: touches_def)

text \<open>
  Process \<open>p\<close> holds the buffers \<open>H\<close> of device \<open>d\<close>; the buffers \<open>P\<close> are pinned. A buffer neither held nor
  pinned that is valid has the contents of the disk.
\<close>

definition buf_ok :: "nat \<Rightarrow> uint \<Rightarrow> nat set \<Rightarrow> nat set \<Rightarrow> 'z kbio_scheme \<Rightarrow> nat \<Rightarrow> bool" where
  "buf_ok p d H P s b \<longleftrightarrow> (slocked (slocks s (Buf_lock b)) \<longleftrightarrow> b \<in> H) \<and> (b \<in> H \<longrightarrow> spid (slocks s (Buf_lock b)) = pid (procs s p))
     \<and> refcnt (bufs s b) = of_bool (b \<in> H) + of_bool (b \<in> P) \<and> (b \<in> H \<union> P \<longrightarrow> valid (bufs s b))
     \<and> (valid (bufs s b) \<longrightarrow> dev (bufs s b) = d)
     \<and> (valid (bufs s b) \<and> b \<notin> H \<and> b \<notin> P \<longrightarrow> bdata (bufs s b) = disk s (blockno (bufs s b)))"

definition cache_ok :: "nat \<Rightarrow> uint \<Rightarrow> nat set \<Rightarrow> nat set \<Rightarrow> 'z kbio_scheme \<Rightarrow> bool" where
  "cache_ok p d H P s \<longleftrightarrow> at_rest p s \<and> (\<exists>ls. ring_ok (bufs s) ls) \<and> H \<subseteq> {..<NBUF} \<and> P \<subseteq> {..<NBUF}
     \<and> (\<forall>b<NBUF. buf_ok p d H P s b)
     \<and> (\<forall>b<NBUF. \<forall>c<NBUF. dev (bufs s b) = d \<and> dev (bufs s c) = d \<and> blockno (bufs s b) = blockno (bufs s c) \<longrightarrow> b = c)"

text \<open>The block as a client of the cache reads it.\<close>

definition blk :: "uint \<Rightarrow> 'z kbio_scheme \<Rightarrow> uint \<Rightarrow> block" where
  "blk d s n = (case find (\<lambda>b. valid (bufs s b) \<and> dev (bufs s b) = d \<and> blockno (bufs s b) = n) [0..<NBUF] of
     None \<Rightarrow> disk s n | Some b \<Rightarrow> bdata (bufs s b))"

lemma cache_okD:
  assumes "cache_ok p d H P s"
  shows "at_rest p s" "\<exists>ls. ring_ok (bufs s) ls" "H \<subseteq> {..<NBUF}" "P \<subseteq> {..<NBUF}" "b < NBUF \<Longrightarrow> buf_ok p d H P s b"
    "b < NBUF \<Longrightarrow> c < NBUF \<Longrightarrow> dev (bufs s b) = d \<Longrightarrow> dev (bufs s c) = d \<Longrightarrow> blockno (bufs s b) = blockno (bufs s c) \<Longrightarrow> b = c"
  using assms by (auto simp: cache_ok_def)

lemma blk_cached:
  assumes "cache_ok p d H P s" and "b < NBUF" and "valid (bufs s b)"
  shows "blk d s (blockno (bufs s b)) = bdata (bufs s b)"
proof -
  let ?P = "\<lambda>c. valid (bufs s c) \<and> dev (bufs s c) = d \<and> blockno (bufs s c) = blockno (bufs s b)"
  have d: "dev (bufs s b) = d" using cache_okD(5) [OF assms(1,2)] assms(3) by (simp add: buf_ok_def)
  have "find ?P [0..<NBUF] \<noteq> None" using assms(2,3) d by (auto simp: find_None_iff)
  then obtain c where c: "find ?P [0..<NBUF] = Some c" by blast
  then have "?P c" "c < NBUF" by (auto simp: find_Some_iff)
  then have "c = b" using cache_okD(6) [OF assms(1), of c b] assms(2) d by simp
  then show ?thesis using c by (simp add: blk_def)
qed

lemma blk_uncached:
  assumes "\<And>b. b < NBUF \<Longrightarrow> valid (bufs s b) \<Longrightarrow> dev (bufs s b) = d \<Longrightarrow> blockno (bufs s b) \<noteq> n"
  shows "blk d s n = disk s n"
proof -
  have "find (\<lambda>b. valid (bufs s b) \<and> dev (bufs s b) = d \<and> blockno (bufs s b) = n) [0..<NBUF] = None"
    using assms by (auto simp: find_None_iff)
  then show ?thesis by (simp add: blk_def)
qed

section \<open>Reading a block\<close>

definition grab :: "nat \<Rightarrow> uint \<Rightarrow> uint \<Rightarrow> nat \<Rightarrow> 'z kbio_scheme \<Rightarrow> 'z kbio_scheme" where
  "grab p d n b s = s\<lparr>slocks := (slocks s)(Buf_lock b := taken_by (pid (procs s p))),
     bufs := (bufs s)(b := (bufs s b)\<lparr>valid := True, dev := d, blockno := n, refcnt := refcnt (bufs s b) + 1, bdata := blk d s n\<rparr>)\<rparr>"

lemma ring_length: "ring_ok B ls \<Longrightarrow> length ls = NBUF \<and> HEAD \<notin> set ls \<and> HEAD \<notin> set (rev ls)"
  using distinct_card [of ls] by (auto simp: ring_ok_def)

lemma find_ring:
  assumes "ring_ok (bufs s) ls"
  shows "find_cached NBUF d n (nextb (bufs s HEAD)) s = Ok (find (\<lambda>b. dev (bufs s b) = d \<and> blockno (bufs s b) = n) ls, s)"
    "find_unused_buf NBUF (prev (bufs s HEAD)) s = Ok (find (\<lambda>b. refcnt (bufs s b) = 0) (rev ls), s)"
proof -
  have "chain (\<lambda>b. nextb (bufs s b)) HEAD ls HEAD" "chain (\<lambda>b. prev (bufs s b)) HEAD (rev ls) HEAD"
    using assms by (simp_all add: ring_ok_def)
  then show "find_cached NBUF d n (nextb (bufs s HEAD)) s = Ok (find (\<lambda>b. dev (bufs s b) = d \<and> blockno (bufs s b) = n) ls, s)"
    "find_unused_buf NBUF (prev (bufs s HEAD)) s = Ok (find (\<lambda>b. refcnt (bufs s b) = 0) (rev ls), s)"
    using ring_length [OF assms] by (simp_all add: find_cached_list find_unused_list)
qed

lemma disk_rw_read: "disk_rw b False s = Ok ((), s\<lparr>bufs := (bufs s)(b := (bufs s b)\<lparr>bdata := disk s (blockno (bufs s b))\<rparr>)\<rparr>)"
  by (simp add: disk_rw_def)

lemma bget_cached:
  assumes "cache_ok p d H P s" and "b < NBUF" and "b \<notin> H" and "dev (bufs s b) = d" and "blockno (bufs s b) = n"
  shows "bget d n s = Ok (b, s\<lparr>bufs := (bufs s)(b := (bufs s b)\<lparr>refcnt := refcnt (bufs s b) + 1\<rparr>),
     slocks := (slocks s)(Buf_lock b := taken_by (pid (procs s p)))\<rparr>)"
proof -
  note C = cache_okD [OF assms(1)] and R = at_restD [OF cache_okD(1) [OF assms(1)]]
  obtain ls where ls: "ring_ok (bufs s) ls" using C(2) by blast
  let ?P = "\<lambda>b. dev (bufs s b) = d \<and> blockno (bufs s b) = n"
  have "find ?P ls = Some b"
  proof (cases "find ?P ls")
    case None
    then show ?thesis using assms(2,4,5) ls by (auto simp: find_None_iff ring_ok_def)
  next
    case (Some c)
    then have "?P c" "c < NBUF" using ls by (auto simp: find_Some_iff ring_ok_def)
    then show ?thesis using C(6) [of c b] assms(2,4,5) Some by simp
  qed
  then have "find_cached NBUF d n (nextb (bufs s HEAD)) (with_lock Bcache_lock s) = Ok (Some b, with_lock Bcache_lock s)"
    using find_ring(1) [of "with_lock Bcache_lock s" ls d n] ls by simp
  moreover have "\<not> slocked (slocks s (Buf_lock b))" using C(5) [OF assms(2)] assms(3) by (simp add: buf_ok_def)
  ultimately show ?thesis using R
    by (simp add: bget_def acquire_calm release_with_lock kbind_Ok [where m = "find_cached _ _ _ _"] acquiresleep_free [where p = p])
qed

lemma bget_recycled:
  assumes "cache_ok p d H P s" and "c < NBUF" and "c \<notin> H" and "c \<notin> P"
    and "\<And>b. b < NBUF \<Longrightarrow> dev (bufs s b) = d \<Longrightarrow> blockno (bufs s b) \<noteq> n" and ls: "ring_ok (bufs s) ls"
  shows "\<exists>b<NBUF. b \<notin> H \<and> b \<notin> P \<and> find (\<lambda>b. refcnt (bufs s b) = 0) (rev ls) = Some b \<and> bget d n s = Ok (b, s\<lparr>bufs := (bufs s)(b := (bufs s b)\<lparr>dev := d, blockno := n, valid := False, refcnt := 1\<rparr>),
     slocks := (slocks s)(Buf_lock b := taken_by (pid (procs s p)))\<rparr>)"
proof -
  note C = cache_okD [OF assms(1)] and R = at_restD [OF cache_okD(1) [OF assms(1)]]
  have "find (\<lambda>b. dev (bufs s b) = d \<and> blockno (bufs s b) = n) ls = None"
    using assms(5) ls by (auto simp: find_None_iff ring_ok_def)
  then have 1: "find_cached NBUF d n (nextb (bufs s HEAD)) (with_lock Bcache_lock s) = Ok (None, with_lock Bcache_lock s)"
    using find_ring(1) [of "with_lock Bcache_lock s" ls d n] ls by simp
  have "refcnt (bufs s c) = 0" using C(5) [OF assms(2)] assms(3,4) by (simp add: buf_ok_def)
  then have "find (\<lambda>b. refcnt (bufs s b) = 0) (rev ls) \<noteq> None" using assms(2) ls by (auto simp: find_None_iff ring_ok_def)
  then obtain b where b: "find (\<lambda>b. refcnt (bufs s b) = 0) (rev ls) = Some b" by blast
  then have "b \<in> set (rev ls)" "refcnt (bufs s b) = 0" by (auto simp: find_Some_iff simp del: set_rev)
  then have bl: "b < NBUF" and r: "refcnt (bufs s b) = 0" using ls by (auto simp: ring_ok_def)
  then have "b \<notin> H" "b \<notin> P" using C(5) [OF bl] by (auto simp: buf_ok_def of_bool_def split: if_splits)
  moreover have "find_unused_buf NBUF (prev (bufs s HEAD)) (with_lock Bcache_lock s) = Ok (Some b, with_lock Bcache_lock s)"
    using find_ring(2) [of "with_lock Bcache_lock s" ls] ls b by simp
  moreover have "\<not> slocked (slocks s (Buf_lock b))" using C(5) [OF bl] \<open>b \<notin> H\<close> by (simp add: buf_ok_def)
  ultimately show ?thesis using R bl 1 b
    by (intro exI [of _ b]) (simp add: bget_def acquire_calm release_with_lock kbind_Ok [where m = "find_cached _ _ _ _"]
      kbind_Ok [where m = "find_unused_buf _ _"] acquiresleep_free [where p = p])
qed

lemma bread_grab:
  assumes "cache_ok p d H P s" and "\<And>b. b \<in> H \<Longrightarrow> blockno (bufs s b) \<noteq> n"
    and "(\<exists>b<NBUF. b \<notin> H \<union> P) \<or> (\<exists>b\<in>P. blockno (bufs s b) = n)"
  shows "\<exists>b<NBUF. b \<notin> H \<and> bread d n s = Ok (b, grab p d n b s)
    \<and> ((\<exists>c<NBUF. dev (bufs s c) = d \<and> blockno (bufs s c) = n) \<longrightarrow> dev (bufs s b) = d \<and> blockno (bufs s b) = n)
    \<and> (\<not> (\<exists>c<NBUF. dev (bufs s c) = d \<and> blockno (bufs s c) = n) \<longrightarrow> b \<notin> P
         \<and> (\<forall>ls. ring_ok (bufs s) ls \<longrightarrow> find (\<lambda>b. refcnt (bufs s b) = 0) (rev ls) = Some b))"
proof (cases "\<exists>b<NBUF. dev (bufs s b) = d \<and> blockno (bufs s b) = n")
  case True
  then obtain b where b: "b < NBUF" "dev (bufs s b) = d" "blockno (bufs s b) = n" by blast
  then have "b \<notin> H" using assms(2) by blast
  note g = bget_cached [OF assms(1) b(1) this b(2,3)]
  have "blk d s n = (if valid (bufs s b) then bdata (bufs s b) else disk s n)"
    using blk_cached [OF assms(1) b(1)] blk_uncached [of s d n] b cache_okD(6) [OF assms(1), of _ b] by fastforce
  then have "bread d n s = Ok (b, grab p d n b s)"
    using g b by (cases "bufs s b") (simp add: bread_def kbind_Ok [where m = "bget d n", OF g] disk_rw_read grab_def)
  then show ?thesis using \<open>b \<notin> H\<close> b by blast
next
  case False
  then have nc: "b < NBUF \<Longrightarrow> dev (bufs s b) = d \<Longrightarrow> blockno (bufs s b) \<noteq> n" for b by blast
  have "\<not> (\<exists>b\<in>P. blockno (bufs s b) = n)"
    using nc cache_okD(4,5) [OF assms(1)] by (force simp: buf_ok_def)
  then obtain c where "c < NBUF" "c \<notin> H" "c \<notin> P" using assms(3) by blast
  moreover obtain ls where ls: "ring_ok (bufs s) ls" using cache_okD(2) [OF assms(1)] by blast
  ultimately obtain b where b: "b < NBUF" "b \<notin> H" "b \<notin> P" and lru: "find (\<lambda>b. refcnt (bufs s b) = 0) (rev ls) = Some b"
    and g: "bget d n s = Ok (b, s\<lparr>bufs := (bufs s)(b := (bufs s b)\<lparr>dev := d, blockno := n, valid := False, refcnt := 1\<rparr>),
     slocks := (slocks s)(Buf_lock b := taken_by (pid (procs s p)))\<rparr>)"
    using bget_recycled [OF assms(1) _ _ _ nc ls] by blast
  have "refcnt (bufs s b) = 0" using cache_okD(5) [OF assms(1) b(1)] b by (simp add: buf_ok_def)
  moreover have "blk d s n = disk s n" using nc by (intro blk_uncached) blast
  ultimately have "bread d n s = Ok (b, grab p d n b s)"
    by (cases "bufs s b") (simp add: bread_def kbind_Ok [where m = "bget d n", OF g] disk_rw_read grab_def)
  moreover have "find (\<lambda>b. refcnt (bufs s b) = 0) (rev ls') = Some b" if "ring_ok (bufs s) ls'" for ls'
    using lru ring_unique [OF ls that] by simp
  ultimately show ?thesis using b False by blast
qed

lemma touches_grab: "touches s (grab p d n b s)"
  by (rule touchesI) (simp_all add: grab_def)

lemma grab_fields [simp]:
  "disk (grab p d n b s) = disk s" "disk_writes (grab p d n b s) = disk_writes s" "procs (grab p d n b s) = procs s"
  "bufs (grab p d n b s) b = (bufs s b)\<lparr>valid := True, dev := d, blockno := n, refcnt := refcnt (bufs s b) + 1, bdata := blk d s n\<rparr>"
  "c \<noteq> b \<Longrightarrow> bufs (grab p d n b s) c = bufs s c"
  "slocks (grab p d n b s) = (slocks s)(Buf_lock b := taken_by (pid (procs s p)))"
  by (simp_all add: grab_def)

lemma grab_blockno: "blockno (bufs (grab p d n b s) b) = n" "dev (bufs (grab p d n b s) b) = d" "valid (bufs (grab p d n b s) b)"
  by simp_all

lemma grab_ok:
  assumes "cache_ok p d H P s" and "b < NBUF" and "b \<notin> H"
    and c: "(\<exists>c<NBUF. dev (bufs s c) = d \<and> blockno (bufs s c) = n) \<Longrightarrow> dev (bufs s b) = d \<and> blockno (bufs s b) = n"
  shows "cache_ok p d (insert b H) P (grab p d n b s)"
  unfolding cache_ok_def
proof (intro conjI allI impI)
  note C = cache_okD [OF assms(1)]
  let ?t = "grab p d n b s"
  show "at_rest p ?t" using C(1) by (rule touches_at_rest [OF touches_grab])
  obtain ls where "ring_ok (bufs s) ls" using C(2) by blast
  then show "\<exists>ls. ring_ok (bufs ?t) ls" by (intro exI [of _ ls]) (simp add: grab_def ring_ok_upd)
  show "insert b H \<subseteq> {..<NBUF}" "P \<subseteq> {..<NBUF}" using assms(2) C(3,4) by auto
  show "buf_ok p d (insert b H) P ?t c" if "c < NBUF" for c
    using C(5) [OF that] assms(3) by (cases "c = b") (auto simp: buf_ok_def)
  have u: "c = b" if "c < NBUF" "dev (bufs s c) = d" "blockno (bufs s c) = n" for c
    using C(6) [OF that(1) assms(2)] c that by blast
  show "a = c" if "a < NBUF" "c < NBUF" "dev (bufs ?t a) = d \<and> dev (bufs ?t c) = d \<and> blockno (bufs ?t a) = blockno (bufs ?t c)" for a c
  proof (cases "a = b \<or> c = b")
    case True
    then show ?thesis using that u by (metis grab_blockno grab_fields(5))
  next
    case False
    then show ?thesis using that C(6) [OF that(1,2)] by simp
  qed
qed

lemma grab_blk:
  assumes "cache_ok p d H P s" and "b < NBUF" and "b \<notin> H"
    and c: "(\<exists>c<NBUF. dev (bufs s c) = d \<and> blockno (bufs s c) = n) \<Longrightarrow> dev (bufs s b) = d \<and> blockno (bufs s b) = n"
    and u: "\<not> (\<exists>c<NBUF. dev (bufs s c) = d \<and> blockno (bufs s c) = n) \<Longrightarrow> b \<notin> P"
  shows "blk d (grab p d n b s) = blk d s"
proof
  fix m
  let ?t = "grab p d n b s"
  note T = grab_ok [OF assms(1-4)]
  show "blk d ?t m = blk d s m"
  proof (cases "m = n")
    case True
    then show ?thesis using blk_cached [OF T assms(2)] by simp
  next
    case mn: False
    show ?thesis
    proof (cases "\<exists>c<NBUF. c \<noteq> b \<and> valid (bufs s c) \<and> blockno (bufs s c) = m")
      case True
      then obtain c where "c < NBUF" "c \<noteq> b" "valid (bufs s c)" "blockno (bufs s c) = m" by blast
      then show ?thesis using blk_cached [OF T, of c] blk_cached [OF assms(1), of c] by simp
    next
      case False
      have "blockno (bufs ?t c) \<noteq> m" if "c < NBUF" "valid (bufs ?t c)" for c
        using False mn that by (cases "c = b") auto
      then have "blk d ?t m = disk s m" using blk_uncached [of ?t d m] by simp
      moreover have "blk d s m = disk s m"
      proof (cases "valid (bufs s b) \<and> blockno (bufs s b) = m")
        case True
        then have "b \<notin> P" using c u mn by blast
        then have "bdata (bufs s b) = disk s m" using cache_okD(5) [OF assms(1,2)] assms(3) True by (simp add: buf_ok_def)
        then show ?thesis using blk_cached [OF assms(1,2)] True by metis
      next
        case bad: False
        show ?thesis using False bad by (intro blk_uncached) metis
      qed
      ultimately show ?thesis by simp
    qed
  qed
qed

text \<open>Reading: the buffer returned is held and shows the block; nothing else changes in the view.\<close>

lemma bread_spec:
  assumes "cache_ok p d H P s" and "\<And>b. b \<in> H \<Longrightarrow> blockno (bufs s b) \<noteq> n"
    and "(\<exists>b<NBUF. b \<notin> H \<union> P) \<or> (\<exists>b\<in>P. blockno (bufs s b) = n)"
  obtains b t where "bread d n s = Ok (b, t)" "b < NBUF" "b \<notin> H" "touches s t" "cache_ok p d (insert b H) P t"
    "blockno (bufs t b) = n" "disk t = disk s" "disk_writes t = disk_writes s" "blk d t = blk d s"
    "\<forall>c\<in>H \<union> P. blockno (bufs t c) = blockno (bufs s c)"
    "b \<in> P \<longleftrightarrow> (\<exists>c\<in>P. blockno (bufs s c) = n)" "t = grab p d n b s"
    "\<forall>ls. ring_ok (bufs s) ls \<and> \<not> (\<exists>c<NBUF. dev (bufs s c) = d \<and> blockno (bufs s c) = n) \<longrightarrow>
       find (\<lambda>b. refcnt (bufs s b) = 0) (rev ls) = Some b"
proof -
  obtain b where b: "b < NBUF" "b \<notin> H" "bread d n s = Ok (b, grab p d n b s)"
    "(\<exists>c<NBUF. dev (bufs s c) = d \<and> blockno (bufs s c) = n) \<Longrightarrow> dev (bufs s b) = d \<and> blockno (bufs s b) = n"
    "\<not> (\<exists>c<NBUF. dev (bufs s c) = d \<and> blockno (bufs s c) = n) \<Longrightarrow> b \<notin> P"
    "\<And>ls. ring_ok (bufs s) ls \<Longrightarrow> \<not> (\<exists>c<NBUF. dev (bufs s c) = d \<and> blockno (bufs s c) = n) \<Longrightarrow>
       find (\<lambda>b. refcnt (bufs s b) = 0) (rev ls) = Some b"
    using bread_grab [OF assms] by metis
  note C = cache_okD [OF assms(1)]
  have P: "c < NBUF \<and> dev (bufs s c) = d" if "c \<in> P" for c
    using that C(4) C(5) [of c] by (auto simp: buf_ok_def)
  have iff: "b \<in> P \<longleftrightarrow> (\<exists>c\<in>P. blockno (bufs s c) = n)" using b(1,4,5) P C(6) by metis
  have "blockno (bufs (grab p d n b s) c) = blockno (bufs s c)" if "c \<in> H \<union> P" for c
  proof (cases "c = b")
    case True
    then have "b \<in> P" using that b(2) by blast
    then have "blockno (bufs s b) = n" using b(4,5) by blast
    then show ?thesis using True by simp
  qed simp
  then show ?thesis
    using that [OF b(3,1,2) touches_grab grab_ok [OF assms(1) b(1,2,4)]] grab_blk [OF assms(1) b(1,2,4,5)] iff b(6) by simp
qed

section \<open>Writing, releasing and pinning\<close>

lemma cache_ok_held:
  assumes "cache_ok p d H P s" and "b \<in> H"
  shows "holdingsleep (Buf_lock b) s = Ok (True, s)" "b < NBUF" "valid (bufs s b)" "dev (bufs s b) = d"
    "blk d s (blockno (bufs s b)) = bdata (bufs s b)"
proof -
  note C = cache_okD [OF assms(1)] and R = at_restD [OF cache_okD(1) [OF assms(1)]]
  show b: "b < NBUF" using C(3) assms(2) by auto
  have k: "buf_ok p d H P s b" by (rule C(5) [OF b])
  then show v: "valid (bufs s b)" "dev (bufs s b) = d" using assms(2) by (auto simp: buf_ok_def)
  show "holdingsleep (Buf_lock b) s = Ok (True, s)" using k assms(2) R by (simp add: holdingsleep_eq [where p = p] buf_ok_def)
  show "blk d s (blockno (bufs s b)) = bdata (bufs s b)" by (rule blk_cached [OF assms(1) b v(1)])
qed

text \<open>A change that leaves the names of the buffers alone keeps the invariant if it does so for the ring and each buffer.\<close>

lemma cache_ok_upd:
  assumes "cache_ok p d H P s" and "touches s t" and "H' \<subseteq> {..<NBUF}" and "P' \<subseteq> {..<NBUF}"
    and f: "\<And>c. dev (bufs t c) = dev (bufs s c)" "\<And>c. blockno (bufs t c) = blockno (bufs s c)"
    and r: "\<And>ls. ring_ok (bufs s) ls \<Longrightarrow> \<exists>ls. ring_ok (bufs t) ls"
    and "\<And>c. c < NBUF \<Longrightarrow> buf_ok p d H' P' t c"
  shows "cache_ok p d H' P' t"
proof -
  note C = cache_okD [OF assms(1)]
  have "\<exists>ls. ring_ok (bufs t) ls" using C(2) r by blast
  moreover have "at_rest p t" by (rule touches_at_rest [OF assms(2) C(1)])
  ultimately show ?thesis using assms C(6) by (auto simp: cache_ok_def f)
qed

lemma ring_ok_links:
  assumes "ring_ok B ls" and "\<And>c. nextb (B' c) = nextb (B c)" and "\<And>c. prev (B' c) = prev (B c)"
  shows "\<exists>ls. ring_ok B' ls"
  using assms by (auto simp: ring_ok_def)

text \<open>The view changes only where a buffer shows something else.\<close>

lemma blk_upd:
  assumes "cache_ok p d H P s" and "cache_ok p d H' P' t"
    and v: "\<And>c. valid (bufs t c) = valid (bufs s c)" and n: "\<And>c. blockno (bufs t c) = blockno (bufs s c)"
    and x: "\<And>c. c < NBUF \<Longrightarrow> valid (bufs s c) \<Longrightarrow> bdata (bufs t c) = g (blockno (bufs s c)) (bdata (bufs s c))"
    and u: "\<And>m. \<forall>c<NBUF. valid (bufs s c) \<longrightarrow> blockno (bufs s c) \<noteq> m \<Longrightarrow> disk t m = g m (disk s m)"
  shows "blk d t = (\<lambda>m. g m (blk d s m))"
proof
  fix m
  show "blk d t m = g m (blk d s m)"
  proof (cases "\<exists>c<NBUF. valid (bufs s c) \<and> blockno (bufs s c) = m")
    case True
    then obtain c where c: "c < NBUF" "valid (bufs s c)" "blockno (bufs s c) = m" by blast
    have "blk d t m = bdata (bufs t c)" using blk_cached [OF assms(2) c(1)] c(2,3) v n by simp
    moreover have "blk d s m = bdata (bufs s c)" using blk_cached [OF assms(1) c(1,2)] c(3) by simp
    ultimately show ?thesis using x [OF c(1,2)] c(3) by simp
  next
    case False
    have "blk d t m = disk t m" using False v n by (intro blk_uncached) auto
    moreover have "blk d s m = disk s m" using False by (intro blk_uncached) auto
    ultimately show ?thesis using u [of m] False by simp
  qed
qed

lemma same_buf:
  assumes "cache_ok p d H P s" and "b \<in> H" and "c < NBUF" and "valid (bufs s c)" and "blockno (bufs s c) = blockno (bufs s b)"
  shows "c = b"
proof -
  have "dev (bufs s c) = d" using cache_okD(5) [OF assms(1,3)] assms(4) by (simp add: buf_ok_def)
  then show ?thesis using cache_okD(6) [OF assms(1,3)] cache_ok_held(2,4) [OF assms(1,2)] assms(5) by metis
qed

lemma bset_data_spec:
  fixes x :: block
  assumes "cache_ok p d H P s" and "b \<in> H"
  defines "t \<equiv> s\<lparr>bufs := (bufs s)(b := (bufs s b)\<lparr>bdata := x\<rparr>)\<rparr>"
  shows "cache_ok p d H P t" "blk d t = (blk d s)(blockno (bufs s b) := x)" "touches s t" "disk t = disk s"
    "disk_writes t = disk_writes s" "blockno (bufs t c) = blockno (bufs s c)"
proof -
  note C = cache_okD [OF assms(1)] and K = cache_ok_held [OF assms(1,2)]
  show w: "touches s t" unfolding t_def by (rule touchesI) simp_all
  have "buf_ok p d H P t c" if "c < NBUF" for c
    using C(5) [OF that] assms(2) by (cases "c = b") (auto simp: buf_ok_def t_def)
  then show T: "cache_ok p d H P t"
    by (intro cache_ok_upd [OF assms(1) w]) (use C in \<open>auto simp: t_def intro: ring_ok_links\<close>)
  show "disk t = disk s" "disk_writes t = disk_writes s" "blockno (bufs t c) = blockno (bufs s c)"
    by (simp_all add: t_def)
  let ?g = "\<lambda>m y. if m = blockno (bufs s b) then x else y"
  have "bdata (bufs t c) = ?g (blockno (bufs s c)) (bdata (bufs s c))" if "c < NBUF" "valid (bufs s c)" for c
    using same_buf [OF assms(1,2) that] by (auto simp: t_def)
  then have "blk d t = (\<lambda>m. ?g m (blk d s m))"
    using K(2,3) by (intro blk_upd [OF assms(1) T]) (auto simp: t_def)
  then show "blk d t = (blk d s)(blockno (bufs s b) := x)" by (simp add: fun_upd_def)
qed

lemma bwrite_spec:
  assumes "cache_ok p d H P s" and "b \<in> H"
  defines "n \<equiv> blockno (bufs s b)"
  obtains t where "bwrite b s = Ok ((), t)" "cache_ok p d H P t" "touches s t" "blk d t = blk d s"
    "disk t = (disk s)(n := blk d s n)" "disk_writes t = disk_writes s @ [(n, blk d s n)]" "bufs t = bufs s"
proof -
  note C = cache_okD [OF assms(1)] and K = cache_ok_held [OF assms(1,2)]
  let ?x = "bdata (bufs s b)"
  let ?t = "s\<lparr>disk := (disk s)(n := ?x), disk_writes := disk_writes s @ [(n, ?x)]\<rparr>"
  have w: "bwrite b s = Ok ((), ?t)" using K(1) by (simp add: bwrite_def disk_rw_def n_def kbind_True)
  have w1: "touches s ?t" by (rule touchesI) simp_all
  have "buf_ok p d H P ?t c" if "c < NBUF" for c
    using C(5) [OF that] same_buf [OF assms(1,2) that] assms(2) by (auto simp: buf_ok_def n_def)
  then have T: "cache_ok p d H P ?t"
    by (intro cache_ok_upd [OF assms(1) w1]) (use C in auto)
  have "blk d ?t = (\<lambda>m. blk d s m)"
    using K(2,3) by (intro blk_upd [OF assms(1) T]) (auto simp: n_def)
  then show ?thesis using that [OF w T w1] K(5) by (simp add: n_def)
qed

text \<open>The state that \<open>brelse\<close> leaves: the lock free and its waiters woken, the count down, an unused buffer in front.\<close>

definition let_go :: "nat \<Rightarrow> 'z kbio_scheme \<Rightarrow> 'z kbio_scheme" where
  "let_go b s = (let B = (bufs s)(b := (bufs s b)\<lparr>refcnt := refcnt (bufs s b) - 1\<rparr>) in
     s\<lparr>procs := woken (Some (Chan_sleeplock (Buf_lock b))) (cur s) {..<NPROC} (procs s),
       slocks := (slocks s)(Buf_lock b := \<lparr>slocked = False, spid = 0\<rparr>),
       bufs := if refcnt (B b) = 0 then linked_front b (unlinked b B) else B\<rparr>)"

lemma brelse_let_go:
  assumes "cache_ok p d H P s" and "b \<in> H"
  shows "brelse b s = Ok ((), let_go b s)"
proof -
  note R = at_restD [OF cache_okD(1) [OF assms(1)]]
  show ?thesis using R cache_ok_held(1) [OF assms]
    by (simp add: brelse_def kbind_True releasesleep_eq acquire_calm release_with_lock unlink_apply link_front_apply let_go_def Let_def)
qed

lemma let_go_fields:
  "valid (bufs (let_go b s) c) = valid (bufs s c)" "dev (bufs (let_go b s) c) = dev (bufs s c)"
  "blockno (bufs (let_go b s) c) = blockno (bufs s c)" "bdata (bufs (let_go b s) c) = bdata (bufs s c)"
  "refcnt (bufs (let_go b s) c) = refcnt (bufs s c) - of_bool (c = b)" "disk (let_go b s) = disk s"
  "disk_writes (let_go b s) = disk_writes s" "pid (procs (let_go b s) q) = pid (procs s q)"
  "slocks (let_go b s) = (slocks s)(Buf_lock b := \<lparr>slocked = False, spid = 0\<rparr>)"
  by (simp_all add: let_go_def Let_def woken_def)

lemma let_go_ring:
  assumes "ring_ok (bufs s) ls" and "b < NBUF"
  shows "ring_ok (bufs (let_go b s)) (if refcnt (bufs s b) = 1 then b # remove1 b ls else ls)"
proof -
  let ?B = "(bufs s)(b := (bufs s b)\<lparr>refcnt := refcnt (bufs s b) - 1\<rparr>)"
  have r: "ring_ok ?B ls" using assms(1) by (simp add: ring_ok_upd)
  have "b \<in> set ls" using r assms(2) by (simp add: ring_ok_def)
  then obtain xs ys where ls: "ls = xs @ b # ys" "b \<notin> set xs" by (metis split_list_first)
  then have "ring_ok (linked_front b (unlinked b ?B)) (b # xs @ ys)" using r ring_move by simp
  moreover have "remove1 b ls = xs @ ys" using ls by (simp add: remove1_append)
  ultimately show ?thesis using r by (cases "refcnt (bufs s b) = 1") (auto simp: let_go_def Let_def)
qed

lemma brelse_spec:
  assumes "cache_ok p d H P s" and "b \<in> H" and "b \<in> P \<or> bdata (bufs s b) = disk s (blockno (bufs s b))"
  obtains t where "brelse b s = Ok ((), t)" "cache_ok p d (H - {b}) P t" "touches s t" "blk d t = blk d s"
    "disk t = disk s" "disk_writes t = disk_writes s" "\<forall>c. blockno (bufs t c) = blockno (bufs s c)" "t = let_go b s"
proof -
  let ?t = "let_go b s"
  note C = cache_okD [OF assms(1)] and F = let_go_fields
  have w: "touches s ?t" by (rule touchesI) (simp_all add: let_go_def Let_def woken_def)
  have "buf_ok p d (H - {b}) P ?t c" if "c < NBUF" for c
    using C(5) [OF that] assms(2,3) by (cases "c = b") (auto simp: buf_ok_def F)
  moreover have "\<exists>ls. ring_ok (bufs ?t) ls" if "ring_ok (bufs s) ls" for ls
    using let_go_ring [OF that cache_ok_held(2) [OF assms(1,2)]] by blast
  ultimately have T: "cache_ok p d (H - {b}) P ?t"
    using C(3,4) by (intro cache_ok_upd [OF assms(1) w]) (auto simp: F)
  have "blk d ?t = (\<lambda>m. blk d s m)" by (intro blk_upd [OF assms(1) T]) (simp_all add: F)
  then show ?thesis using that [OF brelse_let_go [OF assms(1,2)] T w] by (simp add: F)
qed

lemma bpin_apply:
  assumes "at_rest p s"
  shows "bpin b s = Ok ((), s\<lparr>bufs := (bufs s)(b := (bufs s b)\<lparr>refcnt := refcnt (bufs s b) + 1\<rparr>)\<rparr>)"
    "bunpin b s = Ok ((), s\<lparr>bufs := (bufs s)(b := (bufs s b)\<lparr>refcnt := refcnt (bufs s b) - 1\<rparr>)\<rparr>)"
  using at_restD [OF assms] by (simp_all add: bpin_def bunpin_def acquire_calm release_with_lock)

lemma pin_spec:
  assumes "cache_ok p d H P s" and "b \<in> H" and "P' = (if up then insert b P else P - {b})" and "b \<in> P \<longleftrightarrow> \<not> up"
  obtains t where "(if up then bpin b else bunpin b) s = Ok ((), t)" "cache_ok p d H P' t" "touches s t" "blk d t = blk d s"
    "disk t = disk s" "disk_writes t = disk_writes s" "\<forall>c. blockno (bufs t c) = blockno (bufs s c)"
proof -
  let ?r = "refcnt (bufs s b)"
  let ?t = "s\<lparr>bufs := (bufs s)(b := (bufs s b)\<lparr>refcnt := if up then ?r + 1 else ?r - 1\<rparr>)\<rparr>"
  note C = cache_okD [OF assms(1)] and K = cache_ok_held [OF assms(1,2)]
  have w: "touches s ?t" by (rule touchesI) simp_all
  have "buf_ok p d H P' ?t c" if "c < NBUF" for c
    using C(5) [OF that] assms(2-4) by (cases "c = b"; cases up) (auto simp: buf_ok_def)
  then have T: "cache_ok p d H P' ?t"
    using C K(2) assms(3) by (intro cache_ok_upd [OF assms(1) w]) (auto intro: ring_ok_links)
  have "blk d ?t = (\<lambda>m. blk d s m)" by (intro blk_upd [OF assms(1) T]) simp_all
  then show ?thesis using that [OF _ T w] bpin_apply [OF C(1), of b] by (cases up) simp_all
qed

lemma blk_clean:
  assumes "cache_ok p d H P s" and "\<And>c. c \<in> H \<union> P \<Longrightarrow> blockno (bufs s c) \<noteq> n"
  shows "blk d s n = disk s n"
proof (cases "\<exists>c<NBUF. valid (bufs s c) \<and> blockno (bufs s c) = n")
  case True
  then obtain c where c: "c < NBUF" "valid (bufs s c)" "blockno (bufs s c) = n" by blast
  then have "c \<notin> H" "c \<notin> P" using assms(2) by blast+
  then have "bdata (bufs s c) = disk s n" using cache_okD(5) [OF assms(1) c(1)] c by (simp add: buf_ok_def)
  then show ?thesis using blk_cached [OF assms(1) c(1,2)] c(3) by simp
next
  case False
  then show ?thesis by (intro blk_uncached) auto
qed

section \<open>The cache is correct\<close>

text \<open>
  C6: the buffer cache is a cache in order of use. From any state between two operations, with buffers held and
  pinned, reading a block that is not held returns a buffer not held before whose contents are the block, taken
  from the disk or as last modified through the cache; a block that was not cached takes the least recently
  used buffer without a user. Releasing the buffer again restores the invariant, with no block changed in the
  view through the cache or on the disk, and makes the buffer the most recently used one unless it is pinned.
\<close>

theorem buffer_cache_correct:
  assumes "cache_ok p d H P s" and "ring_ok (bufs s) ls" and "\<forall>b\<in>H. blockno (bufs s b) \<noteq> n" and "\<exists>b<NBUF. b \<notin> H \<union> P"
  shows "\<exists>b t u. bread d n s = Ok (b, t) \<and> b \<notin> H \<and> blockno (bufs t b) = n \<and> bdata (bufs t b) = blk d s n
    \<and> cache_ok p d (insert b H) P t \<and> brelse b t = Ok ((), u) \<and> cache_ok p d H P u
    \<and> blk d u = blk d s \<and> disk u = disk s \<and> disk_writes u = disk_writes s
    \<and> ring_ok (bufs u) (if b \<in> P then ls else b # remove1 b ls)
    \<and> ((\<exists>c<NBUF. dev (bufs s c) = d \<and> blockno (bufs s c) = n) \<or> find (\<lambda>b. refcnt (bufs s b) = 0) (rev ls) = Some b)"
proof -
  have nh: "blockno (bufs s b) \<noteq> n" if "b \<in> H" for b using that assms(3) by blast
  obtain b t where r: "bread d n s = Ok (b, t)" "b < NBUF" "b \<notin> H" "touches s t" "cache_ok p d (insert b H) P t"
    "blockno (bufs t b) = n" "disk t = disk s" "disk_writes t = disk_writes s" "blk d t = blk d s"
    "\<forall>c\<in>H \<union> P. blockno (bufs t c) = blockno (bufs s c)" and bP: "b \<in> P \<longleftrightarrow> (\<exists>c\<in>P. blockno (bufs s c) = n)" and g: "t = grab p d n b s"
    and lru: "\<forall>ls. ring_ok (bufs s) ls \<and> \<not> (\<exists>c<NBUF. dev (bufs s c) = d \<and> blockno (bufs s c) = n) \<longrightarrow>
       find (\<lambda>b. refcnt (bufs s b) = 0) (rev ls) = Some b"
    by (rule bread_spec [OF assms(1) nh disjI1 [OF assms(4)]])
  have x: "bdata (bufs t b) = blk d s n" by (simp add: g)
  have "b \<in> P \<or> bdata (bufs t b) = disk t (blockno (bufs t b))"
    using x r(6,7) bP blk_clean [OF assms(1), of n] assms(3) by auto
  then obtain u where u: "brelse b t = Ok ((), u)" "cache_ok p d (insert b H - {b}) P u" "blk d u = blk d t"
    "disk u = disk t" "disk_writes u = disk_writes t" "u = let_go b t"
    using brelse_spec [OF r(5), of b] by blast
  have "ring_ok (bufs t) ls" using assms(2) by (simp add: g grab_def ring_ok_upd)
  moreover have "refcnt (bufs t b) = 1 \<longleftrightarrow> b \<notin> P" using cache_okD(5) [OF r(5,2)] by (simp add: buf_ok_def)
  ultimately have "ring_ok (bufs u) (if b \<in> P then ls else b # remove1 b ls)" using let_go_ring [of t ls b] r(2) u(6) by (cases "b \<in> P") simp_all
  then show ?thesis using r u x lru assms(2) by (intro exI [of _ b] exI [of _ t] exI [of _ u]) (auto simp: insert_Diff_if)
qed

text \<open>The state that \<open>binit\<close> leaves: all buffers empty, the last one in front.\<close>

definition fresh_bufs :: "nat \<Rightarrow> buf" where
  "fresh_bufs b = \<lparr>valid = False, bdisk = 0, dev = 0, blockno = 0, refcnt = 0,
     prev = (if b = 29 then 30 else if b = 30 then 0 else b + 1),
     nextb = (if b = 30 then 29 else if b = 0 then 30 else b - 1), bdata = (\<lambda>_. 0)\<rparr>"

definition fresh_cache :: "(uint \<Rightarrow> block) \<Rightarrow> kbio" where
  "fresh_cache D = kcons.extend quiet_console \<lparr>bufs = fresh_bufs, disk = D, disk_writes = []\<rparr>"

lemma chain_down: "(\<And>i. i < n \<Longrightarrow> f (Suc i) = i) \<Longrightarrow> f 0 = c \<Longrightarrow> chain f n (rev [0..<n]) c"
  by (induction n) auto

lemma chain_up: "(\<And>i. m \<le> i \<Longrightarrow> i < n \<Longrightarrow> f i = Suc i) \<Longrightarrow> m \<le> n \<Longrightarrow> f n = c \<Longrightarrow> chain f m [Suc m..<Suc n] c"
proof (induction "n - m" arbitrary: m)
  case (Suc k)
  then have "chain f (Suc m) [Suc (Suc m)..<Suc n] c" by auto
  moreover have "[Suc m..<Suc n] = Suc m # [Suc (Suc m)..<Suc n]" using Suc.hyps(2) by (intro upt_conv_Cons) auto
  moreover have "f m = Suc m" using Suc.hyps(2) Suc.prems by auto
  ultimately show ?case by (simp del: upt_Suc)
qed auto

lemma fresh_ring: "ring_ok fresh_bufs (rev [0..<30])"
proof -
  have "chain (\<lambda>b. nextb (fresh_bufs b)) 29 (rev [0..<29]) 30" by (intro chain_down) (auto simp: fresh_bufs_def)
  moreover have "rev [0..<30] = 29 # rev [0..<29]" by (simp add: upt_rec)
  ultimately have "chain (\<lambda>b. nextb (fresh_bufs b)) 30 (rev [0..<30]) 30" by (simp add: fresh_bufs_def)
  moreover have "chain (\<lambda>b. prev (fresh_bufs b)) 0 [Suc 0..<Suc 29] 30" by (intro chain_up) (auto simp: fresh_bufs_def)
  then have "chain (\<lambda>b. prev (fresh_bufs b)) 30 (rev (rev [0..<30])) 30"
    using upt_conv_Cons [of 0 30] by (simp add: fresh_bufs_def)
  ultimately show ?thesis by (auto simp: ring_ok_def)
qed

lemma fresh_cache_ok: "cache_ok 0 1 {} {} (fresh_cache D)"
proof -
  have "at_rest 0 (fresh_cache D) \<longleftrightarrow> at_rest 0 quiet_port"
    by (simp add: fresh_cache_def quiet_console_def kcons.extend_def kuart.extend_def at_rest_def calm_def avail_def cur_def)
  moreover have "bufs (fresh_cache D) = fresh_bufs" by (simp add: fresh_cache_def kcons.extend_def)
  moreover have "\<not> slocked (slocks (fresh_cache D) l)" for l
    by (simp add: fresh_cache_def quiet_console_def quiet_port_def one_pipe_def no_shm_def empty_mboxes_def no_sleeplocks_def
      kcons.extend_def kuart.extend_def kpipes.extend_def kshm.extend_def kmbox.extend_def ksleep.extend_def kprocs.extend_def)
  ultimately show ?thesis using fresh_ring by (auto simp: cache_ok_def buf_ok_def fresh_bufs_def)
qed

theorem buffer_cache_correct_witness:
  "\<exists>t. bread 1 7 (fresh_cache (\<lambda>n i. ucast n)) = Ok (0, t) \<and> bdata (bufs t 0) = (\<lambda>i. 7)"
proof -
  let ?s = "fresh_cache (\<lambda>n i. ucast n)"
  have b: "bufs ?s = fresh_bufs" "disk ?s = (\<lambda>n i. ucast n)" by (simp_all add: fresh_cache_def kcons.extend_def)
  have "blk 1 ?s 7 = (\<lambda>i. 7)" using blk_uncached [of ?s 1 7] by (simp add: b fresh_bufs_def)
  moreover have "find (\<lambda>b. refcnt (bufs ?s b) = 0) (rev (rev [0..<30])) = Some 0" by (simp add: b fresh_bufs_def upt_conv_Cons)
  moreover have "\<exists>b<NBUF. b \<notin> {} \<union> ({} :: nat set)" by (intro exI [of _ 0]) simp
  ultimately show ?thesis
    using buffer_cache_correct [OF fresh_cache_ok [of "\<lambda>n i. ucast n"], of "rev [0..<30]" 7] fresh_ring
    by (auto simp: b fresh_bufs_def)
qed

end
