(* ===== verification/Log_Facts.thy ===== *)
theory Log_Facts
  imports Log Bio_Facts
begin

text \<open>
  The log on top of the buffer cache: what each step of a commit and of recovery writes to the disk, in which
  order. A sequence of writes is a list of block numbers and contents; \<open>wrote_blocks\<close> says that an operation
  made exactly these writes, that the cache agrees with them, and what is pinned afterwards.
\<close>

unbundle bit_operations_syntax

lemma kfor_append: "kfor f (xs @ ys) = kbind (kfor f xs) (\<lambda>_. kfor f ys)"
  by (induction xs) (simp_all add: kbind_def fun_eq_iff split: outcome.splits)

section \<open>Integers in blocks\<close>

lemma load32_store32_same [simp]: "load32 (store32 x i v) i = v"
proof (rule bit_word_eqI)
  fix n
  assume "n < LENGTH(32)"
  then have n: "n < 32" by simp
  consider "n < 8" | "8 \<le> n" "n < 16" | "16 \<le> n" "n < 24" | "24 \<le> n" "n < 32" using n by linarith
  then show "bit (load32 (store32 x i v) i) n = bit v n"
    by cases (use n in \<open>auto simp: load32_def store32_def bit_simps\<close>)
qed

lemma load32_store32_other [simp]: "i + 4 \<le> j \<or> j + 4 \<le> i \<Longrightarrow> load32 (store32 x j v) i = load32 x i"
  by (auto simp: load32_def store32_def)

text \<open>The header block with count \<open>n\<close> and block numbers \<open>f\<close>, written over block \<open>x\<close>.\<close>

definition head_block :: "nat \<Rightarrow> (nat \<Rightarrow> uint) \<Rightarrow> block \<Rightarrow> block" where
  "head_block n f x = fold (\<lambda>i y. store32 y (4 + 4 * i) (f i)) [0..<n] (store32 x 0 (of_nat n))"

lemma head_block_0: "head_block 0 f x = store32 x 0 0"
  by (simp add: head_block_def)

lemma fold_store32_load:
  "load32 (fold (\<lambda>i y. store32 y (4 + 4 * i) (f i)) [0..<n] x) 0 = load32 x 0"
  "i < n \<Longrightarrow> load32 (fold (\<lambda>i y. store32 y (4 + 4 * i) (f i)) [0..<n] x) (4 + 4 * i) = f i"
  by (induction n) (auto simp: less_Suc_eq)

lemma head_block_load:
  "load32 (head_block n f x) 0 = of_nat n" "i < n \<Longrightarrow> load32 (head_block n f x) (4 + 4 * i) = f i"
  by (simp_all add: head_block_def fold_store32_load)

section \<open>Messages\<close>

text \<open>A format whose conversions are \<open>%d\<close>, with the integers they need.\<close>

fun ints_fmt :: "byte list \<Rightarrow> vararg list \<Rightarrow> bool" where
  "ints_fmt [] ap = True"
| "ints_fmt [c] ap = (c \<noteq> 0 \<and> c \<noteq> 37)"
| "ints_fmt (c # x # cs) ap = (if c = 37 then x = 100 \<and> (case ap of Va_int v # ap' \<Rightarrow> ints_fmt cs ap' | _ \<Rightarrow> False)
     else c \<noteq> 0 \<and> ints_fmt (x # cs) ap)"

lemma prints_conv_d: "prints (printf_conv 100 c1 c2 (Va_int v # ap)) (1, ap)"
  by (simp add: printf_conv_def va_int_def)
    (rule prints_bind [OF prints_ret], simp, rule prints_bind [OF prints_printint prints_ret])

lemma ints_fmt_step:
  assumes "ints_fmt (c # cs) ap"
  obtains "c \<noteq> 0" "c \<noteq> 37" "ints_fmt cs ap" | cs' v ap' where "c = 37" "cs = 100 # cs'" "ap = Va_int v # ap'" "ints_fmt cs' ap'"
  using assms by (cases cs) (auto split: if_splits list.splits vararg.splits)

lemma prints_ints: "ints_fmt (drop i fmt) ap \<Longrightarrow> prints (printf_loop fmt i ap :: ('z kuart_scheme, unit) kmon) ()"
proof (induction "length fmt - i" arbitrary: i ap rule: less_induct)
  case less
  show ?case
  proof (cases "i < length fmt")
    case False
    then show ?thesis by (subst printf_loop.simps) (simp add: fmt_at_def prints_ret)
  next
    case True
    then have d: "drop i fmt = fmt ! i # drop (Suc i) fmt" by (simp add: Cons_nth_drop_Suc)
    from less.prems [unfolded d] show ?thesis
    proof (cases rule: ints_fmt_step)
      case 1
      then have "prints (printf_loop fmt (i + 1) ap :: ('z kuart_scheme, unit) kmon) ()" using less.hyps [of "i + 1" ap] True by simp
      then show ?thesis using 1(1,2) True
        by (subst printf_loop.simps) (simp add: fmt_at_def, rule prints_bind [OF prints_consputc])
    next
      case (2 cs' v ap')
      have l: "Suc i < length fmt" "fmt ! Suc i = 100" "drop (i + 2) fmt = cs'"
      proof -
        show l: "Suc i < length fmt" using 2(2) by (rule_tac ccontr) simp
        then have "drop (Suc i) fmt = fmt ! Suc i # drop (Suc (Suc i)) fmt" by (simp add: Cons_nth_drop_Suc)
        then show "fmt ! Suc i = 100" "drop (i + 2) fmt = cs'" using 2(2) by simp_all
      qed
      then have "prints (printf_loop fmt (i + 2) ap' :: ('z kuart_scheme, unit) kmon) ()" using less.hyps [of "i + 2" ap'] 2(4) True by simp
      then have "prints (kbind (printf_conv 100 c1 c2 ap) (\<lambda>(n, y). printf_loop fmt (i + 1 + n) y)
         :: ('z kuart_scheme, unit) kmon) ()" for c1 c2
        unfolding 2(3) by (intro prints_bind [OF prints_conv_d]) simp
      then show ?thesis using 2(1) True l(1,2) by (subst printf_loop.simps) (simp add: fmt_at_def Let_def)
    qed
  qed
qed

lemma printf_ints:
  assumes "ints_fmt fmt ap" and "port_ready s" and "avail Pr_lock s"
  obtains cs where "printf fmt ap s = Ok (0, s\<lparr>uart_sent := uart_sent s @ cs\<rparr>)"
  using prints_printf [OF prints_ints assms(2,3)] assms(1) by auto

section \<open>Sequences of writes\<close>

definition apply_writes :: "(uint \<times> block) list \<Rightarrow> (uint \<Rightarrow> block) \<Rightarrow> uint \<Rightarrow> block" where
  "apply_writes ws D = fold (\<lambda>(n, x) D. D(n := x)) ws D"

lemma apply_writes_simps [simp]:
  "apply_writes [] D = D" "apply_writes (w # ws) D = apply_writes ws (D(fst w := snd w))"
  "apply_writes (vs @ ws) D = apply_writes ws (apply_writes vs D)"
  by (simp_all add: apply_writes_def split: prod.split)

lemma apply_writes_other: "n \<notin> fst ` set ws \<Longrightarrow> apply_writes ws D n = D n"
  by (induction ws arbitrary: D) auto

lemma apply_writes_in:
  "(n, x) \<in> set ws \<Longrightarrow> distinct (map fst ws) \<Longrightarrow> apply_writes ws D n = x"
proof (induction ws arbitrary: D)
  case (Cons w ws)
  show ?case
  proof (cases "w = (n, x)")
    case True
    then show ?thesis using Cons.prems(2) by (simp add: apply_writes_other)
  next
    case False
    then show ?thesis using Cons by simp
  qed
qed simp

definition wrote_blocks :: "nat \<Rightarrow> uint \<Rightarrow> 'z kbio_scheme \<Rightarrow> (uint \<times> block) list \<Rightarrow> nat set \<Rightarrow> 'z kbio_scheme \<Rightarrow> bool" where
  "wrote_blocks p d s ws P t \<longleftrightarrow> cache_ok p d {} P t \<and> touches s t \<and> blk d t = apply_writes ws (blk d s)
     \<and> disk t = apply_writes ws (disk s) \<and> disk_writes t = disk_writes s @ ws \<and> (\<forall>c\<in>P. blockno (bufs t c) = blockno (bufs s c))"

lemma wrote_blocks_trans:
  "wrote_blocks p d s vs P t \<Longrightarrow> wrote_blocks p d t ws P' u \<Longrightarrow> P' \<subseteq> P \<Longrightarrow> wrote_blocks p d s (vs @ ws) P' u"
  unfolding wrote_blocks_def by (auto intro: touches_trans)

lemma touches_log:
  fixes s :: "'z klog_scheme"
  shows "touches s t \<Longrightarrow> log_dev t = log_dev s \<and> log_start t = log_start s \<and> lh_n t = lh_n s \<and> lh_block t = lh_block s
    \<and> log_outstanding t = log_outstanding s \<and> log_committing t = log_committing s"
  by (auto simp: touches_def)


section \<open>One write\<close>

text \<open>Filling a held buffer and writing it.\<close>

lemma fill_write_spec:
  fixes x :: block
  assumes "cache_ok p d H P s" and "b \<in> H"
  defines "u \<equiv> s\<lparr>bufs := (bufs s)(b := (bufs s b)\<lparr>bdata := x\<rparr>)\<rparr>" and "n \<equiv> blockno (bufs s b)"
  obtains t where "bwrite b u = Ok ((), t)" "cache_ok p d H P t" "touches s t" "blk d t = (blk d s)(n := x)"
    "disk t = (disk s)(n := x)" "disk_writes t = disk_writes s @ [(n, x)]" "bufs t = bufs u"
proof -
  note U = bset_data_spec [OF assms(1,2), of x, folded u_def]
  obtain t where t: "bwrite b u = Ok ((), t)" "cache_ok p d H P t" "touches u t" "blk d t = blk d u"
    "disk t = (disk u)(blockno (bufs u b) := blk d u (blockno (bufs u b)))"
    "disk_writes t = disk_writes u @ [(blockno (bufs u b), blk d u (blockno (bufs u b)))]" "bufs t = bufs u"
    by (rule bwrite_spec [OF U(1) assms(2)])
  show ?thesis
    using that [OF t(1,2) touches_trans [OF U(3) t(3)]] t(4-7) U(2,4-6) by (simp add: n_def)
qed

lemma write_log_block_spec:
  fixes s :: "'z klog_scheme"
  assumes "cache_ok p d {} P s" and "log_dev s = d" and "i < LOGBLOCKS"
    and "\<And>c. c \<in> P \<Longrightarrow> blockno (bufs s c) \<noteq> log_start s + of_nat i + 1"
    and "\<exists>c\<in>P. blockno (bufs s c) = lh_block s i" and "\<exists>b<NBUF. b \<notin> P"
  obtains t where "write_log_block i s = Ok ((), t)"
    "wrote_blocks p d s [(log_start s + of_nat i + 1, blk d s (lh_block s i))] P t"
proof -
  let ?n = "log_start s + of_nat i + 1" and ?m = "lh_block s i"
  let ?x = "blk d s ?m"
  obtain a s1 where 1: "bread d ?n s = Ok (a, s1)" "touches s s1" "cache_ok p d {a} P s1"
    "blockno (bufs s1 a) = ?n" "disk s1 = disk s" "disk_writes s1 = disk_writes s" "blk d s1 = blk d s"
    "\<forall>c\<in>P. blockno (bufs s1 c) = blockno (bufs s c)" "a \<notin> P"
    by (rule bread_spec [OF assms(1), of ?n]) (use assms(4,6) in auto)
  have m: "\<exists>c\<in>P. blockno (bufs s1 c) = ?m" "?m \<noteq> ?n" using assms(4,5) 1(8) by auto
  obtain b s2 where 2: "bread d ?m s1 = Ok (b, s2)" "b \<noteq> a" "touches s1 s2" "cache_ok p d {a, b} P s2"
    "blockno (bufs s2 b) = ?m" "disk s2 = disk s1" "disk_writes s2 = disk_writes s1" "blk d s2 = blk d s1"
    "\<forall>c\<in>insert a P. blockno (bufs s2 c) = blockno (bufs s1 c)" "b \<in> P"
    by (rule bread_spec [OF 1(3), of ?m]) (use m 1(4) in \<open>auto simp: insert_commute\<close>)
  have x: "bdata (bufs s2 b) = ?x" using cache_ok_held(5) [OF 2(4), of b] 2(5,8) 1(7) by simp
  let ?u = "s2\<lparr>bufs := (bufs s2)(a := (bufs s2 a)\<lparr>bdata := ?x\<rparr>)\<rparr>"
  obtain s3 where 3: "bwrite a ?u = Ok ((), s3)" "cache_ok p d {a, b} P s3" "touches s2 s3"
    "blk d s3 = (blk d s2)(blockno (bufs s2 a) := ?x)" "disk s3 = (disk s2)(blockno (bufs s2 a) := ?x)"
    "disk_writes s3 = disk_writes s2 @ [(blockno (bufs s2 a), ?x)]" "bufs s3 = bufs ?u"
    by (rule fill_write_spec [OF 2(4)]) (use that in auto)
  obtain s4 where 4: "brelse b s3 = Ok ((), s4)" "cache_ok p d ({a, b} - {b}) P s4" "touches s3 s4" "blk d s4 = blk d s3"
    "disk s4 = disk s3" "disk_writes s4 = disk_writes s3" "\<forall>c. blockno (bufs s4 c) = blockno (bufs s3 c)"
    by (rule brelse_spec [OF 3(2), of b]) (use 2(10) in auto)
  have A4: "cache_ok p d {a} P s4" using 4(2) 2(2) by (simp add: insert_Diff_if)
  have n: "blockno (bufs s2 a) = ?n" using 2(9) 1(4) by simp
  have c: "bdata (bufs s4 a) = disk s4 (blockno (bufs s4 a))"
    using cache_ok_held(5) [OF A4, of a] 4(4,5,7) 3(4,5,7) n by simp
  obtain s5 where 5: "brelse a s4 = Ok ((), s5)" "cache_ok p d ({a} - {a}) P s5" "touches s4 s5" "blk d s5 = blk d s4"
    "disk s5 = disk s4" "disk_writes s5 = disk_writes s4" "\<forall>c. blockno (bufs s5 c) = blockno (bufs s4 c)"
    by (rule brelse_spec [OF A4, of a]) (use c in auto)
  have r: "write_log_block i s = Ok ((), s5)"
    using assms(2,3) 1(1) 2(1) 3(1) 4(1) 5(1)
    by (simp add: write_log_block_def bget_field_apply bset_apply x)
  have "wrote_blocks p d s [(?n, ?x)] P s5"
    unfolding wrote_blocks_def
    using 5(2-7) 4(4-7) 3(4-7) 2(6-9) 1(5-8) n touches_trans [OF touches_trans [OF 1(2) 2(3)] touches_trans [OF 3(3) touches_trans [OF 4(3) 5(3)]]]
    by simp
  then show ?thesis using that r by blast
qed


lemma write_head_fill:
  "kfor (\<lambda>i. if LOGBLOCKS \<le> i then kub ''log.lh.block'' else
      kbind (kgets (\<lambda>s. lh_block s i)) (\<lambda>v. bset b (\<lambda>x. x\<lparr>bdata := store32 (bdata x) (4 + 4 * i) v\<rparr>))) [0..<k] s
   = Ok ((), s\<lparr>bufs := (bufs s)(b := (bufs s b)\<lparr>bdata := fold (\<lambda>i y. store32 y (4 + 4 * i) (lh_block s i)) [0..<k] (bdata (bufs s b))\<rparr>)\<rparr>)"
  if "k \<le> LOGBLOCKS" for s :: "'z klog_scheme"
  using that by (induction k) (simp_all add: kfor_append bset_apply)


text \<open>A buffer read, filled with a new content, written and released: the header block and the recovered blocks.\<close>

lemma write_head_spec:
  fixes s :: "'z klog_scheme"
  assumes "cache_ok p d {} P s" and "log_dev s = d" and "lh_n s = int n" and "n \<le> LOGBLOCKS"
    and "\<And>c. c \<in> P \<Longrightarrow> blockno (bufs s c) \<noteq> log_start s" and "\<exists>b<NBUF. b \<notin> P"
  obtains t where "write_head s = Ok ((), t)"
    "wrote_blocks p d s [(log_start s, head_block n (lh_block s) (blk d s (log_start s)))] P t"
proof -
  let ?n = "log_start s"
  let ?x = "head_block n (lh_block s) (blk d s ?n)"
  obtain a s1 where 1: "bread d ?n s = Ok (a, s1)" "touches s s1" "cache_ok p d {a} P s1"
    "blockno (bufs s1 a) = ?n" "disk s1 = disk s" "disk_writes s1 = disk_writes s" "blk d s1 = blk d s"
    "\<forall>c\<in>P. blockno (bufs s1 c) = blockno (bufs s c)" "a \<notin> P"
    by (rule bread_spec [OF assms(1), of ?n]) (use assms(5,6) in auto)
  have x: "bdata (bufs s1 a) = blk d s ?n" using cache_ok_held(5) [OF 1(3), of a] 1(4,7) by simp
  note L = touches_log [OF 1(2)]
  let ?u = "s1\<lparr>bufs := (bufs s1)(a := (bufs s1 a)\<lparr>bdata := ?x\<rparr>)\<rparr>"
  obtain s3 where 3: "bwrite a ?u = Ok ((), s3)" "cache_ok p d {a} P s3" "touches s1 s3"
    "blk d s3 = (blk d s1)(blockno (bufs s1 a) := ?x)" "disk s3 = (disk s1)(blockno (bufs s1 a) := ?x)"
    "disk_writes s3 = disk_writes s1 @ [(blockno (bufs s1 a), ?x)]" "bufs s3 = bufs ?u"
    by (rule fill_write_spec [OF 1(3)]) (use that in auto)
  have c: "bdata (bufs s3 a) = disk s3 (blockno (bufs s3 a))"
    using cache_ok_held(5) [OF 3(2), of a] 3(4,5,7) by simp
  obtain s5 where 5: "brelse a s3 = Ok ((), s5)" "cache_ok p d ({a} - {a}) P s5" "touches s3 s5" "blk d s5 = blk d s3"
    "disk s5 = disk s3" "disk_writes s5 = disk_writes s3" "\<forall>c. blockno (bufs s5 c) = blockno (bufs s3 c)"
    by (rule brelse_spec [OF 3(2), of a]) (use c in auto)
  have "write_head s = Ok ((), s5)"
    using assms(2-4) 1(1) 3(1) 5(1) L
    by (simp add: write_head_def bset_apply write_head_fill x head_block_def)
  moreover have "wrote_blocks p d s [(?n, ?x)] P s5"
    unfolding wrote_blocks_def
    using 5(2-7) 3(4-7) 1(4-9) touches_trans [OF 1(2) touches_trans [OF 3(3) 5(3)]] by simp
  ultimately show ?thesis using that by blast
qed

text \<open>The preparation of \<open>install_block\<close>: the message, and both blocks read.\<close>

lemma touches_port: "touches s t \<Longrightarrow> port_ready s \<Longrightarrow> port_ready t"
  by (auto simp: touches_def port_ready_def calm_def)

lemma cache_ok_sent: "cache_ok p d H P s \<Longrightarrow> cache_ok p d H P (s\<lparr>uart_sent := u\<rparr>)"
  by (simp add: cache_ok_def buf_ok_def at_rest_def)

lemma blk_sent: "blk d (s\<lparr>uart_sent := u\<rparr>) = blk d s"
  by (rule ext) (simp add: blk_def split: option.splits)


lemma install_message:
  fixes s :: "'z klog_scheme"
  assumes "cache_ok p d H P s" and "r \<Longrightarrow> port_ready s"
  obtains t where "(if r then kbind (printf (map of_char ''recovering tail %d dst %d'' @ [10]) [Va_int i, Va_int n]) (\<lambda>_. kret ())
       else kret ()) s = Ok ((), t)" "touches s t" "cache_ok p d H P t" "blk d t = blk d s" "disk t = disk s"
    "disk_writes t = disk_writes s" "bufs t = bufs s"
proof (cases r)
  case True
  have "ints_fmt (map of_char ''recovering tail %d dst %d'' @ [10]) [Va_int i, Va_int n]" by code_simp
  then obtain cs where c: "printf (map of_char ''recovering tail %d dst %d'' @ [10]) [Va_int i, Va_int n] s
      = Ok (0, s\<lparr>uart_sent := uart_sent s @ cs\<rparr>)"
    by (rule printf_ints [where s = s]) (use assms True cache_okD(1) at_restD in blast)+
  have "touches s (s\<lparr>uart_sent := uart_sent s @ cs\<rparr>)" by (rule touchesI) simp_all
  then show ?thesis using that c True assms(1) by (simp add: cache_ok_sent blk_sent)
next
  case False
  then show ?thesis using that assms(1) by simp
qed


text \<open>Both blocks of \<open>install_block\<close> read: the copy in the log and the home block.\<close>

lemma install_reads:
  fixes s :: "'z klog_scheme"
  assumes "cache_ok p d {} P s" and "m \<noteq> n" and "\<And>c. c \<in> P \<Longrightarrow> blockno (bufs s c) \<noteq> n"
    and "P = {} \<or> (\<exists>b<NBUF. b \<notin> P) \<and> (\<exists>c\<in>P. blockno (bufs s c) = m)"
  obtains a b t u where "bread d n s = Ok (a, t)" "bread d m t = Ok (b, u)" "a \<noteq> b" "touches s u" "cache_ok p d {a, b} P u"
    "bdata (bufs u a) = blk d s n" "blockno (bufs u a) = n" "blockno (bufs u b) = m" "blk d u = blk d s" "disk u = disk s"
    "disk_writes u = disk_writes s" "\<forall>c\<in>P. blockno (bufs u c) = blockno (bufs s c)" "b \<in> P \<longleftrightarrow> P \<noteq> {}" "a \<notin> P"
proof -
  have free: "\<exists>b<NBUF. b \<notin> P" using assms(4) by (auto intro: exI [of _ 0])
  obtain a s1 where 1: "bread d n s = Ok (a, s1)" "touches s s1" "cache_ok p d {a} P s1"
    "blockno (bufs s1 a) = n" "disk s1 = disk s" "disk_writes s1 = disk_writes s" "blk d s1 = blk d s"
    "\<forall>c\<in>P. blockno (bufs s1 c) = blockno (bufs s c)" "a \<notin> P"
    by (rule bread_spec [OF assms(1), of n]) (use assms(3) free in auto)
  have m: "(\<exists>b<NBUF. b \<notin> {a} \<union> P) \<or> (\<exists>c\<in>P. blockno (bufs s1 c) = m)" if "P = {} \<or> (\<exists>c\<in>P. blockno (bufs s c) = m)"
    using that 1(8) by (cases "a = 0") (auto intro: exI [of _ 1] exI [of _ 0])
  obtain b s2 where 2: "bread d m s1 = Ok (b, s2)" "b \<noteq> a" "touches s1 s2" "cache_ok p d {a, b} P s2"
    "blockno (bufs s2 b) = m" "disk s2 = disk s1" "disk_writes s2 = disk_writes s1" "blk d s2 = blk d s1"
    "\<forall>c\<in>insert a P. blockno (bufs s2 c) = blockno (bufs s1 c)" "b \<in> P \<longleftrightarrow> P \<noteq> {}"
    by (rule bread_spec [OF 1(3), of m]) (use m 1(4,8) assms(2,4) in \<open>auto simp: insert_commute\<close>)
  show ?thesis
    using that [OF 1(1) 2(1)] 2(2-10) 1(2,4-9) touches_trans [OF 1(2) 2(3)] cache_ok_held(5) [OF 2(4), of a] by simp
qed

text \<open>The end of \<open>install_block\<close>: the home block unpinned after a commit, both buffers released.\<close>

lemma install_finish:
  assumes "cache_ok p d {a, b} P s" and "a \<noteq> b" and "a \<notin> P" and "b \<in> P \<longleftrightarrow> \<not> r"
    and "\<And>c. c \<in> {a, b} \<Longrightarrow> blk d s (blockno (bufs s c)) = disk s (blockno (bufs s c))"
  obtains t u v where "(if \<not> r then bunpin b else kret ()) s = Ok ((), t)" "brelse a t = Ok ((), u)" "brelse b u = Ok ((), v)"
    "cache_ok p d {} (P - {b}) v" "touches s v" "blk d v = blk d s" "disk v = disk s" "disk_writes v = disk_writes s"
    "\<forall>c. blockno (bufs v c) = blockno (bufs s c)"
proof -
  obtain t where 1: "(if \<not> r then bunpin b else kret ()) s = Ok ((), t)" "cache_ok p d {a, b} (P - {b}) t" "touches s t" "blk d t = blk d s"
    "disk t = disk s" "disk_writes t = disk_writes s" "\<forall>c. blockno (bufs t c) = blockno (bufs s c)"
  proof (cases r)
    case True
    then have "P - {b} = P" using assms(4) by blast
    then show ?thesis using True that assms(1) touches_refl by simp
  next
    case False
    obtain t where "(if False then bpin b else bunpin b) s = Ok ((), t)" "cache_ok p d {a, b} (P - {b}) t" "touches s t" "blk d t = blk d s"
      "disk t = disk s" "disk_writes t = disk_writes s" "\<forall>c. blockno (bufs t c) = blockno (bufs s c)"
      by (rule pin_spec [OF assms(1), of b "P - {b}" False]) (use False assms(4) in simp_all)
    then show ?thesis using that False by simp
  qed
  have k: "bdata (bufs t c) = disk t (blockno (bufs t c))" if "c \<in> {a, b}" for c
    using cache_ok_held(5) [OF 1(2) that] assms(5) [OF that] 1(4,5,7) by simp
  obtain u where 2: "brelse a t = Ok ((), u)" "cache_ok p d ({a, b} - {a}) (P - {b}) u" "touches t u" "blk d u = blk d t"
    "disk u = disk t" "disk_writes u = disk_writes t" "\<forall>c. blockno (bufs u c) = blockno (bufs t c)"
    by (rule brelse_spec [OF 1(2), of a]) (use k in auto)
  have u: "cache_ok p d {b} (P - {b}) u" using 2(2) assms(2) by (simp add: insert_Diff_if)
  obtain v where 3: "brelse b u = Ok ((), v)" "cache_ok p d ({b} - {b}) (P - {b}) v" "touches u v" "blk d v = blk d u"
    "disk v = disk u" "disk_writes v = disk_writes u" "\<forall>c. blockno (bufs v c) = blockno (bufs u c)"
    by (rule brelse_spec [OF u, of b]) (use cache_ok_held(5) [OF u, of b] assms(5) [of b] 1(4,5,7) 2(4,5,7) in auto)
  show ?thesis
    using that [OF 1(1) 2(1) 3(1)] 3(2-7) 2(4-7) 1(4-7) touches_trans [OF 1(3) touches_trans [OF 2(3) 3(3)]] by simp
qed

lemma install_block_spec:
  fixes s :: "'z klog_scheme"
  assumes "cache_ok p d {} P s" and "log_dev s = d" and "i < LOGBLOCKS" and "lh_block s i \<noteq> log_start s + of_nat i + 1"
    and "\<And>c. c \<in> P \<Longrightarrow> blockno (bufs s c) \<noteq> log_start s + of_nat i + 1"
    and "if r then P = {} \<and> port_ready s else (\<exists>b<NBUF. b \<notin> P) \<and> (\<exists>c\<in>P. blockno (bufs s c) = lh_block s i)"
  obtains t where "install_block r i s = Ok ((), t)"
    "wrote_blocks p d s [(lh_block s i, blk d s (log_start s + of_nat i + 1))] {c \<in> P. blockno (bufs s c) \<noteq> lh_block s i} t"
proof -
  let ?n = "log_start s + of_nat i + 1" and ?m = "lh_block s i"
  let ?x = "blk d s ?n" and ?P = "{c \<in> P. blockno (bufs s c) \<noteq> ?m}"
  define M :: "('z klog_scheme, unit) kmon" where
    "M = (if r then kbind (printf (map of_char ''recovering tail %d dst %d'' @ [10]) [Va_int (of_nat i), Va_int ?m]) (\<lambda>_. kret ()) else kret ())"
  obtain s0 where 0: "M s = Ok ((), s0)" "touches s s0" "cache_ok p d {} P s0" "blk d s0 = blk d s" "disk s0 = disk s"
    "disk_writes s0 = disk_writes s" "bufs s0 = bufs s"
    unfolding M_def by (rule install_message [OF assms(1), of r]) (use assms(6) in \<open>auto split: if_splits\<close>)
  obtain a b s1 s2 where 2: "bread d ?n s0 = Ok (a, s1)" "bread d ?m s1 = Ok (b, s2)" "a \<noteq> b" "touches s0 s2" "cache_ok p d {a, b} P s2"
    "bdata (bufs s2 a) = ?x" "blockno (bufs s2 a) = ?n" "blockno (bufs s2 b) = ?m" "blk d s2 = blk d s" "disk s2 = disk s"
    "disk_writes s2 = disk_writes s" "\<forall>c\<in>P. blockno (bufs s2 c) = blockno (bufs s c)" "b \<in> P \<longleftrightarrow> P \<noteq> {}" "a \<notin> P"
    by (rule install_reads [OF 0(3) assms(4)]) (use assms(5,6) 0(4-7) in \<open>auto split: if_splits\<close>)
  let ?u = "s2\<lparr>bufs := (bufs s2)(b := (bufs s2 b)\<lparr>bdata := ?x\<rparr>)\<rparr>"
  obtain s3 where 3: "bwrite b ?u = Ok ((), s3)" "cache_ok p d {a, b} P s3" "touches s2 s3"
    "blk d s3 = (blk d s2)(blockno (bufs s2 b) := ?x)" "disk s3 = (disk s2)(blockno (bufs s2 b) := ?x)"
    "disk_writes s3 = disk_writes s2 @ [(blockno (bufs s2 b), ?x)]" "bufs s3 = bufs ?u"
    by (rule fill_write_spec [OF 2(5), of b ?x]) (use that in auto)
  have P: "?P = P - {b}"
    using 2(8,12) cache_okD(4,5,6) [OF 2(5)] cache_ok_held(2,4) [OF 2(5), of b] by (auto simp: buf_ok_def)
  have clean: "blk d s ?n = disk s ?n" by (rule blk_clean [OF assms(1)]) (use assms(5) in auto)
  obtain s4 s5 s6 where 4: "(if \<not> r then bunpin b else kret ()) s3 = Ok ((), s4)" "brelse a s4 = Ok ((), s5)" "brelse b s5 = Ok ((), s6)"
    "cache_ok p d {} (P - {b}) s6" "touches s3 s6" "blk d s6 = blk d s3" "disk s6 = disk s3" "disk_writes s6 = disk_writes s3"
    "\<forall>c. blockno (bufs s6 c) = blockno (bufs s3 c)"
    by (rule install_finish [OF 3(2) 2(3,14), of r]) (use 2(3,7-10,13) 3(4,5,7) clean assms(4,6) in \<open>auto split: if_splits\<close>)
  have "install_block r i s = Ok ((), s6)"
    using assms(2,3) 0(1) 2(1,2,6) 3(1) 4(1-3)
    by (simp only: install_block_def bget_field_apply bset_apply M_def [symmetric] kbind_Ok kgets_apply prod.case not_le [symmetric] if_False)
  moreover have "wrote_blocks p d s [(?m, ?x)] ?P s6"
    unfolding wrote_blocks_def P
    using 4(4,6-9) 3(4-7) 2(8-12) touches_trans [OF touches_trans [OF 0(2) 2(4)] touches_trans [OF 3(3) 4(5)]] by simp
  ultimately show ?thesis using that by blast
qed


section \<open>Commit\<close>

text \<open>Block \<open>m\<close> belongs to the log area that starts at block \<open>L\<close>.\<close>

definition in_log :: "uint \<Rightarrow> uint \<Rightarrow> bool" where
  "in_log L m \<longleftrightarrow> (\<exists>j\<le>LOGBLOCKS. m = L + of_nat j)"

text \<open>
  A transaction ready to commit: the pinned buffers hold the blocks that the header names, each once, all of
  them outside the log area, and one buffer is left for the log's own blocks.
\<close>

definition txn_ok :: "nat \<Rightarrow> uint \<Rightarrow> nat set \<Rightarrow> nat \<Rightarrow> 'z klog_scheme \<Rightarrow> bool" where
  "txn_ok p d P n s \<longleftrightarrow> cache_ok p d {} P s \<and> log_dev s = d \<and> lh_n s = int n \<and> n \<le> LOGBLOCKS \<and> (\<exists>b<NBUF. b \<notin> P)
     \<and> inj_on (lh_block s) {..<n} \<and> (\<lambda>c. blockno (bufs s c)) ` P = lh_block s ` {..<n} \<and> (\<forall>i<n. \<not> in_log (log_start s) (lh_block s i))"

definition log_writes :: "uint \<Rightarrow> (nat \<Rightarrow> uint) \<Rightarrow> (uint \<Rightarrow> block) \<Rightarrow> nat \<Rightarrow> (uint \<times> block) list" where
  "log_writes L f B n = map (\<lambda>i. (L + of_nat i + 1, B (f i))) [0..<n]"

definition home_writes :: "uint \<Rightarrow> (nat \<Rightarrow> uint) \<Rightarrow> (uint \<Rightarrow> block) \<Rightarrow> nat \<Rightarrow> (uint \<times> block) list" where
  "home_writes L f B n = map (\<lambda>i. (f i, B (L + of_nat i + 1))) [0..<n]"

lemma in_log_mem [simp]: "in_log L L" "i < LOGBLOCKS \<Longrightarrow> in_log L (L + of_nat i + 1)"
  unfolding in_log_def by (auto intro: exI [of _ 0] exI [of _ "Suc i"] simp: algebra_simps)

lemma log_index_inj:
  "i < LOGBLOCKS \<Longrightarrow> j < LOGBLOCKS \<Longrightarrow> of_nat i = (of_nat j :: uint) \<longleftrightarrow> i = j"
  "i < LOGBLOCKS \<Longrightarrow> of_nat i + 1 \<noteq> (0 :: uint)"
proof -
  show "i < LOGBLOCKS \<Longrightarrow> j < LOGBLOCKS \<Longrightarrow> of_nat i = (of_nat j :: uint) \<longleftrightarrow> i = j"
    by (simp add: word_of_nat_eq_iff take_bit_nat_eq_self)
  have "of_nat (Suc i) \<noteq> (0 :: uint)" if "i < LOGBLOCKS" using that by (simp only: word_of_nat_eq_0_iff) (simp add: nat_dvd_not_less)
  then show "i < LOGBLOCKS \<Longrightarrow> of_nat i + 1 \<noteq> (0 :: uint)" by (simp add: algebra_simps)
qed

lemma log_block_neq: "i < LOGBLOCKS \<Longrightarrow> L + of_nat i + 1 \<noteq> (L :: uint)"
  using log_index_inj(2) [of i] by (simp add: add.assoc)

lemma write_log_spec:
  assumes "txn_ok p d P n s" and "k \<le> n"
  shows "\<exists>t. kfor write_log_block [0..<k] s = Ok ((), t) \<and> wrote_blocks p d s (log_writes (log_start s) (lh_block s) (blk d s) k) P t"
  using assms(2)
proof (induction k)
  case 0
  then show ?case using assms(1) by (simp add: wrote_blocks_def log_writes_def txn_ok_def touches_refl)
next
  case (Suc k)
  let ?w = "log_writes (log_start s) (lh_block s) (blk d s)"
  from Suc obtain t where t: "kfor write_log_block [0..<k] s = Ok ((), t)" "wrote_blocks p d s (?w k) P t" by auto
  then have T: "touches s t" "cache_ok p d {} P t" "blk d t = apply_writes (?w k) (blk d s)"
    "\<forall>c\<in>P. blockno (bufs t c) = blockno (bufs s c)" by (auto simp: wrote_blocks_def)
  note L = touches_log [OF T(1)]
  have s: "log_dev s = d" "n \<le> LOGBLOCKS" "\<exists>b<NBUF. b \<notin> P" "(\<lambda>c. blockno (bufs s c)) ` P = lh_block s ` {..<n}"
    "\<And>i. i < n \<Longrightarrow> \<not> in_log (log_start s) (lh_block s i)" using assms(1) by (auto simp: txn_ok_def)
  have k: "lh_block s k \<in> (\<lambda>c. blockno (bufs s c)) ` P" using Suc.prems s(4) by auto
  have "\<not> in_log (log_start s) (blockno (bufs s c))" if "c \<in> P" for c
    using that s(4,5) by (metis image_eqI imageE lessThan_iff)
  then have p: "blockno (bufs t c) \<noteq> log_start t + of_nat k + 1" if "c \<in> P" for c
    using that T(4) L in_log_mem(2) [of k "log_start s"] s(2) Suc.prems by fastforce
  have "lh_block s k \<notin> fst ` set (?w k)" using Suc.prems s(2) s(5) [of k] by (auto simp: log_writes_def)
  then have same: "blk d t (lh_block s k) = blk d s (lh_block s k)" using T(3) by (simp add: apply_writes_other)
  obtain u where "write_log_block k t = Ok ((), u)"
    "wrote_blocks p d t [(log_start s + of_nat k + 1, blk d s (lh_block s k))] P u"
    by (rule write_log_block_spec [OF T(2), of k, unfolded L same])
      (use L s(1-3) Suc.prems T(4) k p in \<open>auto simp: same\<close>)
  then show ?case using t(1) wrote_blocks_trans [OF t(2)] by (simp add: kfor_append log_writes_def)
qed


definition install_ok :: "nat \<Rightarrow> uint \<Rightarrow> bool \<Rightarrow> nat set \<Rightarrow> nat \<Rightarrow> 'z klog_scheme \<Rightarrow> bool" where
  "install_ok p d r P n s \<longleftrightarrow> cache_ok p d {} P s \<and> log_dev s = d \<and> n \<le> LOGBLOCKS \<and> (\<forall>i<n. \<not> in_log (log_start s) (lh_block s i))
     \<and> (if r then P = {} \<and> port_ready s
        else (\<exists>b<NBUF. b \<notin> P) \<and> inj_on (lh_block s) {..<n} \<and> (\<lambda>c. blockno (bufs s c)) ` P = lh_block s ` {..<n})"

lemma install_spec:
  assumes "install_ok p d r P n s" and "k \<le> n"
  shows "\<exists>t. kfor (install_block r) [0..<k] s = Ok ((), t) \<and> wrote_blocks p d s (home_writes (log_start s) (lh_block s) (blk d s) k)
    {c \<in> P. blockno (bufs s c) \<notin> lh_block s ` {..<k}} t"
  using assms(2)
proof (induction k)
  case 0
  then show ?case using assms(1) by (simp add: wrote_blocks_def home_writes_def install_ok_def touches_refl)
next
  case (Suc k)
  let ?w = "home_writes (log_start s) (lh_block s) (blk d s)" and ?P = "\<lambda>k. {c \<in> P. blockno (bufs s c) \<notin> lh_block s ` {..<k}}"
    and ?n = "log_start s + of_nat k + 1"
  from Suc obtain t where t: "kfor (install_block r) [0..<k] s = Ok ((), t)" "wrote_blocks p d s (?w k) (?P k) t" by auto
  then have T: "touches s t" "cache_ok p d {} (?P k) t" "blk d t = apply_writes (?w k) (blk d s)"
    "\<forall>c\<in>?P k. blockno (bufs t c) = blockno (bufs s c)" by (auto simp: wrote_blocks_def)
  note L = touches_log [OF T(1)]
  have s: "log_dev s = d" "n \<le> LOGBLOCKS" "\<And>i. i < n \<Longrightarrow> \<not> in_log (log_start s) (lh_block s i)"
    and r: "r \<Longrightarrow> P = {} \<and> port_ready s" "\<not> r \<Longrightarrow> (\<exists>b<NBUF. b \<notin> P) \<and> inj_on (lh_block s) {..<n} \<and> (\<lambda>c. blockno (bufs s c)) ` P = lh_block s ` {..<n}"
    using assms(1) by (auto simp: install_ok_def split: if_splits)
  have n: "in_log (log_start s) ?n" using s(2) Suc.prems by simp
  have "?n \<notin> fst ` set (?w k)" using Suc.prems s(3) n by (auto simp: home_writes_def)
  then have same: "blk d t ?n = blk d s ?n" using T(3) by (simp add: apply_writes_other)
  have p: "blockno (bufs t c) \<noteq> log_start t + of_nat k + 1" if "c \<in> ?P k" for c
  proof -
    have "blockno (bufs s c) \<in> lh_block s ` {..<n}" using that r by (cases r) auto
    then obtain i where "i < n" "blockno (bufs s c) = lh_block s i" by blast
    then show ?thesis using that T(4) s(3) [of i] n L by auto
  qed
  have q: "if r then ?P k = {} \<and> port_ready t else (\<exists>b<NBUF. b \<notin> ?P k) \<and> (\<exists>c\<in>?P k. blockno (bufs t c) = lh_block t k)"
  proof (cases r)
    case False
    note R = r(2) [OF False]
    have "lh_block s k \<in> (\<lambda>c. blockno (bufs s c)) ` P" using R Suc.prems by auto
    moreover have "lh_block s k \<notin> lh_block s ` {..<k}" using R Suc.prems by (auto dest: inj_onD)
    ultimately have "\<exists>c\<in>?P k. blockno (bufs s c) = lh_block s k" by auto
    then show ?thesis using False R L T(4) by auto
  qed (use r(1) touches_port [OF T(1)] in simp)
  have b: "log_dev t = d" "k < LOGBLOCKS" "lh_block t k \<noteq> log_start t + of_nat k + 1"
    using L s(1,2) s(3) [of k] n Suc.prems by auto
  obtain u where u: "install_block r k t = Ok ((), u)"
    "wrote_blocks p d t [(lh_block t k, blk d t (log_start t + of_nat k + 1))] {c \<in> ?P k. blockno (bufs t c) \<noteq> lh_block t k} u"
    by (rule install_block_spec [OF T(2) b p q])
  have P: "{c \<in> ?P k. blockno (bufs t c) \<noteq> lh_block t k} = ?P (Suc k)" using T(4) L by (auto simp: lessThan_Suc)
  have w: "?w (Suc k) = ?w k @ [(lh_block t k, blk d t (log_start t + of_nat k + 1))]" using L same by (simp add: home_writes_def)
  have "?P (Suc k) \<subseteq> ?P k" by auto
  then show ?case unfolding w using t(1) u(1) wrote_blocks_trans [OF t(2) u(2) [unfolded P]] by (simp add: kfor_append)
qed


lemma cache_ok_lh:
  fixes s :: "'z klog_scheme"
  shows "cache_ok p d H P (s\<lparr>lh_n := x\<rparr>) = cache_ok p d H P s" "cache_ok p d H P (s\<lparr>lh_block := f\<rparr>) = cache_ok p d H P s"
  by (simp_all add: cache_ok_def buf_ok_def at_rest_def calm_def avail_def cur_def)

lemma blk_lh:
  fixes s :: "'z klog_scheme"
  shows "blk d (s\<lparr>lh_n := x\<rparr>) = blk d s" "blk d (s\<lparr>lh_block := f\<rparr>) = blk d s"
  by (rule ext, simp add: blk_def split: option.splits)+

text \<open>The whole commit: the log's blocks, the header, the home blocks, the empty header.\<close>

definition commit_writes :: "uint \<Rightarrow> (nat \<Rightarrow> uint) \<Rightarrow> (uint \<Rightarrow> block) \<Rightarrow> nat \<Rightarrow> (uint \<times> block) list" where
  "commit_writes L f B n = log_writes L f B n @ [(L, head_block n f (B L))] @ map (\<lambda>i. (f i, B (f i))) [0..<n]
     @ [(L, head_block 0 f (head_block n f (B L)))]"

lemma home_of_log:
  assumes "n \<le> LOGBLOCKS" and "\<And>i. i < n \<Longrightarrow> \<not> in_log L (f i)"
  shows "home_writes L f ((apply_writes (log_writes L f B n) B)(L := x)) n = map (\<lambda>i. (f i, B (f i))) [0..<n]"
proof -
  have "apply_writes (log_writes L f B n) B (L + of_nat i + 1) = B (f i)" if "i < n" for i
    using that assms(1) log_index_inj(1) by (intro apply_writes_in) (auto simp: log_writes_def distinct_map inj_on_def)
  then show ?thesis using assms(1) log_index_inj(2) by (auto simp: home_writes_def)
qed

lemma log_phase_spec:
  assumes "txn_ok p d P n s"
  obtains t u where "kfor write_log_block [0..<n] s = Ok ((), t)" "lh_n t = lh_n s" "write_head t = Ok ((), u)"
    "wrote_blocks p d s (log_writes (log_start s) (lh_block s) (blk d s) n
       @ [(log_start s, head_block n (lh_block s) (blk d s (log_start s)))]) P u"
proof -
  let ?L = "log_start s" and ?f = "lh_block s" and ?B = "blk d s"
  have s: "cache_ok p d {} P s" "log_dev s = d" "lh_n s = int n" "n \<le> LOGBLOCKS" "\<exists>b<NBUF. b \<notin> P"
    "(\<lambda>c. blockno (bufs s c)) ` P = ?f ` {..<n}" "\<And>i. i < n \<Longrightarrow> \<not> in_log ?L (?f i)" using assms by (auto simp: txn_ok_def)
  have p: "blockno (bufs s c) \<noteq> ?L" if "c \<in> P" for c
    using that s(6,7) in_log_mem(1) [of ?L] by (metis image_eqI imageE lessThan_iff)
  obtain t where 1: "kfor write_log_block [0..<n] s = Ok ((), t)" "wrote_blocks p d s (log_writes ?L ?f ?B n) P t"
    using write_log_spec [OF assms] by blast
  have "?L \<notin> fst ` set (log_writes ?L ?f ?B n)" using s(4) log_index_inj(2) by (auto simp: log_writes_def add.assoc)
  then have t: "touches s t" "cache_ok p d {} P t" "\<forall>c\<in>P. blockno (bufs t c) = blockno (bufs s c)" "blk d t ?L = ?B ?L"
    using 1(2) by (auto simp: wrote_blocks_def apply_writes_other)
  note L = touches_log [OF t(1)]
  obtain u where 2: "write_head t = Ok ((), u)" "wrote_blocks p d t [(?L, head_block n ?f (?B ?L))] P u"
    by (rule write_head_spec [OF t(2), of n]) (use L t(3,4) s(2-5) p in auto)
  show ?thesis using that [OF 1(1) _ 2(1)] wrote_blocks_trans [OF 1(2) 2(2)] L by blast
qed

lemma commit_spec:
  assumes "txn_ok p d P n s" and "n \<noteq> 0"
  obtains t where "commit s = Ok ((), t)" "cache_ok p d {} {} t" "lh_n t = 0"
    "disk_writes t = disk_writes s @ commit_writes (log_start s) (lh_block s) (blk d s) n"
    "disk t = apply_writes (commit_writes (log_start s) (lh_block s) (blk d s) n) (disk s)"
    "blk d t = apply_writes (commit_writes (log_start s) (lh_block s) (blk d s) n) (blk d s)"
proof -
  let ?L = "log_start s" and ?f = "lh_block s" and ?B = "blk d s"
  let ?h = "head_block n ?f (?B ?L)"
  have s: "log_dev s = d" "lh_n s = int n" "n \<le> LOGBLOCKS" "(\<lambda>c. blockno (bufs s c)) ` P = ?f ` {..<n}"
    "\<And>i. i < n \<Longrightarrow> \<not> in_log ?L (?f i)" using assms(1) by (auto simp: txn_ok_def)
  obtain s1 s2 where 1: "kfor write_log_block [0..<n] s = Ok ((), s1)" "lh_n s1 = lh_n s" "write_head s1 = Ok ((), s2)"
    and w2: "wrote_blocks p d s (log_writes ?L ?f ?B n @ [(?L, ?h)]) P s2" by (rule log_phase_spec [OF assms(1)])
  have s2: "touches s s2" "cache_ok p d {} P s2" "\<forall>c\<in>P. blockno (bufs s2 c) = blockno (bufs s c)"
    "blk d s2 = (apply_writes (log_writes ?L ?f ?B n) ?B)(?L := ?h)"
    using w2 by (auto simp: wrote_blocks_def)
  note L2 = touches_log [OF s2(1)]
  have "(\<lambda>c. blockno (bufs s2 c)) ` P = ?f ` {..<n}" using s(4) s2(3) by (metis (no_types, lifting) image_cong)
  then have i: "install_ok p d False P n s2" and e: "{c \<in> P. blockno (bufs s2 c) \<notin> ?f ` {..<n}} = {}"
    using assms(1) s2(2) L2 by (auto simp: install_ok_def txn_ok_def)
  from install_spec [OF i order_refl] obtain s3 where 3: "kfor (install_block False) [0..<n] s2 = Ok ((), s3)"
    and "wrote_blocks p d s2 (home_writes (log_start s2) (lh_block s2) (blk d s2) n) {c \<in> P. blockno (bufs s2 c) \<notin> lh_block s2 ` {..<n}} s3"
    by blast
  then have w3: "wrote_blocks p d s2 (home_writes ?L ?f (blk d s2) n) {} s3" using L2 e by simp
  have b3: "home_writes ?L ?f (blk d s2) n = map (\<lambda>i. (?f i, ?B (?f i))) [0..<n]"
    unfolding s2(4) by (rule home_of_log [OF s(3,5)])
  have "\<forall>i<n. ?L \<noteq> ?f i" using s(5) in_log_mem(1) by metis
  then have "?L \<notin> fst ` set (home_writes ?L ?f (blk d s2) n)" by (auto simp: home_writes_def)
  then have s3: "touches s2 s3" "cache_ok p d {} {} s3" "blk d s3 ?L = ?h"
    using w3 s2(4) by (auto simp: wrote_blocks_def apply_writes_other)
  note L3 = touches_log [OF s3(1)]
  let ?u = "s3\<lparr>lh_n := 0\<rparr>"
  obtain s4 where 4: "write_head ?u = Ok ((), s4)" "wrote_blocks p d ?u [(?L, head_block 0 ?f ?h)] {} s4"
    by (rule write_head_spec [of p d "{}" ?u 0])
      (use s3(2,3) L2 L3 s(1) in \<open>auto simp: cache_ok_lh blk_lh intro: exI [of _ 0]\<close>)
  have "commit_writes ?L ?f ?B n = (log_writes ?L ?f ?B n @ [(?L, ?h)]) @ home_writes ?L ?f (blk d s2) n @ [(?L, head_block 0 ?f ?h)]"
    unfolding b3 by (simp add: commit_writes_def)
  moreover have "commit s = Ok ((), s4)"
    using s(2) assms(2) 1 3 4(1) L2 by (simp add: commit_def write_log_def install_trans_def)
  moreover have "lh_n s4 = 0" using touches_log [of ?u s4] 4(2) by (simp add: wrote_blocks_def)
  ultimately show ?thesis using that 4(2) w3 w2 by (simp add: wrote_blocks_def blk_lh)
qed


section \<open>Recovery\<close>

lemma read_head_fill:
  "kfor (\<lambda>i. if LOGBLOCKS \<le> i then kub ''log.lh.block''
        else kmodify (\<lambda>s. s\<lparr>lh_block := (lh_block s)(i := load32 lh (4 + 4 * i))\<rparr>)) [0..<k] s
   = Ok ((), s\<lparr>lh_block := (\<lambda>i. if i < k then load32 lh (4 + 4 * i) else lh_block s i)\<rparr>)"
  if "k \<le> LOGBLOCKS" for s :: "'z klog_scheme"
  using that
proof (induction k)
  case (Suc k)
  have "(\<lambda>i. if i < k then load32 lh (4 + 4 * i) else lh_block s i)(k := load32 lh (4 + 4 * k))
     = (\<lambda>i. if i < Suc k then load32 lh (4 + 4 * i) else lh_block s i)" by (auto simp: less_Suc_eq)
  then show ?case using Suc by (simp add: kfor_append)
qed simp

text \<open>The header that is on the disk.\<close>

definition head_n :: "block \<Rightarrow> nat" where
  "head_n h = nat (sint (load32 h 0))"

definition head_f :: "block \<Rightarrow> nat \<Rightarrow> uint" where
  "head_f h i = load32 h (4 + 4 * i)"

lemma read_head_spec:
  fixes s :: "'z klog_scheme"
  assumes "cache_ok p d {} {} s" and "log_dev s = d" and "head_n (blk d s (log_start s)) \<le> LOGBLOCKS"
  obtains t f where "read_head s = Ok ((), t)" "nat (lh_n t) = head_n (blk d s (log_start s))" "cache_ok p d {} {} t" "disk t = disk s"
    "disk_writes t = disk_writes s" "blk d t = blk d s" "log_dev t = d" "log_start t = log_start s"
    "\<forall>i<head_n (blk d s (log_start s)). lh_block t i = head_f (blk d s (log_start s)) i" "port_ready s \<longrightarrow> port_ready t"
proof -
  let ?n = "log_start s"
  let ?h = "blk d s ?n"
  obtain a s1 where 1: "bread d ?n s = Ok (a, s1)" "touches s s1" "cache_ok p d {a} {} s1"
    "blockno (bufs s1 a) = ?n" "disk s1 = disk s" "disk_writes s1 = disk_writes s" "blk d s1 = blk d s"
    by (rule bread_spec [OF assms(1), of ?n]) (auto intro: exI [of _ 0])
  have x: "bdata (bufs s1 a) = ?h" using cache_ok_held(5) [OF 1(3), of a] 1(4,7) by simp
  let ?f = "\<lambda>i. if i < head_n ?h then load32 ?h (4 + 4 * i) else lh_block s1 i"
  let ?u = "s1\<lparr>lh_n := sint (load32 ?h 0), lh_block := ?f\<rparr>"
  have u: "cache_ok p d {a} {} ?u" using 1(3) by (simp add: cache_ok_lh)
  have c: "?h = disk s ?n" by (rule blk_clean [OF assms(1)]) simp
  obtain t where 2: "brelse a ?u = Ok ((), t)" "cache_ok p d ({a} - {a}) {} t" "touches ?u t" "blk d t = blk d ?u"
    "disk t = disk ?u" "disk_writes t = disk_writes ?u"
    by (rule brelse_spec [OF u, of a]) (use x c 1(4,5) in auto)
  have "read_head s = Ok ((), t)"
    using assms(2,3) 1(1) 2(1) x by (simp add: read_head_def bget_field_apply read_head_fill head_n_def cong: if_cong)
  then show ?thesis
    using that [of t] 2(2-6) 1(5-7) touches_log [OF 1(2)] touches_log [OF 2(3)] assms(2) touches_port [OF 1(2)] touches_port [OF 2(3)]
    by (simp add: blk_lh head_n_def head_f_def port_ready_def calm_def)
qed


lemma recover_spec:
  fixes s :: "'z klog_scheme"
  assumes "cache_ok p d {} {} s" and "log_dev s = d" and "port_ready s"
  defines "L \<equiv> log_start s"
  defines "h \<equiv> disk s L"
  assumes "head_n h \<le> LOGBLOCKS" and "\<And>i. i < head_n h \<Longrightarrow> \<not> in_log L (head_f h i)"
  obtains t x where "recover_from_log s = Ok ((), t)" "cache_ok p d {} {} t" "load32 x 0 = 0"
    "disk t = (apply_writes (home_writes L (head_f h) (disk s) (head_n h)) (disk s))(L := x)"
proof -
  have b: "blk d s = disk s" using blk_clean [OF assms(1)] by auto
  let ?n = "head_n h"
  from assms(6) have n: "head_n (blk d s (log_start s)) \<le> LOGBLOCKS" by (simp add: b h_def L_def)
  obtain s1 where 1: "read_head s = Ok ((), s1)" "nat (lh_n s1) = ?n" "cache_ok p d {} {} s1" "disk s1 = disk s" "blk d s1 = disk s"
    "log_dev s1 = d" "log_start s1 = L" "\<forall>i<?n. lh_block s1 i = head_f h i" "port_ready s1"
    using read_head_spec [OF assms(1,2) n] assms(3) unfolding b h_def L_def by metis
  have i: "install_ok p d True {} ?n s1" using 1 assms(6,7) by (simp add: install_ok_def)
  have h: "home_writes (log_start s1) (lh_block s1) (blk d s1) ?n = home_writes L (head_f h) (disk s) ?n"
    using 1(5,7,8) by (auto simp: home_writes_def)
  obtain s2 where 2: "kfor (install_block True) [0..<?n] s1 = Ok ((), s2)"
    "wrote_blocks p d s1 (home_writes L (head_f h) (disk s) ?n) {} s2"
    using install_spec [OF i order_refl, unfolded h] by auto
  then have s2: "touches s1 s2" "cache_ok p d {} {} s2" "disk s2 = apply_writes (home_writes L (head_f h) (disk s) ?n) (disk s)"
    using 1(4) by (auto simp: wrote_blocks_def)
  let ?u = "s2\<lparr>lh_n := 0\<rparr>" and ?x = "head_block 0 (lh_block s2) (blk d s2 L)"
  obtain t where 3: "write_head ?u = Ok ((), t)" "wrote_blocks p d ?u [(L, ?x)] {} t"
    by (rule write_head_spec [of p d "{}" ?u 0])
      (use s2(2) touches_log [OF s2(1)] 1(6,7) in \<open>auto simp: cache_ok_lh blk_lh intro: exI [of _ 0]\<close>)
  have "recover_from_log s = Ok ((), t)"
    using 1(1,2) 2(1) 3(1) by (simp add: recover_from_log_def install_trans_def)
  then show ?thesis using that [of t ?x] 3(2) s2(3) by (simp add: wrote_blocks_def head_block_0)
qed

section \<open>Crashes\<close>

lemma log_writes_length [simp]: "length (log_writes L f B n) = n"
  by (simp add: log_writes_def)

lemma log_writes_at:
  assumes "n \<le> LOGBLOCKS"
  shows "i < n \<Longrightarrow> apply_writes (log_writes L f B n) D (L + of_nat i + 1) = B (f i)"
    and "m = L \<or> \<not> in_log L m \<Longrightarrow> apply_writes (take k (log_writes L f B n)) D m = D m"
proof -
  show "i < n \<Longrightarrow> apply_writes (log_writes L f B n) D (L + of_nat i + 1) = B (f i)"
    using assms log_index_inj(1) by (intro apply_writes_in) (auto simp: log_writes_def distinct_map inj_on_def)
  have "m \<notin> fst ` set (log_writes L f B n)" if "m = L \<or> \<not> in_log L m"
    using that assms log_block_neq [of _ L] in_log_mem(2) [of _ L] by (fastforce simp: log_writes_def)
  then show "m = L \<or> \<not> in_log L m \<Longrightarrow> apply_writes (take k (log_writes L f B n)) D m = D m"
    by (meson apply_writes_other image_mono set_take_subset subsetD)
qed


lemma head_block_n: "n \<le> LOGBLOCKS \<Longrightarrow> head_n (head_block n f x) = n"
  by (simp add: head_n_def head_block_load signed_of_nat signed_take_bit_int_eq_self)

lemma home_at:
  fixes f :: "nat \<Rightarrow> uint" and B :: "uint \<Rightarrow> block"
  assumes "inj_on f {..<n}" and "\<And>m. \<not> in_log L m \<Longrightarrow> m \<notin> f ` {..<n} \<Longrightarrow> D m = B m" and "\<not> in_log L m"
  shows "apply_writes (map (\<lambda>i. (f i, B (f i))) [0..<n]) D m = B m"
proof (cases "m \<in> f ` {..<n}")
  case True
  then show ?thesis using assms(1) by (intro apply_writes_in) (auto simp: distinct_map comp_def inj_on_def)
next
  case False
  then show ?thesis using assms(2,3) by (subst apply_writes_other) auto
qed

text \<open>The disk when the header has been written and some of the home blocks have.\<close>

lemma committed_at:
  fixes f :: "nat \<Rightarrow> uint" and B D :: "uint \<Rightarrow> block" and h :: block and j :: nat
  assumes "n \<le> LOGBLOCKS" and "\<And>i. i < n \<Longrightarrow> \<not> in_log L (f i)"
  defines "D' \<equiv> apply_writes (log_writes L f B n @ [(L, h)] @ take j (map (\<lambda>i. (f i, B (f i))) [0..<n])) D"
  shows "D' L = h" "i < n \<Longrightarrow> D' (L + of_nat i + 1) = B (f i)" "\<not> in_log L m \<Longrightarrow> m \<notin> f ` {..<n} \<Longrightarrow> D' m = D m"
proof -
  let ?w = "take j (map (\<lambda>i. (f i, B (f i))) [0..<n])"
  have w: "apply_writes ?w E m = E m" if "m \<notin> f ` {..<n}" for E m
    using that by (intro apply_writes_other) (auto dest!: in_set_takeD)
  have l: "m \<notin> f ` {..<n}" if "in_log L m" for m using that assms(2) by auto
  show "D' L = h" using w [OF l [of L]] by (simp add: D'_def)
  show "i < n \<Longrightarrow> D' (L + of_nat i + 1) = B (f i)"
    using assms(1) w [OF l [of "L + of_nat i + 1"]] log_writes_at(1) [OF assms(1)] log_index_inj(2) [of i] by (simp add: D'_def)
  show "\<not> in_log L m \<Longrightarrow> m \<notin> f ` {..<n} \<Longrightarrow> D' m = D m"
    using w [of m] log_writes_at(2) [OF assms(1), of m L n f B D] by (auto simp: D'_def)
qed


text \<open>The three phases of a commit, as the disk shows them after its first \<open>k\<close> writes, and what recovery makes of each.\<close>

lemma recover_prefix:
  fixes f :: "nat \<Rightarrow> uint" and B D :: "uint \<Rightarrow> block"
  assumes n: "n \<le> LOGBLOCKS" and f: "\<And>i. i < n \<Longrightarrow> \<not> in_log L (f i)" "inj_on f {..<n}" and h: "head_n (D L) = 0"
    and same: "\<And>m. \<not> in_log L m \<Longrightarrow> m \<notin> f ` {..<n} \<Longrightarrow> D m = B m" and k: "k \<le> length (commit_writes L f B n)"
  defines "E \<equiv> apply_writes (take k (commit_writes L f B n)) D"
  shows "head_n (E L) \<le> LOGBLOCKS" "i < head_n (E L) \<Longrightarrow> \<not> in_log L (head_f (E L) i)"
    "\<not> in_log L m \<Longrightarrow> apply_writes (home_writes L (head_f (E L)) E (head_n (E L))) E m = (if k \<le> n then D m else B m)"
proof -
  let ?h = "head_block n f (B L)" and ?w = "map (\<lambda>i. (f i, B (f i))) [0..<n]"
  have "k \<le> Suc (Suc (n + n))" using k by (simp add: commit_writes_def)
  then consider "k \<le> n" | "k - Suc n \<le> n" "k = Suc (n + (k - Suc n))" | "k = Suc (Suc (n + n))" by linarith
  then have "head_n (E L) \<le> LOGBLOCKS \<and> (\<forall>i<head_n (E L). \<not> in_log L (head_f (E L) i)) \<and> (\<forall>m. \<not> in_log L m \<longrightarrow>
    apply_writes (home_writes L (head_f (E L)) E (head_n (E L))) E m = (if k \<le> n then D m else B m))"
  proof cases
    case 1
    then have "E m = D m" if "m = L \<or> \<not> in_log L m" for m
      using log_writes_at(2) [OF n that] by (simp add: E_def commit_writes_def)
    then show ?thesis using h 1 by (simp add: home_writes_def)
  next
    case 2
    define j where "j = k - Suc n"
    have j: "j \<le> n" "k = Suc (n + j)" using 2 by (simp_all add: j_def)
    then have e: "E = apply_writes (log_writes L f B n @ [(L, ?h)] @ take j ?w) D" by (simp add: E_def commit_writes_def)
    note C = committed_at [where f = f, OF n f(1), where B = B and h = ?h and j = j and D = D, folded e]
    have H: "head_n (E L) = n" "\<And>i. i < n \<Longrightarrow> head_f (E L) i = f i"
      using C(1) n by (simp_all add: head_block_n head_f_def head_block_load)
    have "home_writes L (head_f (E L)) E n = ?w" using H C(2) by (simp add: home_writes_def)
    then show ?thesis using H n f home_at [OF f(2), of L E B] C(3) same j(2) by simp
  next
    case 3
    let ?D = "(apply_writes (log_writes L f B n) D)(L := ?h)"
    have e: "E = (apply_writes ?w ?D)(L := head_block 0 f ?h)" using 3 by (simp add: E_def commit_writes_def)
    then have H: "head_n (E L) = 0" by (simp add: head_block_n)
    have "E m = B m" if "\<not> in_log L m" for m
    proof -
      have "?D m = B m" if "\<not> in_log L m" "m \<notin> f ` {..<n}" for m
        using that same log_writes_at(2) [OF n, where k = n and D = D] by auto
      then have "apply_writes ?w ?D m = B m" by (rule home_at [OF f(2) _ that])
      then show ?thesis using e that by auto
    qed
    then show ?thesis using H 3 by (simp add: home_writes_def)
  qed
  then show "head_n (E L) \<le> LOGBLOCKS" "i < head_n (E L) \<Longrightarrow> \<not> in_log L (head_f (E L) i)"
    "\<not> in_log L m \<Longrightarrow> apply_writes (home_writes L (head_f (E L)) E (head_n (E L))) E m = (if k \<le> n then D m else B m)" by blast+
qed


text \<open>A machine restarted with a disk: nothing cached, the console ready, the log where it was.\<close>

definition restarted :: "nat \<Rightarrow> uint \<Rightarrow> uint \<Rightarrow> (uint \<Rightarrow> block) \<Rightarrow> 'z klog_scheme \<Rightarrow> bool" where
  "restarted p d L D r \<longleftrightarrow> cache_ok p d {} {} r \<and> port_ready r \<and> log_dev r = d \<and> log_start r = L \<and> disk r = D"

text \<open>
  C1: a commit is atomic with respect to crashes. For a transaction of \<open>n\<close> blocks pinned in the cache and named in the
  header, \<open>commit\<close> succeeds, writes a sequence of \<open>2 n + 2\<close> blocks to the disk and leaves every block outside the log as the
  cache saw it. If the machine stops after any number \<open>k\<close> of these writes and restarts with that disk,
  \<open>recover_from_log\<close> succeeds and empties the log, and every block outside the log then has its old contents if
  at most \<open>n\<close> writes were made and its new contents otherwise: all of the transaction or none of it.
\<close>

theorem commit_crash_atomic:
  fixes s :: "'z klog_scheme"
  assumes "txn_ok p d P n s" and "n \<noteq> 0" and "head_n (disk s (log_start s)) = 0"
  shows "\<exists>t ws. commit s = Ok ((), t) \<and> disk_writes t = disk_writes s @ ws \<and> length ws = 2 * n + 2 \<and> disk t = apply_writes ws (disk s)
    \<and> cache_ok p d {} {} t \<and> head_n (disk t (log_start s)) = 0
    \<and> (\<forall>m. \<not> in_log (log_start s) m \<longrightarrow> disk t m = blk d s m)
    \<and> (\<forall>k\<le>length ws. \<forall>q (r :: 'z klog_scheme). restarted q d (log_start s) (apply_writes (take k ws) (disk s)) r \<longrightarrow>
         (\<exists>u. recover_from_log r = Ok ((), u) \<and> cache_ok q d {} {} u \<and> head_n (disk u (log_start s)) = 0
            \<and> (\<forall>m. \<not> in_log (log_start s) m \<longrightarrow> disk u m = (if k \<le> n then disk s m else blk d s m))))"
proof -
  let ?L = "log_start s" and ?f = "lh_block s" and ?B = "blk d s"
  let ?ws = "commit_writes ?L ?f ?B n"
  have s: "cache_ok p d {} P s" "n \<le> LOGBLOCKS" "(\<lambda>c. blockno (bufs s c)) ` P = ?f ` {..<n}" "inj_on ?f {..<n}"
    "\<And>i. i < n \<Longrightarrow> \<not> in_log ?L (?f i)" using assms(1) by (auto simp: txn_ok_def)
  have same: "disk s m = ?B m" if "m \<notin> ?f ` {..<n}" for m
  proof -
    have "m \<notin> (\<lambda>c. blockno (bufs s c)) ` P" using that s(3) by simp
    then show ?thesis by (intro blk_clean [OF s(1), symmetric]) auto
  qed
  note R = recover_prefix [where f = ?f and D = "disk s" and L = ?L and B = ?B, OF s(2,5,4) assms(3) same]
  obtain t where t: "commit s = Ok ((), t)" "cache_ok p d {} {} t" "lh_n t = 0" "disk_writes t = disk_writes s @ ?ws"
    "disk t = apply_writes ?ws (disk s)" "blk d t = apply_writes ?ws ?B" by (rule commit_spec [OF assms(1,2)])
  have h: "head_n (disk t ?L) = 0" unfolding t(5) by (simp add: commit_writes_def head_block_n)
  have "disk t m = ?B m" if "\<not> in_log ?L m" for m
    using R(3) [OF _ _ order_refl that, simplified] h t(5) by (simp add: home_writes_def commit_writes_def)
  moreover have "\<exists>u. recover_from_log r = Ok ((), u) \<and> cache_ok q d {} {} u \<and> head_n (disk u ?L) = 0
       \<and> (\<forall>m. \<not> in_log ?L m \<longrightarrow> disk u m = (if k \<le> n then disk s m else ?B m))"
    if k: "k \<le> length ?ws" and "restarted q d ?L (apply_writes (take k ?ws) (disk s)) r" for k q and r :: "'z klog_scheme"
  proof -
    have r: "cache_ok q d {} {} r" "log_dev r = d" "port_ready r" "log_start r = ?L" "disk r = apply_writes (take k ?ws) (disk s)"
      using that(2) by (auto simp: restarted_def)
    note K = R [OF _ _ k, folded r(5), folded r(4), simplified]
    obtain u x where "recover_from_log r = Ok ((), u)" "cache_ok q d {} {} u" "load32 x 0 = 0"
      "disk u = (apply_writes (home_writes (log_start r) (head_f (disk r (log_start r))) (disk r) (head_n (disk r (log_start r)))) (disk r))
         (log_start r := x)"
      by (rule recover_spec [OF r(1-3)]) (use K(1,2) in auto)
    then show ?thesis using K(3) r(4) by (auto simp: head_n_def)
  qed
  moreover have "length ?ws = 2 * n + 2" by (simp add: commit_writes_def)
  ultimately show ?thesis using t(1,2,4,5) h by blast
qed


definition quiet_disk :: "(uint \<Rightarrow> block) \<Rightarrow> kvirtio" where
  "quiet_disk D = kbio.extend (fresh_cache D) \<lparr>vdesc = (\<lambda>_. no_desc), avail_idx = 0, avail_ring = (\<lambda>_. 0), used_idx_dev = 0,
     used_ring = (\<lambda>_. 0), vfree = (\<lambda>_. True), used_idx = 0, info_b = (\<lambda>_. None), info_status = (\<lambda>_. 0),
     vops = (\<lambda>_. \<lparr>rq_type = 0, rq_reserved = 0, rq_sector = 0\<rparr>), vregs = (\<lambda>_. 0), vreact = (\<lambda>r v g. g(r := v))\<rparr>"

definition empty_log :: "(uint \<Rightarrow> block) \<Rightarrow> klog" where
  "empty_log D = kvirtio.extend (quiet_disk D) \<lparr>log_start = 2, log_outstanding = 0, log_committing = False, log_dev = 1,
     lh_n = 0, lh_block = (\<lambda>_. 0)\<rparr>"

definition one_txn :: klog where
  "one_txn = (empty_log (\<lambda>_ _. 0))\<lparr>bufs := fresh_bufs(0 := (fresh_bufs 0)\<lparr>valid := True, dev := 1, blockno := 50, refcnt := 1,
     bdata := \<lambda>_. 7\<rparr>), lh_n := 1, lh_block := \<lambda>_. 50\<rparr>"

lemma empty_log_fields:
  "at_rest 0 (empty_log D)" "port_ready (empty_log D)" "bufs (empty_log D) = fresh_bufs" "disk (empty_log D) = D"
  "log_dev (empty_log D) = 1" "log_start (empty_log D) = 2" "disk_writes (empty_log D) = []" "\<not> slocked (slocks (empty_log D) l)"
proof -
  note E = empty_log_def quiet_disk_def kvirtio.extend_def kbio.extend_def fresh_cache_def kcons.extend_def quiet_console_def kuart.extend_def
  have "at_rest 0 (empty_log D) \<longleftrightarrow> at_rest 0 quiet_port" "port_ready (empty_log D) \<longleftrightarrow> port_ready quiet_port"
    by (simp_all add: E at_rest_def calm_def avail_def cur_def port_ready_def)
  then show "at_rest 0 (empty_log D)" "port_ready (empty_log D)" by simp_all
  show "bufs (empty_log D) = fresh_bufs" "disk (empty_log D) = D" "log_dev (empty_log D) = 1" "log_start (empty_log D) = 2"
    "disk_writes (empty_log D) = []" by (simp_all add: E)
  show "\<not> slocked (slocks (empty_log D) l)"
    by (simp add: E quiet_port_def one_pipe_def no_shm_def empty_mboxes_def no_sleeplocks_def
      kpipes.extend_def kshm.extend_def kmbox.extend_def ksleep.extend_def kprocs.extend_def)
qed


lemma empty_log_restarted: "restarted 0 1 2 D (empty_log D)"
  using fresh_ring by (auto simp: restarted_def empty_log_fields cache_ok_def buf_ok_def fresh_bufs_def)

lemma one_txn_ok: "txn_ok 0 1 {0} 1 one_txn"
proof -
  have f: "bufs one_txn = fresh_bufs(0 := (fresh_bufs 0)\<lparr>valid := True, dev := 1, blockno := 50, refcnt := 1, bdata := \<lambda>_. 7\<rparr>)"
    "log_dev one_txn = 1" "lh_n one_txn = 1" "lh_block one_txn = (\<lambda>_. 50)" "log_start one_txn = 2"
    "\<And>l. \<not> slocked (slocks one_txn l)" by (simp_all add: one_txn_def empty_log_fields)
  have "at_rest 0 one_txn" using empty_log_fields(1) [of "\<lambda>_ _. 0"] by (simp add: one_txn_def at_rest_def calm_def avail_def cur_def)
  moreover have "\<exists>ls. ring_ok (bufs one_txn) ls" by (rule ring_ok_links [OF fresh_ring]) (auto simp: f)
  ultimately have "cache_ok 0 1 {} {0} one_txn" by (auto simp: cache_ok_def buf_ok_def f fresh_bufs_def)
  moreover have "\<not> in_log 2 50"
  proof
    assume "in_log 2 50"
    then obtain j where "j \<le> 30" "(50 :: uint) = 2 + of_nat j" by (auto simp: in_log_def)
    then have "unat (48 :: uint) = unat (of_nat j :: uint)" by simp
    then show False using \<open>j \<le> 30\<close> by (simp add: unat_of_nat)
  qed
  ultimately show ?thesis by (auto simp: txn_ok_def f inj_on_def intro: exI [of _ 1])
qed


theorem commit_crash_atomic_witness:
  "\<exists>t. commit one_txn = Ok ((), t) \<and> disk t 50 = (\<lambda>_. 7)
     \<and> (\<exists>u. recover_from_log (empty_log (apply_writes (take 1 (disk_writes t)) (\<lambda>_ _. 0))) = Ok ((), u) \<and> disk u 50 = (\<lambda>_. 0))
     \<and> (\<exists>u. recover_from_log (empty_log (apply_writes (take 2 (disk_writes t)) (\<lambda>_ _. 0))) = Ok ((), u) \<and> disk u 50 = (\<lambda>_. 7))"
proof -
  have f: "disk one_txn = (\<lambda>_ _. 0)" "log_start one_txn = 2" "disk_writes one_txn = []" "bufs one_txn 0 = (fresh_bufs 0)\<lparr>valid := True, dev := 1, blockno := 50, refcnt := 1, bdata := \<lambda>_. 7\<rparr>"
    by (simp_all add: one_txn_def empty_log_fields)
  have h: "head_n (disk one_txn (log_start one_txn)) = 0" by (simp add: f head_n_def load32_def)
  have c: "cache_ok 0 1 {} {0} one_txn" "\<not> in_log 2 50"
    using one_txn_ok by (auto simp: txn_ok_def one_txn_def empty_log_fields)
  have b: "blk 1 one_txn 50 = (\<lambda>_. 7)" using blk_cached [OF c(1), of 0] by (simp add: f)
  note C = commit_crash_atomic [OF one_txn_ok one_neq_zero h, unfolded f append_Nil]
  from C obtain t ws where t: "commit one_txn = Ok ((), t)" "disk_writes t = ws" "length ws = 2 * 1 + 2"
      "\<forall>m. \<not> in_log 2 m \<longrightarrow> disk t m = blk 1 one_txn m"
    and r: "\<forall>k\<le>length ws. \<forall>q (r :: klog). restarted q 1 2 (apply_writes (take k ws) (\<lambda>_ _. 0)) r \<longrightarrow>
         (\<exists>u. recover_from_log r = Ok ((), u) \<and> cache_ok q 1 {} {} u \<and> head_n (disk u 2) = 0
            \<and> (\<forall>m. \<not> in_log 2 m \<longrightarrow> disk u m = (if k \<le> 1 then (\<lambda>_. 0) else blk 1 one_txn m)))" by blast
  have "\<exists>u. recover_from_log (empty_log (apply_writes (take k ws) (\<lambda>_ _. 0))) = Ok ((), u) \<and> disk u 50 = (if k \<le> 1 then (\<lambda>_. 0) else (\<lambda>_. 7))"
    if "k \<le> 4" for k using that r [rule_format, OF _ empty_log_restarted, of k] t(3) c(2) b by auto
  from this [of 1] this [of 2] show ?thesis using t c(2) b by auto
qed

end
