(* ===== verification/Log_Space.thy ===== *)
theory Log_Space
  imports Log_Facts
begin

text \<open>
  The log never overflows. Operations of the file system run concurrently between \<open>begin_op\<close> and \<open>end_op\<close>;
  each may log at most \<open>MAXOPBLOCKS\<close> blocks. A step relation interleaves them in any order, with a ghost list of
  what each running operation may still write, and an invariant of its runs bounds the header's count.

  What an operation of a lower layer leaves alone is stated with \<open>keeps\<close>, for every state it returns or sleeps in.
\<close>

section \<open>What an operation leaves alone\<close>

named_theorems keeps

definition keeps :: "('s \<Rightarrow> 'v) \<Rightarrow> ('s, 'a) kmon \<Rightarrow> bool" where
  "keeps f m \<longleftrightarrow> (\<forall>s. case m s of Ok (x, t) \<Rightarrow> f t = f s | Sleep t \<Rightarrow> f t = f s | _ \<Rightarrow> True)"

lemma keeps_basic [keeps]:
  "keeps f (kret x)" "keeps f (kgets g)" "keeps f (kpanic e)" "keeps f (kub e)" "keeps f kblock" "keeps f ksleep"
  by (simp_all add: keeps_def)

lemma keeps_modify: "(\<And>s. f (g s) = f s) \<Longrightarrow> keeps f (kmodify g)"
  by (simp add: keeps_def)

lemma keeps_bind [keeps]: "keeps f m \<Longrightarrow> (\<And>x. keeps f (g x)) \<Longrightarrow> keeps f (kbind m g)"
  unfolding keeps_def kbind_def by (fastforce split: outcome.splits prod.splits)

lemma keeps_if [keeps]: "(c \<Longrightarrow> keeps f m) \<Longrightarrow> (\<not> c \<Longrightarrow> keeps f n) \<Longrightarrow> keeps f (if c then m else n)"
  by simp

lemma keeps_option [keeps]: "keeps f m \<Longrightarrow> (\<And>x. keeps f (n x)) \<Longrightarrow> keeps f (case r of None \<Rightarrow> m | Some x \<Rightarrow> n x)"
  by (simp split: option.split)

lemma keeps_prod [keeps]: "(\<And>x y. keeps f (m x y)) \<Longrightarrow> keeps f (case p of (x, y) \<Rightarrow> m x y)"
  by (simp split: prod.split)

lemma keeps_kfor [keeps]: "(\<And>x. keeps f (m x)) \<Longrightarrow> keeps f (kfor m xs)"
  by (induction xs) (auto intro: keeps)

lemma keeps_Ok: "keeps f m \<Longrightarrow> m s = Ok (x, t) \<Longrightarrow> f t = f s"
  unfolding keeps_def by (erule allE [of _ s]) simp

text \<open>The bookkeeping of the log in memory, which the locks, the processes and the buffer cache do not touch.\<close>

definition log_view :: "'z klog_scheme \<Rightarrow> int \<times> int \<times> bool \<times> (nat \<Rightarrow> uint)" where
  "log_view s = (lh_n s, log_outstanding s, log_committing s, lh_block s)"

lemma keeps_locks [keeps]:
  "keeps log_view intr_get" "keeps log_view intr_on" "keeps log_view intr_off" "keeps log_view mycpu"
  "keeps log_view (cpu_set c f)" "keeps log_view (lock_set lk g)"
  unfolding intr_get_def intr_on_def intr_off_def mycpu_def cpuid_def cpu_set_def lock_set_def
  by (intro keeps keeps_modify; simp add: log_view_def)+

lemma keeps_spin [keeps]:
  "keeps log_view push_off" "keeps log_view pop_off" "keeps log_view (holding lk)" "keeps log_view (test_and_set lk)"
  unfolding push_off_def pop_off_def holding_def test_and_set_def by (intro keeps)+

lemma keeps_acquire [keeps]: "keeps log_view (acquire lk)" "keeps log_view (release lk)"
  unfolding acquire_def release_def by (intro keeps)+


lemma keeps_procs [keeps]: "keeps log_view (pget p f)" "keeps log_view (pset p g)"
  unfolding pget_def pset_def by (intro keeps keeps_modify; simp add: log_view_def)+

lemma keeps_curproc [keeps]: "keeps log_view myproc" "keeps log_view curproc" "keeps log_view sched"
proof -
  show "keeps log_view myproc" unfolding myproc_def by (intro keeps)
  then show c: "keeps log_view curproc" unfolding curproc_def by (intro keeps)
  show "keeps log_view sched" unfolding sched_def by (intro keeps c)
qed

lemma keeps_sleep [keeps]: "keeps log_view (sleep ch lk)"
  unfolding sleep_def sleep_end_def by (intro keeps)

lemma keeps_wakeup [keeps]: "keeps log_view (wakeup ch)"
proof -
  have "keeps log_view (wakeup_loop ch ps)" for ps by (induction ps) (simp_all only: wakeup_loop.simps, (intro keeps | assumption)+)
  then show ?thesis unfolding wakeup_def .
qed

lemma keeps_slock_set [keeps]: "keeps log_view (slock_set i f)"
  unfolding slock_set_def by (intro keeps_modify) (simp add: log_view_def)

lemma keeps_sleeplock [keeps]: "keeps log_view (acquiresleep i)" "keeps log_view (releasesleep i)" "keeps log_view (holdingsleep i)"
  unfolding acquiresleep_def releasesleep_def holdingsleep_def by (intro keeps)+

lemma keeps_buf [keeps]: "keeps log_view (bget_field b f)" "keeps log_view (bset b g)"
  unfolding bget_field_def bset_def by (intro keeps keeps_modify; simp add: log_view_def)+

lemma keeps_disk_rw [keeps]: "keeps log_view (disk_rw b w)"
  unfolding disk_rw_def by (intro keeps keeps_modify) (simp add: log_view_def)

lemma keeps_ring [keeps]: "keeps log_view (link_front b)" "keeps log_view (unlink b)"
  unfolding link_front_def unlink_def by (intro keeps)+

lemma keeps_find [keeps]: "keeps log_view (find_cached k d n b)" "keeps log_view (find_unused_buf k b)"
proof -
  show "keeps log_view (find_cached k d n b)"
    by (induction k arbitrary: b) (subst find_cached.simps; auto intro!: keeps)+
  show "keeps log_view (find_unused_buf k b)"
    by (induction k arbitrary: b) (subst find_unused_buf.simps; auto intro!: keeps)+
qed

lemma keeps_bget [keeps]: "keeps log_view (bget d n)"
  unfolding bget_def by (intro keeps)

lemma keeps_bio [keeps]:
  "keeps log_view (bread d n)" "keeps log_view (bwrite b)" "keeps log_view (brelse b)" "keeps log_view (bpin b)" "keeps log_view (bunpin b)"
  unfolding bread_def bwrite_def brelse_def bpin_def bunpin_def by (intro keeps)+

lemma keeps_commit_parts [keeps]:
  "keeps log_view (write_log_block i)" "keeps log_view (install_block False i)" "keeps log_view write_head"
  unfolding write_log_block_def install_block_def write_head_def if_False not_False_eq_True if_True by (intro keeps)+

section \<open>Effects on the bookkeeping\<close>

lemma commit_view:
  assumes "commit s = Ok ((), t)"
  shows "log_outstanding t = log_outstanding s" "log_committing t = log_committing s" "0 < lh_n s \<Longrightarrow> lh_n t = 0" "lh_n s \<le> 0 \<Longrightarrow> lh_n t = lh_n s"
proof -
  have w: "keeps log_view write_log" "keeps log_view (install_trans False)"
    unfolding write_log_def install_trans_def by (intro keeps)+
  consider "lh_n s \<le> 0" "t = s" | a b c where "0 < lh_n s" "write_log s = Ok ((), a)" "write_head a = Ok ((), b)"
      "install_trans False b = Ok ((), c)" "write_head (c\<lparr>lh_n := 0\<rparr>) = Ok ((), t)"
    using assms by (auto simp: commit_def not_less elim!: kbind_OkE split: if_splits)
  then have "log_outstanding t = log_outstanding s \<and> log_committing t = log_committing s \<and> lh_n t = (if 0 < lh_n s then 0 else lh_n s)"
  proof cases
    case (2 a b c)
    have "log_view a = log_view s" "log_view b = log_view a" "log_view c = log_view b" "log_view t = log_view (c\<lparr>lh_n := 0\<rparr>)"
      using keeps_Ok [OF w(1) 2(2)] keeps_Ok [OF keeps_commit_parts(3) 2(3)] keeps_Ok [OF w(2) 2(4)] keeps_Ok [OF keeps_commit_parts(3) 2(5)] by blast+
    then show ?thesis using 2(1) by (simp add: log_view_def)
  qed simp
  then show "log_outstanding t = log_outstanding s" "log_committing t = log_committing s" "0 < lh_n s \<Longrightarrow> lh_n t = 0" "lh_n s \<le> 0 \<Longrightarrow> lh_n t = lh_n s"
    by simp_all
qed

lemma begin_op_view:
  assumes "begin_op s = Ok ((), t)"
  shows "lh_n s + (log_outstanding s + 1) * 10 \<le> 30" "log_view t = (lh_n s, log_outstanding s + 1, log_committing s, lh_block s)"
proof -
  from assms obtain a where a: "acquire Log_lock s = Ok ((), a)" "lh_n a + (log_outstanding a + 1) * 10 \<le> 30"
    "release Log_lock (a\<lparr>log_outstanding := log_outstanding a + 1\<rparr>) = Ok ((), t)"
    by (auto simp: begin_op_def not_less elim!: kbind_OkE split: if_splits)
  then show "lh_n s + (log_outstanding s + 1) * 10 \<le> 30" "log_view t = (lh_n s, log_outstanding s + 1, log_committing s, lh_block s)"
    using keeps_Ok [OF keeps_acquire(1) a(1)] keeps_Ok [OF keeps_acquire(2) a(3)] by (auto simp: log_view_def)
qed


lemma log_write_view:
  assumes "log_write b s = Ok ((), t)"
  shows "log_outstanding t = log_outstanding s" "lh_n t = lh_n s \<or> lh_n t = lh_n s + 1"
proof -
  consider a c d where "acquire Log_lock s = Ok ((), a)" "bpin b (a\<lparr>lh_block := d\<rparr>) = Ok ((), c)" "release Log_lock (c\<lparr>lh_n := lh_n c + 1\<rparr>) = Ok ((), t)"
    | a d where "acquire Log_lock s = Ok ((), a)" "release Log_lock (a\<lparr>lh_block := d\<rparr>) = Ok ((), t)"
    using assms by (auto simp: log_write_def bget_field_def Let_def elim!: kbind_OkE split: if_splits)
  then have "log_outstanding t = log_outstanding s \<and> (lh_n t = lh_n s \<or> lh_n t = lh_n s + 1)"
  proof cases
    case (1 a c d)
    then show ?thesis using keeps_Ok [OF keeps_acquire(1) 1(1)] keeps_Ok [OF keeps_bio(4) 1(2)] keeps_Ok [OF keeps_acquire(2) 1(3)]
      by (auto simp: log_view_def)
  next
    case (2 a d)
    then show ?thesis using keeps_Ok [OF keeps_acquire(1) 2(1)] keeps_Ok [OF keeps_acquire(2) 2(2)] by (auto simp: log_view_def)
  qed
  then show "log_outstanding t = log_outstanding s" "lh_n t = lh_n s \<or> lh_n t = lh_n s + 1" by auto
qed

lemma end_op_view:
  assumes "end_op s = Ok ((), t)" and "0 \<le> lh_n s"
  shows "log_outstanding t = log_outstanding s - 1" "0 \<le> lh_n t" "lh_n t \<le> lh_n s"
proof -
  let ?o = "log_outstanding s - 1"
  from assms(1) obtain a b c where a: "acquire Log_lock s = Ok ((), a)"
    "(if log_outstanding a - 1 = 0 then kmodify (\<lambda>s. s\<lparr>log_committing := True\<rparr>) else wakeup (Some Chan_log))
       (a\<lparr>log_outstanding := log_outstanding a - 1\<rparr>) = Ok ((), b)" "release Log_lock b = Ok ((), c)"
    "(if log_outstanding a - 1 = 0 then kbind commit (\<lambda>_. kbind (acquire Log_lock) (\<lambda>_.
       kbind (kmodify (\<lambda>s. s\<lparr>log_committing := False\<rparr>)) (\<lambda>_. kbind (wakeup (Some Chan_log)) (\<lambda>_. release Log_lock))))
     else kret ()) c = Ok ((), t)"
    by (auto simp: end_op_def elim!: kbind_OkE split: if_splits)
  have A: "log_view a = log_view s" "log_view c = log_view b"
    using keeps_Ok [OF keeps_acquire(1) a(1)] keeps_Ok [OF keeps_acquire(2) a(3)] .
  have b: "log_outstanding b = ?o \<and> lh_n b = lh_n s"
    using a(2) A(1) by (auto dest!: keeps_Ok [OF keeps_wakeup] simp: log_view_def split: if_splits)
  have "log_outstanding t = ?o \<and> 0 \<le> lh_n t \<and> lh_n t \<le> lh_n s"
  proof (cases "?o = 0")
    case True
    have o: "log_outstanding a - 1 = 0" using True A by (simp add: log_view_def)
    from a(4) [unfolded o] obtain d e f where d: "commit c = Ok ((), d)" "acquire Log_lock d = Ok ((), e)"
      "wakeup (Some Chan_log) (e\<lparr>log_committing := False\<rparr>) = Ok ((), f)" "release Log_lock f = Ok ((), t)"
      by (auto elim!: kbind_OkE)
    then show ?thesis
      using commit_view [OF d(1)] keeps_Ok [OF keeps_acquire(1) d(2)] keeps_Ok [OF keeps_wakeup d(3)] keeps_Ok [OF keeps_acquire(2) d(4)]
        b A(2) assms(2) by (cases "0 < lh_n s") (auto simp: log_view_def)
  next
    case False
    then show ?thesis using a(4) A b assms(2) by (auto simp: log_view_def)
  qed
  then show "log_outstanding t = log_outstanding s - 1" "0 \<le> lh_n t" "lh_n t \<le> lh_n s" by auto
qed


section \<open>Runs\<close>

text \<open>
  A step of the machine: an operation starts, one that has blocks left logs a buffer, one ends, or something else
  happens that does not touch the log's bookkeeping. The list has, for every running operation, the number of
  blocks it may still log.
\<close>

inductive log_step :: "'z klog_scheme \<times> nat list \<Rightarrow> 'z klog_scheme \<times> nat list \<Rightarrow> bool" where
  op_begin: "begin_op s = Ok ((), t) \<Longrightarrow> log_step (s, rem) (t, nat MAXOPBLOCKS # rem)"
| op_write: "log_write b s = Ok ((), t) \<Longrightarrow> i < length rem \<Longrightarrow> 0 < rem ! i \<Longrightarrow> log_step (s, rem) (t, rem[i := rem ! i - 1])"
| op_end: "end_op s = Ok ((), t) \<Longrightarrow> i < length rem \<Longrightarrow> log_step (s, rem) (t, take i rem @ drop (Suc i) rem)"
| elsewhere: "log_view t = log_view s \<Longrightarrow> log_step (s, rem) (t, rem)"

definition log_run :: "'z klog_scheme \<times> nat list \<Rightarrow> 'z klog_scheme \<times> nat list \<Rightarrow> bool" where
  "log_run = log_step\<^sup>*\<^sup>*"

definition log_space :: "'z klog_scheme \<times> nat list \<Rightarrow> bool" where
  "log_space c \<longleftrightarrow> (case c of (s, rem) \<Rightarrow> 0 \<le> lh_n s \<and> log_outstanding s = int (length rem) \<and> (\<forall>r\<in>set rem. r \<le> nat MAXOPBLOCKS)
     \<and> lh_n s + int (sum_list rem) \<le> int LOGBLOCKS)"

lemma sum_list_bound: "\<forall>r\<in>set rem. r \<le> k \<Longrightarrow> sum_list rem \<le> length rem * (k :: nat)"
  by (induction rem) auto

lemma sum_list_dec: "i < length rem \<Longrightarrow> 0 < rem ! i \<Longrightarrow> Suc (sum_list (rem[i := rem ! i - 1])) = sum_list (rem :: nat list)"
  by (induction rem arbitrary: i) (auto simp: nth_Cons split: nat.splits)

lemma sum_list_drop: "sum_list (take i rem @ drop (Suc i) rem) \<le> sum_list (rem :: nat list)"
proof (induction rem arbitrary: i)
  case (Cons r rem)
  show ?case using Cons.IH [of "i - 1"] by (cases i) auto
qed simp

lemma log_space_step: "log_step c c' \<Longrightarrow> log_space c \<Longrightarrow> log_space c'"
proof (induction rule: log_step.induct)
  case (op_begin s t rem)
  have "int (sum_list rem) \<le> 10 * int (length rem)" using op_begin(2) sum_list_bound [of rem 10] by (auto simp: log_space_def)
  then show ?case using op_begin(2) begin_op_view [OF op_begin(1)] by (auto simp: log_space_def log_view_def)
next
  case (op_write b s t i rem)
  have "int (sum_list (rem[i := rem ! i - 1])) + 1 = int (sum_list rem)" using sum_list_dec [OF op_write(2,3)] by linarith
  moreover have "\<forall>r\<in>set (rem[i := rem ! i - 1]). r \<le> nat MAXOPBLOCKS"
  proof -
    have "rem ! i \<le> nat MAXOPBLOCKS" using op_write(2,4) by (simp add: log_space_def)
    then show ?thesis using op_write(4) set_update_subset_insert [of rem i "rem ! i - 1"] by (fastforce simp: log_space_def)
  qed
  ultimately show ?case using op_write(4) log_write_view [OF op_write(1)] by (auto simp: log_space_def)
next
  case (op_end s t i rem)
  have "set (take i rem @ drop (Suc i) rem) \<subseteq> set rem" using set_take_subset set_drop_subset by fastforce
  then show ?case
    using op_end(2,3) end_op_view [OF op_end(1)] sum_list_drop [of i rem] by (auto simp: log_space_def)
next
  case (elsewhere t s rem)
  then show ?case by (auto simp: log_space_def log_view_def)
qed

lemma log_space_run: "log_run c c' \<Longrightarrow> log_space c \<Longrightarrow> log_space c'"
  unfolding log_run_def by (induction rule: rtranclp_induct) (auto intro: log_space_step)


lemma with_lock_log [simp]:
  "lh_n (with_lock lk s) = lh_n s" "lh_block (with_lock lk s) = lh_block s" "log_outstanding (with_lock lk s) = log_outstanding s"
  "lh_n_update f (with_lock lk s) = with_lock lk (lh_n_update f s)" "lh_block_update g (with_lock lk s) = with_lock lk (lh_block_update g s)"
  "calm (lh_n_update f s) = calm s" "calm (lh_block_update g s) = calm s"
  "avail l (lh_n_update f s) = avail l s" "avail l (lh_block_update g s) = avail l s"
  by (simp_all add: with_lock_def pushed_off_def calm_def avail_def)

lemma log_write_Ok:
  assumes "at_rest p s" and "lh_n s < 30" and "1 \<le> log_outstanding s"
  shows "\<exists>t. log_write b s = Ok ((), t)"
  using at_restD [OF assms(1)] assms(2,3)
  by (simp add: log_write_def bpin_def bset_def bget_field_def acquire_calm release_with_lock Let_def)


lemma begin_op_apply:
  assumes "at_rest p s" and "\<not> log_committing s" and "lh_n s + (log_outstanding s + 1) * 10 \<le> 30"
  shows "begin_op s = Ok ((), s\<lparr>log_outstanding := log_outstanding s + 1\<rparr>)"
proof -
  have "(with_lock Log_lock s)\<lparr>log_outstanding := x\<rparr> = with_lock Log_lock (s\<lparr>log_outstanding := x\<rparr>)" for x
    by (simp add: with_lock_def pushed_off_def)
  moreover have "calm (s\<lparr>log_outstanding := x\<rparr>) = calm s" "avail Log_lock (s\<lparr>log_outstanding := x\<rparr>) = avail Log_lock s" for x
    by (simp_all add: calm_def avail_def)
  moreover have "log_committing (with_lock Log_lock s) = log_committing s" by (simp add: with_lock_def pushed_off_def)
  ultimately show ?thesis using at_restD [OF assms(1)] assms(2,3) by (simp add: begin_op_def acquire_calm release_with_lock)
qed



section \<open>A full cache\<close>

lemma bread_full:
  assumes "cache_ok p d H P s" and "{..<NBUF} \<subseteq> H \<union> P" and "\<And>b. b < NBUF \<Longrightarrow> blockno (bufs s b) \<noteq> n"
  shows "bread d n s = Panic ''bget: no buffers''"
proof -
  note C = cache_okD [OF assms(1)] and R = at_restD [OF cache_okD(1) [OF assms(1)]]
  obtain ls where ls: "ring_ok (bufs s) ls" using C(2) by blast
  let ?s = "with_lock Bcache_lock s"
  have "refcnt (bufs s b) \<noteq> 0" if "b < NBUF" for b using that C(5) [OF that] assms(2) by (auto simp: buf_ok_def)
  then have "find (\<lambda>b. refcnt (bufs s b) = 0) (rev ls) = None" "find (\<lambda>b. dev (bufs s b) = d \<and> blockno (bufs s b) = n) ls = None"
    using ls assms(3) by (auto simp: find_None_iff ring_ok_def)
  then have "find_cached NBUF d n (nextb (bufs s HEAD)) ?s = Ok (None, ?s)" "find_unused_buf NBUF (prev (bufs s HEAD)) ?s = Ok (None, ?s)"
    using find_ring [of ?s ls] ls by simp_all
  then show ?thesis using R by (simp add: bread_def bget_def acquire_calm)
qed

text \<open>
  C27: a transaction that fills the buffer cache cannot be committed. \<open>LOGBLOCKS\<close> equals \<open>NBUF\<close>, so a transaction may
  pin all thirty buffers; with no buffer left for the blocks of the log itself, \<open>commit\<close> panics in \<open>bget\<close>.
\<close>

theorem commit_full_cache_panics:
  fixes s :: "'z klog_scheme"
  assumes "cache_ok p d {} {..<NBUF} s" and "log_dev s = d" and "0 < lh_n s" and "\<And>b. b < NBUF \<Longrightarrow> blockno (bufs s b) \<noteq> log_start s + 1"
  shows "commit s = Panic ''bget: no buffers''"
proof -
  have u: "[0..<nat (lh_n s)] = 0 # [1..<nat (lh_n s)]" using assms(3) by (simp add: upt_conv_Cons)
  have "bread d (log_start s + 1) s = Panic ''bget: no buffers''" by (rule bread_full [OF assms(1)]) (use assms(4) in auto)
  then have "write_log_block 0 s = Panic ''bget: no buffers''" using assms(2) by (simp add: write_log_block_def)
  then have "write_log s = Panic ''bget: no buffers''" using u by (simp add: write_log_def)
  then show ?thesis using assms(3) by (simp add: commit_def)
qed

definition full_txn :: klog where
  "full_txn = (empty_log (\<lambda>_ _. 0))\<lparr>bufs := (\<lambda>b. (fresh_bufs b)\<lparr>valid := True, dev := 1, blockno := of_nat (50 + b), refcnt := 1\<rparr>),
     lh_n := 30, lh_block := (\<lambda>i. of_nat (50 + i))\<rparr>"

theorem commit_full_cache_panics_witness: "commit full_txn = Panic ''bget: no buffers''"
proof -
  have f: "bufs full_txn = (\<lambda>b. (fresh_bufs b)\<lparr>valid := True, dev := 1, blockno := of_nat (50 + b), refcnt := 1\<rparr>)"
    "log_dev full_txn = 1" "lh_n full_txn = 30" "log_start full_txn = 2" "\<And>l. \<not> slocked (slocks full_txn l)"
    by (simp_all add: full_txn_def empty_log_fields)
  have "at_rest 0 full_txn" using empty_log_fields(1) [of "\<lambda>_ _. 0"] by (simp add: full_txn_def at_rest_def calm_def avail_def cur_def)
  moreover have "\<exists>ls. ring_ok (bufs full_txn) ls" by (rule ring_ok_links [OF fresh_ring]) (auto simp: f)
  ultimately have "cache_ok 0 1 {} {..<30} full_txn" using log_index_inj(1)
    by (auto simp: cache_ok_def buf_ok_def f)
  moreover have "(50 :: uint) + of_nat b \<noteq> 3" if "b < 30" for b
  proof
    assume "(50 :: uint) + of_nat b = 3"
    then have "(of_nat (50 + b) :: uint) = of_nat 3" by simp
    then show False using that by (simp only: word_of_nat_eq_iff) (simp add: take_bit_nat_eq_self)
  qed
  ultimately show ?thesis using commit_full_cache_panics [of 0 1 full_txn] f by simp
qed

end
