(* ===== verification/Fs_Facts.thy ===== *)
theory Fs_Facts
  imports Fs Log_Space
begin

text \<open>
  Files on top of the buffer cache: where the bytes of a file are (\<open>file_addr\<close>, \<open>file_byte\<close>), what \<open>bmap\<close>, \<open>readi\<close>
  and \<open>writei\<close> do to them for the blocks that a file already has, and the codes of inodes and directory
  entries.
\<close>

unbundle bit_operations_syntax

section \<open>Codes\<close>

lemma load16_store16_same [simp]: "load16 (store16 x i v) i = v"
proof (rule bit_word_eqI)
  fix n
  assume "n < LENGTH(16)"
  then have n: "n < 16" by simp
  consider "n < 8" | "8 \<le> n" "n < 16" using n by linarith
  then show "bit (load16 (store16 x i v) i) n = bit v n"
    by cases (use n in \<open>auto simp: load16_def store16_def bit_simps\<close>)
qed

lemma load16_store_other [simp]:
  "i + 2 \<le> j \<or> j + 2 \<le> i \<Longrightarrow> load16 (store16 x j v) i = load16 x i"
  "i + 2 \<le> j \<or> j + 4 \<le> i \<Longrightarrow> load16 (store32 x j w) i = load16 x i"
  "i + 4 \<le> j \<or> j + 2 \<le> i \<Longrightarrow> load32 (store16 x j v) i = load32 x i"
  by (auto simp: load16_def store16_def load32_def store32_def)

lemma fold_addrs_load16:
  "i + 2 \<le> j \<Longrightarrow> load16 (fold (\<lambda>k y. store32 y (j + 4 * k) (f k)) [0..<n] x) i = load16 x i"
  by (induction n) auto

lemma fold_addrs_load32:
  "i + 4 \<le> j \<Longrightarrow> load32 (fold (\<lambda>k y. store32 y (j + 4 * k) (f k)) [0..<n] x) i = load32 x i"
  "k < n \<Longrightarrow> load32 (fold (\<lambda>k y. store32 y (j + 4 * k) (f k)) [0..<n] x) (j + 4 * k) = f k"
  by (induction n) (auto simp: less_Suc_eq)

lemma fold_addrs_other:
  "i < j \<or> j + 4 * n \<le> i \<Longrightarrow> fold (\<lambda>k y. store32 y (j + 4 * k) (f k)) [0..<n] x i = x i"
  by (induction n) (auto simp: store32_def)

text \<open>The disk's copy of the fields of an inode: \<open>put_dinode\<close> and \<open>get_dinode\<close> are inverse, and a slot is not touched by its neighbours.\<close>

lemma get_put_dinode:
  "get_dinode (put_dinode ip dip x) dip ip' = ip'\<lparr>itype := itype ip, imajor := imajor ip, iminor := iminor ip, nlink := nlink ip,
     isize := isize ip, iaddrs := (\<lambda>i. if i < 12 then iaddrs ip i else iaddrs ip' i)\<rparr>"
  unfolding put_dinode_def get_dinode_def
  by (auto simp: fold_addrs_load16 [where j = "dip + 12"] fold_addrs_load32 [where j = "dip + 12"] fun_eq_iff)

lemma put_dinode_other: "j < dip \<or> dip + 60 \<le> j \<Longrightarrow> put_dinode ip dip x j = x j"
  unfolding put_dinode_def by (subst fold_addrs_other [where j = "dip + 12"]) (auto simp: store16_def store32_def)

lemma dirent_roundtrip:
  assumes "length name \<le> 14" and "0 \<notin> set name"
  shows "de_inum (mk_dirent n name) = n" "length (mk_dirent n name) = 16" "takeWhile (\<lambda>c. c \<noteq> 0) (de_name (mk_dirent n name)) = name"
proof -
  show "de_inum (mk_dirent n name) = n"
    by (rule bit_word_eqI) (auto simp: de_inum_def mk_dirent_def bit_simps)
  show "length (mk_dirent n name) = 16" by (simp add: mk_dirent_def)
  have "takeWhile (\<lambda>c. c \<noteq> 0) (name @ replicate m 0) = name" for m
    using assms(2) by (subst takeWhile_append2) auto
  then have "takeWhile (\<lambda>c. c \<noteq> 0) (take 14 (name @ replicate 14 0)) = name" using assms(1) by (simp add: min_def)
  then show "takeWhile (\<lambda>c. c \<noteq> 0) (de_name (mk_dirent n name)) = name" by (simp add: de_name_def mk_dirent_def)
qed


section \<open>Where the bytes of a file are\<close>

lemma touches_fs:
  fixes s :: "'z kfs_scheme"
  shows "touches s t \<Longrightarrow> sb t = sb s \<and> inodes t = inodes s"
  by (auto simp: touches_def)

lemma with_lock_fs [simp]:
  "sb (with_lock lk s) = sb s" "inodes (with_lock lk s) = inodes s" "inodes_update f (with_lock lk s) = with_lock lk (inodes_update f s)"
  "calm (inodes_update f s) = calm s" "avail l (inodes_update f s) = avail l s"
  by (simp_all add: with_lock_def pushed_off_def calm_def avail_def)

text \<open>The block of an inode that holds block \<open>k\<close> of the file, through the direct addresses and the indirect block.\<close>

definition file_addr :: "'z kfs_scheme \<Rightarrow> nat \<Rightarrow> nat \<Rightarrow> uint" where
  "file_addr s ip k = (if k < NDIRECT then iaddrs (inodes s ip) k
     else load32 (blk (idev (inodes s ip)) s (iaddrs (inodes s ip) NDIRECT)) (4 * (k - NDIRECT)))"

definition file_byte :: "'z kfs_scheme \<Rightarrow> nat \<Rightarrow> nat \<Rightarrow> byte" where
  "file_byte s ip i = blk (idev (inodes s ip)) s (file_addr s ip (i div BSIZE)) (i mod BSIZE)"

text \<open>Block \<open>k\<close> of the file is allocated.\<close>

definition has_block :: "'z kfs_scheme \<Rightarrow> nat \<Rightarrow> nat \<Rightarrow> bool" where
  "has_block s ip k \<longleftrightarrow> k < NDIRECT + NINDIRECT \<and> (NDIRECT \<le> k \<longrightarrow> iaddrs (inodes s ip) NDIRECT \<noteq> 0) \<and> file_addr s ip k \<noteq> 0"

text \<open>A block read and released again: the buffer holds the block, and nothing has changed.\<close>

definition same_blocks :: "nat \<Rightarrow> uint \<Rightarrow> nat set \<Rightarrow> 'z kbio_scheme \<Rightarrow> 'z kbio_scheme \<Rightarrow> bool" where
  "same_blocks p d P s t \<longleftrightarrow> cache_ok p d {} P t \<and> touches s t \<and> blk d t = blk d s \<and> disk t = disk s \<and> disk_writes t = disk_writes s
     \<and> (\<forall>c\<in>P. blockno (bufs t c) = blockno (bufs s c))"

lemma same_blocks_refl: "cache_ok p d {} P s \<Longrightarrow> same_blocks p d P s s"
  by (simp add: same_blocks_def touches_refl)

lemma same_blocks_trans: "same_blocks p d P s t \<Longrightarrow> same_blocks p d P t u \<Longrightarrow> same_blocks p d P s u"
  unfolding same_blocks_def by (auto intro: touches_trans)

lemma read_release:
  assumes "cache_ok p d {} P s" and "\<exists>b<NBUF. b \<notin> P"
  obtains b t u where "bread d n s = Ok (b, t)" "bdata (bufs t b) = blk d s n" "cache_ok p d {b} P t" "touches s t"
    "brelse b t = Ok ((), u)" "same_blocks p d P s u"
proof -
  obtain b t where 1: "bread d n s = Ok (b, t)" "touches s t" "cache_ok p d {b} P t" "blockno (bufs t b) = n"
    "disk t = disk s" "disk_writes t = disk_writes s" "blk d t = blk d s" "\<forall>c\<in>P. blockno (bufs t c) = blockno (bufs s c)"
    "b \<in> P \<longleftrightarrow> (\<exists>c\<in>P. blockno (bufs s c) = n)"
    by (rule bread_spec [OF assms(1), of n]) (use assms(2) in auto)
  have x: "bdata (bufs t b) = blk d s n" using cache_ok_held(5) [OF 1(3), of b] 1(4,7) by simp
  have "b \<in> P \<or> bdata (bufs t b) = disk t (blockno (bufs t b))"
    using blk_clean [OF assms(1), of n] x 1(4,5,9) by auto
  then obtain u where 2: "brelse b t = Ok ((), u)" "cache_ok p d ({b} - {b}) P u" "touches t u" "blk d u = blk d t"
    "disk u = disk t" "disk_writes u = disk_writes t" "\<forall>c. blockno (bufs u c) = blockno (bufs t c)"
    by (rule brelse_spec [OF 1(3), of b, OF singletonI])
  then show ?thesis using that [OF 1(1) x 1(3,2) 2(1)] 1(5-8) touches_trans [OF 1(2) 2(3)] by (simp add: same_blocks_def)
qed

lemma bmap_spec:
  fixes s :: "'z kfs_scheme"
  assumes "cache_ok p (idev (inodes s ip)) {} P s" and "\<exists>b<NBUF. b \<notin> P" and "has_block s ip (unat bn)"
  obtains t where "bmap ip bn s = Ok (file_addr s ip (unat bn), t)" "same_blocks p (idev (inodes s ip)) P s t"
proof (cases "unat bn < NDIRECT")
  case True
  then have "bmap ip bn s = Ok (file_addr s ip (unat bn), s)"
    using assms(3) by (simp add: bmap_def bmap_root_def iaddr_def iget_field_def has_block_def file_addr_def)
  then show ?thesis using that same_blocks_refl [OF assms(1)] by blast
next
  case False
  let ?d = "idev (inodes s ip)" and ?a = "iaddrs (inodes s ip) NDIRECT"
  have n: "unat (bn - 11) = unat bn - 11" "unat bn - 11 < 256" "?a \<noteq> 0" "load32 (blk ?d s ?a) (4 * (unat bn - 11)) \<noteq> 0"
    using False assms(3) by (auto simp: has_block_def file_addr_def unat_sub word_le_nat_alt)
  obtain b t u where t: "bread ?d ?a s = Ok (b, t)" "bdata (bufs t b) = blk ?d s ?a" "brelse b t = Ok ((), u)"
    "same_blocks p ?d P s u" using read_release [OF assms(1,2)] by metis
  have "bmap ip bn s = Ok (file_addr s ip (unat bn), u)"
    using False n t(1-3)
    by (simp add: bmap_def bmap_root_def iaddr_def iget_field_def file_addr_def Let_def bmap_entry_def)
  then show ?thesis using that t(4) by blast
qed

lemma same_blocks_file:
  fixes s :: "'z kfs_scheme"
  assumes "same_blocks p (idev (inodes s ip)) P s t"
  shows "file_addr t ip = file_addr s ip" "has_block t ip = has_block s ip" "file_byte t ip = file_byte s ip" "inodes t = inodes s"
proof -
  have t: "inodes t = inodes s" "blk (idev (inodes s ip)) t = blk (idev (inodes s ip)) s"
    using assms touches_fs by (auto simp: same_blocks_def)
  show a: "file_addr t ip = file_addr s ip" by (rule ext) (simp add: file_addr_def t)
  show "has_block t ip = has_block s ip" "file_byte t ip = file_byte s ip" by (rule ext, simp add: has_block_def file_byte_def t a)+
  show "inodes t = inodes s" by (rule t)
qed


section \<open>Reading\<close>

lemma same_block:
  assumes "(a :: nat) mod 1024 + j < 1024"
  shows "(a + j) mod 1024 = a mod 1024 + j" "(a + j) div 1024 = a div 1024"
proof -
  have "a + j = (a mod 1024 + j) + (a div 1024) * 1024" by simp
  then show "(a + j) mod 1024 = a mod 1024 + j" "(a + j) div 1024 = a div 1024"
    using assms by (metis mod_less mod_mult_self1, metis add.right_neutral add_cancel_left_left div_less div_mult_self1 zero_neq_numeral)
qed

lemma block_of_file:
  fixes off :: uint
  assumes "unat (off mod 1024) + m \<le> BSIZE"
  shows "block_bytes (blk (idev (inodes s ip)) s (file_addr s ip (unat (off div 1024)))) (unat (off mod 1024)) m
     = map (file_byte s ip) [unat off..<unat off + m]"
proof (rule nth_equalityI)
  show "length (block_bytes (blk (idev (inodes s ip)) s (file_addr s ip (unat (off div 1024)))) (unat (off mod 1024)) m)
     = length (map (file_byte s ip) [unat off..<unat off + m])" by (simp add: block_bytes_def)
next
  fix j
  assume "j < length (block_bytes (blk (idev (inodes s ip)) s (file_addr s ip (unat (off div 1024)))) (unat (off mod 1024)) m)"
  then have j: "j < m" by (simp add: block_bytes_def)
  have u: "unat (off mod 1024) = unat off mod 1024" "unat (off div 1024) = unat off div 1024" by (simp_all add: unat_mod unat_div)
  have "(unat off + j) mod 1024 = unat off mod 1024 + j" "(unat off + j) div 1024 = unat off div 1024"
    using same_block [of "unat off" j] assms j u by simp_all
  then show "block_bytes (blk (idev (inodes s ip)) s (file_addr s ip (unat (off div 1024)))) (unat (off mod 1024)) m ! j
     = map (file_byte s ip) [unat off..<unat off + m] ! j" using j u by (simp add: block_bytes_def file_byte_def)
qed


text \<open>Every byte of the range of \<open>n\<close> bytes from \<open>a\<close> on is in a block of the file.\<close>

definition range_ok :: "'z kfs_scheme \<Rightarrow> nat \<Rightarrow> nat \<Rightarrow> nat \<Rightarrow> bool" where
  "range_ok s ip a n \<longleftrightarrow> (\<forall>i<n. has_block s ip ((a + i) div BSIZE))"

lemma range_ok_later: "range_ok s ip a n \<Longrightarrow> m \<le> n \<Longrightarrow> range_ok s ip (a + m) (n - m)"
  by (auto simp: range_ok_def add.assoc dest: spec [of _ "m + _"])

lemma round_facts:
  fixes off :: uint
  assumes "tot < n" and "unat off + (n - tot) < 2 ^ 32"
  defines "m \<equiv> min (n - tot) (BSIZE - unat (off mod 1024))"
  shows "0 < m" "m \<le> n - tot" "unat (off + of_nat m) = unat off + m" "unat (off mod 1024) + m \<le> BSIZE"
proof -
  have l: "unat (off mod 1024) < 1024" by (simp add: unat_mod)
  then show 0: "0 < m" "m \<le> n - tot" "unat (off mod 1024) + m \<le> BSIZE" using assms(1) by (auto simp: m_def)
  have "unat (of_nat m :: uint) = m" using 0 assms(2) by (simp add: unat_of_nat)
  then show "unat (off + of_nat m) = unat off + m" using 0 assms(2) by (simp add: unat_add_lem [THEN iffD1])
qed

lemma either_copyout_kernel: "at_rest p s \<Longrightarrow> either_copyout (Kernel_buf x) bs s = Ok (0, s)"
  by (simp add: either_copyout_def curproc_calm at_restD)

text \<open>One round of \<open>readi\<close>: the address of the block, the block read, the buffer released.\<close>

lemma read_file_block:
  fixes s :: "'z kfs_scheme"
  defines "d \<equiv> \<lambda>ip. idev (inodes s ip)" and "a \<equiv> \<lambda>ip off. file_addr s ip (unat off div BSIZE)"
  assumes "cache_ok p (d ip) {} P s" and "\<exists>b<NBUF. b \<notin> P" and "has_block s ip (unat off div BSIZE)"
  obtains b s1 s2 t where "bmap ip (off div 1024) s = Ok (a ip off, s1)" "a ip off \<noteq> 0" "inodes s1 = inodes s"
    "bread (d ip) (a ip off) s1 = Ok (b, s2)" "bdata (bufs s2 b) = blk (d ip) s (a ip off)" "cache_ok p (d ip) {b} P s2"
    "brelse b s2 = Ok ((), t)" "same_blocks p (d ip) P s t"
proof -
  have o: "unat off div BSIZE = unat (off div 1024)" by (simp add: unat_div)
  obtain s1 where 1: "bmap ip (off div 1024) s = Ok (a ip off, s1)" "same_blocks p (d ip) P s s1"
    using bmap_spec [OF assms(3-5) [unfolded d_def o]] unfolding a_def d_def o by metis
  have c1: "cache_ok p (d ip) {} P s1" "blk (d ip) s1 = blk (d ip) s" "inodes s1 = inodes s"
    using 1(2) same_blocks_file(4) [of p s ip P s1] by (auto simp: same_blocks_def d_def)
  obtain b s2 t where 2: "bread (d ip) (a ip off) s1 = Ok (b, s2)" "bdata (bufs s2 b) = blk (d ip) s1 (a ip off)" "cache_ok p (d ip) {b} P s2"
    "touches s1 s2" "brelse b s2 = Ok ((), t)" "same_blocks p (d ip) P s1 t"
    by (rule read_release [OF c1(1) assms(4)])
  show ?thesis
    using that [OF 1(1) _ c1(3) 2(1) _ 2(3,5)] 2(2) c1(2) assms(5) same_blocks_trans [OF 1(2) 2(6)] by (simp add: a_def has_block_def)
qed

lemma readi_loop_spec:
  fixes s :: "'z kfs_scheme"
  assumes "cache_ok p (idev (inodes s ip)) {} P s" and "\<exists>b<NBUF. b \<notin> P" and "tot \<le> n" and "unat off + (n - tot) < 2 ^ 32"
    and "range_ok s ip (unat off) (n - tot)"
  shows "\<exists>t. readi_loop ip (Kernel_buf k) off n tot got s = Ok ((int n, got @ map (file_byte s ip) [unat off..<unat off + (n - tot)]), t)
     \<and> same_blocks p (idev (inodes s ip)) P s t"
  using assms
proof (induction "n - tot" arbitrary: tot off got k s rule: less_induct)
  case less
  let ?d = "idev (inodes s ip)"
  show ?case
  proof (cases "tot < n")
    case False
    then show ?thesis using less.prems(1,3) by (subst readi_loop.simps) (auto intro: same_blocks_refl)
  next
    case True
    define m where "m = min (n - tot) (BSIZE - unat (off mod 1024))"
    note R = round_facts [OF True less.prems(4), folded m_def]
    let ?a = "file_addr s ip (unat off div BSIZE)" and ?got = "got @ map (file_byte s ip) [unat off..<unat off + m]"
    have "has_block s ip ((unat off + 0) div BSIZE)" using less.prems(5) True unfolding range_ok_def by (metis zero_less_diff)
    then obtain b s1 s2 s3 where 2: "bmap ip (off div 1024) s = Ok (?a, s1)" "?a \<noteq> 0" "inodes s1 = inodes s" "bread ?d ?a s1 = Ok (b, s2)"
      "bdata (bufs s2 b) = blk ?d s ?a" "cache_ok p ?d {b} P s2" "brelse b s2 = Ok ((), s3)" and 3: "same_blocks p ?d P s s3"
      using read_file_block [OF less.prems(1,2), of off] by (metis add_0_right)
    note F3 = same_blocks_file [OF 3]
    have c3: "cache_ok p (idev (inodes s3 ip)) {} P s3" using 3 F3(4) by (simp add: same_blocks_def)
    have r: "range_ok s3 ip (unat (off + of_nat m)) (n - (tot + m))"
      using range_ok_later [OF less.prems(5) R(2)] F3(2) R(3) by (simp add: range_ok_def)
    have l: "n - (tot + m) < n - tot" "tot + m \<le> n" "unat (off + of_nat m) + (n - (tot + m)) < 2 ^ 32"
      using R(1-3) True less.prems(4) by linarith+
    have j: "map (file_byte s ip) [unat off..<unat off + (n - tot)]
        = map (file_byte s ip) [unat off..<unat off + m] @ map (file_byte s3 ip) [unat (off + of_nat m)..<unat (off + of_nat m) + (n - (tot + m))]"
    proof -
      have "unat off + (n - tot) = unat off + m + (n - (tot + m))" using R(2) by simp
      then show ?thesis
        using upt_add_eq_append [of "unat off" "unat off + m" "n - (tot + m)"] unfolding R(3) F3(3) by (metis map_append le_add1)
    qed
    obtain t where t: "readi_loop ip (Kernel_buf (drop m k)) (off + of_nat m) n (tot + m) ?got s3
        = Ok ((int n, got @ map (file_byte s ip) [unat off..<unat off + (n - tot)]), t)" "same_blocks p (idev (inodes s3 ip)) P s3 t"
      using less.hyps [OF l(1) c3 less.prems(2) l(2,3) r, of "drop m k" ?got] unfolding j append_assoc by blast
    have bs: "block_bytes (bdata (bufs s2 b)) (unat (off mod 1024)) m = map (file_byte s ip) [unat off..<unat off + m]"
      using block_of_file [OF R(4), of s ip] 2(5) by (simp add: unat_div)
    have "readi_loop ip (Kernel_buf k) off n tot got s = Ok ((int n, got @ map (file_byte s ip) [unat off..<unat off + (n - tot)]), t)"
      using True 2(1-4,7) t(1) bs either_copyout_kernel [OF cache_okD(1) [OF 2(6)]]
      by (subst readi_loop.simps) (simp add: m_def [symmetric] iget_field_def buf_plus_def)
    then show ?thesis using same_blocks_trans [OF 3] t(2) F3(4) by auto
  qed
qed


lemma readi_spec:
  fixes s :: "'z kfs_scheme" and off n :: uint
  assumes "cache_ok p (idev (inodes s ip)) {} P s" and "\<exists>b<NBUF. b \<notin> P" and "range_ok s ip 0 (unat (isize (inodes s ip)))"
  defines "m \<equiv> if off \<le> isize (inodes s ip) \<and> unat off + unat n < 2 ^ 32 then min (unat n) (unat (isize (inodes s ip)) - unat off) else 0"
  shows "\<exists>t. readi ip (Kernel_buf k) off n s = Ok ((int m, map (file_byte s ip) [unat off..<unat off + m]), t)
     \<and> same_blocks p (idev (inodes s ip)) P s t"
proof -
  let ?sz = "isize (inodes s ip)"
  have w: "off + n < off \<longleftrightarrow> \<not> unat off + unat n < 2 ^ 32"
    using no_olen_add_nat [of off n] by (auto simp: not_le)
  show ?thesis
  proof (cases "off \<le> ?sz \<and> unat off + unat n < 2 ^ 32")
    case False
    then have "readi ip (Kernel_buf k) off n s = Ok ((0, []), s)" using w by (auto simp: readi_def iget_field_def)
    then show ?thesis using False same_blocks_refl [OF assms(1)] by (auto simp: m_def)
  next
    case True
    let ?n = "if off + n > ?sz then ?sz - off else n"
    have a: "unat (off + n) = unat off + unat n" using True by (simp add: unat_add_lem [THEN iffD1])
    have n: "unat ?n = m" using True a by (auto simp: m_def unat_sub word_less_nat_alt word_le_nat_alt)
    have l: "unat off + (m - 0) < 2 ^ 32" "unat off + m \<le> unat ?sz" "0 \<le> m"
      using True by (auto simp: m_def word_le_nat_alt)
    have r: "range_ok s ip (unat off) (m - 0)"
      using assms(3) l(2) unfolding range_ok_def by (metis add_0 add_less_le_mono diff_zero nat_add_left_cancel_less order_less_le_trans)
    have "readi ip (Kernel_buf k) off n s = readi_loop ip (Kernel_buf k) off m 0 [] s"
      using True w n by (simp add: readi_def iget_field_def Let_def leD)
    then show ?thesis using readi_loop_spec [OF assms(1,2) l(3,1) r, of k "[]"] by simp
  qed
qed


section \<open>Logged changes of blocks\<close>

text \<open>A running transaction: the pinned buffers are those that the header of the log names, each once.\<close>

definition txn_open :: "nat \<Rightarrow> uint \<Rightarrow> nat set \<Rightarrow> nat set \<Rightarrow> 'z klog_scheme \<Rightarrow> bool" where
  "txn_open p d H P s \<longleftrightarrow> cache_ok p d H P s \<and> 0 \<le> lh_n s \<and> lh_n s \<le> int LOGBLOCKS \<and> 1 \<le> log_outstanding s
     \<and> inj_on (lh_block s) {..<nat (lh_n s)} \<and> (\<lambda>c. blockno (bufs s c)) ` P = lh_block s ` {..<nat (lh_n s)}"

text \<open>What an operation inside a transaction leaves alone: the disk, the log's place, the inodes in memory.\<close>

definition logged :: "'z kfs_scheme \<Rightarrow> 'z kfs_scheme \<Rightarrow> bool" where
  "logged s t \<longleftrightarrow> disk t = disk s \<and> disk_writes t = disk_writes s \<and> log_dev t = log_dev s \<and> log_start t = log_start s
     \<and> log_outstanding t = log_outstanding s \<and> sb t = sb s \<and> inodes t = inodes s \<and> lh_n s \<le> lh_n t"

lemma logged_refl: "logged s s"
  by (simp add: logged_def)

lemma logged_trans: "logged s t \<Longrightarrow> logged t u \<Longrightarrow> logged s u"
  by (simp add: logged_def)

lemma touches_logged:
  fixes s :: "'z kfs_scheme"
  assumes "touches s t" and "disk t = disk s" and "disk_writes t = disk_writes s"
  shows "logged s t" "lh_n t = lh_n s" "lh_block t = lh_block s"
  using touches_log [OF assms(1)] touches_fs [OF assms(1)] assms(2,3) by (simp_all add: logged_def)

lemma txn_open_touches:
  fixes s :: "'z kfs_scheme"
  assumes "txn_open p d H P s" and "touches s t" and "cache_ok p d H' P t" and "\<forall>c\<in>P. blockno (bufs t c) = blockno (bufs s c)"
  shows "txn_open p d H' P t"
proof -
  have "(\<lambda>c. blockno (bufs t c)) ` P = (\<lambda>c. blockno (bufs s c)) ` P" using assms(4) by auto
  then show ?thesis using assms(1,3) touches_log [OF assms(2)] by (simp add: txn_open_def)
qed

lemma txn_open_card: "txn_open p d H P s \<Longrightarrow> card P = nat (lh_n s)"
proof -
  assume T: "txn_open p d H P s"
  then have C: "cache_ok p d H P s" by (simp add: txn_open_def)
  have v: "c < NBUF \<and> dev (bufs s c) = d" if "c \<in> P" for c
    using that cache_okD(4,5) [OF C] by (auto simp: buf_ok_def)
  have "inj_on (\<lambda>c. blockno (bufs s c)) P"
    by (rule inj_onI) (use v cache_okD(6) [OF C] in blast)
  then have "card P = card (lh_block s ` {..<nat (lh_n s)})" using T by (metis txn_open_def card_image)
  then show ?thesis using T by (simp add: txn_open_def card_image)
qed

lemma txn_open_free: "txn_open p d {} P s \<Longrightarrow> lh_n s < 30 \<Longrightarrow> \<exists>b<NBUF. b \<notin> P"
proof (rule ccontr)
  assume T: "txn_open p d {} P s" and n: "lh_n s < 30" and "\<not> (\<exists>b<NBUF. b \<notin> P)"
  then have "{..<NBUF} \<subseteq> P" by auto
  moreover have "finite P" using T cache_okD(4) [of p d "{}" P s] finite_subset [of P "{..<NBUF}"] by (simp add: txn_open_def)
  ultimately have "card {..<NBUF} \<le> card P" by (rule card_mono [rotated])
  then show False using txn_open_card [OF T] n T by (simp add: txn_open_def)
qed

lemma log_index_spec:
  "log_index f b i k \<le> i + k" "log_index f b i k < i + k \<Longrightarrow> f (log_index f b i k) = b"
  "b \<notin> f ` {i..<i + k} \<Longrightarrow> log_index f b i k = i + k" "b \<in> f ` {i..<i + k} \<Longrightarrow> log_index f b i k < i + k"
proof (induction k arbitrary: i)
  case (Suc k)
  { case 1 show ?case using Suc.IH(1) [of "i + 1"] by auto }
  { case 2 then show ?case using Suc.IH(2) [of "i + 1"] by (auto split: if_splits) }
  have e: "{i..<i + Suc k} = insert i {i + 1..<i + 1 + k}" for i by auto
  { case 3 from 3 [unfolded e] show ?case using Suc.IH(3) [of "i + 1"] by auto }
  { case 4 from 4 [unfolded e] show ?case using Suc.IH(4) [of "i + 1"] by auto }
qed auto


lemma log_write_apply:
  fixes b :: nat
  assumes "at_rest p s" and "lh_n s < 30" and "1 \<le> log_outstanding s"
  defines "n \<equiv> blockno (bufs s b)"
  defines "i \<equiv> log_index (lh_block s) n 0 (nat (lh_n s))"
  shows "log_write b s = Ok ((), (if int i = lh_n s
     then s\<lparr>lh_block := (lh_block s)(i := n), bufs := (bufs s)(b := (bufs s b)\<lparr>refcnt := refcnt (bufs s b) + 1\<rparr>), lh_n := lh_n s + 1\<rparr>
     else s\<lparr>lh_block := (lh_block s)(i := n)\<rparr>))"
  using at_restD [OF assms(1)] assms(2,3)
  by (simp add: log_write_def bpin_def acquire_calm release_with_lock Let_def i_def n_def)

lemma pinned_iff:
  assumes "cache_ok p d H P s" and "b \<in> H"
  shows "blockno (bufs s b) \<in> (\<lambda>c. blockno (bufs s c)) ` P \<longleftrightarrow> b \<in> P"
proof
  assume "blockno (bufs s b) \<in> (\<lambda>c. blockno (bufs s c)) ` P"
  then obtain c where c: "c \<in> P" "blockno (bufs s b) = blockno (bufs s c)" by auto
  have "c < NBUF" "dev (bufs s c) = d" using c(1) cache_okD(4,5) [OF assms(1)] by (auto simp: buf_ok_def)
  then have "b = c" using cache_okD(6) [OF assms(1)] cache_ok_held(2,4) [OF assms] c(2) by metis
  then show "b \<in> P" using c(1) by simp
qed simp

lemma log_write_spec:
  fixes s :: "'z kfs_scheme"
  assumes "txn_open p d H P s" and "b \<in> H" and "lh_n s < 30"
  obtains t where "log_write b s = Ok ((), t)" "txn_open p d H (insert b P) t" "logged s t" "blk d t = blk d s" "lh_n t \<le> lh_n s + 1"
    "\<forall>c. blockno (bufs t c) = blockno (bufs s c)"
proof -
  let ?n = "blockno (bufs s b)" and ?k = "nat (lh_n s)"
  let ?i = "log_index (lh_block s) ?n 0 ?k"
  have s: "cache_ok p d H P s" "0 \<le> lh_n s" "1 \<le> log_outstanding s" "inj_on (lh_block s) {..<?k}"
    "(\<lambda>c. blockno (bufs s c)) ` P = lh_block s ` {..<?k}" using assms(1) by (auto simp: txn_open_def)
  note W = log_write_apply [OF cache_okD(1) [OF s(1)] assms(3) s(3), of b] and I = log_index_spec [where f = "lh_block s" and b = ?n and i = 0 and k = ?k]
  have mem: "?n \<in> lh_block s ` {0..<0 + ?k} \<longleftrightarrow> b \<in> P"
    using pinned_iff [OF s(1) assms(2)] unfolding s(5) by (simp add: lessThan_atLeast0)
  show ?thesis
  proof (cases "b \<in> P")
    case True
    then have i: "?i < ?k" "lh_block s ?i = ?n" using I(2,4) mem by auto
    then have "log_write b s = Ok ((), s)" using W s(2) by (auto simp: fun_upd_idem)
    then show ?thesis using that assms(1) True by (simp add: insert_absorb logged_refl)
  next
    case False
    then have i: "int ?i = lh_n s" using I(3) mem s(2) by auto
    let ?u = "s\<lparr>lh_block := (lh_block s)(?k := ?n)\<rparr>" 
    let ?t = "?u\<lparr>bufs := (bufs s)(b := (bufs s b)\<lparr>refcnt := refcnt (bufs s b) + 1\<rparr>)\<rparr>"
    obtain t where t: "(if True then bpin b else bunpin b) ?u = Ok ((), t)" "cache_ok p d H (insert b P) t" "touches ?u t" "blk d t = blk d ?u"
      "disk t = disk ?u" "disk_writes t = disk_writes ?u" "\<forall>c. blockno (bufs t c) = blockno (bufs ?u c)"
      by (rule pin_spec [of p d H P ?u b "insert b P" True]) (use s(1) assms(2) False in \<open>simp_all add: cache_ok_lh\<close>)
    have u: "at_rest p ?u" using cache_okD(1) [OF s(1)] by (simp add: at_rest_def calm_def avail_def cur_def)
    then have "t = ?t" using t(1) bpin_apply(1) [OF u, of b] by simp
    moreover have "?i = ?k" using i by simp
    ultimately have w: "log_write b s = Ok ((), t\<lparr>lh_n := lh_n s + 1\<rparr>)" using W i by simp
    have e: "{..<nat (lh_n s + 1)} = insert ?k {..<?k}" using s(2) by auto
    have "inj_on ((lh_block s)(?k := ?n)) {..<nat (lh_n s + 1)}"
      unfolding e using s(4) mem False by (force simp: inj_on_def image_iff)
    moreover have "(\<lambda>c. blockno (bufs t c)) ` insert b P = ((lh_block s)(?k := ?n)) ` {..<nat (lh_n s + 1)}"
      unfolding e using s(5) t(7) by auto
    ultimately have "txn_open p d H (insert b P) (t\<lparr>lh_n := lh_n s + 1\<rparr>)"
      using t(2) s assms(3) \<open>t = ?t\<close> by (simp add: txn_open_def cache_ok_lh)
    moreover have "logged s (t\<lparr>lh_n := lh_n s + 1\<rparr>)" using \<open>t = ?t\<close> by (simp add: logged_def)
    ultimately show ?thesis using that [OF w] t(4,7) by (simp add: blk_lh)
  qed
qed


text \<open>A block changed inside a transaction: read, modified, logged and released, as \<open>bzero\<close>, \<open>iupdate\<close> and the others do.\<close>

lemma log_release:
  fixes s :: "'z kfs_scheme"
  assumes "txn_open p d {b} P s" and "lh_n s < 30"
  obtains t u where "log_write b s = Ok ((), t)" "brelse b t = Ok ((), u)" "txn_open p d {} (insert b P) u" "logged s u" "blk d u = blk d s"
    "lh_n u \<le> lh_n s + 1"
proof -
  obtain t where 1: "log_write b s = Ok ((), t)" "txn_open p d {b} (insert b P) t" "logged s t" "blk d t = blk d s" "lh_n t \<le> lh_n s + 1"
    "\<forall>c. blockno (bufs t c) = blockno (bufs s c)" by (rule log_write_spec [OF assms(1) singletonI assms(2)])
  have c: "cache_ok p d {b} (insert b P) t" using 1(2) by (simp add: txn_open_def)
  obtain u where 2: "brelse b t = Ok ((), u)" "cache_ok p d ({b} - {b}) (insert b P) u" "touches t u" "blk d u = blk d t"
    "disk u = disk t" "disk_writes u = disk_writes t" "\<forall>c. blockno (bufs u c) = blockno (bufs t c)"
    by (rule brelse_spec [OF c, of b]) auto
  note T = touches_logged [OF 2(3,5,6)]
  have "txn_open p d {} (insert b P) u" by (rule txn_open_touches [OF 1(2) 2(3)]) (use 2(2,7) in auto)
  then show ?thesis using that [OF 1(1) 2(1)] logged_trans [OF 1(3) T(1)] 1(4,5) 2(4) T(2) by simp
qed

lemma read_txn:
  fixes s :: "'z kfs_scheme"
  assumes "txn_open p d {} P s" and "lh_n s < 30"
  obtains b t where "bread d n s = Ok (b, t)" "txn_open p d {b} P t" "logged s t" "blk d t = blk d s" "lh_n t = lh_n s"
    "blockno (bufs t b) = n" "bdata (bufs t b) = blk d s n" "touches s t"
proof -
  have c: "cache_ok p d {} P s" using assms(1) by (simp add: txn_open_def)
  obtain b t where 1: "bread d n s = Ok (b, t)" "touches s t" "cache_ok p d {b} P t" "blockno (bufs t b) = n"
    "disk t = disk s" "disk_writes t = disk_writes s" "blk d t = blk d s" "\<forall>c\<in>P. blockno (bufs t c) = blockno (bufs s c)"
    by (rule bread_spec [OF c, of n]) (use txn_open_free [OF assms] in auto)
  have "txn_open p d {b} P t" by (rule txn_open_touches [OF assms(1) 1(2,3,8)])
  moreover have "bdata (bufs t b) = blk d s n" using cache_ok_held(5) [OF 1(3), of b] 1(4,7) by simp
  ultimately show ?thesis using that [OF 1(1)] touches_logged [OF 1(2,5,6)] 1(2,4,7) by blast
qed

lemma set_data_txn:
  fixes s :: "'z kfs_scheme" and x :: block
  assumes "txn_open p d {b} P s"
  defines "u \<equiv> s\<lparr>bufs := (bufs s)(b := (bufs s b)\<lparr>bdata := x\<rparr>)\<rparr>"
  shows "txn_open p d {b} P u" "logged s u" "blk d u = (blk d s)(blockno (bufs s b) := x)" "lh_n u = lh_n s"
proof -
  have c: "cache_ok p d {b} P s" using assms(1) by (simp add: txn_open_def)
  note U = bset_data_spec [OF c singletonI, of x, folded u_def]
  show "txn_open p d {b} P u" by (rule txn_open_touches [OF assms(1) U(3,1)]) (simp add: U(6))
  show "logged s u" "blk d u = (blk d s)(blockno (bufs s b) := x)" "lh_n u = lh_n s"
    using touches_logged [OF U(3,4,5)] U(2) by simp_all
qed

lemma modify_block:
  fixes s :: "'z kfs_scheme" and g :: "block \<Rightarrow> block"
  assumes "txn_open p d {} P s" and "lh_n s < 30"
  obtains t P' where "kbind (bread d n) (\<lambda>b. kbind (bset b (\<lambda>x. x\<lparr>bdata := g (bdata x)\<rparr>)) (\<lambda>_. kbind (log_write b) (\<lambda>_. brelse b))) s
      = Ok ((), t)" "txn_open p d {} P' t" "logged s t" "blk d t = (blk d s)(n := g (blk d s n))" "lh_n t \<le> lh_n s + 1"
proof -
  obtain b s1 where 1: "bread d n s = Ok (b, s1)" "txn_open p d {b} P s1" "logged s s1" "blk d s1 = blk d s" "lh_n s1 = lh_n s"
    "blockno (bufs s1 b) = n" "bdata (bufs s1 b) = blk d s n" "touches s s1" by (rule read_txn [OF assms, of n])
  let ?u = "s1\<lparr>bufs := (bufs s1)(b := (bufs s1 b)\<lparr>bdata := g (blk d s n)\<rparr>)\<rparr>"
  note U = set_data_txn [OF 1(2), of "g (blk d s n)"]
  have "lh_n ?u < 30" using U(4) 1(5) assms(2) by simp
  then obtain t u where 2: "log_write b ?u = Ok ((), t)" "brelse b t = Ok ((), u)" "txn_open p d {} (insert b P) u" "logged ?u u"
    "blk d u = blk d ?u" "lh_n u \<le> lh_n ?u + 1" by (rule log_release [OF U(1)])
  show ?thesis
    using that [of u, OF _ 2(3)] 1(1,4-7) 2(1,2,5,6) U(3) logged_trans [OF 1(3) logged_trans [OF U(2) 2(4)]] by simp
qed


section \<open>Writing\<close>

lemma either_copyin_kernel: "at_rest p s \<Longrightarrow> m \<le> length k \<Longrightarrow> either_copyin_to (Kernel_buf k) m s = Ok ((0, take m k), s)"
  by (simp add: either_copyin_to_def curproc_calm at_restD)

text \<open>The blocks of the file are different blocks, also from its indirect block.\<close>

definition file_blocks :: "'z kfs_scheme \<Rightarrow> nat \<Rightarrow> uint set" where
  "file_blocks s ip = file_addr s ip ` {k. has_block s ip k}"

definition file_inj :: "'z kfs_scheme \<Rightarrow> nat \<Rightarrow> bool" where
  "file_inj s ip \<longleftrightarrow> inj_on (file_addr s ip) {k. has_block s ip k} \<and> (iaddrs (inodes s ip) NDIRECT \<noteq> 0 \<longrightarrow> iaddrs (inodes s ip) NDIRECT \<notin> file_blocks s ip)"

text \<open>
  The bytes \<open>k\<close> are written from byte \<open>a\<close> of the file on: the blocks of the file are the same, no other byte of it has changed,
  and no block outside of it.
\<close>

definition file_wrote :: "'z kfs_scheme \<Rightarrow> 'z kfs_scheme \<Rightarrow> nat \<Rightarrow> nat \<Rightarrow> byte list \<Rightarrow> bool" where
  "file_wrote s t ip a k \<longleftrightarrow> inodes t = inodes s \<and> (\<forall>j. has_block t ip j = has_block s ip j)
     \<and> (\<forall>j. has_block s ip j \<longrightarrow> file_addr t ip j = file_addr s ip j)
     \<and> (\<forall>i. has_block s ip (i div BSIZE) \<longrightarrow> file_byte t ip i = (if a \<le> i \<and> i < a + length k then k ! (i - a) else file_byte s ip i))
     \<and> (\<forall>m. m \<notin> file_blocks s ip \<longrightarrow> blk (idev (inodes s ip)) t m = blk (idev (inodes s ip)) s m)"

lemma file_wrote_blocks:
  assumes "file_wrote s t ip a k"
  shows "file_blocks t ip = file_blocks s ip" "file_inj t ip = file_inj s ip" "range_ok t ip = range_ok s ip"
proof -
  have a: "\<And>j. has_block t ip j = has_block s ip j" "\<And>j. has_block s ip j \<Longrightarrow> file_addr t ip j = file_addr s ip j" "inodes t = inodes s"
    using assms by (auto simp: file_wrote_def)
  show b: "file_blocks t ip = file_blocks s ip" using a(1,2) by (auto simp: file_blocks_def)
  show "file_inj t ip = file_inj s ip" unfolding file_inj_def b a(3) using a(1,2) by (simp add: inj_on_def)
  show "range_ok t ip = range_ok s ip" using a(1) by (simp add: range_ok_def fun_eq_iff)
qed

lemma file_wrote_trans:
  assumes "file_wrote s t ip a k" and "file_wrote t u ip (a + length k) l"
  shows "file_wrote s u ip a (k @ l)"
proof -
  have i: "inodes t = inodes s" using assms(1) by (simp add: file_wrote_def)
  have "file_byte u ip j = (if a \<le> j \<and> j < a + length (k @ l) then (k @ l) ! (j - a) else file_byte s ip j)" if h: "has_block s ip (j div BSIZE)" for j
  proof -
    have "has_block t ip (j div BSIZE)" using h assms(1) by (simp add: file_wrote_def)
    then have "file_byte u ip j = (if a + length k \<le> j \<and> j < a + length k + length l then l ! (j - (a + length k)) else file_byte t ip j)"
      "file_byte t ip j = (if a \<le> j \<and> j < a + length k then k ! (j - a) else file_byte s ip j)"
      using h assms unfolding file_wrote_def by blast+
    then show ?thesis by (auto simp: nth_append)
  qed
  then show ?thesis using assms file_wrote_blocks(1) [OF assms(1)] i unfolding file_wrote_def by simp
qed

lemma file_wrote_refl: "file_wrote s s ip a []"
  by (auto simp: file_wrote_def)

lemma block_write:
  fixes s :: "'z kfs_scheme" and off :: uint
  assumes "file_inj s ip" and "has_block s ip (unat off div BSIZE)" and "inodes t = inodes s" and "unat (off mod 1024) + length k \<le> BSIZE"
    and "blk (idev (inodes s ip)) t = (blk (idev (inodes s ip)) s)(file_addr s ip (unat off div BSIZE) :=
       put_bytes (blk (idev (inodes s ip)) s (file_addr s ip (unat off div BSIZE))) (unat (off mod 1024)) k)"
  shows "file_wrote s t ip (unat off) k"
proof -
  let ?j = "unat off div BSIZE" and ?o = "unat off mod BSIZE"
  have o: "unat (off mod 1024) = ?o" by (simp add: unat_mod)
  have j: "file_addr s ip ?j \<in> file_blocks s ip" using assms(2) by (auto simp: file_blocks_def)
  have a: "file_addr t ip k = file_addr s ip k" if "NDIRECT \<le> k \<longrightarrow> iaddrs (inodes s ip) NDIRECT \<noteq> 0" for k
    using that assms(1,3,5) j by (auto simp: file_addr_def file_inj_def)
  then have h: "has_block t ip k = has_block s ip k" for k using assms(3) by (auto simp: has_block_def)
  have "file_byte t ip i = (if unat off \<le> i \<and> i < unat off + length k then k ! (i - unat off) else file_byte s ip i)" if "has_block s ip (i div BSIZE)" for i
  proof -
    have e: "file_addr s ip (i div BSIZE) = file_addr s ip ?j \<longleftrightarrow> i div BSIZE = ?j"
      using assms(1,2) that by (auto simp: file_inj_def inj_on_def)
    have "file_addr t ip (i div BSIZE) = file_addr s ip (i div BSIZE)" using that by (intro a) (auto simp: has_block_def)
    then have b: "file_byte t ip i = (if i div BSIZE = ?j then put_bytes (blk (idev (inodes s ip)) s (file_addr s ip ?j)) ?o k (i mod BSIZE) else file_byte s ip i)"
      using e assms(3,5) o by (simp add: file_byte_def)
    show ?thesis
    proof (cases "i div BSIZE = ?j")
      case True
      have "i = ?j * BSIZE + i mod BSIZE" "unat off = ?j * BSIZE + ?o" using True div_mult_mod_eq [of i BSIZE] by simp_all
      then have "unat off \<le> i \<longleftrightarrow> ?o \<le> i mod BSIZE" "i - unat off = i mod BSIZE - ?o" "i < unat off + length k \<longleftrightarrow> i mod BSIZE < ?o + length k" by linarith+
      then show ?thesis using True b by (simp add: put_bytes_def file_byte_def)
    next
      case False
      have "i div BSIZE = ?j" if "unat off \<le> i" "i < unat off + length k"
      proof -
        have "?o + (i - unat off) < 1024" using that assms(4) o by linarith
        then show ?thesis using same_block(2) [of "unat off" "i - unat off"] that(1) by simp
      qed
      then show ?thesis using False b by auto
    qed
  qed
  moreover have "\<forall>m. m \<notin> file_blocks s ip \<longrightarrow> blk (idev (inodes s ip)) t m = blk (idev (inodes s ip)) s m" using j assms(5) by auto
  ultimately show ?thesis using assms(3) h a by (auto simp: file_wrote_def has_block_def)
qed

lemma write_file_block:
  fixes s :: "'z kfs_scheme" and off :: uint and bs :: "byte list"
  defines "d \<equiv> \<lambda>ip. idev (inodes s ip)" and "a \<equiv> \<lambda>ip. file_addr s ip (unat off div BSIZE)"
  assumes "txn_open p (d ip) {} P s" and "lh_n s < 30" and "has_block s ip (unat off div BSIZE)"
  obtains b s1 s2 s3 t where "bmap ip (off div 1024) s = Ok (a ip, s1)" "a ip \<noteq> 0" "inodes s1 = inodes s" "bread (d ip) (a ip) s1 = Ok (b, s2)"
    "at_rest p s2" "log_write b (s2\<lparr>bufs := (bufs s2)(b := (bufs s2 b)\<lparr>bdata := put_bytes (bdata (bufs s2 b)) (unat (off mod 1024)) bs\<rparr>)\<rparr>) = Ok ((), s3)"
    "brelse b s3 = Ok ((), t)" "txn_open p (d ip) {} (insert b P) t" "logged s t"
    "blk (d ip) t = (blk (d ip) s)(a ip := put_bytes (blk (d ip) s (a ip)) (unat (off mod 1024)) bs)" "lh_n t \<le> lh_n s + 1"
proof -
  have c: "cache_ok p (d ip) {} P s" using assms(3) by (simp add: txn_open_def)
  have o: "unat off div BSIZE = unat (off div 1024)" by (simp add: unat_div)
  obtain s1 where 1: "bmap ip (off div 1024) s = Ok (a ip, s1)" "same_blocks p (d ip) P s s1"
    using bmap_spec [OF c [unfolded d_def] txn_open_free [OF assms(3,4)] assms(5) [unfolded o]] unfolding a_def d_def o by metis
  have s1: "txn_open p (d ip) {} P s1" "logged s s1" "lh_n s1 = lh_n s" "inodes s1 = inodes s" "blk (d ip) s1 = blk (d ip) s"
    using 1(2) txn_open_touches [OF assms(3)] touches_logged [of s s1] same_blocks_file(4) [of p s ip P s1] by (auto simp: same_blocks_def d_def)
  have l: "lh_n s1 < 30" using s1(3) assms(4) by simp
  obtain b s2 where 2: "bread (d ip) (a ip) s1 = Ok (b, s2)" "txn_open p (d ip) {b} P s2" "logged s1 s2" "blk (d ip) s2 = blk (d ip) s1"
    "lh_n s2 = lh_n s1" "blockno (bufs s2 b) = a ip" "bdata (bufs s2 b) = blk (d ip) s1 (a ip)" "touches s1 s2" by (rule read_txn [OF s1(1) l])
  let ?x = "put_bytes (bdata (bufs s2 b)) (unat (off mod 1024)) bs"
  note U = set_data_txn [OF 2(2), of ?x]
  let ?u = "s2\<lparr>bufs := (bufs s2)(b := (bufs s2 b)\<lparr>bdata := ?x\<rparr>)\<rparr>"
  have "lh_n ?u < 30" using U(4) 2(5) l by simp
  then obtain s3 t where 3: "log_write b ?u = Ok ((), s3)" "brelse b s3 = Ok ((), t)" "txn_open p (d ip) {} (insert b P) t" "logged ?u t"
    "blk (d ip) t = blk (d ip) ?u" "lh_n t \<le> lh_n ?u + 1" by (rule log_release [OF U(1)])
  have "at_rest p s2" using 2(2) cache_okD(1) by (auto simp: txn_open_def)
  then show ?thesis
    using that [OF 1(1) _ s1(4) 2(1) _ 3(1,2,3)] logged_trans [OF s1(2) logged_trans [OF 2(3) logged_trans [OF U(2) 3(4)]]]
      3(5,6) U(3,4) 2(4-7) s1(3,5) assms(5) by (simp add: a_def has_block_def)
qed


text \<open>The number of blocks that \<open>n\<close> bytes from \<open>off\<close> on reach into.\<close>

definition rounds :: "nat \<Rightarrow> nat \<Rightarrow> nat" where
  "rounds off n = (if n = 0 then 0 else (off mod BSIZE + n + 1023) div BSIZE)"

lemma rounds_step:
  assumes "0 < n" and "m = min n (BSIZE - off mod BSIZE)"
  shows "rounds off n = Suc (rounds (off + m) (n - m))"
proof (cases "n \<le> BSIZE - off mod BSIZE")
  case True
  then have "m = n" "off mod BSIZE + n \<le> BSIZE" using assms(2) mod_less_divisor [of BSIZE off] by (auto simp: min_def)
  moreover have "(off mod BSIZE + n + 1023) div BSIZE = 1" using assms(1) calculation(2) by (intro div_nat_eqI) auto
  ultimately show ?thesis using assms(1) by (simp add: rounds_def)
next
  case False
  then have m: "m = BSIZE - off mod BSIZE" "off mod BSIZE < BSIZE" using assms(2) by (auto simp: min_def)
  have "off mod BSIZE + m = BSIZE" using m by simp
  then have "off + m = off div BSIZE * BSIZE + BSIZE" using div_mult_mod_eq [of off BSIZE] by (metis add.assoc)
  then have z: "(off + m) mod BSIZE = 0" by simp
  have "off mod BSIZE + n + 1023 = (n - m + 1023) + BSIZE" using m False by simp
  then have "(off mod BSIZE + n + 1023) div BSIZE = Suc ((n - m + 1023) div BSIZE)" by simp
  moreover have "n - m \<noteq> 0" using False m by simp
  ultimately show ?thesis using z assms(1) unfolding rounds_def by simp
qed

lemma writei_loop_spec:
  fixes s :: "'z kfs_scheme"
  assumes "txn_open p (idev (inodes s ip)) {} P s" and "file_inj s ip" and "tot \<le> n" and "unat off + (n - tot) < 2 ^ 32"
    and "range_ok s ip (unat off) (n - tot)" and "length k = n - tot" and "lh_n s + int (rounds (unat off) (n - tot)) \<le> 30"
  shows "\<exists>t P'. writei_loop ip (Kernel_buf k) off n tot s = Ok ((off + of_nat (n - tot), n), t) \<and> txn_open p (idev (inodes s ip)) {} P' t
     \<and> logged s t \<and> file_wrote s t ip (unat off) k \<and> lh_n t \<le> lh_n s + int (rounds (unat off) (n - tot))"
  using assms
proof (induction "n - tot" arbitrary: tot off k s P rule: less_induct)
  case less
  let ?d = "idev (inodes s ip)"
  show ?case
  proof (cases "tot < n")
    case False
    then show ?thesis using less.prems by (subst writei_loop.simps) (auto simp: logged_refl file_wrote_refl)
  next
    case True
    define m where "m = min (n - tot) (BSIZE - unat (off mod 1024))"
    note R = round_facts [OF True less.prems(4), folded m_def]
    have rd: "rounds (unat off) (n - tot) = Suc (rounds (unat off + m) (n - tot - m))"
      using True by (intro rounds_step) (simp_all add: m_def unat_mod)
    have l: "lh_n s < 30" using less.prems(7) rd by simp
    let ?a = "file_addr s ip (unat off div BSIZE)"
    have h: "has_block s ip (unat off div BSIZE)" using less.prems(5) True unfolding range_ok_def by (metis add_0_right zero_less_diff)
    obtain b s1 s2 s3 u where 1: "bmap ip (off div 1024) s = Ok (?a, s1)" "?a \<noteq> 0" "inodes s1 = inodes s" "bread ?d ?a s1 = Ok (b, s2)"
      "at_rest p s2" "log_write b (s2\<lparr>bufs := (bufs s2)(b := (bufs s2 b)\<lparr>bdata := put_bytes (bdata (bufs s2 b)) (unat (off mod 1024)) (take m k)\<rparr>)\<rparr>) = Ok ((), s3)"
      "brelse b s3 = Ok ((), u)" and u: "txn_open p ?d {} (insert b P) u" "logged s u"
      "blk ?d u = (blk ?d s)(?a := put_bytes (blk ?d s ?a) (unat (off mod 1024)) (take m k))" "lh_n u \<le> lh_n s + 1"
      by (rule write_file_block [OF less.prems(1) l h])
    have i: "inodes u = inodes s" using u(2) by (simp add: logged_def)
    have lk: "length (take m k) = m" using R(2) less.prems(6) by simp
    have w: "file_wrote s u ip (unat off) (take m k)" by (rule block_write [OF less.prems(2) h i _ u(3)]) (unfold lk, rule R(4))
    note B = file_wrote_blocks [OF w]
    have c: "n - (tot + m) < n - tot" "tot + m \<le> n" "unat (off + of_nat m) + (n - (tot + m)) < 2 ^ 32" "n - tot - m = n - (tot + m)"
      using R(1-3) True less.prems(4) by linarith+
    have p: "txn_open p (idev (inodes u ip)) {} (insert b P) u" "file_inj u ip" "range_ok u ip (unat (off + of_nat m)) (n - (tot + m))"
      "length (drop m k) = n - (tot + m)" "lh_n u + int (rounds (unat (off + of_nat m)) (n - (tot + m))) \<le> 30"
      using u(1,4) i B less.prems(2,6,7) range_ok_later [OF less.prems(5) R(2)] R(3) rd c(4) by simp_all
    obtain t P' where t: "writei_loop ip (Kernel_buf (drop m k)) (off + of_nat m) n (tot + m) u = Ok ((off + of_nat m + of_nat (n - (tot + m)), n), t)"
      "txn_open p (idev (inodes u ip)) {} P' t" "logged u t" "file_wrote u t ip (unat (off + of_nat m)) (drop m k)"
      "lh_n t \<le> lh_n u + int (rounds (unat (off + of_nat m)) (n - (tot + m)))"
      using less.hyps [OF c(1) p(1,2) c(2,3) p(3,4,5)] by blast
    have o: "off + of_nat m + of_nat (n - (tot + m)) = off + of_nat (n - tot)" using R(2) c(4) by (metis add.assoc le_add_diff_inverse of_nat_add)
    have "writei_loop ip (Kernel_buf k) off n tot s = Ok ((off + of_nat (n - tot), n), t)"
    proof -
      have "either_copyin_to (Kernel_buf k) m s2 = Ok ((0, take m k), s2)" using R(2) less.prems(6) by (intro either_copyin_kernel [OF 1(5)]) simp
      then show ?thesis using True 1(1-4,6,7) t(1) unfolding o
        by (subst writei_loop.simps) (simp add: m_def [symmetric] iget_field_def buf_plus_def)
    qed
    moreover have "file_wrote s t ip (unat off) k" using file_wrote_trans [OF w, of t "drop m k"] t(4) R(3) unfolding lk append_take_drop_id by simp
    ultimately show ?thesis using t(2,5) i logged_trans [OF u(2) t(3)] u(4) rd R(3) c(4) by auto
  qed
qed


lemma txn_open_inodes:
  fixes s :: "'z kfs_scheme"
  shows "txn_open p d H P (s\<lparr>inodes := f\<rparr>) = txn_open p d H P s" "blk d (s\<lparr>inodes := f\<rparr>) = blk d s"
proof -
  show "blk d (s\<lparr>inodes := f\<rparr>) = blk d s" by (rule ext) (simp add: blk_def split: option.splits)
  show "txn_open p d H P (s\<lparr>inodes := f\<rparr>) = txn_open p d H P s"
    by (simp add: txn_open_def cache_ok_def buf_ok_def at_rest_def calm_def avail_def cur_def)
qed

text \<open>The inode written to its block inside the transaction.\<close>

lemma iupdate_spec:
  fixes s :: "'z kfs_scheme"
  assumes "txn_open p (idev (inodes s ip)) {} P s" and "lh_n s < 30"
  defines "n \<equiv> IBLOCK (inum (inodes s ip)) (sb s)" and "off \<equiv> dinode_off (inum (inodes s ip))"
  obtains t P' where "iupdate ip s = Ok ((), t)" "txn_open p (idev (inodes s ip)) {} P' t" "logged s t"
    "blk (idev (inodes s ip)) t = (blk (idev (inodes s ip)) s)(n := put_dinode (inodes s ip) off (blk (idev (inodes s ip)) s n))" "lh_n t \<le> lh_n s + 1"
proof -
  let ?m = "kbind (bread (idev (inodes s ip)) n) (\<lambda>b. kbind (bset b (\<lambda>x. x\<lparr>bdata := put_dinode (inodes s ip) off (bdata x)\<rparr>))
      (\<lambda>_. kbind (log_write b) (\<lambda>_. brelse b))) s"
  have e: "iupdate ip s = ?m" by (simp add: iupdate_def iget_field_def n_def off_def)
  obtain t P' where "?m = Ok ((), t)" "txn_open p (idev (inodes s ip)) {} P' t" "logged s t"
    "blk (idev (inodes s ip)) t = (blk (idev (inodes s ip)) s)(n := put_dinode (inodes s ip) off (blk (idev (inodes s ip)) s n))" "lh_n t \<le> lh_n s + 1"
    by (rule modify_block [OF assms(1,2), where n = n and g = "put_dinode (inodes s ip) off"])
  then show ?thesis using that e by simp
qed

text \<open>The inode's block is no block of the file.\<close>

definition inode_apart :: "'z kfs_scheme \<Rightarrow> nat \<Rightarrow> bool" where
  "inode_apart s ip \<longleftrightarrow> IBLOCK (inum (inodes s ip)) (sb s) \<notin> insert (iaddrs (inodes s ip) NDIRECT) (file_blocks s ip)"

text \<open>A change of a block that does not belong to the file, and of fields of the inode other than its device and addresses.\<close>

lemma file_elsewhere:
  fixes s :: "'z kfs_scheme"
  assumes "idev (inodes t ip) = idev (inodes s ip)" and "iaddrs (inodes t ip) = iaddrs (inodes s ip)"
    and "\<And>m. m \<in> insert (iaddrs (inodes s ip) NDIRECT) (file_blocks s ip) \<Longrightarrow> blk (idev (inodes s ip)) t m = blk (idev (inodes s ip)) s m"
  shows "file_addr t ip = file_addr s ip" "has_block t ip = has_block s ip" "has_block s ip (i div BSIZE) \<Longrightarrow> file_byte t ip i = file_byte s ip i"
    "range_ok t ip = range_ok s ip"
proof -
  show a: "file_addr t ip = file_addr s ip" by (rule ext) (simp add: file_addr_def assms)
  show h: "has_block t ip = has_block s ip" by (rule ext) (simp add: has_block_def a assms(2))
  show "has_block s ip (i div BSIZE) \<Longrightarrow> file_byte t ip i = file_byte s ip i"
    using assms(1,3) a by (auto simp: file_byte_def file_blocks_def)
  show "range_ok t ip = range_ok s ip" by (simp add: range_ok_def fun_eq_iff h)
qed

lemma range_ok_bound:
  assumes "range_ok s ip a n"
  shows "n \<noteq> 0 \<Longrightarrow> a + n \<le> 267 * BSIZE"
proof -
  assume "n \<noteq> 0"
  then have "has_block s ip ((a + (n - 1)) div BSIZE)" using assms unfolding range_ok_def by (metis diff_less neq0_conv zero_less_one)
  then have "(a + (n - 1)) div BSIZE < 267" by (simp add: has_block_def)
  then show "a + n \<le> 267 * BSIZE" using \<open>n \<noteq> 0\<close> by (simp add: div_less_iff_less_mult)
qed


lemma writei_spec:
  fixes s :: "'z kfs_scheme" and off :: uint and k :: "byte list" and ip :: nat
  defines "d \<equiv> idev (inodes s ip)" and "l \<equiv> max (unat (isize (inodes s ip))) (unat off + length k)"
    and "n \<equiv> IBLOCK (inum (inodes s ip)) (sb s)" and "o' \<equiv> dinode_off (inum (inodes s ip))"
  assumes "txn_open p d {} P s" and "file_inj s ip" and "inode_apart s ip" and "off \<le> isize (inodes s ip)"
    and "range_ok s ip 0 l" and "lh_n s + int (rounds (unat off) (length k)) + 1 \<le> 30"
  obtains t P' where "writei ip (Kernel_buf k) off (of_nat (length k)) s = Ok (int (length k), t)" "txn_open p d {} P' t" "disk t = disk s"
    "inodes t = (inodes s)(ip := (inodes s ip)\<lparr>isize := of_nat l\<rparr>)" "sb t = sb s"
    "range_ok t ip = range_ok s ip" "lh_n t \<le> lh_n s + int (rounds (unat off) (length k)) + 1"
    "\<forall>i. has_block s ip (i div BSIZE) \<longrightarrow> file_byte t ip i = (if unat off \<le> i \<and> i < unat off + length k then k ! (i - unat off) else file_byte s ip i)"
    "get_dinode (blk d t n) o' (inodes t ip) = inodes t ip"
proof -
  let ?n = "length k" and ?ip = "(inodes s ip)\<lparr>isize := of_nat l\<rparr>"
  have b: "l \<le> 267 * BSIZE" using range_ok_bound [OF assms(9)] by (cases "l = 0") auto
  have n: "unat (of_nat ?n :: uint) = ?n" using b by (simp add: l_def unat_of_nat)
  have o: "unat (off + of_nat ?n) = unat off + ?n" using b n by (subst unat_add_lem [THEN iffD1]) (auto simp: l_def)
  have r: "range_ok s ip (unat off) (?n - 0)" using assms(9) unfolding range_ok_def l_def
    by (metis add_0 add_less_cancel_left diff_zero max.strict_coboundedI2)
  have q: "0 \<le> ?n" "unat off + (?n - 0) < 2 ^ 32" "?n = ?n - 0" "lh_n s + int (rounds (unat off) (?n - 0)) \<le> 30" using b assms(10) by (auto simp: l_def)
  obtain s1 P1 where 1: "writei_loop ip (Kernel_buf k) off ?n 0 s = Ok ((off + of_nat ?n, ?n), s1)" "txn_open p d {} P1 s1" "logged s s1"
    "file_wrote s s1 ip (unat off) k" "lh_n s1 \<le> lh_n s + int (rounds (unat off) ?n)"
    using writei_loop_spec [OF assms(5) [unfolded d_def] assms(6) q(1,2) r q(3,4)] unfolding d_def by auto
  have i1: "inodes s1 = inodes s" "sb s1 = sb s" "disk s1 = disk s" using 1(3) by (auto simp: logged_def)
  define u where "u = s1\<lparr>inodes := (inodes s)(ip := ?ip)\<rparr>"
  have u: "inodes u = (inodes s)(ip := ?ip)" "sb u = sb s" "blk d u = blk d s1" "lh_n u = lh_n s1" "disk u = disk s"
    using i1 by (simp_all add: u_def txn_open_inodes)
  have u1: "txn_open p (idev (inodes u ip)) {} P1 u" "lh_n u < 30" using 1(2,5) assms(10) by (simp_all add: u_def txn_open_inodes d_def)
  obtain t P' where 2: "iupdate ip u = Ok ((), t)" "txn_open p (idev (inodes u ip)) {} P' t" "logged u t"
    "blk (idev (inodes u ip)) t = (blk (idev (inodes u ip)) u)(IBLOCK (inum (inodes u ip)) (sb u) := put_dinode (inodes u ip)
       (dinode_off (inum (inodes u ip))) (blk (idev (inodes u ip)) u (IBLOCK (inum (inodes u ip)) (sb u))))" "lh_n t \<le> lh_n u + 1"
    by (rule iupdate_spec [OF u1])
  have ip: "idev (inodes u ip) = d" "IBLOCK (inum (inodes u ip)) (sb u) = n" "dinode_off (inum (inodes u ip)) = o'" "inodes u ip = ?ip"
    using u by (simp_all add: d_def n_def o'_def)
  note T = 2(2,4) [unfolded ip(1-3), unfolded u(3) ip(4)]
  have t: "inodes t = (inodes s)(ip := ?ip)" "sb t = sb s" "disk t = disk s" "lh_n t \<le> lh_n s + int (rounds (unat off) ?n) + 1"
    using 2(3,5) u 1(5) by (auto simp: logged_def)
  have w: "writei ip (Kernel_buf k) off (of_nat ?n) s = Ok (int ?n, t)"
  proof -
    let ?sz = "isize (inodes s ip)"
    have g: "\<not> off > ?sz" "\<not> off + of_nat ?n < off" "\<not> off + of_nat ?n > of_nat (MAXFILE * BSIZE)"
      using assms(8) b o by (auto simp: word_less_nat_alt word_le_nat_alt l_def)
    have "(if off + of_nat ?n > ?sz then iset ip (\<lambda>x. x\<lparr>isize := off + of_nat ?n\<rparr>) else kret ()) s1 = Ok ((), u)"
    proof (cases "off + of_nat ?n > ?sz")
      case True
      then have "l = unat off + ?n" using o by (auto simp: l_def word_less_nat_alt)
      then show ?thesis using True i1 by (simp add: iset_def u_def)
    next
      case False
      then have "l = unat ?sz" using o by (auto simp: l_def word_less_nat_alt)
      then show ?thesis using False i1(1) by (simp add: u_def fun_upd_idem)
    qed
    then show ?thesis using g 1(1) n i1(1) 2(1) by (simp add: writei_def iget_field_def)
  qed
  have e: "idev (inodes t ip) = idev (inodes s1 ip)" "iaddrs (inodes t ip) = iaddrs (inodes s1 ip)" using t(1) i1(1) by simp_all
  have apart: "blk (idev (inodes s1 ip)) t m = blk (idev (inodes s1 ip)) s1 m" if "m \<in> insert (iaddrs (inodes s1 ip) NDIRECT) (file_blocks s1 ip)" for m
    using that assms(7) T(2) i1(1) file_wrote_blocks(1) [OF 1(4)] by (auto simp: inode_apart_def d_def n_def)
  note E = file_elsewhere [OF e apart]
  have f: "has_block s ip (i div BSIZE) \<Longrightarrow> file_byte t ip i = (if unat off \<le> i \<and> i < unat off + ?n then k ! (i - unat off) else file_byte s ip i)" for i
    using 1(4) E(3) [of i] by (simp add: file_wrote_def)
  have "get_dinode (blk d t n) o' (inodes t ip) = inodes t ip" using T(2) t(1) by (simp add: get_put_dinode)
  then show ?thesis using that [OF w T(1) t(3,1,2) _ t(4)] E(4) file_wrote_blocks(3) [OF 1(4)] f by simp
qed


text \<open>
  C8: what \<open>writei\<close> writes, \<open>readi\<close> reads. Inside a transaction with room in the log, for a file whose blocks up to the end of
  the range are allocated in different direct or indirect blocks, \<open>writei\<close> at an offset within the file writes all
  the bytes and returns their number; the size is extended when the range ends behind it; every other byte of the
  file keeps its value; the copy of the inode in its block has the new fields; nothing has reached the disk yet;
  and \<open>readi\<close> of the range returns the bytes.
\<close>

theorem writei_readi_roundtrip:
  fixes s :: "'z kfs_scheme" and off :: uint and k :: "byte list" and ip :: nat
  assumes "txn_open p (idev (inodes s ip)) {} P s" and "file_inj s ip" and "inode_apart s ip" and "off \<le> isize (inodes s ip)"
    and "range_ok s ip 0 (max (unat (isize (inodes s ip))) (unat off + length k))" and "lh_n s + int (rounds (unat off) (length k)) + 1 < 30"
  shows "\<exists>t. writei ip (Kernel_buf k) off (of_nat (length k)) s = Ok (int (length k), t)
    \<and> unat (isize (inodes t ip)) = max (unat (isize (inodes s ip))) (unat off + length k)
    \<and> (\<forall>i<unat (isize (inodes s ip)). i < unat off \<or> unat off + length k \<le> i \<longrightarrow> file_byte t ip i = file_byte s ip i)
    \<and> get_dinode (blk (idev (inodes s ip)) t (IBLOCK (inum (inodes s ip)) (sb s))) (dinode_off (inum (inodes s ip))) (inodes t ip) = inodes t ip
    \<and> disk t = disk s \<and> (\<exists>u. readi ip (Kernel_buf []) off (of_nat (length k)) t = Ok ((int (length k), k), u))"
proof -
  let ?d = "idev (inodes s ip)" and ?n = "length k"
  let ?l = "max (unat (isize (inodes s ip))) (unat off + ?n)"
  have b: "?l \<le> 267 * BSIZE" using range_ok_bound [OF assms(5)] by (cases "?l = 0") auto
  have h: "has_block s ip (i div BSIZE)" if "i < ?l" for i using assms(5) that unfolding range_ok_def by simp
  have room: "lh_n s + int (rounds (unat off) ?n) + 1 \<le> 30" using assms(6) by simp
  obtain t P' where t: "writei ip (Kernel_buf k) off (of_nat ?n) s = Ok (int ?n, t)" "txn_open p ?d {} P' t" "disk t = disk s"
    "inodes t = (inodes s)(ip := (inodes s ip)\<lparr>isize := of_nat ?l\<rparr>)" "sb t = sb s" "range_ok t ip = range_ok s ip"
    "lh_n t \<le> lh_n s + int (rounds (unat off) ?n) + 1"
    "\<forall>i. has_block s ip (i div BSIZE) \<longrightarrow> file_byte t ip i = (if unat off \<le> i \<and> i < unat off + ?n then k ! (i - unat off) else file_byte s ip i)"
    "get_dinode (blk ?d t (IBLOCK (inum (inodes s ip)) (sb s))) (dinode_off (inum (inodes s ip))) (inodes t ip) = inodes t ip"
    by (rule writei_spec [OF assms(1-5) room])
  have l: "unat (isize (inodes t ip)) = ?l" "idev (inodes t ip) = ?d" using t(4) b by (simp_all add: unat_of_nat)
  have c: "cache_ok p (idev (inodes t ip)) {} P' t" using t(2) l(2) by (simp add: txn_open_def)
  have f: "\<exists>b<NBUF. b \<notin> P'" using txn_open_free [OF t(2)] t(7) assms(6) by simp
  have r: "range_ok t ip 0 (unat (isize (inodes t ip)))" using assms(5) t(6) l(1) by simp
  have n: "unat (of_nat ?n :: uint) = ?n" using b by (simp add: unat_of_nat)
  have m: "(if off \<le> isize (inodes t ip) \<and> unat off + unat (of_nat ?n :: uint) < 2 ^ 32 then min (unat (of_nat ?n :: uint)) (unat (isize (inodes t ip)) - unat off) else 0) = ?n"
    using l(1) n b by (auto simp: word_le_nat_alt)
  have "map (file_byte t ip) [unat off..<unat off + ?n] = k"
    by (rule nth_equalityI) (use t(8) h in auto)
  then have "\<exists>u. readi ip (Kernel_buf []) off (of_nat ?n) t = Ok ((int ?n, k), u)"
    using readi_spec [OF c f r, of "[]" off "of_nat ?n"] unfolding m by metis
  moreover have "file_byte t ip i = file_byte s ip i" if "i < unat (isize (inodes s ip))" "i < unat off \<or> unat off + ?n \<le> i" for i
    using t(8) h [of i] that by auto
  ultimately show ?thesis using t(1,3,9) l(1) by blast
qed

definition demo_fs :: kfs where
  "demo_fs = klog.extend ((empty_log (\<lambda>_ _. 0))\<lparr>log_outstanding := 1\<rparr>)
     \<lparr>sb = \<lparr>sb_magic = FSMAGIC, sb_size = 2000, sb_nblocks = 1954, sb_ninodes = 200, sb_nlog = 31, sb_logstart = 2, sb_inodestart = 33,
        sb_bmapstart = 46\<rparr>,
      inodes = (\<lambda>_. \<lparr>idev = 1, inum = 7, iref = 1, ivalid = True, itype = T_FILE, imajor = 0, iminor = 0, nlink = 1, isize = 1500,
        iaddrs = (\<lambda>i. if i < 2 then of_nat (60 + i) else 0)\<rparr>)\<rparr>"

lemma demo_fs_fields:
  "bufs demo_fs = fresh_bufs" "lh_n demo_fs = 0" "isize (inodes demo_fs ip) = 1500" "idev (inodes demo_fs ip) = 1"
  "iaddrs (inodes demo_fs ip) = (\<lambda>i. if i < 2 then of_nat (60 + i) else 0)" "IBLOCK (inum (inodes demo_fs ip)) (sb demo_fs) = 33"
  "txn_open 0 1 {} {} demo_fs"
proof -
  note E = demo_fs_def klog.extend_def empty_log_def quiet_disk_def kvirtio.extend_def kbio.extend_def fresh_cache_def kcons.extend_def
    quiet_console_def kuart.extend_def
  show b: "bufs demo_fs = fresh_bufs" "lh_n demo_fs = 0" "isize (inodes demo_fs ip) = 1500" "idev (inodes demo_fs ip) = 1"
    "iaddrs (inodes demo_fs ip) = (\<lambda>i. if i < 2 then of_nat (60 + i) else 0)" "IBLOCK (inum (inodes demo_fs ip)) (sb demo_fs) = 33"
    by (simp_all add: E IBLOCK_def)
  have "at_rest 0 demo_fs \<longleftrightarrow> at_rest 0 quiet_port" by (simp add: E at_rest_def calm_def avail_def cur_def)
  moreover have "\<not> slocked (slocks demo_fs l)" for l
    by (simp add: E quiet_port_def one_pipe_def no_shm_def empty_mboxes_def no_sleeplocks_def
      kpipes.extend_def kshm.extend_def kmbox.extend_def ksleep.extend_def kprocs.extend_def)
  moreover have "log_outstanding demo_fs = 1" by (simp add: E)
  ultimately show "txn_open 0 1 {} {} demo_fs"
    using fresh_ring b(1,2) by (auto simp: txn_open_def cache_ok_def buf_ok_def fresh_bufs_def)
qed


lemma demo_fs_blocks:
  "has_block demo_fs ip k \<longleftrightarrow> k < 2" "k < 2 \<Longrightarrow> file_addr demo_fs ip k = of_nat (60 + k)" "file_blocks demo_fs ip = {60, 61}"
proof -
  show a: "k < 2 \<Longrightarrow> file_addr demo_fs ip k = of_nat (60 + k)" for k by (simp add: file_addr_def demo_fs_fields)
  show h: "has_block demo_fs ip k \<longleftrightarrow> k < 2" for k
  proof -
    have "k < 2 \<longleftrightarrow> k = 0 \<or> k = 1" by auto
    then show ?thesis by (auto simp: has_block_def file_addr_def demo_fs_fields)
  qed
  have "{k. has_block demo_fs ip k} = {0, 1}" unfolding h by auto
  then show "file_blocks demo_fs ip = {60, 61}" using a [of 0] a [of 1] by (auto simp: file_blocks_def)
qed

theorem writei_readi_roundtrip_witness:
  "\<exists>t u. writei 0 (Kernel_buf (replicate 600 7)) 1000 600 demo_fs = Ok (600, t) \<and> unat (isize (inodes t 0)) = 1600
     \<and> readi 0 (Kernel_buf []) 1000 600 t = Ok ((600, replicate 600 7), u)"
proof -
  define k :: "byte list" where "k = replicate 600 7"
  have l: "length k = 600" unfolding k_def by (rule length_replicate)
  have r: "range_ok demo_fs 0 0 (max (unat (isize (inodes demo_fs 0))) (unat (1000 :: uint) + length k))"
    by (auto simp: range_ok_def demo_fs_blocks demo_fs_fields l)
  have "inj_on (file_addr demo_fs 0) {k. has_block demo_fs 0 k}"
  proof (rule inj_onI)
    fix j k
    assume "j \<in> {k. has_block demo_fs 0 k}" "k \<in> {k. has_block demo_fs 0 k}" and e: "file_addr demo_fs 0 j = file_addr demo_fs 0 k"
    then have "j = 0 \<or> j = 1" "k = 0 \<or> k = 1" by (auto simp: demo_fs_blocks)
    then show "j = k" using e demo_fs_blocks(2) [of 0 0] demo_fs_blocks(2) [of 1 0] by auto
  qed
  then have i: "file_inj demo_fs 0" by (simp add: file_inj_def demo_fs_fields)
  have a: "inode_apart demo_fs 0" by (simp add: inode_apart_def demo_fs_fields demo_fs_blocks)
  have t: "txn_open 0 (idev (inodes demo_fs 0)) {} {} demo_fs" "1000 \<le> isize (inodes demo_fs 0)"
    "lh_n demo_fs + int (rounds (unat (1000 :: uint)) (length k)) + 1 < 30"
    using demo_fs_fields(7) by (simp_all add: demo_fs_fields l rounds_def)
  show ?thesis
    using writei_readi_roundtrip [OF t(1) i a t(2) r t(3)] unfolding k_def [symmetric] l by (auto simp: demo_fs_fields)
qed

end
