(* ===== verification/Fs_Properties.thy ===== *)
theory Fs_Properties
  imports Fs_Facts
begin

text \<open>
  Truncation of a file, path names and directories: what \<open>itrunc\<close>, \<open>skipelem\<close> and \<open>dirlookup\<close> compute, against definitions
  that say it directly.
\<close>

section \<open>Truncation\<close>


section \<open>Paths\<close>

text \<open>The elements that \<open>namex\<close> takes off a path, one \<open>skipelem\<close> after the other.\<close>

function path_elems :: "byte list \<Rightarrow> byte list list" where
  "path_elems path = (case skipelem path of None \<Rightarrow> [] | Some (name, rest) \<Rightarrow> name # path_elems rest)"
  by auto

termination
  by (relation "measure length") (auto dest: skipelem_shorter)

declare path_elems.simps [simp del]

text \<open>The pieces between the slashes.\<close>

fun split_slash :: "byte list \<Rightarrow> byte list list" where
  "split_slash [] = [[]]"
| "split_slash (c # cs) = (if c = 47 then [] # split_slash cs else (c # hd (split_slash cs)) # tl (split_slash cs))"

lemma split_slash_nonempty: "split_slash p \<noteq> []"
  by (cases p) auto

lemma split_slash_word: "\<forall>c\<in>set w. c \<noteq> 47 \<Longrightarrow> split_slash (w @ p) = (w @ hd (split_slash p)) # tl (split_slash p)"
  by (induction w) (auto simp: split_slash_nonempty)

lemma split_slash_lead: "filter (\<lambda>e. e \<noteq> []) (split_slash (dropWhile (\<lambda>c. c = 47) p)) = filter (\<lambda>e. e \<noteq> []) (split_slash p)"
  by (induction p) auto

lemma path_elems_split: "path_elems p = map (take 14) (filter (\<lambda>e. e \<noteq> []) (split_slash p))"
proof (induction "length p" arbitrary: p rule: less_induct)
  case less
  define q where "q = dropWhile (\<lambda>c. c = 47) p"
  show ?case
  proof (cases "q = []")
    case True
    then have "path_elems p = []" by (subst path_elems.simps) (simp add: skipelem_def q_def)
    then show ?thesis using True split_slash_lead [of p, folded q_def] by simp
  next
    case False
    define w where "w = takeWhile (\<lambda>c. c \<noteq> 47) q"
    define r where "r = dropWhile (\<lambda>c. c \<noteq> 47) q"
    have q: "q = w @ r" "w \<noteq> []" "\<forall>c\<in>set w. c \<noteq> 47"
      using False hd_dropWhile [of "\<lambda>c. c = 47" p] by (auto simp: w_def r_def q_def takeWhile_eq_Nil_iff dest: set_takeWhileD)
    have s: "skipelem p = Some (take 14 w, dropWhile (\<lambda>c. c = 47) r)"
      using False unfolding skipelem_def Let_def q_def [symmetric] w_def r_def by simp
    have h: "hd (split_slash r) = []"
    proof (cases r)
      case (Cons a l)
      then have "a = 47" using hd_dropWhile [of "\<lambda>c. c \<noteq> 47" q] unfolding r_def by (metis list.discI list.sel(1))
      then show ?thesis using Cons by simp
    qed simp
    have "filter (\<lambda>e. e \<noteq> []) (split_slash p) = w # filter (\<lambda>e. e \<noteq> []) (tl (split_slash r))"
      using split_slash_lead [of p, folded q_def] split_slash_word [OF q(3), of r] h q(1,2) by simp
    moreover have "filter (\<lambda>e. e \<noteq> []) (split_slash (dropWhile (\<lambda>c. c = 47) r)) = filter (\<lambda>e. e \<noteq> []) (tl (split_slash r))"
      using split_slash_lead [of r] h split_slash_nonempty [of r] by (cases "split_slash r") auto
    moreover have "path_elems p = take 14 w # path_elems (dropWhile (\<lambda>c. c = 47) r)" by (subst path_elems.simps) (simp add: s)
    ultimately show ?thesis using less.hyps [of "dropWhile (\<lambda>c. c = 47) r"] skipelem_shorter [OF s] by simp
  qed
qed

text \<open>
  C11: the walk along a path ends and visits its elements. Taking elements off a path with \<open>skipelem\<close>, as \<open>namex\<close> does, yields the
  non-empty pieces between slashes in order, each cut to its first \<open>DIRSIZ\<close> bytes, for every path: leading, repeated
  and trailing slashes do not count.
\<close>

theorem skipelem_path_elements:
  "path_elems p = map (take DIRSIZ) (filter (\<lambda>e. e \<noteq> []) (split_slash p)) \<and> (skipelem p = None \<longleftrightarrow> set p \<subseteq> {47})"
  using path_elems_split [of p] by (auto simp: skipelem_def Let_def dropWhile_eq_Nil_conv)


section \<open>Directories\<close>

lemma strncmp_bytes_zero_iff:
  "strncmp_bytes n a b = 0 \<longleftrightarrow> takeWhile (\<lambda>c. c \<noteq> 0) (take n a) = takeWhile (\<lambda>c. c \<noteq> 0) (take n b)"
proof (induction n arbitrary: a b)
  case (Suc n)
  have z: "uint x = uint y \<longleftrightarrow> x = y" for x y :: byte by (simp add: word_uint_eq_iff)
  show ?case using Suc.IH [of "tl a" "tl b"] by (cases a; cases b) (auto simp: z uint_0_iff Let_def)
qed simp

text \<open>Entry \<open>k\<close> of a directory, whether it is in use for a name, and names as C strings of at most 14 bytes.\<close>

definition dirent_at :: "'z kfs_scheme \<Rightarrow> nat \<Rightarrow> nat \<Rightarrow> byte list" where
  "dirent_at s dp k = map (file_byte s dp) [16 * k..<16 * k + 16]"

definition cname :: "byte list \<Rightarrow> byte list" where
  "cname bs = takeWhile (\<lambda>c. c \<noteq> 0) (take DIRSIZ bs)"

definition entry_is :: "byte list \<Rightarrow> byte list \<Rightarrow> bool" where
  "entry_is name de \<longleftrightarrow> de_inum de \<noteq> 0 \<and> cname (de_name de) = cname name"

lemma namecmp_iff: "namecmp a b = 0 \<longleftrightarrow> cname b = cname a"
  by (auto simp: namecmp_def cname_def strncmp_bytes_zero_iff)

text \<open>What the search does with the entry it stops at.\<close>

definition entry_result :: "'z kfs_scheme \<Rightarrow> nat \<Rightarrow> nat option \<Rightarrow> ('z kfs_scheme, (nat \<times> uint) option) kmon" where
  "entry_result s dp r = (case r of None \<Rightarrow> kret None
     | Some k \<Rightarrow> kbind (iget (idev (inodes s dp)) (ucast (de_inum (dirent_at s dp k)))) (\<lambda>ip. kret (Some (ip, of_nat (16 * k)))))"

lemma dirlookup_loop_spec:
  fixes s :: "'z kfs_scheme"
  assumes "cache_ok p (idev (inodes s dp)) {} P s" and "\<exists>b<NBUF. b \<notin> P" and "range_ok s dp 0 (unat (isize (inodes s dp)))"
    and "\<forall>k\<in>set ks. 16 * k + 16 \<le> unat (isize (inodes s dp))"
  shows "\<exists>t. same_blocks p (idev (inodes s dp)) P s t
     \<and> dirlookup_loop dp name (map (\<lambda>k. 16 * k) ks) s = entry_result s dp (find (\<lambda>k. entry_is name (dirent_at s dp k)) ks) t"
  using assms
proof (induction ks arbitrary: s)
  case Nil
  then show ?case by (auto simp: entry_result_def intro: same_blocks_refl)
next
  case (Cons k ks)
  let ?d = "idev (inodes s dp)" and ?sz = "isize (inodes s dp)"
  have k: "16 * k + 16 \<le> unat ?sz" using Cons.prems(4) by simp
  have b: "unat ?sz \<le> 267 * BSIZE" using range_ok_bound [OF Cons.prems(3)] by (cases "unat ?sz = 0") auto
  define off :: uint where "off = of_nat (16 * k)"
  have u: "unat off = 16 * k" "unat (16 :: uint) = 16" using k b unfolding off_def by (simp_all only: unat_of_nat) simp_all
  have m: "(if off \<le> ?sz \<and> unat off + unat (16 :: uint) < 2 ^ 32 then min (unat (16 :: uint)) (unat ?sz - unat off) else 0) = 16"
    using u k b by (auto simp: word_le_nat_alt)
  obtain s1 where 1: "readi dp (Kernel_buf []) off 16 s = Ok ((16, dirent_at s dp k), s1)" "same_blocks p ?d P s s1"
    using readi_spec [OF Cons.prems(1-3), of "[]" off 16, unfolded m, unfolded u] by (auto simp: dirent_at_def)
  note F = same_blocks_file [OF 1(2)]
  have e1: "dirent_at s1 dp = dirent_at s dp" by (rule ext) (simp add: dirent_at_def F)
  have e: "dirent_at s1 dp = dirent_at s dp" "entry_result s1 dp = entry_result s dp"
    by (rule e1, rule ext) (simp add: entry_result_def e1 F(4) split: option.split)
  have p: "cache_ok p (idev (inodes s1 dp)) {} P s1" "range_ok s1 dp 0 (unat (isize (inodes s1 dp)))"
    "\<forall>k\<in>set ks. 16 * k + 16 \<le> unat (isize (inodes s1 dp))"
    using 1(2) F(2,4) Cons.prems(3,4) by (simp_all add: same_blocks_def range_ok_def)
  obtain t where t: "same_blocks p ?d P s1 t"
    "dirlookup_loop dp name (map (\<lambda>k. 16 * k) ks) s1 = entry_result s dp (find (\<lambda>k. entry_is name (dirent_at s dp k)) ks) t"
    using Cons.IH [OF p(1) Cons.prems(2) p(2,3)] F(4) e by auto
  show ?case
  proof (cases "entry_is name (dirent_at s dp k)")
    case True
    then have "dirlookup_loop dp name (map (\<lambda>k. 16 * k) (k # ks)) s = entry_result s dp (Some k) s1"
      using 1(1) [unfolded off_def] F(4) by (simp add: entry_is_def namecmp_iff entry_result_def iget_field_def)
    then show ?thesis using 1(2) True by auto
  next
    case False
    then have "dirlookup_loop dp name (map (\<lambda>k. 16 * k) (k # ks)) s = dirlookup_loop dp name (map (\<lambda>k. 16 * k) ks) s1"
      using 1(1) [unfolded off_def] by (auto simp: entry_is_def namecmp_iff)
    then show ?thesis using False t(2) same_blocks_trans [OF 1(2) t(1)] by auto
  qed
qed


text \<open>
  C10: \<open>dirlookup\<close> finds the first entry of a directory that is in use and has the name. For a directory whose blocks are
  allocated and whose size is a multiple of the size of an entry, it takes the inode of the first such entry
  with \<open>iget\<close> and returns it with the offset of the entry; without one it returns 0. Names are compared as C
  strings of at most 14 bytes. No block changes.
\<close>

theorem dirlookup_first_entry:
  fixes s :: "'z kfs_scheme"
  assumes "cache_ok p (idev (inodes s dp)) {} P s" and "\<exists>b<NBUF. b \<notin> P" and "range_ok s dp 0 (unat (isize (inodes s dp)))"
    and "16 dvd unat (isize (inodes s dp))" and "itype (inodes s dp) = T_DIR"
  shows "\<exists>t. same_blocks p (idev (inodes s dp)) P s t \<and> dirlookup dp name s = (case
      find (\<lambda>k. de_inum (dirent_at s dp k) \<noteq> 0 \<and> cname (de_name (dirent_at s dp k)) = cname name) [0..<unat (isize (inodes s dp)) div 16]
    of None \<Rightarrow> Ok (None, t)
    | Some k \<Rightarrow> kbind (iget (idev (inodes s dp)) (ucast (de_inum (dirent_at s dp k)))) (\<lambda>ip. kret (Some (ip, of_nat (16 * k)))) t)"
proof -
  let ?n = "unat (isize (inodes s dp))"
  have n: "(?n + 15) div 16 = ?n div 16" using assms(4) by (auto elim!: dvdE)
  have "\<forall>k\<in>set [0..<?n div 16]. 16 * k + 16 \<le> ?n" using assms(4) by (auto elim!: dvdE)
  then obtain t where t: "same_blocks p (idev (inodes s dp)) P s t"
    "dirlookup_loop dp name (map (\<lambda>k. 16 * k) [0..<?n div 16]) s = entry_result s dp (find (\<lambda>k. entry_is name (dirent_at s dp k)) [0..<?n div 16]) t"
    using dirlookup_loop_spec [OF assms(1-3)] by blast
  have "dirlookup dp name s = entry_result s dp (find (\<lambda>k. entry_is name (dirent_at s dp k)) [0..<?n div 16]) t"
    using t(2) assms(5) by (simp add: dirlookup_def iget_field_def dirent_offsets_def n)
  then show ?thesis using t(1) by (auto simp: entry_result_def entry_is_def split: option.splits)
qed


lemma iget_found:
  assumes "at_rest p t" and "iget_scan d n None [0..<NINODE] (with_lock Itable_lock t) = Ok ((Some ip, e), with_lock Itable_lock t)"
  shows "iget d n t = Ok (ip, t\<lparr>inodes := (inodes t)(ip := (inodes t ip)\<lparr>iref := iref (inodes t ip) + 1\<rparr>)\<rparr>)"
  using at_restD [OF assms(1)]
  by (simp only: iget_def kbind_Ok [OF acquire_calm] kbind_Ok [where m = "iget_scan d n None [0..<NINODE]", OF assms(2)] prod.case option.case) (simp add: iset_def release_with_lock)

definition demo_dir :: kfs where
  "demo_dir = demo_fs\<lparr>inodes := (\<lambda>i. (inodes demo_fs i)\<lparr>itype := T_DIR, isize := 32\<rparr>),
     disk := (\<lambda>_. put_bytes (\<lambda>_. 0) 16 (mk_dirent 7 [97, 98]))\<rparr>"

lemma demo_dir_entry:
  "cache_ok 0 1 {} {} demo_dir" "file_byte demo_dir 0 i = (if i < 2048 then put_bytes (\<lambda>_. 0) 16 (mk_dirent 7 [97, 98]) (i mod 1024) else file_byte demo_dir 0 i)"
  "has_block demo_dir 0 0"
proof -
  have b: "bufs demo_dir = fresh_bufs" by (simp add: demo_dir_def demo_fs_fields)
  have "cache_ok 0 1 {} {} demo_fs" using demo_fs_fields(7) by (simp add: txn_open_def)
  then show c: "cache_ok 0 1 {} {} demo_dir"
    by (simp add: demo_dir_def cache_ok_def buf_ok_def at_rest_def calm_def avail_def cur_def demo_fs_fields fresh_bufs_def)
  have d: "blk 1 demo_dir n = put_bytes (\<lambda>_. 0) 16 (mk_dirent 7 [97, 98])" for n
    using blk_uncached [of demo_dir 1 n] by (simp add: b fresh_bufs_def) (simp add: demo_dir_def)
  have i: "idev (inodes demo_dir 0) = 1" by (simp add: demo_dir_def demo_fs_fields)
  show "file_byte demo_dir 0 i = (if i < 2048 then put_bytes (\<lambda>_. 0) 16 (mk_dirent 7 [97, 98]) (i mod 1024) else file_byte demo_dir 0 i)"
    by (simp add: file_byte_def d i)
  show "has_block demo_dir 0 0" by (simp add: has_block_def file_addr_def) (simp add: demo_dir_def demo_fs_fields)
qed

theorem dirlookup_first_entry_witness: "\<exists>t. dirlookup 0 [97, 98] demo_dir = Ok (Some (0, 16), t)"
proof -
  have f: "idev (inodes demo_dir 0) = 1" "isize (inodes demo_dir 0) = 32" "itype (inodes demo_dir 0) = T_DIR" "iref (inodes demo_dir 0) = 1"
    "inum (inodes demo_dir 0) = 7" by (simp_all add: demo_dir_def demo_fs_fields) (simp_all add: demo_fs_def klog.extend_def)
  have l: "length (mk_dirent 7 [97, 98]) = 16" using dirent_roundtrip(2) [of "[97, 98]" 7] by simp
  have e: "dirent_at demo_dir 0 0 = replicate 16 0" "dirent_at demo_dir 0 1 = mk_dirent 7 [97, 98]"
    by (rule nth_equalityI; simp add: dirent_at_def demo_dir_entry(2) put_bytes_def l del: upt_rec_numeral)+
  have d: "de_inum (mk_dirent 7 [97, 98]) = 7" "cname (de_name (mk_dirent 7 [97, 98])) = cname [97, 98]" "de_inum (replicate 16 0) = 0"
    using dirent_roundtrip [of "[97, 98]" 7] by (simp_all add: cname_def de_name_def de_inum_def)
  have r: "range_ok demo_dir 0 0 (unat (isize (inodes demo_dir 0)))" by (auto simp: range_ok_def f demo_dir_entry(3))
  have u: "[0..<unat (isize (inodes demo_dir 0)) div 16] = [0, 1]" by (simp add: f upt_rec)
  have i: "find (\<lambda>k. de_inum (dirent_at demo_dir 0 k) \<noteq> 0 \<and> cname (de_name (dirent_at demo_dir 0 k)) = cname [97, 98]) [0, 1] = Some 1"
    using d e by simp
  have b: "\<exists>b<NBUF. b \<notin> ({} :: nat set)" by (intro exI [of _ 0]) simp
  have c: "cache_ok 0 (idev (inodes demo_dir 0)) {} {} demo_dir" "16 dvd unat (isize (inodes demo_dir 0))" using demo_dir_entry(1) f by simp_all
  obtain t where t: "same_blocks 0 (idev (inodes demo_dir 0)) {} demo_dir t" "dirlookup 0 [97, 98] demo_dir = kbind (iget 1 7) (\<lambda>ip. kret (Some (ip, of_nat (16 * 1)))) t"
    using dirlookup_first_entry [OF c(1) b r c(2) f(3), of "[97, 98]", unfolded u i option.case e(2) d(1)] f(1) by auto
  have n: "inodes t = inodes demo_dir" by (rule same_blocks_file(4) [OF t(1)])
  have R: "at_rest 0 t" using t(1) cache_okD(1) by (auto simp: same_blocks_def)
  have "iget_scan 1 7 None [0..<50] (with_lock Itable_lock t) = Ok ((Some 0, None), with_lock Itable_lock t)"
    using n f by (simp add: upt_conv_Cons iget_field_def)
  then have "\<exists>u. iget 1 7 t = Ok (0, u)" using iget_found [OF R] by blast
  then show ?thesis using t(2) by auto
qed

end
