(* ===== verification/File.thy ===== *)
theory File
  imports Fs
begin

text \<open>
  \<open>kernel/file.c\<close>, with \<open>pipealloc\<close> of \<open>kernel/pipe.c\<close> and \<open>consoleinit\<close> of \<open>kernel/console.c\<close>, which fill in its
  tables: open files and the device switch. A file pointer is an index into the file table. The device switch
  maps a major number to the driver's functions; the console's are the only ones the kernel installs.
  \<open>stat_pad\<close> is what the kernel stack holds in the four bytes of \<open>struct stat\<close> that no assignment sets.
\<close>

unbundle bit_operations_syntax

abbreviation (input) NFILE :: nat where "NFILE \<equiv> 100"
abbreviation (input) NDEV :: int where "NDEV \<equiv> 10"
abbreviation (input) CONSOLE :: nat where "CONSOLE \<equiv> 1"

datatype filetype = FD_NONE | FD_PIPE | FD_INODE | FD_DEVICE

datatype devread = Console_read

datatype devwrite = Console_write

record filedesc =
  ftype :: filetype
  fref :: int
  freadable :: bool
  fwritable :: bool
  fpipe :: addr
  fip :: nat
  foff :: uint
  fmajor :: "16 word"

record kfile = kfs +
  files :: "nat \<Rightarrow> filedesc"
  devsw_read :: "nat \<Rightarrow> devread option"
  devsw_write :: "nat \<Rightarrow> devwrite option"
  stat_pad :: "byte list"

definition fget :: "nat \<Rightarrow> (filedesc \<Rightarrow> 'a) \<Rightarrow> ('z kfile_scheme, 'a) kmon" where
  "fget f g = kgets (\<lambda>s. g (files s f))"

definition fset :: "nat \<Rightarrow> (filedesc \<Rightarrow> filedesc) \<Rightarrow> ('z kfile_scheme, unit) kmon" where
  "fset f g = kmodify (\<lambda>s. s\<lparr>files := (files s)(f := g (files s f))\<rparr>)"

definition consoleinit :: "('z kfile_scheme, unit) kmon" where
  "consoleinit =
     kbind (initlock Cons_lock) (\<lambda>_.
     kbind uartinit (\<lambda>_.
     kbind (kmodify (\<lambda>s. s\<lparr>devsw_read := (devsw_read s)(CONSOLE := Some Console_read)\<rparr>)) (\<lambda>_.
     kmodify (\<lambda>s. s\<lparr>devsw_write := (devsw_write s)(CONSOLE := Some Console_write)\<rparr>))))"

definition fileinit :: "('z kfile_scheme, unit) kmon" where
  "fileinit = initlock Ftable_lock"

fun filealloc_scan :: "nat list \<Rightarrow> ('z kfile_scheme, nat option) kmon" where
  "filealloc_scan [] = kbind (release Ftable_lock) (\<lambda>_. kret None)"
| "filealloc_scan (f # fs) =
     kbind (fget f fref) (\<lambda>r.
     if r = 0 then
       kbind (fset f (\<lambda>x. x\<lparr>fref := 1\<rparr>)) (\<lambda>_.
       kbind (release Ftable_lock) (\<lambda>_. kret (Some f)))
     else filealloc_scan fs)"

definition filealloc :: "('z kfile_scheme, nat option) kmon" where
  "filealloc = kbind (acquire Ftable_lock) (\<lambda>_. filealloc_scan [0..<NFILE])"

definition filedup :: "nat \<Rightarrow> ('z kfile_scheme, nat) kmon" where
  "filedup f =
     kbind (acquire Ftable_lock) (\<lambda>_.
     kbind (fget f fref) (\<lambda>r.
     if r < 1 then kpanic ''filedup'' else
     kbind (fset f (\<lambda>x. x\<lparr>fref := fref x + 1\<rparr>)) (\<lambda>_.
     kbind (release Ftable_lock) (\<lambda>_. kret f))))"

definition fileclose :: "nat \<Rightarrow> ('z kfile_scheme, unit) kmon" where
  "fileclose f =
     kbind (acquire Ftable_lock) (\<lambda>_.
     kbind (fget f fref) (\<lambda>r.
     if r < 1 then kpanic ''fileclose'' else
     kbind (fset f (\<lambda>x. x\<lparr>fref := fref x - 1\<rparr>)) (\<lambda>_.
     kbind (fget f fref) (\<lambda>r.
     if r > 0 then release Ftable_lock else
     kbind (fget f (\<lambda>x. x)) (\<lambda>ff.
     kbind (fset f (\<lambda>x. x\<lparr>fref := 0, ftype := FD_NONE\<rparr>)) (\<lambda>_.
     kbind (release Ftable_lock) (\<lambda>_.
     if ftype ff = FD_PIPE then pipeclose (fpipe ff) (fwritable ff)
     else if ftype ff = FD_INODE \<or> ftype ff = FD_DEVICE then
       kbind begin_op (\<lambda>_.
       kbind (iput (fip ff)) (\<lambda>_.
       end_op))
     else kret ())))))))"

text \<open>The bytes of an integer, least significant first, and the layout of \<open>struct stat\<close>.\<close>

definition bytes16 :: "16 word \<Rightarrow> byte list" where
  "bytes16 w = [ucast w, ucast (drop_bit 8 w)]"

definition bytes64 :: "uint64 \<Rightarrow> byte list" where
  "bytes64 w = map (byte_of w) [0..<8]"

definition filestat :: "nat \<Rightarrow> uint64 \<Rightarrow> ('z kfile_scheme, int) kmon" where
  "filestat f a =
     kbind curproc (\<lambda>p.
     kbind (fget f (\<lambda>x. x)) (\<lambda>x.
     if ftype x = FD_INODE \<or> ftype x = FD_DEVICE then
       kbind (ilock (fip x)) (\<lambda>_.
       kbind (stati (fip x)) (\<lambda>(d, i, t, l, n).
       kbind (iunlock (fip x)) (\<lambda>_.
       kbind (pget p pagetable) (\<lambda>pt.
       kbind (kgets stat_pad) (\<lambda>pad.
       kbind (on_mem (copyout pt a (bytes32 d @ bytes32 i @ bytes16 t @ bytes16 l @ take 4 pad @ bytes64 n))) (\<lambda>r.
       if r < 0 then kret (- 1) else kret 0))))))
     else kret (- 1)))"

definition fileread :: "nat \<Rightarrow> uint64 \<Rightarrow> int \<Rightarrow> ('z kfile_scheme, int) kmon" where
  "fileread f a n =
     kbind (fget f (\<lambda>x. x)) (\<lambda>x.
     if \<not> freadable x then kret (- 1)
     else if ftype x = FD_PIPE then piperead (fpipe x) a n
     else if ftype x = FD_DEVICE then
       let m = sint (fmajor x) in
       if m < 0 \<or> m \<ge> NDEV then kret (- 1) else
       kbind (kgets (\<lambda>s. devsw_read s (nat m))) (\<lambda>d.
       case d of None \<Rightarrow> kret (- 1)
       | Some Console_read \<Rightarrow> kbind (consoleread (User_addr a) n) (\<lambda>(r, _). kret r))
     else if ftype x = FD_INODE then
       kbind (ilock (fip x)) (\<lambda>_.
       kbind (fget f foff) (\<lambda>off.
       kbind (readi (fip x) (User_addr a) off (word_of_int n)) (\<lambda>(r, _).
       kbind (if r > 0 then fset f (\<lambda>x. x\<lparr>foff := foff x + word_of_int r\<rparr>) else kret ()) (\<lambda>_.
       kbind (iunlock (fip x)) (\<lambda>_. kret r)))))
     else kpanic ''fileread'')"

text \<open>\<open>i\<close> of \<open>n\<close> bytes are written; each round is a transaction of at most 3 blocks of data.\<close>

function filewrite_loop :: "nat \<Rightarrow> nat \<Rightarrow> uint64 \<Rightarrow> nat \<Rightarrow> nat \<Rightarrow> ('z kfile_scheme, int) kmon" where
  "filewrite_loop f ip a n i =
     (if i \<ge> n then kret (if i = n then int n else - 1) else
      let n1 = min (n - i) (3 * BSIZE) in
      kbind begin_op (\<lambda>_.
      kbind (ilock ip) (\<lambda>_.
      kbind (fget f foff) (\<lambda>off.
      kbind (writei ip (User_addr (a + of_nat i)) off (of_nat n1)) (\<lambda>r.
      kbind (if r > 0 then fset f (\<lambda>x. x\<lparr>foff := foff x + word_of_int r\<rparr>) else kret ()) (\<lambda>_.
      kbind (iunlock ip) (\<lambda>_.
      kbind end_op (\<lambda>_.
      if r \<noteq> int n1 then kret (if i = n then int n else - 1)
      else filewrite_loop f ip a n (i + n1)))))))))"
  by auto

termination
  by (relation "measure (\<lambda>(f, ip, a, n, i). n - i)") auto

declare filewrite_loop.simps [simp del]

definition filewrite :: "nat \<Rightarrow> uint64 \<Rightarrow> int \<Rightarrow> ('z kfile_scheme, int) kmon" where
  "filewrite f a n =
     kbind (fget f (\<lambda>x. x)) (\<lambda>x.
     if \<not> fwritable x then kret (- 1)
     else if ftype x = FD_PIPE then pipewrite (fpipe x) a n
     else if ftype x = FD_DEVICE then
       let m = sint (fmajor x) in
       if m < 0 \<or> m \<ge> NDEV then kret (- 1) else
       kbind (kgets (\<lambda>s. devsw_write s (nat m))) (\<lambda>d.
       case d of None \<Rightarrow> kret (- 1) | Some Console_write \<Rightarrow> consolewrite (User_addr a) n)
     else if ftype x = FD_INODE then
       if n < 0 then kret (- 1) else filewrite_loop f (fip x) a (nat n) 0
     else kpanic ''filewrite'')"

text \<open>The two ends of a new pipe, the reading end first.\<close>

definition pipealloc_bad :: "addr \<Rightarrow> nat option \<Rightarrow> nat option \<Rightarrow> ('z kfile_scheme, (nat \<times> nat) option) kmon" where
  "pipealloc_bad pi f0 f1 =
     kbind (if pi \<noteq> 0 then on_mem (kfree pi) else kret ()) (\<lambda>_.
     kbind (case f0 of None \<Rightarrow> kret () | Some f \<Rightarrow> fileclose f) (\<lambda>_.
     kbind (case f1 of None \<Rightarrow> kret () | Some f \<Rightarrow> fileclose f) (\<lambda>_. kret None)))"

definition pipealloc :: "('z kfile_scheme, (nat \<times> nat) option) kmon" where
  "pipealloc =
     kbind filealloc (\<lambda>r0.
     case r0 of None \<Rightarrow> pipealloc_bad 0 None None
     | Some f0 \<Rightarrow>
     kbind filealloc (\<lambda>r1.
     case r1 of None \<Rightarrow> pipealloc_bad 0 (Some f0) None
     | Some f1 \<Rightarrow>
     kbind (on_mem kalloc) (\<lambda>pi.
     if pi = 0 then pipealloc_bad 0 (Some f0) (Some f1) else
     kbind (kgets (\<lambda>s. mem s)) (\<lambda>m.
     kbind (pipe_set pi \<lparr>pdata = (\<lambda>i. pmem m (pi + of_nat i)), nread = 0, nwrite = 0, readopen = 1, writeopen = 1\<rparr>) (\<lambda>_.
     kbind (initlock (Pipe_lock pi)) (\<lambda>_.
     kbind (fset f0 (\<lambda>x. x\<lparr>ftype := FD_PIPE, freadable := True, fwritable := False, fpipe := pi\<rparr>)) (\<lambda>_.
     kbind (fset f1 (\<lambda>x. x\<lparr>ftype := FD_PIPE, freadable := False, fwritable := True, fpipe := pi\<rparr>)) (\<lambda>_.
     kret (Some (f0, f1))))))))))"

end
