(* ===== verification/Process.thy ===== *)
theory Process
  imports File
begin

text \<open>
  The functions of \<open>kernel/proc.c\<close> that need files: creating the first process, \<open>fork\<close> and \<open>exit\<close>; and the
  access to the registers saved in the trap frame of a process (\<open>struct trapframe\<close> of \<open>kernel/proc.h\<close>), a page
  of physical memory.
\<close>

unbundle bit_operations_syntax

text \<open>Offsets of the fields of \<open>struct trapframe\<close>.\<close>

abbreviation (input) TF_kernel_satp :: uint64 where "TF_kernel_satp \<equiv> 0"
abbreviation (input) TF_kernel_sp :: uint64 where "TF_kernel_sp \<equiv> 8"
abbreviation (input) TF_kernel_trap :: uint64 where "TF_kernel_trap \<equiv> 16"
abbreviation (input) TF_epc :: uint64 where "TF_epc \<equiv> 24"
abbreviation (input) TF_kernel_hartid :: uint64 where "TF_kernel_hartid \<equiv> 32"
abbreviation (input) TF_sp :: uint64 where "TF_sp \<equiv> 48"
abbreviation (input) TF_a0 :: uint64 where "TF_a0 \<equiv> 112"
abbreviation (input) TF_a1 :: uint64 where "TF_a1 \<equiv> 120"
abbreviation (input) TF_a7 :: uint64 where "TF_a7 \<equiv> 168"

definition tf_get :: "nat \<Rightarrow> uint64 \<Rightarrow> ('z kprocs_scheme, uint64) kmon" where
  "tf_get p off = kgets (\<lambda>s. load64 (pmem (mem s)) (trapframe (procs s p) + off))"

definition tf_set :: "nat \<Rightarrow> uint64 \<Rightarrow> uint64 \<Rightarrow> ('z kprocs_scheme, unit) kmon" where
  "tf_set p off v =
     kmodify (\<lambda>s. s\<lparr>mem := (mem s)\<lparr>pmem := store64 (pmem (mem s)) (trapframe (procs s p) + off) v\<rparr>\<rparr>)"

definition userinit :: "('z kfile_scheme, unit) kmon" where
  "userinit =
     kbind allocproc (\<lambda>r.
     kbind (kmodify (\<lambda>s. s\<lparr>initproc := r\<rparr>)) (\<lambda>_.
     case r of None \<Rightarrow> kub ''null process''
     | Some p \<Rightarrow>
         kbind (namei [47]) (\<lambda>ip.
         kbind (pset p (\<lambda>q. q\<lparr>cwd := ip\<rparr>)) (\<lambda>_.
         kbind (pset p (\<lambda>q. q\<lparr>pstate := RUNNABLE\<rparr>)) (\<lambda>_.
         release (Proc_lock p))))))"

text \<open>One descriptor of \<open>kfork\<close>'s loop.\<close>

definition fork_file :: "nat \<Rightarrow> nat \<Rightarrow> nat \<Rightarrow> ('z kfile_scheme, unit) kmon" where
  "fork_file p np i =
     kbind (pget p (\<lambda>q. ofile q i)) (\<lambda>r.
     case r of None \<Rightarrow> kret ()
     | Some f \<Rightarrow> kbind (filedup f) (\<lambda>g. pset np (\<lambda>q. q\<lparr>ofile := (ofile q)(i := Some g)\<rparr>)))"

definition kfork :: "('z kfile_scheme, int) kmon" where
  "kfork =
     kbind curproc (\<lambda>p.
     kbind allocproc (\<lambda>r.
     case r of None \<Rightarrow> kret (- 1)
     | Some np \<Rightarrow>
     kbind (pget p (\<lambda>q. q)) (\<lambda>q.
     kbind (pget np pagetable) (\<lambda>npt.
     kbind (on_mem (uvmcopy (pagetable q) npt (sz q))) (\<lambda>c.
     if c < 0 then kbind (freeproc np) (\<lambda>_. kbind (release (Proc_lock np)) (\<lambda>_. kret (- 1))) else
     kbind (pset np (\<lambda>x. x\<lparr>sz := sz q\<rparr>)) (\<lambda>_.
     kbind (pget np trapframe) (\<lambda>ntf.
     kbind (on_mem (kmodify (\<lambda>m. m\<lparr>pmem := memmove (pmem m) ntf (trapframe q) 288\<rparr>))) (\<lambda>_.
     kbind (tf_set np TF_a0 0) (\<lambda>_.
     kbind (kfor (fork_file p np) [0..<NOFILE]) (\<lambda>_.
     kbind (pget p cwd) (\<lambda>d.
     case d of None \<Rightarrow> kub ''cwd''
     | Some ip \<Rightarrow>
     kbind (idup ip) (\<lambda>ip.
     kbind (pset np (\<lambda>x. x\<lparr>cwd := Some ip\<rparr>)) (\<lambda>_.
     kbind (pset np (\<lambda>x. x\<lparr>pname := take 15 (pname q)\<rparr>)) (\<lambda>_.
     kbind (pget np pid) (\<lambda>n.
     kbind (release (Proc_lock np)) (\<lambda>_.
     kbind (acquire Wait_lock) (\<lambda>_.
     kbind (pset np (\<lambda>x. x\<lparr>parent := Some p\<rparr>)) (\<lambda>_.
     kbind (release Wait_lock) (\<lambda>_.
     kbind (acquire (Proc_lock np)) (\<lambda>_.
     kbind (pset np (\<lambda>x. x\<lparr>pstate := RUNNABLE\<rparr>)) (\<lambda>_.
     kbind (release (Proc_lock np)) (\<lambda>_. kret n))))))))))))))))))))))"

text \<open>One descriptor of \<open>kexit\<close>'s loop.\<close>

definition exit_file :: "nat \<Rightarrow> nat \<Rightarrow> ('z kfile_scheme, unit) kmon" where
  "exit_file p fd =
     kbind (pget p (\<lambda>q. ofile q fd)) (\<lambda>r.
     case r of None \<Rightarrow> kret ()
     | Some f \<Rightarrow> kbind (fileclose f) (\<lambda>_. pset p (\<lambda>q. q\<lparr>ofile := (ofile q)(fd := None)\<rparr>)))"

definition kexit :: "int \<Rightarrow> ('z kfile_scheme, unit) kmon" where
  "kexit status =
     kbind curproc (\<lambda>p.
     kbind (kgets initproc) (\<lambda>ini.
     if ini = Some p then kpanic ''init exiting'' else
     kbind (kfor (exit_file p) [0..<NOFILE]) (\<lambda>_.
     kbind begin_op (\<lambda>_.
     kbind (pget p cwd) (\<lambda>d.
     case d of None \<Rightarrow> kub ''cwd''
     | Some ip \<Rightarrow>
     kbind (iput ip) (\<lambda>_.
     kbind end_op (\<lambda>_.
     kbind (pset p (\<lambda>q. q\<lparr>cwd := None\<rparr>)) (\<lambda>_.
     kbind (acquire Wait_lock) (\<lambda>_.
     kbind (reparent p) (\<lambda>_.
     kbind (pget p parent) (\<lambda>par.
     kbind (wakeup (map_option Chan_proc par)) (\<lambda>_.
     kexit_switch p status))))))))))))"

end
