(* ===== verification/Exec.thy ===== *)
theory Exec
  imports Process
begin

text \<open>
  \<open>kernel/exec.c\<close>: replacing the program of a process by one loaded from an ELF file (\<open>kernel/elf.h\<close>).
  The argument strings are their bytes without the closing NUL.
\<close>

unbundle bit_operations_syntax

abbreviation (input) ELF_MAGIC :: uint where "ELF_MAGIC \<equiv> 0x464C457F"
abbreviation (input) ELF_PROG_LOAD :: uint where "ELF_PROG_LOAD \<equiv> 1"
abbreviation (input) MAXARG :: nat where "MAXARG \<equiv> 32"
abbreviation (input) USERSTACK :: uint64 where "USERSTACK \<equiv> 1"

text \<open>A structure read from a file, addressed by byte offset.\<close>

definition as_block :: "byte list \<Rightarrow> block" where
  "as_block bs = (\<lambda>i. if i < length bs then bs ! i else 0)"

definition get64 :: "block \<Rightarrow> nat \<Rightarrow> uint64" where
  "get64 d i = ucast (load32 d i) OR push_bit 32 (ucast (load32 d (i + 4)))"

record elfhdr =
  elf_magic :: uint
  elf_entry :: uint64
  elf_phoff :: uint64
  elf_phnum :: "16 word"

definition elfhdr_of :: "byte list \<Rightarrow> elfhdr" where
  "elfhdr_of bs = (let d = as_block bs in
     \<lparr>elf_magic = load32 d 0, elf_entry = get64 d 24, elf_phoff = get64 d 32, elf_phnum = load16 d 56\<rparr>)"

record proghdr =
  ph_type :: uint
  ph_flags :: uint
  ph_off :: uint64
  ph_vaddr :: uint64
  ph_filesz :: uint64
  ph_memsz :: uint64

definition proghdr_of :: "byte list \<Rightarrow> proghdr" where
  "proghdr_of bs = (let d = as_block bs in
     \<lparr>ph_type = load32 d 0, ph_flags = load32 d 4, ph_off = get64 d 8, ph_vaddr = get64 d 16,
      ph_filesz = get64 d 32, ph_memsz = get64 d 40\<rparr>)"

definition flags2perm :: "uint \<Rightarrow> uint64" where
  "flags2perm flags =
     (let perm = (if flags AND 1 \<noteq> 0 then PTE_X else 0) in
      if flags AND 2 \<noteq> 0 then perm OR PTE_W else perm)"

text \<open>
  The pages of a segment from byte \<open>i\<close> on. \<open>i\<close> is a 32-bit counter: with \<open>sz\<close> above \<open>0xfffff000\<close> it wraps
  to 0 after the last page and the loop starts again (\<open>Block\<close>).
\<close>

function loadseg_loop :: "addr \<Rightarrow> uint64 \<Rightarrow> nat \<Rightarrow> uint \<Rightarrow> uint \<Rightarrow> nat \<Rightarrow> ('z kfs_scheme, int) kmon" where
  "loadseg_loop pt va ip offset siz i =
     (if i \<ge> 2 ^ 32 then kblock
      else if i \<ge> unat siz then kret 0 else
      kbind (on_mem (walkaddr pt (va + of_nat i))) (\<lambda>pa.
      if pa = 0 then kpanic ''loadseg: address should exist'' else
      let n = min (unat siz - i) 4096 in
      kbind (readi ip (Kernel_buf []) (offset + of_nat i) (of_nat n)) (\<lambda>(r, bs).
      kbind (on_mem (kmodify (\<lambda>m. m\<lparr>pmem := store_bytes (pmem m) pa bs\<rparr>))) (\<lambda>_.
      if r \<noteq> int n then kret (- 1) else loadseg_loop pt va ip offset siz (i + 4096)))))"
  by auto

termination
  by (relation "measure (\<lambda>(pt, va, ip, offset, siz, i). 2 ^ 32 - i)") auto

declare loadseg_loop.simps [simp del]

definition loadseg :: "addr \<Rightarrow> uint64 \<Rightarrow> nat \<Rightarrow> uint \<Rightarrow> uint \<Rightarrow> ('z kfs_scheme, int) kmon" where
  "loadseg pt va ip offset siz = loadseg_loop pt va ip offset siz 0"

text \<open>The loop over \<open>n\<close> program headers; whether it succeeded, and the size of the image so far.\<close>

fun load_segments :: "addr \<Rightarrow> nat \<Rightarrow> uint \<Rightarrow> nat \<Rightarrow> uint64 \<Rightarrow> ('z kfs_scheme, bool \<times> uint64) kmon" where
  "load_segments pt ip off 0 siz = kret (True, siz)"
| "load_segments pt ip off (Suc n) siz =
     kbind (readi ip (Kernel_buf []) off 56) (\<lambda>(r, bs).
     let ph = proghdr_of bs in
     if r \<noteq> 56 then kret (False, siz)
     else if ph_type ph \<noteq> ELF_PROG_LOAD then load_segments pt ip (off + 56) n siz
     else if ph_memsz ph < ph_filesz ph then kret (False, siz)
     else if ph_vaddr ph + ph_memsz ph < ph_vaddr ph then kret (False, siz)
     else if ph_vaddr ph mod PGSIZE \<noteq> 0 then kret (False, siz)
     else
       kbind (on_mem (uvmalloc pt siz (ph_vaddr ph + ph_memsz ph) (flags2perm (ph_flags ph)))) (\<lambda>sz1.
       if sz1 = 0 then kret (False, siz) else
       kbind (loadseg pt (ph_vaddr ph) ip (ucast (ph_off ph)) (ucast (ph_filesz ph))) (\<lambda>l.
       if l < 0 then kret (False, sz1) else load_segments pt ip (off + 56) n sz1)))"

text \<open>The argument strings onto the stack; their addresses in order, and the stack pointer.\<close>

fun push_args :: "addr \<Rightarrow> uint64 \<Rightarrow> byte list list \<Rightarrow> uint64 \<Rightarrow> uint64 list \<Rightarrow> ('z kprocs_scheme, (uint64 \<times> uint64 list) option) kmon" where
  "push_args pt stackbase [] sp ustack = kret (Some (sp, ustack))"
| "push_args pt stackbase (a # argv) sp ustack =
     (if length ustack \<ge> MAXARG then kret None else
      let sp = sp - of_nat (length a + 1); sp = sp - sp mod 16 in
      if sp < stackbase then kret None else
      kbind (on_mem (copyout pt sp (a @ [0]))) (\<lambda>r.
      if r < 0 then kret None else push_args pt stackbase argv sp (ustack @ [sp])))"

definition exec_bad :: "addr \<Rightarrow> uint64 \<Rightarrow> nat option \<Rightarrow> ('z kfs_scheme, int) kmon" where
  "exec_bad pt siz ip =
     kbind (if pt \<noteq> 0 then proc_freepagetable pt siz else kret ()) (\<lambda>_.
     kbind (case ip of None \<Rightarrow> kret () | Some i \<Rightarrow> kbind (iunlockput i) (\<lambda>_. end_op)) (\<lambda>_. kret (- 1)))"

text \<open>The part of a path behind the last slash.\<close>

definition last_elem :: "byte list \<Rightarrow> byte list" where
  "last_elem path = rev (takeWhile (\<lambda>c. c \<noteq> 47) (rev path))"

text \<open>From the stack to the return, with the new image in \<open>pt\<close>.\<close>

definition exec_stack :: "nat \<Rightarrow> addr \<Rightarrow> uint64 \<Rightarrow> uint64 \<Rightarrow> byte list \<Rightarrow> byte list list \<Rightarrow> ('z kfs_scheme, int) kmon" where
  "exec_stack p pt siz entry path argv =
     kbind (pget p sz) (\<lambda>oldsz.
     let siz = PGROUNDUP siz in
     kbind (on_mem (uvmalloc pt siz (siz + (USERSTACK + 1) * PGSIZE) PTE_W)) (\<lambda>sz1.
     if sz1 = 0 then exec_bad pt siz None else
     kbind (on_mem (uvmclear pt (sz1 - (USERSTACK + 1) * PGSIZE))) (\<lambda>_.
     let stackbase = sz1 - USERSTACK * PGSIZE in
     kbind (push_args pt stackbase argv sz1 []) (\<lambda>r.
     case r of None \<Rightarrow> exec_bad pt sz1 None
     | Some (sp, ustack) \<Rightarrow>
     if length ustack \<ge> MAXARG then kub ''ustack'' else
     let sp = sp - (of_nat (length ustack) + 1) * 8; sp = sp - sp mod 16 in
     if sp < stackbase then exec_bad pt sz1 None else
     kbind (on_mem (copyout pt sp (concat (map bytes64 (ustack @ [0]))))) (\<lambda>r.
     if r < 0 then exec_bad pt sz1 None else
     kbind (tf_set p TF_a1 sp) (\<lambda>_.
     kbind (pset p (\<lambda>q. q\<lparr>pname := take 15 (last_elem path)\<rparr>)) (\<lambda>_.
     kbind (pget p pagetable) (\<lambda>oldpt.
     kbind (pset p (\<lambda>q. q\<lparr>pagetable := pt, sz := sz1\<rparr>)) (\<lambda>_.
     kbind (tf_set p TF_epc entry) (\<lambda>_.
     kbind (tf_set p TF_sp sp) (\<lambda>_.
     kbind (proc_freepagetable oldpt oldsz) (\<lambda>_.
     kret (int (length ustack))))))))))))))"

definition kexec :: "byte list \<Rightarrow> byte list list \<Rightarrow> ('z kfs_scheme, int) kmon" where
  "kexec path argv =
     kbind curproc (\<lambda>p.
     kbind begin_op (\<lambda>_.
     kbind (namei path) (\<lambda>r.
     case r of None \<Rightarrow> kbind end_op (\<lambda>_. kret (- 1))
     | Some ip \<Rightarrow>
     kbind (ilock ip) (\<lambda>_.
     kbind (readi ip (Kernel_buf []) 0 64) (\<lambda>(n, bs).
     let elf = elfhdr_of bs in
     if n \<noteq> 64 then exec_bad 0 0 (Some ip)
     else if elf_magic elf \<noteq> ELF_MAGIC then exec_bad 0 0 (Some ip)
     else
       kbind (proc_pagetable p) (\<lambda>pt.
       if pt = 0 then exec_bad 0 0 (Some ip) else
       kbind (load_segments pt ip (ucast (elf_phoff elf)) (unat (elf_phnum elf)) 0) (\<lambda>(ok, siz).
       if \<not> ok then exec_bad pt siz (Some ip) else
       kbind (iunlockput ip) (\<lambda>_.
       kbind end_op (\<lambda>_.
       kbind curproc (\<lambda>p.
       exec_stack p pt siz (elf_entry elf) path argv))))))))))"

end
