(* ===== verification/Sysfile.thy ===== *)
theory Sysfile
  imports Exec
begin

text \<open>
  The arguments of system calls (\<open>fetchaddr\<close> to \<open>argstr\<close> of \<open>kernel/syscall.c\<close>) and the system calls on files
  (\<open>kernel/sysfile.c\<close>). A call returns the 64-bit value that goes to register a0, all ones on failure.
\<close>

unbundle bit_operations_syntax

abbreviation (input) MAXPATH :: nat where "MAXPATH \<equiv> 128"
abbreviation (input) O_RDONLY :: "32 word" where "O_RDONLY \<equiv> 0"
abbreviation (input) O_WRONLY :: "32 word" where "O_WRONLY \<equiv> 1"
abbreviation (input) O_RDWR :: "32 word" where "O_RDWR \<equiv> 2"
abbreviation (input) O_CREATE :: "32 word" where "O_CREATE \<equiv> 0x200"
abbreviation (input) O_TRUNC :: "32 word" where "O_TRUNC \<equiv> 0x400"
abbreviation (input) O_NOFOLLOW :: "32 word" where "O_NOFOLLOW \<equiv> 0x1000"

section \<open>Arguments\<close>

definition fetchaddr :: "uint64 \<Rightarrow> ('z kprocs_scheme, uint64 option) kmon" where
  "fetchaddr a =
     kbind curproc (\<lambda>p.
     kbind (pget p sz) (\<lambda>siz.
     if a \<ge> siz \<or> a + 8 > siz then kret None else
     kbind (pget p pagetable) (\<lambda>pt.
     kbind (on_mem (copyin pt [] a 8)) (\<lambda>r.
     kret (map_option (\<lambda>bs. get64 (as_block bs) 0) r)))))"

definition fetchstr :: "uint64 \<Rightarrow> nat \<Rightarrow> ('z kprocs_scheme, byte list option) kmon" where
  "fetchstr a mx =
     kbind curproc (\<lambda>p.
     kbind (pget p pagetable) (\<lambda>pt.
     on_mem (copyinstr pt [] a mx)))"

definition argraw :: "nat \<Rightarrow> ('z kprocs_scheme, uint64) kmon" where
  "argraw n =
     kbind curproc (\<lambda>p.
     if n \<le> 5 then tf_get p (TF_a0 + 8 * of_nat n) else kpanic ''argraw'')"

definition argint :: "nat \<Rightarrow> ('z kprocs_scheme, 32 word) kmon" where
  "argint n = kbind (argraw n) (\<lambda>v. kret (ucast v))"

definition argaddr :: "nat \<Rightarrow> ('z kprocs_scheme, uint64) kmon" where
  "argaddr n = argraw n"

definition argstr :: "nat \<Rightarrow> nat \<Rightarrow> ('z kprocs_scheme, byte list option) kmon" where
  "argstr n mx = kbind (argaddr n) (\<lambda>a. fetchstr a mx)"

section \<open>Descriptors\<close>

definition argfd :: "nat \<Rightarrow> ('z kprocs_scheme, (nat \<times> nat) option) kmon" where
  "argfd n =
     kbind (argint n) (\<lambda>fd.
     if sint fd < 0 \<or> sint fd \<ge> int NOFILE then kret None else
     kbind curproc (\<lambda>p.
     kbind (pget p (\<lambda>q. ofile q (unat fd))) (\<lambda>f.
     kret (map_option (\<lambda>f. (unat fd, f)) f))))"

fun fdalloc_scan :: "nat \<Rightarrow> nat \<Rightarrow> nat list \<Rightarrow> ('z kprocs_scheme, int) kmon" where
  "fdalloc_scan p f [] = kret (- 1)"
| "fdalloc_scan p f (fd # fds) =
     kbind (pget p (\<lambda>q. ofile q fd)) (\<lambda>g.
     if g = None then kbind (pset p (\<lambda>q. q\<lparr>ofile := (ofile q)(fd := Some f)\<rparr>)) (\<lambda>_. kret (int fd))
     else fdalloc_scan p f fds)"

definition fdalloc :: "nat \<Rightarrow> ('z kprocs_scheme, int) kmon" where
  "fdalloc f = kbind curproc (\<lambda>p. fdalloc_scan p f [0..<NOFILE])"

definition sys_dup :: "('z kfile_scheme, uint64) kmon" where
  "sys_dup =
     kbind (argfd 0) (\<lambda>r.
     case r of None \<Rightarrow> kret (- 1)
     | Some (_, f) \<Rightarrow>
         kbind (fdalloc f) (\<lambda>fd.
         if fd < 0 then kret (- 1) else
         kbind (filedup f) (\<lambda>_. kret (word_of_int fd))))"

definition sys_read :: "('z kfile_scheme, uint64) kmon" where
  "sys_read =
     kbind (argaddr 1) (\<lambda>a.
     kbind (argint 2) (\<lambda>n.
     kbind (argfd 0) (\<lambda>r.
     case r of None \<Rightarrow> kret (- 1)
     | Some (_, f) \<Rightarrow> kbind (fileread f a (sint n)) (\<lambda>v. kret (word_of_int v)))))"

definition sys_write :: "('z kfile_scheme, uint64) kmon" where
  "sys_write =
     kbind (argaddr 1) (\<lambda>a.
     kbind (argint 2) (\<lambda>n.
     kbind (argfd 0) (\<lambda>r.
     case r of None \<Rightarrow> kret (- 1)
     | Some (_, f) \<Rightarrow> kbind (filewrite f a (sint n)) (\<lambda>v. kret (word_of_int v)))))"

definition sys_close :: "('z kfile_scheme, uint64) kmon" where
  "sys_close =
     kbind (argfd 0) (\<lambda>r.
     case r of None \<Rightarrow> kret (- 1)
     | Some (fd, f) \<Rightarrow>
         kbind curproc (\<lambda>p.
         kbind (pset p (\<lambda>q. q\<lparr>ofile := (ofile q)(fd := None)\<rparr>)) (\<lambda>_.
         kbind (fileclose f) (\<lambda>_. kret 0))))"

definition sys_fstat :: "('z kfile_scheme, uint64) kmon" where
  "sys_fstat =
     kbind (argaddr 1) (\<lambda>st.
     kbind (argfd 0) (\<lambda>r.
     case r of None \<Rightarrow> kret (- 1)
     | Some (_, f) \<Rightarrow> kbind (filestat f st) (\<lambda>v. kret (word_of_int v))))"

section \<open>Names\<close>

text \<open>The failure exits of \<open>sys_link\<close> and \<open>sys_unlink\<close> (label \<open>bad\<close>).\<close>

definition link_bad :: "nat \<Rightarrow> ('z kfile_scheme, uint64) kmon" where
  "link_bad ip =
     kbind (ilock ip) (\<lambda>_.
     kbind (iset ip (\<lambda>x. x\<lparr>nlink := nlink x - 1\<rparr>)) (\<lambda>_.
     kbind (iupdate ip) (\<lambda>_.
     kbind (iunlockput ip) (\<lambda>_.
     kbind end_op (\<lambda>_. kret (- 1))))))"

definition link_paths :: "byte list \<Rightarrow> byte list \<Rightarrow> ('z kfile_scheme, uint64) kmon" where
  "link_paths old new =
     kbind begin_op (\<lambda>_.
     kbind (namei old) (\<lambda>r.
     case r of None \<Rightarrow> kbind end_op (\<lambda>_. kret (- 1))
     | Some ip \<Rightarrow>
     kbind (ilock ip) (\<lambda>_.
     kbind (iget_field ip itype) (\<lambda>t.
     if t = T_DIR then kbind (iunlockput ip) (\<lambda>_. kbind end_op (\<lambda>_. kret (- 1))) else
     kbind (iset ip (\<lambda>x. x\<lparr>nlink := nlink x + 1\<rparr>)) (\<lambda>_.
     kbind (iupdate ip) (\<lambda>_.
     kbind (iunlock ip) (\<lambda>_.
     kbind (nameiparent new) (\<lambda>(r, name).
     case r of None \<Rightarrow> link_bad ip
     | Some dp \<Rightarrow>
     kbind (ilock dp) (\<lambda>_.
     kbind (iget_field dp idev) (\<lambda>dd.
     kbind (iget_field ip (\<lambda>x. (idev x, inum x))) (\<lambda>(id, n).
     kbind (if dd \<noteq> id then kret (- 1) else dirlink dp name n) (\<lambda>l.
     if l < 0 then kbind (iunlockput dp) (\<lambda>_. link_bad ip) else
     kbind (iunlockput dp) (\<lambda>_.
     kbind (iput ip) (\<lambda>_.
     kbind end_op (\<lambda>_. kret 0)))))))))))))))"

definition sys_link :: "('z kfile_scheme, uint64) kmon" where
  "sys_link =
     kbind (argstr 0 MAXPATH) (\<lambda>r.
     case r of None \<Rightarrow> kret (- 1)
     | Some old \<Rightarrow>
         kbind (argstr 1 MAXPATH) (\<lambda>r.
         case r of None \<Rightarrow> kret (- 1) | Some new \<Rightarrow> link_paths old new))"

fun isdirempty_loop :: "nat \<Rightarrow> nat list \<Rightarrow> ('z kfs_scheme, bool) kmon" where
  "isdirempty_loop dp [] = kret True"
| "isdirempty_loop dp (off # offs) =
     kbind (readi dp (Kernel_buf []) (of_nat off) 16) (\<lambda>(n, de).
     if n \<noteq> 16 then kpanic ''isdirempty: readi''
     else if de_inum de \<noteq> 0 then kret False
     else isdirempty_loop dp offs)"

text \<open>The entries behind \<open>.\<close> and \<open>..\<close>.\<close>

definition isdirempty :: "nat \<Rightarrow> ('z kfs_scheme, bool) kmon" where
  "isdirempty dp = kbind (iget_field dp isize) (\<lambda>n. isdirempty_loop dp (drop 2 (dirent_offsets n)))"

definition unlink_bad :: "nat \<Rightarrow> ('z kfile_scheme, uint64) kmon" where
  "unlink_bad dp = kbind (iunlockput dp) (\<lambda>_. kbind end_op (\<lambda>_. kret (- 1)))"

definition unlink_path :: "byte list \<Rightarrow> ('z kfile_scheme, uint64) kmon" where
  "unlink_path path =
     kbind begin_op (\<lambda>_.
     kbind (nameiparent path) (\<lambda>(r, name).
     case r of None \<Rightarrow> kbind end_op (\<lambda>_. kret (- 1))
     | Some dp \<Rightarrow>
     kbind (ilock dp) (\<lambda>_.
     if namecmp name [46] = 0 \<or> namecmp name [46, 46] = 0 then unlink_bad dp else
     kbind (dirlookup dp name) (\<lambda>r.
     case r of None \<Rightarrow> unlink_bad dp
     | Some (ip, off) \<Rightarrow>
     kbind (ilock ip) (\<lambda>_.
     kbind (iget_field ip (\<lambda>x. (nlink x, itype x))) (\<lambda>(nl, t).
     if sint nl < 1 then kpanic ''unlink: nlink < 1'' else
     kbind (if t = T_DIR then isdirempty ip else kret True) (\<lambda>e.
     if \<not> e then kbind (iunlockput ip) (\<lambda>_. unlink_bad dp) else
     kbind (writei dp (Kernel_buf (replicate 16 0)) off 16) (\<lambda>w.
     if w \<noteq> 16 then kpanic ''unlink: writei'' else
     kbind (if t = T_DIR then kbind (iset dp (\<lambda>x. x\<lparr>nlink := nlink x - 1\<rparr>)) (\<lambda>_. iupdate dp) else kret ()) (\<lambda>_.
     kbind (iunlockput dp) (\<lambda>_.
     kbind (iset ip (\<lambda>x. x\<lparr>nlink := nlink x - 1\<rparr>)) (\<lambda>_.
     kbind (iupdate ip) (\<lambda>_.
     kbind (iunlockput ip) (\<lambda>_.
     kbind end_op (\<lambda>_. kret 0))))))))))))))"

definition sys_unlink :: "('z kfile_scheme, uint64) kmon" where
  "sys_unlink = kbind (argstr 0 MAXPATH) (\<lambda>r. case r of None \<Rightarrow> kret (- 1) | Some path \<Rightarrow> unlink_path path)"

text \<open>The failure exit of \<open>create\<close>.\<close>

definition create_fail :: "nat \<Rightarrow> nat \<Rightarrow> ('z kfile_scheme, nat option) kmon" where
  "create_fail dp ip =
     kbind (iset ip (\<lambda>x. x\<lparr>nlink := 0\<rparr>)) (\<lambda>_.
     kbind (iupdate ip) (\<lambda>_.
     kbind (iunlockput ip) (\<lambda>_.
     kbind (iunlockput dp) (\<lambda>_. kret None))))"

definition create :: "byte list \<Rightarrow> 16 word \<Rightarrow> 16 word \<Rightarrow> 16 word \<Rightarrow> ('z kfile_scheme, nat option) kmon" where
  "create path ty major minor =
     kbind (nameiparent path) (\<lambda>(r, name).
     case r of None \<Rightarrow> kret None
     | Some dp \<Rightarrow>
     kbind (ilock dp) (\<lambda>_.
     kbind (dirlookup dp name) (\<lambda>r.
     case r of
       Some (ip, _) \<Rightarrow>
         kbind (iunlockput dp) (\<lambda>_.
         kbind (ilock ip) (\<lambda>_.
         kbind (iget_field ip itype) (\<lambda>t.
         if ty = T_FILE \<and> (t = T_FILE \<or> t = T_DEVICE) then kret (Some ip)
         else kbind (iunlockput ip) (\<lambda>_. kret None))))
     | None \<Rightarrow>
     kbind (iget_field dp (\<lambda>x. (idev x, inum x))) (\<lambda>(d, dn).
     kbind (ialloc d ty) (\<lambda>r.
     case r of None \<Rightarrow> kbind (iunlockput dp) (\<lambda>_. kret None)
     | Some ip \<Rightarrow>
     kbind (ilock ip) (\<lambda>_.
     kbind (iset ip (\<lambda>x. x\<lparr>imajor := major, iminor := minor, nlink := 1\<rparr>)) (\<lambda>_.
     kbind (iupdate ip) (\<lambda>_.
     kbind (iget_field ip inum) (\<lambda>n.
     kbind (if ty = T_DIR then
         kbind (dirlink ip [46] n) (\<lambda>l. if l < 0 then kret l else dirlink ip [46, 46] dn)
       else kret 0) (\<lambda>l.
     if l < 0 then create_fail dp ip else
     kbind (dirlink dp name n) (\<lambda>l.
     if l < 0 then create_fail dp ip else
     kbind (if ty = T_DIR then kbind (iset dp (\<lambda>x. x\<lparr>nlink := nlink x + 1\<rparr>)) (\<lambda>_. iupdate dp) else kret ()) (\<lambda>_.
     kbind (iunlockput dp) (\<lambda>_. kret (Some ip))))))))))))))"

section \<open>Opening\<close>

text \<open>
  Following symbolic links, with \<open>k\<close> more allowed (11 at first); \<open>None\<close> when the call has failed, its
  transaction closed.
\<close>

fun follow_links :: "nat \<Rightarrow> nat \<Rightarrow> 32 word \<Rightarrow> ('z kfile_scheme, nat option) kmon" where
  "follow_links k ip omode =
     kbind (iget_field ip itype) (\<lambda>t.
     if t = T_SYMLINK \<and> omode AND O_NOFOLLOW = 0 then
       case k of 0 \<Rightarrow> kbind (iunlockput ip) (\<lambda>_. kbind end_op (\<lambda>_. kret None))
       | Suc k' \<Rightarrow>
           kbind (readi ip (Kernel_buf []) 0 (of_nat (MAXPATH - 1))) (\<lambda>(n, target).
           if n < 0 then kbind (iunlockput ip) (\<lambda>_. kbind end_op (\<lambda>_. kret None)) else
           kbind (iunlockput ip) (\<lambda>_.
           kbind (namei (takeWhile (\<lambda>c. c \<noteq> 0) target)) (\<lambda>r.
           case r of None \<Rightarrow> kbind end_op (\<lambda>_. kret None)
           | Some ip' \<Rightarrow> kbind (ilock ip') (\<lambda>_. follow_links k' ip' omode))))
     else kret (Some ip))"

declare follow_links.simps [simp del]

definition open_inode :: "byte list \<Rightarrow> 32 word \<Rightarrow> ('z kfile_scheme, nat option) kmon" where
  "open_inode path omode =
     (if omode AND O_CREATE \<noteq> 0 then
        kbind (create path T_FILE 0 0) (\<lambda>r.
        if r = None then kbind end_op (\<lambda>_. kret None) else kret r)
      else
        kbind (namei path) (\<lambda>r.
        case r of None \<Rightarrow> kbind end_op (\<lambda>_. kret None)
        | Some ip \<Rightarrow>
            kbind (ilock ip) (\<lambda>_.
            kbind (follow_links 11 ip omode) (\<lambda>r.
            case r of None \<Rightarrow> kret None
            | Some ip \<Rightarrow>
                kbind (iget_field ip itype) (\<lambda>t.
                if t = T_DIR \<and> omode \<noteq> O_RDONLY then
                  kbind (iunlockput ip) (\<lambda>_. kbind end_op (\<lambda>_. kret None))
                else kret (Some ip))))))"

definition open_file :: "nat \<Rightarrow> 32 word \<Rightarrow> ('z kfile_scheme, uint64) kmon" where
  "open_file ip omode =
     kbind (iget_field ip (\<lambda>x. (itype x, imajor x))) (\<lambda>(t, mj).
     if t = T_DEVICE \<and> (sint mj < 0 \<or> sint mj \<ge> NDEV) then
       kbind (iunlockput ip) (\<lambda>_. kbind end_op (\<lambda>_. kret (- 1)))
     else
       kbind filealloc (\<lambda>r.
       case r of None \<Rightarrow> kbind (iunlockput ip) (\<lambda>_. kbind end_op (\<lambda>_. kret (- 1)))
       | Some f \<Rightarrow>
       kbind (fdalloc f) (\<lambda>fd.
       if fd < 0 then
         kbind (fileclose f) (\<lambda>_.
         kbind (iunlockput ip) (\<lambda>_. kbind end_op (\<lambda>_. kret (- 1))))
       else
       kbind (if t = T_DEVICE then fset f (\<lambda>x. x\<lparr>ftype := FD_DEVICE, fmajor := mj\<rparr>)
         else fset f (\<lambda>x. x\<lparr>ftype := FD_INODE, foff := 0\<rparr>)) (\<lambda>_.
       kbind (fset f (\<lambda>x. x\<lparr>fip := ip, freadable := (omode AND O_WRONLY = 0),
         fwritable := (omode AND O_WRONLY \<noteq> 0 \<or> omode AND O_RDWR \<noteq> 0)\<rparr>)) (\<lambda>_.
       kbind (if omode AND O_TRUNC \<noteq> 0 \<and> t = T_FILE then itrunc ip else kret ()) (\<lambda>_.
       kbind (iunlock ip) (\<lambda>_.
       kbind end_op (\<lambda>_. kret (word_of_int fd)))))))))"

definition sys_open :: "('z kfile_scheme, uint64) kmon" where
  "sys_open =
     kbind (argint 1) (\<lambda>omode.
     kbind (argstr 0 MAXPATH) (\<lambda>r.
     case r of None \<Rightarrow> kret (- 1)
     | Some path \<Rightarrow>
         kbind begin_op (\<lambda>_.
         kbind (open_inode path omode) (\<lambda>r.
         case r of None \<Rightarrow> kret (- 1) | Some ip \<Rightarrow> open_file ip omode))))"

definition sys_mkdir :: "('z kfile_scheme, uint64) kmon" where
  "sys_mkdir =
     kbind begin_op (\<lambda>_.
     kbind (argstr 0 MAXPATH) (\<lambda>r.
     kbind (case r of None \<Rightarrow> kret None | Some path \<Rightarrow> create path T_DIR 0 0) (\<lambda>r.
     case r of None \<Rightarrow> kbind end_op (\<lambda>_. kret (- 1))
     | Some ip \<Rightarrow> kbind (iunlockput ip) (\<lambda>_. kbind end_op (\<lambda>_. kret 0)))))"

definition sys_mknod :: "('z kfile_scheme, uint64) kmon" where
  "sys_mknod =
     kbind begin_op (\<lambda>_.
     kbind (argint 1) (\<lambda>major.
     kbind (argint 2) (\<lambda>minor.
     kbind (argstr 0 MAXPATH) (\<lambda>r.
     kbind (case r of None \<Rightarrow> kret None | Some path \<Rightarrow> create path T_DEVICE (ucast major) (ucast minor)) (\<lambda>r.
     case r of None \<Rightarrow> kbind end_op (\<lambda>_. kret (- 1))
     | Some ip \<Rightarrow> kbind (iunlockput ip) (\<lambda>_. kbind end_op (\<lambda>_. kret 0)))))))"

definition sys_chdir :: "('z kfile_scheme, uint64) kmon" where
  "sys_chdir =
     kbind curproc (\<lambda>p.
     kbind begin_op (\<lambda>_.
     kbind (argstr 0 MAXPATH) (\<lambda>r.
     kbind (case r of None \<Rightarrow> kret None | Some path \<Rightarrow> namei path) (\<lambda>r.
     case r of None \<Rightarrow> kbind end_op (\<lambda>_. kret (- 1))
     | Some ip \<Rightarrow>
     kbind (ilock ip) (\<lambda>_.
     kbind (iget_field ip itype) (\<lambda>t.
     if t \<noteq> T_DIR then kbind (iunlockput ip) (\<lambda>_. kbind end_op (\<lambda>_. kret (- 1))) else
     kbind (iunlock ip) (\<lambda>_.
     kbind (pget p cwd) (\<lambda>d.
     case d of None \<Rightarrow> kub ''cwd''
     | Some old \<Rightarrow>
     kbind (iput old) (\<lambda>_.
     kbind end_op (\<lambda>_.
     kbind (pset p (\<lambda>q. q\<lparr>cwd := Some ip\<rparr>)) (\<lambda>_. kret 0)))))))))))"

section \<open>Exec and pipes\<close>

text \<open>
  The argument strings, each in a page of its own; whether all could be fetched. The page of a string that
  could not be read is in the list too.
\<close>

fun fetch_args :: "uint64 \<Rightarrow> nat list \<Rightarrow> (addr \<times> byte list) list \<Rightarrow> ('z kprocs_scheme, bool \<times> (addr \<times> byte list) list) kmon" where
  "fetch_args uargv [] got = kret (False, got)"
| "fetch_args uargv (i # is) got =
     kbind (fetchaddr (uargv + 8 * of_nat i)) (\<lambda>r.
     case r of None \<Rightarrow> kret (False, got)
     | Some uarg \<Rightarrow>
     if uarg = 0 then kret (True, got) else
     kbind (on_mem kalloc) (\<lambda>pg.
     if pg = 0 then kret (False, got) else
     kbind (fetchstr uarg 4096) (\<lambda>r.
     case r of None \<Rightarrow> kret (False, got @ [(pg, [])])
     | Some str \<Rightarrow>
         kbind (on_mem (kmodify (\<lambda>m. m\<lparr>pmem := store_bytes (pmem m) pg (str @ [0])\<rparr>))) (\<lambda>_.
         fetch_args uargv is (got @ [(pg, str)])))))"

definition sys_exec :: "('z kfile_scheme, uint64) kmon" where
  "sys_exec =
     kbind (argaddr 1) (\<lambda>uargv.
     kbind (argstr 0 MAXPATH) (\<lambda>r.
     case r of None \<Rightarrow> kret (- 1)
     | Some path \<Rightarrow>
         kbind (fetch_args uargv [0..<MAXARG] []) (\<lambda>(ok, argv).
         kbind (if ok then kexec path (map snd argv) else kret (- 1)) (\<lambda>ret.
         kbind (kfor (\<lambda>a. on_mem (kfree a)) (map fst argv)) (\<lambda>_. kret (word_of_int ret))))))"

definition sys_pipe :: "('z kfile_scheme, uint64) kmon" where
  "sys_pipe =
     kbind curproc (\<lambda>p.
     kbind (argaddr 0) (\<lambda>fdarray.
     kbind pipealloc (\<lambda>r.
     case r of None \<Rightarrow> kret (- 1)
     | Some (rf, wfile) \<Rightarrow>
     let clear = \<lambda>fd. pset p (\<lambda>q. q\<lparr>ofile := (ofile q)(nat fd := None)\<rparr>);
         close = kbind (fileclose rf) (\<lambda>_. kbind (fileclose wfile) (\<lambda>_. kret (- 1))) in
     kbind (fdalloc rf) (\<lambda>fd0.
     if fd0 < 0 then close else
     kbind (fdalloc wfile) (\<lambda>fd1.
     if fd1 < 0 then kbind (clear fd0) (\<lambda>_. close) else
     kbind (pget p pagetable) (\<lambda>pt.
     kbind (on_mem (copyout pt fdarray (bytes32 (word_of_int fd0)))) (\<lambda>c0.
     kbind (if c0 < 0 then kret c0 else on_mem (copyout pt (fdarray + 4) (bytes32 (word_of_int fd1)))) (\<lambda>c1.
     if c1 < 0 then kbind (clear fd0) (\<lambda>_. kbind (clear fd1) (\<lambda>_. close)) else kret 0))))))))"

text \<open>
  \<open>sys_symlink\<close> does not look at the results of \<open>argstr\<close>: when one fails, the buffer it goes on with is not
  initialised.
\<close>

definition sys_symlink :: "('z kfile_scheme, uint64) kmon" where
  "sys_symlink =
     kbind (argstr 0 MAXPATH) (\<lambda>target.
     kbind (argstr 1 MAXPATH) (\<lambda>path.
     case (target, path) of
       (Some t, Some p) \<Rightarrow> kbind (symlink t p) (\<lambda>r. kret (word_of_int r))
     | _ \<Rightarrow> kub ''sys_symlink''))"

end
