(* ===== verification/Machine.thy ===== *)
theory Machine
  imports Sysfile
begin

text \<open>
  The rest of the machine that C code sees: the supervisor-mode registers of each hart (\<open>kernel/riscv.h\<close>), the
  interrupt controller (\<open>kernel/plic.c\<close>), and the device and timer interrupts of \<open>kernel/trap.c\<close>. The bit
  \<open>SIE\<close> of \<open>sstatus\<close> is the field \<open>sie\<close> that the spin locks use; \<open>sstatus\<close> holds the other bits. What the
  interrupt controller hands out is a parameter: for each hart the interrupts it will claim, in order; the
  clock is what \<open>time\<close> reads.
\<close>

unbundle bit_operations_syntax

abbreviation (input) SSTATUS_SPP :: uint64 where "SSTATUS_SPP \<equiv> 256"
abbreviation (input) SSTATUS_SPIE :: uint64 where "SSTATUS_SPIE \<equiv> 32"
abbreviation (input) SSTATUS_SIE :: uint64 where "SSTATUS_SIE \<equiv> 2"
abbreviation (input) UART0_IRQ :: nat where "UART0_IRQ \<equiv> 10"
abbreviation (input) VIRTIO0_IRQ :: nat where "VIRTIO0_IRQ \<equiv> 1"
abbreviation (input) PLIC :: uint64 where "PLIC \<equiv> 0x0c000000"

record kmachine = kfile +
  sstatus :: "nat \<Rightarrow> uint64"
  sepc :: "nat \<Rightarrow> uint64"
  scause :: "nat \<Rightarrow> uint64"
  stval :: "nat \<Rightarrow> uint64"
  stvec :: "nat \<Rightarrow> uint64"
  satp :: "nat \<Rightarrow> uint64"
  stimecmp :: "nat \<Rightarrow> uint64"
  time :: "nat \<Rightarrow> uint64"
  plic_regs :: "uint64 \<Rightarrow> uint"
  plic_queue :: "nat \<Rightarrow> uint list"
  plic_done :: "(nat \<times> uint) list"
  ticks :: uint
  first :: bool
  started :: bool
  kernel_pagetable :: addr

section \<open>Control registers\<close>

definition r_sstatus :: "('z kmachine_scheme, uint64) kmon" where
  "r_sstatus = kgets (\<lambda>s. (sstatus s (hart s) AND NOT SSTATUS_SIE) OR (if sie s (hart s) then SSTATUS_SIE else 0))"

definition w_sstatus :: "uint64 \<Rightarrow> ('z kmachine_scheme, unit) kmon" where
  "w_sstatus x = kmodify (\<lambda>s. s\<lparr>sstatus := (sstatus s)(hart s := x), sie := (sie s)(hart s := (x AND SSTATUS_SIE \<noteq> 0))\<rparr>)"

definition r_sepc :: "('z kmachine_scheme, uint64) kmon" where
  "r_sepc = kgets (\<lambda>s. sepc s (hart s))"

definition w_sepc :: "uint64 \<Rightarrow> ('z kmachine_scheme, unit) kmon" where
  "w_sepc x = kmodify (\<lambda>s. s\<lparr>sepc := (sepc s)(hart s := x)\<rparr>)"

definition r_scause :: "('z kmachine_scheme, uint64) kmon" where
  "r_scause = kgets (\<lambda>s. scause s (hart s))"

definition r_stval :: "('z kmachine_scheme, uint64) kmon" where
  "r_stval = kgets (\<lambda>s. stval s (hart s))"

definition w_stvec :: "uint64 \<Rightarrow> ('z kmachine_scheme, unit) kmon" where
  "w_stvec x = kmodify (\<lambda>s. s\<lparr>stvec := (stvec s)(hart s := x)\<rparr>)"

definition r_satp :: "('z kmachine_scheme, uint64) kmon" where
  "r_satp = kgets (\<lambda>s. satp s (hart s))"

definition w_satp :: "uint64 \<Rightarrow> ('z kmachine_scheme, unit) kmon" where
  "w_satp x = kmodify (\<lambda>s. s\<lparr>satp := (satp s)(hart s := x)\<rparr>)"

definition r_time :: "('z kmachine_scheme, uint64) kmon" where
  "r_time = kgets (\<lambda>s. time s (hart s))"

definition w_stimecmp :: "uint64 \<Rightarrow> ('z kmachine_scheme, unit) kmon" where
  "w_stimecmp x = kmodify (\<lambda>s. s\<lparr>stimecmp := (stimecmp s)(hart s := x)\<rparr>)"

section \<open>The interrupt controller\<close>

definition PLIC_SENABLE :: "nat \<Rightarrow> uint64" where
  "PLIC_SENABLE h = PLIC + 0x2080 + of_nat h * 0x100"

definition PLIC_SPRIORITY :: "nat \<Rightarrow> uint64" where
  "PLIC_SPRIORITY h = PLIC + 0x201000 + of_nat h * 0x2000"

definition plic_store :: "uint64 \<Rightarrow> uint \<Rightarrow> ('z kmachine_scheme, unit) kmon" where
  "plic_store a v = kmodify (\<lambda>s. s\<lparr>plic_regs := (plic_regs s)(a := v)\<rparr>)"

definition plicinit :: "('z kmachine_scheme, unit) kmon" where
  "plicinit =
     kbind (plic_store (PLIC + of_nat (UART0_IRQ * 4)) 1) (\<lambda>_.
     plic_store (PLIC + of_nat (VIRTIO0_IRQ * 4)) 1)"

definition plicinithart :: "('z kmachine_scheme, unit) kmon" where
  "plicinithart =
     kbind cpuid (\<lambda>h.
     kbind (plic_store (PLIC_SENABLE h) (push_bit UART0_IRQ 1 OR push_bit VIRTIO0_IRQ 1)) (\<lambda>_.
     plic_store (PLIC_SPRIORITY h) 0))"

text \<open>Reading the claim register takes the next interrupt of the hart, 0 when there is none.\<close>

definition plic_claim :: "('z kmachine_scheme, uint) kmon" where
  "plic_claim =
     kbind cpuid (\<lambda>h.
     kbind (kgets (\<lambda>s. case plic_queue s h of [] \<Rightarrow> 0 | q # _ \<Rightarrow> q)) (\<lambda>irq.
     kbind (kmodify (\<lambda>s. s\<lparr>plic_queue := (plic_queue s)(h := tl (plic_queue s h))\<rparr>)) (\<lambda>_.
     kret irq)))"

definition plic_complete :: "uint \<Rightarrow> ('z kmachine_scheme, unit) kmon" where
  "plic_complete irq = kbind cpuid (\<lambda>h. kmodify (\<lambda>s. s\<lparr>plic_done := plic_done s @ [(h, irq)]\<rparr>))"

section \<open>Interrupts\<close>

definition trapinit :: "('z kmachine_scheme, unit) kmon" where
  "trapinit = initlock Ticks_lock"

definition trapinithart :: "('z kmachine_scheme, unit) kmon" where
  "trapinithart = kbind (kgets (\<lambda>s. sym_kernelvec (ksym s))) w_stvec"

definition clockintr :: "('z kmachine_scheme, unit) kmon" where
  "clockintr =
     kbind cpuid (\<lambda>h.
     kbind (if h = 0 then
         kbind (acquire Ticks_lock) (\<lambda>_.
         kbind (kmodify (\<lambda>s. s\<lparr>ticks := ticks s + 1\<rparr>)) (\<lambda>_.
         kbind (wakeup (Some Chan_ticks)) (\<lambda>_.
         release Ticks_lock)))
       else kret ()) (\<lambda>_.
     kbind r_time (\<lambda>t. w_stimecmp (t + 1000000))))"

text \<open>1 for a device interrupt, 2 for the timer, 0 for neither.\<close>

definition devintr :: "('z kmachine_scheme, nat) kmon" where
  "devintr =
     kbind r_scause (\<lambda>c.
     if c = 0x8000000000000009 then
       kbind plic_claim (\<lambda>irq.
       kbind (if unat irq = UART0_IRQ then uartintr
         else if unat irq = VIRTIO0_IRQ then virtio_disk_intr
         else if irq \<noteq> 0 then
           kbind (printf (map of_char ''unexpected interrupt irq=%d'' @ [10]) [Va_int irq]) (\<lambda>_. kret ())
         else kret ()) (\<lambda>_.
       kbind (if irq \<noteq> 0 then plic_complete irq else kret ()) (\<lambda>_.
       kret 1)))
     else if c = 0x8000000000000005 then kbind clockintr (\<lambda>_. kret 2)
     else kret 0)"

end
