(* ===== verification/Sysproc.thy ===== *)
theory Sysproc
  imports Machine
begin

text \<open>
  \<open>kernel/sysproc.c\<close>: the system calls on processes, memory, time, shared memory and mailboxes.
\<close>

unbundle bit_operations_syntax

abbreviation (input) SBRK_EAGER :: "32 word" where "SBRK_EAGER \<equiv> 1"

definition sys_exit :: "('z kmachine_scheme, uint64) kmon" where
  "sys_exit = kbind (argint 0) (\<lambda>n. kbind (kexit (sint n)) (\<lambda>_. kret 0))"

definition sys_getpid :: "('z kmachine_scheme, uint64) kmon" where
  "sys_getpid = kbind curproc (\<lambda>p. kbind (pget p pid) (\<lambda>n. kret (word_of_int n)))"

definition sys_fork :: "('z kmachine_scheme, uint64) kmon" where
  "sys_fork = kbind kfork (\<lambda>r. kret (word_of_int r))"

definition sys_wait :: "('z kmachine_scheme, uint64) kmon" where
  "sys_wait = kbind (argaddr 0) (\<lambda>a. kbind (kwait a) (\<lambda>r. kret (word_of_int r)))"

definition sys_sbrk :: "('z kmachine_scheme, uint64) kmon" where
  "sys_sbrk =
     kbind (argint 0) (\<lambda>n.
     kbind (argint 1) (\<lambda>t.
     kbind curproc (\<lambda>p.
     kbind (pget p sz) (\<lambda>a.
     if t = SBRK_EAGER \<or> sint n < 0 then
       kbind (growproc n) (\<lambda>r. if r < 0 then kret (- 1) else kret a)
     else if a + scast n < a then kret (- 1)
     else
       kbind curproc (\<lambda>p.
       kbind (pset p (\<lambda>q. q\<lparr>sz := sz q + scast n\<rparr>)) (\<lambda>_. kret a))))))"

text \<open>One pass of the waiting loop of \<open>sys_pause\<close>, which began at \<open>ticks0\<close>.\<close>

definition pause_loop :: "uint \<Rightarrow> uint \<Rightarrow> ('z kmachine_scheme, uint64) kmon" where
  "pause_loop ticks0 n =
     kbind (kgets ticks) (\<lambda>t.
     if t - ticks0 < n then
       kbind curproc (\<lambda>p.
       kbind (killed p) (\<lambda>k.
       if k then kbind (release Ticks_lock) (\<lambda>_. kret (- 1))
       else kbind (sleep Chan_ticks Ticks_lock) (\<lambda>_. kblock)))
     else kbind (release Ticks_lock) (\<lambda>_. kret 0))"

definition sys_pause :: "('z kmachine_scheme, uint64) kmon" where
  "sys_pause =
     kbind (argint 0) (\<lambda>n.
     let n = (if sint n < 0 then 0 else n) in
     kbind (acquire Ticks_lock) (\<lambda>_.
     kbind (kgets ticks) (\<lambda>ticks0.
     pause_loop ticks0 n)))"

definition sys_kill :: "('z kmachine_scheme, uint64) kmon" where
  "sys_kill = kbind (argint 0) (\<lambda>n. kbind (kkill (sint n)) (\<lambda>r. kret (word_of_int r)))"

definition sys_uptime :: "('z kmachine_scheme, uint64) kmon" where
  "sys_uptime =
     kbind (acquire Ticks_lock) (\<lambda>_.
     kbind (kgets ticks) (\<lambda>x.
     kbind (release Ticks_lock) (\<lambda>_. kret (ucast x))))"

definition sys_shm_create :: "('z kmachine_scheme, uint64) kmon" where
  "sys_shm_create = kbind (argint 0) (\<lambda>key. kbind (shm_create (sint key)) (\<lambda>r. kret (word_of_int r)))"

definition sys_shm_get :: "('z kmachine_scheme, uint64) kmon" where
  "sys_shm_get = kbind (argint 0) (\<lambda>key. shm_get (sint key))"

definition sys_shm_close :: "('z kmachine_scheme, uint64) kmon" where
  "sys_shm_close = kbind (argint 0) (\<lambda>key. kbind (shm_close (sint key)) (\<lambda>r. kret (word_of_int r)))"

definition sys_mbox_create :: "('z kmachine_scheme, uint64) kmon" where
  "sys_mbox_create = kbind (argint 0) (\<lambda>key. kbind (mbox_create (sint key)) (\<lambda>r. kret (word_of_int r)))"

definition sys_mbox_send :: "('z kmachine_scheme, uint64) kmon" where
  "sys_mbox_send =
     kbind (argint 0) (\<lambda>id.
     kbind (argint 1) (\<lambda>msg.
     kbind (mbox_send (sint id) (sint msg)) (\<lambda>r. kret (word_of_int r))))"

definition sys_mbox_recv :: "('z kmachine_scheme, uint64) kmon" where
  "sys_mbox_recv =
     kbind (argint 0) (\<lambda>id.
     kbind (argaddr 1) (\<lambda>a.
     kbind (mbox_recv (sint id)) (\<lambda>(r, val).
     case val of
       Some v \<Rightarrow>
         if r = 0 then
           kbind curproc (\<lambda>p.
           kbind (pget p pagetable) (\<lambda>pt.
           kbind (on_mem (copyout pt a (bytes32 (word_of_int v)))) (\<lambda>c.
           if c < 0 then kret (- 1) else kret (word_of_int r))))
         else kret (word_of_int r)
     | None \<Rightarrow> kret (word_of_int r))))"

end
