(* ===== verification/Trap.thy ===== *)
theory Trap
  imports Sysproc
begin

text \<open>
  The dispatch of system calls (\<open>syscall\<close> of \<open>kernel/syscall.c\<close>), the traps from user and kernel mode
  (\<open>kernel/trap.c\<close>), and the first steps of a new process (\<open>forkret\<close> of \<open>kernel/proc.c\<close>). The assembly code
  that saves and restores registers is outside: \<open>usertrap\<close> returns the value for \<open>satp\<close> that it expects.
\<close>

unbundle bit_operations_syntax

section \<open>System calls\<close>

text \<open>The table \<open>syscalls\<close>, indexed by the numbers of \<open>kernel/syscall.h\<close>.\<close>

definition syscalls :: "('z kmachine_scheme, uint64) kmon option list" where
  "syscalls = [None, Some sys_fork, Some sys_exit, Some sys_wait, Some sys_pipe, Some sys_read, Some sys_kill,
     Some sys_exec, Some sys_fstat, Some sys_chdir, Some sys_dup, Some sys_getpid, Some sys_sbrk, Some sys_pause,
     Some sys_uptime, Some sys_open, Some sys_write, Some sys_mknod, Some sys_unlink, Some sys_link, Some sys_mkdir,
     Some sys_close, Some sys_shm_create, Some sys_shm_get, Some sys_shm_close, Some sys_mbox_create,
     Some sys_mbox_send, Some sys_mbox_recv, Some sys_symlink]"

definition syscall :: "('z kmachine_scheme, unit) kmon" where
  "syscall =
     kbind curproc (\<lambda>p.
     kbind (tf_get p TF_a7) (\<lambda>a7.
     let num = sint (ucast a7 :: 32 word); table = syscalls in
     case (if 0 < num \<and> num < int (length table) then table ! nat num else None) of
       Some f \<Rightarrow> kbind f (\<lambda>r. tf_set p TF_a0 r)
     | None \<Rightarrow>
         kbind (pget p (\<lambda>q. (pid q, pname q))) (\<lambda>(n, name).
         kbind (printf (map of_char ''%d %s: unknown sys call %d'' @ [10])
           [Va_int (word_of_int n), Va_str (Some name), Va_int (ucast a7)]) (\<lambda>_.
         tf_set p TF_a0 (- 1)))))"

section \<open>Traps\<close>

definition prepare_return :: "('z kmachine_scheme, unit) kmon" where
  "prepare_return =
     kbind curproc (\<lambda>p.
     kbind intr_off (\<lambda>_.
     kbind (kgets ksym) (\<lambda>sy.
     kbind (w_stvec (TRAMPOLINE + (sym_uservec sy - sym_trampoline sy))) (\<lambda>_.
     kbind r_satp (\<lambda>sp.
     kbind (tf_set p TF_kernel_satp sp) (\<lambda>_.
     kbind (pget p kstack) (\<lambda>ks.
     kbind (tf_set p TF_kernel_sp (ks + PGSIZE)) (\<lambda>_.
     kbind (tf_set p TF_kernel_trap (sym_usertrap sy)) (\<lambda>_.
     kbind (kgets hart) (\<lambda>tp.
     kbind (tf_set p TF_kernel_hartid (of_nat tp)) (\<lambda>_.
     kbind r_sstatus (\<lambda>x.
     kbind (w_sstatus ((x AND NOT SSTATUS_SPP) OR SSTATUS_SPIE)) (\<lambda>_.
     kbind (tf_get p TF_epc) (\<lambda>epc.
     w_sepc epc))))))))))))))"

text \<open>A page fault of the running program; the result of the second walk is not used.\<close>

definition usertrap_fault :: "nat \<Rightarrow> ('z kmachine_scheme, unit) kmon" where
  "usertrap_fault p =
     kbind r_stval (\<lambda>va.
     kbind r_scause (\<lambda>c.
     kbind (pset p (\<lambda>q. q\<lparr>page_faults := page_faults q + 1\<rparr>)) (\<lambda>_.
     kbind (pget p pagetable) (\<lambda>pt.
     kbind (on_mem (vmfault pt va (c = 15))) (\<lambda>pa.
     if pa = 0 then
       kbind (pget p pid) (\<lambda>n.
       kbind (printf (map of_char ''usertrap(): vmfault failed (scause=0x%lx) pid=%d va=0x%lx'' @ [10])
         [Va_long c, Va_int (word_of_int n), Va_long va]) (\<lambda>_.
       setkilled p))
     else kbind (on_mem (walk pt (PGROUNDDOWN va) False)) (\<lambda>_. kret ()))))))"

definition usertrap_unexpected :: "nat \<Rightarrow> ('z kmachine_scheme, unit) kmon" where
  "usertrap_unexpected p =
     kbind r_scause (\<lambda>c.
     kbind (pget p pid) (\<lambda>n.
     kbind (printf (map of_char ''usertrap(): unexpected scause 0x%lx pid=%d'' @ [10]) [Va_long c, Va_int (word_of_int n)]) (\<lambda>_.
     kbind r_sepc (\<lambda>e.
     kbind r_stval (\<lambda>v.
     kbind (printf (map of_char ''            sepc=0x%lx stval=0x%lx'' @ [10]) [Va_long e, Va_long v]) (\<lambda>_.
     setkilled p))))))"

definition usertrap :: "('z kmachine_scheme, uint64) kmon" where
  "usertrap =
     kbind r_sstatus (\<lambda>st.
     if st AND SSTATUS_SPP \<noteq> 0 then kpanic ''usertrap: not from user mode'' else
     kbind (kgets (\<lambda>s. sym_kernelvec (ksym s))) (\<lambda>kv.
     kbind (w_stvec kv) (\<lambda>_.
     kbind curproc (\<lambda>p.
     kbind r_sepc (\<lambda>e.
     kbind (tf_set p TF_epc e) (\<lambda>_.
     kbind r_scause (\<lambda>c.
     kbind (if c = 8 then
         kbind (killed p) (\<lambda>k.
         kbind (if k then kexit (- 1) else kret ()) (\<lambda>_.
         kbind (tf_get p TF_epc) (\<lambda>epc.
         kbind (tf_set p TF_epc (epc + 4)) (\<lambda>_.
         kbind intr_on (\<lambda>_.
         kbind syscall (\<lambda>_. kret 0))))))
       else
         kbind devintr (\<lambda>d.
         if d \<noteq> 0 then kret d
         else if c = 15 \<or> c = 13 then kbind (usertrap_fault p) (\<lambda>_. kret 0)
         else kbind (usertrap_unexpected p) (\<lambda>_. kret 0))) (\<lambda>which_dev.
     kbind (killed p) (\<lambda>k.
     kbind (if k then kexit (- 1) else kret ()) (\<lambda>_.
     kbind (if which_dev = 2 then yield else kret ()) (\<lambda>_.
     kbind prepare_return (\<lambda>_.
     kbind (pget p pagetable) (\<lambda>pt. kret (MAKE_SATP pt))))))))))))))"

definition kerneltrap :: "('z kmachine_scheme, unit) kmon" where
  "kerneltrap =
     kbind r_sepc (\<lambda>e.
     kbind r_sstatus (\<lambda>st.
     kbind r_scause (\<lambda>c.
     if st AND SSTATUS_SPP = 0 then kpanic ''kerneltrap: not from supervisor mode'' else
     kbind intr_get (\<lambda>on.
     if on then kpanic ''kerneltrap: interrupts enabled'' else
     kbind devintr (\<lambda>d.
     if d = 0 then
       kbind r_sepc (\<lambda>e.
       kbind r_stval (\<lambda>v.
       kbind (printf (map of_char ''scause=0x%lx sepc=0x%lx stval=0x%lx'' @ [10]) [Va_long c, Va_long e, Va_long v]) (\<lambda>_.
       kpanic ''kerneltrap'')))
     else
       kbind (if d = 2 then kbind myproc (\<lambda>p. kret (p \<noteq> None)) else kret False) (\<lambda>y.
       kbind (if y then yield else kret ()) (\<lambda>_.
       kbind (w_sepc e) (\<lambda>_.
       w_sstatus st))))))))"

section \<open>The first run of a process\<close>

text \<open>The value of \<open>satp\<close> handed to the trampoline, and the address it is called at.\<close>

definition forkret :: "('z kmachine_scheme, uint64 \<times> uint64) kmon" where
  "forkret =
     kbind curproc (\<lambda>p.
     kbind (release (Proc_lock p)) (\<lambda>_.
     kbind (kgets first) (\<lambda>f.
     kbind (if f then
         kbind (fsinit ROOTDEV) (\<lambda>_.
         kbind (kmodify (\<lambda>s. s\<lparr>first := False\<rparr>)) (\<lambda>_.
         kbind (kexec (map of_char ''/init'') [map of_char ''/init'']) (\<lambda>r.
         kbind (tf_set p TF_a0 (word_of_int r)) (\<lambda>_.
         kbind (tf_get p TF_a0) (\<lambda>a0.
         if a0 = - 1 then kpanic ''exec'' else kret ())))))
       else kret ()) (\<lambda>_.
     kbind prepare_return (\<lambda>_.
     kbind (pget p pagetable) (\<lambda>pt.
     kbind (kgets ksym) (\<lambda>sy.
     kret (MAKE_SATP pt, TRAMPOLINE + (sym_userret sy - sym_trampoline sy)))))))))"

end
