(* ===== verification/Boot.thy ===== *)
theory Boot
  imports Trap
begin

text \<open>
  Booting: the kernel page table (\<open>kvmmake\<close> of \<open>kernel/vm.c\<close>, \<open>proc_mapstacks\<close> of \<open>kernel/proc.c\<close>), \<open>main\<close>
  (\<open>kernel/main.c\<close>), and the machine-mode set-up (\<open>kernel/start.c\<close>). The address of the end of the kernel's code
  is a parameter. \<open>main\<close> ends in the first round of the scheduler.
\<close>

unbundle bit_operations_syntax

abbreviation (input) UART0 :: uint64 where "UART0 \<equiv> 0x10000000"
abbreviation (input) VIRTIO0 :: uint64 where "VIRTIO0 \<equiv> 0x10001000"

definition proc_mapstacks :: "addr \<Rightarrow> (phys, unit) kmon" where
  "proc_mapstacks kpgtbl =
     kfor (\<lambda>p.
       kbind kalloc (\<lambda>pa.
       if pa = 0 then kpanic ''kalloc'' else
       kvmmap kpgtbl (KSTACK p) pa PGSIZE (PTE_R OR PTE_W))) [0..<NPROC]"

definition kvmmake :: "addr \<Rightarrow> addr \<Rightarrow> (phys, addr) kmon" where
  "kvmmake etext tramp =
     kbind kalloc (\<lambda>kpgtbl.
     kbind (zero_page kpgtbl) (\<lambda>_.
     kbind (kvmmap kpgtbl UART0 UART0 PGSIZE (PTE_R OR PTE_W)) (\<lambda>_.
     kbind (kvmmap kpgtbl VIRTIO0 VIRTIO0 PGSIZE (PTE_R OR PTE_W)) (\<lambda>_.
     kbind (kvmmap kpgtbl PLIC PLIC 0x4000000 (PTE_R OR PTE_W)) (\<lambda>_.
     kbind (kvmmap kpgtbl KERNBASE KERNBASE (etext - KERNBASE) (PTE_R OR PTE_X)) (\<lambda>_.
     kbind (kvmmap kpgtbl etext etext (PHYSTOP - etext) (PTE_R OR PTE_W)) (\<lambda>_.
     kbind (kvmmap kpgtbl TRAMPOLINE tramp PGSIZE (PTE_R OR PTE_X)) (\<lambda>_.
     kbind (proc_mapstacks kpgtbl) (\<lambda>_.
     kret kpgtbl)))))))))"

definition kvminit :: "addr \<Rightarrow> ('z kmachine_scheme, unit) kmon" where
  "kvminit etext =
     kbind (kgets (\<lambda>s. sym_trampoline (ksym s))) (\<lambda>tramp.
     kbind (on_mem (kvmmake etext tramp)) (\<lambda>pt.
     kmodify (\<lambda>s. s\<lparr>kernel_pagetable := pt\<rparr>)))"

definition kvminithart :: "('z kmachine_scheme, unit) kmon" where
  "kvminithart = kbind (kgets kernel_pagetable) (\<lambda>pt. w_satp (MAKE_SATP pt))"

definition kmain :: "addr \<Rightarrow> ('z kmachine_scheme, nat option) kmon" where
  "kmain etext =
     kbind cpuid (\<lambda>h.
     kbind (if h = 0 then
         kbind consoleinit (\<lambda>_.
         kbind printfinit (\<lambda>_.
         kbind (printf [10] []) (\<lambda>_.
         kbind (printf (map of_char ''xv6 kernel is booting'' @ [10]) []) (\<lambda>_.
         kbind (printf [10] []) (\<lambda>_.
         kbind (on_mem kinit) (\<lambda>_.
         kbind (kvminit etext) (\<lambda>_.
         kbind kvminithart (\<lambda>_.
         kbind procinit (\<lambda>_.
         kbind trapinit (\<lambda>_.
         kbind trapinithart (\<lambda>_.
         kbind plicinit (\<lambda>_.
         kbind plicinithart (\<lambda>_.
         kbind binit (\<lambda>_.
         kbind iinit (\<lambda>_.
         kbind fileinit (\<lambda>_.
         kbind virtio_disk_init (\<lambda>_.
         kbind userinit (\<lambda>_.
         kbind shminit (\<lambda>_.
         kbind mboxinit (\<lambda>_.
         kmodify (\<lambda>s. s\<lparr>started := True\<rparr>)))))))))))))))))))))
       else
         kbind (kgets started) (\<lambda>st.
         if \<not> st then kblock else
         kbind (printf (map of_char ''hart %d starting'' @ [10]) [Va_int (of_nat h)]) (\<lambda>_.
         kbind kvminithart (\<lambda>_.
         kbind trapinithart (\<lambda>_.
         plicinithart))))) (\<lambda>_.
     scheduler_round))"

section \<open>Machine mode\<close>

text \<open>The registers of one hart that \<open>start\<close> sets up; \<open>privilege\<close> and \<open>pc\<close> are what \<open>mret\<close> continues with.\<close>

record mregs =
  mstatus :: uint64
  mepc :: uint64
  m_satp :: uint64
  medeleg :: uint64
  mideleg :: uint64
  m_sie :: uint64
  pmpaddr0 :: uint64
  pmpcfg0 :: uint64
  mie :: uint64
  menvcfg :: uint64
  mcounteren :: uint64
  m_stimecmp :: uint64
  m_time :: uint64
  mhartid :: uint64
  reg_tp :: uint64
  privilege :: uint64
  reg_pc :: uint64

definition timerinit :: "mregs \<Rightarrow> mregs" where
  "timerinit m =
     (let m = m\<lparr>mie := mie m OR push_bit 5 1\<rparr>;
          m = m\<lparr>menvcfg := menvcfg m OR push_bit 63 1\<rparr>;
          m = m\<lparr>mcounteren := mcounteren m OR 2\<rparr>
      in m\<lparr>m_stimecmp := m_time m + 1000000\<rparr>)"

text \<open>\<open>mret\<close> continues at \<open>mepc\<close> in the mode that the field MPP of \<open>mstatus\<close> names.\<close>

definition mret :: "mregs \<Rightarrow> mregs" where
  "mret m = m\<lparr>privilege := drop_bit 11 (mstatus m) AND 3, reg_pc := mepc m\<rparr>"

definition start :: "addr \<Rightarrow> mregs \<Rightarrow> mregs" where
  "start main_addr m =
     (let x = mstatus m; x = x AND NOT (push_bit 11 3); x = x OR push_bit 11 1;
          m = m\<lparr>mstatus := x\<rparr>;
          m = m\<lparr>mepc := main_addr\<rparr>;
          m = m\<lparr>m_satp := 0\<rparr>;
          m = m\<lparr>medeleg := 0xffff\<rparr>;
          m = m\<lparr>mideleg := 0xffff\<rparr>;
          m = m\<lparr>m_sie := m_sie m OR push_bit 9 1 OR push_bit 5 1\<rparr>;
          m = m\<lparr>pmpaddr0 := 0x3fffffffffffff\<rparr>;
          m = m\<lparr>pmpcfg0 := 0xf\<rparr>;
          m = timerinit m;
          m = m\<lparr>reg_tp := scast (ucast (mhartid m) :: 32 word)\<rparr>
      in mret m)"

end
