(* ===== verification/Mkfs.thy ===== *)
theory Mkfs
  imports Fs_Facts
begin

text \<open>
  \<open>mkfs/mkfs.c\<close>: the host program that makes the initial file system. The image is the list of the sectors of the image file;
  a write behind its end extends it with zeroes, a read there fails. The host is little-endian. What the host's files hold and
  which accesses to the image fail are parts of the state. \<open>die\<close> and a failing \<open>assert\<close> are \<open>Panic\<close> with a message; the messages
  on the standard output are left out.
\<close>

unbundle bit_operations_syntax

abbreviation (input) FSSIZE :: nat where "FSSIZE \<equiv> 4000"
abbreviation (input) NINODES :: nat where "NINODES \<equiv> 200"

text \<open>\<open>host_reads\<close>: what the reads of a host file return one after the other, or \<open>None\<close> for a file that cannot be opened.\<close>

record mkfs =
  fsfd :: "block list"
  mk_sb :: superblock
  freeinode :: uint
  freeblock :: uint
  host_fails :: "string \<Rightarrow> uint \<Rightarrow> bool"
  host_reads :: "byte list \<Rightarrow> byte list list option"

record dinode =
  d_type :: "16 word"
  d_major :: "16 word"
  d_minor :: "16 word"
  d_nlink :: "16 word"
  d_size :: uint
  d_addrs :: "uint list"

definition nbitmap :: nat where
  "nbitmap = FSSIZE div (1024 * 8) + 1"

definition ninodeblocks :: nat where
  "ninodeblocks = NINODES div (1024 div 64) + 1"

definition nlog :: nat where
  "nlog = LOGBLOCKS + 1"

definition xshort :: "16 word \<Rightarrow> 16 word" where
  "xshort x = load16 (\<lambda>i. [ucast x, ucast (drop_bit 8 x)] ! i) 0"

definition xint :: "uint \<Rightarrow> uint" where
  "xint x = load32 (\<lambda>i. [ucast x, ucast (drop_bit 8 x), ucast (drop_bit 16 x), ucast (drop_bit 24 x)] ! i) 0"

definition die :: "string \<Rightarrow> (mkfs, 'a) kmon" where
  "die msg = kpanic msg"

definition host_assert :: "bool \<Rightarrow> (mkfs, unit) kmon" where
  "host_assert b = (if b then kret () else kpanic ''assert'')"

section \<open>Sectors\<close>

text \<open>The sector at the file offset \<open>sec * BSIZE\<close>, a 32-bit product.\<close>

definition sector :: "uint \<Rightarrow> nat" where
  "sector sec = unat (sec * 1024) div 1024"

definition put_sector :: "nat \<Rightarrow> block \<Rightarrow> block list \<Rightarrow> block list" where
  "put_sector k x xs = (if k < length xs then xs[k := x] else xs @ replicate (k - length xs) (\<lambda>_. 0) @ [x])"

definition wsect :: "uint \<Rightarrow> block \<Rightarrow> (mkfs, unit) kmon" where
  "wsect sec x =
     kbind (kgets host_fails) (\<lambda>bad.
     if bad ''lseek'' sec then die ''lseek'' else
     if bad ''write'' sec then die ''write'' else
     kmodify (\<lambda>s. s\<lparr>fsfd := put_sector (sector sec) x (fsfd s)\<rparr>))"

definition rsect :: "uint \<Rightarrow> (mkfs, block) kmon" where
  "rsect sec =
     kbind (kgets host_fails) (\<lambda>bad.
     if bad ''lseek'' sec then die ''lseek'' else
     kbind (kgets fsfd) (\<lambda>xs.
     if bad ''read'' sec \<or> length xs \<le> sector sec then die ''read'' else kret (xs ! sector sec)))"

section \<open>Inodes\<close>

definition host_dinode :: "block \<Rightarrow> nat \<Rightarrow> dinode" where
  "host_dinode x dip = \<lparr>d_type = load16 x dip, d_major = load16 x (dip + 2), d_minor = load16 x (dip + 4),
     d_nlink = load16 x (dip + 6), d_size = load32 x (dip + 8), d_addrs = map (\<lambda>i. load32 x (dip + 12 + 4 * i)) [0..<NDIRECT + 2]\<rparr>"

definition set_host_dinode :: "dinode \<Rightarrow> nat \<Rightarrow> block \<Rightarrow> block" where
  "set_host_dinode ip dip x =
     fold (\<lambda>i y. store32 y (dip + 12 + 4 * i) (d_addrs ip ! i)) [0..<NDIRECT + 2]
       (store32 (store16 (store16 (store16 (store16 x dip (d_type ip)) (dip + 2) (d_major ip)) (dip + 4) (d_minor ip))
         (dip + 6) (d_nlink ip)) (dip + 8) (d_size ip))"

definition winode :: "uint \<Rightarrow> dinode \<Rightarrow> (mkfs, unit) kmon" where
  "winode ino ip =
     kbind (kgets (\<lambda>s. IBLOCK ino (mk_sb s))) (\<lambda>bn.
     kbind (rsect bn) (\<lambda>buf.
     wsect bn (set_host_dinode ip (dinode_off ino) buf)))"

definition rinode :: "uint \<Rightarrow> (mkfs, dinode) kmon" where
  "rinode ino =
     kbind (kgets (\<lambda>s. IBLOCK ino (mk_sb s))) (\<lambda>bn.
     kbind (rsect bn) (\<lambda>buf.
     kret (host_dinode buf (dinode_off ino))))"

definition mk_ialloc :: "16 word \<Rightarrow> (mkfs, uint) kmon" where
  "mk_ialloc type =
     kbind (kgets freeinode) (\<lambda>ino.
     kbind (kmodify (\<lambda>s. s\<lparr>freeinode := freeinode s + 1\<rparr>)) (\<lambda>_.
     let din = \<lparr>d_type = xshort type, d_major = 0, d_minor = 0, d_nlink = xshort 1, d_size = xint 0,
       d_addrs = replicate (NDIRECT + 2) 0\<rparr> in
     kbind (winode ino din) (\<lambda>_.
     kret ino)))"

text \<open>\<open>freeblock++\<close>\<close>

definition new_block :: "(mkfs, uint) kmon" where
  "new_block = kbind (kgets freeblock) (\<lambda>b. kbind (kmodify (\<lambda>s. s\<lparr>freeblock := freeblock s + 1\<rparr>)) (\<lambda>_. kret b))"

section \<open>Appending to a file\<close>

text \<open>\<open>din.addrs[i]\<close>, allocated when it is 0.\<close>

definition need_addr :: "dinode \<Rightarrow> nat \<Rightarrow> (mkfs, dinode) kmon" where
  "need_addr din i =
     (if xint (d_addrs din ! i) = 0 then
        kbind new_block (\<lambda>b. kret (din\<lparr>d_addrs := (d_addrs din)[i := xint b]\<rparr>))
      else kret din)"

text \<open>Entry \<open>i\<close> of the block of addresses \<open>tab\<close>, allocated when it is 0.\<close>

definition need_entry :: "uint \<Rightarrow> nat \<Rightarrow> (mkfs, uint) kmon" where
  "need_entry tab i =
     kbind (rsect tab) (\<lambda>indirect.
     if load32 indirect (4 * i) = 0 then
       kbind new_block (\<lambda>b.
       let indirect = store32 indirect (4 * i) (xint b) in
       kbind (wsect tab indirect) (\<lambda>_.
       kret (xint (load32 indirect (4 * i)))))
     else kret (xint (load32 indirect (4 * i))))"

text \<open>The block of the file's block number \<open>fbn\<close>, and the inode.\<close>

definition iappend_block :: "dinode \<Rightarrow> nat \<Rightarrow> (mkfs, uint \<times> dinode) kmon" where
  "iappend_block din fbn =
     (if fbn < NDIRECT then
        kbind (need_addr din fbn) (\<lambda>din.
        kret (xint (d_addrs din ! fbn), din))
      else if fbn < NDIRECT + NINDIRECT then
        kbind (need_addr din NDIRECT) (\<lambda>din.
        kbind (need_entry (xint (d_addrs din ! NDIRECT)) (fbn - NDIRECT)) (\<lambda>x.
        kret (x, din)))
      else
        kbind (need_addr din (NDIRECT + 1)) (\<lambda>din.
        kbind (need_entry (xint (d_addrs din ! (NDIRECT + 1))) ((fbn - NDIRECT - NINDIRECT) div NINDIRECT)) (\<lambda>tab.
        kbind (need_entry tab ((fbn - NDIRECT - NINDIRECT) mod NINDIRECT)) (\<lambda>x.
        kret (x, din)))))"

lemma next_block_start: "k < (k div 1024 + 1) * (1024 :: nat)"
  using dividend_less_div_times [of 1024 k] by simp

text \<open>The loop over the \<open>n\<close> bytes that are left: the inode and the offset at the end.\<close>

function iappend_loop :: "dinode \<Rightarrow> uint \<Rightarrow> byte list \<Rightarrow> (mkfs, dinode \<times> uint) kmon" where
  "iappend_loop din off p =
     (if p = [] then kret (din, off) else
      let fbn = unat off div 1024 in
      kbind (host_assert (fbn < MAXFILE)) (\<lambda>_.
      kbind (iappend_block din fbn) (\<lambda>(x, din).
      let n1 = min (length p) ((fbn + 1) * 1024 - unat off) in
      kbind (rsect x) (\<lambda>buf.
      kbind (wsect x (put_bytes buf (unat off - fbn * 1024) (take n1 p))) (\<lambda>_.
      iappend_loop din (off + of_nat n1) (drop n1 p))))))"
  by pat_completeness auto
termination
proof (relation "measure (\<lambda>(din, off, p). length p)")
  fix off :: uint and p :: "byte list" and fbn n1 :: nat
  assume "p \<noteq> []" "fbn = unat off div 1024" "n1 = min (length p) ((fbn + 1) * 1024 - unat off)"
  then have "0 < n1" "0 < length p" using next_block_start [of "unat off"] by auto
  then have "length (drop n1 p) < length p" by (simp only: length_drop diff_less)
  then show "((a, off + of_nat n1, drop n1 p), b, off, p) \<in> measure (\<lambda>(din, off, p). length p)" for a b by simp
qed simp

declare iappend_loop.simps [simp del]

definition iappend :: "uint \<Rightarrow> byte list \<Rightarrow> (mkfs, unit) kmon" where
  "iappend ino p =
     kbind (rinode ino) (\<lambda>din.
     kbind (iappend_loop din (xint (d_size din)) p) (\<lambda>(din, off).
     winode ino (din\<lparr>d_size := xint off\<rparr>)))"

section \<open>The program\<close>

definition mk_balloc :: "int \<Rightarrow> (mkfs, unit) kmon" where
  "mk_balloc used =
     kbind (host_assert (used < 8192)) (\<lambda>_.
     let buf = fold (\<lambda>i x. x(i div 8 := x (i div 8) OR push_bit (i mod 8) 1)) [0..<nat used] (\<lambda>_. 0) in
     kbind (kgets (\<lambda>s. sb_bmapstart (mk_sb s))) (\<lambda>bn. wsect bn buf))"

definition sb_block :: "superblock \<Rightarrow> block" where
  "sb_block b = fold (\<lambda>(i, v) x. store32 x (4 * i) v) (enumerate 0 [sb_magic b, sb_size b, sb_nblocks b, sb_ninodes b,
     sb_nlog b, sb_logstart b, sb_inodestart b, sb_bmapstart b]) (\<lambda>_. 0)"

definition nmeta :: nat where
  "nmeta = 2 + nlog + ninodeblocks + nbitmap"

definition mk_superblock :: superblock where
  "mk_superblock = \<lparr>sb_magic = FSMAGIC, sb_size = xint (of_nat FSSIZE), sb_nblocks = xint (of_nat (FSSIZE - nmeta)),
     sb_ninodes = xint (of_nat NINODES), sb_nlog = xint (of_nat nlog), sb_logstart = xint 2,
     sb_inodestart = xint (of_nat (2 + nlog)), sb_bmapstart = xint (of_nat (2 + nlog + ninodeblocks))\<rparr>"

text \<open>\<open>argv[i]\<close> without \<open>user/\<close> in front.\<close>

definition shortname :: "byte list \<Rightarrow> byte list" where
  "shortname arg = (if take 5 arg = map of_char ''user/'' then drop 5 arg else arg)"

definition add_file :: "uint \<Rightarrow> byte list \<Rightarrow> (mkfs, unit) kmon" where
  "add_file rootino arg =
     (let name = shortname arg in
      kbind (host_assert (of_char (CHR ''/'') \<notin> set name)) (\<lambda>_.
      kbind (kgets (\<lambda>s. host_reads s arg)) (\<lambda>r.
      case r of
        None \<Rightarrow> die ''open''
      | Some pieces \<Rightarrow>
          let name = (if take 1 name = [of_char (CHR ''_'')] then drop 1 name else name) in
          kbind (host_assert (length name \<le> DIRSIZ)) (\<lambda>_.
          kbind (mk_ialloc T_FILE) (\<lambda>ino.
          kbind (iappend rootino (mk_dirent (xshort (ucast ino)) name)) (\<lambda>_.
          kfor (iappend ino) (takeWhile (\<lambda>bs. bs \<noteq> []) pieces)))))))"

definition fix_root_size :: "uint \<Rightarrow> (mkfs, unit) kmon" where
  "fix_root_size rootino =
     kbind (rinode rootino) (\<lambda>din.
     let off = (xint (d_size din) div 1024 + 1) * 1024 in
     winode rootino (din\<lparr>d_size := xint off\<rparr>))"

definition mkfs_main :: "byte list list \<Rightarrow> (mkfs, int) kmon" where
  "mkfs_main argv =
     (case argv of
        _ # img # files \<Rightarrow>
          kbind (kgets (\<lambda>s. host_fails s ''open'' 0)) (\<lambda>bad.
          if bad then die ''open'' else
          kbind (kmodify (\<lambda>s. s\<lparr>fsfd := [], mk_sb := mk_superblock, freeinode := 1, freeblock := of_nat nmeta\<rparr>)) (\<lambda>_.
          kbind (kfor (\<lambda>i. wsect (of_nat i) (\<lambda>_. 0)) [0..<FSSIZE]) (\<lambda>_.
          kbind (wsect 1 (sb_block mk_superblock)) (\<lambda>_.
          kbind (mk_ialloc T_DIR) (\<lambda>rootino.
          kbind (host_assert (rootino = ROOTINO)) (\<lambda>_.
          kbind (iappend rootino (mk_dirent (xshort (ucast rootino)) (map of_char ''.''))) (\<lambda>_.
          kbind (iappend rootino (mk_dirent (xshort (ucast rootino)) (map of_char ''..''))) (\<lambda>_.
          kbind (kfor (add_file rootino) files) (\<lambda>_.
          kbind (fix_root_size rootino) (\<lambda>_.
          kbind (kgets freeblock) (\<lambda>used.
          kbind (mk_balloc (sint used)) (\<lambda>_.
          kret 0))))))))))))
      | _ \<Rightarrow> kret 1)"

end
