(* ===== verification/Mkfs_Facts.thy ===== *)
theory Mkfs_Facts
  imports Mkfs
begin

text \<open>
  The image that \<open>mkfs\<close> makes, seen as a forest of block addresses. A slot is a place that holds the address of a block: in an inode,
  or in a block of addresses. Different slots never hold the same address, and the blocks from \<open>freeblock\<close> on are empty. Appending to a
  file then changes the contents of this file only.
\<close>

unbundle bit_operations_syntax

section \<open>Inodes in the image\<close>

lemma xint_id [simp]: "xint x = x"
  using load32_store32_same [of "\<lambda>_. 0" 0 x] by (simp add: xint_def load32_def store32_def)

lemma xshort_id [simp]: "xshort x = x"
  using load16_store16_same [of "\<lambda>_. 0" 0 x] by (simp add: xshort_def load16_def store16_def)

lemma sector_small: "unat a < 4000 \<Longrightarrow> sector a = unat a"
  by (simp add: sector_def unat_word_ariths)

definition inode_sector :: "nat \<Rightarrow> nat" where
  "inode_sector i = 33 + i div 16"

definition dn :: "block list \<Rightarrow> nat \<Rightarrow> dinode" where
  "dn xs i = host_dinode (xs ! inode_sector i) (64 * (i mod 16))"

definition flush :: "nat \<Rightarrow> dinode \<Rightarrow> block list \<Rightarrow> block list" where
  "flush i din xs = xs[inode_sector i := set_host_dinode din (64 * (i mod 16)) (xs ! inode_sector i)]"

definition dfields :: "dinode \<Rightarrow> 16 word \<times> 16 word \<times> 16 word \<times> 16 word \<times> uint" where
  "dfields d = (d_type d, d_major d, d_minor d, d_nlink d, d_size d)"

lemma dfields_simps [simp]: "dfields (d\<lparr>d_addrs := as\<rparr>) = dfields d"
  by (simp add: dfields_def)

lemma inode_sector_less: "i < 208 \<Longrightarrow> inode_sector i < 46" "33 \<le> inode_sector i"
  by (simp_all add: inode_sector_def less_mult_imp_div_less)

lemma host_dinode_same:
  assumes "length (d_addrs ip) = 13"
  shows "host_dinode (set_host_dinode ip dip x) dip = ip"
proof -
  let ?y = "set_host_dinode ip dip x"
  have "load32 ?y (dip + 12 + 4 * k) = d_addrs ip ! k" if "k < 13" for k
    unfolding set_host_dinode_def using that by (simp add: fold_addrs_load32(2) [where j = "dip + 12"] del: upt.simps)
  then have "d_addrs (host_dinode ?y dip) = d_addrs ip" using assms by (intro nth_equalityI) (simp_all add: host_dinode_def del: upt.simps)
  then show ?thesis
    by (intro dinode.equality) (simp_all add: host_dinode_def set_host_dinode_def fold_addrs_load16 [where j = "dip + 12"]
      fold_addrs_load32(1) [where j = "dip + 12"] del: upt.simps)
qed

lemma set_host_dinode_other: "j < dip \<or> dip + 64 \<le> j \<Longrightarrow> set_host_dinode ip dip x j = x j"
  unfolding set_host_dinode_def by (subst fold_addrs_other [where j = "dip + 12"]) (auto simp: store16_def store32_def)

lemma host_dinode_cong: "(\<And>j. dip \<le> j \<Longrightarrow> j < dip + 64 \<Longrightarrow> x j = y j) \<Longrightarrow> host_dinode x dip = host_dinode y dip"
  unfolding host_dinode_def by (auto simp: load16_def load32_def)

lemma dn_flush:
  assumes "length (d_addrs din) = 13" and "i < 208" and "length xs = 4000"
  shows "dn (flush i din xs) i' = (if i' = i then din else dn xs i')"
proof (cases "inode_sector i' = inode_sector i \<and> i' \<noteq> i")
  case True
  then have "i' div 16 = i div 16" by (simp add: inode_sector_def)
  then have "i' mod 16 \<noteq> i mod 16" using True div_mult_mod_eq [of i 16] div_mult_mod_eq [of i' 16] by metis
  then consider "i' mod 16 + 1 \<le> i mod 16" | "i mod 16 + 1 \<le> i' mod 16" by linarith
  then have "host_dinode (set_host_dinode din (64 * (i mod 16)) x) (64 * (i' mod 16)) = host_dinode x (64 * (i' mod 16))" for x
    by cases (intro host_dinode_cong set_host_dinode_other; simp)+
  then show ?thesis using True inode_sector_less(1) [OF assms(2)] assms(3) by (simp add: dn_def flush_def)
next
  case False
  then show ?thesis using inode_sector_less(1) [OF assms(2)] assms(1,3) by (auto simp: dn_def flush_def host_dinode_same)
qed

lemma byte_high: "8 \<le> n \<Longrightarrow> \<not> bit (b :: byte) n"
  using bit_imp_le_length [of b n] by auto

lemma load32_bytes:
  "ucast (load32 x i) = x i" "ucast (drop_bit 8 (load32 x i)) = x (i + 1)" "ucast (drop_bit 16 (load32 x i)) = x (i + 2)"
  "ucast (drop_bit 24 (load32 x i)) = x (i + 3)"
  by (rule bit_word_eqI; simp add: load32_def bit_simps byte_high)+

lemma load16_bytes: "ucast (load16 x i) = x i" "ucast (drop_bit 8 (load16 x i)) = x (i + 1)"
  by (rule bit_word_eqI; simp add: load16_def bit_simps byte_high)+

lemma store_load_same: "store32 x i (load32 x i) = x" "store16 x i (load16 x i) = x"
  by (simp_all add: store32_def store16_def load32_bytes load16_bytes)

lemma set_host_dinode_idem: "set_host_dinode (host_dinode x dip) dip x = x"
proof -
  have "fold (\<lambda>i y. store32 y (dip + 12 + 4 * i) (map (\<lambda>i. load32 x (dip + 12 + 4 * i)) [0..<13] ! i)) [0..<n] x = x" if "n \<le> 13" for n
    using that by (induction n) (simp_all add: store_load_same del: upt.simps add: upt_Suc_append)
  from this [of 13] show ?thesis by (simp add: set_host_dinode_def host_dinode_def store_load_same del: upt.simps)
qed

lemma flush_idem: "flush i (dn xs i) xs = xs"
  by (simp add: flush_def dn_def set_host_dinode_idem)

lemma flush_flush: "i < 208 \<Longrightarrow> length xs = 4000 \<Longrightarrow> 46 \<le> a \<Longrightarrow> flush i din (xs[a := x]) = (flush i din xs)[a := x]"
  using inode_sector_less(1) [of i] by (simp add: flush_def list_update_swap)

lemma flush_nth: "i < 208 \<Longrightarrow> 46 \<le> a \<or> a < 33 \<Longrightarrow> flush i din xs ! a = xs ! a"
  using inode_sector_less [of i] by (auto simp: flush_def)

lemma length_flush [simp]: "length (flush i din xs) = length xs"
  by (simp add: flush_def)

section \<open>Slots\<close>

text \<open>The addresses of the inodes, of the indirect blocks, of the doubly-indirect blocks and of the blocks below them.\<close>

datatype slot = Addr nat nat | Ind nat nat | Dind nat nat | Leaf nat nat nat

definition via :: "block list \<Rightarrow> uint \<Rightarrow> nat \<Rightarrow> uint" where
  "via xs a k = (if a = 0 then 0 else load32 (xs ! unat a) (4 * k))"

fun ptr :: "block list \<Rightarrow> slot \<Rightarrow> uint" where
  "ptr xs (Addr i j) = d_addrs (dn xs i) ! j"
| "ptr xs (Ind i k) = via xs (d_addrs (dn xs i) ! 11) k"
| "ptr xs (Dind i k) = via xs (d_addrs (dn xs i) ! 12) k"
| "ptr xs (Leaf i k l) = via xs (via xs (d_addrs (dn xs i) ! 12) k) l"

fun slot_ok :: "slot \<Rightarrow> bool" where
  "slot_ok (Addr i j) = (i < 208 \<and> j < 13)"
| "slot_ok (Ind i k) = (i < 208 \<and> k < 256)"
| "slot_ok (Dind i k) = (i < 208 \<and> k < 256)"
| "slot_ok (Leaf i k l) = (i < 208 \<and> k < 256 \<and> l < 256)"

text \<open>A slot that holds a block of addresses, and the slots in this block.\<close>

fun is_table :: "slot \<Rightarrow> bool" where
  "is_table (Addr i j) = (j = 11 \<or> j = 12)"
| "is_table (Dind i k) = True"
| "is_table _ = False"

fun child :: "slot \<Rightarrow> nat \<Rightarrow> slot" where
  "child (Addr i j) k = (if j = 11 then Ind i k else Dind i k)"
| "child (Dind i k) l = Leaf i k l"
| "child (Ind i k) l = Ind i k"
| "child (Leaf i k m) l = Leaf i k m"

lemma ptr_child: "is_table p \<Longrightarrow> ptr xs (child p k) = via xs (ptr xs p) k"
  by (cases p) auto

lemma child_eq: "is_table p \<Longrightarrow> is_table q \<Longrightarrow> child p k = child q l \<longleftrightarrow> p = q \<and> k = l"
  by (cases p; cases q) auto

lemma child_irrefl:
  "is_table p \<Longrightarrow> child p k = p \<longleftrightarrow> False" "is_table p \<Longrightarrow> child p k = Addr i j \<longleftrightarrow> False"
  "is_table p \<Longrightarrow> Addr i j = child p k \<longleftrightarrow> False"
  by (cases p; simp)+

lemma child_ok: "is_table p \<Longrightarrow> slot_ok (child p k) \<longleftrightarrow> slot_ok p \<and> k < 256"
  by (cases p) auto

text \<open>Every slot is reached from the inodes.\<close>

lemma slot_induct [consumes 1, case_names addr child]:
  assumes "slot_ok s"
    and a: "\<And>i j. i < 208 \<Longrightarrow> j < 13 \<Longrightarrow> P (Addr i j)"
    and c: "\<And>p k. is_table p \<Longrightarrow> slot_ok p \<Longrightarrow> k < 256 \<Longrightarrow> P p \<Longrightarrow> P (child p k)"
  shows "P s"
proof -
  have d: "P (Dind i k)" if "i < 208" "k < 256" for i k using c [of "Addr i 12" k] a [of i 12] that by simp
  show ?thesis
  proof (cases s)
    case (Ind i k)
    then show ?thesis using c [of "Addr i 11" k] a [of i 11] assms(1) by simp
  next
    case (Leaf i k l)
    then show ?thesis using c [of "Dind i k" l] d assms(1) by simp
  qed (use assms(1) a d in auto)
qed

text \<open>The first \<open>n\<close> blocks of the image may be in use; no block is in two slots.\<close>

definition good :: "block list \<Rightarrow> nat \<Rightarrow> bool" where
  "good xs n \<longleftrightarrow> length xs = 4000 \<and> 47 \<le> n \<and> n \<le> 4000
     \<and> (\<forall>s. slot_ok s \<longrightarrow> ptr xs s \<noteq> 0 \<longrightarrow> 47 \<le> unat (ptr xs s) \<and> unat (ptr xs s) < n)
     \<and> (\<forall>s t. slot_ok s \<longrightarrow> slot_ok t \<longrightarrow> ptr xs s \<noteq> 0 \<longrightarrow> ptr xs s = ptr xs t \<longrightarrow> s = t)
     \<and> (\<forall>a j. n \<le> a \<longrightarrow> a < 4000 \<longrightarrow> j < 1024 \<longrightarrow> (xs ! a) j = 0)"

lemma goodD:
  assumes "good xs n"
  shows "length xs = 4000" "47 \<le> n" "n \<le> 4000"
    "slot_ok s \<Longrightarrow> ptr xs s \<noteq> 0 \<Longrightarrow> 47 \<le> unat (ptr xs s) \<and> unat (ptr xs s) < n"
    "slot_ok s \<Longrightarrow> slot_ok t \<Longrightarrow> ptr xs s \<noteq> 0 \<Longrightarrow> ptr xs s = ptr xs t \<Longrightarrow> s = t"
    "n \<le> a \<Longrightarrow> a < 4000 \<Longrightarrow> j < 1024 \<Longrightarrow> (xs ! a) j = 0"
  using assms unfolding good_def by blast+

text \<open>The byte at offset \<open>k\<close> of a file.\<close>

definition fslot :: "nat \<Rightarrow> nat \<Rightarrow> slot" where
  "fslot i f = (if f < 11 then Addr i f else if f < 267 then Ind i (f - 11) else Leaf i ((f - 267) div 256) ((f - 267) mod 256))"

definition fbyte :: "block list \<Rightarrow> nat \<Rightarrow> nat \<Rightarrow> byte" where
  "fbyte xs i k = (let a = ptr xs (fslot i (k div 1024)) in if a = 0 then 0 else (xs ! unat a) (k mod 1024))"

lemma fslot_ok: "i < 208 \<Longrightarrow> f < 65803 \<Longrightarrow> slot_ok (fslot i f)" "is_table (fslot i f) \<longleftrightarrow> False"
  by (auto simp: fslot_def less_mult_imp_div_less)

lemma fslot_eq: "fslot i f = fslot i' f' \<longleftrightarrow> i = i' \<and> f = f'"
proof
  assume "fslot i f = fslot i' f'"
  moreover have "f = f'" if "267 \<le> f" "267 \<le> f'" "(f - 267) div 256 = (f' - 267) div 256" "(f - 267) mod 256 = (f' - 267) mod 256"
  proof -
    have "f - 267 = f' - 267" using that(3,4) by (metis div_mult_mod_eq)
    then show ?thesis using that(1,2) by simp
  qed
  ultimately show "i = i' \<and> f = f'" by (auto simp: fslot_def split: if_splits)
qed simp

text \<open>
  Slot \<open>c\<close>, which was empty, takes the first free block: in any image \<open>ys\<close> that differs from \<open>xs\<close> in this slot, and otherwise at
  most in inodes and in blocks of addresses.
\<close>

definition takes :: "slot \<Rightarrow> nat \<Rightarrow> block list \<Rightarrow> block list \<Rightarrow> bool" where
  "takes c n xs ys \<longleftrightarrow> length ys = 4000 \<and> (\<forall>p k. is_table p \<longrightarrow> c = child p k \<longrightarrow> ptr xs p \<noteq> 0)
     \<and> (\<forall>i<208. \<forall>j<13. ptr ys (Addr i j) = (if Addr i j = c then of_nat n else ptr xs (Addr i j)))
     \<and> (\<forall>q l. is_table q \<longrightarrow> slot_ok q \<longrightarrow> l < 256 \<longrightarrow> ptr xs q \<noteq> 0 \<longrightarrow>
          load32 (ys ! unat (ptr xs q)) (4 * l) = (if child q l = c then of_nat n else load32 (xs ! unat (ptr xs q)) (4 * l)))
     \<and> (\<forall>s. slot_ok s \<longrightarrow> \<not> is_table s \<longrightarrow> ptr xs s \<noteq> 0 \<longrightarrow> ys ! unat (ptr xs s) = xs ! unat (ptr xs s))
     \<and> (\<forall>a. n \<le> a \<longrightarrow> a < 4000 \<longrightarrow> ys ! a = xs ! a)
     \<and> (\<forall>i<208. dfields (dn ys i) = dfields (dn xs i)) \<and> (\<forall>a<33. ys ! a = xs ! a)"

lemma block_number:
  assumes "47 \<le> n" and "n < 4000"
  shows "unat (of_nat n :: uint) = n" "of_nat n \<noteq> (0 :: uint)"
proof -
  show u: "unat (of_nat n :: uint) = n" using assms(2) by (simp add: unat_of_nat)
  then show "of_nat n \<noteq> (0 :: uint)" using assms(1) by auto
qed

lemma takes_ptr:
  assumes g: "good xs n" and t: "takes c n xs ys" and c: "slot_ok c" "ptr xs c = 0" and n: "n < 4000" and s: "slot_ok s"
  shows "ptr ys s = (if s = c then of_nat n else ptr xs s)"
  using s
proof (induction rule: slot_induct)
  case (addr i j)
  then show ?case using t by (simp add: takes_def)
next
  case (child p k)
  note child = this
  have n0: "unat (of_nat n :: uint) = n" "of_nat n \<noteq> (0 :: uint)" by (rule block_number [OF goodD(2) [OF g] n])+
  have z: "load32 (ys ! n) (4 * l) = 0" if "l < 256" for l
    using t goodD(6) [OF g order_refl n] that n unfolding takes_def by (simp add: load32_def)
  consider "p = c" | "p \<noteq> c" "ptr xs p = 0" | "p \<noteq> c" "ptr xs p \<noteq> 0" by blast
  then show ?case
  proof cases
    case 1
    then show ?thesis using child c z n0 by (simp add: ptr_child via_def child_irrefl)
  next
    case 2
    then have "child p k \<noteq> c" using child(1) t unfolding takes_def by blast
    then show ?thesis using 2 child n0 by (simp add: ptr_child via_def)
  next
    case 3
    then show ?thesis using child t by (simp add: ptr_child via_def takes_def)
  qed
qed

lemma takes_good:
  assumes g: "good xs n" and t: "takes c n xs ys" and c: "slot_ok c" "ptr xs c = 0" and n: "n < 4000"
  shows "good ys (n + 1)"
proof -
  note P = takes_ptr [OF g t c n] and N = block_number [OF goodD(2) [OF g] n]
  have "47 \<le> unat (ptr ys s) \<and> unat (ptr ys s) < n + 1" if "slot_ok s" "ptr ys s \<noteq> 0" for s
    using P [OF that(1)] that goodD(2,4) [OF g] N by (auto split: if_splits simp: less_Suc_eq)
  moreover have "s = u" if "slot_ok s" "slot_ok u" "ptr ys s \<noteq> 0" "ptr ys s = ptr ys u" for s u
  proof -
    have f: "ptr xs v \<noteq> of_nat n" if "slot_ok v" for v using goodD(4) [OF g that] N by force
    have e: "ptr ys v = of_nat n \<longleftrightarrow> v = c" if "slot_ok v" for v using P [OF that] f [OF that] by (cases "v = c") auto
    show ?thesis
    proof (cases "s = c")
      case True
      then show ?thesis using e [OF that(1)] e [OF that(2)] that(4) by metis
    next
      case False
      then have "u \<noteq> c" using e [OF that(1)] e [OF that(2)] that(4) by metis
      then show ?thesis using P [OF that(1)] P [OF that(2)] False that(3,4) by (intro goodD(5) [OF g that(1,2)]) simp_all
    qed
  qed
  moreover have "(ys ! a) j = 0" if "n + 1 \<le> a" "a < 4000" "j < 1024" for a j
    using t that goodD(6) [OF g, of a j] unfolding takes_def by simp
  ultimately show ?thesis using t n goodD(2) [OF g] unfolding good_def takes_def by auto
qed

lemma takes_fbyte:
  assumes g: "good xs n" and t: "takes c n xs ys" and c: "slot_ok c" "ptr xs c = 0" and n: "n < 4000"
    and "i < 208" and "k < 65803 * 1024"
  shows "fbyte ys i k = fbyte xs i k"
proof -
  let ?s = "fslot i (k div 1024)"
  have s: "slot_ok ?s" "\<not> is_table ?s" using assms(6,7) by (auto simp: fslot_ok less_mult_imp_div_less)
  note P = takes_ptr [OF g t c n s(1)] and N = block_number [OF goodD(2) [OF g] n]
  have "(ys ! n) (k mod 1024) = 0" using t goodD(6) [OF g order_refl n] n unfolding takes_def by simp
  moreover have "ys ! unat (ptr xs ?s) = xs ! unat (ptr xs ?s)" if "ptr xs ?s \<noteq> 0" using t s that unfolding takes_def by blast
  ultimately show ?thesis using P c N by (auto simp: fbyte_def Let_def)
qed

text \<open>The slots \<open>C\<close> have taken the next blocks; no byte of a file has changed.\<close>

definition alloc :: "block list \<Rightarrow> nat \<Rightarrow> slot set \<Rightarrow> block list \<Rightarrow> nat \<Rightarrow> bool" where
  "alloc xs n C ys n' \<longleftrightarrow> good ys n' \<and> n' = n + card C \<and> finite C \<and> (\<forall>s\<in>C. ptr xs s = 0)
     \<and> (\<forall>s. slot_ok s \<longrightarrow> (ptr ys s \<noteq> 0 \<longleftrightarrow> ptr xs s \<noteq> 0 \<or> s \<in> C))
     \<and> (\<forall>s\<in>C. slot_ok s)
     \<and> (\<forall>i<208. \<forall>k<65803 * 1024. fbyte ys i k = fbyte xs i k)
     \<and> (\<forall>i<208. dfields (dn ys i) = dfields (dn xs i)) \<and> (\<forall>a<33. ys ! a = xs ! a)"

lemma alloc_refl: "good xs n \<Longrightarrow> alloc xs n {} xs n"
  by (simp add: alloc_def)

lemma alloc_trans:
  assumes "alloc xs n C ys m" and "alloc ys m D zs l"
  shows "alloc xs n (C \<union> D) zs l"
proof -
  have d: "C \<inter> D = {}" and z: "\<forall>s\<in>D. ptr xs s = 0" using assms unfolding alloc_def by blast+
  then have "card (C \<union> D) = card C + card D" using assms unfolding alloc_def by (simp add: card_Un_disjoint)
  then show ?thesis using assms z unfolding alloc_def by auto
qed

lemma takes_alloc:
  assumes "good xs n" and "takes c n xs ys" and "slot_ok c" and "ptr xs c = 0" and "n < 4000"
  shows "alloc xs n {c} ys (n + 1)"
  using takes_good [OF assms] takes_ptr [OF assms] takes_fbyte [OF assms] block_number(2) [OF goodD(2) [OF assms(1)] assms(5)] assms(2-4)
  unfolding alloc_def by (auto simp: takes_def)

text \<open>A slot of an inode, and a slot in a block of addresses.\<close>

lemma takes_addr:
  assumes g: "good (flush i din xs) n" and n: "n < 4000" and i: "i < 208" "j < 13" "length (d_addrs din) = 13"
    and z: "d_addrs din ! j = 0"
  shows "takes (Addr i j) n (flush i din xs) (flush i (din\<lparr>d_addrs := (d_addrs din)[j := of_nat n]\<rparr>) xs)"
proof -
  let ?e = "din\<lparr>d_addrs := (d_addrs din)[j := of_nat n]\<rparr>"
  have l: "length xs = 4000" using goodD(1) [OF g] by simp
  have D: "dn (flush i din xs) i' = (if i' = i then din else dn xs i')" "dn (flush i ?e xs) i' = (if i' = i then ?e else dn xs i')" for i'
    using dn_flush [OF i(3,1) l] dn_flush [OF _ i(1) l, of ?e] i(3) by simp_all
  have same: "flush i ?e xs ! a = flush i din xs ! a" if "46 \<le> a" for a using i(1) that by (simp add: flush_nth)
  have "46 \<le> unat (ptr (flush i din xs) s)" if "slot_ok s" "ptr (flush i din xs) s \<noteq> 0" for s using goodD(4) [OF g that] by linarith
  then show ?thesis using l i z n goodD(2) [OF g]
    by (auto simp: takes_def D same child_irrefl nth_list_update flush_nth)
qed

lemma takes_entry:
  assumes g: "good xs n" and n: "n < 4000" and p: "is_table p" "slot_ok p" "ptr xs p \<noteq> 0" and k: "k < 256"
  shows "takes (child p k) n xs (xs[unat (ptr xs p) := store32 (xs ! unat (ptr xs p)) (4 * k) (of_nat n)])"
proof -
  let ?a = "unat (ptr xs p)" and ?ys = "xs[unat (ptr xs p) := store32 (xs ! unat (ptr xs p)) (4 * k) (of_nat n)]"
  have a: "47 \<le> ?a" "?a < n" using goodD(4) [OF g p(2,3)] by auto
  have D: "dn ?ys i = dn xs i" if "i < 208" for i using inode_sector_less [of i] a that by (simp add: dn_def)
  have other: "?ys ! unat (ptr xs s) = xs ! unat (ptr xs s)" if "slot_ok s" "s \<noteq> p" "ptr xs s \<noteq> 0" for s
  proof -
    have "ptr xs p \<noteq> ptr xs s" using goodD(5) [OF g p(2) that(1)] p(3) that(2) by blast
    then have "?a \<noteq> unat (ptr xs s)" by (simp add: word_unat_eq_iff)
    then show ?thesis by simp
  qed
  have "load32 (?ys ! unat (ptr xs q)) (4 * l) = (if child q l = child p k then of_nat n else load32 (xs ! unat (ptr xs q)) (4 * l))"
    if "is_table q" "slot_ok q" "l < 256" "ptr xs q \<noteq> 0" for q l
  proof (cases "q = p")
    case True
    then have "l = k \<or> 4 * l + 4 \<le> 4 * k \<or> 4 * k + 4 \<le> 4 * l" by linarith
    then show ?thesis using True a n goodD(1) [OF g] p(1) by (auto simp: child_eq)
  next
    case False
    then show ?thesis using other [of q] that p(1) by (simp add: child_eq)
  qed
  moreover have "?ys ! unat (ptr xs s) = xs ! unat (ptr xs s)" if "slot_ok s" "\<not> is_table s" "ptr xs s \<noteq> 0" for s
    using other [of s] that p(1) by blast
  moreover have "?ys ! b = xs ! b" if "n \<le> b" for b using that a by simp
  moreover have "ptr ?ys (Addr i j) = (if Addr i j = child p k then of_nat n else ptr xs (Addr i j))" if "i < 208" for i j
    using D [OF that] child_irrefl(2) [OF p(1), of k i j] by auto
  moreover have "ptr xs q \<noteq> 0" if "is_table q" "child p k = child q l" for q l using that p by (simp add: child_eq)
  moreover have "?ys ! b = xs ! b" if "b < 33" for b using that a by simp
  ultimately show ?thesis using D goodD(1) [OF g] unfolding takes_def by auto
qed

section \<open>Appending to a file\<close>

definition host_ok :: "mkfs \<Rightarrow> bool" where
  "host_ok m \<longleftrightarrow> length (fsfd m) = 4000 \<and> mk_sb m = mk_superblock \<and> (\<forall>c a. \<not> host_fails m c a)"

definition rest_same :: "mkfs \<Rightarrow> mkfs \<Rightarrow> bool" where
  "rest_same m m' \<longleftrightarrow> freeinode m' = freeinode m \<and> host_reads m' = host_reads m"

lemma rest_same_trans: "rest_same m m' \<Longrightarrow> rest_same m' m'' \<Longrightarrow> rest_same m m''"
  by (simp add: rest_same_def)

lemma rsect_ok: "host_ok m \<Longrightarrow> unat a < 4000 \<Longrightarrow> rsect a m = Ok (fsfd m ! unat a, m)"
  by (simp add: rsect_def kbind_apply host_ok_def sector_small)

lemma wsect_ok: "host_ok m \<Longrightarrow> unat a < 4000 \<Longrightarrow> wsect a x m = Ok ((), m\<lparr>fsfd := (fsfd m)[unat a := x]\<rparr>)"
  by (simp add: wsect_def kbind_apply host_ok_def sector_small put_sector_def)

text \<open>Inode \<open>i\<close> is being changed in \<open>din\<close>; \<open>xs\<close> is the image as it will be when \<open>din\<close> is written back.\<close>

definition writing :: "nat \<Rightarrow> dinode \<Rightarrow> mkfs \<Rightarrow> block list \<Rightarrow> bool" where
  "writing i din m xs \<longleftrightarrow> host_ok m \<and> i < 208 \<and> length (d_addrs din) = 13 \<and> xs = flush i din (fsfd m) \<and> good xs (unat (freeblock m))"

lemma writingD:
  assumes "writing i din m xs"
  shows "host_ok m" "i < 208" "length (d_addrs din) = 13" "xs = flush i din (fsfd m)" "good xs (unat (freeblock m))"
    "ptr xs (Addr i j) = d_addrs din ! j" "46 \<le> a \<Longrightarrow> fsfd m ! a = xs ! a"
proof -
  show w: "host_ok m" "i < 208" "length (d_addrs din) = 13" "xs = flush i din (fsfd m)" "good xs (unat (freeblock m))"
    using assms unfolding writing_def by blast+
  have "dn xs i = din" using dn_flush [OF w(3,2), of "fsfd m" i] w(1,4) by (simp add: host_ok_def)
  then show "ptr xs (Addr i j) = d_addrs din ! j" by simp
  show "46 \<le> a \<Longrightarrow> fsfd m ! a = xs ! a" using w(2,4) by (simp add: flush_nth)
qed

lemma new_block_ok: "new_block m = Ok (freeblock m, m\<lparr>freeblock := freeblock m + 1\<rparr>)"
  by (simp add: new_block_def kbind_apply)

lemma unat_next: "unat (b :: uint) < 4000 \<Longrightarrow> unat (b + 1) = unat b + 1"
  by (simp add: unat_word_ariths)

abbreviation (input) empties :: "block list \<Rightarrow> slot set" where
  "empties xs \<equiv> {s. ptr xs s = 0}"

lemma need_addr_ok:
  assumes w: "writing i din m xs" and j: "j < 13" and r: "ptr xs (Addr i j) = 0 \<Longrightarrow> unat (freeblock m) < 4000"
  obtains din' m' ys where "need_addr din j m = Ok (din', m')" "writing i din' m' ys" "rest_same m m'"
    "alloc xs (unat (freeblock m)) ({Addr i j} \<inter> empties xs) ys (unat (freeblock m'))" "d_addrs din' ! j = ptr ys (Addr i j)"
proof (cases "ptr xs (Addr i j) = 0")
  case True
  note W = writingD [OF w]
  let ?n = "unat (freeblock m)" and ?e = "din\<lparr>d_addrs := (d_addrs din)[j := freeblock m]\<rparr>"
  let ?m = "m\<lparr>freeblock := freeblock m + 1\<rparr>"
  have z: "d_addrs din ! j = 0" using True W(6) by simp
  have n: "?n < 4000" by (rule r [OF True])
  have "takes (Addr i j) ?n xs (flush i ?e (fsfd m))" using takes_addr [OF _ n W(2) j W(3) z] W(4,5) by simp
  then have a: "alloc xs ?n {Addr i j} (flush i ?e (fsfd m)) (?n + 1)" by (rule takes_alloc [OF W(5) _ _ True n]) (simp add: W(2) j)
  have u: "unat (freeblock ?m) = ?n + 1" using unat_next [OF n] by simp
  have "writing i ?e ?m (flush i ?e (fsfd m))" using a u W unfolding writing_def alloc_def host_ok_def by simp
  moreover from this have "d_addrs ?e ! j = ptr (flush i ?e (fsfd m)) (Addr i j)" by (rule writingD(6) [symmetric])
  moreover have "need_addr din j m = Ok (?e, ?m)" using z by (simp add: need_addr_def kbind_apply new_block_ok)
  ultimately show thesis using that [of ?e ?m] a u True by (simp add: rest_same_def)
next
  case False
  then show thesis using that [of din m xs] w writingD(5,6) [OF w] alloc_refl by (simp add: need_addr_def rest_same_def)
qed

lemma need_entry_ok:
  assumes w: "writing i din m xs" and p: "is_table p" "slot_ok p" "ptr xs p \<noteq> 0" and k: "k < 256"
    and r: "ptr xs (child p k) = 0 \<Longrightarrow> unat (freeblock m) < 4000"
  obtains m' ys where "need_entry (ptr xs p) k m = Ok (ptr ys (child p k), m')" "writing i din m' ys" "rest_same m m'"
    "alloc xs (unat (freeblock m)) ({child p k} \<inter> empties xs) ys (unat (freeblock m'))"
proof -
  note W = writingD [OF w]
  let ?a = "ptr xs p" and ?n = "unat (freeblock m)" and ?x = "xs ! unat (ptr xs p)"
  have a: "47 \<le> unat ?a" "unat ?a < 4000" using goodD(3) [OF W(5)] goodD(4) [OF W(5) p(2,3)] by auto
  have x: "rsect ?a m = Ok (?x, m)" using rsect_ok [OF W(1) a(2)] W(7) [of "unat ?a"] a(1) by simp
  have c: "ptr xs (child p k) = load32 ?x (4 * k)" using p by (simp add: ptr_child via_def)
  show thesis
  proof (cases "ptr xs (child p k) = 0")
    case True
    note n = r [OF True]
    let ?y = "store32 ?x (4 * k) (freeblock m)" and ?m1 = "m\<lparr>freeblock := freeblock m + 1\<rparr>"
    let ?m = "?m1\<lparr>fsfd := (fsfd m)[unat ?a := ?y]\<rparr>" and ?ys = "xs[unat ?a := ?y]"
    have "takes (child p k) ?n xs ?ys" using takes_entry [OF W(5) n p k] by simp
    then have al: "alloc xs ?n {child p k} ?ys (?n + 1)" by (rule takes_alloc [OF W(5) _ _ True n]) (simp add: p k child_ok)
    have u: "unat (freeblock ?m) = ?n + 1" using unat_next [OF n] by simp
    have l: "length (fsfd m) = 4000" using W(1) by (simp add: host_ok_def)
    have "?ys = flush i din (fsfd ?m)" using flush_flush [OF W(2) l, of "unat ?a"] a(1) W(4) by simp
    then have wr: "writing i din ?m ?ys" using al u W unfolding writing_def alloc_def host_ok_def by simp
    have "ptr ?ys (child p k) = freeblock m"
      using takes_ptr [OF W(5) \<open>takes (child p k) ?n xs ?ys\<close> _ True n, of "child p k"] p k by (simp add: child_ok)
    moreover have "host_ok ?m1" using W(1) by (simp add: host_ok_def)
    ultimately have "need_entry ?a k m = Ok (ptr ?ys (child p k), ?m)"
      using True c wsect_ok [of ?m1 ?a ?y] a(2) by (simp add: need_entry_def kbind_apply x new_block_ok Let_def)
    then show thesis using that wr al u True by (simp add: rest_same_def)
  next
    case False
    then have "need_entry ?a k m = Ok (ptr xs (child p k), m)" using c by (simp add: need_entry_def kbind_apply x)
    then show thesis using that [of xs m] w W(5) False alloc_refl by (simp add: rest_same_def)
  qed
qed

text \<open>The slots on the way to block \<open>f\<close> of a file.\<close>

definition path :: "nat \<Rightarrow> nat \<Rightarrow> slot set" where
  "path i f = (if f < 11 then {Addr i f} else if f < 267 then {Addr i 11, Ind i (f - 11)}
     else {Addr i 12, Dind i ((f - 267) div 256), Leaf i ((f - 267) div 256) ((f - 267) mod 256)})"

lemma finite_path [simp]: "finite (path i f)"
  by (simp add: path_def)

lemma alloc_ptr: "alloc xs n C ys n' \<Longrightarrow> slot_ok s \<Longrightarrow> ptr ys s = 0 \<longleftrightarrow> ptr xs s = 0 \<and> s \<notin> C"
  unfolding alloc_def by blast

lemma alloc_count: "alloc xs n C ys n' \<Longrightarrow> n' = n + card C"
  by (simp add: alloc_def)

lemma need_path_step:
  assumes w: "writing i din m xs" and a: "alloc xs0 n0 (A \<inter> empties xs0) xs (unat (freeblock m))"
    and p: "is_table p" "slot_ok p" "p \<in> A" and k: "k < 256" and fresh: "child p k \<notin> A" and A: "finite A"
    and r: "n0 + card (insert (child p k) A \<inter> empties xs0) \<le> 4000"
  obtains m' ys where "need_entry (ptr xs p) k m = Ok (ptr ys (child p k), m')" "writing i din m' ys" "rest_same m m'"
    "alloc xs0 n0 (insert (child p k) A \<inter> empties xs0) ys (unat (freeblock m'))"
proof -
  have c: "slot_ok (child p k)" using p k by (simp add: child_ok)
  have z: "ptr xs (child p k) = 0 \<longleftrightarrow> ptr xs0 (child p k) = 0" using alloc_ptr [OF a c] fresh by auto
  have p0: "ptr xs p \<noteq> 0" using alloc_ptr [OF a p(2)] p(3) by auto
  have "unat (freeblock m) < 4000" if "ptr xs (child p k) = 0"
  proof -
    have "insert (child p k) A \<inter> empties xs0 = insert (child p k) (A \<inter> empties xs0)" using that z by auto
    then show ?thesis using r alloc_count [OF a] fresh A by simp
  qed
  then obtain m' ys where e: "need_entry (ptr xs p) k m = Ok (ptr ys (child p k), m')" "writing i din m' ys" "rest_same m m'"
    "alloc xs (unat (freeblock m)) ({child p k} \<inter> empties xs) ys (unat (freeblock m'))"
    by (rule need_entry_ok [OF w p(1,2) p0 k])
  have "(A \<inter> empties xs0) \<union> ({child p k} \<inter> empties xs) = insert (child p k) A \<inter> empties xs0" using z by auto
  then show thesis using that [OF e(1-3)] alloc_trans [OF a e(4)] by simp
qed

lemma iappend_block_ok:
  assumes w: "writing i din m xs" and f: "f < 65803" and r: "unat (freeblock m) + card (path i f \<inter> empties xs) \<le> 4000"
  obtains din' m' ys where "iappend_block din f m = Ok ((ptr ys (fslot i f), din'), m')" "writing i din' m' ys" "rest_same m m'"
    "alloc xs (unat (freeblock m)) (path i f \<inter> empties xs) ys (unat (freeblock m'))"
proof -
  let ?n = "unat (freeblock m)"
  have i: "i < 208" by (rule writingD(2) [OF w])
  define j where "j = (if f < 11 then f else if f < 267 then 11 else 12)"
  have j: "j < 13" "Addr i j \<in> path i f" by (auto simp: j_def path_def)
  have "?n < 4000" if "ptr xs (Addr i j) = 0"
  proof -
    have "0 < card (path i f \<inter> empties xs)" using that j(2) by (subst card_gt_0_iff) auto
    then show ?thesis using r by linarith
  qed
  then obtain d1 m1 y1 where N: "need_addr din j m = Ok (d1, m1)" "writing i d1 m1 y1" "rest_same m m1"
    "alloc xs ?n ({Addr i j} \<inter> empties xs) y1 (unat (freeblock m1))" "d_addrs d1 ! j = ptr y1 (Addr i j)"
    by (rule need_addr_ok [OF w j(1)])
  consider "f < 11" | "11 \<le> f" "f < 267" | "267 \<le> f" by linarith
  then show thesis
  proof cases
    case 1
    then have "j = f" "path i f = {Addr i f}" "fslot i f = Addr i f" by (simp_all add: j_def path_def fslot_def)
    then show thesis using that [of y1 d1 m1] N 1 by (simp add: iappend_block_def kbind_apply)
  next
    case 2
    then have e: "j = 11" "path i f = {Ind i (f - 11), Addr i 11}" "fslot i f = Ind i (f - 11)" by (auto simp: j_def path_def fslot_def)
    have q: "is_table (Addr i 11)" "slot_ok (Addr i 11)" "Addr i 11 \<in> {Addr i 11}" "f - 11 < 256" "child (Addr i 11) (f - 11) \<notin> {Addr i 11}"
      "finite {Addr i 11}" "?n + card (insert (child (Addr i 11) (f - 11)) {Addr i 11} \<inter> empties xs) \<le> 4000" using r e(2) i 2 by auto
    obtain m2 y2 where "need_entry (ptr y1 (Addr i 11)) (f - 11) m1 = Ok (ptr y2 (child (Addr i 11) (f - 11)), m2)"
      "writing i d1 m2 y2" "rest_same m1 m2"
      "alloc xs ?n (insert (child (Addr i 11) (f - 11)) {Addr i 11} \<inter> empties xs) y2 (unat (freeblock m2))"
      by (rule need_path_step [OF N(2) N(4) [unfolded e(1)] q])
    then show thesis using that [of y2 d1 m2] N(1,3,5) 2 e rest_same_trans by (simp add: iappend_block_def kbind_apply)
  next
    case 3
    let ?k = "(f - 267) div 256" and ?l = "(f - 267) mod 256"
    have e: "j = 12" "path i f = {Leaf i ?k ?l, Dind i ?k, Addr i 12}" "fslot i f = Leaf i ?k ?l" using 3 by (auto simp: j_def path_def fslot_def)
    have cd: "child (Addr i 12) ?k = Dind i ?k" "child (Dind i ?k) ?l = Leaf i ?k ?l" by simp_all
    have kl: "?k < 256" "?l < 256" using f by (auto simp: less_mult_imp_div_less)
    have "card ({Dind i ?k, Addr i 12} \<inter> empties xs) \<le> card (path i f \<inter> empties xs)" by (rule card_mono) (auto simp: e(2))
    then have q: "is_table (Addr i 12)" "slot_ok (Addr i 12)" "Addr i 12 \<in> {Addr i 12}" "?k < 256" "child (Addr i 12) ?k \<notin> {Addr i 12}"
      "finite {Addr i 12}" "?n + card (insert (child (Addr i 12) ?k) {Addr i 12} \<inter> empties xs) \<le> 4000" using r i kl by simp_all
    obtain m2 y2 where M: "need_entry (ptr y1 (Addr i 12)) ?k m1 = Ok (ptr y2 (Dind i ?k), m2)"
      "writing i d1 m2 y2" "rest_same m1 m2" "alloc xs ?n ({Dind i ?k, Addr i 12} \<inter> empties xs) y2 (unat (freeblock m2))"
      by (rule need_path_step [OF N(2) N(4) [unfolded e(1)] q, unfolded cd])
    have q': "is_table (Dind i ?k)" "slot_ok (Dind i ?k)" "Dind i ?k \<in> {Dind i ?k, Addr i 12}" "?l < 256"
      "child (Dind i ?k) ?l \<notin> {Dind i ?k, Addr i 12}" "finite {Dind i ?k, Addr i 12}"
      "?n + card (insert (child (Dind i ?k) ?l) {Dind i ?k, Addr i 12} \<inter> empties xs) \<le> 4000" using r i kl e(2) by simp_all
    obtain m3 y3 where "need_entry (ptr y2 (Dind i ?k)) ?l m2 = Ok (ptr y3 (Leaf i ?k ?l), m3)"
      "writing i d1 m3 y3" "rest_same m2 m3" "alloc xs ?n (path i f \<inter> empties xs) y3 (unat (freeblock m3))"
      by (rule need_path_step [OF M(2,4) q', unfolded cd, folded e(2)])
    moreover from this(1) have "iappend_block din f m = Ok ((ptr y3 (fslot i f), d1), m3)"
      using N(1,5) M(1) 3 e(1,3) by (simp add: iappend_block_def kbind_apply del: ptr.simps)
    ultimately show thesis using that rest_same_trans [OF rest_same_trans [OF N(3) M(3)]] by blast
  qed
qed

section \<open>The blocks of a file\<close>

text \<open>The inode of a slot and the first block of the file whose path uses the slot.\<close>

fun owner :: "slot \<Rightarrow> nat" where
  "owner (Addr i j) = i"
| "owner (Ind i k) = i"
| "owner (Dind i k) = i"
| "owner (Leaf i k l) = i"

fun first :: "slot \<Rightarrow> nat" where
  "first (Addr i j) = (if j < 11 then j else if j = 11 then 11 else 267)"
| "first (Ind i k) = 11 + k"
| "first (Dind i k) = 267 + 256 * k"
| "first (Leaf i k l) = 267 + 256 * k + l"

text \<open>The file has exactly the slots of its first \<open>b\<close> blocks.\<close>

definition used :: "block list \<Rightarrow> nat \<Rightarrow> nat \<Rightarrow> bool" where
  "used xs i b \<longleftrightarrow> (\<forall>s. slot_ok s \<longrightarrow> owner s = i \<longrightarrow> (ptr xs s \<noteq> 0 \<longleftrightarrow> first s < b))"

text \<open>The number of blocks that block \<open>f\<close> adds to a file, with the blocks of addresses that begin with it.\<close>

definition cost :: "nat \<Rightarrow> nat" where
  "cost f = (if f = 11 then 2 else if f < 267 then 1 else if f = 267 then 3 else if (f - 267) mod 256 = 0 then 2 else 1)"

definition need :: "nat \<Rightarrow> nat" where
  "need b = (\<Sum>f<b. cost f)"

definition blocks :: "nat \<Rightarrow> nat" where
  "blocks k = (k + 1023) div 1024"

lemma path_ok: "i < 208 \<Longrightarrow> f < 65803 \<Longrightarrow> s \<in> path i f \<Longrightarrow> slot_ok s \<and> owner s = i"
  by (auto simp: path_def less_mult_imp_div_less split: if_splits)

lemma path_first: "s \<in> path i f \<Longrightarrow> first s \<le> f"
  using div_mult_mod_eq [of "f - 267" 256] by (auto simp: path_def split: if_splits)

lemma first_path: "slot_ok s \<Longrightarrow> owner s = i \<Longrightarrow> first s = f \<Longrightarrow> s \<in> path i f"
  by (cases s) (auto simp: path_def split: if_splits)

lemma card_first: "card {s \<in> path i f. first s = f} = cost f"
proof -
  let ?k = "(f - 267) div 256" and ?l = "(f - 267) mod 256"
  have e: "{s \<in> path i f. first s = f} = path i f \<inter> {s. first s = f}" by auto
  consider "f < 11" | "11 \<le> f" "f < 267" | "f = 267" | "267 < f" by linarith
  then show ?thesis
  proof cases
    case 4
    have "256 * ?k + ?l = f - 267" by simp
    then have "267 + 256 * ?k + ?l = f" "267 + 256 * ?k = f \<longleftrightarrow> ?l = 0" using 4 by linarith+
    then show ?thesis using 4 unfolding e by (simp add: path_def Int_insert_left cost_def)
  qed (unfold e, auto simp: path_def Int_insert_left cost_def)
qed

lemma path_empties:
  assumes "used xs i b" and "i < 208" and "f < 65803" and "f \<le> b"
  shows "path i f \<inter> empties xs = (if f = b then {s \<in> path i f. first s = f} else {})"
proof -
  have "ptr xs s = 0 \<longleftrightarrow> b \<le> first s" if "s \<in> path i f" for s
    using path_ok [OF assms(2,3) that] assms(1) unfolding used_def by (metis leD leI)
  then show ?thesis using path_first [of _ i f] assms(4) by force
qed

lemma alloc_used:
  assumes a: "alloc xs n (path i f \<inter> empties xs) ys n'" and u: "used xs i b" and f: "i < 208" "f < 65803" "f \<le> b"
  shows "used ys i (max b (f + 1))" "n' = n + (if f = b then cost f else 0)"
    "i' \<noteq> i \<Longrightarrow> used xs i' b' \<Longrightarrow> used ys i' b'"
proof -
  note e = path_empties [OF u f]
  show "n' = n + (if f = b then cost f else 0)" using alloc_count [OF a] e card_first by simp
  have p: "ptr ys s \<noteq> 0 \<longleftrightarrow> ptr xs s \<noteq> 0 \<or> s \<in> path i f \<inter> empties xs" if "slot_ok s" for s using a that unfolding alloc_def by blast
  show "used ys i (max b (f + 1))" unfolding used_def
  proof (intro allI impI)
    fix s
    assume s: "slot_ok s" "owner s = i"
    have "ptr ys s \<noteq> 0 \<longleftrightarrow> first s < b \<or> (f = b \<and> first s = f)" using p [OF s(1)] e u s first_path [OF s] unfolding used_def by auto
    then show "ptr ys s \<noteq> 0 \<longleftrightarrow> first s < max b (f + 1)" using f(3) by auto
  qed
  show "used ys i' b'" if "i' \<noteq> i" "used xs i' b'"
    using p path_ok [OF f(1,2)] that unfolding used_def by blast
qed

text \<open>Writing a data block.\<close>

lemma write_data:
  fixes off :: nat and bs :: "byte list"
  assumes g: "good xs n" and i: "i < 208" "f < 65803" and a: "ptr xs (fslot i f) \<noteq> 0"
  defines "ys \<equiv> xs[unat (ptr xs (fslot i f)) := put_bytes (xs ! unat (ptr xs (fslot i f))) off bs]"
  shows "slot_ok s \<Longrightarrow> ptr ys s = ptr xs s" "good ys n" "i' < 208 \<Longrightarrow> dn ys i' = dn xs i'" "b < 33 \<Longrightarrow> ys ! b = xs ! b"
    "i' < 208 \<Longrightarrow> k < 65803 * 1024 \<Longrightarrow> fbyte ys i' k = (if i' = i \<and> k div 1024 = f \<and> off \<le> k mod 1024 \<and> k mod 1024 < off + length bs
       then bs ! (k mod 1024 - off) else fbyte xs i' k)"
proof -
  let ?s = "fslot i f"
  have s: "slot_ok ?s" "\<not> is_table ?s" using i by (simp_all add: fslot_ok)
  have r: "47 \<le> unat (ptr xs ?s)" "unat (ptr xs ?s) < n" "n \<le> 4000" using goodD(3) [OF g] goodD(4) [OF g s(1) a] by auto
  show "ys ! b = xs ! b" if "b < 33" using that r(1) by (simp add: ys_def)
  show D: "dn ys i' = dn xs i'" if "i' < 208" for i' using inode_sector_less(1) [OF that] r(1) by (simp add: dn_def ys_def)
  have other: "ys ! unat (ptr xs t) = xs ! unat (ptr xs t)" if "slot_ok t" "t \<noteq> ?s" "ptr xs t \<noteq> 0" for t
  proof -
    have "ptr xs t \<noteq> ptr xs ?s" using goodD(5) [OF g that(1) s(1) that(3)] that(2) by blast
    then have "unat (ptr xs t) \<noteq> unat (ptr xs ?s)" by (simp add: word_unat_eq_iff)
    then show ?thesis by (simp add: ys_def)
  qed
  show P: "ptr ys s = ptr xs s" if "slot_ok s" for s
    using that
  proof (induction rule: slot_induct)
    case (child p k)
    then have "p \<noteq> ?s" using s(2) by blast
    then show ?case using child other [of p] by (simp add: ptr_child via_def)
  qed (simp add: D)
  have "ys ! b = xs ! b" if "n \<le> b" for b using that r by (simp add: ys_def)
  then show "good ys n" using g P unfolding good_def by (simp add: ys_def)
  have y: "ys ! unat (ptr xs ?s) = put_bytes (xs ! unat (ptr xs ?s)) off bs" using r goodD(1) [OF g] by (simp add: ys_def)
  show "fbyte ys i' k = (if i' = i \<and> k div 1024 = f \<and> off \<le> k mod 1024 \<and> k mod 1024 < off + length bs
       then bs ! (k mod 1024 - off) else fbyte xs i' k)" if "i' < 208" "k < 65803 * 1024"
  proof -
    let ?t = "fslot i' (k div 1024)"
    have t: "slot_ok ?t" using that by (simp add: fslot_ok less_mult_imp_div_less)
    show ?thesis
    proof (cases "?t = ?s")
      case True
      then show ?thesis using P [OF t] y a by (auto simp: fbyte_def Let_def fslot_eq put_bytes_def)
    next
      case False
      then show ?thesis using P [OF t] other [OF t] by (auto simp: fbyte_def Let_def)
    qed
  qed
qed

text \<open>The bytes \<open>p\<close> have been put behind the first \<open>k\<close> bytes of file \<open>i\<close>.\<close>

definition appended :: "nat \<Rightarrow> nat \<Rightarrow> byte list \<Rightarrow> block list \<Rightarrow> nat \<Rightarrow> block list \<Rightarrow> nat \<Rightarrow> bool" where
  "appended i k p xs n ys n' \<longleftrightarrow> good ys n' \<and> n' + need (blocks k) = n + need (blocks (k + length p))
     \<and> used ys i (blocks (k + length p)) \<and> (\<forall>i'<208. \<forall>b. i' \<noteq> i \<longrightarrow> used xs i' b \<longrightarrow> used ys i' b)
     \<and> (\<forall>i'<208. \<forall>j<65803 * 1024. fbyte ys i' j = (if i' = i \<and> k \<le> j \<and> j < k + length p then p ! (j - k) else fbyte xs i' j))
     \<and> (\<forall>i'<208. dfields (dn ys i') = dfields (dn xs i')) \<and> (\<forall>a<33. ys ! a = xs ! a)"

lemma appended_trans:
  assumes "appended i k p xs n ys n'" and "appended i (k + length p) q ys n' zs n''"
  shows "appended i k (p @ q) xs n zs n''"
proof -
  have "fbyte zs i' j = (if i' = i \<and> k \<le> j \<and> j < k + length (p @ q) then (p @ q) ! (j - k) else fbyte xs i' j)"
    if "i' < 208" "j < 65803 * 1024" for i' j
    using assms that unfolding appended_def by (auto simp: nth_append)
  then show ?thesis using assms unfolding appended_def by (simp add: add.assoc)
qed

lemma appended_refl: "good xs n \<Longrightarrow> used xs i (blocks k) \<Longrightarrow> appended i k [] xs n xs n"
  by (auto simp: appended_def)

text \<open>One round of the loop: the bytes \<open>bs\<close> lie in one block.\<close>

lemma blocks_round:
  assumes "0 < l" and "k mod 1024 + l \<le> 1024"
  shows "blocks (k + l) = k div 1024 + 1" "blocks k = k div 1024 \<or> blocks k = k div 1024 + 1"
proof -
  have k: "k = 1024 * (k div 1024) + k mod 1024" by simp
  define q r where "q = k div 1024" and "r = k mod 1024"
  have r: "k = 1024 * q + r" "0 < l" "r + l \<le> 1024" "r < 1024" using k assms by (simp_all add: q_def r_def)
  have e: "(1024 * q + c) div 1024 = q + c div 1024" for c by simp
  have "(r + l + 1023) div 1024 = 1" "(r + 1023) div 1024 = 0 \<or> (r + 1023) div 1024 = 1" using r(2-4) by auto
  then show "blocks (k + l) = k div 1024 + 1" "blocks k = k div 1024 \<or> blocks k = k div 1024 + 1"
    using e [of "r + l + 1023"] e [of "r + 1023"] r(1) unfolding q_def [symmetric] blocks_def by (simp_all add: add.assoc)
qed

lemma need_Suc: "need (Suc f) = need f + cost f"
  by (simp add: need_def)

lemma one_block_range:
  fixes k j :: nat
  assumes "k mod 1024 + l \<le> 1024"
  shows "j div 1024 = k div 1024 \<and> k mod 1024 \<le> j mod 1024 \<and> j mod 1024 < k mod 1024 + l \<longleftrightarrow> k \<le> j \<and> j < k + l"
    "j div 1024 = k div 1024 \<Longrightarrow> j mod 1024 - k mod 1024 = j - k"
proof -
  have A: "(p = q \<and> r \<le> t \<and> t < r + l) \<longleftrightarrow> 1024 * q + r \<le> 1024 * p + t \<and> 1024 * p + t < 1024 * q + r + l"
    if "t < 1024" "r + l \<le> 1024" for p q r t :: nat
  proof
    assume a: "1024 * q + r \<le> 1024 * p + t \<and> 1024 * p + t < 1024 * q + r + l"
    then have "1024 * q < 1024 * (p + 1)" "1024 * p < 1024 * (q + 1)" using that by auto
    then have "p = q" by simp
    then show "p = q \<and> r \<le> t \<and> t < r + l" using a by simp
  qed simp
  show "j div 1024 = k div 1024 \<and> k mod 1024 \<le> j mod 1024 \<and> j mod 1024 < k mod 1024 + l \<longleftrightarrow> k \<le> j \<and> j < k + l"
    using A [of "j mod 1024" "k mod 1024" "j div 1024" "k div 1024"] assms by simp
  show "j mod 1024 - k mod 1024 = j - k" if "j div 1024 = k div 1024"
    using div_mult_mod_eq [of j 1024] div_mult_mod_eq [of k 1024] that by linarith
qed

lemma round_appended:
  assumes al: "alloc xs n (path i f \<inter> empties xs) zs n'" and u: "used xs i (blocks k)" and i: "i < 208" and f: "f = k div 1024" "f < 65803"
    and l: "bs \<noteq> []" "k mod 1024 + length bs \<le> 1024"
  defines "a \<equiv> ptr zs (fslot i f)"
  shows "a \<noteq> 0" "appended i k bs xs n (zs[unat a := put_bytes (zs ! unat a) (k mod 1024) bs]) n'"
proof -
  let ?ys = "zs[unat a := put_bytes (zs ! unat a) (k mod 1024) bs]"
  have B: "blocks (k + length bs) = Suc f" "blocks k = f \<or> blocks k = Suc f" "f \<le> blocks k"
    using blocks_round [of "length bs" k] l f(1) by auto
  note U = alloc_used [OF al u i f(2) B(3)]
  have g: "good zs n'" using al unfolding alloc_def by blast
  have uz: "used zs i (Suc f)" using U(1) B(2) by (auto simp: max_def)
  have s: "slot_ok (fslot i f)" "owner (fslot i f) = i" "first (fslot i f) < Suc f" using i f(2) by (auto simp: fslot_ok fslot_def)
  then show a: "a \<noteq> 0" using uz unfolding used_def a_def by blast
  note D = write_data [OF g i f(2) a [unfolded a_def], where off = "k mod 1024" and bs = bs, folded a_def]
  have us: "used ?ys i' b" if "used zs i' b" for i' b using that D(1) unfolding used_def by simp
  have "n' + need (blocks k) = n + need (Suc f)" using U(2) B(2) by (auto simp: need_Suc)
  moreover have "fbyte ?ys i' j = (if i' = i \<and> k \<le> j \<and> j < k + length bs then bs ! (j - k) else fbyte xs i' j)"
    if "i' < 208" "j < 65803 * 1024" for i' j
  proof -
    have "fbyte zs i' j = fbyte xs i' j" using al that unfolding alloc_def by blast
    then show ?thesis using D(5) [OF that] one_block_range [OF l(2), of j] by (auto simp: f(1))
  qed
  moreover have "used ?ys i' b" if "i' \<noteq> i" "used xs i' b" for i' b using us U(3) [OF that] by blast
  moreover have "dfields (dn ?ys i') = dfields (dn xs i')" if "i' < 208" for i'
    using D(3) [OF that] al that unfolding alloc_def by simp
  moreover have "?ys ! b = xs ! b" if "b < 33" for b using D(4) [OF that] al that unfolding alloc_def by simp
  ultimately show "appended i k bs xs n ?ys n'" using D(2) us [OF uz] B(1) unfolding appended_def by simp
qed

lemma round_ok:
  assumes w: "writing i din m xs" and u: "used xs i (blocks k)" and f: "f = k div 1024" "f < 65803"
    and l: "bs \<noteq> []" "k mod 1024 + length bs \<le> 1024" and r: "unat (freeblock m) + need (Suc f) \<le> 4000 + need (blocks k)"
  obtains x din' m1 m' ys where "iappend_block din f m = Ok ((x, din'), m1)" "rsect x m1 = Ok (fsfd m1 ! unat x, m1)"
    "wsect x (put_bytes (fsfd m1 ! unat x) (k mod 1024) bs) m1 = Ok ((), m')" "writing i din' m' ys" "rest_same m m'"
    "appended i k bs xs (unat (freeblock m)) ys (unat (freeblock m'))"
proof -
  have i: "i < 208" by (rule writingD(2) [OF w])
  have B: "blocks k = f \<or> blocks k = Suc f" "f \<le> blocks k" using blocks_round [of "length bs" k] l f(1) by auto
  have "unat (freeblock m) + card (path i f \<inter> empties xs) \<le> 4000"
    using r path_empties [OF u i f(2) B(2)] card_first B(1) goodD(3) [OF writingD(5) [OF w]] by (auto simp: need_Suc)
  then obtain din' m1 zs where I: "iappend_block din f m = Ok ((ptr zs (fslot i f), din'), m1)" "writing i din' m1 zs" "rest_same m m1"
    "alloc xs (unat (freeblock m)) (path i f \<inter> empties xs) zs (unat (freeblock m1))"
    by (rule iappend_block_ok [OF w f(2)])
  let ?a = "ptr zs (fslot i f)"
  let ?y = "put_bytes (zs ! unat ?a) (k mod 1024) bs" and ?m = "m1\<lparr>fsfd := (fsfd m1)[unat ?a := put_bytes (zs ! unat ?a) (k mod 1024) bs]\<rparr>"
  note W = writingD [OF I(2)] and R = round_appended [OF I(4) u i f l]
  have s: "slot_ok (fslot i f)" using i f(2) by (simp add: fslot_ok)
  have r': "47 \<le> unat ?a" "unat ?a < 4000" using goodD(4) [OF W(5) s R(1)] goodD(3) [OF W(5)] by auto
  have e: "fsfd m1 ! unat ?a = zs ! unat ?a" using W(7) [of "unat ?a"] r'(1) by simp
  have l': "length (fsfd m1) = 4000" using W(1) by (simp add: host_ok_def)
  have "good (zs[unat ?a := ?y]) (unat (freeblock m1))" using R(2) by (simp add: appended_def)
  then have wr: "writing i din' ?m (zs[unat ?a := ?y])"
    using W(1-4) flush_flush [OF i l', of "unat ?a"] r'(1) unfolding writing_def host_ok_def by simp
  then show thesis using that [OF I(1) _ _ wr] rsect_ok [OF W(1) r'(2)] wsect_ok [OF W(1) r'(2)] e I(3) R(2) by (simp add: rest_same_def)
qed

lemma need_mono: "a \<le> b \<Longrightarrow> need a \<le> need b"
  unfolding need_def by (rule sum_mono2) auto

lemma blocks_mono: "a \<le> b \<Longrightarrow> blocks a \<le> blocks b"
  unfolding blocks_def by (rule div_le_mono) simp

lemma offset_plus: "unat off + n \<le> 65803 * 1024 \<Longrightarrow> unat (off + of_nat n :: uint) = unat off + n"
  by (simp add: unat_word_ariths unat_of_nat)

lemma iappend_loop_ok:
  assumes "writing i din m xs" and "used xs i (blocks (unat off))" and "unat off + length p \<le> 65803 * 1024"
    and "unat (freeblock m) + need (blocks (unat off + length p)) \<le> 4000 + need (blocks (unat off))"
  shows "\<exists>din' m' ys. iappend_loop din off p m = Ok ((din', off + of_nat (length p)), m') \<and> writing i din' m' ys \<and> rest_same m m'
    \<and> appended i (unat off) p xs (unat (freeblock m)) ys (unat (freeblock m'))"
  using assms
proof (induction "length p" arbitrary: p din off m xs rule: less_induct)
  case less
  note w = less.prems(1) and u = less.prems(2)
  show ?case
  proof (cases "p = []")
    case True
    then show ?thesis using w u appended_refl [OF writingD(5) [OF w] u]
      by (intro exI [of _ din] exI [of _ m] exI [of _ xs]) (simp add: iappend_loop.simps rest_same_def)
  next
    case False
    let ?k = "unat off" and ?f = "unat off div 1024"
    let ?n1 = "min (length p) ((?f + 1) * 1024 - ?k)"
    let ?bs = "take ?n1 p" and ?q = "drop ?n1 p"
    have n1: "0 < ?n1" "?k - ?f * 1024 = ?k mod 1024" using False next_block_start [of ?k] by (auto simp: modulo_nat_def)
    have e: "?k = ?f * 1024 + ?k mod 1024" by simp
    have l: "?bs \<noteq> []" "?k mod 1024 + length ?bs \<le> 1024" "length ?bs = ?n1" using n1 e False by auto
    have lq: "length p = ?n1 + length ?q" by simp
    have "0 < length p" using False by simp
    then have "?k < 65803 * 1024" using less.prems(3) by linarith
    then have f: "?f < 65803" by (rule less_mult_imp_div_less)
    have b: "blocks (?k + ?n1) = Suc ?f" using blocks_round(1) [of "length ?bs" ?k] l by simp
    have r: "unat (freeblock m) + need (Suc ?f) \<le> 4000 + need (blocks ?k)"
      using less.prems(4) need_mono [OF blocks_mono [of "?k + ?n1" "?k + length p"]] b by simp
    obtain x d1 m0 m1 y1 where R: "iappend_block din ?f m = Ok ((x, d1), m0)" "rsect x m0 = Ok (fsfd m0 ! unat x, m0)"
      "wsect x (put_bytes (fsfd m0 ! unat x) (?k mod 1024) ?bs) m0 = Ok ((), m1)" "writing i d1 m1 y1" "rest_same m m1"
      "appended i ?k ?bs xs (unat (freeblock m)) y1 (unat (freeblock m1))"
      by (rule round_ok [OF w u refl f l(1,2) r])
    have o: "unat (off + of_nat ?n1) = ?k + ?n1" by (rule offset_plus) (use less.prems(3) lq in linarith)
    have U: "used y1 i (blocks (unat (off + of_nat ?n1)))" using R(6) l(3) unfolding appended_def o by simp
    have L: "unat (off + of_nat ?n1) + length ?q \<le> 65803 * 1024" using less.prems(3) lq o by linarith
    have "unat (freeblock m1) + need (blocks ?k) = unat (freeblock m) + need (blocks (?k + ?n1))" using R(6) l(3) unfolding appended_def by simp
    then have N: "unat (freeblock m1) + need (blocks (unat (off + of_nat ?n1) + length ?q)) \<le> 4000 + need (blocks (unat (off + of_nat ?n1)))"
      using less.prems(4) lq unfolding o by (simp add: add.assoc)
    have "length ?q < length p" using n1(1) lq by linarith
    from less.hyps [OF this R(4) U L N] obtain d2 m2 y2 where Q:
      "iappend_loop d1 (off + of_nat ?n1) ?q m1 = Ok ((d2, off + of_nat ?n1 + of_nat (length ?q)), m2)" "writing i d2 m2 y2" "rest_same m1 m2"
      "appended i (?k + length ?bs) ?q y1 (unat (freeblock m1)) y2 (unat (freeblock m2))" unfolding o l(3) by blast
    have "off + of_nat ?n1 + of_nat (length ?q) = off + of_nat (length p)" by (subst lq) (simp only: of_nat_add add.assoc)
    then have "iappend_loop din off p m = Ok ((d2, off + of_nat (length p)), m2)"
      using R(1-3) Q(1) False f n1(2) by (subst iappend_loop.simps) (simp add: kbind_apply host_assert_def Let_def)
    then show ?thesis using Q(2) rest_same_trans [OF R(5) Q(3)] appended_trans [OF R(6) Q(4)] by auto
  qed
qed

section \<open>The image between two operations\<close>

text \<open>Changes outside the addresses of the inodes and the blocks of the files.\<close>

lemma same_tree:
  assumes g: "good xs n" and l: "length ys = 4000" and d: "\<And>i. i < 208 \<Longrightarrow> d_addrs (dn ys i) = d_addrs (dn xs i)"
    and same: "\<And>a. 47 \<le> a \<Longrightarrow> ys ! a = xs ! a"
  shows "slot_ok s \<Longrightarrow> ptr ys s = ptr xs s" "good ys n" "used ys i b = used xs i b"
    "i < 208 \<Longrightarrow> k < 65803 * 1024 \<Longrightarrow> fbyte ys i k = fbyte xs i k"
proof -
  have S: "ys ! unat (ptr xs s) = xs ! unat (ptr xs s)" if "slot_ok s" "ptr xs s \<noteq> 0" for s
    using same goodD(4) [OF g that] by blast
  show P: "ptr ys s = ptr xs s" if "slot_ok s" for s
    using that
  proof (induction rule: slot_induct)
    case (child p k)
    then show ?case using S [of p] by (simp add: ptr_child via_def)
  qed (simp add: d)
  show "good ys n" using g P l same goodD(2) [OF g] unfolding good_def by auto
  show "used ys i b = used xs i b" using P unfolding used_def by auto
  show "fbyte ys i k = fbyte xs i k" if "i < 208" "k < 65803 * 1024"
  proof -
    have "slot_ok (fslot i (k div 1024))" using that by (simp add: fslot_ok less_mult_imp_div_less)
    then show ?thesis using P S by (simp add: fbyte_def Let_def)
  qed
qed

definition fsize :: "block list \<Rightarrow> nat \<Rightarrow> nat" where
  "fsize xs i = unat (d_size (dn xs i))"

definition contents :: "block list \<Rightarrow> nat \<Rightarrow> byte list" where
  "contents xs i = map (fbyte xs i) [0..<fsize xs i]"

definition image_ok :: "mkfs \<Rightarrow> bool" where
  "image_ok m \<longleftrightarrow> host_ok m \<and> good (fsfd m) (unat (freeblock m))
     \<and> (\<forall>i<208. fsize (fsfd m) i \<le> 65803 * 1024 \<and> used (fsfd m) i (blocks (fsize (fsfd m) i))
          \<and> (\<forall>k<65803 * 1024. fsize (fsfd m) i \<le> k \<longrightarrow> fbyte (fsfd m) i k = 0))"

lemma mk_superblock_fields: "IBLOCK x mk_superblock = x div 16 + 33" "sb_bmapstart mk_superblock = 46"
  by (simp_all add: IBLOCK_def mk_superblock_def nlog_def ninodeblocks_def)

lemma inode_place:
  assumes "i < 208"
  shows "unat (IBLOCK (of_nat i) mk_superblock) = inode_sector i" "dinode_off (of_nat i) = 64 * (i mod 16)"
proof -
  have "unat (of_nat i :: uint) = i" using assms by (simp add: unat_of_nat)
  moreover have "i div 16 < 13" using assms by (simp add: less_mult_imp_div_less)
  ultimately show "unat (IBLOCK (of_nat i) mk_superblock) = inode_sector i" "dinode_off (of_nat i) = 64 * (i mod 16)"
    by (simp_all add: mk_superblock_fields inode_sector_def dinode_off_def unat_word_ariths unat_div unat_mod)
qed

lemma rinode_ok: "host_ok m \<Longrightarrow> i < 208 \<Longrightarrow> rinode (of_nat i) m = Ok (dn (fsfd m) i, m)"
  using inode_place [of i] inode_sector_less(1) [of i] rsect_ok [of m "IBLOCK (of_nat i) mk_superblock"]
  by (simp add: rinode_def kbind_apply dn_def) (simp add: host_ok_def)

lemma winode_ok: "host_ok m \<Longrightarrow> i < 208 \<Longrightarrow> winode (of_nat i) d m = Ok ((), m\<lparr>fsfd := flush i d (fsfd m)\<rparr>)"
  using inode_place [of i] inode_sector_less(1) [of i] rsect_ok [of m "IBLOCK (of_nat i) mk_superblock"]
    wsect_ok [of m "IBLOCK (of_nat i) mk_superblock"]
  by (simp add: winode_def kbind_apply flush_def) (simp add: host_ok_def)

lemma length_addrs [simp]: "length (d_addrs (dn xs i)) = 13"
  by (simp add: dn_def host_dinode_def)

lemma set_size_ok:
  fixes z :: uint
  assumes w: "writing i d m ys"
  defines "zs \<equiv> flush i (d\<lparr>d_size := z\<rparr>) (fsfd m)"
  shows "good zs (unat (freeblock m))" "used zs j b = used ys j b" "j < 208 \<Longrightarrow> k < 65803 * 1024 \<Longrightarrow> fbyte zs j k = fbyte ys j k"
    "host_ok (m\<lparr>fsfd := zs\<rparr>)" "a < 33 \<Longrightarrow> zs ! a = ys ! a" "dn zs j = (if j = i then (dn ys i)\<lparr>d_size := z\<rparr> else dn ys j)"
proof -
  note W = writingD [OF w]
  have l: "length (fsfd m) = 4000" "length (d_addrs (d\<lparr>d_size := z\<rparr>)) = 13" using W(1,3) by (simp_all add: host_ok_def)
  show D: "dn zs j = (if j = i then (dn ys i)\<lparr>d_size := z\<rparr> else dn ys j)" for j
    using dn_flush [OF W(3,2) l(1)] dn_flush [OF l(2) W(2) l(1)] W(4) by (simp add: zs_def)
  have "d_addrs (dn zs j) = d_addrs (dn ys j)" for j using D by simp
  moreover have "zs ! a = ys ! a" if "47 \<le> a" for a using that W(2,4) by (simp add: zs_def flush_nth)
  ultimately show "good zs (unat (freeblock m))" "used zs j b = used ys j b" "j < 208 \<Longrightarrow> k < 65803 * 1024 \<Longrightarrow> fbyte zs j k = fbyte ys j k"
    using same_tree [OF W(5), where ys = zs] l(1) by (auto simp: zs_def)
  show "zs ! a = ys ! a" if "a < 33" using that W(2,4) by (simp add: zs_def flush_nth)
  show "host_ok (m\<lparr>fsfd := zs\<rparr>)" using W(1) by (simp add: host_ok_def zs_def)
qed

text \<open>What \<open>iappend\<close> does to the files: inode \<open>i\<close> has grown by \<open>p\<close>.\<close>

definition file_grown :: "nat \<Rightarrow> byte list \<Rightarrow> mkfs \<Rightarrow> mkfs \<Rightarrow> bool" where
  "file_grown i p m m' \<longleftrightarrow> image_ok m' \<and> rest_same m m'
     \<and> unat (freeblock m') + need (blocks (fsize (fsfd m) i)) = unat (freeblock m) + need (blocks (fsize (fsfd m) i + length p))
     \<and> contents (fsfd m') i = contents (fsfd m) i @ p \<and> d_type (dn (fsfd m') i) = d_type (dn (fsfd m) i)
     \<and> d_nlink (dn (fsfd m') i) = d_nlink (dn (fsfd m) i) \<and> (\<forall>a<33. fsfd m' ! a = fsfd m ! a)
     \<and> (\<forall>j<208. j \<noteq> i \<longrightarrow> contents (fsfd m') j = contents (fsfd m) j \<and> dfields (dn (fsfd m') j) = dfields (dn (fsfd m) j))"

lemma iappend_ok:
  assumes ok: "image_ok m" and i: "i < 208" and l: "fsize (fsfd m) i + length p \<le> 65803 * 1024"
    and r: "unat (freeblock m) + need (blocks (fsize (fsfd m) i + length p)) \<le> 4000 + need (blocks (fsize (fsfd m) i))"
  shows "\<exists>m'. iappend (of_nat i) p m = Ok ((), m') \<and> file_grown i p m m'"
proof -
  let ?xs = "fsfd m" and ?din = "dn (fsfd m) i" and ?k = "fsize (fsfd m) i"
  have h: "host_ok m" "good ?xs (unat (freeblock m))" "used ?xs i (blocks ?k)" using ok i unfolding image_ok_def by auto
  have w: "writing i ?din m ?xs" using h i by (simp add: writing_def flush_idem)
  obtain d m1 ys where I: "iappend_loop ?din (d_size ?din) p m = Ok ((d, d_size ?din + of_nat (length p)), m1)" "writing i d m1 ys" "rest_same m m1"
    "appended i ?k p ?xs (unat (freeblock m)) ys (unat (freeblock m1))"
    using iappend_loop_ok [OF w, of "d_size ?din" p] h(3) l r unfolding fsize_def by blast
  let ?z = "d_size ?din + of_nat (length p)"
  let ?zs = "flush i (d\<lparr>d_size := ?z\<rparr>) (fsfd m1)"
  note A = I(4) [unfolded appended_def] and Z = set_size_ok [OF I(2), where z = ?z]
  have run: "iappend (of_nat i) p m = Ok ((), m1\<lparr>fsfd := ?zs\<rparr>)"
    using rinode_ok [OF h(1) i] I(1) winode_ok [OF writingD(1) [OF I(2)] i] by (simp add: iappend_def kbind_apply)
  have F: "dfields (dn ys j) = dfields (dn ?xs j)" if "j < 208" for j using A that by blast
  have k: "fsize ?zs j = (if j = i then ?k + length p else fsize ?xs j)" if "j < 208" for j
    using Z(6) [of j] F [OF that] offset_plus [of "d_size ?din" "length p"] l by (simp add: fsize_def dfields_def)
  have b: "fbyte ?zs j n = (if j = i \<and> ?k \<le> n \<and> n < ?k + length p then p ! (n - ?k) else fbyte ?xs j n)" if "j < 208" "n < 65803 * 1024" for j n
    using Z(3) [OF that] A that by simp
  have K: "fsize ?xs j \<le> 65803 * 1024" if "j < 208" for j using ok that by (simp add: image_ok_def)
  have "contents ?zs i = contents ?xs i @ p"
    by (rule nth_equalityI) (use k [OF i] b [OF i] l in \<open>auto simp: contents_def nth_append\<close>)
  moreover have "contents ?zs j = contents ?xs j" if "j < 208" "j \<noteq> i" for j
    using k [OF that(1)] b [OF that(1)] K [OF that(1)] that(2) by (simp add: contents_def)
  moreover have "image_ok (m1\<lparr>fsfd := ?zs\<rparr>)"
  proof -
    have "fsize ?zs j \<le> 65803 * 1024" "used ?zs j (blocks (fsize ?zs j))" if "j < 208" for j
      using k [OF that] l K [OF that] Z(2) A ok that unfolding image_ok_def by auto
    moreover have "fbyte ?zs j n = 0" if "j < 208" "n < 65803 * 1024" "fsize ?zs j \<le> n" for j n
      using k [OF that(1)] b [OF that(1,2)] ok that unfolding image_ok_def by (auto split: if_splits)
    ultimately show ?thesis using Z(1,4) unfolding image_ok_def by simp
  qed
  moreover have "dfields (dn ?zs j) = dfields (dn ?xs j)" if "j < 208" "j \<noteq> i" for j using Z(6) [of j] F that by simp
  moreover have "d_type (dn ?zs i) = d_type ?din" "d_nlink (dn ?zs i) = d_nlink ?din" using Z(6) [of i] F [OF i] by (simp_all add: dfields_def)
  ultimately have "file_grown i p m (m1\<lparr>fsfd := ?zs\<rparr>)" using A I(3) Z(5) unfolding file_grown_def by (simp add: rest_same_def)
  then show ?thesis using run by blast
qed

end
