(* ===== verification/Mkfs_Properties.thy ===== *)
theory Mkfs_Properties
  imports Mkfs_Facts
begin

text \<open>
  The image that \<open>mkfs\<close> leaves: the files with their contents, the root directory with an entry for each, the bitmap and the super
  block, as the kernel reads them.
\<close>

unbundle bit_operations_syntax

section \<open>Sequences of appends\<close>

lemma fsize_contents: "fsize xs i = length (contents xs i)"
  by (simp add: contents_def)

lemma file_grownD:
  assumes "file_grown i p m m'"
  shows "image_ok m'" "rest_same m m'" "contents (fsfd m') i = contents (fsfd m) i @ p" "d_type (dn (fsfd m') i) = d_type (dn (fsfd m) i)"
    "unat (freeblock m') + need (blocks (fsize (fsfd m) i)) = unat (freeblock m) + need (blocks (fsize (fsfd m) i + length p))"
    "d_nlink (dn (fsfd m') i) = d_nlink (dn (fsfd m) i)" "a < 33 \<Longrightarrow> fsfd m' ! a = fsfd m ! a"
    "j < 208 \<Longrightarrow> j \<noteq> i \<Longrightarrow> contents (fsfd m') j = contents (fsfd m) j" "j < 208 \<Longrightarrow> j \<noteq> i \<Longrightarrow> dfields (dn (fsfd m') j) = dfields (dn (fsfd m) j)"
  using assms unfolding file_grown_def by simp_all

lemma file_grown_trans:
  assumes "file_grown i p m m1" and "file_grown i q m1 m2"
  shows "file_grown i (p @ q) m m2"
proof -
  note A = file_grownD [OF assms(1)] and B = file_grownD [OF assms(2)]
  have "fsize (fsfd m1) i = fsize (fsfd m) i + length p" using A(3) by (simp add: fsize_contents)
  then show ?thesis using A B rest_same_trans [OF A(2) B(2)] unfolding file_grown_def by (simp add: add.assoc)
qed

lemma file_grown_refl: "image_ok m \<Longrightarrow> file_grown i [] m m"
  by (simp add: file_grown_def rest_same_def)

lemma need_ge: "b \<le> need b"
proof (induction b)
  case (Suc b)
  have "1 \<le> cost b" by (simp add: cost_def)
  then show ?case using Suc by (simp add: need_Suc)
qed simp

lemma blocks_ge: "k \<le> 1024 * blocks k"
proof -
  have "k + 1023 = 1024 * blocks k + (k + 1023) mod 1024" by (simp add: blocks_def)
  moreover have "(k + 1023) mod 1024 < 1024" by simp
  ultimately show ?thesis by linarith
qed

lemma fits:
  assumes "B + need (blocks k) \<le> 4000"
  shows "k \<le> 65803 * 1024"
proof -
  have "blocks k \<le> 4000" using assms need_ge [of "blocks k"] by linarith
  then show ?thesis using blocks_ge [of k] by linarith
qed

lemma iappend_fits:
  assumes "image_ok m" and "i < 208" and "unat (freeblock m) = B + need (blocks (fsize (fsfd m) i))"
    and "B + need (blocks (fsize (fsfd m) i + length p)) \<le> 4000"
  obtains m' where "iappend (of_nat i) p m = Ok ((), m')" "file_grown i p m m'"
    "unat (freeblock m') = B + need (blocks (fsize (fsfd m') i))" "fsize (fsfd m') i = fsize (fsfd m) i + length p"
proof -
  obtain m' where g: "iappend (of_nat i) p m = Ok ((), m')" "file_grown i p m m'"
    using iappend_ok [OF assms(1,2) fits [OF assms(4)]] assms(3,4) by auto
  have "fsize (fsfd m') i = fsize (fsfd m) i + length p" using file_grownD(3) [OF g(2)] by (simp add: fsize_contents)
  then show thesis using that [OF g] file_grownD(5) [OF g(2)] assms(3) by simp
qed

lemma appends_ok:
  assumes "image_ok m" and "i < 208" and "unat (freeblock m) = B + need (blocks (fsize (fsfd m) i))"
    and "B + need (blocks (fsize (fsfd m) i + length (concat ps))) \<le> 4000"
  shows "\<exists>m'. kfor (iappend (of_nat i)) ps m = Ok ((), m') \<and> file_grown i (concat ps) m m'
    \<and> unat (freeblock m') = B + need (blocks (fsize (fsfd m') i))"
  using assms
proof (induction ps arbitrary: m)
  case Nil
  then show ?case using file_grown_refl by simp
next
  case (Cons p ps)
  have "B + need (blocks (fsize (fsfd m) i + length p)) \<le> 4000"
    using Cons.prems(4) need_mono [OF blocks_mono [of "fsize (fsfd m) i + length p" "fsize (fsfd m) i + length (concat (p # ps))"]] by simp
  then obtain m1 where I: "iappend (of_nat i) p m = Ok ((), m1)" "file_grown i p m m1"
    "unat (freeblock m1) = B + need (blocks (fsize (fsfd m1) i))" "fsize (fsfd m1) i = fsize (fsfd m) i + length p"
    by (rule iappend_fits [OF Cons.prems(1-3)])
  obtain m2 where "kfor (iappend (of_nat i)) ps m1 = Ok ((), m2)" "file_grown i (concat ps) m1 m2"
    "unat (freeblock m2) = B + need (blocks (fsize (fsfd m2) i))"
    using Cons.IH [OF file_grownD(1) [OF I(2)] Cons.prems(2) I(3)] I(4) Cons.prems(4) by (auto simp: add.assoc)
  then show ?case using I(1) file_grown_trans [OF I(2)] by (auto simp: kbind_apply)
qed

section \<open>New files\<close>

lemma addrs_empty:
  assumes "image_ok m" and "i < 208" and "fsize (fsfd m) i = 0"
  shows "d_addrs (dn (fsfd m) i) = replicate 13 0"
proof -
  have "blocks 0 = 0" by (simp add: blocks_def)
  then have u: "used (fsfd m) i 0" using assms unfolding image_ok_def by metis
  have "ptr (fsfd m) (Addr i j) = 0" if "j < 13" for j
    using u [unfolded used_def, rule_format, of "Addr i j"] assms(2) that by auto
  then show ?thesis by (intro nth_equalityI) simp_all
qed

lemma mk_ialloc_ok:
  assumes ok: "image_ok m" and i: "freeinode m = of_nat i" "i < 208" and z: "fsize (fsfd m) i = 0"
  obtains m' where "mk_ialloc ty m = Ok (of_nat i, m')" "image_ok m'" "freeinode m' = of_nat (i + 1)" "freeblock m' = freeblock m"
    "host_reads m' = host_reads m" "\<forall>j<208. contents (fsfd m') j = contents (fsfd m) j"
    "\<forall>j<208. dfields (dn (fsfd m') j) = (if j = i then (ty, 0, 0, 1, 0) else dfields (dn (fsfd m) j))"
    "\<forall>a<33. fsfd m' ! a = fsfd m ! a"
proof -
  let ?xs = "fsfd m" and ?d = "\<lparr>d_type = ty, d_major = 0, d_minor = 0, d_nlink = 1, d_size = 0, d_addrs = replicate 13 0\<rparr>"
  let ?ys = "flush i ?d (fsfd m)" and ?m = "m\<lparr>freeinode := of_nat (i + 1), fsfd := flush i ?d (fsfd m)\<rparr>"
  have h: "host_ok m" "good ?xs (unat (freeblock m))" using ok by (simp_all add: image_ok_def)
  have l: "length ?xs = 4000" using h(1) by (simp add: host_ok_def)
  have D: "dn ?ys j = (if j = i then ?d else dn ?xs j)" for j using dn_flush [of ?d, OF _ i(2) l] by simp
  have "d_addrs (dn ?ys j) = d_addrs (dn ?xs j)" for j using D addrs_empty [OF ok i(2) z] by simp
  moreover have n: "?ys ! a = ?xs ! a" if "47 \<le> a \<or> a < 33" for a using that by (intro flush_nth [OF i(2)]) auto
  ultimately have T: "good ?ys (unat (freeblock m))" "used ?ys j b = used ?xs j b"
    "j < 208 \<Longrightarrow> k < 65803 * 1024 \<Longrightarrow> fbyte ?ys j k = fbyte ?xs j k" for j b k
    using same_tree [OF h(2), where ys = ?ys] l by simp_all
  have s: "fsize ?ys j = fsize ?xs j" for j using D z by (simp add: fsize_def)
  have "image_ok ?m" using T s ok h(1) unfolding image_ok_def host_ok_def by simp
  moreover have "contents ?ys j = contents ?xs j" if "j < 208" for j
  proof -
    have "fsize ?xs j \<le> 65803 * 1024" using ok that by (simp add: image_ok_def)
    then show ?thesis using T(3) [OF that] s by (simp add: contents_def)
  qed
  moreover have "dfields (dn ?ys j) = (if j = i then (ty, 0, 0, 1, 0) else dfields (dn ?xs j))" for j using D by (simp add: dfields_def)
  moreover have "host_ok (m\<lparr>freeinode := of_nat (i + 1)\<rparr>)" using h(1) by (simp add: host_ok_def)
  then have "mk_ialloc ty m = Ok (of_nat i, ?m)"
    using winode_ok [OF _ i(2), of "m\<lparr>freeinode := of_nat (i + 1)\<rparr>" ?d] i(1) by (simp add: mk_ialloc_def kbind_apply Let_def add.commute)
  ultimately show thesis using that [of ?m] n by simp
qed

text \<open>What a file of the host holds, its name in the image, and the entry of the directory.\<close>

definition file_data :: "mkfs \<Rightarrow> byte list \<Rightarrow> byte list" where
  "file_data m arg = (case host_reads m arg of None \<Rightarrow> [] | Some ps \<Rightarrow> concat (takeWhile (\<lambda>bs. bs \<noteq> []) ps))"

definition entry_name :: "byte list \<Rightarrow> byte list" where
  "entry_name arg = (let name = shortname arg in if take 1 name = [of_char (CHR ''_'')] then drop 1 name else name)"

definition arg_ok :: "mkfs \<Rightarrow> byte list \<Rightarrow> bool" where
  "arg_ok m arg \<longleftrightarrow> of_char (CHR ''/'') \<notin> set (shortname arg) \<and> host_reads m arg \<noteq> None \<and> length (entry_name arg) \<le> 14"

fun entries :: "nat \<Rightarrow> byte list list \<Rightarrow> byte list" where
  "entries i [] = []"
| "entries i (arg # args) = mk_dirent (of_nat i) (entry_name arg) @ entries (i + 1) args"

lemma length_mk_dirent [simp]: "length (mk_dirent n name) = 16"
  by (simp add: mk_dirent_def)

lemma length_entries [simp]: "length (entries i args) = 16 * length args"
  by (induction i args rule: entries.induct) simp_all

text \<open>
  \<open>add_file\<close> takes the next inode: the root directory has one more entry, the new file holds what the host's file holds, every
  other file is as it was.
\<close>

lemma add_file_ok:
  assumes ok: "image_ok m" and i: "freeinode m = of_nat i" "2 \<le> i" "i < 208" and z: "fsize (fsfd m) i = 0" and a: "arg_ok m arg"
    and B: "unat (freeblock m) = B + need (blocks (fsize (fsfd m) 1))"
    and r: "B + need (blocks (fsize (fsfd m) 1 + 16)) + need (blocks (length (file_data m arg))) \<le> 4000"
  obtains m' where "add_file 1 arg m = Ok ((), m')" "image_ok m'" "freeinode m' = of_nat (i + 1)" "host_reads m' = host_reads m"
    "contents (fsfd m') 1 = contents (fsfd m) 1 @ mk_dirent (of_nat i) (entry_name arg)" "contents (fsfd m') i = file_data m arg"
    "unat (freeblock m') = B + need (blocks (fsize (fsfd m) 1 + 16)) + need (blocks (length (file_data m arg)))"
    "\<forall>j<208. j \<noteq> 1 \<longrightarrow> j \<noteq> i \<longrightarrow> contents (fsfd m') j = contents (fsfd m) j"
    "\<forall>j<208. j \<noteq> i \<longrightarrow> d_type (dn (fsfd m') j) = d_type (dn (fsfd m) j)" "d_type (dn (fsfd m') i) = T_FILE" "\<forall>a<33. fsfd m' ! a = fsfd m ! a"
proof -
  obtain ps where ps: "host_reads m arg = Some ps" using a by (auto simp: arg_ok_def)
  let ?ps = "takeWhile (\<lambda>bs. bs \<noteq> []) ps" and ?de = "mk_dirent (of_nat i) (entry_name arg)"
  obtain m1 where M: "mk_ialloc T_FILE m = Ok (of_nat i, m1)" "image_ok m1" "freeinode m1 = of_nat (i + 1)" "freeblock m1 = freeblock m"
    "host_reads m1 = host_reads m" "\<forall>j<208. contents (fsfd m1) j = contents (fsfd m) j"
    "\<forall>j<208. dfields (dn (fsfd m1) j) = (if j = i then (T_FILE, 0, 0, 1, 0) else dfields (dn (fsfd m) j))"
    "\<forall>a<33. fsfd m1 ! a = fsfd m ! a"
    by (rule mk_ialloc_ok [OF ok i(1,3) z])
  have s: "fsize (fsfd m1) j = fsize (fsfd m) j" if "j < 208" for j using M(6) that by (simp add: fsize_contents)
  have "B + need (blocks (fsize (fsfd m1) 1 + length ?de)) \<le> 4000" "unat (freeblock m1) = B + need (blocks (fsize (fsfd m1) 1))"
    using r s [of 1] B M(4) by simp_all
  then obtain m2 where R: "iappend (of_nat 1) ?de m1 = Ok ((), m2)" "file_grown 1 ?de m1 m2"
    "unat (freeblock m2) = B + need (blocks (fsize (fsfd m2) 1))" "fsize (fsfd m2) 1 = fsize (fsfd m1) 1 + length ?de"
    using iappend_fits [OF M(2), of 1 B ?de] by auto
  note G = file_grownD [OF R(2)]
  let ?C = "B + need (blocks (fsize (fsfd m) 1 + 16))"
  have "contents (fsfd m2) i = contents (fsfd m) i" using G(8) [of i] M(6) i(2,3) by simp
  then have f0: "fsize (fsfd m2) i = 0" using z by (simp add: fsize_contents)
  have n0: "need (blocks 0) = 0" by (simp add: blocks_def need_def)
  have "unat (freeblock m2) = ?C + need (blocks (fsize (fsfd m2) i))" "?C + need (blocks (fsize (fsfd m2) i + length (concat ?ps))) \<le> 4000"
    using R(3,4) s [of 1] f0 n0 r ps by (simp_all add: file_data_def)
  then obtain m3 where P: "kfor (iappend (of_nat i)) ?ps m2 = Ok ((), m3)" "file_grown i (concat ?ps) m2 m3"
    "unat (freeblock m3) = ?C + need (blocks (fsize (fsfd m3) i))"
    using appends_ok [OF G(1) i(3)] by blast
  note H = file_grownD [OF P(2)]
  have e: "contents (fsfd m3) i = file_data m arg"
    using H(3) f0 ps by (simp add: fsize_contents file_data_def)
  have u: "ucast (of_nat i :: uint) = (of_nat i :: 16 word)" using i(3) by (simp add: unsigned_of_nat take_bit_nat_eq_self)
  have "add_file 1 arg m = Ok ((), m3)"
    using a ps M(1) R(1) P(1) u unfolding add_file_def arg_ok_def entry_name_def
    by (simp add: kbind_apply host_assert_def Let_def)
  moreover have "image_ok m3" "freeinode m3 = of_nat (i + 1)" "host_reads m3 = host_reads m"
    using H(1,2) G(2) M(3,5) by (simp_all add: rest_same_def)
  moreover have "contents (fsfd m3) 1 = contents (fsfd m) 1 @ ?de" using H(8) [of 1] G(3) M(6) i(2) by simp
  moreover have "contents (fsfd m3) j = contents (fsfd m) j" if "j < 208" "j \<noteq> 1" "j \<noteq> i" for j using H(8) G(8) M(6) that by simp
  moreover have "d_type (dn (fsfd m3) j) = (if j = i then T_FILE else d_type (dn (fsfd m) j))" if "j < 208" for j
  proof -
    have "d_type (dn (fsfd m1) j) = (if j = i then T_FILE else d_type (dn (fsfd m) j))" using M(7) that by (auto simp: dfields_def split: if_splits)
    then show ?thesis using H(4) H(9) [of j] G(4) G(9) [of j] that i(2) by (cases "j = 1"; cases "j = i") (auto simp: dfields_def)
  qed
  ultimately show thesis using that [of m3] e P(3) i(3) H(7) G(7) M(8) by (simp add: fsize_contents)
qed

section \<open>The files of the image\<close>

definition root_dir :: "byte list list \<Rightarrow> byte list" where
  "root_dir args = mk_dirent 1 (map of_char ''.'') @ mk_dirent 1 (map of_char ''..'') @ entries 2 args"

text \<open>The blocks of an image with these files: the metadata, the root directory and the files.\<close>

definition image_blocks :: "mkfs \<Rightarrow> byte list list \<Rightarrow> nat" where
  "image_blocks m args = 47 + need (blocks (length (root_dir args))) + (\<Sum>arg\<leftarrow>args. need (blocks (length (file_data m arg))))"

definition built :: "mkfs \<Rightarrow> byte list list \<Rightarrow> mkfs \<Rightarrow> bool" where
  "built m args m' \<longleftrightarrow> image_ok m' \<and> host_reads m' = host_reads m \<and> freeinode m' = of_nat (2 + length args)
     \<and> contents (fsfd m') 1 = root_dir args \<and> d_type (dn (fsfd m') 1) = T_DIR
     \<and> (\<forall>k<length args. contents (fsfd m') (k + 2) = file_data m (args ! k) \<and> d_type (dn (fsfd m') (k + 2)) = T_FILE)
     \<and> (\<forall>i<208. 2 + length args \<le> i \<longrightarrow> contents (fsfd m') i = [])
     \<and> unat (freeblock m') = image_blocks m args
     \<and> (\<forall>a<33. fsfd m' ! a = (if a = 1 then sb_block mk_superblock else (\<lambda>_. 0)))"

lemma entries_append: "entries i (args @ [arg]) = entries i args @ mk_dirent (of_nat (i + length args)) (entry_name arg)"
  by (induction i args rule: entries.induct) simp_all

lemma root_dir_append: "root_dir (args @ [arg]) = root_dir args @ mk_dirent (of_nat (2 + length args)) (entry_name arg)"
  by (simp add: root_dir_def entries_append)

lemma built_step:
  assumes b: "built m args m1" and a: "arg_ok m arg" and l: "length args + 2 < 208" and r: "image_blocks m (args @ [arg]) \<le> 4000"
  obtains m2 where "add_file 1 arg m1 = Ok ((), m2)" "built m (args @ [arg]) m2"
proof -
  let ?i = "2 + length args" and ?B = "47 + (\<Sum>arg\<leftarrow>args. need (blocks (length (file_data m arg))))"
  have b': "image_ok m1" "freeinode m1 = of_nat ?i" "fsize (fsfd m1) ?i = 0" "fsize (fsfd m1) 1 = length (root_dir args)"
    "host_reads m1 = host_reads m" using b l by (simp_all add: built_def fsize_contents)
  have F: "file_data m1 = file_data m" "arg_ok m1 arg" using a b'(5) by (auto simp: file_data_def arg_ok_def fun_eq_iff)
  have B: "unat (freeblock m1) = ?B + need (blocks (fsize (fsfd m1) 1))"
    "?B + need (blocks (fsize (fsfd m1) 1 + 16)) + need (blocks (length (file_data m1 arg))) \<le> 4000"
    using b r b'(4) F by (simp_all add: built_def image_blocks_def root_dir_append)
  have i: "2 \<le> ?i" "?i < 208" using l by simp_all
  obtain m2 where S: "add_file 1 arg m1 = Ok ((), m2)" "image_ok m2" "freeinode m2 = of_nat (?i + 1)" "host_reads m2 = host_reads m1"
    "contents (fsfd m2) 1 = contents (fsfd m1) 1 @ mk_dirent (of_nat ?i) (entry_name arg)" "contents (fsfd m2) ?i = file_data m1 arg"
    "unat (freeblock m2) = ?B + need (blocks (fsize (fsfd m1) 1 + 16)) + need (blocks (length (file_data m1 arg)))"
    "\<forall>j<208. j \<noteq> 1 \<longrightarrow> j \<noteq> ?i \<longrightarrow> contents (fsfd m2) j = contents (fsfd m1) j"
    "\<forall>j<208. j \<noteq> ?i \<longrightarrow> d_type (dn (fsfd m2) j) = d_type (dn (fsfd m1) j)" "d_type (dn (fsfd m2) ?i) = T_FILE" "\<forall>a<33. fsfd m2 ! a = fsfd m1 ! a"
    by (rule add_file_ok [OF b'(1,2) i b'(3) F(2) B])
  have "contents (fsfd m2) (k + 2) = file_data m ((args @ [arg]) ! k) \<and> d_type (dn (fsfd m2) (k + 2)) = T_FILE" if "k < length (args @ [arg])" for k
  proof (cases "k = length args")
    case True
    then show ?thesis using S(6,10) F by (simp add: add.commute)
  next
    case False
    then show ?thesis using S(8,9) b that l by (simp add: built_def nth_append)
  qed
  moreover have "contents (fsfd m2) j = []" if "j < 208" "?i + 1 \<le> j" for j using S(8) b that by (simp add: built_def)
  moreover have "unat (freeblock m2) = image_blocks m (args @ [arg])" using S(7) b'(4) F by (simp add: image_blocks_def root_dir_append)
  ultimately have "built m (args @ [arg]) m2" using S(2-5,9,11) b unfolding built_def by (simp add: root_dir_append)
  then show thesis using that S(1) by blast
qed

lemma image_blocks_mono: "image_blocks m args \<le> image_blocks m (args @ rest)"
proof (induction rest rule: rev_induct)
  case (snoc a rest)
  have "image_blocks m (args @ rest) \<le> image_blocks m ((args @ rest) @ [a])"
    using need_mono [OF blocks_mono, of "length (root_dir (args @ rest))" "length (root_dir (args @ rest)) + 16"]
    unfolding image_blocks_def root_dir_append by simp
  then show ?case using snoc by simp
qed simp

lemma built_files:
  assumes "built m args m1" and "\<forall>arg\<in>set rest. arg_ok m arg" and "length args + length rest + 2 \<le> 208" and "image_blocks m (args @ rest) \<le> 4000"
  shows "\<exists>m2. kfor (add_file 1) rest m1 = Ok ((), m2) \<and> built m (args @ rest) m2"
  using assms
proof (induction rest arbitrary: args m1)
  case (Cons a rest)
  have "image_blocks m (args @ [a]) \<le> 4000" using Cons.prems(4) image_blocks_mono [of m "args @ [a]" rest] by simp
  then obtain m2 where S: "add_file 1 a m1 = Ok ((), m2)" "built m (args @ [a]) m2"
    using built_step [OF Cons.prems(1), of a] Cons.prems(2,3) by auto
  then show ?case using Cons.IH [OF S(2)] Cons.prems by (auto simp: kbind_apply)
qed simp

section \<open>The empty image\<close>

lemma zero_sectors:
  assumes "\<forall>c a. \<not> host_fails m c a" and "fsfd m = []" and "n \<le> 4000"
  shows "kfor (\<lambda>i. wsect (of_nat i) (\<lambda>_. 0)) [0..<n] m = Ok ((), m\<lparr>fsfd := replicate n (\<lambda>_. 0)\<rparr>)"
  using assms(3)
proof (induction n)
  case 0
  then show ?case using assms(2) by simp
next
  case (Suc n)
  have "sector (of_nat n) = n" using Suc.prems by (simp add: sector_small unat_of_nat)
  then have "wsect (of_nat n) (\<lambda>_. 0) (m\<lparr>fsfd := replicate n (\<lambda>_. 0)\<rparr>) = Ok ((), m\<lparr>fsfd := replicate (Suc n) (\<lambda>_. 0)\<rparr>)"
    using assms(1) by (simp add: wsect_def kbind_apply put_sector_def replicate_append_same [symmetric])
  then show ?case using Suc by (simp add: kfor_append kbind_apply)
qed

definition blank :: "block list" where
  "blank = (replicate 4000 (\<lambda>_. 0))[1 := sb_block mk_superblock]"

lemma blank_dn: "i < 208 \<Longrightarrow> dn blank i = \<lparr>d_type = 0, d_major = 0, d_minor = 0, d_nlink = 0, d_size = 0, d_addrs = replicate 13 0\<rparr>"
  using inode_sector_less [of i]
  by (simp add: dn_def blank_def host_dinode_def load16_def load32_def map_replicate_const del: upt.simps)

lemma blank_ptr: "slot_ok s \<Longrightarrow> ptr blank s = 0"
proof (induction rule: slot_induct)
  case (child p k)
  then show ?case by (simp add: ptr_child via_def)
qed (simp add: blank_dn)

lemma blank_ok:
  assumes "fsfd m = blank" and "freeblock m = 47" and "mk_sb m = mk_superblock" and "\<forall>c a. \<not> host_fails m c a"
  shows "image_ok m"
proof -
  have "(blank ! a) j = 0" if "47 \<le> a" "a < 4000" for a j using that by (simp add: blank_def)
  then have "good blank 47" using blank_ptr by (simp add: good_def) (simp add: blank_def)
  moreover have "fsize blank i = 0" if "i < 208" for i using that by (simp add: fsize_def blank_dn)
  moreover have "used blank i (blocks 0)" for i using blank_ptr by (simp add: used_def blocks_def)
  moreover have "fbyte blank i k = 0" if "i < 208" "k < 65803 * 1024" for i k
    using blank_ptr [of "fslot i (k div 1024)"] fslot_ok(1) [OF that(1), of "k div 1024"] that by (simp add: fbyte_def less_mult_imp_div_less)
  ultimately show ?thesis using assms unfolding image_ok_def host_ok_def by (simp add: blank_def)
qed

text \<open>The image with an empty root directory.\<close>

lemma built_start:
  assumes "fsfd m1 = blank" and "freeblock m1 = 47" and "mk_sb m1 = mk_superblock" and "\<forall>c a. \<not> host_fails m1 c a" and "freeinode m1 = 1"
    and "host_reads m1 = host_reads m"
  obtains m2 m3 m4 where "mk_ialloc T_DIR m1 = Ok (1, m2)" "iappend 1 (mk_dirent 1 (map of_char ''.'')) m2 = Ok ((), m3)"
    "iappend 1 (mk_dirent 1 (map of_char ''..'')) m3 = Ok ((), m4)" "built m [] m4"
proof -
  have z: "contents blank j = []" if "j < 208" for j using that by (simp add: contents_def fsize_def blank_dn)
  obtain m2 where M: "mk_ialloc T_DIR m1 = Ok (of_nat 1, m2)" "image_ok m2" "freeinode m2 = of_nat (1 + 1)" "freeblock m2 = freeblock m1"
    "host_reads m2 = host_reads m1" "\<forall>j<208. contents (fsfd m2) j = contents (fsfd m1) j"
    "\<forall>j<208. dfields (dn (fsfd m2) j) = (if j = 1 then (T_DIR, 0, 0, 1, 0) else dfields (dn (fsfd m1) j))"
    "\<forall>a<33. fsfd m2 ! a = fsfd m1 ! a"
    by (rule mk_ialloc_ok [OF blank_ok [OF assms(1-4)], of 1]) (use assms(1,5) z in \<open>simp_all add: fsize_contents\<close>)
  have c: "contents (fsfd m2) j = []" if "j < 208" for j using M(6) z assms(1) that by simp
  have n: "need (blocks 0) = 0" "need (blocks 16) = 1" "need (blocks 32) = 1" by (simp_all add: need_def blocks_def cost_def)
  obtain m3 where A: "iappend (of_nat 1) (mk_dirent 1 (map of_char ''.'')) m2 = Ok ((), m3)" "file_grown 1 (mk_dirent 1 (map of_char ''.'')) m2 m3"
    "unat (freeblock m3) = 47 + need (blocks (fsize (fsfd m3) 1))" "fsize (fsfd m3) 1 = fsize (fsfd m2) 1 + length (mk_dirent 1 (map of_char ''.''))"
    by (rule iappend_fits [OF M(2), of 1 47 "mk_dirent 1 (map of_char ''.'')"]) (use M(4) assms(2) c n in \<open>simp_all add: fsize_contents\<close>)
  obtain m4 where B: "iappend (of_nat 1) (mk_dirent 1 (map of_char ''..'')) m3 = Ok ((), m4)" "file_grown 1 (mk_dirent 1 (map of_char ''..'')) m3 m4"
    "unat (freeblock m4) = 47 + need (blocks (fsize (fsfd m4) 1))" "fsize (fsfd m4) 1 = fsize (fsfd m3) 1 + length (mk_dirent 1 (map of_char ''..''))"
    by (rule iappend_fits [OF file_grownD(1) [OF A(2)], of 1 47 "mk_dirent 1 (map of_char ''..'')"]) (use A(3,4) c n in \<open>simp_all add: fsize_contents\<close>)
  note G = file_grownD [OF A(2)] and H = file_grownD [OF B(2)]
  have "contents (fsfd m4) 1 = root_dir []" using H(3) G(3) c by (simp add: root_dir_def)
  moreover from this have "unat (freeblock m4) = image_blocks m []" using B(3) by (simp add: image_blocks_def fsize_contents)
  moreover have "contents (fsfd m4) j = []" if "j < 208" "2 \<le> j" for j using H(8) [of j] G(8) [of j] c that by simp
  moreover have "d_type (dn (fsfd m4) 1) = T_DIR" using H(4) G(4) M(7) [rule_format, of 1] by (simp add: dfields_def)
  moreover have "fsfd m4 ! a = (if a = 1 then sb_block mk_superblock else (\<lambda>_. 0))" if "a < 33" for a
    using H(7) [OF that] G(7) [OF that] M(8) that assms(1) by (simp add: blank_def)
  ultimately have "built m [] m4" using H(1,2) G(2) M(3,5) assms(6) unfolding built_def rest_same_def by simp
  then show thesis using that [of m2 m3 m4] M(1) A(1) B(1) by simp
qed

section \<open>The bitmap and the size of the root directory\<close>

definition used_bits :: "nat \<Rightarrow> block" where
  "used_bits n = fold (\<lambda>i x. x(i div 8 := x (i div 8) OR push_bit (i mod 8) 1)) [0..<n] (\<lambda>_. 0)"

lemma used_bits_bit: "bit (used_bits n j) t \<longleftrightarrow> t < 8 \<and> 8 * j + t < n"
proof (induction n)
  case (Suc n)
  have "used_bits (Suc n) = (used_bits n)(n div 8 := used_bits n (n div 8) OR push_bit (n mod 8) 1)" by (simp add: used_bits_def)
  moreover have "8 * j + t < Suc n \<longleftrightarrow> 8 * j + t < n \<or> (j = n div 8 \<and> t = n mod 8)" if "t < 8"
    using that by (auto simp: less_Suc_eq)
  ultimately show ?case using Suc by (auto simp: bit_simps less_Suc_eq)
qed (simp add: used_bits_def)

lemma used_bits_mask: "used_bits n (b div 8) AND bit_mask b \<noteq> 0 \<longleftrightarrow> b < n"
proof -
  have "bit_mask b = 2 ^ (b mod 8)" by (simp add: bit_mask_def push_bit_of_1)
  then show ?thesis by (simp add: and_exp_eq_0_iff_not_bit used_bits_bit)
qed

lemma mk_balloc_ok:
  assumes "host_ok m" and "n \<le> 4000" and "freeblock m = of_nat n"
  shows "mk_balloc (sint (freeblock m)) m = Ok ((), m\<lparr>fsfd := (fsfd m)[46 := used_bits n]\<rparr>)"
proof -
  have "sint (freeblock m) = int n" using assms(2,3) by (simp add: signed_of_nat signed_take_bit_int_eq_self)
  then show ?thesis using assms(1,2) wsect_ok [OF assms(1), of 46 "used_bits n"]
    by (simp add: mk_balloc_def kbind_apply host_assert_def Let_def used_bits_def) (simp add: host_ok_def mk_superblock_fields)
qed

lemma bitmap_same:
  assumes g: "good xs n" and l: "\<forall>j<208. fsize xs j \<le> 65803 * 1024"
  shows "good (xs[46 := x]) n" "j < 208 \<Longrightarrow> contents (xs[46 := x]) j = contents xs j" "j < 208 \<Longrightarrow> dn (xs[46 := x]) j = dn xs j"
    "used (xs[46 := x]) j b = used xs j b"
proof -
  show D: "dn (xs[46 := x]) j = dn xs j" if "j < 208" for j using inode_sector_less(1) [OF that] by (simp add: dn_def)
  then have T: "good (xs[46 := x]) n" "used (xs[46 := x]) j b = used xs j b"
    "j < 208 \<Longrightarrow> k < 65803 * 1024 \<Longrightarrow> fbyte (xs[46 := x]) j k = fbyte xs j k" for j b k
    using same_tree [OF g, where ys = "xs[46 := x]"] goodD(1) [OF g] by simp_all
  show "good (xs[46 := x]) n" "used (xs[46 := x]) j b = used xs j b" by (fact T(1,2))+
  show "contents (xs[46 := x]) j = contents xs j" if "j < 208"
  proof -
    have "fsize xs j \<le> 65803 * 1024" using l that by blast
    then show ?thesis using T(3) [OF that] D [OF that] by (simp add: contents_def fsize_def)
  qed
qed

lemma fix_root_size_ok:
  assumes ok: "image_ok m" and z: "fsize (fsfd m) 1 \<le> 4096"
  obtains m' where "fix_root_size 1 m = Ok ((), m')" "host_ok m'" "good (fsfd m') (unat (freeblock m))" "freeblock m' = freeblock m"
    "\<exists>l. contents (fsfd m') 1 = contents (fsfd m) 1 @ replicate l 0" "\<forall>a<33. fsfd m' ! a = fsfd m ! a"
    "\<forall>j<208. j \<noteq> 1 \<longrightarrow> contents (fsfd m') j = contents (fsfd m) j" "\<forall>j. d_type (dn (fsfd m') j) = d_type (dn (fsfd m) j)"
    "\<forall>j<208. j \<noteq> 1 \<longrightarrow> used (fsfd m') j (blocks (fsize (fsfd m') j))" "\<forall>j<208. fsize (fsfd m') j \<le> 65803 * 1024"
proof -
  let ?xs = "fsfd m" and ?d = "dn (fsfd m) 1"
  let ?z = "(d_size ?d div 1024 + 1) * 1024"
  let ?ys = "flush 1 (?d\<lparr>d_size := ?z\<rparr>) ?xs"
  have h: "host_ok m" "good ?xs (unat (freeblock m))" using ok by (simp_all add: image_ok_def)
  have w: "writing 1 ?d m ?xs" using h by (simp add: writing_def flush_idem)
  note S = set_size_ok [OF w, where z = ?z]
  let ?k = "fsize ?xs 1"
  have k: "unat ?z = (?k div 1024 + 1) * 1024" using z unfolding fsize_def by (simp add: unat_word_ariths unat_div)
  have zz: "?k \<le> unat ?z" "unat ?z \<le> 65803 * 1024" using k z next_block_start [of ?k] by auto
  moreover have s: "fsize ?ys j = (if j = 1 then unat ?z else fsize ?xs j)" for j using S(6) [of j] by (simp add: fsize_def)
  moreover have "fbyte ?xs 1 n = 0" if "?k \<le> n" "n < 65803 * 1024" for n using ok that by (simp add: image_ok_def)
  ultimately have "contents ?ys 1 = contents ?xs 1 @ replicate (unat ?z - ?k) 0"
    using S(3) [of 1] by (intro nth_equalityI) (auto simp: contents_def nth_append)
  moreover have "contents ?ys j = contents ?xs j" if "j < 208" "j \<noteq> 1" for j
  proof -
    have "fsize ?xs j \<le> 65803 * 1024" using ok that by (simp add: image_ok_def)
    then show ?thesis using S(3) [OF that(1)] s [of j] that(2) by (simp add: contents_def)
  qed
  moreover have "fix_root_size 1 m = Ok ((), m\<lparr>fsfd := ?ys\<rparr>)"
    using rinode_ok [OF h(1), of 1] winode_ok [OF h(1), of 1] by (simp add: fix_root_size_def kbind_apply Let_def)
  moreover have "d_type (dn ?ys j) = d_type (dn ?xs j)" for j using S(6) [of j] by simp
  moreover have "used ?ys j (blocks (fsize ?ys j))" if "j < 208" "j \<noteq> 1" for j
    using S(2) s [of j] ok that by (simp add: image_ok_def)
  moreover have "fsize ?ys j \<le> 65803 * 1024" if "j < 208" for j using s [of j] zz(2) ok that by (simp add: image_ok_def)
  ultimately show thesis using that [of "m\<lparr>fsfd := ?ys\<rparr>"] S(1,4,5) by auto
qed

section \<open>The image as the kernel sees it\<close>

text \<open>A kernel whose disk is the image and whose inode table holds inode \<open>i\<close> of the image in entry \<open>ip\<close>.\<close>

definition holds_inode :: "block list \<Rightarrow> nat \<Rightarrow> kfs \<Rightarrow> nat \<Rightarrow> bool" where
  "holds_inode xs i s ip \<longleftrightarrow> (\<forall>n. unat n < length xs \<longrightarrow> blk (idev (inodes s ip)) s n = xs ! unat n)
     \<and> (\<exists>y. inodes s ip = get_dinode (blk (idev (inodes s ip)) s (IBLOCK (of_nat i) mk_superblock)) (dinode_off (of_nat i)) y)"

lemma kernel_reads:
  assumes g: "good xs n" and h: "holds_inode xs i s ip" and i: "i < 208" and u: "used xs i (blocks (fsize xs i))"
    and k: "k < fsize xs i" "k < 267 * 1024"
  shows "isize (inodes s ip) = d_size (dn xs i)" "has_block s ip (k div 1024)" "file_byte s ip k = contents xs i ! k"
proof -
  let ?f = "k div 1024"
  have l: "length xs = 4000" "n \<le> 4000" using goodD(1,3) [OF g] by simp_all
  have b: "blk (idev (inodes s ip)) s a = xs ! unat a" if "unat a < 4000" for a using h that l by (simp add: holds_inode_def)
  have "unat (IBLOCK (of_nat i) mk_superblock) = inode_sector i" "inode_sector i < 4000"
    using inode_place(1) [OF i] inode_sector_less(1) [OF i] by simp_all
  then obtain y where y: "inodes s ip = get_dinode (xs ! inode_sector i) (64 * (i mod 16)) y"
    using h b [of "IBLOCK (of_nat i) mk_superblock"] inode_place(2) [OF i] unfolding holds_inode_def by auto
  then show "isize (inodes s ip) = d_size (dn xs i)" by (simp add: get_dinode_def dn_def host_dinode_def)
  have ad: "iaddrs (inodes s ip) j = ptr xs (Addr i j)" if "j < 12" for j
    using that unfolding y by (simp add: get_dinode_def dn_def host_dinode_def del: upt.simps)
  have f: "?f < 267" using k(2) by (rule less_mult_imp_div_less)
  have "k < 1024 * blocks (fsize xs i)" using k(1) blocks_ge [of "fsize xs i"] by linarith
  then have "?f < blocks (fsize xs i)" by (simp add: less_mult_imp_div_less mult.commute)
  then have p: "ptr xs s \<noteq> 0" if "s \<in> path i ?f" for s
    using u path_ok [OF i _ that] path_first [OF that] f unfolding used_def by auto
  have s: "fslot i ?f \<in> path i ?f" by (simp add: fslot_def path_def)
  have fa: "file_addr s ip ?f = ptr xs (fslot i ?f)"
  proof (cases "?f < 11")
    case False
    then have "ptr xs (Addr i 11) \<noteq> 0" using p [of "Addr i 11"] False f by (simp add: path_def)
    moreover from this have "unat (ptr xs (Addr i 11)) < 4000" using goodD(4) [OF g, of "Addr i 11"] i l by auto
    ultimately show ?thesis using ad [of 11] b False f by (simp add: file_addr_def fslot_def via_def)
  qed (use ad [of ?f] in \<open>simp add: file_addr_def fslot_def\<close>)
  then show "has_block s ip ?f" using p [OF s] f ad [of 11] p [of "Addr i 11"] by (auto simp: has_block_def path_def)
  have "unat (ptr xs (fslot i ?f)) < 4000" using goodD(4) [OF g _ p [OF s]] fslot_ok(1) [OF i] f l by auto
  then show "file_byte s ip k = contents xs i ! k"
    using fa b p [OF s] k(1) by (simp add: file_byte_def contents_def fbyte_def Let_def)
qed

lemma sb_block_fields:
  "\<lparr>sb_magic = load32 (sb_block b) 0, sb_size = load32 (sb_block b) 4, sb_nblocks = load32 (sb_block b) 8, sb_ninodes = load32 (sb_block b) 12,
    sb_nlog = load32 (sb_block b) 16, sb_logstart = load32 (sb_block b) 20, sb_inodestart = load32 (sb_block b) 24,
    sb_bmapstart = load32 (sb_block b) 28\<rparr> = b"
  by (simp add: sb_block_def)

text \<open>The part of \<open>main\<close> before and after the files.\<close>

lemma mkfs_start:
  assumes "\<forall>c a. \<not> host_fails m c a"
  obtains m1 where "built m [] m1"
    "mkfs_main (prog # img # files) m = kbind (kfor (add_file 1) files) (\<lambda>_. kbind (fix_root_size 1) (\<lambda>_.
       kbind (kgets freeblock) (\<lambda>used. kbind (mk_balloc (sint used)) (\<lambda>_. kret 0)))) m1"
proof -
  let ?m = "m\<lparr>fsfd := [], mk_sb := mk_superblock, freeinode := 1, freeblock := of_nat nmeta\<rparr>"
  let ?z = "?m\<lparr>fsfd := replicate 4000 (\<lambda>_. 0)\<rparr>" and ?b = "?m\<lparr>fsfd := blank\<rparr>"
  have z: "kfor (\<lambda>i. wsect (of_nat i) (\<lambda>_. 0)) [0..<4000] ?m = Ok ((), ?z)" using zero_sectors [of ?m 4000] assms by simp
  have w: "wsect 1 (sb_block mk_superblock) ?z = Ok ((), ?b)"
    using wsect_ok [of ?z 1] assms by (simp add: host_ok_def blank_def)
  obtain m2 m3 m4 where S: "mk_ialloc T_DIR ?b = Ok (1, m2)" "iappend 1 (mk_dirent 1 (map of_char ''.'')) m2 = Ok ((), m3)"
    "iappend 1 (mk_dirent 1 (map of_char ''..'')) m3 = Ok ((), m4)" "built m [] m4"
    by (rule built_start [of ?b m]) (use assms in \<open>simp_all add: nmeta_def nlog_def ninodeblocks_def nbitmap_def\<close>)
  have "mkfs_main (prog # img # files) m = kbind (kfor (add_file 1) files) (\<lambda>_. kbind (fix_root_size 1) (\<lambda>_.
       kbind (kgets freeblock) (\<lambda>used. kbind (mk_balloc (sint used)) (\<lambda>_. kret 0)))) m4"
    using assms z w S(1-3) by (simp add: mkfs_main_def kbind_apply host_assert_def del: upt.simps)
  then show thesis using that [OF S(4)] by blast
qed

text \<open>
  C9: \<open>mkfs\<close> makes the file system that the kernel reads. When the host's files can be read, their names fit, there are at most 198
  of them and their blocks fit into the image, \<open>main\<close> returns 0 and leaves an image of 4000 blocks. Its super block is what
  \<open>readsb\<close> needs and its log is empty. File \<open>k\<close> of the command line is inode \<open>k + 2\<close>, a regular file with the bytes of the
  host's file. The root directory, inode 1, has an entry for itself, its parent and each file in order, followed by zeroes only.
  The bitmap marks exactly the blocks below \<open>image_blocks\<close>, the number of blocks of metadata, directory and files together, and no
  block belongs to two places of the file system. A kernel on this disk finds in the blocks that \<open>bmap\<close> reaches without
  the doubly-indirect block the bytes of the files.
\<close>

theorem mkfs_image:
  assumes "\<forall>c a. \<not> host_fails m c a" and "\<forall>arg\<in>set files. arg_ok m arg" and "length files \<le> 198" and "image_blocks m files \<le> FSSIZE"
  shows "\<exists>m' xs. mkfs_main (prog # img # files) m = Ok (0, m') \<and> xs = fsfd m' \<and> length xs = FSSIZE
    \<and> xs ! 1 = sb_block mk_superblock \<and> head_n (xs ! 2) = 0
    \<and> (\<forall>k<length files. contents xs (k + 2) = file_data m (files ! k) \<and> d_type (dn xs (k + 2)) = T_FILE)
    \<and> (\<exists>l. contents xs 1 = root_dir files @ replicate l 0) \<and> d_type (dn xs 1) = T_DIR
    \<and> (\<forall>b. (xs ! 46) (b div 8) AND bit_mask b \<noteq> 0 \<longleftrightarrow> b < image_blocks m files)
    \<and> (\<forall>s t. slot_ok s \<and> slot_ok t \<and> ptr xs s \<noteq> 0 \<and> ptr xs s = ptr xs t \<longrightarrow> s = t \<and> unat (ptr xs s) < image_blocks m files)
    \<and> (\<forall>k j s ip. k < length files \<and> holds_inode xs (k + 2) s ip \<and> j < length (file_data m (files ! k)) \<and> j < 267 * 1024 \<longrightarrow>
         has_block s ip (j div 1024) \<and> file_byte s ip j = file_data m (files ! k) ! j)"
proof -
  obtain m1 where S: "built m [] m1"
    "mkfs_main (prog # img # files) m = kbind (kfor (add_file 1) files) (\<lambda>_. kbind (fix_root_size 1) (\<lambda>_.
       kbind (kgets freeblock) (\<lambda>used. kbind (mk_balloc (sint used)) (\<lambda>_. kret 0)))) m1"
    by (rule mkfs_start [OF assms(1)])
  obtain m2 where F: "kfor (add_file 1) files m1 = Ok ((), m2)" "built m files m2"
    using built_files [OF S(1) assms(2)] assms(3,4) by auto
  note B = F(2) [unfolded built_def]
  have ok: "image_ok m2" "fsize (fsfd m2) 1 \<le> 4096" using B assms(3) by (simp_all add: fsize_contents root_dir_def)
  obtain m3 where R: "fix_root_size 1 m2 = Ok ((), m3)" "host_ok m3" "good (fsfd m3) (unat (freeblock m2))" "freeblock m3 = freeblock m2"
    "\<exists>l. contents (fsfd m3) 1 = contents (fsfd m2) 1 @ replicate l 0" "\<forall>a<33. fsfd m3 ! a = fsfd m2 ! a"
    "\<forall>j<208. j \<noteq> 1 \<longrightarrow> contents (fsfd m3) j = contents (fsfd m2) j" "\<forall>j. d_type (dn (fsfd m3) j) = d_type (dn (fsfd m2) j)"
    "\<forall>j<208. j \<noteq> 1 \<longrightarrow> used (fsfd m3) j (blocks (fsize (fsfd m3) j))" "\<forall>j<208. fsize (fsfd m3) j \<le> 65803 * 1024"
    by (rule fix_root_size_ok [OF ok])
  let ?n = "image_blocks m files" and ?xs = "(fsfd m3)[46 := used_bits (image_blocks m files)]"
  have u: "unat (freeblock m2) = ?n" using B by simp
  moreover have "freeblock m2 = of_nat (unat (freeblock m2))" by simp
  ultimately have n: "unat (freeblock m2) = ?n" "freeblock m3 = of_nat ?n" using R(4) by simp_all
  have run: "mkfs_main (prog # img # files) m = Ok (0, m3\<lparr>fsfd := ?xs\<rparr>)"
    using S(2) F(1) R(1) mk_balloc_ok [OF R(2) assms(4) n(2)] by (simp add: kbind_apply)
  note T = bitmap_same [OF R(3) [unfolded n(1)] R(10), where x = "used_bits ?n"]
  have sec: "?xs ! a = (if a = 1 then sb_block mk_superblock else (\<lambda>_. 0))" if "a < 33" for a using that R(6) B by simp
  have C: "contents ?xs (k + 2) = file_data m (files ! k) \<and> d_type (dn ?xs (k + 2)) = T_FILE" if "k < length files" for k
    using T(2,3) [of "k + 2"] R(7,8) B that assms(3) by simp
  have K: "has_block s ip (j div 1024) \<and> file_byte s ip j = file_data m (files ! k) ! j"
    if "k < length files" "holds_inode ?xs (k + 2) s ip" "j < length (file_data m (files ! k))" "j < 267 * 1024" for k j s ip
  proof -
    have i: "k + 2 < 208" "k + 2 \<noteq> 1" using that(1) assms(3) by simp_all
    have "used ?xs (k + 2) (blocks (fsize ?xs (k + 2)))" using T(3,4) R(9) i by (simp add: fsize_def)
    moreover have "j < fsize ?xs (k + 2)" using C [OF that(1)] that(3) by (simp add: fsize_contents)
    ultimately show ?thesis using kernel_reads(2,3) [OF T(1) that(2) i(1) _ _ that(4)] C [OF that(1)] by simp
  qed
  have P: "s = t \<and> unat (ptr ?xs s) < ?n" if "slot_ok s" "slot_ok t" "ptr ?xs s \<noteq> 0" "ptr ?xs s = ptr ?xs t" for s t
    using goodD(4) [OF T(1) that(1,3)] goodD(5) [OF T(1) that] by simp
  have l: "length (fsfd m3) = 4000" using R(2) by (simp add: host_ok_def)
  have bits: "(?xs ! 46) (b div 8) AND bit_mask b \<noteq> 0 \<longleftrightarrow> b < ?n" for b using used_bits_mask l by simp
  have root: "\<exists>l. contents ?xs 1 = root_dir files @ replicate l 0" "d_type (dn ?xs 1) = T_DIR" using T(2,3) [of 1] R(5,8) B by simp_all
  have sb: "?xs ! 1 = sb_block mk_superblock" "head_n (?xs ! 2) = 0" using sec [of 1] sec [of 2] by (simp_all add: head_n_def load32_def)
  show ?thesis
    by (intro exI [of _ "m3\<lparr>fsfd := ?xs\<rparr>"] exI [of _ ?xs] conjI, rule run, simp, simp add: l, rule sb(1), rule sb(2), use C in blast,
      rule root(1), rule root(2), rule allI, rule bits, intro allI impI, elim conjE, rule P, assumption+,
      intro allI impI, elim conjE, rule K, assumption+)
qed

definition demo_host :: mkfs where
  "demo_host = \<lparr>fsfd = [], mk_sb = mk_superblock, freeinode = 0, freeblock = 0, host_fails = (\<lambda>_ _. False),
     host_reads = (\<lambda>_. Some [[104], [105], []])\<rparr>"

theorem mkfs_image_witness:
  "\<exists>m'. mkfs_main [map of_char ''mkfs'', map of_char ''fs.img'', map of_char ''user/_a''] demo_host = Ok (0, m')
     \<and> contents (fsfd m') 2 = [104, 105] \<and> take 48 (contents (fsfd m') 1) = root_dir [map of_char ''user/_a'']"
proof -
  let ?files = "[map of_char ''user/_a''] :: byte list list"
  have d: "file_data demo_host a = [104, 105]" for a by (simp add: file_data_def demo_host_def)
  have n: "need (blocks 48) = 1" "need (blocks (Suc (Suc 0))) = 1" by (simp_all add: need_def blocks_def cost_def)
  have a: "\<forall>arg\<in>set ?files. arg_ok demo_host arg" by (simp add: arg_ok_def entry_name_def shortname_def demo_host_def)
  have l: "length (root_dir ?files) = 48" by (simp add: root_dir_def)
  then have t: "image_blocks demo_host ?files \<le> 4000" using n d by (simp add: image_blocks_def)
  have h: "\<forall>c a. \<not> host_fails demo_host c a" by (simp add: demo_host_def)
  have "length ?files \<le> 198" by simp
  from mkfs_image [OF h a this t, of "map of_char ''mkfs''" "map of_char ''fs.img''"]
  obtain m' k where m: "mkfs_main (map of_char ''mkfs'' # map of_char ''fs.img'' # ?files) demo_host = Ok (0, m')"
    "\<forall>k<length ?files. contents (fsfd m') (k + 2) = file_data demo_host (?files ! k) \<and> d_type (dn (fsfd m') (k + 2)) = 2"
    "contents (fsfd m') 1 = root_dir ?files @ replicate k 0" by blast
  have "contents (fsfd m') 2 = [104, 105]" using m(2) [rule_format, of 0] d by (simp add: numeral_2_eq_2)
  moreover have "take 48 (contents (fsfd m') 1) = root_dir ?files" using m(3) l by simp
  ultimately show ?thesis using m(1) by blast
qed

end
