(* ===== verification/Uprog.thy ===== *)
theory Uprog
  imports Printf
begin

text \<open>
  User programs. A program is the tree of the system calls it makes, branching over the kernel's answers; \<open>fork\<close> is a call
  whose answer is 0 in the child and a pid in the parent. The calls are those of \<open>user/user.h\<close>, and the accesses to memory that
  is shared with other processes: loads and stores of some bytes and an atomic swap of an \<open>int\<close>. An answer is the value
  the call returns, with the bytes or the integers that it stored through a pointer. A loop whose length depends
  on the answers has a bound as its first argument and is \<open>Spin\<close> beyond it.

  \<open>run\<close> executes a program against a machine that answers the calls one by one. \<open>file_world\<close> is such a machine for a
  program that reads one input and writes its output: it may cut the input into pieces as it likes, as pipes
  and consoles do.
\<close>

section \<open>Programs\<close>

datatype sysreq = Sys_fork | Sys_wait | Sys_pipe | Sys_write int "byte list" | Sys_read int nat | Sys_close int | Sys_kill int
  | Sys_exec "byte list" "byte list list" | Sys_open "byte list" nat | Sys_mknod "byte list" int int | Sys_unlink "byte list"
  | Sys_fstat int | Sys_link "byte list" "byte list" | Sys_mkdir "byte list" | Sys_chdir "byte list" | Sys_dup int | Sys_getpid
  | Sys_sbrk int int | Sys_pause int | Sys_uptime | Sys_shm_create int | Sys_shm_get int | Sys_shm_close int
  | Sys_mbox_create int | Sys_mbox_send int int | Sys_mbox_recv int | Sys_symlink "byte list" "byte list"
  | Mem_load int nat | Mem_store int nat int | Mem_swap int int

record sysans =
  ret :: int
  abytes :: "byte list"
  awords :: "int list"

datatype 'a prog = Done 'a | Exit int | Sys sysreq "sysans \<Rightarrow> 'a prog" | Spin | Fault string

primrec pbind :: "'a prog \<Rightarrow> ('a \<Rightarrow> 'b prog) \<Rightarrow> 'b prog" where
  "pbind (Done x) f = f x"
| "pbind (Exit n) f = Exit n"
| "pbind (Sys r k) f = Sys r (\<lambda>a. pbind (k a) f)"
| "pbind Spin f = Spin"
| "pbind (Fault e) f = Fault e"

primrec pfor :: "('a \<Rightarrow> unit prog) \<Rightarrow> 'a list \<Rightarrow> unit prog" where
  "pfor f [] = Done ()"
| "pfor f (x # xs) = pbind (f x) (\<lambda>_. pfor f xs)"

definition syscall1 :: "sysreq \<Rightarrow> int prog" where
  "syscall1 r = Sys r (\<lambda>a. Done (ret a))"

definition u_read :: "int \<Rightarrow> nat \<Rightarrow> (int \<times> byte list) prog" where
  "u_read fd n = Sys (Sys_read fd n) (\<lambda>a. Done (ret a, abytes a))"

definition u_write :: "int \<Rightarrow> byte list \<Rightarrow> int prog" where
  "u_write fd bs = syscall1 (Sys_write fd bs)"

section \<open>Running a program\<close>

datatype 'a ustop = Returned 'a | Exited int | Spinning | Faulted string

primrec run :: "(sysreq \<Rightarrow> 'w \<Rightarrow> sysans \<times> 'w) \<Rightarrow> 'a prog \<Rightarrow> 'w \<Rightarrow> 'a ustop \<times> 'w" where
  "run h (Done x) w = (Returned x, w)"
| "run h (Exit n) w = (Exited n, w)"
| "run h (Sys r k) w = (case h r w of (a, w') \<Rightarrow> run h (k a) w')"
| "run h Spin w = (Spinning, w)"
| "run h (Fault e) w = (Faulted e, w)"

lemma run_pbind: "run h (pbind m f) w = (case run h m w of (Returned x, w') \<Rightarrow> run h (f x) w' | (Exited n, w') \<Rightarrow> (Exited n, w')
    | (Spinning, w') \<Rightarrow> (Spinning, w') | (Faulted e, w') \<Rightarrow> (Faulted e, w'))"
  by (induction m arbitrary: w) (auto split: prod.splits)

lemma run_pbind_Returned: "run h m w = (Returned x, w') \<Longrightarrow> run h (pbind m f) w = run h (f x) w'"
  by (simp add: run_pbind)

lemma pbind_assoc: "pbind (pbind m f) g = pbind m (\<lambda>x. pbind (f x) g)"
  by (induction m) auto

lemma pbind_Done [simp]: "pbind m Done = m"
  by (induction m) auto

text \<open>
  A machine with an input that is read through descriptor \<open>fd\<close> and two outputs. \<open>pieces\<close> bounds the successive reads; a read
  of at least one byte returns at least one unless the input is at its end.
\<close>

record file_world =
  input :: "byte list"
  pieces :: "nat list"
  out1 :: "byte list"
  out2 :: "byte list"

definition plain :: "int \<Rightarrow> sysans" where
  "plain n = \<lparr>ret = n, abytes = [], awords = []\<rparr>"

definition file_handler :: "int \<Rightarrow> sysreq \<Rightarrow> file_world \<Rightarrow> sysans \<times> file_world" where
  "file_handler fd r w = (case r of
     Sys_read d n \<Rightarrow> if d \<noteq> fd then (plain (- 1), w) else
       let k = min n (case pieces w of [] \<Rightarrow> n | p # _ \<Rightarrow> Suc p); bs = take k (input w) in
       (\<lparr>ret = int (length bs), abytes = bs, awords = []\<rparr>, w\<lparr>input := drop k (input w), pieces := tl (pieces w)\<rparr>)
   | Sys_write d bs \<Rightarrow>
       if d = 1 then (plain (int (length bs)), w\<lparr>out1 := out1 w @ bs\<rparr>)
       else if d = 2 then (plain (int (length bs)), w\<lparr>out2 := out2 w @ bs\<rparr>) else (plain (- 1), w)
   | _ \<Rightarrow> (plain (- 1), w))"

end
