(* ===== verification/Ulib.thy ===== *)
theory Ulib
  imports Uprog
begin

text \<open>
  \<open>user/ulib.c\<close>: strings of the C library, on strings given by their bytes up to the NUL or on memory, and the wrappers of
  system calls. Characters are unsigned, as on RISC-V.
\<close>

unbundle bit_operations_syntax

section \<open>Strings\<close>

text \<open>The first character, which is the NUL behind the last byte.\<close>

definition hd0 :: "byte list \<Rightarrow> byte" where
  "hd0 s = (case s of [] \<Rightarrow> 0 | c # _ \<Rightarrow> c)"

fun u_strcpy :: "memory \<Rightarrow> addr \<Rightarrow> addr \<Rightarrow> nat \<Rightarrow> memory option" where
  "u_strcpy m s t 0 = None"
| "u_strcpy m s t (Suc k) = (let c = m t; m' = m(s := c) in if c \<noteq> 0 then u_strcpy m' (s + 1) (t + 1) k else Some m')"

fun u_strcmp :: "byte list \<Rightarrow> byte list \<Rightarrow> int" where
  "u_strcmp p q = (if p \<noteq> [] \<and> hd0 p = hd0 q then u_strcmp (tl p) (tl q) else uint (hd0 p) - uint (hd0 q))"

definition u_strlen :: "byte list \<Rightarrow> nat" where
  "u_strlen s = length s"

definition u_memset :: "memory \<Rightarrow> addr \<Rightarrow> byte \<Rightarrow> nat \<Rightarrow> memory" where
  "u_memset m dst c n = fold (\<lambda>i m. m(dst + of_nat i := c)) [0..<n] m"

text \<open>The rest of the string from the first \<open>c\<close> on, \<open>None\<close> for the null pointer.\<close>

fun u_strchr :: "byte list \<Rightarrow> byte \<Rightarrow> byte list option" where
  "u_strchr [] c = None"
| "u_strchr (x # s) c = (if x = c then Some (x # s) else u_strchr s c)"

lemma u_strchr_mem: "u_strchr s c = None \<longleftrightarrow> c \<notin> set s"
  by (induction s) auto

text \<open>\<open>n*10 + *s++ - '0'\<close> in 32-bit arithmetic; the value of an overflow is undefined in C and wraps here.\<close>

fun u_atoi_loop :: "32 word \<Rightarrow> byte list \<Rightarrow> 32 word" where
  "u_atoi_loop n [] = n"
| "u_atoi_loop n (c # s) = (if 48 \<le> c \<and> c \<le> 57 then u_atoi_loop (n * 10 + ucast c - 48) s else n)"

definition u_atoi :: "byte list \<Rightarrow> int" where
  "u_atoi s = sint (u_atoi_loop 0 s)"

definition u_memmove :: "memory \<Rightarrow> addr \<Rightarrow> addr \<Rightarrow> nat \<Rightarrow> memory" where
  "u_memmove m dst src n = (if src > dst then copy_forward m dst src n else copy_backward m (dst + of_nat n) (src + of_nat n) n)"

fun u_memcmp :: "memory \<Rightarrow> addr \<Rightarrow> addr \<Rightarrow> nat \<Rightarrow> int" where
  "u_memcmp m p q 0 = 0"
| "u_memcmp m p q (Suc n) = (if m p \<noteq> m q then uint (m p) - uint (m q) else u_memcmp m (p + 1) (q + 1) n)"

definition u_memcpy :: "memory \<Rightarrow> addr \<Rightarrow> addr \<Rightarrow> nat \<Rightarrow> memory" where
  "u_memcpy m dst src n = u_memmove m dst src n"

section \<open>System calls\<close>

text \<open>\<open>gets\<close>: \<open>buf\<close> holds what has been read, and \<open>k\<close> is \<open>max - 1 - i\<close>, so that the loop ends.\<close>

fun u_gets_loop :: "byte list \<Rightarrow> nat \<Rightarrow> byte list prog" where
  "u_gets_loop buf 0 = Done buf"
| "u_gets_loop buf (Suc k) =
     pbind (u_read 0 1) (\<lambda>(cc, bs).
     if cc < 1 then Done buf
     else let c = hd0 bs; buf = buf @ [c] in if c = 10 \<or> c = 13 then Done buf else u_gets_loop buf k)"

definition u_gets :: "nat \<Rightarrow> byte list prog" where
  "u_gets nbuf = u_gets_loop [] (nbuf - 1)"

text \<open>The result and, when it is 0, the fields of \<open>struct stat\<close>: device, inode, type, links, size.\<close>

definition u_stat :: "byte list \<Rightarrow> (int \<times> int list) prog" where
  "u_stat n =
     pbind (syscall1 (Sys_open n 0)) (\<lambda>fd.
     if fd < 0 then Done (- 1, []) else
     pbind (Sys (Sys_fstat fd) (\<lambda>a. Done (ret a, awords a))) (\<lambda>(r, st).
     pbind (syscall1 (Sys_close fd)) (\<lambda>_. Done (r, st))))"

definition u_sbrk :: "int \<Rightarrow> int prog" where
  "u_sbrk n = syscall1 (Sys_sbrk n 1)"

definition u_sbrklazy :: "int \<Rightarrow> int prog" where
  "u_sbrklazy n = syscall1 (Sys_sbrk n 2)"

text \<open>The entry point of every program.\<close>

definition u_start :: "int prog \<Rightarrow> unit prog" where
  "u_start main = pbind main (\<lambda>_. Exit 0)"

end
