(* ===== verification/Uprintf.thy ===== *)
theory Uprintf
  imports Ulib
begin

text \<open>
  \<open>user/printf.c\<close>: formatted output, one \<open>write\<close> per character. \<open>printint\<close> keeps the number in a 32-bit variable, also for the
  \<open>l\<close> and \<open>ll\<close> conversions.
\<close>

unbundle bit_operations_syntax

definition u_digits :: "byte list" where
  "u_digits = map of_char ''0123456789ABCDEF''"

definition u_putc :: "int \<Rightarrow> byte \<Rightarrow> unit prog" where
  "u_putc fd c = pbind (u_write fd [c]) (\<lambda>_. Done ())"

lemma div_less_word32: "1 < base \<Longrightarrow> x div base \<noteq> 0 \<Longrightarrow> unat (x div base) < unat (x :: 32 word)"
proof -
  assume "1 < base" "x div base \<noteq> 0"
  then have "1 < unat base" "x \<noteq> 0" by (auto simp: word_less_nat_alt)
  then show ?thesis by (simp add: unat_div unat_gt_0)
qed

text \<open>The digits of \<open>x\<close>, last one first; the base is 10 or 16.\<close>

function u_printint_buf :: "uint \<Rightarrow> uint \<Rightarrow> byte list" where
  "u_printint_buf base x = u_digits ! unat (x mod base) #
     (if 1 < base \<and> x div base \<noteq> 0 then u_printint_buf base (x div base) else [])"
  by auto

termination
  by (relation "measure (\<lambda>(base, x). unat x)") (auto intro: div_less_word32)

declare u_printint_buf.simps [simp del]

definition u_printint_chars :: "64 word \<Rightarrow> uint \<Rightarrow> bool \<Rightarrow> byte list" where
  "u_printint_chars xx base sign =
     (let neg = sign \<and> sint xx < 0; x = (ucast (if neg then - xx else xx) :: uint) in
      u_printint_buf base x @ (if neg then [of_char (CHR ''-'')] else []))"

definition u_printint :: "int \<Rightarrow> 64 word \<Rightarrow> uint \<Rightarrow> bool \<Rightarrow> unit prog" where
  "u_printint fd xx base sign =
     (let buf = u_printint_chars xx base sign in if 20 < length buf then Fault ''printint buf'' else pfor (u_putc fd) (rev buf))"

definition u_printptr :: "int \<Rightarrow> uint64 \<Rightarrow> unit prog" where
  "u_printptr fd x =
     pbind (u_putc fd (of_char (CHR ''0''))) (\<lambda>_.
     pbind (u_putc fd (of_char (CHR ''x''))) (\<lambda>_.
     pfor (\<lambda>i. u_putc fd (u_digits ! unat (drop_bit 60 (push_bit (4 * i) x)))) [0..<16]))"

text \<open>An argument at the type that the conversion asks for.\<close>

definition u_va_int :: "vararg list \<Rightarrow> (uint \<times> vararg list) prog" where
  "u_va_int ap = (case ap of Va_int v # ap' \<Rightarrow> Done (v, ap') | _ \<Rightarrow> Fault ''va_arg'')"

definition u_va_long :: "vararg list \<Rightarrow> (uint64 \<times> vararg list) prog" where
  "u_va_long ap = (case ap of Va_long v # ap' \<Rightarrow> Done (v, ap') | _ \<Rightarrow> Fault ''va_arg'')"

definition u_va_str :: "vararg list \<Rightarrow> (byte list option \<times> vararg list) prog" where
  "u_va_str ap = (case ap of Va_str v # ap' \<Rightarrow> Done (v, ap') | _ \<Rightarrow> Fault ''va_arg'')"

text \<open>
  The branch for the state \<open>'%'\<close>: how much further than the next character the index goes, and the arguments left. \<open>c0\<close> is not
  the NUL, at which the loop has ended.
\<close>

definition u_conv :: "int \<Rightarrow> byte \<Rightarrow> byte \<Rightarrow> byte \<Rightarrow> vararg list \<Rightarrow> (nat \<times> vararg list) prog" where
  "u_conv fd c0 c1 c2 ap =
     (if c0 = chr (CHR ''d'') then pbind (u_va_int ap) (\<lambda>(v, ap). pbind (u_printint fd (scast v) 10 True) (\<lambda>_. Done (0, ap)))
      else if c0 = chr (CHR ''l'') \<and> c1 = chr (CHR ''d'') then
        pbind (u_va_long ap) (\<lambda>(v, ap). pbind (u_printint fd v 10 True) (\<lambda>_. Done (1, ap)))
      else if c0 = chr (CHR ''l'') \<and> c1 = chr (CHR ''l'') \<and> c2 = chr (CHR ''d'') then
        pbind (u_va_long ap) (\<lambda>(v, ap). pbind (u_printint fd v 10 True) (\<lambda>_. Done (2, ap)))
      else if c0 = chr (CHR ''u'') then pbind (u_va_int ap) (\<lambda>(v, ap). pbind (u_printint fd (ucast v) 10 False) (\<lambda>_. Done (0, ap)))
      else if c0 = chr (CHR ''l'') \<and> c1 = chr (CHR ''u'') then
        pbind (u_va_long ap) (\<lambda>(v, ap). pbind (u_printint fd v 10 False) (\<lambda>_. Done (1, ap)))
      else if c0 = chr (CHR ''l'') \<and> c1 = chr (CHR ''l'') \<and> c2 = chr (CHR ''u'') then
        pbind (u_va_long ap) (\<lambda>(v, ap). pbind (u_printint fd v 10 False) (\<lambda>_. Done (2, ap)))
      else if c0 = chr (CHR ''x'') then pbind (u_va_int ap) (\<lambda>(v, ap). pbind (u_printint fd (ucast v) 16 False) (\<lambda>_. Done (0, ap)))
      else if c0 = chr (CHR ''l'') \<and> c1 = chr (CHR ''x'') then
        pbind (u_va_long ap) (\<lambda>(v, ap). pbind (u_printint fd v 16 False) (\<lambda>_. Done (1, ap)))
      else if c0 = chr (CHR ''l'') \<and> c1 = chr (CHR ''l'') \<and> c2 = chr (CHR ''x'') then
        pbind (u_va_long ap) (\<lambda>(v, ap). pbind (u_printint fd v 16 False) (\<lambda>_. Done (2, ap)))
      else if c0 = chr (CHR ''p'') then pbind (u_va_long ap) (\<lambda>(v, ap). pbind (u_printptr fd v) (\<lambda>_. Done (0, ap)))
      else if c0 = chr (CHR ''c'') then pbind (u_va_int ap) (\<lambda>(v, ap). pbind (u_putc fd (ucast v)) (\<lambda>_. Done (0, ap)))
      else if c0 = chr (CHR ''s'') then
        pbind (u_va_str ap) (\<lambda>(v, ap).
        pbind (pfor (u_putc fd) (case v of None \<Rightarrow> map of_char ''(null)'' | Some cs \<Rightarrow> cs)) (\<lambda>_. Done (0, ap)))
      else if c0 = chr (CHR ''%'') then pbind (u_putc fd (of_char (CHR ''%''))) (\<lambda>_. Done (0, ap))
      else pbind (u_putc fd (of_char (CHR ''%''))) (\<lambda>_. pbind (u_putc fd c0) (\<lambda>_. Done (0, ap))))"

text \<open>The loop over the format, with \<open>pct\<close> for the state \<open>'%'\<close>.\<close>

function u_vprintf_loop :: "int \<Rightarrow> byte list \<Rightarrow> nat \<Rightarrow> bool \<Rightarrow> vararg list \<Rightarrow> unit prog" where
  "u_vprintf_loop fd fmt i pct ap =
     (let c0 = fmt_at fmt i in
      if c0 = 0 then Done ()
      else if \<not> pct then
        if c0 = chr (CHR ''%'') then u_vprintf_loop fd fmt (i + 1) True ap
        else pbind (u_putc fd c0) (\<lambda>_. u_vprintf_loop fd fmt (i + 1) False ap)
      else
        let c1 = fmt_at fmt (i + 1); c2 = (if c1 \<noteq> 0 then fmt_at fmt (i + 2) else 0) in
        pbind (u_conv fd c0 c1 c2 ap) (\<lambda>(k, ap). u_vprintf_loop fd fmt (i + 1 + k) False ap))"
  by auto

termination
  by (relation "measure (\<lambda>(fd, fmt, i, pct, ap). length fmt - i)") (auto simp: fmt_at_def split: if_splits)

declare u_vprintf_loop.simps [simp del]

definition u_vprintf :: "int \<Rightarrow> byte list \<Rightarrow> vararg list \<Rightarrow> unit prog" where
  "u_vprintf fd fmt ap = u_vprintf_loop fd fmt 0 False ap"

definition u_fprintf :: "int \<Rightarrow> byte list \<Rightarrow> vararg list \<Rightarrow> unit prog" where
  "u_fprintf fd fmt ap = u_vprintf fd fmt ap"

definition u_printf :: "byte list \<Rightarrow> vararg list \<Rightarrow> unit prog" where
  "u_printf fmt ap = u_vprintf 1 fmt ap"

text \<open>A format given as characters, followed by a newline.\<close>

definition line :: "string \<Rightarrow> byte list" where
  "line s = map of_char s @ [10]"

end
