(* ===== verification/Uprograms.thy ===== *)
theory Uprograms
  imports Uprintf
begin

text \<open>
  The user programs \<open>cat\<close>, \<open>wc\<close>, \<open>grep\<close>, \<open>echo\<close>, \<open>kill\<close>, \<open>ln\<close>, \<open>mkdir\<close>, \<open>rm\<close>, \<open>zombie\<close>, \<open>ls\<close> and \<open>init\<close>. The argument list
  has the name of the program first. \<open>fuel\<close> bounds the number of rounds of a loop that ends when an input ends.
\<close>

section \<open>cat\<close>

fun cat :: "nat \<Rightarrow> int \<Rightarrow> unit prog" where
  "cat 0 fd = Spin"
| "cat (Suc fuel) fd =
     pbind (u_read fd 512) (\<lambda>(n, bs).
     if n > 0 then
       pbind (u_write 1 (take (nat n) bs)) (\<lambda>w.
       if w \<noteq> n then pbind (u_fprintf 2 (line ''cat: write error'') []) (\<lambda>_. Exit 1) else cat fuel fd)
     else if n < 0 then pbind (u_fprintf 2 (line ''cat: read error'') []) (\<lambda>_. Exit 1)
     else Done ())"

definition cat_main :: "nat \<Rightarrow> byte list list \<Rightarrow> int prog" where
  "cat_main fuel argv =
     (if length argv \<le> 1 then pbind (cat fuel 0) (\<lambda>_. Exit 0) else
      pbind (pfor (\<lambda>f.
        pbind (syscall1 (Sys_open f 0)) (\<lambda>fd.
        if fd < 0 then pbind (u_fprintf 2 (line ''cat: cannot open %s'') [Va_str (Some f)]) (\<lambda>_. Exit 1)
        else pbind (cat fuel fd) (\<lambda>_. pbind (syscall1 (Sys_close fd)) (\<lambda>_. Done ())))) (tl argv)) (\<lambda>_.
      Exit 0))"

section \<open>wc\<close>

text \<open>Lines, words, characters and whether the last character was in a word.\<close>

definition wc_byte :: "byte \<Rightarrow> int \<times> int \<times> int \<times> bool \<Rightarrow> int \<times> int \<times> int \<times> bool" where
  "wc_byte b = (\<lambda>(l, w, c, inword).
     let c = c + 1; l = (if b = 10 then l + 1 else l) in
     if u_strchr [32, 13, 9, 10, 11] b \<noteq> None then (l, w, c, False)
     else if \<not> inword then (l, w + 1, c, True) else (l, w, c, inword))"

fun wc_loop :: "nat \<Rightarrow> int \<Rightarrow> int \<times> int \<times> int \<times> bool \<Rightarrow> (int \<times> int \<times> int) prog" where
  "wc_loop 0 fd s = Spin"
| "wc_loop (Suc fuel) fd s =
     pbind (u_read fd 512) (\<lambda>(n, bs).
     if n > 0 then wc_loop fuel fd (fold wc_byte (take (nat n) bs) s)
     else if n < 0 then pbind (u_printf (line ''wc: read error'') []) (\<lambda>_. Exit 1)
     else case s of (l, w, c, _) \<Rightarrow> Done (l, w, c))"

definition wc :: "nat \<Rightarrow> int \<Rightarrow> byte list \<Rightarrow> unit prog" where
  "wc fuel fd name =
     pbind (wc_loop fuel fd (0, 0, 0, False)) (\<lambda>(l, w, c).
     u_printf (line ''%d %d %d %s'') [Va_int (word_of_int l), Va_int (word_of_int w), Va_int (word_of_int c), Va_str (Some name)])"

definition wc_main :: "nat \<Rightarrow> byte list list \<Rightarrow> int prog" where
  "wc_main fuel argv =
     (if length argv \<le> 1 then pbind (wc fuel 0 []) (\<lambda>_. Exit 0) else
      pbind (pfor (\<lambda>f.
        pbind (syscall1 (Sys_open f 0)) (\<lambda>fd.
        if fd < 0 then pbind (u_printf (line ''wc: cannot open %s'') [Va_str (Some f)]) (\<lambda>_. Exit 1)
        else pbind (wc fuel fd f) (\<lambda>_. pbind (syscall1 (Sys_close fd)) (\<lambda>_. Done ())))) (tl argv)) (\<lambda>_.
      Exit 0))"

section \<open>grep\<close>

text \<open>The matcher of Kernighan and Pike: \<open>matchhere\<close> at the beginning of the text, \<open>matchstar\<close> for \<open>c*re\<close>.\<close>

function (sequential) matchhere :: "byte list \<Rightarrow> byte list \<Rightarrow> bool"
and matchstar :: "byte \<Rightarrow> byte list \<Rightarrow> byte list \<Rightarrow> bool" where
  "matchhere [] text = True"
| "matchhere (r # re) text =
     (if hd0 re = 42 then matchstar r (tl re) text
      else if r = 36 \<and> re = [] then text = []
      else if text \<noteq> [] \<and> (r = 46 \<or> r = hd text) then matchhere re (tl text)
      else False)"
| "matchstar c re text =
     (if matchhere re text then True
      else if text \<noteq> [] \<and> (hd text = c \<or> c = 46) then matchstar c re (tl text)
      else False)"
  by pat_completeness auto

termination
  by (relation "measures [\<lambda>x. case x of Inl (re, t) \<Rightarrow> length re + length t | Inr (c, re, t) \<Rightarrow> length re + length t,
       \<lambda>x. case x of Inl _ \<Rightarrow> 0 | Inr _ \<Rightarrow> 1]") (auto simp: hd0_def split: list.splits)

declare matchhere.simps [simp del] matchstar.simps [simp del]

fun match_from :: "byte list \<Rightarrow> byte list \<Rightarrow> bool" where
  "match_from re [] = matchhere re []"
| "match_from re (x # xs) = (if matchhere re (x # xs) then True else match_from re xs)"

definition match :: "byte list \<Rightarrow> byte list \<Rightarrow> bool" where
  "match re text = (if hd0 re = 94 then matchhere (tl re) text else match_from re text)"

text \<open>The inner loop of \<open>grep\<close>: the lines that are complete in the buffer. The bytes left over are the result.\<close>

lemma u_strchr_SomeD: "u_strchr (takeWhile P p) c = Some y \<Longrightarrow> c \<in> set p"
  using u_strchr_mem [of "takeWhile P p" c] by (auto dest: set_takeWhileD)

function grep_lines :: "byte list \<Rightarrow> byte list \<Rightarrow> byte list prog" where
  "grep_lines pattern p =
     (case u_strchr (takeWhile (\<lambda>c. c \<noteq> 0) p) 10 of
        None \<Rightarrow> Done p
      | Some _ \<Rightarrow>
          let text = takeWhile (\<lambda>c. c \<noteq> 10) p in
          pbind (if match pattern text then u_write 1 (text @ [10]) else Done 0) (\<lambda>_.
          grep_lines pattern (drop (length text + 1) p)))"
  by auto

termination
  by (relation "measure (\<lambda>(pattern, p). length p)") (auto dest: u_strchr_SomeD intro: diff_less length_pos_if_in_set)

declare grep_lines.simps [simp del]

fun grep :: "nat \<Rightarrow> byte list \<Rightarrow> int \<Rightarrow> byte list \<Rightarrow> unit prog" where
  "grep 0 pattern fd buf = Spin"
| "grep (Suc fuel) pattern fd buf =
     pbind (u_read fd (1024 - length buf - 1)) (\<lambda>(n, bs).
     if n > 0 then pbind (grep_lines pattern (buf @ take (nat n) bs)) (grep fuel pattern fd)
     else Done ())"

definition grep_main :: "nat \<Rightarrow> byte list list \<Rightarrow> int prog" where
  "grep_main fuel argv =
     (if length argv \<le> 1 then pbind (u_fprintf 2 (line ''usage: grep pattern [file ...]'') []) (\<lambda>_. Exit 1)
      else
        let pattern = argv ! 1 in
        if length argv \<le> 2 then pbind (grep fuel pattern 0 []) (\<lambda>_. Exit 0)
        else
          pbind (pfor (\<lambda>f.
            pbind (syscall1 (Sys_open f 0)) (\<lambda>fd.
            if fd < 0 then pbind (u_printf (line ''grep: cannot open %s'') [Va_str (Some f)]) (\<lambda>_. Exit 1)
            else pbind (grep fuel pattern fd []) (\<lambda>_. pbind (syscall1 (Sys_close fd)) (\<lambda>_. Done ())))) (drop 2 argv)) (\<lambda>_.
          Exit 0))"

section \<open>echo, kill, ln, mkdir, rm, zombie\<close>

fun echo_loop :: "byte list list \<Rightarrow> unit prog" where
  "echo_loop [] = Done ()"
| "echo_loop (a # as) =
     pbind (u_write 1 (take (u_strlen a) a)) (\<lambda>_. pbind (u_write 1 (if as \<noteq> [] then [32] else [10])) (\<lambda>_. echo_loop as))"

definition echo_main :: "byte list list \<Rightarrow> int prog" where
  "echo_main argv = pbind (echo_loop (tl argv)) (\<lambda>_. Exit 0)"

definition kill_main :: "byte list list \<Rightarrow> int prog" where
  "kill_main argv =
     (if length argv < 2 then pbind (u_fprintf 2 (line ''usage: kill pid...'') []) (\<lambda>_. Exit 1) else
      pbind (pfor (\<lambda>a. pbind (syscall1 (Sys_kill (u_atoi a))) (\<lambda>_. Done ())) (tl argv)) (\<lambda>_. Exit 0))"

definition ln_main :: "byte list list \<Rightarrow> int prog" where
  "ln_main argv =
     (if length argv \<noteq> 3 then pbind (u_fprintf 2 (line ''Usage: ln old new'') []) (\<lambda>_. Exit 1) else
      pbind (syscall1 (Sys_link (argv ! 1) (argv ! 2))) (\<lambda>r.
      pbind (if r < 0 then u_fprintf 2 (line ''link %s %s: failed'') [Va_str (Some (argv ! 1)), Va_str (Some (argv ! 2))]
             else Done ()) (\<lambda>_.
      Exit 0)))"

text \<open>The loops of \<open>mkdir\<close> and \<open>rm\<close>, which stop at the first failure.\<close>

fun each_until_failure :: "(byte list \<Rightarrow> sysreq) \<Rightarrow> byte list \<Rightarrow> byte list list \<Rightarrow> unit prog" where
  "each_until_failure f msg [] = Done ()"
| "each_until_failure f msg (a # as) =
     pbind (syscall1 (f a)) (\<lambda>r. if r < 0 then u_fprintf 2 msg [Va_str (Some a)] else each_until_failure f msg as)"

definition mkdir_main :: "byte list list \<Rightarrow> int prog" where
  "mkdir_main argv =
     (if length argv < 2 then pbind (u_fprintf 2 (line ''Usage: mkdir files...'') []) (\<lambda>_. Exit 1) else
      pbind (each_until_failure Sys_mkdir (line ''mkdir: %s failed to create'') (tl argv)) (\<lambda>_. Exit 0))"

definition rm_main :: "byte list list \<Rightarrow> int prog" where
  "rm_main argv =
     (if length argv < 2 then pbind (u_fprintf 2 (line ''Usage: rm files...'') []) (\<lambda>_. Exit 1) else
      pbind (each_until_failure Sys_unlink (line ''rm: %s failed to delete'') (tl argv)) (\<lambda>_. Exit 0))"

definition zombie_main :: "int prog" where
  "zombie_main =
     pbind (syscall1 Sys_fork) (\<lambda>pid. pbind (if pid > 0 then syscall1 (Sys_pause 5) else Done 0) (\<lambda>_. Exit 0))"

section \<open>ls\<close>

definition fmtname :: "byte list \<Rightarrow> byte list" where
  "fmtname path =
     (let p = rev (takeWhile (\<lambda>c. c \<noteq> 47) (rev path)) in
      if u_strlen p \<ge> 14 then p else p @ replicate (14 - u_strlen p) 32)"

text \<open>One line of the listing, from the fields of \<open>struct stat\<close>.\<close>

definition ls_line :: "byte list \<Rightarrow> int list \<Rightarrow> unit prog" where
  "ls_line path st = (case st of
     [_, s_ino, s_type, _, s_size] \<Rightarrow>
       u_printf (line ''%s %d %d %d'') [Va_str (Some (fmtname path)), Va_int (word_of_int s_type), Va_int (word_of_int s_ino), Va_int (word_of_int s_size)]
   | _ \<Rightarrow> Fault ''stat'')"

fun ls_entries :: "nat \<Rightarrow> int \<Rightarrow> byte list \<Rightarrow> unit prog" where
  "ls_entries 0 fd path = Spin"
| "ls_entries (Suc fuel) fd path =
     pbind (u_read fd 16) (\<lambda>(n, de).
     if n \<noteq> 16 then Done ()
     else if take 2 de = [0, 0] then ls_entries fuel fd path
     else
       let buf = path @ [47] @ takeWhile (\<lambda>c. c \<noteq> 0) (take 14 (drop 2 de)) in
       pbind (u_stat buf) (\<lambda>(r, st).
       pbind (if r < 0 then u_printf (line ''ls: cannot stat %s'') [Va_str (Some buf)] else ls_line buf st) (\<lambda>_.
       ls_entries fuel fd path)))"

definition ls :: "nat \<Rightarrow> byte list \<Rightarrow> unit prog" where
  "ls fuel path =
     pbind (syscall1 (Sys_open path 0)) (\<lambda>fd.
     if fd < 0 then u_fprintf 2 (line ''ls: cannot open %s'') [Va_str (Some path)] else
     pbind (Sys (Sys_fstat fd) (\<lambda>a. Done (ret a, awords a))) (\<lambda>(r, st).
     if r < 0 then
       pbind (u_fprintf 2 (line ''ls: cannot stat %s'') [Va_str (Some path)]) (\<lambda>_. pbind (syscall1 (Sys_close fd)) (\<lambda>_. Done ()))
     else
       pbind (if length st \<noteq> 5 then Fault ''stat''
              else if st ! 2 = 3 \<or> st ! 2 = 2 then ls_line path st
              else if st ! 2 = 1 then
                if u_strlen path + 1 + 14 + 1 > 512 then u_printf (line ''ls: path too long'') []
                else ls_entries fuel fd path
              else Done ()) (\<lambda>_.
       pbind (syscall1 (Sys_close fd)) (\<lambda>_. Done ()))))"

definition ls_main :: "nat \<Rightarrow> byte list list \<Rightarrow> int prog" where
  "ls_main fuel argv =
     (if length argv < 2 then pbind (ls fuel [46]) (\<lambda>_. Exit 0)
      else pbind (pfor (ls fuel) (tl argv)) (\<lambda>_. Exit 0))"

section \<open>init\<close>

text \<open>The inner loop of \<open>init\<close>, which waits for the shell; other children are orphans.\<close>

fun init_wait :: "nat \<Rightarrow> int \<Rightarrow> unit prog" where
  "init_wait 0 shell = Spin"
| "init_wait (Suc fuel) shell =
     pbind (syscall1 Sys_wait) (\<lambda>wpid.
     if wpid = shell then Done ()
     else if wpid < 0 then pbind (u_printf (line ''init: wait returned an error'') []) (\<lambda>_. Exit 1)
     else init_wait fuel shell)"

fun init_loop :: "nat \<Rightarrow> int prog" where
  "init_loop 0 = Spin"
| "init_loop (Suc fuel) =
     pbind (u_printf (line ''init: starting sh'') []) (\<lambda>_.
     pbind (syscall1 Sys_fork) (\<lambda>pid.
     if pid < 0 then pbind (u_printf (line ''init: fork failed'') []) (\<lambda>_. Exit 1)
     else if pid = 0 then
       pbind (syscall1 (Sys_exec (map of_char ''sh'') [map of_char ''sh''])) (\<lambda>_.
       pbind (u_printf (line ''init: exec sh failed'') []) (\<lambda>_. Exit 1))
     else pbind (init_wait fuel pid) (\<lambda>_. init_loop fuel)))"

definition init_main :: "nat \<Rightarrow> int prog" where
  "init_main fuel =
     (let console = map of_char ''console'' in
      pbind (syscall1 (Sys_open console 2)) (\<lambda>fd.
      pbind (if fd < 0 then pbind (syscall1 (Sys_mknod console 1 0)) (\<lambda>_. syscall1 (Sys_open console 2)) else Done 0) (\<lambda>_.
      pbind (syscall1 (Sys_dup 0)) (\<lambda>_.
      pbind (syscall1 (Sys_dup 0)) (\<lambda>_.
      init_loop fuel)))))"

end
