(* ===== verification/Uprograms_Facts.thy ===== *)
theory Uprograms_Facts
  imports Uprograms
begin

text \<open>
  Properties of the filters: the matcher of \<open>grep\<close> accepts the language of its pattern, \<open>grep\<close> prints the matching lines of
  its input and \<open>wc\<close> counts it, however the reads cut the input into pieces.
\<close>

section \<open>Patterns\<close>

text \<open>
  A pattern is a sequence of items. An item stands for one character, for any run of one character, or for the end of the
  text; \<open>.\<close> is every character.
\<close>

datatype item = One byte | Star byte | Eol

fun items :: "byte list \<Rightarrow> item list" where
  "items [] = []"
| "items [r] = (if r = 36 then [Eol] else [One r])"
| "items (r # s # re) = (if s = 42 then Star r # items re else One r # items (s # re))"

definition fits :: "byte \<Rightarrow> byte \<Rightarrow> bool" where
  "fits c x \<longleftrightarrow> c = 46 \<or> x = c"

fun denotes :: "item list \<Rightarrow> byte list \<Rightarrow> bool" where
  "denotes [] t \<longleftrightarrow> True"
| "denotes (One c # is) t \<longleftrightarrow> (\<exists>x t'. t = x # t' \<and> fits c x \<and> denotes is t')"
| "denotes (Star c # is) t \<longleftrightarrow> (\<exists>u t'. t = u @ t' \<and> (\<forall>x\<in>set u. fits c x) \<and> denotes is t')"
| "denotes (Eol # is) t \<longleftrightarrow> t = [] \<and> denotes is t"

lemma denotes_Star: "denotes (Star c # is) t \<longleftrightarrow> denotes is t \<or> (\<exists>x t'. t = x # t' \<and> fits c x \<and> denotes (Star c # is) t')"
proof
  assume "denotes (Star c # is) t"
  then obtain u t' where "t = u @ t'" "\<forall>x\<in>set u. fits c x" "denotes is t'" by auto
  then show "denotes is t \<or> (\<exists>x t'. t = x # t' \<and> fits c x \<and> denotes (Star c # is) t')" by (cases u) auto
next
  assume "denotes is t \<or> (\<exists>x t'. t = x # t' \<and> fits c x \<and> denotes (Star c # is) t')"
  then consider "denotes is t" | x u t' where "t = x # u @ t'" "fits c x" "\<forall>x\<in>set u. fits c x" "denotes is t'" by auto
  then show "denotes (Star c # is) t"
  proof cases
    case 1
    then have "t = [] @ t \<and> (\<forall>x\<in>set []. fits c x) \<and> denotes is t" by simp
    then show ?thesis unfolding denotes.simps by blast
  next
    case 2
    then have "t = (x # u) @ t' \<and> (\<forall>y\<in>set (x # u). fits c y) \<and> denotes is t'" by simp
    then show ?thesis unfolding denotes.simps by blast
  qed
qed

lemma items_Cons: "items (r # re) = (if hd0 re = 42 then Star r # items (tl re) else if r = 36 \<and> re = [] then [Eol] else One r # items re)"
  by (cases re) (auto simp: hd0_def)

lemma matchhere_matchstar_denote:
  "matchhere re t \<longleftrightarrow> denotes (items re) t"
  "matchstar c re t \<longleftrightarrow> denotes (Star c # items re) t"
proof (induction re t and c re t rule: matchhere_matchstar.induct)
  case (1 t)
  show ?case by (simp add: matchhere.simps)
next
  case (2 r re t)
  then show ?case
    by (cases t) (auto simp: matchhere.simps items_Cons fits_def simp del: denotes.simps(3))
next
  case (3 c re t)
  show ?case
    by (subst matchstar.simps, subst denotes_Star)
      (use 3 in \<open>cases t; auto simp: fits_def simp del: denotes.simps(3)\<close>)
qed

lemma match_from_suffix: "match_from re t \<longleftrightarrow> (\<exists>u t'. t = u @ t' \<and> matchhere re t')"
proof (induction t)
  case (Cons x xs)
  then show ?case by (auto simp: Cons_eq_append_conv)
qed simp

text \<open>C36: The matcher of \<open>grep\<close> accepts exactly the texts of the pattern: some part of the text, its beginning under \<open>^\<close>, is the
  sequence of the items, where \<open>c*\<close> stands for any number of \<open>c\<close>, the dot for any character and a last \<open>$\<close> for the end.\<close>

theorem match_is_the_language:
  "match re t \<longleftrightarrow> (if hd0 re = 94 then denotes (items (tl re)) t else \<exists>u t'. t = u @ t' \<and> denotes (items re) t')"
  by (simp add: match_def match_from_suffix matchhere_matchstar_denote)

section \<open>Reading in pieces\<close>

lemma run_u_read:
  "run (file_handler fd) (u_read fd n) w = (let k = min n (case pieces w of [] \<Rightarrow> n | p # _ \<Rightarrow> Suc p); bs = take k (input w) in
     (Returned (int (length bs), bs), w\<lparr>input := drop k (input w), pieces := tl (pieces w)\<rparr>))"
  by (simp add: u_read_def file_handler_def Let_def)

text \<open>What a read returns: the beginning of the input, and nothing only at the end or for a size of 0.\<close>

lemma run_u_readE:
  obtains bs rest ps where "run (file_handler fd) (u_read fd n) w = (Returned (int (length bs), bs), w\<lparr>input := rest, pieces := ps\<rparr>)"
    and "input w = bs @ rest" "bs = [] \<longrightarrow> n = 0 \<or> input w = []"
proof -
  define k where "k = min n (case pieces w of [] \<Rightarrow> n | p # _ \<Rightarrow> Suc p)"
  show thesis
    by (rule that [where bs = "take k (input w)" and rest = "drop k (input w)" and ps = "tl (pieces w)"])
      (auto simp: run_u_read k_def Let_def split: list.splits)
qed

lemma run_write1 [simp]:
  "run (file_handler fd) (u_write 1 bs) w = (Returned (int (length bs)), w\<lparr>out1 := out1 w @ bs\<rparr>)"
  by (simp add: u_write_def syscall1_def file_handler_def plain_def)

section \<open>Lines\<close>

text \<open>The complete lines of a text that follows \<open>acc\<close>, and what is behind its last newline.\<close>

fun text_lines :: "byte list \<Rightarrow> byte list \<Rightarrow> byte list list" where
  "text_lines acc [] = []"
| "text_lines acc (x # xs) = (if x = 10 then acc # text_lines [] xs else text_lines (acc @ [x]) xs)"

fun text_rest :: "byte list \<Rightarrow> byte list \<Rightarrow> byte list" where
  "text_rest acc [] = acc"
| "text_rest acc (x # xs) = (if x = 10 then text_rest [] xs else text_rest (acc @ [x]) xs)"

lemma text_lines_append: "text_lines acc (a @ b) = text_lines acc a @ text_lines (text_rest acc a) b"
  by (induction a arbitrary: acc) auto

lemma text_rest_append: "text_rest acc (a @ b) = text_rest (text_rest acc a) b"
  by (induction a arbitrary: acc) auto

lemma text_rest_no_newline: "10 \<notin> set acc \<Longrightarrow> 10 \<notin> set (text_rest acc a)"
  by (induction a arbitrary: acc) auto

lemma no_newline [simp]:
  assumes "10 \<notin> set a"
  shows "text_lines acc a = []" "text_rest acc a = acc @ a"
  using assms by (induction a arbitrary: acc) auto

lemma first_line:
  assumes "10 \<in> set p"
  shows "text_lines acc p = (acc @ takeWhile (\<lambda>c. c \<noteq> 10) p) # text_lines [] (drop (length (takeWhile (\<lambda>c. c \<noteq> 10) p) + 1) p)"
    and "text_rest acc p = text_rest [] (drop (length (takeWhile (\<lambda>c. c \<noteq> 10) p) + 1) p)"
  using assms by (induction p arbitrary: acc) auto

lemma line_extends: "text_lines acc a \<noteq> [] \<Longrightarrow> \<exists>l. hd (text_lines acc a) = acc @ l"
proof (induction a arbitrary: acc)
  case (Cons x xs)
  show ?case
  proof (cases "x = 10")
    case False
    then show ?thesis using Cons.IH [of "acc @ [x]"] Cons.prems by auto
  qed simp
qed simp

text \<open>What \<open>grep\<close> prints for a list of lines.\<close>

definition selected :: "byte list \<Rightarrow> byte list list \<Rightarrow> byte list" where
  "selected pattern xs = concat (map (\<lambda>l. l @ [10]) (filter (match pattern) xs))"

lemma selected_simps [simp]:
  "selected pattern [] = []"
  "selected pattern (l # xs) = (if match pattern l then l @ [10] else []) @ selected pattern xs"
  "selected pattern (xs @ ys) = selected pattern xs @ selected pattern ys"
  by (auto simp: selected_def)

lemma newline_before_nul:
  assumes "10 \<in> set p" "0 \<notin> set (takeWhile (\<lambda>c. c \<noteq> 10) p)"
  shows "u_strchr (takeWhile (\<lambda>c. c \<noteq> 0) p) (10 :: byte) \<noteq> None"
  using assms by (induction p) auto

lemma run_grep_lines:
  assumes "\<forall>l\<in>set (text_lines [] p). 0 \<notin> set l"
  shows "run (file_handler fd) (grep_lines pattern p) w = (Returned (text_rest [] p), w\<lparr>out1 := out1 w @ selected pattern (text_lines [] p)\<rparr>)"
  using assms
proof (induction pattern p arbitrary: w rule: grep_lines.induct)
  case (1 pattern p)
  show ?case
  proof (cases "10 \<in> set p")
    case True
    note fl = first_line [OF True, of "[]"]
    from 1(2) have "u_strchr (takeWhile (\<lambda>c. c \<noteq> 0) p) 10 \<noteq> None"
      by (intro newline_before_nul [OF True]) (simp add: fl)
    then obtain q where q: "u_strchr (takeWhile (\<lambda>c. c \<noteq> 0) p) 10 = Some q" by auto
    show ?thesis
      using 1(1) [OF q refl] 1(2) by (subst grep_lines.simps) (simp add: q Let_def run_pbind fl)
  next
    case False
    then have "u_strchr (takeWhile (\<lambda>c. c \<noteq> 0) p) 10 = None" by (auto simp: u_strchr_mem dest: set_takeWhileD)
    then show ?thesis using False by (subst grep_lines.simps) simp
  qed
qed

text \<open>The lines that fit into the buffer: with the newline and the NUL, 1024 bytes.\<close>

definition short_lines :: "byte list list \<Rightarrow> bool" where
  "short_lines xs \<longleftrightarrow> (\<forall>l\<in>set xs. length l \<le> 1022 \<and> 0 \<notin> set l)"

lemma run_grep:
  assumes "10 \<notin> set buf" "short_lines (text_lines buf (input w))" "length (input w) < fuel"
  shows "\<exists>w'. run (file_handler fd) (grep fuel pattern fd buf) w = (Returned (), w') \<and>
    out1 w' = out1 w @ selected pattern (text_lines buf (input w))"
  using assms
proof (induction fuel arbitrary: buf w)
  case (Suc fuel)
  obtain bs rest ps where r: "run (file_handler fd) (u_read fd (1024 - length buf - 1)) w =
      (Returned (int (length bs), bs), w\<lparr>input := rest, pieces := ps\<rparr>)" "input w = bs @ rest"
    "bs = [] \<longrightarrow> 1024 - length buf - 1 = 0 \<or> input w = []"
    by (rule run_u_readE)
  show ?case
  proof (cases "bs = []")
    case True
    have "text_lines buf (input w) = []"
    proof (rule ccontr)
      assume ne: "text_lines buf (input w) \<noteq> []"
      then have "1024 - length buf - 1 = 0" using r(3) True by auto
      moreover obtain l where "hd (text_lines buf (input w)) = buf @ l" using line_extends [OF ne] by auto
      then have "length buf \<le> 1022" using Suc.prems(2) ne by (cases "text_lines buf (input w)") (auto simp: short_lines_def)
      ultimately show False by simp
    qed
    then show ?thesis using True r(1) by (simp add: run_pbind)
  next
    case False
    let ?p = "buf @ bs" and ?w = "w\<lparr>input := rest, pieces := ps\<rparr>"
    have split: "text_lines buf (input w) = text_lines [] ?p @ text_lines (text_rest [] ?p) rest"
      using Suc.prems(1) by (simp add: r(2) text_lines_append text_rest_append)
    then have nz: "\<forall>l\<in>set (text_lines [] ?p). 0 \<notin> set l" and "short_lines (text_lines (text_rest [] ?p) rest)"
      using Suc.prems(2) by (auto simp: short_lines_def)
    then obtain w' where "run (file_handler fd) (grep fuel pattern fd (text_rest [] ?p)) (?w\<lparr>out1 := out1 w @ selected pattern (text_lines [] ?p)\<rparr>) =
        (Returned (), w')" "out1 w' = out1 w @ selected pattern (text_lines [] ?p) @ selected pattern (text_lines (text_rest [] ?p) rest)"
      using Suc.IH [of "text_rest [] ?p" "?w\<lparr>out1 := out1 w @ selected pattern (text_lines [] ?p)\<rparr>"] Suc.prems(3) False
        text_rest_no_newline [of "[]" ?p] by (auto simp: r(2) neq_Nil_conv)
    then show ?thesis using r(1) False run_grep_lines [OF nz] by (simp add: run_pbind split)
  qed
qed simp

text \<open>C37: \<open>grep pattern\<close> on its standard input prints the complete lines that match, in their order and unchanged, and exits with
  0, however the reads cut the input, if no complete line has a NUL byte or more than 1022 bytes. A last line without a newline
  is not printed.\<close>

theorem grep_prints_matching_lines:
  assumes "short_lines (text_lines [] (input w))" "length (input w) < fuel"
  shows "\<exists>w'. run (file_handler 0) (grep_main fuel [name, pattern]) w = (Exited 0, w') \<and>
    out1 w' = out1 w @ concat (map (\<lambda>l. l @ [10]) (filter (match pattern) (text_lines [] (input w))))"
  using run_grep [of "[]" w fuel 0 pattern] assms by (auto simp: grep_main_def run_pbind selected_def)

theorem grep_prints_matching_lines_witness:
  "\<exists>w'. run (file_handler 0) (grep_main 20 [[103], [97, 42, 98]])
      \<lparr>input = [97, 97, 98, 10, 97, 10, 99, 98, 10, 98], pieces = [1, 0, 2], out1 = [], out2 = []\<rparr> = (Exited 0, w') \<and>
    out1 w' = [97, 97, 98, 10, 99, 98, 10]"
proof -
  let ?w = "\<lparr>input = [97, 97, 98, 10, 97, 10, 99, 98, 10, 98], pieces = [1, 0, 2], out1 = [], out2 = []\<rparr>"
  have "match [97, 42, 98] [97, 97, 98]" "\<not> match [97, 42, 98] [97]" "match [97, 42, 98] [99, 98]" by code_simp+
  then show ?thesis
    using grep_prints_matching_lines [of ?w 20 "[103]" "[97, 42, 98]"] by (simp add: short_lines_def)
qed

section \<open>wc\<close>

text \<open>A word begins at a byte that is not white space, at the beginning of the text or behind white space.\<close>

definition space :: "byte \<Rightarrow> bool" where
  "space c \<longleftrightarrow> c \<in> {32, 13, 9, 10, 11}"

definition word_starts :: "byte list \<Rightarrow> nat set" where
  "word_starts t = {i. i < length t \<and> \<not> space (t ! i) \<and> (i = 0 \<or> space (t ! (i - 1)))}"

lemma finite_word_starts [simp]: "finite (word_starts t)"
  by (simp add: word_starts_def)

lemma word_starts_snoc:
  "word_starts (t @ [c]) = word_starts t \<union> (if \<not> space c \<and> (t = [] \<or> space (last t)) then {length t} else {})"
  by (cases "t = []") (auto simp: word_starts_def nth_append less_Suc_eq last_conv_nth)

lemma word_starts_Nil [simp]: "word_starts [] = {}"
  by (simp add: word_starts_def)

lemma length_no_start [simp]: "length t \<notin> word_starts t"
  by (simp add: word_starts_def)

lemma wc_byte_eq: "wc_byte b (l, w, c, inword) =
    (if b = 10 then l + 1 else l, if space b \<or> inword then w else w + 1, c + 1, \<not> space b)"
  by (auto simp: wc_byte_def Let_def space_def)

lemma fold_wc_byte:
  "fold wc_byte t (0, 0, 0, False) =
    (int (count_list t 10), int (card (word_starts t)), int (length t), t \<noteq> [] \<and> \<not> space (last t))"
  by (induction t rule: rev_induct) (auto simp: wc_byte_eq word_starts_snoc)

lemma run_wc_loop:
  "length (input w) < fuel \<Longrightarrow> \<exists>ps. run (file_handler fd) (wc_loop fuel fd s) w =
    (Returned (case fold wc_byte (input w) s of (l, v, c, _) \<Rightarrow> (l, v, c)), w\<lparr>input := [], pieces := ps\<rparr>)"
proof (induction fuel arbitrary: w s)
  case (Suc fuel)
  obtain bs rest ps where r: "run (file_handler fd) (u_read fd 512) w =
      (Returned (int (length bs), bs), w\<lparr>input := rest, pieces := ps\<rparr>)" "input w = bs @ rest"
    "bs = [] \<longrightarrow> (512 :: nat) = 0 \<or> input w = []"
    by (rule run_u_readE)
  show ?case
  proof (cases "bs = []")
    case True
    then show ?thesis using r by (auto simp: run_pbind split: prod.splits)
  next
    case False
    then show ?thesis
      using Suc.IH [of "w\<lparr>input := rest, pieces := ps\<rparr>" "fold wc_byte bs s"] Suc.prems r(1,2)
      by (auto simp: run_pbind neq_Nil_conv)
  qed
qed simp

text \<open>C40: \<open>wc\<close> reads its whole input, however the reads cut it, and prints the number of newlines, the number of places where a
  word begins and the number of bytes.\<close>

theorem wc_counts_input:
  assumes "length (input w) < fuel"
  shows "\<exists>ps. run (file_handler fd) (wc fuel fd name) w =
    run (file_handler fd)
      (u_printf (line ''%d %d %d %s'') [Va_int (word_of_int (int (count_list (input w) 10))),
        Va_int (word_of_int (int (card (word_starts (input w))))), Va_int (word_of_int (int (length (input w)))), Va_str (Some name)])
      (w\<lparr>input := [], pieces := ps\<rparr>)"
  using run_wc_loop [OF assms, of fd "(0, 0, 0, False)"] by (auto simp: wc_def run_pbind fold_wc_byte)

theorem wc_counts_input_witness:
  "\<exists>ps. run (file_handler 0) (wc 9 0 [])
      \<lparr>input = [97, 98, 32, 32, 99, 10], pieces = [0, 2], out1 = [], out2 = []\<rparr> =
    run (file_handler 0) (u_printf (line ''%d %d %d %s'') [Va_int 1, Va_int 2, Va_int 6, Va_str (Some [])])
      \<lparr>input = [], pieces = ps, out1 = [], out2 = []\<rparr>"
proof -
  let ?t = "[97, 98, 32, 32, 99, 10] :: byte list"
  have "int (card (word_starts ?t)) = 2" using fold_wc_byte [of ?t] by (simp add: wc_byte_eq space_def)
  then show ?thesis
    using wc_counts_input [of "\<lparr>input = ?t, pieces = [0, 2], out1 = [], out2 = []\<rparr>" 9 0 "[]"] by simp
qed

end
