(* ===== verification/Uprintf_Facts.thy ===== *)
theory Uprintf_Facts
  imports Uprintf
begin

text \<open>
  A call of the user-level \<open>printf\<close> whose arguments have the types that the format asks for does not go wrong: it reads every
  argument at its own type and its buffer for digits is long enough.
\<close>

section \<open>Programs that do not go wrong\<close>

text \<open>Whatever the system calls answer, the program does not fault, and what it returns satisfies \<open>P\<close>.\<close>

primrec safe :: "('a \<Rightarrow> bool) \<Rightarrow> 'a prog \<Rightarrow> bool" where
  "safe P (Done x) \<longleftrightarrow> P x"
| "safe P (Exit n) \<longleftrightarrow> True"
| "safe P (Sys r k) \<longleftrightarrow> (\<forall>a. safe P (k a))"
| "safe P Spin \<longleftrightarrow> True"
| "safe P (Fault e) \<longleftrightarrow> False"

lemma safe_pbind: "safe Q m \<Longrightarrow> (\<And>x. Q x \<Longrightarrow> safe P (f x)) \<Longrightarrow> safe P (pbind m f)"
  by (induction m) auto

lemma safe_pfor: "(\<And>x. safe (\<lambda>_. True) (f x)) \<Longrightarrow> safe (\<lambda>_. True) (pfor f xs)"
  by (induction xs) (auto intro: safe_pbind)

lemma safe_run: "safe P m \<Longrightarrow> fst (run h m w) \<noteq> Faulted e"
  by (induction m arbitrary: w) (auto split: prod.splits)

section \<open>Numbers\<close>

lemma u_printint_buf_length: "2 \<le> base \<Longrightarrow> unat x < unat base ^ Suc k \<Longrightarrow> length (u_printint_buf base x) \<le> Suc k"
proof (induction k arbitrary: x)
  case 0
  then have "x div base = 0" by (simp add: word_less_nat_alt unat_div flip: unat_eq_zero)
  then show ?case by (simp add: u_printint_buf.simps [of base x])
next
  case (Suc k)
  have "unat (x div base) < unat base ^ Suc k"
    using Suc.prems(2) by (simp add: unat_div less_mult_imp_div_less mult.commute)
  then show ?case using Suc.IH [OF Suc.prems(1)] by (simp add: u_printint_buf.simps [of base x])
qed

lemma safe_putc: "safe (\<lambda>_. True) (u_putc fd c)"
  by (simp add: u_putc_def u_write_def syscall1_def)

lemma safe_printint: "base = 10 \<or> base = 16 \<Longrightarrow> safe (\<lambda>_. True) (u_printint fd xx base sign)"
proof -
  assume b: "base = 10 \<or> base = 16"
  have "length (u_printint_buf base x) \<le> Suc 9" for x
    by (rule u_printint_buf_length) (use b unsigned_less [where 'a = nat, of x] in auto)
  from this [of "ucast (- xx)"] this [of "ucast xx"] have "length (u_printint_chars xx base sign) \<le> 11"
    unfolding u_printint_chars_def Let_def by auto
  then show ?thesis by (simp add: u_printint_def Let_def safe_pfor safe_putc)
qed

lemma safe_printptr: "safe (\<lambda>_. True) (u_printptr fd x)"
  unfolding u_printptr_def by (intro safe_pbind [OF safe_putc] safe_pfor safe_putc)

section \<open>Formats\<close>

datatype argty = A_int | A_long | A_str

primrec argty_of :: "vararg \<Rightarrow> argty" where
  "argty_of (Va_int v) = A_int"
| "argty_of (Va_long v) = A_long"
| "argty_of (Va_str v) = A_str"

text \<open>The type of the argument of a conversion, if it has one, and how many characters it has more than one.\<close>

definition conv_type :: "byte \<Rightarrow> byte \<Rightarrow> byte \<Rightarrow> argty list \<times> nat" where
  "conv_type c0 c1 c2 =
     (let num = set (map chr ''dux'') in
      if c0 \<in> num \<or> c0 = chr (CHR ''c'') then ([A_int], 0)
      else if c0 = chr (CHR ''l'') \<and> c1 \<in> num then ([A_long], 1)
      else if c0 = chr (CHR ''l'') \<and> c1 = chr (CHR ''l'') \<and> c2 \<in> num then ([A_long], 2)
      else if c0 = chr (CHR ''p'') then ([A_long], 0)
      else if c0 = chr (CHR ''s'') then ([A_str], 0)
      else ([], 0))"

function format_types :: "byte list \<Rightarrow> nat \<Rightarrow> bool \<Rightarrow> argty list" where
  "format_types fmt i pct =
     (let c0 = fmt_at fmt i in
      if c0 = 0 then []
      else if \<not> pct then format_types fmt (i + 1) (c0 = chr (CHR ''%''))
      else
        let c1 = fmt_at fmt (i + 1); c2 = (if c1 \<noteq> 0 then fmt_at fmt (i + 2) else 0) in
        fst (conv_type c0 c1 c2) @ format_types fmt (i + 1 + snd (conv_type c0 c1 c2)) False)"
  by auto

termination
  by (relation "measure (\<lambda>(fmt, i, pct). length fmt - i)") (auto simp: fmt_at_def split: if_splits)

declare format_types.simps [simp del]

text \<open>A conversion takes the arguments of its type.\<close>

definition takes :: "argty list \<Rightarrow> nat \<Rightarrow> nat \<times> vararg list \<Rightarrow> bool" where
  "takes ts k = (\<lambda>(k', ap). k' = k \<and> map argty_of ap = ts)"

lemma safe_va:
  "map argty_of ap = A_int # ts \<Longrightarrow> safe (\<lambda>(v, ap). map argty_of ap = ts) (u_va_int ap)"
  "map argty_of ap = A_long # ts \<Longrightarrow> safe (\<lambda>(v, ap). map argty_of ap = ts) (u_va_long ap)"
  "map argty_of ap = A_str # ts \<Longrightarrow> safe (\<lambda>(v, ap). map argty_of ap = ts) (u_va_str ap)"
  by (auto simp: u_va_int_def u_va_long_def u_va_str_def Cons_eq_map_conv split: vararg.splits dest!: sym [of _ "map argty_of ap"])

lemma safe_if: "(c \<Longrightarrow> safe P m) \<Longrightarrow> (\<not> c \<Longrightarrow> safe P n) \<Longrightarrow> safe P (if c then m else n)"
  by simp

lemma safe_arg:
  "map argty_of ap = A_int # ts \<Longrightarrow> k' = k \<Longrightarrow> (\<And>v. safe (\<lambda>_. True) (f v)) \<Longrightarrow> safe (takes ts k') (pbind (u_va_int ap) (\<lambda>(v, ap). pbind (f v) (\<lambda>_. Done (k, ap))))"
  "map argty_of ap = A_long # ts \<Longrightarrow> k' = k \<Longrightarrow> (\<And>v. safe (\<lambda>_. True) (g v)) \<Longrightarrow> safe (takes ts k') (pbind (u_va_long ap) (\<lambda>(v, ap). pbind (g v) (\<lambda>_. Done (k, ap))))"
  "map argty_of ap = A_str # ts \<Longrightarrow> k' = k \<Longrightarrow> (\<And>v. safe (\<lambda>_. True) (e v)) \<Longrightarrow> safe (takes ts k') (pbind (u_va_str ap) (\<lambda>(v, ap). pbind (e v) (\<lambda>_. Done (k, ap))))"
  "map argty_of ap = ts \<Longrightarrow> k' = k \<Longrightarrow> safe (\<lambda>_. True) m \<Longrightarrow> safe (takes ts k') (pbind m (\<lambda>_. Done (k, ap)))"
  by (rule safe_pbind [OF safe_va(1)] safe_pbind [OF safe_va(2)] safe_pbind [OF safe_va(3)] safe_pbind,
      assumption, force simp: takes_def intro: safe_pbind)+

lemma safe_conv:
  assumes "map argty_of ap = fst (conv_type c0 c1 c2) @ ts"
  shows "safe (takes ts (snd (conv_type c0 c1 c2))) (u_conv fd c0 c1 c2 ap)"
  unfolding u_conv_def
  by (intro safe_if safe_arg safe_pfor safe_putc safe_printint safe_printptr safe_pbind [OF safe_putc])
    (use assms in \<open>auto simp: conv_type_def\<close>)

lemma safe_vprintf_loop: "map argty_of ap = format_types fmt i pct \<Longrightarrow> safe (\<lambda>_. True) (u_vprintf_loop fd fmt i pct ap)"
proof (induction fmt i pct arbitrary: ap rule: format_types.induct)
  case (1 fmt i pct)
  let ?c0 = "fmt_at fmt i" and ?c1 = "fmt_at fmt (i + 1)"
  let ?c2 = "if ?c1 \<noteq> 0 then fmt_at fmt (i + 2) else 0"
  note types = format_types.simps [of fmt i pct]
  consider "?c0 = 0" | "?c0 \<noteq> 0" "\<not> pct" | "?c0 \<noteq> 0" pct by blast
  then show ?case
  proof cases
    case 1
    then show ?thesis by (simp add: u_vprintf_loop.simps [of fd fmt i])
  next
    case 2
    then have "safe (\<lambda>_. True) (u_vprintf_loop fd fmt (i + 1) (?c0 = chr (CHR ''%'')) ap)"
      using "1.IH"(1) [OF refl] "1.prems" types by (simp add: Let_def)
    then show ?thesis using 2 by (subst u_vprintf_loop.simps) (auto simp: Let_def intro: safe_pbind [OF safe_putc])
  next
    case 3
    let ?t = "conv_type ?c0 ?c1 ?c2"
    have "map argty_of ap = fst ?t @ format_types fmt (i + 1 + snd ?t) False" using "1.prems" types 3 by (simp add: Let_def)
    then have conv: "safe (takes (format_types fmt (i + 1 + snd ?t) False) (snd ?t)) (u_conv fd ?c0 ?c1 ?c2 ap)" by (rule safe_conv)
    have rest: "safe (\<lambda>_. True) (u_vprintf_loop fd fmt (i + 1 + snd ?t) False ap')" if "map argty_of ap' = format_types fmt (i + 1 + snd ?t) False" for ap'
      using "1.IH"(2) [OF refl _ _ refl refl that] 3 by simp
    have "safe (\<lambda>_. True) (pbind (u_conv fd ?c0 ?c1 ?c2 ap) (\<lambda>(k, ap). u_vprintf_loop fd fmt (i + 1 + k) False ap))"
      by (rule safe_pbind [OF conv]) (use rest in \<open>auto simp: takes_def\<close>)
    then show ?thesis using 3 by (subst u_vprintf_loop.simps) (simp add: Let_def)
  qed
qed

text \<open>C39: A call of \<open>printf\<close> or \<open>fprintf\<close> in a user program whose arguments have, in order, the types of the conversions in the format
  never faults, whatever the system calls answer: no argument is read at another type and the 20 bytes for the digits of a number
  are enough.\<close>

theorem printf_type_safe:
  assumes "map argty_of ap = format_types fmt 0 False"
  shows "fst (run h (u_printf fmt ap) w) \<noteq> Faulted e \<and> fst (run h (u_fprintf fd fmt ap) w) \<noteq> Faulted e"
  unfolding u_printf_def u_fprintf_def u_vprintf_def by (intro conjI safe_run [OF safe_vprintf_loop [OF assms]])

theorem printf_type_safe_witness:
  "fst (run (file_handler 0) (u_printf (line ''%d%s %lx'') [Va_int (- 1), Va_str (Some [97]), Va_long 255])
      \<lparr>input = [], pieces = [], out1 = [], out2 = []\<rparr>) \<noteq> Faulted ''va_arg''"
proof -
  have "map argty_of [Va_int (- 1), Va_str (Some [97]), Va_long 255] = format_types (line ''%d%s %lx'') 0 False" by code_simp
  from printf_type_safe [OF this, of "file_handler 0" "\<lparr>input = [], pieces = [], out1 = [], out2 = []\<rparr>"] show ?thesis by blast
qed

end
