(* ===== verification/Ush.thy ===== *)
theory Ush
  imports Uprintf
begin

text \<open>
  \<open>user/sh.c\<close>: the shell. A command line lies in a buffer that ends with a NUL; the parser is a recursive descent over positions
  of the buffer, and a command tree holds the positions where its strings begin and end. \<open>nulterminate\<close> writes a NUL
  behind each of them. \<open>runcmd\<close> makes the system calls of a tree. The nodes of the tree, which the code takes from \<open>malloc\<close>
  and never frees, are values; a failing \<open>malloc\<close> is not represented.

  The four parsing functions that call each other have a bound on the depth of their calls, beyond which they are
  \<open>Nofuel\<close>; \<open>parsecmd\<close> starts with a bound that the length of the line always respects.
\<close>

section \<open>Commands\<close>

text \<open>The argument and file strings are pairs of positions, the begin and the end.\<close>

datatype cmd = EXEC "(nat \<times> nat) list" | REDIR cmd nat nat nat int | PIPE cmd cmd | LIST cmd cmd | BACK cmd

definition execcmd :: cmd where
  "execcmd = EXEC []"

definition redircmd :: "cmd \<Rightarrow> nat \<Rightarrow> nat \<Rightarrow> nat \<Rightarrow> int \<Rightarrow> cmd" where
  "redircmd subcmd file efile mode fd = REDIR subcmd file efile mode fd"

definition pipecmd :: "cmd \<Rightarrow> cmd \<Rightarrow> cmd" where
  "pipecmd left right = PIPE left right"

definition listcmd :: "cmd \<Rightarrow> cmd \<Rightarrow> cmd" where
  "listcmd left right = LIST left right"

definition backcmd :: "cmd \<Rightarrow> cmd" where
  "backcmd subcmd = BACK subcmd"

text \<open>The string at a position, and a process that panics.\<close>

definition char_at :: "byte list \<Rightarrow> nat \<Rightarrow> byte" where
  "char_at buf i = (if i < length buf then buf ! i else 0)"

definition cstr :: "byte list \<Rightarrow> nat \<Rightarrow> byte list" where
  "cstr buf i = takeWhile (\<lambda>c. c \<noteq> 0) (drop i buf)"

definition sh_panic :: "string \<Rightarrow> 'a prog" where
  "sh_panic s = pbind (u_fprintf 2 (line ''%s'') [Va_str (Some (map of_char s))]) (\<lambda>_. Exit 1)"

definition fork1 :: "int prog" where
  "fork1 = pbind (syscall1 Sys_fork) (\<lambda>pid. if pid = - 1 then sh_panic ''fork'' else Done pid)"

definition sh_pipe :: "(int \<times> int \<times> int) prog" where
  "sh_pipe = Sys Sys_pipe (\<lambda>a. if ret a < 0 then Done (ret a, 0, 0) else case awords a of [r, w] \<Rightarrow> Done (ret a, r, w) | _ \<Rightarrow> Fault ''pipe'')"

section \<open>Running\<close>

primrec runcmd :: "byte list \<Rightarrow> cmd \<Rightarrow> unit prog" where
  "runcmd buf (EXEC args) =
     (case args of
        [] \<Rightarrow> Exit 1
      | (q, _) # _ \<Rightarrow>
          pbind (syscall1 (Sys_exec (cstr buf q) (map (\<lambda>(q, _). cstr buf q) args))) (\<lambda>_.
          pbind (u_fprintf 2 (line ''exec %s failed'') [Va_str (Some (cstr buf q))]) (\<lambda>_. Exit 0)))"
| "runcmd buf (REDIR c file efile mode fd) =
     pbind (syscall1 (Sys_close fd)) (\<lambda>_.
     pbind (syscall1 (Sys_open (cstr buf file) mode)) (\<lambda>r.
     if r < 0 then pbind (u_fprintf 2 (line ''open %s failed'') [Va_str (Some (cstr buf file))]) (\<lambda>_. Exit 1)
     else runcmd buf c))"
| "runcmd buf (LIST left right) =
     pbind fork1 (\<lambda>pid.
     if pid = 0 then runcmd buf left
     else pbind (syscall1 Sys_wait) (\<lambda>_. runcmd buf right))"
| "runcmd buf (PIPE left right) =
     pbind sh_pipe (\<lambda>(r, p0, p1).
     if r < 0 then sh_panic ''pipe'' else
     pbind fork1 (\<lambda>pid.
     if pid = 0 then
       pbind (syscall1 (Sys_close 1)) (\<lambda>_. pbind (syscall1 (Sys_dup p1)) (\<lambda>_.
       pbind (syscall1 (Sys_close p0)) (\<lambda>_. pbind (syscall1 (Sys_close p1)) (\<lambda>_. runcmd buf left))))
     else
       pbind fork1 (\<lambda>pid.
       if pid = 0 then
         pbind (syscall1 (Sys_close 0)) (\<lambda>_. pbind (syscall1 (Sys_dup p0)) (\<lambda>_.
         pbind (syscall1 (Sys_close p0)) (\<lambda>_. pbind (syscall1 (Sys_close p1)) (\<lambda>_. runcmd buf right))))
       else
         pbind (syscall1 (Sys_close p0)) (\<lambda>_. pbind (syscall1 (Sys_close p1)) (\<lambda>_.
         pbind (syscall1 Sys_wait) (\<lambda>_. pbind (syscall1 Sys_wait) (\<lambda>_. Exit 0)))))))"
| "runcmd buf (BACK c) = pbind fork1 (\<lambda>pid. if pid = 0 then runcmd buf c else Exit 0)"

section \<open>Tokens\<close>

definition whitespace :: "byte list" where
  "whitespace = [32, 9, 13, 10, 11]"

definition symbols :: "byte list" where
  "symbols = map of_char ''<|>&;()''"

text \<open>The loops over white space and over the characters of a word.\<close>

function skip_ws :: "byte list \<Rightarrow> nat \<Rightarrow> nat \<Rightarrow> nat" where
  "skip_ws buf s es = (if s < es \<and> u_strchr whitespace (char_at buf s) \<noteq> None then skip_ws buf (s + 1) es else s)"
  by auto

termination
  by (relation "measure (\<lambda>(buf, s, es). es - s)") auto

declare skip_ws.simps [simp del]

function skip_word :: "byte list \<Rightarrow> nat \<Rightarrow> nat \<Rightarrow> nat" where
  "skip_word buf s es =
     (if s < es \<and> u_strchr whitespace (char_at buf s) = None \<and> u_strchr symbols (char_at buf s) = None
      then skip_word buf (s + 1) es else s)"
  by auto

termination
  by (relation "measure (\<lambda>(buf, s, es). es - s)") auto

declare skip_word.simps [simp del]

text \<open>The token, where it begins and ends, and where the next one begins.\<close>

definition gettoken :: "byte list \<Rightarrow> nat \<Rightarrow> nat \<Rightarrow> byte \<times> nat \<times> nat \<times> nat" where
  "gettoken buf ps es =
     (let q = skip_ws buf ps es; c = char_at buf q;
          (tok, eq) =
            (if c = 0 then (c, q)
             else if c \<in> set (map of_char ''|();&<'') then (c, q + 1)
             else if c = of_char (CHR ''>'') then
               if char_at buf (q + 1) = of_char (CHR ''>'') then (of_char (CHR ''+''), q + 2) else (c, q + 1)
             else (of_char (CHR ''a''), skip_word buf q es))
      in (tok, q, eq, skip_ws buf eq es))"

definition peek :: "byte list \<Rightarrow> nat \<Rightarrow> nat \<Rightarrow> string \<Rightarrow> bool \<times> nat" where
  "peek buf ps es toks =
     (let s = skip_ws buf ps es; c = char_at buf s in (c \<noteq> 0 \<and> u_strchr (map of_char toks) c \<noteq> None, s))"

section \<open>Parsing\<close>

datatype 'a parsed = Parsed 'a nat | Bad string | Nofuel

primrec pthen :: "'a parsed \<Rightarrow> ('a \<Rightarrow> nat \<Rightarrow> 'b parsed) \<Rightarrow> 'b parsed" where
  "pthen (Parsed x ps) f = f x ps"
| "pthen (Bad e) f = Bad e"
| "pthen Nofuel f = Nofuel"

text \<open>A token is read behind the white space, and the position never moves back.\<close>

lemma skip_ws_ge: "s \<le> skip_ws buf s es"
  by (induction buf s es rule: skip_ws.induct) (subst skip_ws.simps; auto)

lemma skip_ws_le: "s \<le> es \<Longrightarrow> skip_ws buf s es \<le> es"
  by (induction buf s es rule: skip_ws.induct) (subst skip_ws.simps; auto)

lemma skip_word_ge: "s \<le> skip_word buf s es"
  by (induction buf s es rule: skip_word.induct) (subst skip_word.simps; auto)

lemma gettoken_ge: "gettoken buf ps es = (tok, q, eq, ps') \<Longrightarrow> ps \<le> q \<and> q \<le> eq \<and> eq \<le> ps'"
  using skip_ws_ge [of ps buf es] skip_word_ge [of "skip_ws buf ps es" buf es] skip_ws_ge [of eq buf es]
  by (auto simp: gettoken_def Let_def split: if_splits)

lemma skip_ws_idem [simp]: "skip_ws buf (skip_ws buf s es) es = skip_ws buf s es"
  by (induction buf s es rule: skip_ws.induct) (metis skip_ws.simps)

text \<open>After a successful \<open>peek\<close> for symbols, the token is the symbol.\<close>

lemma peek_then_gettoken:
  assumes "peek buf ps es toks = (True, ps1)" "set toks \<subseteq> set ''<|>&;()''" "gettoken buf ps1 es = (tok, q, eq, ps2)"
  shows "ps \<le> ps1 \<and> ps1 < ps2 \<and> ps1 < length buf"
proof -
  have ps1: "ps1 = skip_ws buf ps es" and c: "char_at buf ps1 \<noteq> 0" "char_at buf ps1 \<in> of_char ` set toks"
    using assms(1) by (auto simp: peek_def Let_def u_strchr_mem)
  then have "char_at buf ps1 \<in> set symbols" using assms(2) by (auto simp: symbols_def)
  then have "ps1 < eq"
    using assms(3) c(1) by (auto simp: ps1 gettoken_def Let_def symbols_def split: if_splits)
  then show ?thesis
    using gettoken_ge [OF assms(3)] skip_ws_ge [of ps buf es] c(1) by (auto simp: ps1 char_at_def split: if_splits)
qed

lemma redirs_progress:
  assumes "(True, ps1) = peek buf ps es ''<>''" "(tok, x, y, ps2) = gettoken buf ps1 es" "(tok2, q, eq, ps3) = gettoken buf ps2 es"
  shows "length buf - ps3 < length buf - ps"
  using peek_then_gettoken [OF assms(1) [symmetric] _ assms(2) [symmetric]] gettoken_ge [OF assms(3) [symmetric]] by auto

text \<open>The loop of \<open>parseredirs\<close>.\<close>

function parseredirs :: "cmd \<Rightarrow> byte list \<Rightarrow> nat \<Rightarrow> nat \<Rightarrow> cmd parsed" where
  "parseredirs cmd buf ps es =
     (case peek buf ps es ''<>'' of (found, ps) \<Rightarrow>
      if \<not> found then Parsed cmd ps else
      case gettoken buf ps es of (tok, _, _, ps) \<Rightarrow>
      case gettoken buf ps es of (tok2, q, eq, ps) \<Rightarrow>
      if tok2 \<noteq> of_char (CHR ''a'') then Bad ''missing file for redirection''
      else if tok = of_char (CHR ''<'') then parseredirs (redircmd cmd q eq 0 0) buf ps es
      else if tok = of_char (CHR ''>'') then parseredirs (redircmd cmd q eq 0x601 1) buf ps es
      else if tok = of_char (CHR ''+'') then parseredirs (redircmd cmd q eq 0x201 1) buf ps es
      else parseredirs cmd buf ps es)"
  by auto

termination
  by (relation "measure (\<lambda>(cmd, buf, ps, es). length buf - ps)") (auto intro: redirs_progress)

declare parseredirs.simps [simp del]

text \<open>
  \<open>parseexec\<close> keeps a pointer to the \<open>execcmd\<close> and stores the arguments through it, while \<open>parseredirs\<close> wraps redirections around it:
  the innermost command of the chain changes.
\<close>

primrec add_arg :: "nat \<times> nat \<Rightarrow> cmd \<Rightarrow> cmd" where
  "add_arg a (EXEC args) = EXEC (args @ [a])"
| "add_arg a (REDIR c file efile mode fd) = REDIR (add_arg a c) file efile mode fd"
| "add_arg a (PIPE left right) = PIPE left right"
| "add_arg a (LIST left right) = LIST left right"
| "add_arg a (BACK c) = BACK c"

function parseargs :: "nat \<Rightarrow> cmd \<Rightarrow> byte list \<Rightarrow> nat \<Rightarrow> nat \<Rightarrow> cmd parsed" where
  "parseargs argc cmd buf ps es =
     (case peek buf ps es ''|)&;'' of (found, ps) \<Rightarrow>
      if found then Parsed cmd ps else
      case gettoken buf ps es of (tok, q, eq, ps) \<Rightarrow>
      if tok = 0 then Parsed cmd ps
      else if tok \<noteq> of_char (CHR ''a'') then Bad ''syntax''
      else if argc + 1 \<ge> 10 then Bad ''too many args''
      else pthen (parseredirs (add_arg (q, eq) cmd) buf ps es) (\<lambda>cmd ps. parseargs (argc + 1) cmd buf ps es))"
  by auto

termination
  by (relation "measure (\<lambda>(argc, cmd, buf, ps, es). 10 - argc)") auto

declare parseargs.simps [simp del]

lemma back_progress:
  assumes "(True, ps1) = peek buf ps es ''&''" "(tok, x, y, ps2) = gettoken buf ps1 es"
  shows "length buf - ps2 < length buf - ps"
  using peek_then_gettoken [OF assms(1) [symmetric] _ assms(2) [symmetric]] by auto

text \<open>The loop of \<open>parseline\<close> over ampersands.\<close>

function parseback :: "cmd \<Rightarrow> byte list \<Rightarrow> nat \<Rightarrow> nat \<Rightarrow> cmd \<times> nat" where
  "parseback cmd buf ps es =
     (case peek buf ps es ''&'' of (found, ps) \<Rightarrow>
      if \<not> found then (cmd, ps) else
      case gettoken buf ps es of (_, _, _, ps) \<Rightarrow> parseback (backcmd cmd) buf ps es)"
  by auto

termination
  by (relation "measure (\<lambda>(cmd, buf, ps, es). length buf - ps)") (auto intro: back_progress)

declare parseback.simps [simp del]

fun parseline :: "nat \<Rightarrow> byte list \<Rightarrow> nat \<Rightarrow> nat \<Rightarrow> cmd parsed"
and parsepipe :: "nat \<Rightarrow> byte list \<Rightarrow> nat \<Rightarrow> nat \<Rightarrow> cmd parsed"
and parseblock :: "nat \<Rightarrow> byte list \<Rightarrow> nat \<Rightarrow> nat \<Rightarrow> cmd parsed"
and parseexec :: "nat \<Rightarrow> byte list \<Rightarrow> nat \<Rightarrow> nat \<Rightarrow> cmd parsed" where
  "parseline 0 buf ps es = Nofuel"
| "parseline (Suc fuel) buf ps es =
     pthen (parsepipe fuel buf ps es) (\<lambda>cmd ps.
     case parseback cmd buf ps es of (cmd, ps) \<Rightarrow>
     case peek buf ps es '';'' of (found, ps) \<Rightarrow>
     if \<not> found then Parsed cmd ps else
     case gettoken buf ps es of (_, _, _, ps) \<Rightarrow>
     pthen (parseline fuel buf ps es) (\<lambda>right ps. Parsed (listcmd cmd right) ps))"
| "parsepipe 0 buf ps es = Nofuel"
| "parsepipe (Suc fuel) buf ps es =
     pthen (parseexec fuel buf ps es) (\<lambda>cmd ps.
     case peek buf ps es ''|'' of (found, ps) \<Rightarrow>
     if \<not> found then Parsed cmd ps else
     case gettoken buf ps es of (_, _, _, ps) \<Rightarrow>
     pthen (parsepipe fuel buf ps es) (\<lambda>right ps. Parsed (pipecmd cmd right) ps))"
| "parseblock 0 buf ps es = Nofuel"
| "parseblock (Suc fuel) buf ps es =
     (case peek buf ps es ''('' of (found, ps) \<Rightarrow>
      if \<not> found then Bad ''parseblock'' else
      case gettoken buf ps es of (_, _, _, ps) \<Rightarrow>
      pthen (parseline fuel buf ps es) (\<lambda>cmd ps.
      case peek buf ps es '')'' of (found, ps) \<Rightarrow>
      if \<not> found then Bad ''syntax - missing )'' else
      case gettoken buf ps es of (_, _, _, ps) \<Rightarrow>
      parseredirs cmd buf ps es))"
| "parseexec 0 buf ps es = Nofuel"
| "parseexec (Suc fuel) buf ps es =
     (case peek buf ps es ''('' of (found, ps) \<Rightarrow>
      if found then parseblock fuel buf ps es else
      pthen (parseredirs execcmd buf ps es) (\<lambda>cmd ps. parseargs 0 cmd buf ps es))"

text \<open>\<open>nulterminate\<close> writes into the buffer.\<close>

primrec nulterminate :: "cmd \<Rightarrow> byte list \<Rightarrow> byte list" where
  "nulterminate (EXEC args) buf = fold (\<lambda>(_, eq) buf. buf[eq := 0]) args buf"
| "nulterminate (REDIR c file efile mode fd) buf = (nulterminate c buf)[efile := 0]"
| "nulterminate (PIPE left right) buf = nulterminate right (nulterminate left buf)"
| "nulterminate (LIST left right) buf = nulterminate right (nulterminate left buf)"
| "nulterminate (BACK c) buf = nulterminate c buf"

text \<open>The command at position \<open>s\<close> of the buffer, and the buffer after it.\<close>

definition parsecmd :: "byte list \<Rightarrow> nat \<Rightarrow> (cmd \<times> byte list) prog" where
  "parsecmd buf s =
     (let es = s + u_strlen (cstr buf s) in
      case parseline (4 * (es - s) + 4) buf s es of
        Nofuel \<Rightarrow> Spin
      | Bad e \<Rightarrow> sh_panic e
      | Parsed cmd s \<Rightarrow>
          let s = snd (peek buf s es []) in
          if s \<noteq> es then pbind (u_fprintf 2 (line ''leftovers: %s'') [Va_str (Some (cstr buf s))]) (\<lambda>_. sh_panic ''syntax'')
          else Done (cmd, nulterminate cmd buf))"

section \<open>The main loop\<close>

text \<open>\<open>getcmd\<close>: the buffer, or \<open>None\<close> at the end of the input.\<close>

definition getcmd :: "nat \<Rightarrow> byte list option prog" where
  "getcmd nbuf =
     pbind (u_write 2 [36, 32]) (\<lambda>_.
     pbind (u_gets nbuf) (\<lambda>bs.
     let buf = bs @ replicate (nbuf - length bs) 0 in
     Done (if char_at buf 0 = 0 then None else Some buf)))"

fun open_console :: "nat \<Rightarrow> unit prog" where
  "open_console 0 = Spin"
| "open_console (Suc fuel) =
     pbind (syscall1 (Sys_open (map of_char ''console'') 2)) (\<lambda>fd.
     if fd < 0 then Done ()
     else if fd \<ge> 3 then pbind (syscall1 (Sys_close fd)) (\<lambda>_. Done ())
     else open_console fuel)"

text \<open>The first character of the command that is neither a blank nor a tab.\<close>

definition skip_blanks :: "byte list \<Rightarrow> nat" where
  "skip_blanks buf = length (takeWhile (\<lambda>c. c = 32 \<or> c = 9) buf)"

fun sh_loop :: "nat \<Rightarrow> unit prog" where
  "sh_loop 0 = Spin"
| "sh_loop (Suc fuel) =
     pbind (getcmd 100) (\<lambda>b.
     case b of
       None \<Rightarrow> Exit 0
     | Some buf \<Rightarrow>
         let cmd = skip_blanks buf; c = cstr buf cmd in
         if char_at buf cmd = 10 then sh_loop fuel
         else if take 3 c = map of_char ''cd '' then
           let d = drop 3 (butlast c) in
           pbind (syscall1 (Sys_chdir d)) (\<lambda>r.
           pbind (if r < 0 then u_fprintf 2 (line ''cannot cd %s'') [Va_str (Some d)] else Done ()) (\<lambda>_. sh_loop fuel))
         else
           pbind fork1 (\<lambda>pid.
           if pid = 0 then pbind (parsecmd buf cmd) (\<lambda>(t, buf). runcmd buf t)
           else pbind (syscall1 Sys_wait) (\<lambda>_. sh_loop fuel)))"

definition sh_main :: "nat \<Rightarrow> unit prog" where
  "sh_main fuel = pbind (open_console fuel) (\<lambda>_. sh_loop fuel)"

end
