(* ===== verification/Ush_Facts.thy ===== *)
theory Ush_Facts
  imports Ush
begin

text \<open>
  The shell reads back what is written: every command tree has a line, and on that line the parser, the termination of the
  strings and \<open>runcmd\<close> together make the system calls of the tree. On every line the parser ends.
\<close>

section \<open>What lies ahead of a position\<close>

abbreviation ws :: "byte \<Rightarrow> bool" where
  "ws c \<equiv> c \<in> set whitespace"

definition delim :: "byte \<Rightarrow> bool" where
  "delim c \<longleftrightarrow> c = 0 \<or> c \<in> set whitespace \<or> c \<in> set symbols"

text \<open>The buffer holds a line that ends at \<open>es\<close>.\<close>

definition line_at :: "byte list \<Rightarrow> nat \<Rightarrow> bool" where
  "line_at buf es \<longleftrightarrow> es < length buf \<and> buf ! es = 0 \<and> (\<forall>i<es. buf ! i \<noteq> 0)"

definition ahead :: "byte list \<Rightarrow> nat \<Rightarrow> nat \<Rightarrow> byte list" where
  "ahead buf ps es = drop ps (take es buf)"

definition front :: "byte list \<Rightarrow> nat \<Rightarrow> nat \<Rightarrow> byte list" where
  "front buf ps es = dropWhile ws (ahead buf ps es)"

lemma whitespace_codes: "set whitespace = {32, 9, 13, 10, 11}"
  by (simp add: whitespace_def)

lemma symbols_codes: "set symbols = {60, 124, 62, 38, 59, 40, 41}"
  by (simp add: symbols_def)

lemma ahead_Cons: "ps < es \<Longrightarrow> es < length buf \<Longrightarrow> ahead buf ps es = char_at buf ps # ahead buf (ps + 1) es"
  by (simp add: ahead_def char_at_def Cons_nth_drop_Suc [symmetric])

lemma ahead_end [simp]: "ahead buf es es = []"
  by (simp add: ahead_def)

lemma ahead_no_nul: "line_at buf es \<Longrightarrow> c \<in> set (ahead buf ps es) \<Longrightarrow> c \<noteq> 0"
  by (auto simp: line_at_def ahead_def in_set_conv_nth)

lemma skip_ws_ahead: "ps \<le> es \<Longrightarrow> es < length buf \<Longrightarrow> ahead buf (skip_ws buf ps es) es = front buf ps es"
proof (induction buf ps es rule: skip_ws.induct)
  case (1 buf s es)
  show ?case
  proof (cases "s < es \<and> ws (char_at buf s)")
    case True
    then have "front buf s es = front buf (s + 1) es" using "1.prems" by (simp add: front_def ahead_Cons)
    then show ?thesis using 1 True by (subst skip_ws.simps) (simp add: u_strchr_mem)
  next
    case False
    then have "skip_ws buf s es = s" by (subst skip_ws.simps) (auto simp: u_strchr_mem)
    then show ?thesis using False "1.prems" by (cases "s = es") (auto simp: front_def ahead_Cons)
  qed
qed

lemma front_skip [simp]: "ps \<le> es \<Longrightarrow> es < length buf \<Longrightarrow> front buf (skip_ws buf ps es) es = front buf ps es"
  by (simp add: front_def skip_ws_ahead skip_ws_le)

lemma ahead_advance: "ahead buf ps es = u @ r \<Longrightarrow> ahead buf (ps + length u) es = r"
  by (metis ahead_def append_eq_conv_conj add.commute drop_drop)

lemma ahead_bound: "ahead buf ps es = u @ r \<Longrightarrow> ps \<le> es \<Longrightarrow> ps + length u \<le> es"
proof -
  assume a: "ahead buf ps es = u @ r" "ps \<le> es"
  have "length (ahead buf ps es) \<le> es - ps" by (simp add: ahead_def)
  then show ?thesis using a by simp
qed

lemma char_ahead: "line_at buf es \<Longrightarrow> ps \<le> es \<Longrightarrow> char_at buf ps = hd0 (ahead buf ps es)"
  by (cases "ps = es") (auto simp: line_at_def ahead_Cons hd0_def char_at_def)

lemma char_skip: "line_at buf es \<Longrightarrow> ps \<le> es \<Longrightarrow> char_at buf (skip_ws buf ps es) = hd0 (front buf ps es)"
  by (metis char_ahead skip_ws_ahead skip_ws_le line_at_def)

lemma front_Cons: "line_at buf es \<Longrightarrow> front buf ps es = c # r \<Longrightarrow> c \<noteq> 0 \<and> \<not> ws c"
  unfolding front_def by (metis ahead_no_nul dropWhile_eq_Cons_conv list.set_intros(1) set_dropWhileD)

section \<open>Tokens\<close>

lemma peek_front:
  assumes "line_at buf es" "ps \<le> es"
  shows "peek buf ps es toks = (front buf ps es \<noteq> [] \<and> hd (front buf ps es) \<in> of_char ` set toks, skip_ws buf ps es)"
  using char_skip [OF assms] front_Cons [OF assms(1)]
  by (cases "front buf ps es") (auto simp: peek_def Let_def u_strchr_mem hd0_def)

lemma skip_word_ahead:
  assumes "es < length buf" "ps \<le> es" "ahead buf ps es = w @ r" "\<forall>c\<in>set w. \<not> delim c" "r = [] \<or> delim (hd r)" "0 \<notin> set r"
  shows "skip_word buf ps es = ps + length w"
  using assms
proof (induction w arbitrary: ps)
  case Nil
  then show ?case
    by (cases "ps < es") (subst skip_word.simps; auto simp: ahead_Cons u_strchr_mem delim_def)+
next
  case (Cons c w)
  then have "ps < es" by (cases "ps = es") auto
  then show ?case
    using Cons by (subst skip_word.simps) (auto simp: ahead_Cons u_strchr_mem delim_def)
qed

text \<open>The state of the parser that has \<open>r\<close> ahead, up to white space.\<close>

definition stands :: "byte list \<Rightarrow> nat \<Rightarrow> byte list \<Rightarrow> nat \<Rightarrow> bool" where
  "stands buf es r ps \<longleftrightarrow> ps \<le> es \<and> front buf ps es = dropWhile ws r"

lemma stands_peek:
  assumes "line_at buf es" "stands buf es r ps"
  obtains ps' where "peek buf ps es toks = (dropWhile ws r \<noteq> [] \<and> hd (dropWhile ws r) \<in> of_char ` set toks, ps')" "stands buf es r ps'"
  using assms peek_front [OF assms(1), of ps toks] skip_ws_le [of ps es buf] by (auto simp: stands_def line_at_def)

lemma stands_after:
  assumes "line_at buf es" "stands buf es r ps" "dropWhile ws r = u @ r'"
  shows "stands buf es r' (skip_ws buf (skip_ws buf ps es + length u) es)"
proof -
  let ?s = "skip_ws buf ps es"
  have s: "?s \<le> es" "ahead buf ?s es = u @ r'" "es < length buf"
    using assms skip_ws_ahead [of ps es buf] skip_ws_le by (auto simp: stands_def line_at_def)
  have "?s + length u \<le> es" "ahead buf (?s + length u) es = r'" using ahead_bound [OF s(2,1)] ahead_advance [OF s(2)] by auto
  then show ?thesis using s(3) by (simp add: stands_def skip_ws_le) (simp add: front_def)
qed

lemma stands_symbol:
  assumes "line_at buf es" "stands buf es r ps" "dropWhile ws r = c # r'" "c \<in> set (map of_char ''|();&<'')"
  obtains q eq ps' where "gettoken buf ps es = (c, q, eq, ps')" "stands buf es r' ps'"
proof -
  have "char_at buf (skip_ws buf ps es) = c" "c \<noteq> 0"
    using char_skip [OF assms(1)] front_Cons [OF assms(1)] assms(2,3) by (auto simp: stands_def hd0_def)
  then show thesis
    using that assms(4) stands_after [OF assms(1,2), of "[c]" r'] assms(3) by (auto simp: gettoken_def Let_def)
qed

text \<open>A redirection operator, with the token that \<open>gettoken\<close> returns for it.\<close>

datatype redir = Input | Output | Append

primrec redir_text :: "redir \<Rightarrow> byte list" where
  "redir_text Input = [60]"
| "redir_text Output = [62]"
| "redir_text Append = [62, 62]"

primrec redir_tok :: "redir \<Rightarrow> byte" where
  "redir_tok Input = of_char (CHR ''<'')"
| "redir_tok Output = of_char (CHR ''>'')"
| "redir_tok Append = of_char (CHR ''+'')"

lemma stands_redir:
  assumes "line_at buf es" "stands buf es r ps" "dropWhile ws r = redir_text k @ 32 # r'"
  obtains q eq ps' where "gettoken buf ps es = (redir_tok k, q, eq, ps')" "stands buf es r' ps'"
proof -
  let ?s = "skip_ws buf ps es"
  have s: "?s \<le> es" "ahead buf ?s es = redir_text k @ 32 # r'" "es < length buf"
    using assms skip_ws_ahead [of ps es buf] skip_ws_le by (auto simp: stands_def line_at_def)
  have b: "?s < es" using ahead_bound [OF s(2,1)] by (cases k) auto
  have c: "char_at buf ?s = hd (redir_text k)" "char_at buf (?s + 1) = (if k = Append then 62 else 32)"
    using char_ahead [OF assms(1), of ?s] char_ahead [OF assms(1), of "?s + 1"] ahead_advance [of buf ?s es "[hd (redir_text k)]"] s b
    by (cases k; simp add: hd0_def)+
  have "stands buf es (32 # r') (skip_ws buf (?s + length (redir_text k)) es)"
    by (rule stands_after [OF assms(1,2)]) (use assms(3) in simp)
  then have "stands buf es r' (skip_ws buf (?s + length (redir_text k)) es)" by (simp add: stands_def whitespace_codes)
  moreover have "gettoken buf ps es = (redir_tok k, ?s, ?s + length (redir_text k), skip_ws buf (?s + length (redir_text k)) es)"
    using c by (cases k) (simp_all add: gettoken_def Let_def add_2_eq_Suc')
  ultimately show thesis using that by simp
qed

text \<open>A pair of positions that holds a word.\<close>

definition holds :: "byte list \<Rightarrow> nat \<Rightarrow> nat \<times> nat \<Rightarrow> byte list \<Rightarrow> bool" where
  "holds buf es = (\<lambda>(q, eq) w. eq = q + length w \<and> eq \<le> es \<and> take (length w) (drop q buf) = w \<and> delim (char_at buf eq))"

definition is_word :: "byte list \<Rightarrow> bool" where
  "is_word w \<longleftrightarrow> w \<noteq> [] \<and> (\<forall>c\<in>set w. \<not> delim c)"

definition separated :: "byte list \<Rightarrow> bool" where
  "separated r \<longleftrightarrow> r = [] \<or> delim (hd r)"

lemma word_token:
  assumes "is_word w"
  shows "dropWhile ws (w @ r) = w @ r" "hd w \<notin> {0, 60, 124, 62, 38, 59, 40, 41}"
  using assms by (cases w; auto simp: is_word_def delim_def symbols_codes)+

lemma stands_word:
  assumes "line_at buf es" "stands buf es (w @ r) ps" "is_word w" "separated r"
  obtains q eq ps' where "gettoken buf ps es = (of_char (CHR ''a''), q, eq, ps')" "holds buf es (q, eq) w" "stands buf es r ps'"
proof -
  let ?s = "skip_ws buf ps es"
  have s: "?s \<le> es" "ahead buf ?s es = w @ r" "es < length buf"
    using assms skip_ws_ahead [of ps es buf] skip_ws_le word_token [OF assms(3)] by (auto simp: stands_def line_at_def)
  have "w \<noteq> []" using assms(3) by (simp add: is_word_def)
  then have "char_at buf ?s = hd w" using char_ahead [OF assms(1) s(1)] s(2) by (cases w) (auto simp: hd0_def)
  then have c: "char_at buf ?s \<notin> {0, 60, 124, 62, 38, 59, 40, 41}" using word_token(2) [OF assms(3)] by simp
  have z: "0 \<notin> set r" using ahead_no_nul [OF assms(1)] s(2) by (metis in_set_conv_decomp append_assoc)
  have e: "skip_word buf ?s es = ?s + length w"
    using skip_word_ahead [OF s(3,1,2)] assms(3,4) z by (auto simp: is_word_def separated_def)
  have le: "?s + length w \<le> es" and ah: "ahead buf (?s + length w) es = r"
    using ahead_bound [OF s(2,1)] ahead_advance [OF s(2)] by auto
  have "take (length w) (take (es - ?s) (drop ?s buf)) = w" using s(2) by (simp add: ahead_def drop_take)
  then have "take (length w) (drop ?s buf) = w" using le by (simp add: min_def split: if_splits)
  moreover have "delim (char_at buf (?s + length w))"
    using char_ahead [OF assms(1) le] ah assms(4) by (auto simp: hd0_def delim_def separated_def split: list.splits)
  moreover have "stands buf es r (skip_ws buf (?s + length w) es)"
    using stands_after [OF assms(1,2) word_token(1) [OF assms(3)]] .
  moreover have "gettoken buf ps es = (of_char (CHR ''a''), ?s, ?s + length w, skip_ws buf (?s + length w) es)"
    using c e by (simp add: gettoken_def Let_def)
  ultimately show thesis using that le by (simp add: holds_def)
qed

lemma stands_end:
  assumes "line_at buf es" "stands buf es r ps" "dropWhile ws r = []"
  obtains q eq ps' where "gettoken buf ps es = (0, q, eq, ps')" "stands buf es r ps'"
proof -
  have "char_at buf (skip_ws buf ps es) = 0" using assms char_skip [OF assms(1)] by (simp add: stands_def hd0_def)
  moreover have "stands buf es [] (skip_ws buf (skip_ws buf ps es) es)"
    using stands_after [OF assms(1,2), of "[]" "[]"] assms(3) by simp
  ultimately show thesis using that assms(3) by (simp add: gettoken_def Let_def stands_def)
qed

section \<open>Command trees and their lines\<close>

datatype tree = T_run "byte list list" | T_redir tree redir "byte list" | T_pipe tree tree | T_seq tree tree | T_back tree

definition words_text :: "byte list list \<Rightarrow> byte list" where
  "words_text args = concat (map ((#) 32) args)"

definition paren :: "bool \<Rightarrow> byte list \<Rightarrow> byte list" where
  "paren b x = (if b then 40 # x @ [41] else x)"

text \<open>
  The line of a tree where the grammar expects a command with redirections (0), a pipeline (1), a pipeline with ampersands (2)
  or a whole line (3); parentheses where the tree binds less.
\<close>

primrec render :: "nat \<Rightarrow> tree \<Rightarrow> byte list" where
  "render lv (T_run args) = words_text args"
| "render lv (T_redir t k f) = render 0 t @ 32 # redir_text k @ 32 # f"
| "render lv (T_pipe a b) = paren (lv < 1) (render 0 a @ 124 # render 1 b)"
| "render lv (T_back a) = paren (lv < 2) (render 2 a @ [38])"
| "render lv (T_seq a b) = paren (lv < 3) (render 2 a @ 59 # render 3 b)"

text \<open>At most nine arguments; strings are words.\<close>

primrec wf_tree :: "tree \<Rightarrow> bool" where
  "wf_tree (T_run args) \<longleftrightarrow> length args < 10 \<and> list_all is_word args"
| "wf_tree (T_redir t k f) \<longleftrightarrow> wf_tree t \<and> is_word f"
| "wf_tree (T_pipe a b) \<longleftrightarrow> wf_tree a \<and> wf_tree b"
| "wf_tree (T_seq a b) \<longleftrightarrow> wf_tree a \<and> wf_tree b"
| "wf_tree (T_back a) \<longleftrightarrow> wf_tree a"

primrec redir_mode :: "redir \<Rightarrow> nat" where
  "redir_mode Input = 0"
| "redir_mode Output = 0x601"
| "redir_mode Append = 0x201"

primrec redir_fd :: "redir \<Rightarrow> int" where
  "redir_fd Input = 0"
| "redir_fd Output = 1"
| "redir_fd Append = 1"

text \<open>A parsed command stands for a tree when its positions hold the strings.\<close>

fun means :: "byte list \<Rightarrow> nat \<Rightarrow> cmd \<Rightarrow> tree \<Rightarrow> bool" where
  "means buf es (EXEC as) (T_run args) \<longleftrightarrow> list_all2 (holds buf es) as args"
| "means buf es (REDIR c q eq mode fd) (T_redir t k f) \<longleftrightarrow>
     means buf es c t \<and> holds buf es (q, eq) f \<and> mode = redir_mode k \<and> fd = redir_fd k"
| "means buf es (PIPE c d) (T_pipe a b) \<longleftrightarrow> means buf es c a \<and> means buf es d b"
| "means buf es (LIST c d) (T_seq a b) \<longleftrightarrow> means buf es c a \<and> means buf es d b"
| "means buf es (BACK c) (T_back a) \<longleftrightarrow> means buf es c a"
| "means buf es _ _ \<longleftrightarrow> False"

text \<open>What may follow: the end or one of some characters.\<close>

definition follow :: "byte set \<Rightarrow> byte list \<Rightarrow> bool" where
  "follow S r \<longleftrightarrow> dropWhile ws r = [] \<or> hd (dropWhile ws r) \<in> S"

lemma follow_mono: "follow S r \<Longrightarrow> S \<subseteq> T \<Longrightarrow> follow T r"
  by (auto simp: follow_def)

lemma follow_separated: "follow S r \<Longrightarrow> S \<subseteq> set symbols \<Longrightarrow> separated r"
  by (cases r) (auto simp: follow_def separated_def delim_def split: if_splits)

section \<open>Redirections\<close>

definition redirs_text :: "(redir \<times> byte list) list \<Rightarrow> byte list" where
  "redirs_text rs = concat (map (\<lambda>(k, f). 32 # redir_text k @ 32 # f) rs)"

abbreviation redirected :: "tree \<Rightarrow> (redir \<times> byte list) list \<Rightarrow> tree" where
  "redirected t rs \<equiv> foldl (\<lambda>t (k, f). T_redir t k f) t rs"

lemma separated_redirs: "separated r \<Longrightarrow> separated (redirs_text rs @ r)"
  by (cases rs) (auto simp: redirs_text_def separated_def delim_def whitespace_codes)

lemma redir_text_front: "dropWhile ws (redir_text k @ r) = redir_text k @ r" "hd (redir_text k @ r) \<in> {60, 62}"
  by (cases k; simp add: whitespace_codes)+

lemma dropWhile_blank: "dropWhile ws (32 # r) = dropWhile ws r"
  by (simp add: whitespace_codes)

lemma stands_space [simp]: "stands buf es (32 # r) ps = stands buf es r ps"
  by (simp add: stands_def whitespace_codes)

lemma parseredirs_none:
  assumes "line_at buf es" "stands buf es r ps" "follow (- {60, 62}) r"
  obtains ps' where "parseredirs cmd buf ps es = Parsed cmd ps'" "stands buf es r ps'"
proof -
  obtain ps' where p: "peek buf ps es ''<>'' = (False, ps')" and st: "stands buf es r ps'"
    by (rule stands_peek [OF assms(1,2), of "''<>''"]) (use assms(3) in \<open>auto simp: follow_def\<close>)
  show thesis by (rule that [OF _ st], subst parseredirs.simps) (simp add: p)
qed

lemma parseredirs_reads:
  assumes "line_at buf es" "stands buf es (redirs_text rs @ r) ps" "follow (- {60, 62}) r" "separated r"
    "\<forall>(k, f)\<in>set rs. is_word f" "means buf es cmd t"
  obtains cmd' ps' where "parseredirs cmd buf ps es = Parsed cmd' ps'" "means buf es cmd' (redirected t rs)" "stands buf es r ps'"
proof -
  have "\<exists>cmd' ps'. parseredirs cmd buf ps es = Parsed cmd' ps' \<and> means buf es cmd' (redirected t rs) \<and> stands buf es r ps'"
    using assms(2,5,6)
  proof (induction rs arbitrary: cmd t ps)
    case Nil
    then have "stands buf es r ps" by (simp add: redirs_text_def)
    then obtain ps' where "parseredirs cmd buf ps es = Parsed cmd ps'" "stands buf es r ps'"
      using parseredirs_none [OF assms(1) _ assms(3)] by blast
    then show ?case using Nil.prems by simp
  next
    case (Cons x rs)
    obtain k f where x: "x = (k, f)" by (cases x)
    let ?r = "f @ redirs_text rs @ r"
    from Cons.prems have st: "stands buf es (redir_text k @ 32 # ?r) ps" and f: "is_word f" by (auto simp: redirs_text_def x)
    obtain ps1 where 1: "peek buf ps es ''<>'' = (True, ps1)" "stands buf es (redir_text k @ 32 # ?r) ps1"
      by (rule stands_peek [OF assms(1) st, of "''<>''"]) (use redir_text_front [of k] in auto)
    obtain q0 eq0 ps2 where 2: "gettoken buf ps1 es = (redir_tok k, q0, eq0, ps2)" "stands buf es ?r ps2"
      using stands_redir [OF assms(1) 1(2) redir_text_front(1)] .
    obtain q eq ps3 where 3: "gettoken buf ps2 es = (of_char (CHR ''a''), q, eq, ps3)" "holds buf es (q, eq) f"
      "stands buf es (redirs_text rs @ r) ps3"
      using stands_word [OF assms(1) 2(2) f separated_redirs [OF assms(4)]] .
    let ?c = "redircmd cmd q eq (redir_mode k) (redir_fd k)"
    have "parseredirs cmd buf ps es = parseredirs ?c buf ps3 es"
      by (subst parseredirs.simps) (use 1 2 3 in \<open>cases k; simp\<close>)
    moreover have "means buf es ?c (T_redir t k f)" using Cons.prems(3) 3(2) by (simp add: redircmd_def)
    ultimately show ?case using Cons.IH [OF 3(3)] Cons.prems(2) by (simp add: x)
  qed
  then show thesis using that by blast
qed

section \<open>Arguments\<close>

abbreviation exec_follow :: "byte set" where
  "exec_follow \<equiv> {124, 41, 38, 59}"

lemma exec_follow_symbols: "follow exec_follow r \<Longrightarrow> separated r \<and> follow (- {60, 62}) r"
  by (auto intro: follow_separated follow_mono simp: symbols_codes)

lemma words_text_simps [simp]: "words_text [] = []" "words_text (w # args) = 32 # w @ words_text args"
  by (auto simp: words_text_def)

lemma separated_words: "separated r \<Longrightarrow> separated (words_text args @ r)"
  by (cases args) (auto simp: separated_def delim_def whitespace_codes)

lemma follow_word: "is_word w \<Longrightarrow> follow (- {60, 62}) (32 # w @ r)"
  using word_token(1) [of w r] word_token(2) [of w] by (cases w) (auto simp: follow_def is_word_def dropWhile_blank)

lemma parseargs_stops:
  assumes "line_at buf es" "stands buf es r ps" "follow exec_follow r"
  obtains ps' where "parseargs argc cmd buf ps es = Parsed cmd ps'" "stands buf es r ps'"
proof (cases "dropWhile ws r = []")
  case True
  obtain ps1 where 1: "peek buf ps es ''|)&;'' = (False, ps1)" "stands buf es r ps1"
    by (rule stands_peek [OF assms(1,2), of "''|)&;''"]) (use True in auto)
  obtain q eq ps2 where 2: "gettoken buf ps1 es = (0, q, eq, ps2)" "stands buf es r ps2"
    using stands_end [OF assms(1) 1(2) True] .
  show ?thesis by (rule that [OF _ 2(2)], subst parseargs.simps) (use 1 2 in simp)
next
  case False
  obtain ps1 where 1: "peek buf ps es ''|)&;'' = (True, ps1)" "stands buf es r ps1"
    by (rule stands_peek [OF assms(1,2), of "''|)&;''"]) (use False assms(3) in \<open>auto simp: follow_def\<close>)
  show ?thesis by (rule that [OF _ 1(2)], subst parseargs.simps) (use 1 in simp)
qed

lemma parseargs_reads:
  assumes "line_at buf es" "follow exec_follow r" "\<forall>(k, f)\<in>set rs. is_word f"
  shows "stands buf es (words_text args @ redirs_text rs @ r) ps \<Longrightarrow> list_all is_word args \<Longrightarrow> args \<noteq> [] \<Longrightarrow>
    list_all2 (holds buf es) as pre \<Longrightarrow> length pre + length args < 10 \<Longrightarrow>
    \<exists>cmd ps'. parseargs (length pre) (EXEC as) buf ps es = Parsed cmd ps' \<and>
      means buf es cmd (redirected (T_run (pre @ args)) rs) \<and> stands buf es r ps'"
proof (induction args arbitrary: as pre ps)
  case (Cons w args)
  let ?r = "words_text args @ redirs_text rs @ r"
  have w: "is_word w" and st: "stands buf es (w @ ?r) ps" using Cons.prems(1,2) by auto
  have sep: "separated ?r" using separated_words separated_redirs exec_follow_symbols [OF assms(2)] by blast
  obtain ps1 where 1: "peek buf ps es ''|)&;'' = (False, ps1)" "stands buf es (w @ ?r) ps1"
    by (rule stands_peek [OF assms(1) st, of "''|)&;''"]) (use word_token [OF w] w in \<open>auto simp: is_word_def\<close>)
  obtain q eq ps2 where 2: "gettoken buf ps1 es = (of_char (CHR ''a''), q, eq, ps2)" "holds buf es (q, eq) w" "stands buf es ?r ps2"
    using stands_word [OF assms(1) 1(2) w sep] .
  let ?as = "as @ [(q, eq)]" and ?pre = "pre @ [w]"
  have as: "list_all2 (holds buf es) ?as ?pre" using Cons.prems(4) 2(2) by (simp add: list_all2_appendI)
  have step: "parseargs (length pre) (EXEC as) buf ps es =
      pthen (parseredirs (EXEC ?as) buf ps2 es) (\<lambda>cmd ps. parseargs (length ?pre) cmd buf ps es)"
    using Cons.prems(5) by (subst parseargs.simps) (simp add: 1 2)
  show ?case
  proof (cases "args = []")
    case True
    then obtain cmd ps3 where "parseredirs (EXEC ?as) buf ps2 es = Parsed cmd ps3" "means buf es cmd (redirected (T_run ?pre) rs)"
      and 3: "stands buf es r ps3"
      using parseredirs_reads [OF assms(1) _ _ _ assms(3), of r ps2 "EXEC ?as" "T_run ?pre"] 2(3) as exec_follow_symbols [OF assms(2)] by auto
    moreover obtain ps4 where "parseargs (length ?pre) cmd buf ps3 es = Parsed cmd ps4" "stands buf es r ps4"
      using parseargs_stops [OF assms(1) 3 assms(2)] .
    ultimately show ?thesis using step True by auto
  next
    case False
    then have "follow (- {60, 62}) ?r" using Cons.prems(2) by (cases args) (auto simp: follow_word)
    then obtain ps3 where "parseredirs (EXEC ?as) buf ps2 es = Parsed (EXEC ?as) ps3" "stands buf es ?r ps3"
      using parseredirs_none [OF assms(1) 2(3)] by blast
    then show ?thesis using Cons.IH [of ps3 ?as ?pre] as Cons.prems False step by auto
  qed
qed simp

section \<open>The levels of the grammar\<close>

text \<open>
  With at least \<open>N\<close> fuel the parser \<open>P\<close> reads the text as the tree wherever it stands, up to what may follow.
\<close>

definition reads_from :: "nat \<Rightarrow> (nat \<Rightarrow> byte list \<Rightarrow> nat \<Rightarrow> nat \<Rightarrow> cmd parsed) \<Rightarrow> byte set \<Rightarrow> byte list \<Rightarrow> tree \<Rightarrow> bool" where
  "reads_from N P S txt t \<longleftrightarrow> (\<forall>fuel\<ge>N. \<forall>buf es ps r. line_at buf es \<longrightarrow> follow S r \<longrightarrow> stands buf es (txt @ r) ps \<longrightarrow>
     (\<exists>c ps'. P fuel buf ps es = Parsed c ps' \<and> means buf es c t \<and> stands buf es r ps'))"

definition reads :: "(nat \<Rightarrow> byte list \<Rightarrow> nat \<Rightarrow> nat \<Rightarrow> cmd parsed) \<Rightarrow> byte set \<Rightarrow> byte list \<Rightarrow> tree \<Rightarrow> bool" where
  "reads P S txt t \<longleftrightarrow> (\<exists>N. reads_from N P S txt t)"

lemma readsI:
  assumes "\<And>fuel buf es ps r. N \<le> fuel \<Longrightarrow> line_at buf es \<Longrightarrow> follow S r \<Longrightarrow> stands buf es (txt @ r) ps \<Longrightarrow>
    \<exists>c ps'. P fuel buf ps es = Parsed c ps' \<and> means buf es c t \<and> stands buf es r ps'"
  shows "reads P S txt t"
  unfolding reads_def reads_from_def using assms by blast

lemma reads_fromD:
  assumes "reads_from N P S txt t" "N \<le> fuel" "line_at buf es" "follow S r" "stands buf es (txt @ r) ps"
  shows "\<exists>c ps'. P fuel buf ps es = Parsed c ps' \<and> means buf es c t \<and> stands buf es r ps'"
  using assms unfolding reads_from_def by blast

lemma Suc_fuel: "Suc N \<le> fuel \<Longrightarrow> \<exists>k. fuel = Suc k \<and> N \<le> k"
  by (cases fuel) auto

text \<open>A symbol ahead: \<open>peek\<close> finds it and \<open>gettoken\<close> takes it.\<close>

lemma take_symbol:
  assumes "line_at buf es" "stands buf es (c # r) ps" "c \<in> set (map of_char ''|();&<'')" "c \<in> of_char ` set toks"
  obtains ps1 tok q eq ps2 where "peek buf ps es toks = (True, ps1)" "gettoken buf ps1 es = (tok, q, eq, ps2)" "stands buf es r ps2"
proof -
  have n: "\<not> ws c" using assms(3) by (auto simp: whitespace_codes)
  then have d: "dropWhile ws (c # r) = c # r" by simp
  obtain ps1 where 1: "peek buf ps es toks = (True, ps1)" "stands buf es (c # r) ps1"
    by (rule stands_peek [OF assms(1,2), of toks]) (use assms(4) n in simp)
  obtain q eq ps2 where "gettoken buf ps1 es = (c, q, eq, ps2)" "stands buf es r ps2"
    using stands_symbol [OF assms(1) 1(2) d assms(3)] .
  with 1(1) show thesis using that by blast
qed

lemma peek_not:
  assumes "line_at buf es" "stands buf es r ps" "follow (- of_char ` set toks) r"
  obtains ps' where "peek buf ps es toks = (False, ps')" "stands buf es r ps'"
  by (rule stands_peek [OF assms(1,2), of toks]) (use assms(3) that in \<open>auto simp: follow_def\<close>)

lemma follow_symbol [simp]: "c \<in> set symbols \<Longrightarrow> follow S (c # r) \<longleftrightarrow> c \<in> S"
  by (auto simp: follow_def symbols_codes whitespace_codes)

lemma reads_run:
  assumes "list_all is_word args" "length args < 10" "\<forall>(k, f)\<in>set rs. is_word f"
  shows "reads parseexec exec_follow (words_text args @ redirs_text rs) (redirected (T_run args) rs)"
proof (rule readsI [where N = 1])
  fix fuel buf es ps r
  assume a: "(1 :: nat) \<le> fuel" "line_at buf es" "follow exec_follow r" "stands buf es ((words_text args @ redirs_text rs) @ r) ps"
  then obtain k where k: "fuel = Suc k" by (cases fuel) auto
  note fr = exec_follow_symbols [OF a(3)]
  have "follow (- of_char ` set ''('') (words_text args @ redirs_text rs @ r)"
  proof (cases "words_text args @ redirs_text rs = []")
    case False
    show ?thesis
    proof (cases args)
      case (Cons w args')
      then show ?thesis using assms(1) word_token(1) [of w "words_text args' @ redirs_text rs @ r"] word_token(2) [of w]
        by (cases w) (auto simp: follow_def dropWhile_blank is_word_def)
    next
      case Nil
      with False obtain x f rs' where "rs = (x, f) # rs'" by (cases rs) (auto simp: redirs_text_def)
      then show ?thesis using Nil by (cases x) (auto simp: follow_def redirs_text_def whitespace_codes)
    qed
  qed (use a(3) in \<open>auto simp: follow_def\<close>)
  then obtain ps1 where 1: "peek buf ps es ''('' = (False, ps1)" "stands buf es (words_text args @ redirs_text rs @ r) ps1"
    using peek_not [OF a(2)] a(4) by (metis append.assoc)
  show "\<exists>c ps'. parseexec fuel buf ps es = Parsed c ps' \<and> means buf es c (redirected (T_run args) rs) \<and> stands buf es r ps'"
  proof (cases "args = []")
    case True
    with 1(2) have "stands buf es (redirs_text rs @ r) ps1" by simp
    then obtain c ps2 where 2: "parseredirs execcmd buf ps1 es = Parsed c ps2" "means buf es c (redirected (T_run []) rs)" "stands buf es r ps2"
      using parseredirs_reads [OF a(2) _ _ _ assms(3), of r ps1 execcmd "T_run []"] fr by (auto simp: execcmd_def)
    obtain ps3 where "parseargs 0 c buf ps2 es = Parsed c ps3" "stands buf es r ps3" using parseargs_stops [OF a(2) 2(3) a(3)] .
    then show ?thesis using 1(1) 2(1,2) True by (simp add: k)
  next
    case False
    then have "follow (- {60, 62}) (words_text args @ redirs_text rs @ r)" using assms(1) by (cases args) (auto simp: follow_word)
    then obtain ps2 where 2: "parseredirs execcmd buf ps1 es = Parsed execcmd ps2" "stands buf es (words_text args @ redirs_text rs @ r) ps2"
      using parseredirs_none [OF a(2) 1(2)] by blast
    then show ?thesis
      using parseargs_reads [OF a(2,3) assms(3) 2(2) assms(1) False, of "[]" "[]"] assms(2) 1(1) by (auto simp: k execcmd_def)
  qed
qed

lemma reads_block:
  assumes "reads parseline {41} x t" "\<forall>(k, f)\<in>set rs. is_word f"
  shows "reads parseexec exec_follow ((40 # x @ [41]) @ redirs_text rs) (redirected t rs)"
proof -
  obtain N where N: "reads_from N parseline {41} x t" using assms(1) by (auto simp: reads_def)
  show ?thesis
  proof (rule readsI [where N = "N + 2"])
    fix fuel buf es ps r
    assume a: "N + 2 \<le> fuel" "line_at buf es" "follow exec_follow r" "stands buf es (((40 # x @ [41]) @ redirs_text rs) @ r) ps"
    then obtain k where k: "fuel = Suc (Suc k)" "N \<le> k" by (metis Suc_fuel add_2_eq_Suc')
    let ?r = "redirs_text rs @ r"
    have s0: "stands buf es (40 # x @ 41 # ?r) ps" using a(4) by simp
    obtain ps0 where 0: "peek buf ps es ''('' = (True, ps0)" "stands buf es (40 # x @ 41 # ?r) ps0"
      by (rule stands_peek [OF a(2) s0, of "''(''"]) (auto simp: whitespace_codes)
    obtain ps1 tok q eq ps2 where 1: "peek buf ps0 es ''('' = (True, ps1)" "gettoken buf ps1 es = (tok, q, eq, ps2)" "stands buf es (x @ 41 # ?r) ps2"
      by (rule take_symbol [OF a(2) 0(2), of "''(''"]) simp_all
    obtain c ps3 where 2: "parseline k buf ps2 es = Parsed c ps3" "means buf es c t" "stands buf es (41 # ?r) ps3"
      using reads_fromD [OF N k(2) a(2) _ 1(3)] by (auto simp: symbols_codes)
    obtain ps4 tok' q' eq' ps5 where 3: "peek buf ps3 es '')'' = (True, ps4)" "gettoken buf ps4 es = (tok', q', eq', ps5)" "stands buf es ?r ps5"
      by (rule take_symbol [OF a(2) 2(3), of "'')''"]) simp_all
    obtain d ps6 where "parseredirs c buf ps5 es = Parsed d ps6" "means buf es d (redirected t rs)" "stands buf es r ps6"
      using parseredirs_reads [OF a(2) 3(3) _ _ assms(2) 2(2)] exec_follow_symbols [OF a(3)] by blast
    then show "\<exists>c ps'. parseexec fuel buf ps es = Parsed c ps' \<and> means buf es c (redirected t rs) \<and> stands buf es r ps'"
      using 0(1) 1(1,2) 2(1) 3(1,2) by (simp add: k(1))
  qed
qed

lemma reads_pipe_end:
  assumes "reads parseexec exec_follow x t"
  shows "reads parsepipe {41, 38, 59} x t"
proof -
  obtain N where N: "reads_from N parseexec exec_follow x t" using assms by (auto simp: reads_def)
  show ?thesis
  proof (rule readsI [where N = "Suc N"])
    fix fuel buf es ps r
    assume a: "Suc N \<le> fuel" "line_at buf es" "follow {41, 38, 59} r" "stands buf es (x @ r) ps"
    then obtain k where k: "fuel = Suc k" "N \<le> k" using Suc_fuel by blast
    obtain c ps1 where 1: "parseexec k buf ps es = Parsed c ps1" "means buf es c t" "stands buf es r ps1"
      using reads_fromD [OF N k(2) a(2) follow_mono [OF a(3)] a(4)] by auto
    obtain ps2 where "peek buf ps1 es ''|'' = (False, ps2)" "stands buf es r ps2"
      using peek_not [OF a(2) 1(3) follow_mono [OF a(3)], of "''|''"] by auto
    then show "\<exists>c ps'. parsepipe fuel buf ps es = Parsed c ps' \<and> means buf es c t \<and> stands buf es r ps'"
      using 1 by (simp add: k(1))
  qed
qed

lemma reads_pipe:
  assumes "reads parseexec exec_follow x a" "reads parsepipe {41, 38, 59} y b"
  shows "reads parsepipe {41, 38, 59} (x @ 124 # y) (T_pipe a b)"
proof -
  obtain N where N: "reads_from N parseexec exec_follow x a" using assms(1) by (auto simp: reads_def)
  obtain M where M: "reads_from M parsepipe {41, 38, 59} y b" using assms(2) by (auto simp: reads_def)
  show ?thesis
  proof (rule readsI [where N = "Suc (N + M)"])
    fix fuel buf es ps r
    assume a: "Suc (N + M) \<le> fuel" "line_at buf es" "follow {41, 38, 59} r" "stands buf es ((x @ 124 # y) @ r) ps"
    then obtain k where k: "fuel = Suc k" "N \<le> k" "M \<le> k" using Suc_fuel [OF a(1)] by auto
    have s: "stands buf es (x @ 124 # y @ r) ps" using a(4) by simp
    obtain c ps1 where 1: "parseexec k buf ps es = Parsed c ps1" "means buf es c a" "stands buf es (124 # y @ r) ps1"
      using reads_fromD [OF N k(2) a(2) _ s] by (auto simp: symbols_codes)
    obtain ps2 tok q eq ps3 where 2: "peek buf ps1 es ''|'' = (True, ps2)" "gettoken buf ps2 es = (tok, q, eq, ps3)" "stands buf es (y @ r) ps3"
      by (rule take_symbol [OF a(2) 1(3), of "''|''"]) simp_all
    obtain d ps4 where "parsepipe k buf ps3 es = Parsed d ps4" "means buf es d b" "stands buf es r ps4"
      using reads_fromD [OF M k(3) a(2,3) 2(3)] by blast
    then show "\<exists>c ps'. parsepipe fuel buf ps es = Parsed c ps' \<and> means buf es c (T_pipe a b) \<and> stands buf es r ps'"
      using 1(1,2) 2(1,2) by (simp add: k(1) pipecmd_def)
  qed
qed

text \<open>The first part of \<open>parseline\<close>, a pipeline and its ampersands.\<close>

definition parse_backs :: "nat \<Rightarrow> byte list \<Rightarrow> nat \<Rightarrow> nat \<Rightarrow> cmd parsed" where
  "parse_backs fuel buf ps es =
     pthen (parsepipe fuel buf ps es) (\<lambda>cmd ps. case parseback cmd buf ps es of (cmd, ps) \<Rightarrow> Parsed cmd ps)"

lemma parseline_backs:
  "parseline (Suc fuel) buf ps es =
     pthen (parse_backs fuel buf ps es) (\<lambda>cmd ps.
     case peek buf ps es '';'' of (found, ps) \<Rightarrow>
     if \<not> found then Parsed cmd ps else
     case gettoken buf ps es of (_, _, _, ps) \<Rightarrow>
     pthen (parseline fuel buf ps es) (\<lambda>right ps. Parsed (listcmd cmd right) ps))"
  by (cases "parsepipe fuel buf ps es") (auto simp: parse_backs_def split: prod.splits)

lemma parseback_reads:
  assumes "line_at buf es" "follow {41, 59} r"
  shows "stands buf es (replicate n 38 @ r) ps \<Longrightarrow> means buf es c t \<Longrightarrow>
    \<exists>d ps'. parseback c buf ps es = (d, ps') \<and> means buf es d ((T_back ^^ n) t) \<and> stands buf es r ps'"
proof (induction n arbitrary: c t ps)
  case 0
  then have s: "stands buf es r ps" by simp
  obtain ps' where "peek buf ps es ''&'' = (False, ps')" "stands buf es r ps'"
    by (rule peek_not [OF assms(1) s follow_mono [OF assms(2)]]) auto
  then show ?case using 0 by (subst parseback.simps) simp
next
  case (Suc n)
  then have s: "stands buf es (38 # replicate n 38 @ r) ps" by simp
  obtain ps1 tok q eq ps2 where 1: "peek buf ps es ''&'' = (True, ps1)" "gettoken buf ps1 es = (tok, q, eq, ps2)" "stands buf es (replicate n 38 @ r) ps2"
    by (rule take_symbol [OF assms(1) s, of "''&''"]) simp_all
  have "parseback c buf ps es = parseback (backcmd c) buf ps2 es" by (subst parseback.simps) (simp add: 1)
  then show ?case using Suc.IH [OF 1(3), of "backcmd c" "T_back t"] Suc.prems(2) by (simp add: backcmd_def funpow_swap1)
qed

lemma reads_backs:
  assumes "reads parsepipe {41, 38, 59} x t"
  shows "reads parse_backs {41, 59} (x @ replicate n 38) ((T_back ^^ n) t)"
proof -
  obtain N where N: "reads_from N parsepipe {41, 38, 59} x t" using assms by (auto simp: reads_def)
  show ?thesis
  proof (rule readsI [where N = N])
    fix fuel buf es ps r
    assume a: "N \<le> fuel" "line_at buf es" "follow {41, 59} r" "stands buf es ((x @ replicate n 38) @ r) ps"
    have "follow {41, 38, 59} (replicate n 38 @ r)" using a(3) by (cases n) (auto simp: symbols_codes intro: follow_mono)
    then obtain c ps1 where 1: "parsepipe fuel buf ps es = Parsed c ps1" "means buf es c t" "stands buf es (replicate n 38 @ r) ps1"
      using reads_fromD [OF N a(1,2)] a(4) by (metis append.assoc)
    then show "\<exists>c ps'. parse_backs fuel buf ps es = Parsed c ps' \<and> means buf es c ((T_back ^^ n) t) \<and> stands buf es r ps'"
      using parseback_reads [OF a(2,3) 1(3,2)] by (auto simp: parse_backs_def)
  qed
qed

lemma reads_line_end:
  assumes "reads parse_backs {41, 59} x t"
  shows "reads parseline {41} x t"
proof -
  obtain N where N: "reads_from N parse_backs {41, 59} x t" using assms by (auto simp: reads_def)
  show ?thesis
  proof (rule readsI [where N = "Suc N"])
    fix fuel buf es ps r
    assume a: "Suc N \<le> fuel" "line_at buf es" "follow {41} r" "stands buf es (x @ r) ps"
    then obtain k where k: "fuel = Suc k" "N \<le> k" using Suc_fuel by blast
    obtain c ps1 where 1: "parse_backs k buf ps es = Parsed c ps1" "means buf es c t" "stands buf es r ps1"
      using reads_fromD [OF N k(2) a(2) follow_mono [OF a(3)] a(4)] by auto
    obtain ps2 where "peek buf ps1 es '';'' = (False, ps2)" "stands buf es r ps2"
      using peek_not [OF a(2) 1(3) follow_mono [OF a(3)], of "'';''"] by auto
    then show "\<exists>c ps'. parseline fuel buf ps es = Parsed c ps' \<and> means buf es c t \<and> stands buf es r ps'"
      using 1 by (simp add: k(1) parseline_backs del: parseline.simps)
  qed
qed

lemma reads_seq:
  assumes "reads parse_backs {41, 59} x a" "reads parseline {41} y b"
  shows "reads parseline {41} (x @ 59 # y) (T_seq a b)"
proof -
  obtain N where N: "reads_from N parse_backs {41, 59} x a" using assms(1) by (auto simp: reads_def)
  obtain M where M: "reads_from M parseline {41} y b" using assms(2) by (auto simp: reads_def)
  show ?thesis
  proof (rule readsI [where N = "Suc (N + M)"])
    fix fuel buf es ps r
    assume a: "Suc (N + M) \<le> fuel" "line_at buf es" "follow {41} r" "stands buf es ((x @ 59 # y) @ r) ps"
    then obtain k where k: "fuel = Suc k" "N \<le> k" "M \<le> k" using Suc_fuel [OF a(1)] by auto
    have s: "stands buf es (x @ 59 # y @ r) ps" using a(4) by simp
    obtain c ps1 where 1: "parse_backs k buf ps es = Parsed c ps1" "means buf es c a" "stands buf es (59 # y @ r) ps1"
      using reads_fromD [OF N k(2) a(2) _ s] by (auto simp: symbols_codes)
    obtain ps2 tok q eq ps3 where 2: "peek buf ps1 es '';'' = (True, ps2)" "gettoken buf ps2 es = (tok, q, eq, ps3)" "stands buf es (y @ r) ps3"
      by (rule take_symbol [OF a(2) 1(3), of "'';''"]) simp_all
    obtain d ps4 where "parseline k buf ps3 es = Parsed d ps4" "means buf es d b" "stands buf es r ps4"
      using reads_fromD [OF M k(3) a(2,3) 2(3)] by blast
    then show "\<exists>c ps'. parseline fuel buf ps es = Parsed c ps' \<and> means buf es c (T_seq a b) \<and> stands buf es r ps'"
      using 1(1,2) 2(1,2) by (simp add: k(1) parseline_backs listcmd_def del: parseline.simps)
  qed
qed

text \<open>All levels for a tree, with redirections or ampersands behind it.\<close>

definition tree_reads :: "tree \<Rightarrow> bool" where
  "tree_reads t \<longleftrightarrow>
     (\<forall>rs. (\<forall>(k, f)\<in>set rs. is_word f) \<longrightarrow> reads parseexec exec_follow (render 0 t @ redirs_text rs) (redirected t rs)) \<and>
     reads parsepipe {41, 38, 59} (render 1 t) t \<and>
     (\<forall>n. reads parse_backs {41, 59} (render 2 t @ replicate n 38) ((T_back ^^ n) t)) \<and>
     reads parseline {41} (render 3 t) t"

lemma redirs_text_Nil [simp]: "redirs_text [] = []"
  by (simp add: redirs_text_def)

lemma tree_reads_exec:
  assumes "\<And>rs. \<forall>(k, f)\<in>set rs. is_word f \<Longrightarrow> reads parseexec exec_follow (x @ redirs_text rs) (redirected t rs)"
    "\<And>lv. render lv t = x"
  shows "tree_reads t"
proof -
  have "reads parseexec exec_follow x t" using assms(1) [of "[]"] by simp
  then have p: "reads parsepipe {41, 38, 59} x t" by (rule reads_pipe_end)
  from reads_backs [OF p, of 0] have "reads parseline {41} x t" by (simp add: reads_line_end)
  with p assms reads_backs [OF p] show ?thesis by (simp add: tree_reads_def)
qed

lemma tree_readsD:
  assumes "tree_reads t"
  shows "\<forall>(k, f)\<in>set rs. is_word f \<Longrightarrow> reads parseexec exec_follow (render 0 t @ redirs_text rs) (redirected t rs)"
    and "reads parseexec exec_follow (render 0 t) t"
    and "reads parsepipe {41, 38, 59} (render 1 t) t"
    and "reads parse_backs {41, 59} (render 2 t @ replicate n 38) ((T_back ^^ n) t)"
    and "reads parse_backs {41, 59} (render 2 t) t"
    and "reads parseline {41} (render 3 t) t"
proof -
  show *: "\<forall>(k, f)\<in>set rs. is_word f \<Longrightarrow> reads parseexec exec_follow (render 0 t @ redirs_text rs) (redirected t rs)" for rs
    using assms unfolding tree_reads_def by blast
  show **: "reads parse_backs {41, 59} (render 2 t @ replicate n 38) ((T_back ^^ n) t)" for n
    using assms unfolding tree_reads_def by blast
  show "reads parseexec exec_follow (render 0 t) t" "reads parse_backs {41, 59} (render 2 t) t" using * [of "[]"] ** [of 0] by auto
qed (use assms in \<open>auto simp: tree_reads_def\<close>)

text \<open>A tree that needs parentheses as a command.\<close>

lemma tree_reads_paren:
  assumes "reads parseline {41} x t" "render 3 t = x" "render 0 t = 40 # x @ [41]"
    "render 1 t = 40 # x @ [41] \<or> reads parsepipe {41, 38, 59} (render 1 t) t"
    "render 2 t = render 1 t \<or> (\<forall>n. reads parse_backs {41, 59} (render 2 t @ replicate n 38) ((T_back ^^ n) t))"
  shows "tree_reads t"
proof -
  have e: "\<forall>(k, f)\<in>set rs. is_word f \<Longrightarrow> reads parseexec exec_follow (render 0 t @ redirs_text rs) (redirected t rs)" for rs
    using reads_block [OF assms(1)] assms(3) by simp
  then have "reads parseexec exec_follow (render 0 t) t" using e [of "[]"] by simp
  then have p: "reads parsepipe {41, 38, 59} (render 1 t) t" using assms(3,4) reads_pipe_end by auto
  then have "reads parse_backs {41, 59} (render 2 t @ replicate n 38) ((T_back ^^ n) t)" for n using assms(5) reads_backs [OF p] by metis
  with e p assms(1,2) show ?thesis by (simp add: tree_reads_def)
qed

lemma wf_tree_reads: "wf_tree t \<Longrightarrow> tree_reads t"
proof (induction t)
  case (T_run args)
  then show ?case by (intro tree_reads_exec [where x = "words_text args"] reads_run) auto
next
  case (T_redir t k f)
  then have t: "tree_reads t" "is_word f" by auto
  have "reads parseexec exec_follow ((render 0 t @ 32 # redir_text k @ 32 # f) @ redirs_text rs) (redirected (T_redir t k f) rs)"
    if "\<forall>(k, f)\<in>set rs. is_word f" for rs
    using tree_readsD(1) [OF t(1), of "(k, f) # rs"] t(2) that by (auto simp: redirs_text_def)
  then show ?case by (intro tree_reads_exec) auto
next
  case (T_pipe a b)
  then have t: "tree_reads a" "tree_reads b" by auto
  have p: "reads parsepipe {41, 38, 59} (render 0 a @ 124 # render 1 b) (T_pipe a b)"
    by (rule reads_pipe [OF tree_readsD(2) [OF t(1)] tree_readsD(3) [OF t(2)]])
  have "reads parseline {41} (render 0 a @ 124 # render 1 b) (T_pipe a b)"
    using reads_line_end reads_backs [OF p, of 0] by simp
  then show ?case by (rule tree_reads_paren) (use p in \<open>auto simp: paren_def\<close>)
next
  case (T_seq a b)
  then have t: "tree_reads a" "tree_reads b" by auto
  show ?case
    by (rule tree_reads_paren [OF reads_seq [OF tree_readsD(5) [OF t(1)] tree_readsD(6) [OF t(2)]]]) (auto simp: paren_def)
next
  case (T_back a)
  then have t: "tree_reads a" by auto
  have b: "reads parse_backs {41, 59} ((render 2 a @ [38]) @ replicate n 38) ((T_back ^^ n) (T_back a))" for n
    using tree_readsD(4) [OF t, of "Suc n"] by (simp add: funpow_swap1)
  have "reads parseline {41} (render 2 a @ [38]) (T_back a)" using reads_line_end b [of 0] by simp
  then show ?case by (rule tree_reads_paren) (use b in \<open>auto simp: paren_def\<close>)
qed

section \<open>The parser ends\<close>

text \<open>More fuel does not change a result.\<close>

definition upto_fuel :: "'a parsed \<Rightarrow> 'a parsed \<Rightarrow> bool" where
  "upto_fuel m m' \<longleftrightarrow> m = Nofuel \<or> m' = m"

lemma upto_fuel_intros:
  "upto_fuel m m"
  "upto_fuel m m' \<Longrightarrow> (\<And>x p. upto_fuel (f x p) (f' x p)) \<Longrightarrow> upto_fuel (pthen m f) (pthen m' f')"
  "(\<And>a b. upto_fuel (g a b) (g' a b)) \<Longrightarrow> upto_fuel (case y of (a, b) \<Rightarrow> g a b) (case y of (a, b) \<Rightarrow> g' a b)"
  "upto_fuel m m' \<Longrightarrow> upto_fuel n n' \<Longrightarrow> upto_fuel (if c then m else n) (if c then m' else n')"
  by (cases m; auto simp: upto_fuel_def split: prod.splits)+

lemma parse_fuel:
  "fuel \<le> fuel' \<Longrightarrow> upto_fuel (parseline fuel buf ps es) (parseline fuel' buf ps es)"
  "fuel \<le> fuel' \<Longrightarrow> upto_fuel (parsepipe fuel buf ps es) (parsepipe fuel' buf ps es)"
  "fuel \<le> fuel' \<Longrightarrow> upto_fuel (parseblock fuel buf ps es) (parseblock fuel' buf ps es)"
  "fuel \<le> fuel' \<Longrightarrow> upto_fuel (parseexec fuel buf ps es) (parseexec fuel' buf ps es)"
proof (induction fuel arbitrary: fuel' ps)
  case (Suc fuel)
  {
    case 1
    then obtain k where k: "fuel' = Suc k" "fuel \<le> k" using Suc_fuel by blast
    show ?case unfolding k parseline.simps by (intro upto_fuel_intros Suc.IH k(2))
  next
    case 2
    then obtain k where k: "fuel' = Suc k" "fuel \<le> k" using Suc_fuel by blast
    show ?case unfolding k parsepipe.simps by (intro upto_fuel_intros Suc.IH k(2))
  next
    case 3
    then obtain k where k: "fuel' = Suc k" "fuel \<le> k" using Suc_fuel by blast
    show ?case unfolding k parseblock.simps by (intro upto_fuel_intros Suc.IH k(2))
  next
    case 4
    then obtain k where k: "fuel' = Suc k" "fuel \<le> k" using Suc_fuel by blast
    show ?case unfolding k parseexec.simps by (intro upto_fuel_intros Suc.IH k(2))
  }
qed (auto simp: upto_fuel_def)

text \<open>A parser that answers moves the position forward within the line.\<close>

definition within :: "nat \<Rightarrow> nat \<Rightarrow> 'a parsed \<Rightarrow> bool" where
  "within ps es m \<longleftrightarrow> (case m of Parsed _ ps' \<Rightarrow> ps \<le> ps' \<and> ps' \<le> es | Bad _ \<Rightarrow> True | Nofuel \<Rightarrow> False)"

lemma within_simps [simp]: "within ps es (Parsed x ps') \<longleftrightarrow> ps \<le> ps' \<and> ps' \<le> es" "within ps es (Bad e)" "\<not> within ps es Nofuel"
  by (auto simp: within_def)

lemma within_mono: "within ps' es m \<Longrightarrow> ps \<le> ps' \<Longrightarrow> within ps es m"
  by (cases m) auto

lemma within_pthen:
  "within ps es m \<Longrightarrow> (\<And>x p. ps \<le> p \<Longrightarrow> p \<le> es \<Longrightarrow> within p es (f x p)) \<Longrightarrow> within ps es (pthen m f)"
  by (cases m) (auto intro: within_mono)

lemma skip_word_le: "s \<le> es \<Longrightarrow> skip_word buf s es \<le> es"
  by (induction buf s es rule: skip_word.induct) (subst skip_word.simps; auto)

lemma char_before_end: "line_at buf es \<Longrightarrow> s \<le> es \<Longrightarrow> char_at buf s \<noteq> 0 \<Longrightarrow> s < es"
  by (cases "s = es") (auto simp: line_at_def char_at_def)

lemma gettoken_within:
  assumes "line_at buf es" "ps \<le> es" "gettoken buf ps es = (tok, q, eq, ps')"
  shows "ps \<le> ps' \<and> ps' \<le> es"
proof -
  let ?s = "skip_ws buf ps es"
  have s: "?s \<le> es" using skip_ws_le assms(2) by auto
  have "char_at buf ?s \<noteq> 0 \<Longrightarrow> ?s + 1 \<le> es" "char_at buf ?s \<noteq> 0 \<Longrightarrow> char_at buf (?s + 1) \<noteq> 0 \<Longrightarrow> ?s + 2 \<le> es"
    using char_before_end [OF assms(1) s] char_before_end [OF assms(1), of "?s + 1"] by auto
  then have "eq \<le> es" using assms(3) s skip_word_le [OF s] by (auto simp: gettoken_def Let_def split: if_splits)
  moreover have "ps' = skip_ws buf eq es" using assms(3) by (auto simp: gettoken_def Let_def split: prod.splits)
  ultimately show ?thesis using skip_ws_le gettoken_ge [OF assms(3)] by auto
qed

lemma peek_within:
  assumes "line_at buf es" "ps \<le> es" "peek buf ps es toks = (found, ps')"
  shows "ps \<le> ps' \<and> ps' \<le> es \<and> (found \<longrightarrow> ps' < es)"
proof -
  have p: "ps' = skip_ws buf ps es" "found \<Longrightarrow> char_at buf ps' \<noteq> 0" using assms(3) by (auto simp: peek_def Let_def)
  have le: "ps' \<le> es" using p(1) skip_ws_le [OF assms(2)] by simp
  then show ?thesis using p skip_ws_ge char_before_end [OF assms(1) le] by auto
qed

text \<open>A symbol that \<open>peek\<close> found, and the token taken.\<close>

lemma symbol_within:
  assumes "line_at buf es" "ps \<le> es" "peek buf ps es toks = (True, ps1)" "set toks \<subseteq> set ''<|>&;()''" "gettoken buf ps1 es = (tok, q, eq, ps2)"
  shows "ps < ps2 \<and> ps2 \<le> es"
  using peek_within [OF assms(1-3)] peek_then_gettoken [OF assms(3-5)] gettoken_within [OF assms(1) _ assms(5)] by auto

lemma parseredirs_within: "line_at buf es \<Longrightarrow> ps \<le> es \<Longrightarrow> within ps es (parseredirs cmd buf ps es)"
proof (induction "es - ps" arbitrary: cmd ps rule: less_induct)
  case less
  obtain found ps1 where p: "peek buf ps es ''<>'' = (found, ps1)" by fastforce
  obtain tok q eq ps2 where t: "gettoken buf ps1 es = (tok, q, eq, ps2)" by (metis prod_cases4)
  obtain tok' q' eq' ps3 where t': "gettoken buf ps2 es = (tok', q', eq', ps3)" by (metis prod_cases4)
  show ?case
  proof (cases found)
    case True
    then have "ps < ps2" "ps2 \<le> es" using symbol_within [OF less.prems _ _ t] p by auto
    then have b: "ps < ps3" "ps3 \<le> es" using gettoken_within [OF less.prems(1) _ t'] by auto
    have "within ps es (parseredirs c buf ps3 es)" for c
      by (rule within_mono [of ps3]) (use less.hyps [of ps3 c] b less.prems(1) in auto)
    then show ?thesis using True p t t' by (subst parseredirs.simps) simp
  next
    case False
    then show ?thesis using p peek_within [OF less.prems p] by (subst parseredirs.simps) auto
  qed
qed

lemma parseargs_within: "line_at buf es \<Longrightarrow> ps \<le> es \<Longrightarrow> within ps es (parseargs argc cmd buf ps es)"
proof (induction "10 - argc" arbitrary: argc cmd ps rule: less_induct)
  case less
  obtain found ps1 where p: "peek buf ps es ''|)&;'' = (found, ps1)" by fastforce
  obtain tok q eq ps2 where t: "gettoken buf ps1 es = (tok, q, eq, ps2)" by (metis prod_cases4)
  have b: "ps \<le> ps1" "ps1 \<le> es" "ps1 \<le> ps2" "ps2 \<le> es"
    using peek_within [OF less.prems p] gettoken_within [OF less.prems(1) _ t] by auto
  have "within ps2 es (pthen (parseredirs c buf ps2 es) (\<lambda>cmd ps. parseargs (argc + 1) cmd buf ps es))" if "argc + 1 < 10" for c
    by (rule within_pthen [OF parseredirs_within [OF less.prems(1) b(4)]]) (use less.hyps less.prems(1) that in auto)
  then have "within ps es (pthen (parseredirs c buf ps2 es) (\<lambda>cmd ps. parseargs (argc + 1) cmd buf ps es))" if "argc + 1 < 10" for c
    by (rule within_mono) (use b that in auto)
  then show ?case using p t b by (subst parseargs.simps) auto
qed

lemma parseback_within: "line_at buf es \<Longrightarrow> ps \<le> es \<Longrightarrow> ps \<le> snd (parseback cmd buf ps es) \<and> snd (parseback cmd buf ps es) \<le> es"
proof (induction "es - ps" arbitrary: cmd ps rule: less_induct)
  case less
  obtain found ps1 where p: "peek buf ps es ''&'' = (found, ps1)" by fastforce
  obtain tok q eq ps2 where t: "gettoken buf ps1 es = (tok, q, eq, ps2)" by (metis prod_cases4)
  show ?case
  proof (cases found)
    case True
    then have "ps < ps2" "ps2 \<le> es" using symbol_within [OF less.prems _ _ t] p by auto
    moreover from this have "es - ps2 < es - ps" by (simp add: diff_less_mono2)
    ultimately have "ps \<le> snd (parseback (backcmd cmd) buf ps2 es) \<and> snd (parseback (backcmd cmd) buf ps2 es) \<le> es"
      using less.hyps [of ps2 "backcmd cmd"] less.prems(1) by auto
    then show ?thesis using True p t by (subst (1 2) parseback.simps) auto
  next
    case False
    then show ?thesis using p peek_within [OF less.prems p] by (subst (1 2) parseback.simps) auto
  qed
qed

lemma after_symbol:
  assumes "line_at buf es" "p \<le> es" "set toks \<subseteq> set ''<|>&;()''"
    and "\<And>q. p \<le> q \<Longrightarrow> q \<le> es \<Longrightarrow> within p es (h q)" "\<And>q. p < q \<Longrightarrow> q \<le> es \<Longrightarrow> within p es (f q)"
  shows "within p es (case peek buf p es toks of (found, ps) \<Rightarrow> if \<not> found then h ps else case gettoken buf ps es of (_, _, _, ps) \<Rightarrow> f ps)"
proof -
  obtain found p1 where k: "peek buf p es toks = (found, p1)" by fastforce
  obtain tok q eq p2 where t: "gettoken buf p1 es = (tok, q, eq, p2)" by (metis prod_cases4)
  show ?thesis using k t peek_within [OF assms(1,2) k] symbol_within [OF assms(1,2) _ assms(3) t] assms(4,5) by auto
qed

text \<open>Four calls deep for each character, and four more.\<close>

lemma parse_within:
  assumes "line_at buf es"
  shows "ps \<le> es \<Longrightarrow> 4 * (es - ps) + 4 \<le> fuel \<Longrightarrow> within ps es (parseline fuel buf ps es)"
    and "ps \<le> es \<Longrightarrow> 4 * (es - ps) + 3 \<le> fuel \<Longrightarrow> within ps es (parsepipe fuel buf ps es)"
    and "ps \<le> es \<Longrightarrow> 4 * (es - ps) + 1 \<le> fuel \<Longrightarrow> within ps es (parseblock fuel buf ps es)"
    and "ps \<le> es \<Longrightarrow> 4 * (es - ps) + 2 \<le> fuel \<Longrightarrow> within ps es (parseexec fuel buf ps es)"
proof (induction fuel arbitrary: ps)
  case (Suc fuel)
  note after = after_symbol [OF assms]
  {
    case 1
    have rest: "within p es (parseline fuel buf q es)" if "ps \<le> p" "p < q" "q \<le> es" for p q
      using that 1 by (intro within_mono [OF Suc.IH(1)]) auto
    have "within ps es (parsepipe fuel buf ps es)" using Suc.IH(2) [OF 1(1)] 1(2) by simp
    then show ?case unfolding parseline.simps
    proof (rule within_pthen)
      fix c p
      assume p: "ps \<le> p" "p \<le> es"
      obtain cmd p1 where b: "parseback c buf p es = (cmd, p1)" by fastforce
      with parseback_within [OF assms p(2), of c] p rest show "within p es (case parseback c buf p es of (cmd, ps) \<Rightarrow>
          case peek buf ps es '';'' of (found, ps) \<Rightarrow> if \<not> found then Parsed cmd ps else
          case gettoken buf ps es of (_, _, _, ps) \<Rightarrow> pthen (parseline fuel buf ps es) (\<lambda>right ps. Parsed (listcmd cmd right) ps))"
        unfolding b prod.case by (intro within_mono [OF after] within_pthen) auto
    qed
  next
    case 2
    have "within p es (parsepipe fuel buf q es)" if "ps \<le> p" "p < q" "q \<le> es" for p q
      using that 2 by (intro within_mono [OF Suc.IH(2)]) auto
    moreover have "within ps es (parseexec fuel buf ps es)" using Suc.IH(4) [OF 2(1)] 2(2) by simp
    ultimately show ?case unfolding parsepipe.simps by (intro within_pthen after) auto
  next
    case 3
    have "within ps es (parseline fuel buf q es)" if "ps < q" "q \<le> es" for q
      using that 3 by (intro within_mono [OF Suc.IH(1)]) auto
    moreover have "within p es (parseredirs cmd buf q es)" if "p < q" "q \<le> es" for cmd p q
      using that by (intro within_mono [OF parseredirs_within [OF assms]]) auto
    ultimately show ?case unfolding parseblock.simps using 3(1) by (intro after within_pthen) auto
  next
    case 4
    obtain found p1 where k: "peek buf ps es ''('' = (found, p1)" by fastforce
    note b = peek_within [OF assms 4(1) k]
    have "within p1 es (parseblock fuel buf p1 es)" using Suc.IH(3) [of p1] b 4(2) by auto
    moreover have "within p1 es (pthen (parseredirs execcmd buf p1 es) (\<lambda>cmd ps. parseargs 0 cmd buf ps es))"
      using b by (intro within_pthen parseredirs_within [OF assms] parseargs_within [OF assms]) auto
    ultimately show ?case using k b by (auto intro: within_mono)
  }
qed auto

section \<open>The strings after \<open>nulterminate\<close>\<close>

primrec cuts :: "cmd \<Rightarrow> nat list" where
  "cuts (EXEC args) = map snd args"
| "cuts (REDIR c file efile mode fd) = cuts c @ [efile]"
| "cuts (PIPE left right) = cuts left @ cuts right"
| "cuts (LIST left right) = cuts left @ cuts right"
| "cuts (BACK c) = cuts c"

definition nuls :: "nat list \<Rightarrow> byte list \<Rightarrow> byte list" where
  "nuls E buf = fold (\<lambda>e buf. buf[e := 0]) E buf"

lemma nulterminate_nuls: "nulterminate c buf = nuls (cuts c) buf"
proof (induction c arbitrary: buf)
  case (EXEC args)
  show ?case by (induction args arbitrary: buf) (auto simp: nuls_def)
qed (auto simp: nuls_def)

lemma nuls_nth: "length (nuls E buf) = length buf \<and> (i < length buf \<longrightarrow> nuls E buf ! i = (if i \<in> set E then 0 else buf ! i))"
  unfolding nuls_def by (induction E arbitrary: buf) (auto simp: nth_list_update)

text \<open>The NUL bytes lie on delimiters, so no string loses a character and each one ends where its word ended.\<close>

lemma cstr_nuls:
  assumes "es < length buf" "holds buf es (q, eq) w" "is_word w" "eq \<in> set E" "\<forall>e\<in>set E. delim (char_at buf e)"
  shows "cstr (nuls E buf) q = w"
proof -
  let ?b = "nuls E buf"
  have eq: "eq = q + length w" "eq < length buf" and w: "take (length w) (drop q buf) = w" using assms(1,2) by (auto simp: holds_def)
  have nth: "buf ! (q + i) = w ! i" if "i < length w" for i
    using arg_cong [OF w, of "\<lambda>l. l ! i"] that eq by simp
  have "?b ! (q + i) = w ! i" if i: "i < length w" for i
  proof -
    have "\<not> delim (char_at buf (q + i))" using nth [OF i] i eq assms(3) by (simp add: char_at_def is_word_def)
    then have "q + i \<notin> set E" using assms(5) by blast
    then show ?thesis using nth [OF i] i eq nuls_nth [of E buf "q + i"] by simp
  qed
  then have "take (length w) (drop q ?b) = w" using eq nuls_nth [of E buf] by (intro nth_equalityI) auto
  moreover have "drop (length w) (drop q ?b) = 0 # drop (Suc eq) ?b"
    using eq assms(4) nuls_nth [of E buf eq] Cons_nth_drop_Suc [of eq ?b] by (simp add: add.commute)
  ultimately have "drop q ?b = w @ 0 # drop (Suc eq) ?b" by (metis append_take_drop_id)
  then show ?thesis using assms(3) by (auto simp: cstr_def is_word_def delim_def)
qed

section \<open>What a command tree does\<close>

primrec run_tree :: "tree \<Rightarrow> unit prog" where
  "run_tree (T_run args) =
     (if args = [] then Exit 1 else
      pbind (syscall1 (Sys_exec (hd args) args)) (\<lambda>_.
      pbind (u_fprintf 2 (line ''exec %s failed'') [Va_str (Some (hd args))]) (\<lambda>_. Exit 0)))"
| "run_tree (T_redir t k f) =
     pbind (syscall1 (Sys_close (redir_fd k))) (\<lambda>_.
     pbind (syscall1 (Sys_open f (redir_mode k))) (\<lambda>r.
     if r < 0 then pbind (u_fprintf 2 (line ''open %s failed'') [Va_str (Some f)]) (\<lambda>_. Exit 1) else run_tree t))"
| "run_tree (T_pipe a b) =
     pbind sh_pipe (\<lambda>(r, p0, p1).
     if r < 0 then sh_panic ''pipe'' else
     pbind fork1 (\<lambda>pid.
     if pid = 0 then
       pbind (pfor (\<lambda>c. pbind (syscall1 c) (\<lambda>_. Done ())) [Sys_close 1, Sys_dup p1, Sys_close p0, Sys_close p1]) (\<lambda>_. run_tree a)
     else
       pbind fork1 (\<lambda>pid.
       if pid = 0 then
         pbind (pfor (\<lambda>c. pbind (syscall1 c) (\<lambda>_. Done ())) [Sys_close 0, Sys_dup p0, Sys_close p0, Sys_close p1]) (\<lambda>_. run_tree b)
       else
         pbind (pfor (\<lambda>c. pbind (syscall1 c) (\<lambda>_. Done ())) [Sys_close p0, Sys_close p1, Sys_wait, Sys_wait]) (\<lambda>_. Exit 0))))"
| "run_tree (T_seq a b) =
     pbind fork1 (\<lambda>pid. if pid = 0 then run_tree a else pbind (syscall1 Sys_wait) (\<lambda>_. run_tree b))"
| "run_tree (T_back a) = pbind fork1 (\<lambda>pid. if pid = 0 then run_tree a else Exit 0)"

lemma holds_delims: "list_all2 (holds buf es) as args \<Longrightarrow> e \<in> snd ` set as \<Longrightarrow> delim (char_at buf e)"
  by (induction rule: list_all2_induct) (auto simp: holds_def)

lemma means_delim: "means buf es c t \<Longrightarrow> e \<in> set (cuts c) \<Longrightarrow> delim (char_at buf e)"
proof (induction buf es c t rule: means.induct)
  case (1 buf es as args)
  then show ?case using holds_delims [of buf es as args e] by auto
qed (auto simp: holds_def)

lemma cstr_args:
  assumes "es < length buf" "\<forall>e\<in>set E. delim (char_at buf e)"
  shows "list_all2 (holds buf es) as args \<Longrightarrow> list_all is_word args \<Longrightarrow> snd ` set as \<subseteq> set E \<Longrightarrow>
    map (\<lambda>(q, _). cstr (nuls E buf) q) as = args"
  by (induction rule: list_all2_induct) (auto simp: cstr_nuls [OF assms(1) _ _ _ assms(2)])

lemma runcmd_means:
  assumes "es < length buf" "\<forall>e\<in>set E. delim (char_at buf e)"
  shows "means buf es c t \<Longrightarrow> wf_tree t \<Longrightarrow> set (cuts c) \<subseteq> set E \<Longrightarrow> runcmd (nuls E buf) c = run_tree t"
proof (induction t arbitrary: c)
  case (T_run args)
  then obtain as where c: "c = EXEC as" and as: "list_all2 (holds buf es) as args" by (cases c) auto
  then have "map (\<lambda>(q, _). cstr (nuls E buf) q) as = args" using cstr_args [OF assms as] T_run.prems c by auto
  then show ?case by (cases as) (auto simp: c split: prod.splits)
next
  case (T_redir t k f)
  then obtain d q eq where c: "c = REDIR d q eq (redir_mode k) (redir_fd k)" "means buf es d t" "holds buf es (q, eq) f" by (cases c) auto
  then have "cstr (nuls E buf) q = f" using cstr_nuls [OF assms(1) c(3)] T_redir.prems assms(2) by auto
  then show ?case using T_redir c by (simp cong: if_cong)
next
  case (T_pipe a b)
  then obtain d e where c: "c = PIPE d e" "means buf es d a" "means buf es e b" by (cases c) auto
  then have "runcmd (nuls E buf) d = run_tree a" "runcmd (nuls E buf) e = run_tree b" using T_pipe by auto
  then show ?case by (simp add: c(1) pbind_assoc cong: if_cong)
next
  case (T_seq a b)
  then obtain d e where c: "c = LIST d e" "means buf es d a" "means buf es e b" by (cases c) auto
  then show ?case using T_seq by (simp cong: if_cong)
next
  case (T_back a)
  then obtain d where "c = BACK d" "means buf es d a" by (cases c) auto
  then show ?case using T_back by (simp cong: if_cong)
qed

section \<open>A line and its tree\<close>

lemma render_no_nul: "wf_tree t \<Longrightarrow> 0 \<notin> set (render lv t)"
proof (induction t arbitrary: lv)
  case (T_run args)
  then show ?case by (auto simp: words_text_def list_all_iff is_word_def delim_def)
next
  case (T_redir t k f)
  then show ?case by (cases k) (auto simp: is_word_def delim_def)
qed (auto simp: paren_def)

lemma parseline_render:
  assumes "wf_tree t" "line_at buf es" "stands buf es (render 3 t) ps" "4 * (es - ps) + 4 \<le> fuel"
  obtains c ps' where "parseline fuel buf ps es = Parsed c ps'" "means buf es c t" "stands buf es [] ps'"
proof -
  obtain N where N: "reads_from N parseline {41} (render 3 t) t" using tree_readsD(6) [OF wf_tree_reads [OF assms(1)]] by (auto simp: reads_def)
  have "\<exists>c ps'. parseline (max N fuel) buf ps es = Parsed c ps' \<and> means buf es c t \<and> stands buf es [] ps'"
    by (rule reads_fromD [OF N _ assms(2)]) (use assms(3) in \<open>auto simp: follow_def\<close>)
  moreover have "parseline (max N fuel) buf ps es = parseline fuel buf ps es"
    using parse_fuel(1) [of fuel "max N fuel" buf ps es] parse_within(1) [OF assms(2) _ assms(4)] assms(3)
    by (auto simp: upto_fuel_def stands_def)
  ultimately show thesis using that by auto
qed

lemma line_at_text: "0 \<notin> set txt \<Longrightarrow> line_at (txt @ 0 # rest) (length txt)"
  by (auto simp: line_at_def nth_append in_set_conv_nth)

text \<open>C12: Every command tree with words as strings and at most nine arguments for a command has a line on which the shell's child
  makes exactly the system calls of the tree: the parser ends and accepts the line, each string is what was written although the
  terminating NUL bytes go into the same buffer, and pipes, lists, background commands and redirections nest as written.\<close>

theorem shell_runs_command_tree:
  assumes "wf_tree t" "0 \<notin> set pre"
  shows "pbind (parsecmd (pre @ render 3 t @ 0 # rest) (length pre)) (\<lambda>(c, buf). runcmd buf c) = run_tree t"
proof -
  let ?buf = "pre @ render 3 t @ 0 # rest" and ?s = "length pre" and ?es = "length pre + length (render 3 t)"
  have z: "0 \<notin> set (render 3 t)" using render_no_nul [OF assms(1)] .
  then have "takeWhile (\<lambda>c. c \<noteq> 0) (render 3 t @ 0 # rest) = render 3 t" by (subst takeWhile_append2) auto
  then have es: "?s + u_strlen (cstr ?buf ?s) = ?es" by (simp add: cstr_def u_strlen_def)
  have l: "line_at ?buf ?es" using line_at_text [of "pre @ render 3 t" rest] assms(2) z by simp
  have st: "stands ?buf ?es (render 3 t) ?s" by (simp add: stands_def front_def ahead_def)
  obtain c ps where p: "parseline (4 * (?es - ?s) + 4) ?buf ?s ?es = Parsed c ps" "means ?buf ?es c t" "stands ?buf ?es [] ps"
    using parseline_render [OF assms(1) l st le_refl] .
  have "ahead ?buf (skip_ws ?buf ps ?es) ?es = []" "skip_ws ?buf ps ?es \<le> ?es"
    using p(3) skip_ws_ahead [of ps ?es ?buf] l skip_ws_le by (auto simp: stands_def line_at_def)
  then have "snd (peek ?buf ps ?es []) = ?es" by (auto simp: peek_def Let_def ahead_def)
  then have "parsecmd ?buf ?s = Done (c, nuls (cuts c) ?buf)" using p(1) by (simp add: parsecmd_def Let_def es nulterminate_nuls)
  moreover have "runcmd (nuls (cuts c) ?buf) c = run_tree t"
    using runcmd_means [of ?es ?buf "cuts c" c t] p(2) means_delim [OF p(2)] assms(1) l by (auto simp: line_at_def)
  ultimately show ?thesis by simp
qed

theorem shell_runs_command_tree_witness:
  "pbind (parsecmd (map of_char '' ls a >> f| wc'' @ [0]) 0) (\<lambda>(c, buf). runcmd buf c) =
    run_tree (T_pipe (T_redir (T_run [[108, 115], [97]]) Append [102]) (T_run [[119, 99]]))"
proof -
  let ?t = "T_pipe (T_redir (T_run [[108, 115], [97]]) Append [102]) (T_run [[119, 99]])"
  have "wf_tree ?t" by (simp add: is_word_def delim_def whitespace_codes symbols_codes)
  moreover have "render 3 ?t = map of_char '' ls a >> f| wc''" by (simp add: words_text_def paren_def)
  ultimately show ?thesis using shell_runs_command_tree [of ?t "[]" "[]"] by simp
qed

end
