(* ===== verification/Umalloc.thy ===== *)
theory Umalloc
  imports Ulib
begin

text \<open>
  \<open>user/umalloc.c\<close>: the storage allocator of user programs. Memory is seen in units of a header, 16 bytes: a pointer to a header is
  the number of its unit, and \<open>uptr\<close> and \<open>usize\<close> are the two fields of the header in each unit. A block of \<open>n\<close> units has its
  header in the first one; \<open>malloc\<close> returns the second. The free blocks form a ring in the order of their addresses that
  begins at the static header \<open>base\<close>, whose address is an argument. Sizes are 32-bit numbers. The loops around the ring have a
  bound on their rounds.
\<close>

section \<open>Operations\<close>

record uheap =
  uptr :: "nat \<Rightarrow> nat"
  usize :: "nat \<Rightarrow> nat"
  freep :: nat

definition u32 :: "nat \<Rightarrow> nat" where
  "u32 n = n mod 2 ^ 32"

definition set_ptr :: "nat \<Rightarrow> nat \<Rightarrow> uheap \<Rightarrow> uheap" where
  "set_ptr a v h = h\<lparr>uptr := (uptr h)(a := v)\<rparr>"

definition set_size :: "nat \<Rightarrow> nat \<Rightarrow> uheap \<Rightarrow> uheap" where
  "set_size a n h = h\<lparr>usize := (usize h)(a := n)\<rparr>"

text \<open>The loop of \<open>free\<close> that looks for the free block before \<open>bp\<close>.\<close>

definition free_stop :: "uheap \<Rightarrow> nat \<Rightarrow> nat \<Rightarrow> bool" where
  "free_stop h bp p \<longleftrightarrow> bp > p \<and> bp < uptr h p \<or> p \<ge> uptr h p \<and> (bp > p \<or> bp < uptr h p)"

fun free_find :: "nat \<Rightarrow> uheap \<Rightarrow> nat \<Rightarrow> nat \<Rightarrow> nat option" where
  "free_find 0 h bp p = None"
| "free_find (Suc fuel) h bp p = (if free_stop h bp p then Some p else free_find fuel h bp (uptr h p))"

definition u_free :: "nat \<Rightarrow> nat \<Rightarrow> uheap \<Rightarrow> uheap option" where
  "u_free fuel ap h =
     (let bp = ap - 1 in
      case free_find fuel h bp (freep h) of
        None \<Rightarrow> None
      | Some p \<Rightarrow>
          let q = uptr h p;
              h = (if bp + usize h bp = q then set_ptr bp (uptr h q) (set_size bp (u32 (usize h bp + usize h q)) h) else set_ptr bp q h);
              h = (if p + usize h p = bp then set_ptr p (uptr h bp) (set_size p (u32 (usize h p + usize h bp)) h) else set_ptr p bp h)
          in Some (h\<lparr>freep := p\<rparr>))"

text \<open>The argument of \<open>sbrk\<close> is an \<open>int\<close>.\<close>

definition morecore :: "nat \<Rightarrow> nat \<Rightarrow> uheap \<Rightarrow> (nat \<times> uheap) prog" where
  "morecore fuel nu h =
     (let nu = (if nu < 4096 then 4096 else nu) in
      pbind (u_sbrk (sint (word_of_int (int (nu * 16)) :: 32 word))) (\<lambda>p.
      if p = - 1 then Done (0, h) else
      let hp = nat p div 16 in
      case u_free fuel (hp + 1) (set_size hp nu h) of
        None \<Rightarrow> Spin
      | Some h \<Rightarrow> Done (freep h, h)))"

fun malloc_loop :: "nat \<Rightarrow> nat \<Rightarrow> nat \<Rightarrow> nat \<Rightarrow> uheap \<Rightarrow> (nat \<times> uheap) prog" where
  "malloc_loop 0 nunits prevp p h = Spin"
| "malloc_loop (Suc fuel) nunits prevp p h =
     (if usize h p \<ge> nunits then
        if usize h p = nunits then Done (p + 1, (set_ptr prevp (uptr h p) h)\<lparr>freep := prevp\<rparr>)
        else
          let h = set_size p (usize h p - nunits) h; p = p + usize h p; h = set_size p nunits h
          in Done (p + 1, h\<lparr>freep := prevp\<rparr>)
      else if p = freep h then
        pbind (morecore fuel nunits h) (\<lambda>(p, h).
        if p = 0 then Done (0, h) else malloc_loop fuel nunits p (uptr h p) h)
      else malloc_loop fuel nunits p (uptr h p) h)"

definition units :: "nat \<Rightarrow> nat" where
  "units nbytes = u32 ((nbytes + 16 - 1) div 16 + 1)"

definition malloc :: "nat \<Rightarrow> nat \<Rightarrow> nat \<Rightarrow> uheap \<Rightarrow> (nat \<times> uheap) prog" where
  "malloc fuel base nbytes h =
     (let nunits = units nbytes;
          (prevp, h) = (if freep h = 0 then (base, set_size base 0 ((set_ptr base base h)\<lparr>freep := base\<rparr>)) else (freep h, h))
      in malloc_loop fuel nunits prevp (uptr h prevp) h)"

lemma set_fields [simp]:
  "uptr (set_ptr a v h) = (uptr h)(a := v)" "usize (set_ptr a v h) = usize h" "freep (set_ptr a v h) = freep h"
  "uptr (set_size a n h) = uptr h" "usize (set_size a n h) = (usize h)(a := n)" "freep (set_size a n h) = freep h"
  by (auto simp: set_ptr_def set_size_def)

end
