(* ===== verification/Umalloc_Facts.thy ===== *)
theory Umalloc_Facts
  imports Umalloc
begin

text \<open>
  The allocator keeps the blocks in use apart: whatever a program allocates, frees and stores into its own blocks, the free blocks
  form a ring in ascending order, and no block in use overlaps a free block or another one in use.
\<close>

section \<open>The ring of free blocks\<close>

fun links :: "uheap \<Rightarrow> nat list \<Rightarrow> bool" where
  "links h (x # y # ys) \<longleftrightarrow> uptr h x = y \<and> links h (y # ys)"
| "links h _ \<longleftrightarrow> True"

text \<open>The units of a header in the ring: the free block, or one unit for \<open>base\<close>.\<close>

definition occ :: "uheap \<Rightarrow> nat \<Rightarrow> nat" where
  "occ h x = max 1 (usize h x)"

definition free_ring :: "uheap \<Rightarrow> nat \<Rightarrow> nat \<Rightarrow> nat list \<Rightarrow> bool" where
  "free_ring h base lim c \<longleftrightarrow> c \<noteq> [] \<and> hd c = base \<and> links h (c @ [base]) \<and>
     sorted_wrt (\<lambda>x y. x + occ h x \<le> y) c \<and> (\<forall>x\<in>set c. x + occ h x \<le> lim) \<and>
     usize h base = 0 \<and> (\<forall>x\<in>set c. x \<noteq> base \<longrightarrow> usize h x > 0)"

lemma links_append: "links h (xs @ y # ys) \<longleftrightarrow> links h (xs @ [y]) \<and> links h (y # ys)"
  by (induction h xs rule: links.induct) (auto simp: neq_Nil_conv)

lemma links_cong: "(\<And>x. x \<in> set (butlast ys) \<Longrightarrow> uptr h' x = uptr h x) \<Longrightarrow> links h' ys = links h ys"
  by (induction h ys rule: links.induct) auto

lemma links_Cons: "links h (x # ys) \<longleftrightarrow> ys = [] \<or> uptr h x = hd ys \<and> links h ys"
  by (cases ys) auto

text \<open>The ring can be walked from any of its headers.\<close>

lemma links_rotate:
  assumes "links h (c @ [base])" "c \<noteq> []" "hd c = base" "f \<in> set c"
  obtains rest where "links h (f # rest @ [f])" "set (f # rest) = set c" "length rest < length c"
proof -
  obtain u v where c: "c = u @ f # v" using assms(4) by (meson split_list)
  show thesis
  proof (cases u)
    case Nil
    then show ?thesis using that [of v] assms(1,3) c by auto
  next
    case (Cons b u')
    then have b: "b = base" using assms(3) c by simp
    have "links h (f # v @ [base])" "links h ((base # u') @ [f])"
      using assms(1) links_append [of h u f "v @ [base]"] by (auto simp: c Cons b)
    then have "links h (f # (v @ base # u') @ [f])" using links_append [of h "f # v" base "u' @ [f]"] by simp
    then show ?thesis using that [of "v @ base # u'"] c Cons b by auto
  qed
qed

lemma ring_less: "free_ring h base lim c \<Longrightarrow> x \<in> set c \<Longrightarrow> base \<le> x \<and> x < lim"
proof -
  assume r: "free_ring h base lim c" and x: "x \<in> set c"
  from r obtain cs where c: "c = base # cs" by (cases c) (auto simp: free_ring_def)
  from r x have "x + occ h x \<le> lim" "x \<noteq> base \<Longrightarrow> base + occ h base \<le> x" by (auto simp: free_ring_def c)
  then show ?thesis by (cases "x = base") (auto simp: occ_def)
qed

section \<open>free\<close>

text \<open>The loop of \<open>free\<close> walks to the only header where it stops.\<close>

lemma free_find_walk:
  "links h (p # ws) \<Longrightarrow> \<forall>a\<in>set (butlast (p # ws)). \<not> free_stop h bp a \<Longrightarrow>
    free_find (length ws + k) h bp p = free_find k h bp (last (p # ws))"
  by (induction ws arbitrary: p) (auto simp: links_Cons)


lemma ring_next:
  assumes "free_ring h base lim (u @ a # v)"
  shows "uptr h a = hd (v @ [base])"
proof -
  have "links h (a # v @ [base])" using assms links_append [of h u a "v @ [base]"] by (simp add: free_ring_def)
  then show ?thesis by (simp add: links_Cons)
qed

text \<open>The free blocks before and behind \<open>bp\<close>.\<close>

definition around :: "nat \<Rightarrow> nat list \<Rightarrow> nat \<Rightarrow> nat list \<Rightarrow> bool" where
  "around bp c1 p c2 \<longleftrightarrow> (\<forall>x\<in>set c1. x < bp) \<and> p < bp \<and> (\<forall>x\<in>set c2. bp < x)"

lemma ring_sorted:
  assumes "free_ring h base lim (u @ a # v)"
  shows "x \<in> set u \<Longrightarrow> x + occ h x \<le> a" "y \<in> set v \<Longrightarrow> a + occ h a \<le> y" "x \<in> set u \<Longrightarrow> y \<in> set v \<Longrightarrow> x + occ h x \<le> y"
  using assms by (auto simp: free_ring_def sorted_wrt_append)

lemma free_stop_only:
  assumes "free_ring h base lim (c1 @ p # c2)" "around bp c1 p c2" "base < bp" "a \<in> set (c1 @ p # c2)"
  shows "free_stop h bp a \<longleftrightarrow> a = p"
proof -
  have occ: "occ h x > 0" for x by (simp add: occ_def)
  consider u v where "c1 = u @ a # v" | "a = p" | u v where "c2 = u @ a # v"
    using assms(4) by (auto dest: split_list)
  then show ?thesis
  proof cases
    case 1
    then have r: "free_ring h base lim (u @ a # v @ p # c2)" using assms(1) by simp
    have n: "uptr h a \<in> set (v @ [p])" using ring_next [OF r] by (cases v) auto
    then have "a < uptr h a" using ring_sorted(2) [OF r, of "uptr h a"] occ [of a] by (auto simp: less_le_trans [OF _ ])
    moreover have "uptr h a < bp" "a \<noteq> p" using n assms(2) 1 ring_sorted(1) [OF assms(1), of a] occ [of a] by (auto simp: around_def)
    ultimately show ?thesis by (auto simp: free_stop_def)
  next
    case 2
    have "base \<le> p" using ring_less [OF assms(1)] by auto
    then show ?thesis using 2 ring_next [OF assms(1)] assms(2) by (cases c2) (auto simp: free_stop_def around_def)
  next
    case 3
    then have r: "free_ring h base lim ((c1 @ p # u) @ a # v)" using assms(1) by simp
    have "v \<noteq> [] \<Longrightarrow> a < uptr h a" using ring_next [OF r] ring_sorted(2) [OF r, of "hd v"] occ [of a] by (cases v) auto
    moreover have "v = [] \<Longrightarrow> uptr h a = base" using ring_next [OF r] by simp
    ultimately show ?thesis using assms(2,3) 3 by (cases "v = []") (auto simp: free_stop_def around_def)
  qed
qed

lemma free_find_around:
  assumes "free_ring h base lim (c1 @ p # c2)" "around bp c1 p c2" "base < bp" "f \<in> set (c1 @ p # c2)" "length (c1 @ p # c2) < fuel"
  shows "free_find fuel h bp f = Some p"
proof -
  let ?c = "c1 @ p # c2"
  have l: "links h (?c @ [base])" "hd ?c = base" using assms(1) by (auto simp: free_ring_def simp del: append_assoc)
  obtain rest where rest: "links h (f # rest @ [f])" "set (f # rest) = set ?c" "length rest < length ?c"
    by (rule links_rotate [OF l(1) _ l(2) assms(4)]) auto
  note stop = free_stop_only [OF assms(1-3)]
  show ?thesis
  proof (cases "f = p")
    case True
    then show ?thesis using stop [OF assms(4)] assms(5) by (cases fuel) auto
  next
    case False
    then have "p \<in> set rest" using rest(2) by auto
    then obtain w1 w2 where w: "rest = w1 @ p # w2" "p \<notin> set w1" using split_list_first by metis
    have lk: "links h (f # w1 @ [p])" using rest(1) links_append [of h "f # w1" p "w2 @ [f]"] w by simp
    obtain k where k: "fuel = length (w1 @ [p]) + Suc k" using rest(3) assms(5) w less_imp_Suc_add [of "length (w1 @ [p])" fuel] by auto
    have "\<not> free_stop h bp x" if "x \<in> set (butlast (f # w1 @ [p]))" for x
    proof -
      have "x \<in> set (f # w1)" using that by (simp add: butlast_append split: if_splits)
      then show ?thesis using stop [of x] rest(2) w False by auto
    qed
    then have "free_find fuel h bp f = free_find (Suc k) h bp p" using free_find_walk [OF lk, of bp "Suc k"] by (simp add: k)
    then show ?thesis using stop [of p] by simp
  qed
qed

section \<open>Blocks in use\<close>

definition live :: "uheap \<Rightarrow> nat \<Rightarrow> nat \<Rightarrow> nat list \<Rightarrow> (nat \<times> nat) set \<Rightarrow> bool" where
  "live h base lim c L \<longleftrightarrow>
     (\<forall>(a, n)\<in>L. n > 0 \<and> usize h a = n \<and> base < a \<and> a + n \<le> lim \<and> (\<forall>x\<in>set c. x + occ h x \<le> a \<or> a + n \<le> x)) \<and>
     (\<forall>(a, n)\<in>L. \<forall>(b, m)\<in>L. (a, n) \<noteq> (b, m) \<longrightarrow> a + n \<le> b \<or> b + m \<le> a)"

definition heap_ok :: "uheap \<Rightarrow> nat \<Rightarrow> nat \<Rightarrow> (nat \<times> nat) set \<Rightarrow> nat list \<Rightarrow> bool" where
  "heap_ok h base lim L c \<longleftrightarrow> free_ring h base lim c \<and> live h base lim c L \<and> freep h \<in> set c \<and> 0 < base \<and> lim < 2 ^ 32"

lemma liveD:
  assumes "live h base lim c L" "(a, n) \<in> L"
  shows "n > 0" "usize h a = n" "base < a" "a + n \<le> lim" "x \<in> set c \<Longrightarrow> x + occ h x \<le> a \<or> a + n \<le> x"
    "(b, m) \<in> L \<Longrightarrow> (a, n) \<noteq> (b, m) \<Longrightarrow> a + n \<le> b \<or> b + m \<le> a"
  using assms unfolding live_def by fast+

lemma liveI:
  assumes "\<And>a m. (a, m) \<in> L \<Longrightarrow> m > 0 \<and> usize h a = m \<and> base < a \<and> a + m \<le> lim \<and> (\<forall>x\<in>set c. x + occ h x \<le> a \<or> a + m \<le> x)"
    "\<And>a m d k. (a, m) \<in> L \<Longrightarrow> (d, k) \<in> L \<Longrightarrow> (a, m) \<noteq> (d, k) \<Longrightarrow> a + m \<le> d \<or> d + k \<le> a"
  shows "live h base lim c L"
  unfolding live_def using assms by blast

text \<open>The heads of the ring around a block in use.\<close>

lemma ring_around:
  assumes "free_ring h base lim c" "live h base lim c L" "(bp, n) \<in> L"
  obtains c1 p c2 where "c = c1 @ p # c2" "around bp c1 p c2" "p + occ h p \<le> bp" "\<forall>x\<in>set c2. bp + n \<le> x"
proof -
  let ?u = "takeWhile (\<lambda>x. x < bp) c" and ?v = "dropWhile (\<lambda>x. x < bp) c"
  note L = liveD [OF assms(2,3)]
  obtain cs where c: "c = base # cs" using assms(1) by (cases c) (auto simp: free_ring_def)
  then have "?u \<noteq> []" using L(3) by simp
  then obtain c1 p where u: "?u = c1 @ [p]" by (metis rev_exhaust)
  then have ca: "c = c1 @ p # ?v" using takeWhile_dropWhile_id [of "\<lambda>x. x < bp" c] by simp
  have lt: "x < bp" if "x \<in> set ?u" for x using set_takeWhileD [OF that] by simp
  have ge: "bp \<le> x" if x: "x \<in> set ?v" for x
  proof -
    have "sorted_wrt (\<lambda>x y. x + occ h x \<le> y) c" using assms(1) by (simp add: free_ring_def)
    then have "sorted_wrt (<) c" by (rule sorted_wrt_mono_rel [rotated]) (auto simp: occ_def)
    then have "sorted_wrt (<) ?v" using sorted_wrt_append by (metis takeWhile_dropWhile_id)
    moreover have "bp \<le> hd ?v" using x hd_dropWhile [of "\<lambda>x. x < bp" c] by fastforce
    ultimately show ?thesis using x by (cases ?v) auto
  qed
  have "p \<in> set c" by (subst ca) simp
  then have "p + occ h p \<le> bp" using L(1) L(5) [of p] lt [of p] u by auto
  moreover have "bp + n \<le> x" if "x \<in> set ?v" for x using ge [OF that] L(5) [of x] that set_dropWhileD [OF that] by (auto simp: occ_def)
  ultimately show thesis using that [OF ca] lt u L(1) by (fastforce simp: around_def)
qed

section \<open>A freed block joins the ring\<close>

abbreviation spaced :: "uheap \<Rightarrow> nat list \<Rightarrow> bool" where
  "spaced h c \<equiv> sorted_wrt (\<lambda>x y. x + occ h x \<le> y) c"

lemma spaced_around: "spaced h (u @ a # v) \<longleftrightarrow> spaced h u \<and> spaced h v \<and> (\<forall>x\<in>set u. x + occ h x \<le> a) \<and> (\<forall>y\<in>set v. a + occ h a \<le> y)"
  by (fastforce simp: sorted_wrt_append)

lemma spaced_cong: "(\<And>x. x \<in> set c \<Longrightarrow> occ h' x = occ h x) \<Longrightarrow> spaced h' c = spaced h c"
  by (metis (mono_tags, lifting) sorted_wrt_mono_rel)

text \<open>The parts of a ring around one header.\<close>

lemma ring_parts:
  "free_ring h base lim (u @ a # v) \<longleftrightarrow>
     hd (u @ [a]) = base \<and> links h (u @ [a]) \<and> links h (v @ [base]) \<and> uptr h a = hd (v @ [base]) \<and>
     spaced h u \<and> spaced h v \<and> (\<forall>x\<in>set u. x + occ h x \<le> a) \<and> (\<forall>y\<in>set v. a + occ h a \<le> y) \<and>
     (\<forall>x\<in>set u \<union> set v. x + occ h x \<le> lim) \<and> a + occ h a \<le> lim \<and>
     usize h base = 0 \<and> (\<forall>x\<in>set u \<union> set v. x \<noteq> base \<longrightarrow> usize h x > 0) \<and> (a \<noteq> base \<longrightarrow> usize h a > 0)"
  using links_append [of h u a "v @ [base]"]
  by (auto simp: free_ring_def hd_append spaced_around links_Cons simp del: sorted_wrt_append)

lemma occ_pos [simp]: "0 < occ h x"
  by (simp add: occ_def)

text \<open>A new header \<open>bp\<close> behind \<open>p\<close>. Nothing overlaps between them and the rest \<open>c2\<close> of the ring.\<close>

lemma ring_insert:
  assumes "free_ring h base lim (c1 @ p # c2)" "p + occ h p \<le> bp" "\<forall>x\<in>set c2. bp + n \<le> x" "bp + n \<le> lim" "0 < n"
    and "uptr h' = (uptr h)(bp := hd (c2 @ [base]), p := bp)" "usize h' = (usize h)(bp := n)"
  shows "free_ring h' base lim ((c1 @ [p]) @ bp # c2)"
proof -
  note r = assms(1) [unfolded ring_parts]
  have c1: "x < p" if "x \<in> set c1" for x using ring_sorted(1) [OF assms(1) that] occ_pos [of h x] by linarith
  have c2: "bp < x" if "x \<in> set c2" for x using bspec [OF assms(3) that] assms(5) by linarith
  have p: "p < bp" "base \<le> p" using assms(2) occ_pos [of h p] ring_less [OF assms(1), of p] by (linarith, simp)
  have ni: "bp \<notin> set c1" "bp \<notin> set c2" "p \<notin> set c1" "p \<notin> set c2" using c1 c2 p(1) by (meson less_asym less_irrefl)+
  have o: "\<forall>x\<in>set c1. occ h' x = occ h x" "\<forall>x\<in>set c2. occ h' x = occ h x" "occ h' p = occ h p" "occ h' bp = n"
    using ni p assms(5,7) by (auto simp: occ_def)
  have u: "\<forall>x\<in>set c1. usize h' x = usize h x" "\<forall>x\<in>set c2. usize h' x = usize h x" "usize h' p = usize h p" "usize h' base = usize h base" "usize h' bp = n"
    using ni p by (auto simp: assms(7))
  have "links h' (c1 @ [p])" "links h' (c2 @ [base])"
    using r c1 c2 p by (subst links_cong [of _ _ h]; fastforce simp: assms(6))+
  then have l: "links h' ((c1 @ [p]) @ [bp])" "links h' (c2 @ [base])" using links_append [of h' c1 p "[bp]"] by (auto simp: assms(6))
  have s: "spaced h' c1" "spaced h' c2" using r o(1,2) spaced_cong [of c1 h' h] spaced_cong [of c2 h' h] by auto
  have "\<forall>x\<in>set (c1 @ [p]). x + occ h' x \<le> bp" using r o p assms(2) by fastforce
  moreover have "uptr h' bp = hd (c2 @ [base])" using p by (simp add: assms(6))
  moreover have "spaced h' (c1 @ [p])" using s(1) r o(1) by (simp add: spaced_around)
  ultimately show ?thesis
    unfolding ring_parts using r l s o u assms(3-5) by (auto simp: hd_append)
qed

text \<open>A block that \<open>p\<close> absorbs.\<close>

lemma ring_merge:
  assumes "free_ring h base lim (c1 @ p # c2)" "p + occ h p = bp" "p \<noteq> base" "\<forall>x\<in>set c2. bp + n \<le> x" "bp + n \<le> lim" "0 < n"
    and "uptr h' = (uptr h)(bp := v, p := hd (c2 @ [base]))" "usize h' = (usize h)(bp := m, p := bp + n - p)"
  shows "free_ring h' base lim (c1 @ p # c2)"
proof -
  note r = assms(1) [unfolded ring_parts]
  have c1: "x < p" if "x \<in> set c1" for x using ring_sorted(1) [OF assms(1) that] occ_pos [of h x] by linarith
  have c2: "bp < x" if "x \<in> set c2" for x using bspec [OF assms(4) that] assms(6) by linarith
  have p: "p < bp" "base < p" using assms(2,3) occ_pos [of h p] ring_less [OF assms(1), of p] by (linarith, simp)
  have ni: "bp \<notin> set c1" "bp \<notin> set c2" "p \<notin> set c1" "p \<notin> set c2" using c1 c2 p(1) by (meson less_asym less_irrefl)+
  have o: "\<forall>x\<in>set c1. occ h' x = occ h x" "\<forall>x\<in>set c2. occ h' x = occ h x" "occ h' p = bp + n - p"
    using ni p assms(6,8) by (auto simp: occ_def)
  have u: "\<forall>x\<in>set c1. usize h' x = usize h x" "\<forall>x\<in>set c2. usize h' x = usize h x" "usize h' base = usize h base" "0 < usize h' p"
    using ni p assms(6) by (auto simp: assms(8))
  have l: "links h' (c1 @ [p])" "links h' (c2 @ [base])"
    using r c1 c2 p by (subst links_cong [of _ _ h]; fastforce simp: assms(7))+
  have s: "spaced h' c1" "spaced h' c2" using r o(1,2) spaced_cong [of c1 h' h] spaced_cong [of c2 h' h] by auto
  have "\<forall>x\<in>set c2. p + occ h' p \<le> x" "p + occ h' p \<le> lim" using o(3) assms(4,5) p(1) by auto
  moreover have "uptr h' p = hd (c2 @ [base])" by (simp add: assms(7))
  ultimately show ?thesis unfolding ring_parts using r l s o(1,2) u by auto
qed

text \<open>A header that leaves the ring.\<close>

lemma ring_remove:
  assumes "free_ring h base lim (c1 @ p # q # c3)"
    and "uptr h' = (uptr h)(p := hd (c3 @ [base]))" "usize h' = usize h"
  shows "free_ring h' base lim (c1 @ p # c3)"
proof -
  note r = assms(1) [unfolded ring_parts]
  have o: "occ h' = occ h" by (simp add: occ_def fun_eq_iff assms(3))
  have c1: "x < p" if "x \<in> set c1" for x using ring_sorted(1) [OF assms(1) that] occ_pos [of h x] by linarith
  have c3: "p < x" if "x \<in> set c3" for x using ring_sorted(2) [OF assms(1), of x] that occ_pos [of h p] by (simp del: occ_pos)
  have "links h (c3 @ [base])" using r by (auto simp: links_Cons)
  then have l: "links h' (c1 @ [p])" "links h' (c3 @ [base])"
    using r c1 c3 by (subst links_cong [of _ _ h]; fastforce simp: assms(2))+
  then show ?thesis unfolding ring_parts using r by (auto simp: o assms(2,3))
qed

lemma set_same [simp]: "set_size a (usize h a) h = h" "set_ptr a (uptr h a) h = h"
  by (simp_all add: set_size_def set_ptr_def)

lemma u32_less: "n < 2 ^ 32 \<Longrightarrow> u32 n = n"
  by (simp add: u32_def)

text \<open>The first half of \<open>free\<close>: the block takes over a free block that begins where it ends.\<close>

lemma free_right:
  assumes r: "free_ring h base lim (c1 @ p # c2)" and l: "live h base lim (c1 @ p # c2) L" "(bp, n) \<in> L"
    and b: "\<forall>x\<in>set c2. bp + n \<le> x" "lim < 2 ^ 32"
  obtains c3 n1 where
    "(if bp + usize h bp = uptr h p then set_ptr bp (uptr h (uptr h p)) (set_size bp (u32 (usize h bp + usize h (uptr h p))) h)
      else set_ptr bp (uptr h p) h) = set_ptr bp (hd (c3 @ [base])) (set_size bp n1 h)"
    "free_ring (set_ptr p (hd (c3 @ [base])) h) base lim (c1 @ p # c3)" "\<forall>x\<in>set c3. bp + n1 \<le> x" "bp + n1 \<le> lim" "n \<le> n1"
    "set c3 \<subseteq> set c2" "\<forall>(a, m)\<in>L - {(bp, n)}. bp + n1 \<le> a \<or> a + m \<le> bp"
proof (cases "bp + n = uptr h p")
  case False
  have "\<forall>(a, m)\<in>L - {(bp, n)}. bp + n \<le> a \<or> a + m \<le> bp" using liveD(6) [OF l] by auto
  moreover have "set_size bp n h = h" using liveD(2) [OF l] by auto
  ultimately show thesis
    using that [of c2 n] False b liveD(2,4) [OF l] r ring_next [OF r, symmetric] by simp
next
  case True
  note n = liveD [OF l]
  from True have q: "hd (c2 @ [base]) = bp + n" using ring_next [OF r] by simp
  then obtain c3 where c2: "c2 = (bp + n) # c3" using n(3) by (cases c2) auto
  let ?q = "bp + n"
  have r': "free_ring h base lim ((c1 @ [p]) @ ?q # c3)" using r by (simp add: c2)
  have sq: "0 < usize h ?q" "?q + usize h ?q \<le> lim" "\<forall>x\<in>set c3. ?q + usize h ?q \<le> x"
  proof -
    show "0 < usize h ?q" using r' n(1,3) by (simp add: ring_parts)
    then show "?q + usize h ?q \<le> lim" "\<forall>x\<in>set c3. ?q + usize h ?q \<le> x" using r' by (auto simp: ring_parts occ_def)
  qed
  have u: "u32 (n + usize h ?q) = n + usize h ?q" using sq(2) b(2) by (intro u32_less) simp
  have d: "bp + (n + usize h ?q) \<le> a \<or> a + m \<le> bp" if am: "(a, m) \<in> L - {(bp, n)}" for a m
  proof -
    have "bp + n \<le> a \<or> a + m \<le> bp" using n(6) [of a m] am by auto
    moreover have "?q + occ h ?q \<le> a \<or> a + m \<le> ?q" "0 < m" using liveD(1,5) [OF l(1), of a m] am by (auto simp: c2)
    ultimately show ?thesis using sq(1) by (auto simp: occ_def)
  qed
  show thesis
  proof (rule that [of c3 "n + usize h ?q"])
    show "free_ring (set_ptr p (hd (c3 @ [base])) h) base lim (c1 @ p # c3)" by (rule ring_remove [OF r [unfolded c2]]) simp_all
    show "(if bp + usize h bp = uptr h p then set_ptr bp (uptr h (uptr h p)) (set_size bp (u32 (usize h bp + usize h (uptr h p))) h)
      else set_ptr bp (uptr h p) h) = set_ptr bp (hd (c3 @ [base])) (set_size bp (n + usize h ?q) h)"
      using True n(2) u ring_next [OF r'] by simp
    show "\<forall>(a, m)\<in>L - {(bp, n)}. bp + (n + usize h ?q) \<le> a \<or> a + m \<le> bp" using d by auto
  qed (use sq c2 in \<open>auto simp: add.assoc\<close>)
qed

text \<open>Blocks in use stay so when the ring covers only what it covered, or what was freed.\<close>

lemma live_change:
  assumes "live h base lim c L" "L' \<subseteq> L" "\<forall>(a, m)\<in>L'. usize h' a = usize h a" "\<forall>x\<in>set c'. \<forall>(a, m)\<in>L'. x + occ h' x \<le> a \<or> a + m \<le> x"
  shows "live h' base lim c' L'"
proof -
  show ?thesis
  proof (rule liveI)
    fix a m assume "(a, m) \<in> L'"
    then show "m > 0 \<and> usize h' a = m \<and> base < a \<and> a + m \<le> lim \<and> (\<forall>x\<in>set c'. x + occ h' x \<le> a \<or> a + m \<le> x)"
      using liveD(1-4) [OF assms(1), of a m] assms(2-4) by auto
  next
    fix a m d k assume "(a, m) \<in> L'" "(d, k) \<in> L'" "(a, m) \<noteq> (d, k)"
    then show "a + m \<le> d \<or> d + k \<le> a" using liveD(6) [OF assms(1), of a m d k] assms(2) by auto
  qed
qed

definition same_at :: "uheap \<Rightarrow> uheap \<Rightarrow> nat \<Rightarrow> bool" where
  "same_at h h' i \<longleftrightarrow> uptr h' i = uptr h i \<and> usize h' i = usize h i"

text \<open>What \<open>free\<close> of the block \<open>(bp, n)\<close> achieves.\<close>

definition freed :: "uheap \<Rightarrow> nat \<Rightarrow> nat \<Rightarrow> (nat \<times> nat) set \<Rightarrow> nat list \<Rightarrow> nat \<Rightarrow> nat \<Rightarrow> uheap \<Rightarrow> nat list \<Rightarrow> bool" where
  "freed h base lim L c bp n h' c' \<longleftrightarrow> heap_ok h' base lim (L - {(bp, n)}) c' \<and> (\<exists>x\<in>set c'. n \<le> usize h' x) \<and>
     (\<forall>i. i \<notin> set c \<longrightarrow> i \<noteq> bp \<longrightarrow> same_at h h' i) \<and> set c' \<subseteq> insert bp (set c)"

lemma freed_live:
  assumes l: "live h base lim c L" "(bp, n) \<in> L" and same: "\<And>i. i \<notin> set c \<Longrightarrow> i \<noteq> bp \<Longrightarrow> usize h' i = usize h i"
    and new: "\<And>x d m. x \<in> set c' \<Longrightarrow> (d, m) \<in> L - {(bp, n)} \<Longrightarrow> 0 < m \<Longrightarrow> x + occ h' x \<le> d \<or> d + m \<le> x"
  shows "live h' base lim c' (L - {(bp, n)})"
proof (rule live_change [OF l(1)])
  note n = liveD [OF l]
  have out: "d \<noteq> bp" "d \<notin> set c" "0 < m" if d: "(d, m) \<in> L - {(bp, n)}" for d m
  proof -
    show "0 < m" using liveD(1) [OF l(1), of d m] d by auto
    moreover have "bp + n \<le> d \<or> d + m \<le> bp" using n(6) [of d m] d by auto
    ultimately show "d \<noteq> bp" using n(1) by auto
    show "d \<notin> set c" using liveD(5) [OF l(1), of d m d] d \<open>0 < m\<close> by (auto simp: occ_def)
  qed
  show "\<forall>(a, m)\<in>L - {(bp, n)}. usize h' a = usize h a" using same out by blast
  show "\<forall>x\<in>set c'. \<forall>(a, m)\<in>L - {(bp, n)}. x + occ h' x \<le> a \<or> a + m \<le> x" using new out(3) by blast
qed auto

lemma freed_merge:
  assumes ok: "heap_ok h base lim L (c1 @ p # c2)" "(bp, n) \<in> L" and a: "around bp c1 p c2" "p + usize h p = bp"
    and c3: "free_ring (set_ptr p (hd (c3 @ [base])) h) base lim (c1 @ p # c3)" "\<forall>x\<in>set c3. bp + n1 \<le> x" "bp + n1 \<le> lim" "n \<le> n1"
      "set c3 \<subseteq> set c2" "\<forall>(a, m)\<in>L - {(bp, n)}. bp + n1 \<le> a \<or> a + m \<le> bp"
    and h': "uptr h' = (uptr h)(bp := hd (c3 @ [base]), p := hd (c3 @ [base]))" "usize h' = (usize h)(bp := n1, p := bp + n1 - p)" "freep h' = p"
  shows "freed h base lim L (c1 @ p # c2) bp n h' (c1 @ p # c3)"
proof -
  have r: "free_ring h base lim (c1 @ p # c2)" and l: "live h base lim (c1 @ p # c2) L" and b: "0 < base" "lim < 2 ^ 32"
    using ok(1) by (auto simp: heap_ok_def)
  have lt: "p < bp" using a(1) by (simp add: around_def)
  have p: "p \<noteq> base" "p + occ h p = bp" using r lt a(2) by (auto simp: free_ring_def occ_def)
  have "free_ring h' base lim (c1 @ p # c3)"
    by (rule ring_merge [OF c3(1), where bp = bp and n = n1]) (use p c3(2-4) liveD(1) [OF l ok(2)] lt in \<open>auto simp: occ_def h'\<close>)
  moreover have "live h' base lim (c1 @ p # c3) (L - {(bp, n)})"
  proof (rule freed_live [OF l ok(2)])
    fix x d m
    assume x: "x \<in> set (c1 @ p # c3)" and d: "(d, m) \<in> L - {(bp, n)}" "0 < m"
    have "bp + n1 \<le> d \<or> d + m \<le> bp" using c3(6) d(1) by auto
    moreover have "y + occ h y \<le> d \<or> d + m \<le> y" if "y \<in> set (c1 @ p # c2)" for y using liveD(5) [OF l, of d m y] d(1) that by auto
    moreover have "x \<noteq> bp" using x a(1) c3(5) by (auto simp: around_def)
    ultimately show "x + occ h' x \<le> d \<or> d + m \<le> x"
      using x c3(5) p(2) d(2) lt by (cases "x = p") (force simp: occ_def h'(2))+
  qed (auto simp: h'(2))
  ultimately show ?thesis using b c3(4,5) lt by (auto simp: freed_def heap_ok_def same_at_def h')
qed

lemma freed_insert:
  assumes ok: "heap_ok h base lim L (c1 @ p # c2)" "(bp, n) \<in> L" and a: "around bp c1 p c2" "p + occ h p \<le> bp"
    and c3: "free_ring (set_ptr p (hd (c3 @ [base])) h) base lim (c1 @ p # c3)" "\<forall>x\<in>set c3. bp + n1 \<le> x" "bp + n1 \<le> lim" "n \<le> n1"
      "set c3 \<subseteq> set c2" "\<forall>(a, m)\<in>L - {(bp, n)}. bp + n1 \<le> a \<or> a + m \<le> bp"
    and h': "uptr h' = (uptr h)(bp := hd (c3 @ [base]), p := bp)" "usize h' = (usize h)(bp := n1)" "freep h' = p"
  shows "freed h base lim L (c1 @ p # c2) bp n h' ((c1 @ [p]) @ bp # c3)"
proof -
  have l: "live h base lim (c1 @ p # c2) L" and b: "0 < base" "lim < 2 ^ 32" using ok(1) by (auto simp: heap_ok_def)
  have lt: "p < bp" using a(1) by (simp add: around_def)
  note n = liveD(1) [OF l ok(2)]
  have "free_ring h' base lim ((c1 @ [p]) @ bp # c3)"
    by (rule ring_insert [OF c3(1), where n = n1]) (use a(2) c3(2-4) n lt in \<open>auto simp: occ_def h' fun_upd_twist\<close>)
  moreover have "live h' base lim ((c1 @ [p]) @ bp # c3) (L - {(bp, n)})"
  proof (rule freed_live [OF l ok(2)])
    fix x d m
    assume x: "x \<in> set ((c1 @ [p]) @ bp # c3)" and d: "(d, m) \<in> L - {(bp, n)}" "0 < m"
    have "bp + n1 \<le> d \<or> d + m \<le> bp" using c3(6) d(1) by auto
    moreover have "x \<noteq> bp \<Longrightarrow> x + occ h x \<le> d \<or> d + m \<le> x" using liveD(5) [OF l, of d m x] d(1) x c3(5) by auto
    ultimately show "x + occ h' x \<le> d \<or> d + m \<le> x" using c3(4) n by (cases "x = bp") (auto simp: occ_def h'(2))
  qed (auto simp: h'(2))
  ultimately show ?thesis using b c3(4,5) lt by (auto simp: freed_def heap_ok_def same_at_def h')
qed

lemma u_free_correct:
  assumes "heap_ok h base lim L c" "(bp, n) \<in> L" "length c < fuel"
  obtains h' c' where "u_free fuel (bp + 1) h = Some h'" "freed h base lim L c bp n h' c'"
proof -
  have r: "free_ring h base lim c" and l: "live h base lim c L" and f: "freep h \<in> set c" and b: "lim < 2 ^ 32"
    using assms(1) by (auto simp: heap_ok_def)
  note n = liveD [OF l assms(2)]
  obtain c1 p c2 where c: "c = c1 @ p # c2" and a: "around bp c1 p c2" "p + occ h p \<le> bp" "\<forall>x\<in>set c2. bp + n \<le> x"
    using ring_around [OF r l assms(2)] .
  have lt: "p < bp" using a(1) by (simp add: around_def)
  have find: "free_find fuel h bp (freep h) = Some p"
    using free_find_around [OF r [unfolded c] a(1) n(3)] f assms(3) by (simp add: c)
  obtain c3 n1 where 1: "(if bp + usize h bp = uptr h p then set_ptr bp (uptr h (uptr h p)) (set_size bp (u32 (usize h bp + usize h (uptr h p))) h)
      else set_ptr bp (uptr h p) h) = set_ptr bp (hd (c3 @ [base])) (set_size bp n1 h)"
    and 2: "free_ring (set_ptr p (hd (c3 @ [base])) h) base lim (c1 @ p # c3)" "\<forall>x\<in>set c3. bp + n1 \<le> x" "bp + n1 \<le> lim" "n \<le> n1"
    "set c3 \<subseteq> set c2" "\<forall>(a, m)\<in>L - {(bp, n)}. bp + n1 \<le> a \<or> a + m \<le> bp"
    using free_right [OF r [unfolded c] l [unfolded c] assms(2) a(3) b] .
  let ?h1 = "set_ptr bp (hd (c3 @ [base])) (set_size bp n1 h)"
  show thesis
  proof (cases "p + usize h p = bp")
    case True
    let ?h = "(set_ptr p (hd (c3 @ [base])) (set_size p (bp + n1 - p) ?h1))\<lparr>freep := p\<rparr>"
    have "u32 (usize h p + n1) = bp + n1 - p" using True 2(3) b lt by (subst u32_less) auto
    then have "u_free fuel (bp + 1) h = Some ?h"
      unfolding u_free_def Let_def add_diff_cancel_right' find option.case 1 using lt True by simp
    moreover have "freed h base lim L c bp n ?h (c1 @ p # c3)"
      unfolding c by (rule freed_merge [OF assms(1) [unfolded c] assms(2) a(1) True 2]) simp_all
    ultimately show thesis using that by blast
  next
    case False
    let ?h = "(set_ptr p bp ?h1)\<lparr>freep := p\<rparr>"
    have "u_free fuel (bp + 1) h = Some ?h"
      unfolding u_free_def Let_def add_diff_cancel_right' find option.case 1 using lt False by simp
    moreover have "freed h base lim L c bp n ?h ((c1 @ [p]) @ bp # c3)"
      unfolding c by (rule freed_insert [OF assms(1) [unfolded c] assms(2) a(1,2) 2]) simp_all
    ultimately show thesis using that by blast
  qed
qed

section \<open>malloc\<close>

definition taken :: "nat \<Rightarrow> nat \<Rightarrow> nat \<Rightarrow> uheap \<Rightarrow> nat \<times> uheap" where
  "taken nunits prevp p h =
     (if usize h p = nunits then (p, (set_ptr prevp (uptr h p) h)\<lparr>freep := prevp\<rparr>)
      else let q = p + (usize h p - nunits) in (q, (set_size q nunits (set_size p (usize h p - nunits) h))\<lparr>freep := prevp\<rparr>))"

lemma malloc_loop_found:
  "usize h p \<ge> nunits \<Longrightarrow> malloc_loop (Suc fuel) nunits prevp p h = (case taken nunits prevp p h of (a, h') \<Rightarrow> Done (a + 1, h'))"
  by (simp add: taken_def Let_def)

lemma malloc_loop_asks:
  "usize h p < nunits \<Longrightarrow> p = freep h \<Longrightarrow> malloc_loop (Suc fuel) nunits prevp p h =
    pbind (morecore fuel nunits h) (\<lambda>(p, h). if p = 0 then Done (0, h) else malloc_loop fuel nunits p (uptr h p) h)"
  by simp

lemma malloc_loop_next:
  "usize h p < nunits \<Longrightarrow> p \<noteq> freep h \<Longrightarrow> malloc_loop (Suc fuel) nunits prevp p h = malloc_loop fuel nunits p (uptr h p) h"
  by simp

declare malloc_loop.simps(2) [simp del]

lemma malloc_walk:
  "links h (prevp # ws @ [p]) \<Longrightarrow> \<forall>x\<in>set ws. usize h x < nunits \<and> x \<noteq> freep h \<Longrightarrow>
    malloc_loop (length ws + k) nunits prevp (hd (ws @ [p])) h = malloc_loop k nunits (last (prevp # ws)) p h"
proof (induction ws arbitrary: prevp)
  case (Cons w ws)
  then show ?case using Cons.IH [of w] by (simp add: malloc_loop_next links_Cons)
qed simp

text \<open>A unit that no block of the ring covers.\<close>

definition outside :: "uheap \<Rightarrow> nat list \<Rightarrow> nat \<Rightarrow> bool" where
  "outside h c i \<longleftrightarrow> (\<forall>x\<in>set c. i < x \<or> x + occ h x \<le> i)"

lemma ring_shrink:
  assumes "free_ring h base lim c" "uptr h' = uptr h" "\<forall>x\<in>set c. occ h' x \<le> occ h x" "usize h' base = 0" "\<forall>x\<in>set c. x \<noteq> base \<longrightarrow> usize h' x > 0"
  shows "free_ring h' base lim c"
proof -
  have "spaced h c" using assms(1) by (simp add: free_ring_def)
  then have "spaced h' c" by (rule sorted_wrt_mono_rel [rotated]) (use assms(3) in fastforce)
  moreover have "links h' (c @ [base])" using assms(1,2) links_cong [of "c @ [base]" h' h] by (simp add: free_ring_def)
  ultimately show ?thesis using assms by (fastforce simp: free_ring_def)
qed

text \<open>A block cut off the end of a free block, or a whole free block.\<close>

lemma live_insert:
  assumes "live h base lim c L" "0 < n" "usize h' a = n" "base < a" "a + n \<le> lim"
    and "\<forall>(d, m)\<in>L. usize h' d = usize h d \<and> (a + n \<le> d \<or> d + m \<le> a)"
    and "\<forall>x\<in>set c'. x + occ h' x \<le> a \<or> a + n \<le> x" "\<forall>x\<in>set c'. \<forall>(d, m)\<in>L. x + occ h' x \<le> d \<or> d + m \<le> x"
  shows "live h' base lim c' (insert (a, n) L)"
proof -
  have l: "live h' base lim c' L" by (rule live_change [OF assms(1)]) (use assms(6,8) in auto)
  show ?thesis
  proof (rule liveI)
    fix d m assume "(d, m) \<in> insert (a, n) L"
    then show "m > 0 \<and> usize h' d = m \<and> base < d \<and> d + m \<le> lim \<and> (\<forall>x\<in>set c'. x + occ h' x \<le> d \<or> d + m \<le> x)"
      using liveD(1-5) [OF l, of d m] assms(2-5,7) by auto
  next
    fix d m e k assume "(d, m) \<in> insert (a, n) L" "(e, k) \<in> insert (a, n) L" "(d, m) \<noteq> (e, k)"
    then show "d + m \<le> e \<or> e + k \<le> d" using liveD(6) [OF l, of d m e k] assms(6) by auto
  qed
qed

lemma ring_apart:
  assumes "free_ring h base lim c" "x \<in> set c" "y \<in> set c" "x \<noteq> y"
  shows "x + occ h x \<le> y \<or> y + occ h y \<le> x"
proof -
  obtain i j where ij: "i < length c" "c ! i = x" "j < length c" "c ! j = y" using assms(2,3) by (metis in_set_conv_nth)
  have s: "spaced h c" using assms(1) by (simp add: free_ring_def)
  from assms(4) ij have "i < j \<or> j < i" by (metis nat_neq_iff)
  then show ?thesis using sorted_wrt_nth_less [OF s, of i j] sorted_wrt_nth_less [OF s, of j i] ij by auto
qed

lemma ring_size:
  assumes "free_ring h base lim c" "p \<in> set c" "p \<noteq> base"
  shows "occ h p = usize h p" "0 < usize h p" "base < p" "p + usize h p \<le> lim"
proof -
  show pos: "0 < usize h p" using assms by (auto simp: free_ring_def)
  then show o: "occ h p = usize h p" by (simp add: occ_def)
  show "base < p" using ring_less [OF assms(1,2)] assms(3) by simp
  show "p + usize h p \<le> lim" using assms(1,2) o by (auto simp: free_ring_def)
qed

lemma outside_in: "outside h c i \<Longrightarrow> i \<notin> set c"
  unfolding outside_def using occ_pos [of h i] by (metis add_le_same_cancel1 less_irrefl not_less)

lemma taken_exact:
  assumes r: "free_ring h base lim (c1 @ prevp # p # c3)" and l: "live h base lim (c1 @ prevp # p # c3) L" and p: "p \<noteq> base"
    and h': "uptr h' = (uptr h)(prevp := uptr h p)" "usize h' = usize h"
  shows "free_ring h' base lim (c1 @ prevp # c3)" "live h' base lim (c1 @ prevp # c3) (insert (p, usize h p) L)"
proof -
  have o: "occ h' = occ h" by (simp add: occ_def fun_eq_iff h'(2))
  have r': "free_ring h base lim ((c1 @ [prevp]) @ p # c3)" using r by simp
  show "free_ring h' base lim (c1 @ prevp # c3)" by (rule ring_remove [OF r]) (simp_all add: h' ring_next [OF r'])
  note s = ring_size [OF r _ p, simplified]
  have n: "p \<notin> set (c1 @ prevp # c3)" using ring_sorted(1,2) [OF r', of p] s(1,2) by auto
  show "live h' base lim (c1 @ prevp # c3) (insert (p, usize h p) L)"
  proof (rule live_insert [OF l])
    show "\<forall>(d, m)\<in>L. usize h' d = usize h d \<and> (p + usize h p \<le> d \<or> d + m \<le> p)" using liveD(5) [OF l, of _ _ p] s(1) by (auto simp: h'(2))
    show "\<forall>x\<in>set (c1 @ prevp # c3). x + occ h' x \<le> p \<or> p + usize h p \<le> x"
      using ring_apart [OF r, of _ p] n s(1) by (metis (no_types, lifting) Un_iff insert_iff list.set(2) o set_append)
    show "\<forall>x\<in>set (c1 @ prevp # c3). \<forall>(d, m)\<in>L. x + occ h' x \<le> d \<or> d + m \<le> x" using liveD(5) [OF l] by (auto simp: o)
  qed (use s in \<open>auto simp: h'(2)\<close>)
qed

lemma taken_split:
  assumes r: "free_ring h base lim c" and l: "live h base lim c L" and p: "p \<in> set c" "p \<noteq> base"
    and s: "s + n = usize h p" "0 < s" "0 < n" and h': "uptr h' = uptr h" "usize h' = (usize h)(p := s, p + s := n)"
  shows "free_ring h' base lim c" "live h' base lim c (insert (p + s, n) L)"
proof -
  note z = ring_size [OF r p]
  have q: "p + s \<notin> set c" using ring_apart [OF r p(1), of "p + s"] z(1) s by (auto simp: occ_def)
  have o: "occ h' x \<le> occ h x" "x + occ h' x \<le> p + s \<or> p + s + n \<le> x" if x: "x \<in> set c" for x
  proof -
    have "x \<noteq> p + s" using q x by auto
    then show "occ h' x \<le> occ h x" using s z(1) by (auto simp: occ_def h'(2))
    show "x + occ h' x \<le> p + s \<or> p + s + n \<le> x"
      using ring_apart [OF r p(1) x] \<open>x \<noteq> p + s\<close> s z(1) by (cases "x = p") (auto simp: occ_def h'(2))
  qed
  show "free_ring h' base lim c"
  proof (rule ring_shrink [OF r h'(1)])
    show "\<forall>x\<in>set c. x \<noteq> base \<longrightarrow> usize h' x > 0" "usize h' base = 0" using r s z(3) by (auto simp: h'(2) free_ring_def)
  qed (use o in auto)
  have d: "usize h' d = usize h d" "p + s + n \<le> d \<or> d + m \<le> p + s" if "(d, m) \<in> L" for d m
    using liveD(1,5) [OF l that] p(1) z(1) s by (fastforce simp: h'(2))+
  show "live h' base lim c (insert (p + s, n) L)"
  proof (rule live_insert [OF l])
    show "\<forall>(d, m)\<in>L. usize h' d = usize h d \<and> (p + s + n \<le> d \<or> d + m \<le> p + s)" using d by auto
    show "\<forall>x\<in>set c. \<forall>(d, m)\<in>L. x + occ h' x \<le> d \<or> d + m \<le> x"
      using liveD(5) [OF l] o(1) by (fastforce intro: order_trans [OF add_left_mono])
  qed (use s z o(2) in \<open>auto simp: h'(2)\<close>)
qed

lemma taken_ok:
  assumes "heap_ok h base lim L c" "prevp \<in> set c" "uptr h prevp = p" "usize h p \<ge> n" "0 < n" "taken n prevp p h = (a, h')"
  obtains c' where "heap_ok h' base lim (insert (a, n) L) c'" "\<And>i. outside h c i \<Longrightarrow> same_at h h' i" "(a, n) \<notin> L"
proof -
  have r: "free_ring h base lim c" and l: "live h base lim c L" and b: "0 < base" "lim < 2 ^ 32"
    using assms(1) by (auto simp: heap_ok_def)
  obtain c1 v where c: "c = c1 @ prevp # v" using assms(2) by (meson split_list)
  have base: "p \<noteq> base" using r assms(4,5) by (auto simp: free_ring_def)
  then obtain c3 where v: "v = p # c3" using ring_next [OF r [unfolded c]] assms(3) by (cases v) auto
  show thesis
  proof (cases "usize h p = n")
    case True
    then have a: "a = p" and h': "uptr h' = (uptr h)(prevp := uptr h p)" "usize h' = usize h" "freep h' = prevp"
      using assms(6) by (auto simp: taken_def)
    have "heap_ok h' base lim (insert (a, n) L) (c1 @ prevp # c3)"
      using taken_exact [OF r [unfolded c v] l [unfolded c v] base h'(1,2)] b True by (simp add: heap_ok_def h'(3) a)
    moreover have "same_at h h' i" if "outside h c i" for i using outside_in [OF that] by (auto simp: same_at_def h' c)
    moreover have "(a, n) \<notin> L" using liveD(5) [OF l, of a n p] True assms(5) by (auto simp: a c v occ_def)
    ultimately show thesis using that [of "c1 @ prevp # c3"] by (auto simp: c v)
  next
    case False
    let ?s = "usize h p - n"
    have a: "a = p + ?s" and h': "uptr h' = uptr h" "usize h' = (usize h)(p := ?s, p + ?s := n)" "freep h' = prevp"
      using assms(6) False by (auto simp: taken_def Let_def)
    have p: "p \<in> set c" by (simp add: c v)
    have s: "?s + n = usize h p" "0 < ?s" using False assms(4) by auto
    have "heap_ok h' base lim (insert (a, n) L) c"
      using taken_split [OF r l p base s assms(5) h'(1,2)] b assms(2) by (simp add: heap_ok_def h'(3) a)
    moreover have "same_at h h' i" if i: "outside h c i" for i
      using outside_in [OF i] i p ring_size(1) [OF r p base] s assms(5) by (fastforce simp: same_at_def h' outside_def)
    moreover have "(a, n) \<notin> L" using liveD(5) [OF l, of a n p] p s assms(5) by (auto simp: a occ_def)
    ultimately show thesis using that by blast
  qed
qed

section \<open>The search\<close>

lemma links_last: "links h (x # ws @ [p]) \<Longrightarrow> uptr h (last (x # ws)) = p"
  by (induction ws arbitrary: x) (auto simp: links_Cons)

lemma ring_distinct: "free_ring h base lim c \<Longrightarrow> distinct c"
proof -
  assume "free_ring h base lim c"
  then have "spaced h c" by (simp add: free_ring_def)
  then have "sorted_wrt (<) c" by (rule sorted_wrt_mono_rel [rotated]) (auto simp: occ_def)
  then show ?thesis by (simp add: strict_sorted_iff)
qed

lemma ring_walk:
  assumes "heap_ok h base lim L c"
  obtains rest where "links h (freep h # rest @ [freep h])" "set (freep h # rest) = set c" "length rest < length c" "freep h \<notin> set rest"
proof -
  have r: "free_ring h base lim c" and f: "freep h \<in> set c" using assms by (auto simp: heap_ok_def)
  obtain rest where rest: "links h (freep h # rest @ [freep h])" "set (freep h # rest) = set c" "length rest < length c"
    by (rule links_rotate [of h c base "freep h"]) (use r f in \<open>auto simp: free_ring_def\<close>)
  have "length c = card (set (freep h # rest))" using distinct_card [OF ring_distinct [OF r]] rest(2) by simp
  then have "freep h \<notin> set rest" using card_length [of rest] rest(3) by (cases "freep h \<in> set rest") (auto simp: insert_absorb)
  with rest show thesis using that by blast
qed

text \<open>One round of the ring finds a block that is large enough, if there is one.\<close>

lemma malloc_loop_big:
  assumes "heap_ok h base lim L c" "\<exists>x\<in>set c. n \<le> usize h x" "0 < n" "length c < fuel"
  obtains a h' c' where "malloc_loop fuel n (freep h) (uptr h (freep h)) h = Done (a + 1, h')" "heap_ok h' base lim (insert (a, n) L) c'"
    "\<And>i. outside h c i \<Longrightarrow> same_at h h' i" "(a, n) \<notin> L"
proof -
  let ?f = "freep h"
  obtain rest where rest: "links h (?f # rest @ [?f])" "set (?f # rest) = set c" "length rest < length c" "?f \<notin> set rest"
    using ring_walk [OF assms(1)] .
  obtain ws p vs where w: "rest @ [?f] = ws @ p # vs" "n \<le> usize h p" "\<forall>x\<in>set ws. \<not> n \<le> usize h x"
    using split_list_first_prop [of "rest @ [?f]" "\<lambda>x. n \<le> usize h x"] assms(2) rest(2) by fastforce
  have sub: "set ws \<subseteq> set rest" "length ws \<le> length rest"
    using w(1) by (auto simp: append_eq_append_conv2 Cons_eq_append_conv append_eq_Cons_conv)
  have lk: "links h (?f # ws @ [p])" using rest(1) links_append [of h "?f # ws" p vs] by (simp add: w(1))
  let ?prev = "last (?f # ws)"
  obtain k where k: "fuel = length ws + Suc k" using less_imp_Suc_add [of "length ws" fuel] sub(2) rest(3) assms(4) by auto
  have hd: "uptr h ?f = hd (ws @ [p])" using lk by (simp add: links_Cons)
  note next_ = links_last [OF lk]
  have prev: "?prev \<in> set c" using sub(1) rest(2) by (cases ws rule: rev_cases) auto
  obtain a h' where t: "taken n ?prev p h = (a, h')" by fastforce
  have "malloc_loop fuel n ?f (uptr h ?f) h = malloc_loop (Suc k) n ?prev p h"
    unfolding k hd by (rule malloc_walk [OF lk]) (use w(3) sub(1) rest(4) in force)
  then have "malloc_loop fuel n ?f (uptr h ?f) h = Done (a + 1, h')" unfolding malloc_loop_found [OF w(2)] t by simp
  then show thesis using taken_ok [OF assms(1) prev next_ w(2) assms(3) t] that by metis
qed

text \<open>Otherwise it asks for more memory.\<close>

lemma malloc_loop_none:
  assumes "heap_ok h base lim L c" "\<forall>x\<in>set c. usize h x < n" "length c < fuel"
  obtains k where "malloc_loop fuel n (freep h) (uptr h (freep h)) h =
      pbind (morecore k n h) (\<lambda>(p, h). if p = 0 then Done (0, h) else malloc_loop k n p (uptr h p) h)" "fuel \<le> k + length c"
proof -
  let ?f = "freep h"
  obtain rest where rest: "links h (?f # rest @ [?f])" "set (?f # rest) = set c" "length rest < length c" "?f \<notin> set rest"
    using ring_walk [OF assms(1)] .
  obtain k where k: "fuel = length rest + Suc k" using less_imp_Suc_add [of "length rest" fuel] rest(3) assms(3) by auto
  have hd: "uptr h ?f = hd (rest @ [?f])" using rest(1) by (simp add: links_Cons)
  have "malloc_loop fuel n ?f (uptr h ?f) h = malloc_loop (Suc k) n (last (?f # rest)) ?f h"
    unfolding k hd by (rule malloc_walk [OF rest(1)]) (use assms(2) rest(2,4) in auto)
  moreover have "usize h ?f < n" using assms(2) rest(2) by auto
  ultimately show thesis using that [of k] k rest(3) by (simp add: malloc_loop_asks)
qed

section \<open>More memory\<close>

text \<open>
  The system call \<open>sbrk\<close> as the allocator uses it: the world is the end of the data of the process, which moves by the argument
  up to a limit.
\<close>

definition sbrk_world :: "nat \<Rightarrow> sysreq \<Rightarrow> nat \<Rightarrow> sysans \<times> nat" where
  "sbrk_world limit req brk = (case req of
     Sys_sbrk n _ \<Rightarrow> if 0 \<le> int brk + n \<and> int brk + n \<le> int limit then (plain (int brk), nat (int brk + n)) else (plain (- 1), brk)
   | _ \<Rightarrow> (plain (- 1), brk))"

lemma heap_ok_grow:
  assumes "heap_ok h base lim L c" "0 < nu" "lim + nu < 2 ^ 32"
  shows "heap_ok (set_size lim nu h) base (lim + nu) (insert (lim, nu) L) c"
proof -
  let ?h = "set_size lim nu h"
  have r: "free_ring h base lim c" and l: "live h base lim c L" and b: "0 < base" "freep h \<in> set c" using assms(1) by (auto simp: heap_ok_def)
  have c: "x < lim" "occ ?h x = occ h x" "x + occ h x \<le> lim" if "x \<in> set c" for x
    using ring_less [OF r that] r that by (auto simp: occ_def free_ring_def)
  have base: "base < lim" using r c(1) [of base] by (cases c) (auto simp: free_ring_def)
  have "links ?h (c @ [base])" "spaced ?h c"
    using r links_cong [of "c @ [base]" ?h h] spaced_cong [of c ?h h] c(2) by (auto simp: free_ring_def)
  moreover have "\<forall>x\<in>set c. x + occ ?h x \<le> lim + nu" "\<forall>x\<in>set c. x \<noteq> base \<longrightarrow> usize ?h x > 0" "usize ?h base = 0"
    using c r base by (fastforce simp: free_ring_def)+
  ultimately have "free_ring ?h base (lim + nu) c" using r by (simp add: free_ring_def)
  moreover have "live ?h base (lim + nu) c (insert (lim, nu) L)"
  proof (rule liveI)
    fix a m assume "(a, m) \<in> insert (lim, nu) L"
    then show "m > 0 \<and> usize ?h a = m \<and> base < a \<and> a + m \<le> lim + nu \<and> (\<forall>x\<in>set c. x + occ ?h x \<le> a \<or> a + m \<le> x)"
      using liveD(1-5) [OF l, of a m] assms(2) c base by fastforce
  next
    fix a m d k assume "(a, m) \<in> insert (lim, nu) L" "(d, k) \<in> insert (lim, nu) L" "(a, m) \<noteq> (d, k)"
    then show "a + m \<le> d \<or> d + k \<le> a" using liveD(6) [OF l, of a m d k] liveD(4) [OF l] by fastforce
  qed
  ultimately show ?thesis using b assms(3) by (simp add: heap_ok_def)
qed

text \<open>The units of the blocks in use keep their contents.\<close>

definition kept :: "(nat \<times> nat) set \<Rightarrow> uheap \<Rightarrow> uheap \<Rightarrow> bool" where
  "kept L h h' \<longleftrightarrow> (\<forall>(a, n)\<in>L. \<forall>i\<in>{a..<a + n}. same_at h h' i)"

lemma live_outside: "live h base lim c L \<Longrightarrow> (a, n) \<in> L \<Longrightarrow> i \<in> {a..<a + n} \<Longrightarrow> outside h c i"
  using liveD(5) [of h base lim c L a n] by (fastforce simp: outside_def)

lemma keptI: "live h base lim c L \<Longrightarrow> (\<And>i. outside h c i \<Longrightarrow> i < lim \<Longrightarrow> same_at h h' i) \<Longrightarrow> kept L h h'"
  unfolding kept_def using live_outside liveD(4) by fastforce

lemma blocks_kept_trans: "kept L h h' \<Longrightarrow> kept L h' h'' \<Longrightarrow> kept L h h''"
  unfolding kept_def same_at_def by fastforce

lemma sbrk_argument: "k < 2 ^ 31 \<Longrightarrow> sint (word_of_int (int k) :: 32 word) = int k"
  by (subst sint_sbintrunc') (simp add: signed_take_bit_int_eq_self)

definition growth :: "nat \<Rightarrow> nat" where
  "growth nu = (if nu < 4096 then 4096 else nu)"

lemma run_sbrk:
  "k < 2 ^ 31 \<Longrightarrow> run (sbrk_world limit) (u_sbrk (sint (word_of_int (int k) :: 32 word))) brk =
    (if brk + k \<le> limit then (Returned (int brk), brk + k) else (Returned (- 1), brk))"
  by (simp only: sbrk_argument) (simp add: u_sbrk_def syscall1_def sbrk_world_def plain_def nat_add_distrib)

lemma morecore_ok:
  assumes "heap_ok h base lim L c" "length c < fuel" "16 * growth nu < 2 ^ 31" "limit < 2 ^ 36" "16 * (lim + growth nu) \<le> limit"
  obtains h' c' where "run (sbrk_world limit) (morecore fuel nu h) (16 * lim) = (Returned (freep h', h'), 16 * (lim + growth nu))"
    "heap_ok h' base (lim + growth nu) L c'" "\<exists>x\<in>set c'. nu \<le> usize h' x" "kept L h h'" "length c' \<le> length c + 1"
proof -
  let ?nu = "growth nu" and ?h = "set_size lim (growth nu) h"
  have nu: "0 < ?nu" "nu \<le> ?nu" by (auto simp: growth_def)
  have r: "free_ring h base lim c" and l: "live h base lim c L" using assms(1) by (auto simp: heap_ok_def)
  have new: "(lim, ?nu) \<notin> L" using liveD(1,4) [OF l, of lim ?nu] nu by auto
  have ok: "heap_ok ?h base (lim + ?nu) (insert (lim, ?nu) L) c" by (rule heap_ok_grow [OF assms(1) nu(1)]) (use assms(4,5) in simp)
  obtain h' c' where h': "u_free fuel (lim + 1) ?h = Some h'" "heap_ok h' base (lim + ?nu) L c'" "\<exists>x\<in>set c'. ?nu \<le> usize h' x"
    "\<And>i. i \<notin> set c \<Longrightarrow> i \<noteq> lim \<Longrightarrow> same_at ?h h' i" "set c' \<subseteq> insert lim (set c)"
    by (rule u_free_correct [OF ok, of lim ?nu fuel]) (use assms(2) new in \<open>auto simp: freed_def insert_Diff_if\<close>)
  have "run (sbrk_world limit) (morecore fuel nu h) (16 * lim) = (Returned (freep h', h'), 16 * (lim + ?nu))"
    unfolding morecore_def Let_def growth_def [symmetric]
    using run_sbrk [of "?nu * 16" limit "16 * lim"] assms(3,5) h'(1) by (simp add: run_pbind mult.commute nat_mult_distrib)
  moreover have "kept L h h'"
    by (rule keptI [OF l]) (use h'(4) outside_in in \<open>fastforce simp: same_at_def\<close>)
  moreover have "length c' \<le> length c + 1"
  proof -
    have "free_ring h' base (lim + ?nu) c'" using h'(2) by (simp add: heap_ok_def)
    then have "length c' = card (set c')" using ring_distinct distinct_card by metis
    also have "\<dots> \<le> card (insert lim (set c))" using h'(5) by (simp add: card_mono)
    also have "\<dots> \<le> length c + 1" using card_length [of c] by (simp add: card_insert_if)
    finally show ?thesis .
  qed
  ultimately show thesis using that h'(2,3) nu(2) by (meson order_trans)
qed

lemma morecore_fails:
  assumes "16 * growth nu < 2 ^ 31" "limit < 16 * (lim + growth nu)"
  shows "run (sbrk_world limit) (morecore fuel nu h) (16 * lim) = (Returned (0, h), 16 * lim)"
  unfolding morecore_def Let_def growth_def [symmetric]
  using run_sbrk [of "growth nu * 16" limit "16 * lim"] assms by (simp add: run_pbind mult.commute)

lemma units_bounds:
  assumes "nb + 31 < 2 ^ 31"
  shows "0 < units nb" "nb + 16 \<le> 16 * units nb" "16 * growth (units nb) < 2 ^ 31"
  using assms by (auto simp: units_def u32_def growth_def)

lemma malloc_loop_correct:
  assumes ok: "heap_ok h base lim L c" and n: "0 < n" "16 * growth n < 2 ^ 31" and b: "limit < 2 ^ 36" "2 * length c + 2 < fuel"
  obtains p h' lim' where "run (sbrk_world limit) (malloc_loop fuel n (freep h) (uptr h (freep h)) h) (16 * lim) = (Returned (p, h'), 16 * lim')"
    "16 * lim' \<le> max (16 * lim) limit" "kept L h h'" "if p = 0 then h' = h \<and> lim' = lim \<and> limit < 16 * (lim + growth n)
      else (p - 1, n) \<notin> L \<and> (\<exists>c'. heap_ok h' base lim' (insert (p - 1, n) L) c')"
proof (cases "\<exists>x\<in>set c. n \<le> usize h x")
  case True
  obtain a h' c' where t: "malloc_loop fuel n (freep h) (uptr h (freep h)) h = Done (a + 1, h')" "heap_ok h' base lim (insert (a, n) L) c'"
    "\<And>i. outside h c i \<Longrightarrow> same_at h h' i" "(a, n) \<notin> L"
    by (rule malloc_loop_big [OF ok True n(1), of fuel]) (use b(2) in auto)
  moreover have "kept L h h'" using ok t(3) by (auto simp: heap_ok_def intro: keptI)
  ultimately show thesis using that [of "a + 1" h' lim] by auto
next
  case False
  then have small: "\<forall>x\<in>set c. usize h x < n" by auto
  obtain k where k: "malloc_loop fuel n (freep h) (uptr h (freep h)) h =
      pbind (morecore k n h) (\<lambda>(p, h). if p = 0 then Done (0, h) else malloc_loop k n p (uptr h p) h)" "fuel \<le> k + length c"
    using malloc_loop_none [OF ok small, of fuel] b(2) by auto
  show thesis
  proof (cases "16 * (lim + growth n) \<le> limit")
    case True
    obtain h' c' where m: "run (sbrk_world limit) (morecore k n h) (16 * lim) = (Returned (freep h', h'), 16 * (lim + growth n))"
      "heap_ok h' base (lim + growth n) L c'" "\<exists>x\<in>set c'. n \<le> usize h' x" "kept L h h'" "length c' \<le> length c + 1"
      using morecore_ok [OF ok _ n(2) b(1) True, of k] k(2) b(2) by auto
    obtain a h'' c'' where t: "malloc_loop k n (freep h') (uptr h' (freep h')) h' = Done (a + 1, h'')"
      "heap_ok h'' base (lim + growth n) (insert (a, n) L) c''" "\<And>i. outside h' c' i \<Longrightarrow> same_at h' h'' i" "(a, n) \<notin> L"
      by (rule malloc_loop_big [OF m(2,3) n(1), of k]) (use k(2) b(2) m(5) in auto)
    have "freep h' \<noteq> 0" using m(2) ring_less [of h' base "lim + growth n" c' "freep h'"] by (auto simp: heap_ok_def)
    moreover have "kept L h' h''" using m(2) t(3) by (auto simp: heap_ok_def intro: keptI)
    ultimately show thesis
      using that [of "a + 1" h'' "lim + growth n"] k(1) m(1) t(1,2,4) True blocks_kept_trans [OF m(4)] by (auto simp: run_pbind)
  next
    case False
    then show thesis using that [of 0 h lim] k(1) morecore_fails [OF n(2), of limit lim k h] by (auto simp: run_pbind kept_def same_at_def)
  qed
qed

text \<open>More rounds do not change a result.\<close>

lemma free_find_Suc: "free_find fuel h bp p = Some q \<Longrightarrow> free_find (Suc fuel) h bp p = Some q"
proof (induction fuel arbitrary: p)
  case (Suc fuel)
  have step: "free_find (Suc (Suc fuel)) h bp p = (if free_stop h bp p then Some p else free_find (Suc fuel) h bp (uptr h p))"
    by (rule free_find.simps(2))
  show ?case unfolding step using Suc.prems Suc.IH [of "uptr h p"] by (cases "free_stop h bp p") auto
qed simp

lemma u_free_Suc: "u_free fuel ap h = Some h' \<Longrightarrow> u_free (Suc fuel) ap h = Some h'"
  unfolding u_free_def Let_def
  by (cases "free_find fuel h (ap - 1) (freep h)") (simp_all add: free_find_Suc del: free_find.simps One_nat_def)

lemma morecore_Suc: "run W (morecore fuel nu h) w = (Returned r, w') \<Longrightarrow> run W (morecore (Suc fuel) nu h) w = (Returned r, w')"
  by (auto simp: morecore_def Let_def run_pbind u_free_Suc split: prod.splits ustop.splits if_splits option.splits)

lemma malloc_loop_Suc:
  "run W (malloc_loop fuel n prevp p h) w = (Returned r, w') \<Longrightarrow> run W (malloc_loop (Suc fuel) n prevp p h) w = (Returned r, w')"
proof (induction fuel arbitrary: prevp p h w)
  case (Suc fuel)
  consider "n \<le> usize h p" | "usize h p < n" "p = freep h" | "usize h p < n" "p \<noteq> freep h" by linarith
  then show ?case
  proof cases
    case 1
    then show ?thesis using Suc.prems by (simp add: malloc_loop_found split: prod.splits)
  next
    case 2
    note asks = malloc_loop_asks [OF 2]
    obtain q h1 w1 where m: "run W (morecore fuel n h) w = (Returned (q, h1), w1)"
      using Suc.prems unfolding asks by (auto simp: run_pbind split: prod.splits ustop.splits)
    show ?thesis
      using Suc.prems Suc.IH [of q "uptr h1 q" h1 w1] unfolding asks by (simp add: run_pbind m morecore_Suc [OF m] split: if_splits)
  next
    case 3
    then show ?thesis using Suc.prems Suc.IH [of p "uptr h p" h w] by (simp add: malloc_loop_next)
  qed
qed simp

lemma malloc_more:
  assumes "run W (malloc fuel base nb h) w = (Returned r, w')" "fuel \<le> fuel'"
  shows "run W (malloc fuel' base nb h) w = (Returned r, w')"
  using assms(2,1)
proof (induction rule: dec_induct)
  case (step k)
  then show ?case by (simp add: malloc_def Let_def malloc_loop_Suc split: if_splits)
qed simp

section \<open>A program that uses the heap\<close>

text \<open>The result with all large enough bounds on the rounds.\<close>

definition malloc_returns :: "nat \<Rightarrow> nat \<Rightarrow> nat \<Rightarrow> uheap \<Rightarrow> nat \<Rightarrow> nat \<Rightarrow> uheap \<Rightarrow> nat \<Rightarrow> bool" where
  "malloc_returns limit base nb h brk p h' brk' \<longleftrightarrow>
     (\<exists>F. \<forall>fuel\<ge>F. run (sbrk_world limit) (malloc fuel base nb h) brk = (Returned (p, h'), brk'))"

definition free_returns :: "nat \<Rightarrow> uheap \<Rightarrow> uheap \<Rightarrow> bool" where
  "free_returns ap h h' \<longleftrightarrow> (\<exists>F. \<forall>fuel\<ge>F. u_free fuel ap h = Some h')"

text \<open>
  The states that a program reaches which allocates blocks, frees blocks it has, and stores into the blocks it has, behind their
  headers. \<open>L\<close> are the blocks in use, by their header and their size in units.
\<close>

inductive heap_run :: "nat \<Rightarrow> nat \<Rightarrow> uheap \<Rightarrow> nat \<Rightarrow> (nat \<times> nat) set \<Rightarrow> bool" for limit base where
  start: "freep h = 0 \<Longrightarrow> 0 < base \<Longrightarrow> base < lim \<Longrightarrow> 16 * lim \<le> limit \<Longrightarrow> heap_run limit base h (16 * lim) {}"
| allocate: "heap_run limit base h brk L \<Longrightarrow> nb + 31 < 2 ^ 31 \<Longrightarrow> malloc_returns limit base nb h brk p h' brk' \<Longrightarrow>
    heap_run limit base h' brk' (if p = 0 then L else insert (p - 1, units nb) L)"
| release: "heap_run limit base h brk L \<Longrightarrow> (a, n) \<in> L \<Longrightarrow> free_returns (a + 1) h h' \<Longrightarrow> heap_run limit base h' brk (L - {(a, n)})"
| store: "heap_run limit base h brk L \<Longrightarrow> freep h' = freep h \<Longrightarrow> \<forall>i. (\<exists>(a, n)\<in>L. a < i \<and> i < a + n) \<or> same_at h h' i \<Longrightarrow>
    heap_run limit base h' brk L"

definition heap_inv :: "nat \<Rightarrow> uheap \<Rightarrow> nat \<Rightarrow> nat \<Rightarrow> (nat \<times> nat) set \<Rightarrow> bool" where
  "heap_inv limit h base lim L \<longleftrightarrow> 16 * lim \<le> limit \<and>
     (freep h = 0 \<and> L = {} \<and> 0 < base \<and> base < lim \<or> (\<exists>c. heap_ok h base lim L c))"

lemma heap_ok_freep: "heap_ok h base lim L c \<Longrightarrow> freep h \<noteq> 0"
  using ring_less [of h base lim c "freep h"] by (auto simp: heap_ok_def)

lemma malloc_correct:
  assumes "heap_inv limit h base lim L" "limit < 2 ^ 36" "nb + 31 < 2 ^ 31"
  obtains p h' lim' where "malloc_returns limit base nb h (16 * lim) p h' (16 * lim')" "kept L h h'"
    "heap_inv limit h' base lim' (if p = 0 then L else insert (p - 1, units nb) L)"
    "if p = 0 then limit < 16 * (lim + growth (units nb)) else (p - 1, units nb) \<notin> L"
proof -
  define h0 where "h0 = (if freep h = 0 then set_size base 0 ((set_ptr base base h)\<lparr>freep := base\<rparr>) else h)"
  have start: "malloc fuel base nb h = malloc_loop fuel (units nb) (freep h0) (uptr h0 (freep h0)) h0" for fuel
    by (simp add: malloc_def h0_def Let_def)
  obtain c where ok: "heap_ok h0 base lim L c" and k0: "kept L h h0"
  proof (cases "freep h = 0")
    case True
    then have "\<not> heap_ok h base lim L c" for c using heap_ok_freep by blast
    then have "L = {}" "0 < base" "base < lim" "lim < 2 ^ 32" using assms(1,2) by (auto simp: heap_inv_def)
    then show thesis using True that [of "[base]"] by (auto simp: h0_def heap_ok_def free_ring_def live_def occ_def kept_def)
  next
    case False
    then show thesis using assms(1) that by (auto simp: heap_inv_def h0_def kept_def same_at_def)
  qed
  note u = units_bounds [OF assms(3)]
  let ?F = "2 * length c + 3"
  obtain p h' lim' where m: "run (sbrk_world limit) (malloc ?F base nb h) (16 * lim) = (Returned (p, h'), 16 * lim')" "16 * lim' \<le> max (16 * lim) limit" "kept L h0 h'"
    "if p = 0 then h' = h0 \<and> lim' = lim \<and> limit < 16 * (lim + growth (units nb)) else (p - 1, units nb) \<notin> L \<and> (\<exists>c'. heap_ok h' base lim' (insert (p - 1, units nb) L) c')"
    unfolding start by (rule malloc_loop_correct [OF ok u(1,3) assms(2), of ?F]) auto
  have "malloc_returns limit base nb h (16 * lim) p h' (16 * lim')" using malloc_more [OF m(1)] by (auto simp: malloc_returns_def)
  moreover have "heap_inv limit h' base lim' (if p = 0 then L else insert (p - 1, units nb) L)"
    using m(2,4) ok assms(1) by (auto simp: heap_inv_def split: if_splits)
  ultimately show thesis using that [of p h' lim'] blocks_kept_trans [OF k0 m(3)] m(4) by (auto split: if_splits)
qed

lemma malloc_returns_unique:
  "malloc_returns limit base nb h brk p h' brk' \<Longrightarrow> malloc_returns limit base nb h brk q h'' brk'' \<Longrightarrow> p = q \<and> h' = h'' \<and> brk' = brk''"
  unfolding malloc_returns_def by (metis Pair_inject max.cobounded1 max.cobounded2 ustop.inject(1))

lemma free_returns_unique: "free_returns ap h h' \<Longrightarrow> free_returns ap h h'' \<Longrightarrow> h' = h''"
  unfolding free_returns_def by (metis max.cobounded1 max.cobounded2 option.inject)

lemma heap_inv_block: "heap_inv limit h base lim L \<Longrightarrow> (a, n) \<in> L \<Longrightarrow> \<exists>c. heap_ok h base lim L c"
  by (auto simp: heap_inv_def)

lemma free_correct:
  assumes "heap_inv limit h base lim L" "(a, n) \<in> L"
  obtains h' where "free_returns (a + 1) h h'" "heap_inv limit h' base lim (L - {(a, n)})" "kept (L - {(a, n)}) h h'"
proof -
  obtain c where ok: "heap_ok h base lim L c" using heap_inv_block [OF assms] by auto
  obtain h' c' where f: "u_free (length c + 1) (a + 1) h = Some h'" "heap_ok h' base lim (L - {(a, n)}) c'"
    "\<And>i. i \<notin> set c \<Longrightarrow> i \<noteq> a \<Longrightarrow> same_at h h' i"
    by (rule u_free_correct [OF ok assms(2), of "length c + 1"]) (auto simp: freed_def)
  have more: "length c + 1 \<le> fuel \<Longrightarrow> u_free fuel (a + 1) h = Some h'" for fuel
  proof (induction rule: dec_induct)
    case (step k)
    then show ?case by (intro u_free_Suc)
  qed (rule f(1))
  have l: "live h base lim c L" using ok by (simp add: heap_ok_def)
  have "same_at h h' i" if d: "(d, m) \<in> L - {(a, n)}" and i: "i \<in> {d..<d + m}" for d m i
  proof -
    have "i \<notin> set c" using live_outside [OF l, of d m i] d i outside_in by blast
    moreover have "i \<noteq> a" using liveD(6) [OF l assms(2), of d m] liveD(1) [OF l assms(2)] d i by auto
    ultimately show ?thesis using f(3) by blast
  qed
  then have "kept (L - {(a, n)}) h h'" unfolding kept_def by blast
  then show thesis using that [of h'] more f(2) assms(1) by (auto simp: free_returns_def heap_inv_def)
qed

text \<open>A store into a block in use changes neither the ring nor a header in use.\<close>

lemma store_ok:
  assumes ok: "heap_ok h base lim L c" and h': "freep h' = freep h" "\<forall>i. (\<exists>(a, n)\<in>L. a < i \<and> i < a + n) \<or> same_at h h' i"
  shows "heap_ok h' base lim L c"
proof -
  have r: "free_ring h base lim c" and l: "live h base lim c L" using ok by (auto simp: heap_ok_def)
  have c: "same_at h h' x" if "x \<in> set c" for x
  proof -
    have "\<not> (a < x \<and> x < a + n)" if "(a, n) \<in> L" for a n
      using live_outside [OF l that, of x] outside_in \<open>x \<in> set c\<close> by auto
    then show ?thesis using h'(2) by blast
  qed
  have L: "same_at h h' a" if "(a, n) \<in> L" for a n
  proof -
    have "\<not> (d < a \<and> a < d + m)" if "(d, m) \<in> L" for d m
      using liveD(1) [OF l \<open>(a, n) \<in> L\<close>] liveD(6) [OF l \<open>(a, n) \<in> L\<close>, of d m] that by auto
    then show ?thesis using h'(2) by blast
  qed
  have o: "x \<in> set c \<Longrightarrow> occ h' x = occ h x" for x using c by (simp add: occ_def same_at_def)
  have "base \<in> set c" using r by (cases c) (auto simp: free_ring_def)
  then have "free_ring h' base lim c"
    using r c o links_cong [of "c @ [base]" h' h] spaced_cong [of c h' h] by (auto simp: free_ring_def same_at_def)
  moreover have "live h' base lim c L"
    by (rule live_change [OF l]) (use L o liveD(5) [OF l] in \<open>fastforce simp: same_at_def\<close>)+
  ultimately show ?thesis using ok h'(1) by (simp add: heap_ok_def)
qed

lemma heap_run_inv: "heap_run limit base h brk L \<Longrightarrow> limit < 2 ^ 36 \<Longrightarrow> \<exists>lim. brk = 16 * lim \<and> heap_inv limit h base lim L"
proof (induction rule: heap_run.induct)
  case (start h lim)
  then show ?case by (auto simp: heap_inv_def)
next
  case (allocate h brk L nb p h' brk')
  then obtain lim where lim: "brk = 16 * lim" "heap_inv limit h base lim L" by auto
  obtain q h'' lim' where m: "malloc_returns limit base nb h (16 * lim) q h'' (16 * lim')"
    "heap_inv limit h'' base lim' (if q = 0 then L else insert (q - 1, units nb) L)"
    using malloc_correct [OF lim(2) allocate.prems allocate.hyps(2)] by blast
  then show ?case using malloc_returns_unique [OF allocate.hyps(3) [unfolded lim(1)] m(1)] by auto
next
  case (release h brk L a n h')
  then obtain lim where lim: "brk = 16 * lim" "heap_inv limit h base lim L" by auto
  obtain h'' where "free_returns (a + 1) h h''" "heap_inv limit h'' base lim (L - {(a, n)})"
    using free_correct [OF lim(2) release.hyps(2)] by blast
  then show ?case using free_returns_unique [OF release.hyps(3)] lim(1) by blast
next
  case (store h brk L h')
  then obtain lim where lim: "brk = 16 * lim" "heap_inv limit h base lim L" by auto
  then show ?case using store_ok [OF _ store.hyps(2,3)] store.hyps(2) by (auto simp: heap_inv_def)
qed

definition apart :: "nat \<times> nat \<Rightarrow> nat \<times> nat \<Rightarrow> bool" where
  "apart x y \<longleftrightarrow> {fst x..<fst x + snd x} \<inter> {fst y..<fst y + snd y} = {}"

lemma heap_inv_apart:
  assumes "heap_inv limit h base lim L" "x \<in> L" "y \<in> L" "x \<noteq> y"
  shows "apart x y"
proof -
  obtain c where "heap_ok h base lim L c" using heap_inv_block [OF assms(1)] assms(2) by (cases x) blast
  then have "live h base lim c L" by (simp add: heap_ok_def)
  from liveD(6) [OF this, of "fst x" "snd x" "fst y" "snd y"] show ?thesis using assms(2-4) by (auto simp: apart_def)
qed

lemma new_block_apart:
  assumes "heap_inv limit h' base lim' (insert (p - 1, units nb) L)" "(p - 1, units nb) \<notin> L" "nb + 31 < 2 ^ 31"
  shows "nb \<le> 16 * (units nb - 1) \<and> 16 * (p - 1 + units nb) \<le> 16 * lim' \<and> (\<forall>x\<in>L. apart x (p - 1, units nb))"
proof -
  obtain c where "heap_ok h' base lim' (insert (p - 1, units nb) L) c" using heap_inv_block [OF assms(1)] by blast
  then have "live h' base lim' c (insert (p - 1, units nb) L)" by (simp add: heap_ok_def)
  then have "p - 1 + units nb \<le> lim'" by (rule liveD(4)) simp
  moreover have "\<forall>x\<in>L. apart x (p - 1, units nb)" using heap_inv_apart [OF assms(1)] assms(2) by (metis insertCI)
  ultimately show ?thesis using units_bounds(2) [OF assms(3)] by auto
qed

text \<open>C13: Whatever a program allocates, frees and stores into its blocks, the blocks in use never overlap and lie between the static
  header and the end of memory. \<open>malloc\<close> of less than \<open>2^31 - 31\<close> bytes always returns: a block apart from all blocks in use with room
  for the request, or 0 when the limit leaves no room for one more piece of memory. \<open>free\<close> of a block in use returns. Neither of
  them changes a unit of a block in use.\<close>

theorem heap_blocks_apart:
  assumes "heap_run limit base h brk L" "limit < 2 ^ 36"
  shows "(\<forall>x\<in>L. base < fst x \<and> 16 * (fst x + snd x) \<le> brk \<and> (\<forall>y\<in>L. x \<noteq> y \<longrightarrow> apart x y)) \<and>
    (\<forall>nb. nb + 31 < 2 ^ 31 \<longrightarrow> (\<exists>p h' brk'. malloc_returns limit base nb h brk p h' brk' \<and> kept L h h' \<and>
      (if p = 0 then limit < brk + 16 * growth (units nb)
       else nb \<le> 16 * (units nb - 1) \<and> 16 * (p - 1 + units nb) \<le> brk' \<and> (\<forall>x\<in>L. apart x (p - 1, units nb))))) \<and>
    (\<forall>(a, n)\<in>L. \<exists>h'. free_returns (a + 1) h h' \<and> kept (L - {(a, n)}) h h')"
proof -
  obtain lim where lim: "brk = 16 * lim" and inv: "heap_inv limit h base lim L" using heap_run_inv [OF assms] by auto
  have "base < fst x \<and> 16 * (fst x + snd x) \<le> brk" if x: "x \<in> L" for x
  proof -
    obtain c where "heap_ok h base lim L c" using heap_inv_block [OF inv] x by (cases x) blast
    then have l: "live h base lim c L" by (simp add: heap_ok_def)
    then show ?thesis using liveD(3,4) [OF l, of "fst x" "snd x"] x by (simp add: lim)
  qed
  moreover have "\<exists>p h' brk'. malloc_returns limit base nb h brk p h' brk' \<and> kept L h h' \<and>
      (if p = 0 then limit < brk + 16 * growth (units nb)
       else nb \<le> 16 * (units nb - 1) \<and> 16 * (p - 1 + units nb) \<le> brk' \<and> (\<forall>x\<in>L. apart x (p - 1, units nb)))"
    if nb: "nb + 31 < 2 ^ 31" for nb
  proof -
    obtain p h' lim' where m: "malloc_returns limit base nb h (16 * lim) p h' (16 * lim')" "kept L h h'"
      "heap_inv limit h' base lim' (if p = 0 then L else insert (p - 1, units nb) L)"
      "if p = 0 then limit < 16 * (lim + growth (units nb)) else (p - 1, units nb) \<notin> L"
      using malloc_correct [OF inv assms(2) nb] .
    have "nb \<le> 16 * (units nb - 1) \<and> 16 * (p - 1 + units nb) \<le> 16 * lim' \<and> (\<forall>x\<in>L. apart x (p - 1, units nb))" if p: "p \<noteq> 0"
      by (rule new_block_apart [of limit h' base lim' p nb L]) (use m(3,4) p nb in auto)
    then show ?thesis using m(1,2,4) by (intro exI [of _ p] exI [of _ h'] exI [of _ "16 * lim'"]) (auto simp: lim)
  qed
  moreover have "\<exists>h'. free_returns (a + 1) h h' \<and> kept (L - {(a, n)}) h h'" if "(a, n) \<in> L" for a n
    using free_correct [OF inv that] by metis
  ultimately show ?thesis using heap_inv_apart [OF inv] by (intro conjI ballI allI impI) (blast | clarify)+
qed

text \<open>An empty heap, and a program that has allocated one block of 100 bytes.\<close>

definition demo_heap :: uheap where
  "demo_heap = \<lparr>uptr = (\<lambda>_. 0), usize = (\<lambda>_. 0), freep = 0\<rparr>"

theorem heap_blocks_apart_witness:
  "\<exists>p h' brk'. malloc_returns 200000 256 100 demo_heap 8192 p h' brk' \<and> p \<noteq> 0 \<and> 16 * (p - 1 + units 100) \<le> brk' \<and>
    (\<exists>q h'' brk''. malloc_returns 200000 256 5000 h' brk' q h'' brk'' \<and> (q \<noteq> 0 \<longrightarrow> apart (p - 1, units 100) (q - 1, units 5000)))"
proof -
  have r: "heap_run 200000 256 demo_heap 8192 {}" using heap_run.start [of demo_heap 256 512 200000] by (simp add: demo_heap_def)
  have g: "growth (units 100) = 4096" by (simp add: units_def u32_def growth_def)
  obtain p h' brk' where p: "malloc_returns 200000 256 100 demo_heap 8192 p h' brk'" "p \<noteq> 0" "16 * (p - 1 + units 100) \<le> brk'"
    using heap_blocks_apart [OF r, THEN conjunct2, THEN conjunct1, THEN spec, of 100] g by (auto split: if_splits)
  have r': "heap_run 200000 256 h' brk' {(p - 1, units 100)}" using heap_run.allocate [OF r _ p(1)] p(2) by simp
  obtain q h'' brk'' where "malloc_returns 200000 256 5000 h' brk' q h'' brk''" "q \<noteq> 0 \<longrightarrow> apart (p - 1, units 100) (q - 1, units 5000)"
    using heap_blocks_apart [OF r', THEN conjunct2, THEN conjunct1, THEN spec, of 5000] by (auto split: if_splits)
  then show ?thesis using p by blast
qed

text \<open>
  Without the bound on the request the argument of \<open>sbrk\<close> wraps: a request of \<open>2^32 - 16\<close> bytes asks for 0 bytes, gets the end of
  memory as the address of a piece of \<open>2^28\<close> units, and \<open>malloc\<close> returns a block that is not there.
\<close>

lemma malloc_beyond_memory:
  "\<exists>h'. run (sbrk_world 200000) (malloc (Suc (Suc (Suc 0))) 256 4294967280 demo_heap) 8192 = (Returned (513, h'), 8192) \<and> usize h' 512 = 268435456"
  by (simp add: malloc_def malloc_loop.simps morecore_def u_free_def free_stop_def units_def u32_def demo_heap_def Let_def run_pbind
      u_sbrk_def syscall1_def sbrk_world_def plain_def set_ptr_def set_size_def)

end
