(* ===== verification/Utests.thy ===== *)
theory Utests
  imports Umalloc Uprintf
begin

text \<open>
  The small test programs \<open>bigfile\<close>, \<open>cowtest\<close>, \<open>dorphan\<close>, \<open>forphan\<close>, \<open>forktest\<close>, \<open>logstress\<close>, \<open>mbtest\<close>, \<open>shmtest\<close>, \<open>stressfs\<close>,
  \<open>symlinktest\<close>, \<open>master\<close> and \<open>process\<close>. A store outside an array is a fault. Memory of a process that no other process sees is a variable
  of the program; the pages of \<open>shm_get\<close> are accessed with \<open>Mem_load\<close>, \<open>Mem_store\<close> and \<open>Mem_swap\<close>.
\<close>

unbundle bit_operations_syntax

abbreviation (input) O_RDONLY :: nat where "O_RDONLY \<equiv> 0"
abbreviation (input) O_WRONLY :: nat where "O_WRONLY \<equiv> 1"
abbreviation (input) O_RDWR :: nat where "O_RDWR \<equiv> 2"
abbreviation (input) O_CREATE :: nat where "O_CREATE \<equiv> 0x200"
abbreviation (input) O_NOFOLLOW :: nat where "O_NOFOLLOW \<equiv> 0x1000"

definition lit :: "string \<Rightarrow> byte list" where
  "lit s = map of_char s"

definition int_arg :: "int \<Rightarrow> vararg" where
  "int_arg n = Va_int (word_of_int n)"

definition say :: "string \<Rightarrow> vararg list \<Rightarrow> unit prog" where
  "say msg ap = u_printf (line msg) ap"

text \<open>A message and \<open>exit(1)\<close>.\<close>

definition fail_with :: "string \<Rightarrow> vararg list \<Rightarrow> 'a prog" where
  "fail_with msg ap = pbind (say msg ap) (\<lambda>_. Exit 1)"

text \<open>System calls whose results are ignored.\<close>

definition calls :: "sysreq list \<Rightarrow> unit prog" where
  "calls rs = pfor (\<lambda>r. pbind (syscall1 r) (\<lambda>_. Done ())) rs"

fun pause_forever :: "nat \<Rightarrow> 'a prog" where
  "pause_forever 0 = Spin"
| "pause_forever (Suc fuel) = pbind (syscall1 (Sys_pause 1000)) (\<lambda>_. pause_forever fuel)"

section \<open>bigfile\<close>

definition big_wbuf :: "byte list" where
  "big_wbuf = map (\<lambda>i. of_nat (i mod 128)) [0..<512]"

text \<open>The loop of writes, with the rounds left; the result is \<open>bytes_written\<close>.\<close>

fun big_write :: "nat \<Rightarrow> nat \<Rightarrow> int \<Rightarrow> int \<Rightarrow> int prog" where
  "big_write 0 i fd written = Done written"
| "big_write (Suc k) i fd written =
     pbind (u_write fd big_wbuf) (\<lambda>n.
     if n \<noteq> 512 then pbind (say ''bigfile: write failed at block %d'' [int_arg (int i)]) (\<lambda>_. Done written) else
     let written = written + 512 in
     pbind (if i mod 200 = 0 then say ''  wrote %d KB...'' [int_arg (written div 1024)] else Done ()) (\<lambda>_.
     big_write k (i + 1) fd written))"

fun big_verify :: "nat \<Rightarrow> nat \<Rightarrow> int \<Rightarrow> int \<Rightarrow> int prog" where
  "big_verify 0 i fd got = Spin"
| "big_verify (Suc fuel) i fd got =
     pbind (u_read fd 512) (\<lambda>(n, rbuf).
     if n = 0 then Done got
     else if n < 0 then fail_with ''bigfile: read error'' []
     else
       case find (\<lambda>j. rbuf ! j \<noteq> of_nat (j mod 128)) [0..<nat n] of
         Some j \<Rightarrow> fail_with ''bigfile: data mismatch at block %d offset %d'' [int_arg (int i), int_arg (int j)]
       | None \<Rightarrow>
           pbind (if i mod 200 = 0 then say ''  verified %d KB...'' [int_arg ((got + n) div 1024)] else Done ()) (\<lambda>_.
           big_verify fuel (i + 1) fd (got + n)))"

definition bigfile_main :: "nat \<Rightarrow> int prog" where
  "bigfile_main fuel =
     (let name = Va_str (Some (lit ''bigfile'')) in
      pbind (say ''bigfile: creating large file %s'' [name]) (\<lambda>_.
      pbind (syscall1 (Sys_open (lit ''bigfile'') (O_CREATE + O_RDWR))) (\<lambda>fd.
      if fd < 0 then fail_with ''bigfile: cannot create %s'' [name] else
      pbind (big_write ((11 + 256 + 256 * 256) * 1024 div 512) 0 fd 0) (\<lambda>written.
      pbind (say ''bigfile: got bytes written = %d'' [int_arg written]) (\<lambda>_.
      pbind (syscall1 (Sys_close fd)) (\<lambda>_.
      pbind (syscall1 (Sys_open (lit ''bigfile'') O_RDONLY)) (\<lambda>fd.
      if fd < 0 then fail_with ''bigfile: cannot reopen %s'' [name] else
      pbind (big_verify fuel 0 fd 0) (\<lambda>got.
      pbind (syscall1 (Sys_close fd)) (\<lambda>_.
      pbind (say ''bigfile: successfully verified %d bytes!'' [int_arg got]) (\<lambda>_.
      pbind (say ''bigfile: test passed'' []) (\<lambda>_.
      Exit 0)))))))))))"

section \<open>cowtest\<close>

text \<open>After \<open>fork\<close> parent and child each have their own \<open>*ip\<close>.\<close>

definition cowtest_main :: "nat \<Rightarrow> nat \<Rightarrow> uheap \<Rightarrow> int prog" where
  "cowtest_main fuel base h =
     pbind (malloc fuel base 4096 h) (\<lambda>(p, h).
     if p = 0 then fail_with ''malloc failed'' [] else
     let ip = 42 in
     pbind (syscall1 Sys_fork) (\<lambda>pid.
     if pid < 0 then fail_with ''fork failed'' []
     else if pid = 0 then
       pbind (say ''child: before write, value = %d'' [int_arg ip]) (\<lambda>_.
       let ip = 99 in
       pbind (say ''child: after write, value = %d'' [int_arg ip]) (\<lambda>_.
       Exit 0))
     else
       pbind (syscall1 Sys_wait) (\<lambda>_.
       pbind (say ''parent: after child exit, value = %d'' [int_arg ip]) (\<lambda>_.
       Exit 0))))"

section \<open>dorphan and forphan\<close>

definition dorphan_main :: "nat \<Rightarrow> byte list list \<Rightarrow> int prog" where
  "dorphan_main fuel argv =
     (let s = Va_str (Some (argv ! 0)) in
      pbind (syscall1 (Sys_mkdir (lit ''dd''))) (\<lambda>r.
      if r \<noteq> 0 then fail_with ''%s: mkdir dd failed'' [s] else
      pbind (syscall1 (Sys_chdir (lit ''dd''))) (\<lambda>r.
      if r \<noteq> 0 then fail_with ''%s: chdir dd failed'' [s] else
      pbind (syscall1 (Sys_unlink (lit ''../dd''))) (\<lambda>r.
      if r < 0 then fail_with ''%s: unlink failed'' [s] else
      pbind (say ''wait for kill and reclaim'' []) (\<lambda>_.
      pause_forever fuel)))))"

definition forphan_main :: "nat \<Rightarrow> byte list list \<Rightarrow> int prog" where
  "forphan_main fuel argv =
     (let s = Va_str (Some (argv ! 0)); ff = lit ''file0'' in
      pbind (syscall1 (Sys_open ff (O_CREATE + O_WRONLY))) (\<lambda>fd.
      if fd < 0 then fail_with ''%s: open failed'' [s] else
      pbind (Sys (Sys_fstat fd) (\<lambda>a. Done (ret a, awords a))) (\<lambda>(r, st).
      if r < 0 then
        pbind (u_fprintf 2 (line ''%s: cannot stat %s'') [s, Va_str (Some (lit ''ff''))]) (\<lambda>_. Exit 1) else
      pbind (syscall1 (Sys_unlink ff)) (\<lambda>r.
      if r < 0 then fail_with ''%s: unlink failed'' [s] else
      pbind (syscall1 (Sys_open ff O_RDONLY)) (\<lambda>r.
      if r \<noteq> - 1 then fail_with ''%s: open successed'' [s] else
      if length st \<noteq> 5 then Fault ''stat'' else
      pbind (say ''wait for kill and reclaim %d'' [int_arg (st ! 1)]) (\<lambda>_.
      pause_forever fuel))))))"

section \<open>forktest\<close>

definition forktest_print :: "string \<Rightarrow> unit prog" where
  "forktest_print s = pbind (u_write 1 (line s)) (\<lambda>_. Done ())"

text \<open>The number of forks that worked, with the rounds left.\<close>

fun forktest_forks :: "nat \<Rightarrow> nat \<Rightarrow> nat prog" where
  "forktest_forks 0 n = Done n"
| "forktest_forks (Suc k) n =
     pbind (syscall1 Sys_fork) (\<lambda>pid. if pid < 0 then Done n else if pid = 0 then Exit 0 else forktest_forks k (n + 1))"

definition forktest :: "unit prog" where
  "forktest =
     pbind (forktest_print ''fork test'') (\<lambda>_.
     pbind (forktest_forks 1000 0) (\<lambda>n.
     if n = 1000 then pbind (forktest_print ''fork claimed to work N times!'') (\<lambda>_. Exit 1) else
     pbind (pfor (\<lambda>_. pbind (syscall1 Sys_wait) (\<lambda>r.
       if r < 0 then pbind (forktest_print ''wait stopped early'') (\<lambda>_. Exit 1) else Done ())) [0..<n]) (\<lambda>_.
     pbind (syscall1 Sys_wait) (\<lambda>r.
     if r \<noteq> - 1 then pbind (forktest_print ''wait got too many'') (\<lambda>_. Exit 1) else
     forktest_print ''fork test OK''))))"

definition forktest_main :: "int prog" where
  "forktest_main = pbind forktest (\<lambda>_. Exit 0)"

section \<open>logstress\<close>

text \<open>The child fills the 500 bytes of \<open>buf\<close> with 2000 bytes.\<close>

definition logstress_child :: "byte list list \<Rightarrow> nat \<Rightarrow> int prog" where
  "logstress_child argv i =
     pbind (syscall1 (Sys_open (argv ! i) (O_CREATE + O_RDWR))) (\<lambda>fd.
     if fd < 0 then fail_with ''%s: create %s failed'' [Va_str (Some (argv ! 0)), Va_str (Some (argv ! i))] else
     if (2000 :: nat) > 500 then Fault ''buf'' else
     pbind (pfor (\<lambda>_.
       pbind (u_write fd (replicate 2000 (48 + of_nat i))) (\<lambda>n.
       if n \<noteq> 2000 then fail_with ''write failed %d'' [int_arg n] else Done ())) [0..<250]) (\<lambda>_.
     Exit 0))"

text \<open>\<open>wait(&xstatus)\<close> for each child; before the first child is found \<open>xstatus\<close> is not set.\<close>

fun logstress_wait :: "nat \<Rightarrow> int option \<Rightarrow> unit prog" where
  "logstress_wait 0 x = Done ()"
| "logstress_wait (Suc k) x =
     Sys Sys_wait (\<lambda>a.
     case (if awords a = [] then x else Some (hd (awords a))) of
       None \<Rightarrow> Fault ''xstatus''
     | Some v \<Rightarrow> if v \<noteq> 0 then Exit v else logstress_wait k (Some v))"

definition logstress_main :: "byte list list \<Rightarrow> int prog" where
  "logstress_main argv =
     pbind (pfor (\<lambda>i.
       pbind (syscall1 Sys_fork) (\<lambda>pid.
       if pid < 0 then fail_with ''%s: fork failed'' [Va_str (Some (argv ! 0))]
       else if pid = 0 then pbind (logstress_child argv i) (\<lambda>_. Done ())
       else Done ())) [1..<length argv]) (\<lambda>_.
     pbind (logstress_wait (length argv - 1) None) (\<lambda>_.
     Done 0))"

section \<open>mbtest\<close>

text \<open>\<open>my_sleep\<close> counts and does nothing else.\<close>

definition my_sleep :: "nat \<Rightarrow> unit prog" where
  "my_sleep ticks = Done ()"

definition mbtest_recv :: "int \<Rightarrow> unit prog" where
  "mbtest_recv ident =
     Sys (Sys_mbox_recv ident) (\<lambda>a.
     if ret a = 0 then say ''Child got %d'' [int_arg (hd (awords a @ [- 1]))] else say ''Child recv error'' [])"

definition mbtest_send :: "int \<Rightarrow> nat \<Rightarrow> unit prog" where
  "mbtest_send ident i =
     pbind (say ''Parent sending %d'' [int_arg (int i)]) (\<lambda>_.
     pbind (syscall1 (Sys_mbox_send ident (int i))) (\<lambda>r.
     pbind (if r < 0 then say ''Send error!'' [] else Done ()) (\<lambda>_.
     my_sleep 10)))"

definition mbtest_main :: "int prog" where
  "mbtest_main =
     pbind (syscall1 (Sys_mbox_create 7)) (\<lambda>ident.
     if ident < 0 then fail_with ''Mailbox creation failed!'' [] else
     pbind (syscall1 Sys_fork) (\<lambda>pid.
     if pid = 0 then pbind (pfor (\<lambda>_. mbtest_recv ident) [0..<5]) (\<lambda>_. Exit 0)
     else
       pbind (pfor (mbtest_send ident) [0..<5]) (\<lambda>_.
       pbind (syscall1 Sys_wait) (\<lambda>_.
       Exit 0))))"

section \<open>stressfs\<close>

fun stressfs_forks :: "nat \<Rightarrow> nat \<Rightarrow> nat prog" where
  "stressfs_forks 0 i = Done i"
| "stressfs_forks (Suc k) i = pbind (syscall1 Sys_fork) (\<lambda>pid. if pid > 0 then Done i else stressfs_forks k (i + 1))"

definition stressfs_main :: "int prog" where
  "stressfs_main =
     pbind (say ''stressfs starting'' []) (\<lambda>_.
     pbind (stressfs_forks 4 0) (\<lambda>i.
     pbind (say ''write %d'' [int_arg (int i)]) (\<lambda>_.
     let path = lit ''stressfs'' @ [48 + of_nat i] in
     pbind (syscall1 (Sys_open path (O_CREATE + O_RDWR))) (\<lambda>fd.
     pbind (calls (replicate 20 (Sys_write fd (replicate 512 (of_char (CHR ''a'')))))) (\<lambda>_.
     pbind (syscall1 (Sys_close fd)) (\<lambda>_.
     pbind (say ''read'' []) (\<lambda>_.
     pbind (syscall1 (Sys_open path O_RDONLY)) (\<lambda>fd.
     pbind (calls (replicate 20 (Sys_read fd 512))) (\<lambda>_.
     pbind (calls [Sys_close fd, Sys_wait]) (\<lambda>_.
     Exit 0))))))))))"

section \<open>shmtest\<close>

text \<open>A message after an empty line.\<close>

definition say_nl :: "string \<Rightarrow> vararg list \<Rightarrow> unit prog" where
  "say_nl msg ap = u_printf (10 # line msg) ap"

definition load_char :: "int \<Rightarrow> int prog" where
  "load_char p = syscall1 (Mem_load p 1)"

definition store_char :: "int \<Rightarrow> int \<Rightarrow> unit prog" where
  "store_char p c = calls [Mem_store p 1 c]"

definition shmtest_main :: "int prog" where
  "shmtest_main =
     pbind (say ''=== Step by Step SHM Debug Test ==='' []) (\<lambda>_.
     pbind (say ''Step 1: Testing shm_create'' []) (\<lambda>_.
     pbind (syscall1 (Sys_shm_create 123)) (\<lambda>idx.
     pbind (say ''shm_create(%d) returned: %d'' [int_arg 123, int_arg idx]) (\<lambda>_.
     if idx < 0 then fail_with ''ERROR: shm_create failed'' [] else
     pbind (say_nl ''Step 2: Testing shm_get'' []) (\<lambda>_.
     pbind (syscall1 (Sys_shm_get 123)) (\<lambda>p.
     pbind (say ''shm_get(%d) returned: 0x%lx'' [int_arg 123, Va_long (word_of_int p)]) (\<lambda>_.
     if p = 0 then fail_with ''ERROR: shm_get failed'' [] else
     pbind (say_nl ''Step 3: Testing pointer conversion'' []) (\<lambda>_.
     pbind (say ''Converted to char pointer: %p'' [Va_long (word_of_int p)]) (\<lambda>_.
     pbind (say_nl ''Step 4: Testing read from shared memory'' []) (\<lambda>_.
     pbind (load_char p) (\<lambda>c.
     pbind (say ''Reading byte 0 (should be 0): %d'' [int_arg c]) (\<lambda>_.
     pbind (say_nl ''Step 5: Testing write to shared memory'' []) (\<lambda>_.
     pbind (say ''Writing 'T' to byte 0...'' []) (\<lambda>_.
     pbind (store_char p (of_char (CHR ''T''))) (\<lambda>_.
     pbind (say ''Write completed'' []) (\<lambda>_.
     pbind (say_nl ''Step 6: Testing read-back'' []) (\<lambda>_.
     pbind (load_char p) (\<lambda>c.
     pbind (say ''Reading back byte 0: '%c' (should be 'T')'' [int_arg c]) (\<lambda>_.
     pbind (say_nl ''Step 7: Testing multiple byte access'' []) (\<lambda>_.
     pbind (pfor (\<lambda>i. store_char (p + int i) (65 + int i)) [0..<10]) (\<lambda>_.
     pbind (say ''Wrote A-J to first 10 bytes'' []) (\<lambda>_.
     pbind (u_printf (lit ''Reading back: '') []) (\<lambda>_.
     pbind (pfor (\<lambda>i. pbind (load_char (p + int i)) (\<lambda>c. u_printf (lit ''%c'') [int_arg c])) [0..<10]) (\<lambda>_.
     pbind (say [] []) (\<lambda>_.
     pbind (say_nl ''Step 8: Cleaning up'' []) (\<lambda>_.
     pbind (syscall1 (Sys_shm_close 123)) (\<lambda>r.
     pbind (say ''shm_close(%d) returned: %d'' [int_arg 123, int_arg r]) (\<lambda>_.
     pbind (say_nl ''=== All tests completed successfully! ==='' []) (\<lambda>_.
     Exit 0)))))))))))))))))))))))))))))"

section \<open>symlinktest\<close>

text \<open>\<open>buf[n] = 0\<close> in an array of \<open>k\<close> characters after a read that returned \<open>n\<close>; the string up to the first NUL.\<close>

definition terminate :: "nat \<Rightarrow> int \<Rightarrow> byte list \<Rightarrow> byte list prog" where
  "terminate k n bs = (if n < 0 \<or> int k \<le> n then Fault ''buf'' else Done (takeWhile (\<lambda>c. c \<noteq> 0) (take (nat n) bs)))"

definition print_symlink_resolution :: "byte list \<Rightarrow> int \<Rightarrow> bool \<Rightarrow> unit prog" where
  "print_symlink_resolution path fd nofollow =
     (if fd < 0 then say ''Failed to open: %s'' [Va_str (Some path)] else
      pbind (u_read fd 512) (\<lambda>(n, bs).
      pbind (terminate 512 n bs) (\<lambda>buf.
      pbind (if nofollow then say ''Opened symlink raw (O_NOFOLLOW): %s'' [Va_str (Some buf)]
             else say ''Opened symlink resolved: %s -> %s'' [Va_str (Some path), Va_str (Some buf)]) (\<lambda>_.
      calls [Sys_close fd]))))"

definition test_file_symlink :: "unit prog" where
  "test_file_symlink =
     pbind (say ''=== Test: File Symlink ==='' []) (\<lambda>_.
     pbind (say ''Creating file: /file1'' []) (\<lambda>_.
     pbind (syscall1 (Sys_open (lit ''/file1'') (O_CREATE + O_RDWR))) (\<lambda>fd.
     pbind (calls [Sys_write fd (line ''Hello Symlink!'' @ [0]), Sys_close fd]) (\<lambda>_.
     pbind (say ''Creating symlink: /link1 -> /file1'' []) (\<lambda>_.
     pbind (syscall1 (Sys_symlink (lit ''/file1'') (lit ''/link1''))) (\<lambda>r.
     if r < 0 then fail_with ''symlink failed'' [] else
     pbind (say ''Opening /link1 (should resolve to /file1)'' []) (\<lambda>_.
     pbind (syscall1 (Sys_open (lit ''/link1'') O_RDONLY)) (\<lambda>fd.
     pbind (print_symlink_resolution (lit ''/link1'') fd False) (\<lambda>_.
     pbind (say ''Opening /link1 with O_NOFOLLOW'' []) (\<lambda>_.
     pbind (syscall1 (Sys_open (lit ''/link1'') (O_RDONLY + O_NOFOLLOW))) (\<lambda>fd.
     print_symlink_resolution (lit ''/link1'') fd True)))))))))))"

definition test_unlink_symlink :: "unit prog" where
  "test_unlink_symlink =
     pbind (say_nl ''=== Test: Unlink Symlink ==='' []) (\<lambda>_.
     pbind (say ''Creating file: /file_unlink'' []) (\<lambda>_.
     pbind (syscall1 (Sys_open (lit ''/file_unlink'') (O_CREATE + O_RDWR))) (\<lambda>fd.
     pbind (calls [Sys_write fd (line ''PreserveMe''), Sys_close fd]) (\<lambda>_.
     pbind (say ''Creating symlink: /link_unlink -> /file_unlink'' []) (\<lambda>_.
     pbind (syscall1 (Sys_symlink (lit ''/file_unlink'') (lit ''/link_unlink''))) (\<lambda>r.
     if r < 0 then fail_with ''symlink failed'' [] else
     pbind (say ''Unlinking symlink only: /link_unlink'' []) (\<lambda>_.
     pbind (syscall1 (Sys_unlink (lit ''/link_unlink''))) (\<lambda>r.
     if r < 0 then fail_with ''unlink failed'' [] else
     pbind (say ''Verifying target file still exists (/file_unlink)'' []) (\<lambda>_.
     pbind (syscall1 (Sys_open (lit ''/file_unlink'') O_RDONLY)) (\<lambda>fd.
     pbind (if fd < 0 then say ''Error: target file was deleted! '' [] else
            pbind (u_read fd 32) (\<lambda>(n, bs).
            pbind (terminate 32 n bs) (\<lambda>buf.
            pbind (say ''Target file contents: %s '' [Va_str (Some buf)]) (\<lambda>_.
            calls [Sys_close fd])))) (\<lambda>_.
     calls [Sys_unlink (lit ''/file_unlink'')])))))))))))"

definition test_dir_symlink :: "unit prog" where
  "test_dir_symlink =
     pbind (say_nl ''=== Test: Directory Symlink ==='' []) (\<lambda>_.
     pbind (say ''Creating directory: /dir1'' []) (\<lambda>_.
     pbind (syscall1 (Sys_mkdir (lit ''/dir1''))) (\<lambda>r.
     if r < 0 then fail_with ''mkdir failed'' [] else
     pbind (say ''Creating symlink: /linkdir -> /dir1'' []) (\<lambda>_.
     pbind (syscall1 (Sys_symlink (lit ''/dir1'') (lit ''/linkdir''))) (\<lambda>r.
     if r < 0 then fail_with ''symlink to dir failed'' [] else
     pbind (say ''Opening /linkdir (should resolve to /dir1)'' []) (\<lambda>_.
     pbind (syscall1 (Sys_open (lit ''/linkdir'') O_RDONLY)) (\<lambda>fd.
     pbind (if fd < 0 then say ''Failed to open symlink to directory'' [] else
            pbind (say ''Successfully opened symlink to directory '' []) (\<lambda>_. calls [Sys_close fd])) (\<lambda>_.
     calls [Sys_unlink (lit ''/linkdir''), Sys_unlink (lit ''/dir1'')]))))))))"

definition test_recursive_symlink :: "unit prog" where
  "test_recursive_symlink =
     pbind (say_nl ''=== Test: Recursive Symlink ==='' []) (\<lambda>_.
     pbind (say ''Creating recursive symlinks: /loop1 -> /loop2, /loop2 -> /loop1'' []) (\<lambda>_.
     pbind (calls [Sys_symlink (lit ''/loop2'') (lit ''/loop1''), Sys_symlink (lit ''/loop1'') (lit ''/loop2'')]) (\<lambda>_.
     pbind (say ''Opening /loop1 to test loop detection'' []) (\<lambda>_.
     pbind (syscall1 (Sys_open (lit ''/loop1'') O_RDONLY)) (\<lambda>fd.
     pbind (if fd < 0 then say ''Detected symlink loop correctly '' [] else
            pbind (say ''Symlink loop not detected! '' []) (\<lambda>_. calls [Sys_close fd])) (\<lambda>_.
     calls [Sys_unlink (lit ''/loop1''), Sys_unlink (lit ''/loop2'')]))))))"

definition symlinktest_main :: "int prog" where
  "symlinktest_main =
     pbind (u_printf (10 # line ''========== xv6 Symlink Test =========='' @ [10]) []) (\<lambda>_.
     pbind test_file_symlink (\<lambda>_.
     pbind test_unlink_symlink (\<lambda>_.
     pbind test_dir_symlink (\<lambda>_.
     pbind test_recursive_symlink (\<lambda>_.
     pbind (say_nl ''All symlink tests completed!'' []) (\<lambda>_.
     Exit 0))))))"

section \<open>master and process\<close>

text \<open>The walk through the maze: two processes take turns and tell each other their positions through mailboxes.\<close>

abbreviation (input) END_MARKER :: int where "END_MARKER \<equiv> 0xFFFF"
abbreviation (input) DONE_MSG :: int where "DONE_MSG \<equiv> - 1"

definition maze_start :: "int list" where
  "maze_start = [2, 3, 4, 5, END_MARKER, END_MARKER]"

definition master_child :: "string \<Rightarrow> string \<Rightarrow> string \<Rightarrow> 'a prog" where
  "master_child name start role =
     pbind (syscall1 (Sys_exec (lit ''process'') [lit ''process'', lit name, lit start, lit role])) (\<lambda>_.
     fail_with (''master: exec process '' @ name @ '' failed'') [])"

definition master_main :: "int prog" where
  "master_main =
     pbind (syscall1 (Sys_shm_create 1)) (\<lambda>shmid.
     if shmid < 0 then fail_with ''master: shm_create failed'' [] else
     pbind (syscall1 (Sys_shm_get 1)) (\<lambda>maze.
     if maze = 0 then fail_with ''master: shm_get failed'' [] else
     pbind (calls (map (\<lambda>k. Mem_store (maze + 4 * int k) 4 (maze_start ! k)) [0..<6])) (\<lambda>_.
     pbind (syscall1 (Sys_mbox_create 100)) (\<lambda>a2b.
     pbind (syscall1 (Sys_mbox_create 200)) (\<lambda>b2a.
     if a2b < 0 \<or> b2a < 0 then fail_with ''master: mbox_create failed'' [] else
     pbind (syscall1 Sys_fork) (\<lambda>pid.
     if pid = 0 then master_child ''A'' ''0'' ''sendfirst'' else
     pbind (syscall1 Sys_fork) (\<lambda>pid.
     if pid = 0 then master_child ''B'' ''1'' ''recvfirst'' else
     pbind (calls [Sys_wait, Sys_wait]) (\<lambda>_.
     pbind (say ''master: both processes finished'' []) (\<lambda>_.
     Exit 0)))))))))"

fun lock_acquire :: "nat \<Rightarrow> int \<Rightarrow> unit prog" where
  "lock_acquire 0 l = Spin"
| "lock_acquire (Suc fuel) l = pbind (syscall1 (Mem_swap l 1)) (\<lambda>old. if old \<noteq> 0 then lock_acquire fuel l else Done ())"

definition lock_release :: "int \<Rightarrow> unit prog" where
  "lock_release l = calls [Mem_store l 4 0]"

text \<open>A message printed while the lock is held.\<close>

definition locked_say :: "nat \<Rightarrow> int \<Rightarrow> string \<Rightarrow> vararg list \<Rightarrow> unit prog" where
  "locked_say fuel l msg ap = pbind (lock_acquire fuel l) (\<lambda>_. pbind (say msg ap) (\<lambda>_. lock_release l))"

text \<open>\<open>mbox_recv(recv_id, &partner_pos)\<close> with what follows it: the new values of \<open>partner_pos\<close> and \<open>partner_done\<close>.\<close>

definition process_recv :: "nat \<Rightarrow> int \<Rightarrow> byte list \<Rightarrow> int \<Rightarrow> int \<times> bool \<Rightarrow> (int \<times> bool) prog" where
  "process_recv fuel lock name recv_id = (\<lambda>(partner_pos, partner_done).
     Sys (Sys_mbox_recv recv_id) (\<lambda>a.
     if ret a < 0 then
       pbind (locked_say fuel lock ''process %s: mbox_recv failed'' [Va_str (Some name)]) (\<lambda>_. Exit 1)
     else
       let partner_pos = hd (awords a @ [partner_pos]) in
       Done (partner_pos, partner_pos = DONE_MSG \<or> partner_done)))"

definition process_send :: "nat \<Rightarrow> int \<Rightarrow> byte list \<Rightarrow> int \<Rightarrow> int \<Rightarrow> string \<Rightarrow> unit prog" where
  "process_send fuel lock name send_id msg err =
     pbind (syscall1 (Sys_mbox_send send_id msg)) (\<lambda>r.
     if r < 0 then pbind (locked_say fuel lock err [Va_str (Some name)]) (\<lambda>_. Exit 1) else Done ())"

record walker =
  wpos :: int
  partner :: int
  wstep :: int
  my_done :: bool
  partner_done :: bool

text \<open>The loop; \<open>break\<close> returns.\<close>

fun process_loop :: "nat \<Rightarrow> int \<Rightarrow> byte list \<Rightarrow> bool \<Rightarrow> int \<Rightarrow> int \<Rightarrow> walker \<Rightarrow> unit prog" where
  "process_loop 0 shm name sendfirst send_id recv_id w = Spin"
| "process_loop (Suc fuel) shm name sendfirst send_id recv_id w =
     (let lock = shm + 4 * 32; nm = Va_str (Some name) in
      pbind (if \<not> my_done w \<and> \<not> sendfirst then process_recv fuel lock name recv_id (partner w, partner_done w)
             else Done (partner w, partner_done w)) (\<lambda>(pp, pd).
      pbind (if \<not> my_done w then process_send fuel lock name send_id (wpos w) ''process %s: mbox_send failed''
             else if \<not> pd then process_send fuel lock name send_id DONE_MSG ''process %s: mbox_send(DONE) failed''
             else Done ()) (\<lambda>_.
      pbind (if \<not> my_done w \<and> sendfirst then process_recv fuel lock name recv_id (pp, pd) else Done (pp, pd)) (\<lambda>(pp, pd).
      if \<not> my_done w \<and> pp \<ge> 0 then
        pbind (syscall1 (Mem_load (shm + 4 * pp) 4)) (\<lambda>next.
        pbind (locked_say fuel lock ''process %s step=%d partner_at=%d -> my_next=%d''
          [nm, int_arg (wstep w), int_arg pp, int_arg next]) (\<lambda>_.
        if next = END_MARKER then
          locked_say fuel lock ''process %s: detected partner_done=%d, my_done=%d, breaking loop''
            [nm, int_arg (of_bool pd), int_arg 1]
        else
          pbind (my_sleep 1) (\<lambda>_.
          process_loop fuel shm name sendfirst send_id recv_id
            (w\<lparr>wpos := next, partner := pp, wstep := wstep w + 1, partner_done := pd\<rparr>))))
      else
        pbind (my_sleep 1) (\<lambda>_.
        process_loop fuel shm name sendfirst send_id recv_id (w\<lparr>partner := pp, partner_done := pd\<rparr>))))))"

definition process_main :: "nat \<Rightarrow> byte list list \<Rightarrow> int prog" where
  "process_main fuel argv =
     (if length argv < 4 then fail_with ''usage: process <name> <start_index> <role>'' [] else
      let name = argv ! 1; pos = u_atoi (argv ! 2); sendfirst = (u_strcmp (argv ! 3) (lit ''sendfirst'') = 0); nm = Va_str (Some name) in
      pbind (syscall1 (Sys_shm_get 1)) (\<lambda>shm.
      if shm = 0 then fail_with ''process %s: shm_get failed'' [nm] else
      pbind (syscall1 (Sys_mbox_create 100)) (\<lambda>a2b.
      pbind (syscall1 (Sys_mbox_create 200)) (\<lambda>b2a.
      if a2b < 0 \<or> b2a < 0 then
        fail_with ''process %s: mbox_create failed (a2b=%d b2a=%d)'' [nm, int_arg a2b, int_arg b2a]
      else
        let isA = (u_strcmp name (lit ''A'') = 0); send_id = (if isA then a2b else b2a); recv_id = (if isA then b2a else a2b) in
        pbind (process_loop fuel shm name sendfirst send_id recv_id
          \<lparr>wpos = pos, partner = - 1, wstep = 0, my_done = False, partner_done = False\<rparr>) (\<lambda>_.
        pbind (locked_say fuel (shm + 4 * 32) ''process %s: both done, exiting'' [nm]) (\<lambda>_.
        Exit 0))))))"

end
