(* ===== verification/Ugrind.thy ===== *)
theory Ugrind
  imports Utests
begin

text \<open>
  \<open>user/grind.c\<close>: random system calls in parallel. The state of the random numbers, \<open>rand_next\<close>, is passed along; after a fork each
  process has its own. The loops that never end have a bound on their rounds.
\<close>

unbundle bit_operations_syntax

section \<open>Random numbers\<close>

text \<open>The number, which is also the new state. \<open>long\<close> arithmetic does not overflow here; \<open>ctx\<close> is an \<open>unsigned long\<close>.\<close>

definition do_rand :: "uint64 \<Rightarrow> int" where
  "do_rand ctx =
     (let x = uint ctx mod 0x7ffffffe + 1;
          hi = x div 127773;
          lo = x mod 127773;
          x = 16807 * lo - 2836 * hi;
          x = (if x < 0 then x + 0x7fffffff else x)
      in x - 1)"

definition grind_rand :: "uint64 \<Rightarrow> int \<times> uint64" where
  "grind_rand rand_next = (let x = do_rand rand_next in (x, word_of_int x))"

section \<open>The actions\<close>

abbreviation (input) CREATE_RW :: nat where "CREATE_RW \<equiv> O_CREATE + O_RDWR"

definition close_open :: "string \<Rightarrow> unit prog" where
  "close_open path = pbind (syscall1 (Sys_open (lit path) CREATE_RW)) (\<lambda>fd. calls [Sys_close fd])"

text \<open>\<open>fork\<close>, then \<open>body\<close> in the child; the parent goes on with the pid.\<close>

definition fork_child :: "unit prog \<Rightarrow> int prog" where
  "fork_child body =
     pbind (syscall1 Sys_fork) (\<lambda>pid.
     if pid = 0 then pbind body (\<lambda>_. Exit 0)
     else if pid < 0 then fail_with ''grind: fork failed'' []
     else Done pid)"

definition grind_pipe :: "(int \<times> int) prog \<Rightarrow> (int \<times> int) prog" where
  "grind_pipe failed = Sys Sys_pipe (\<lambda>a. if ret a < 0 then failed else case awords a of [r, w] \<Rightarrow> Done (r, w) | _ \<Rightarrow> Fault ''pipe'')"

definition complain :: "string \<Rightarrow> int \<Rightarrow> 'a prog" where
  "complain msg status = pbind (u_fprintf 2 (line msg) []) (\<lambda>_. Exit status)"

text \<open>Action 16: give back what \<open>sbrk\<close> has added.\<close>

definition grind_shrink :: "int \<Rightarrow> unit prog" where
  "grind_shrink break0 =
     pbind (u_sbrk 0) (\<lambda>b.
     if b > break0 then pbind (u_sbrk 0) (\<lambda>b. pbind (u_sbrk (sint (word_of_int (- (b - break0)) :: 32 word))) (\<lambda>_. Done ())) else Done ())"

text \<open>Action 19: children that share a pipe.\<close>

definition grind_pipe_children :: "unit prog" where
  "grind_pipe_children =
     pbind (grind_pipe (fail_with ''grind: pipe failed'' [])) (\<lambda>(r, w).
     pbind (fork_child (
       pbind (calls [Sys_fork, Sys_fork]) (\<lambda>_.
       pbind (u_write w (lit ''x'')) (\<lambda>n.
       pbind (if n \<noteq> 1 then say ''grind: pipe write failed'' [] else Done ()) (\<lambda>_.
       pbind (u_read r 1) (\<lambda>(n, _).
       if n \<noteq> 1 then say ''grind: pipe read failed'' [] else Done ())))))) (\<lambda>_.
     calls [Sys_close r, Sys_close w, Sys_wait]))"

text \<open>Action 21: there is always room for a small file.\<close>

definition grind_small_file :: "unit prog" where
  "grind_small_file =
     pbind (calls [Sys_unlink (lit ''c'')]) (\<lambda>_.
     pbind (syscall1 (Sys_open (lit ''c'') CREATE_RW)) (\<lambda>fd1.
     if fd1 < 0 then fail_with ''grind: create c failed'' [] else
     pbind (u_write fd1 (lit ''x'')) (\<lambda>n.
     if n \<noteq> 1 then fail_with ''grind: write c failed'' [] else
     pbind (Sys (Sys_fstat fd1) (\<lambda>a. Done (ret a, awords a))) (\<lambda>(r, st).
     if r \<noteq> 0 then fail_with ''grind: fstat failed'' [] else
     if length st \<noteq> 5 then Fault ''stat'' else
     if st ! 4 \<noteq> 1 then fail_with ''grind: fstat reports wrong size %d'' [int_arg (st ! 4)] else
     if st ! 1 > 200 then fail_with ''grind: fstat reports crazy i-number %d'' [int_arg (st ! 1)] else
     calls [Sys_close fd1, Sys_unlink (lit ''c'')]))))"

text \<open>Action 22: \<open>echo hi | cat\<close>.\<close>

definition grind_echo :: "int \<times> int \<Rightarrow> int \<times> int \<Rightarrow> unit prog" where
  "grind_echo aa bb =
     pbind (calls [Sys_close (fst bb), Sys_close (snd bb), Sys_close (fst aa), Sys_close 1]) (\<lambda>_.
     pbind (syscall1 (Sys_dup (snd aa))) (\<lambda>d.
     if d \<noteq> 1 then complain ''grind: dup failed'' 1 else
     pbind (calls [Sys_close (snd aa), Sys_exec (lit ''grindir/../echo'') [lit ''echo'', lit ''hi'']]) (\<lambda>_.
     complain ''grind: echo: not found'' 2)))"

definition grind_cat :: "int \<times> int \<Rightarrow> int \<times> int \<Rightarrow> unit prog" where
  "grind_cat aa bb =
     pbind (calls [Sys_close (snd aa), Sys_close (fst bb), Sys_close 0]) (\<lambda>_.
     pbind (syscall1 (Sys_dup (fst aa))) (\<lambda>d.
     if d \<noteq> 0 then complain ''grind: dup failed'' 4 else
     pbind (calls [Sys_close (fst aa), Sys_close 1]) (\<lambda>_.
     pbind (syscall1 (Sys_dup (snd bb))) (\<lambda>d.
     if d \<noteq> 1 then complain ''grind: dup failed'' 5 else
     pbind (calls [Sys_close (snd bb), Sys_exec (lit ''/cat'') [lit ''cat'']]) (\<lambda>_.
     complain ''grind: cat: not found'' 6)))))"

text \<open>A byte read into the zeroed buffer.\<close>

definition read_byte :: "int \<Rightarrow> byte prog" where
  "read_byte fd = pbind (u_read fd 1) (\<lambda>(n, bs). Done (if n > 0 then hd (bs @ [0]) else 0))"

text \<open>\<open>wait(&st)\<close>; without a child \<open>st\<close> is not set.\<close>

definition wait_status :: "int option \<Rightarrow> int option prog" where
  "wait_status st = Sys Sys_wait (\<lambda>a. Done (if awords a = [] then st else Some (hd (awords a))))"

definition grind_pipeline :: "unit prog" where
  "grind_pipeline =
     pbind (grind_pipe (complain ''grind: pipe failed'' 1)) (\<lambda>aa.
     pbind (grind_pipe (complain ''grind: pipe failed'' 1)) (\<lambda>bb.
     pbind (syscall1 Sys_fork) (\<lambda>pid1.
     if pid1 = 0 then grind_echo aa bb
     else if pid1 < 0 then complain ''grind: fork failed'' 3 else
     pbind (syscall1 Sys_fork) (\<lambda>pid2.
     if pid2 = 0 then grind_cat aa bb
     else if pid2 < 0 then complain ''grind: fork failed'' 7 else
     pbind (calls [Sys_close (fst aa), Sys_close (snd aa), Sys_close (snd bb)]) (\<lambda>_.
     pbind (read_byte (fst bb)) (\<lambda>b0.
     pbind (read_byte (fst bb)) (\<lambda>b1.
     pbind (read_byte (fst bb)) (\<lambda>b2.
     let buf = takeWhile (\<lambda>c. c \<noteq> 0) [b0, b1, b2] in
     pbind (calls [Sys_close (fst bb)]) (\<lambda>_.
     pbind (wait_status None) (\<lambda>st1.
     pbind (wait_status None) (\<lambda>st2.
     case (st1, st2) of
       (Some st1, Some st2) \<Rightarrow>
         if st1 \<noteq> 0 \<or> st2 \<noteq> 0 \<or> u_strcmp buf (line ''hi'') \<noteq> 0 then
           fail_with ''grind: exec pipeline failed %d %d \"%s\"'' [int_arg st1, int_arg st2, Va_str (Some buf)]
         else Done ()
     | _ \<Rightarrow> Fault ''status'')))))))))))"

text \<open>One round of \<open>go\<close>: action \<open>what\<close>, with the descriptor \<open>fd\<close> that the rounds share and what \<open>buf\<close> holds.\<close>

definition go_action :: "int \<Rightarrow> int \<Rightarrow> int \<times> byte list \<Rightarrow> (int \<times> byte list) prog" where
  "go_action what break0 = (\<lambda>(fd, buf).
     let same = (\<lambda>m. pbind m (\<lambda>_ :: unit. Done (fd, buf)));
         reopen = (\<lambda>path. pbind (calls [Sys_close fd]) (\<lambda>_. pbind (syscall1 (Sys_open (lit path) CREATE_RW)) (\<lambda>fd. Done (fd, buf)))) in
     if what = 1 then same (close_open ''grindir/../a'')
     else if what = 2 then same (close_open ''grindir/../grindir/../b'')
     else if what = 3 then same (calls [Sys_unlink (lit ''grindir/../a'')])
     else if what = 4 then same (
       pbind (syscall1 (Sys_chdir (lit ''grindir''))) (\<lambda>r.
       if r \<noteq> 0 then fail_with ''grind: chdir grindir failed'' [] else
       calls [Sys_unlink (lit ''../b''), Sys_chdir (lit ''/'')]))
     else if what = 5 then reopen ''/grindir/../a''
     else if what = 6 then reopen ''/./grindir/./../b''
     else if what = 7 then same (calls [Sys_write fd buf])
     else if what = 8 then pbind (u_read fd 999) (\<lambda>(n, bs). Done (fd, take (nat n) bs @ drop (nat n) buf))
     else if what = 9 then same (
       pbind (calls [Sys_mkdir (lit ''grindir/../a'')]) (\<lambda>_.
       pbind (close_open ''a/../a/./a'') (\<lambda>_. calls [Sys_unlink (lit ''a/a'')])))
     else if what = 10 then same (
       pbind (calls [Sys_mkdir (lit ''/../b'')]) (\<lambda>_.
       pbind (close_open ''grindir/../b/b'') (\<lambda>_. calls [Sys_unlink (lit ''b/b'')])))
     else if what = 11 then same (calls [Sys_unlink (lit ''b''), Sys_link (lit ''../grindir/./../a'') (lit ''../b'')])
     else if what = 12 then same (calls [Sys_unlink (lit ''../grindir/../a''), Sys_link (lit ''.././b'') (lit ''/grindir/../a'')])
     else if what = 13 then same (pbind (fork_child (Done ())) (\<lambda>_. calls [Sys_wait]))
     else if what = 14 then same (pbind (fork_child (calls [Sys_fork, Sys_fork])) (\<lambda>_. calls [Sys_wait]))
     else if what = 15 then same (pbind (u_sbrk 6011) (\<lambda>_. Done ()))
     else if what = 16 then same (grind_shrink break0)
     else if what = 17 then same (
       pbind (fork_child (close_open ''a'')) (\<lambda>pid.
       pbind (syscall1 (Sys_chdir (lit ''../grindir/..''))) (\<lambda>r.
       if r \<noteq> 0 then fail_with ''grind: chdir failed'' [] else
       calls [Sys_kill pid, Sys_wait])))
     else if what = 18 then same (
       pbind (fork_child (pbind (syscall1 Sys_getpid) (\<lambda>p. calls [Sys_kill p]))) (\<lambda>_. calls [Sys_wait]))
     else if what = 19 then same grind_pipe_children
     else if what = 20 then same (
       pbind (fork_child (calls [Sys_unlink (lit ''a''), Sys_mkdir (lit ''a''), Sys_chdir (lit ''a''), Sys_unlink (lit ''../a''),
         Sys_open (lit ''x'') CREATE_RW, Sys_unlink (lit ''x'')])) (\<lambda>_. calls [Sys_wait]))
     else if what = 21 then same grind_small_file
     else if what = 22 then same grind_pipeline
     else Done (fd, buf))"

fun go_loop :: "nat \<Rightarrow> bool \<Rightarrow> int \<Rightarrow> nat \<Rightarrow> uint64 \<Rightarrow> int \<times> byte list \<Rightarrow> unit prog" where
  "go_loop 0 which_child break0 iters seed st = Spin"
| "go_loop (Suc fuel) which_child break0 iters seed st =
     (let iters = iters + 1; (x, seed) = grind_rand seed in
      pbind (if iters mod 500 = 0 then calls [Sys_write 1 (lit (if which_child then ''B'' else ''A''))] else Done ()) (\<lambda>_.
      pbind (go_action (x mod 23) break0 st) (\<lambda>st.
      go_loop fuel which_child break0 iters seed st)))"

definition go :: "nat \<Rightarrow> bool \<Rightarrow> uint64 \<Rightarrow> unit prog" where
  "go fuel which_child seed =
     pbind (u_sbrk 0) (\<lambda>break0.
     pbind (calls [Sys_mkdir (lit ''grindir'')]) (\<lambda>_.
     pbind (syscall1 (Sys_chdir (lit ''grindir''))) (\<lambda>r.
     if r \<noteq> 0 then fail_with ''grind: chdir grindir failed'' [] else
     pbind (calls [Sys_chdir (lit ''/'')]) (\<lambda>_.
     go_loop fuel which_child break0 0 seed (- 1, replicate 999 0)))))"

definition iter :: "nat \<Rightarrow> uint64 \<Rightarrow> 'a prog" where
  "iter fuel seed =
     pbind (calls [Sys_unlink (lit ''a''), Sys_unlink (lit ''b'')]) (\<lambda>_.
     pbind (syscall1 Sys_fork) (\<lambda>pid1.
     if pid1 < 0 then fail_with ''grind: fork failed'' []
     else if pid1 = 0 then pbind (go fuel False (seed XOR 31)) (\<lambda>_. Exit 0) else
     pbind (syscall1 Sys_fork) (\<lambda>pid2.
     if pid2 < 0 then fail_with ''grind: fork failed'' []
     else if pid2 = 0 then pbind (go fuel True (seed XOR 7177)) (\<lambda>_. Exit 0) else
     pbind (wait_status (Some (- 1))) (\<lambda>st1.
     pbind (if st1 \<noteq> Some 0 then calls [Sys_kill pid1, Sys_kill pid2] else Done ()) (\<lambda>_.
     pbind (wait_status (Some (- 1))) (\<lambda>_.
     Exit 0))))))"

fun grind_main :: "nat \<Rightarrow> uint64 \<Rightarrow> int prog" where
  "grind_main 0 seed = Spin"
| "grind_main (Suc fuel) seed =
     pbind (syscall1 Sys_fork) (\<lambda>pid.
     if pid = 0 then iter fuel seed else
     pbind (if pid > 0 then calls [Sys_wait] else Done ()) (\<lambda>_.
     pbind (calls [Sys_pause 20]) (\<lambda>_.
     grind_main fuel (seed + 1))))"

end
