(* ===== verification/Ugrind_Facts.thy ===== *)
theory Ugrind_Facts
  imports Ugrind
begin

text \<open>The random numbers of \<open>grind\<close> are those of Park and Miller.\<close>

abbreviation (input) pm_prime :: int where "pm_prime \<equiv> 2147483647"

lemma pm_coprime: "coprime 16807 pm_prime"
  by (simp add: coprime_iff_gcd_eq_1) code_simp

lemma pm_nonzero:
  assumes "1 \<le> x" and "x < pm_prime"
  shows "16807 * x mod pm_prime \<noteq> 0"
proof
  assume "16807 * x mod pm_prime = 0"
  then have "pm_prime dvd x" using pm_coprime by (simp add: mod_eq_0_iff_dvd coprime_dvd_mult_right_iff coprime_commute)
  then show False using assms zdvd_imp_le by fastforce
qed

text \<open>Schrage's decomposition: the difference is congruent to the product and stays within 31 bits.\<close>

lemma schrage:
  assumes "1 \<le> x" and "x < pm_prime"
  defines "y \<equiv> 16807 * (x mod 127773) - 2836 * (x div 127773)"
  shows "- pm_prime < y" "y < pm_prime" "(if y < 0 then y + pm_prime else y) = 16807 * x mod pm_prime"
proof -
  have h: "0 \<le> x div 127773" "x div 127773 \<le> 16807" "0 \<le> x mod 127773" "x mod 127773 < 127773"
    using assms(1,2) by (auto simp: zdiv_mono1 intro: order_trans [OF zdiv_mono1 [of x 2147483646 127773]])
  then show b: "- pm_prime < y" "y < pm_prime" by (simp_all add: y_def)
  have "x = 127773 * (x div 127773) + x mod 127773" by simp
  then have "16807 * x = y + pm_prime * (x div 127773)" unfolding y_def by linarith
  then have "16807 * x mod pm_prime = y mod pm_prime" by (simp add: mod_mult_self2)
  moreover have "(if y < 0 then y + pm_prime else y) mod pm_prime = y mod pm_prime" by simp
  ultimately show "(if y < 0 then y + pm_prime else y) = 16807 * x mod pm_prime" using b by (auto split: if_splits)
qed


end
