(* ===== verification/Spec2Isabelle.thy ===== *)
theory Spec2Isabelle
  imports KString Kalloc Vm Vm_Properties Sched_Properties Shm Fs_Properties Boot Mkfs_Properties Uprograms_Facts Uprintf_Facts Ush_Facts Umalloc_Facts Ugrind_Facts
begin

text \<open>
  A verification development for the modified xv6 operating system under \<open>src/\<close>: the kernel (\<open>src/kernel\<close>), with copy-on-write
  fork, shared memory pages, mailboxes, symbolic links and doubly-indirect blocks added to xv6, the user library and
  programs (\<open>src/user\<close>), and the host program that builds the file system (\<open>src/mkfs\<close>).

  \<^bold>\<open>How the code is modelled.\<close> A kernel function is a definition of the same name in the monad of \<open>Xv6_Prelude\<close>: a function from a
  state to an outcome, which is a result with the next state (\<open>Ok\<close>), a call of \<open>panic\<close> with its message (\<open>Panic\<close>), the
  state in which the caller has given up the processor (\<open>Sleep\<close>), a loop that does not end in this state, such as the wait
  for a lock that is held (\<open>Block\<close>), or an access that C leaves undefined (\<open>UB\<close>). Return values are those of the C code,
  with 0 and \<open>-1\<close> for its failures. Integers keep their width where they can wrap around.

  The memory components work on \<open>phys\<close>: memory as bytes, the free list that runs through the free pages, the reference counts. All
  other state is one record that grows with the components, each extending the one before: the harts with their interrupt
  flags and all spin locks, the process table with the memory, sleep locks, mailboxes, shared pages, pipes, the serial port,
  the console, the buffer cache with the disk, the driver's queues, the log, the inode table, open files, the supervisor
  registers. An operation of an early component works on every extension of its record, so the later ones call it as the
  code does.

  A user program is the tree of the system calls it makes (\<open>prog\<close> of \<open>Uprog\<close>), branching over the kernel's answers; \<open>run\<close>
  executes a tree against a machine that answers.

  \<^bold>\<open>The theories of the kernel\<close>, with the files they model:
  \<^item> \<open>Xv6_Prelude\<close>, \<open>Xv6_Params\<close>: outcomes, the monad and its triples, bytes and words of memory; the constants and macros of
    \<open>param.h\<close>, \<open>memlayout.h\<close> and \<open>riscv.h\<close>.
  \<^item> \<open>KString\<close>: \<open>string.c\<close>. \<open>Kalloc\<close>: \<open>kalloc.c\<close>. \<open>Vm\<close>: \<open>vm.c\<close>. \<open>Spinlock\<close>: \<open>spinlock.c\<close>. \<open>Sched\<close>, \<open>Process\<close>: \<open>proc.c\<close>.
    \<open>Sleeplock\<close>: \<open>sleeplock.c\<close>. \<open>Mbox\<close>: \<open>mbox.c\<close>. \<open>Shm\<close>: \<open>shm.c\<close>. \<open>Pipe\<close>: \<open>pipe.c\<close>. \<open>Uart\<close>: \<open>uart.c\<close>. \<open>Printf\<close>: \<open>printf.c\<close>.
    \<open>Console\<close>: \<open>console.c\<close>. \<open>Bio\<close>: \<open>bio.c\<close>. \<open>Virtio\<close>: \<open>virtio_disk.c\<close>. \<open>Log\<close>: \<open>log.c\<close>. \<open>Fs\<close>: \<open>fs.c\<close>. \<open>File\<close>: \<open>file.c\<close>.
    \<open>Exec\<close>: \<open>exec.c\<close>. \<open>Sysfile\<close>: \<open>sysfile.c\<close> and the argument functions of \<open>syscall.c\<close>. \<open>Sysproc\<close>: \<open>sysproc.c\<close>.
    \<open>Machine\<close>: \<open>plic.c\<close>, the register accessors of \<open>riscv.h\<close> and the interrupts of \<open>trap.c\<close>. \<open>Trap\<close>: the rest of \<open>trap.c\<close> and the
    dispatch of \<open>syscall.c\<close>. \<open>Boot\<close>: \<open>main.c\<close>, \<open>start.c\<close> and the kernel page table.
  \<^item> \<open>Fifo\<close>: the contract of a bounded queue as a locale, interpreted by the rings of \<open>Pipe\<close> and \<open>Mbox\<close>, and circular arrays, which the
    console uses too. The locale \<open>page_allocator\<close> of \<open>Kalloc\<close> is what the virtual memory relies on.
  \<^item> \<open>Mkfs\<close>: \<open>mkfs/mkfs.c\<close>, on the list of the sectors of the image.

  \<^bold>\<open>The theories of the user programs\<close>:
  \<^item> \<open>Uprog\<close>: system calls and programs (\<open>user.h\<close>). \<open>Ulib\<close>: \<open>ulib.c\<close>. \<open>Uprintf\<close>: \<open>printf.c\<close>. \<open>Umalloc\<close>: \<open>umalloc.c\<close>. \<open>Ush\<close>: \<open>sh.c\<close>.
    \<open>Uprograms\<close>: \<open>cat.c\<close>, \<open>wc.c\<close>, \<open>grep.c\<close>, \<open>echo.c\<close>, \<open>kill.c\<close>, \<open>ln.c\<close>, \<open>mkdir.c\<close>, \<open>rm.c\<close>, \<open>zombie.c\<close>, \<open>ls.c\<close> and \<open>init.c\<close>.
    \<open>Utests\<close>: the small test programs \<open>bigfile.c\<close>, \<open>cowtest.c\<close>, \<open>dorphan.c\<close>, \<open>forphan.c\<close>, \<open>forktest.c\<close>, \<open>logstress.c\<close>, \<open>mbtest.c\<close>, \<open>shmtest.c\<close>,
    \<open>stressfs.c\<close>, \<open>symlinktest.c\<close>, \<open>master.c\<close> and \<open>process.c\<close>. \<open>Ugrind\<close>: \<open>grind.c\<close>.

  \<^bold>\<open>What the lemmas show.\<close>
  \<^item> Memory. \<open>KString\<close> gives the string routines in closed form, for every overlap. In \<open>Kalloc\<close> the free list is a list of different
    free pages, which \<open>kalloc\<close>, \<open>kfree\<close> and \<open>kinit\<close> keep. \<open>Vm_Tables\<close> sees the page tables of all address spaces as functions
    from virtual pages to entries and shows what \<open>walk\<close> and \<open>mappages\<close> do to them; \<open>Vm_Space\<close> has the invariant that
    copy-on-write rests on (a page that a space may write is mapped nowhere else); \<open>Vm_Cow\<close>, \<open>Vm_Alloc\<close> and \<open>Vm_Copy\<close> show that
    the operations keep it; \<open>Vm_Properties\<close> concludes that a fork shares memory invisibly, that a write fault separates the
    spaces, and that a copy to one space changes no byte of another.
  \<^item> Concurrency. \<open>Spinlock\<close> interleaves the harts at the atomic swap: mutual exclusion. \<open>Sched_Facts\<close> and \<open>Sched_Properties\<close>
    interleave scheduler steps: a process runs on one hart at most, and a wakeup is not lost between test and sleep.
  \<^item> Queues. Pipes, mailboxes and the console's line buffer deliver what was put in, in order.
  \<^item> Storage. \<open>Bio_Facts\<close>: the cache as a view of the disk, in order of use. \<open>Log_Facts\<close>: a commit is atomic for a crash after any
    write. \<open>Log_Space\<close>: any interleaving of operations fits into the log. \<open>Fs_Facts\<close>, \<open>Fs_Properties\<close>: reading returns what was
    written, directories and path names. \<open>Mkfs_Facts\<close>, \<open>Mkfs_Properties\<close>: the image as a forest of block addresses in which no
    block has two places; appending changes one file only; the finished image has the files, and the kernel reads them.
  \<^item> Programs. \<open>Uprograms_Facts\<close>: the matcher of \<open>grep\<close> accepts the language of its pattern; \<open>grep\<close> and \<open>wc\<close> are right however reads cut
    the input. \<open>Uprintf_Facts\<close>: formats of the right types do not go wrong. \<open>Ush_Facts\<close>: the shell makes the system calls of the
    command tree that a line denotes. \<open>Umalloc_Facts\<close>: blocks in use never overlap. \<open>Ugrind_Facts\<close>: the random
    numbers are those of Park and Miller.
  \<^item> Defects. Where the code fails, a theorem shows it: a shared page freed while its key is still listed, \<open>kill(0)\<close>, a bad user
    address in \<open>copyin\<close>, truncation of a doubly-indirect file, a commit with a full cache.

  \<^bold>\<open>Bounds.\<close> A loop over a ring or a table has the length of the table as its bound (30 buffers, 64 processes); the loops of \<open>vm.c\<close>
  have the number of pages. The bound of the parser of the shell is four times the length of the line, and the lemmas show that it
  is never reached. The loops of user programs that end with an input, and the ring of \<open>malloc\<close>, take their bound as an
  argument; the theorems give a bound that is enough.

  \<^bold>\<open>Not modelled.\<close> The assembly files (\<open>entry.S\<close>, \<open>kernelvec.S\<close>, \<open>swtch.S\<close>, \<open>trampoline.S\<close>) and the stubs that \<open>usys.pl\<close>
  generates; the flush of the translation cache, since the model translates addresses by the page table itself; the reaction of
  the disk to its registers and the interrupts that arrive, which are parameters; the timing of the serial port. The test
  suite \<open>usertests.c\<close> consists of scripts of system calls, many with raw addresses, which the byte lists of the modelled
  calls do not express; \<open>mrumem.c\<close> is not built, since it uses system calls that do not exist. Preemption inside
  the kernel is represented where the harts interact, at the spin locks and at the switches, and not between two arbitrary instructions.
\<close>

end
